(* ===== verification/Prelude.thy ===== *)
theory Prelude
  imports Main "HOL-Library.List_Lexorder" "HOL-Library.Char_ord" "HOL-Library.Sublist"
begin

text \<open>
  What every component shares: the exceptions of the program as one error type, the
  result type and its combinators (a raise is an \<open>Inl\<close> that stops the computation),
  Python's string operations on UTF-8 encoded text, and lemmas about lists sorted by a key.

  A Python \<open>str\<close> is modelled by the \<open>char list\<close> of its UTF-8 encoding. Code-point
  order is byte order under UTF-8, and splitting, joining and prefix tests at ASCII
  separators commute with the encoding, so these operations are exact; whitespace and
  line boundaries outside ASCII are recognised by their UTF-8 sequences.
\<close>

section \<open>Exceptions and results\<close>

text \<open>
  \<open>core/domain/errors.py\<close>, with the built-in exceptions the code raises or catches.
  \<open>OutOfFuel\<close> is no Python exception: it marks a loop or recursion of the model that
  used up its fuel, and every use comes with a lemma that enough fuel avoids it.
\<close>

datatype error =
    ValueError
  | CorruptEntryError
  | UnicodeDecodeError
  | TypeError
  | OverflowError
  | OSError
  | AssertionError
  | IndexError
  | KeyError
  | NotImplementedError
  | AttributeError
  | StructError
  | PatternError
  | DecodeError
  | FileNotFoundError
  | RefConflictError string string "string option" "string option"
  | OptimisticLockError
  | PreconditionFailedError
  | NonFastForwardError string string string
  | ObjectMissingError
  | SourceNotFoundError
  | BlobIntegrityError string string
  | StorageUnavailableError
  | TransferEndpointError
  | MergeConflictError "string list"
  | NotARepositoryError string
  | UnknownRefError string
  | EmptyBranchError string
  | UnknownCommitError string
  | CorruptCommitError string
  | OutOfFuel

type_synonym 'a res = "error + 'a"

definition bindE :: "'a res \<Rightarrow> ('a \<Rightarrow> 'b res) \<Rightarrow> 'b res" where
  "bindE m f = (case m of Inl e \<Rightarrow> Inl e | Inr x \<Rightarrow> f x)"

fun mapE :: "('a \<Rightarrow> 'b res) \<Rightarrow> 'a list \<Rightarrow> 'b list res" where
  "mapE f [] = Inr []"
| "mapE f (x # xs) = bindE (f x) (\<lambda>y. bindE (mapE f xs) (\<lambda>ys. Inr (y # ys)))"

fun foldE :: "('s \<Rightarrow> 'a \<Rightarrow> 's res) \<Rightarrow> 's \<Rightarrow> 'a list \<Rightarrow> 's res" where
  "foldE f s [] = Inr s"
| "foldE f s (x # xs) = bindE (f s x) (\<lambda>s'. foldE f s' xs)"

definition guardE :: "bool \<Rightarrow> error \<Rightarrow> unit res" where
  "guardE b e = (if b then Inr () else Inl e)"

lemma bindE_simps [simp]:
  "bindE (Inl e) f = Inl e" "bindE (Inr x) f = f x"
  by (simp_all add: bindE_def)

lemma guardE_simps [simp]:
  "guardE True e = Inr ()" "guardE False e = Inl e"
  by (simp_all add: guardE_def)

lemma bindE_Inr_iff: "bindE m f = Inr y \<longleftrightarrow> (\<exists>x. m = Inr x \<and> f x = Inr y)"
  by (cases m) auto

lemma guardE_Inr_iff [simp]: "guardE b e = Inr u \<longleftrightarrow> b"
  by (simp add: guardE_def)

lemma bindE_cong [fundef_cong]:
  "m = m' \<Longrightarrow> (\<And>x. m' = Inr x \<Longrightarrow> f x = f' x) \<Longrightarrow> bindE m f = bindE m' f'"
  by (cases m') auto

lemma mapE_Inr_iff: "mapE f xs = Inr ys \<longleftrightarrow> list_all2 (\<lambda>x y. f x = Inr y) xs ys"
  by (induction xs arbitrary: ys) (auto simp: bindE_Inr_iff list_all2_Cons1)

lemma mapE_Inr_map: "(\<And>x. x \<in> set xs \<Longrightarrow> f x = Inr (g x)) \<Longrightarrow> mapE f xs = Inr (map g xs)"
  by (induction xs) auto

lemma foldE_append: "foldE f s (xs @ ys) = bindE (foldE f s xs) (\<lambda>s'. foldE f s' ys)"
proof (induction xs arbitrary: s)
  case (Cons x xs)
  then show ?case by (cases "f s x") simp_all
qed simp

lemma foldE_invariant:
  assumes "foldE f s xs = Inr t" and "I s"
    and "\<And>s x s'. x \<in> set xs \<Longrightarrow> I s \<Longrightarrow> f s x = Inr s' \<Longrightarrow> I s'"
  shows "I t"
  using assms
proof (induction xs arbitrary: s)
  case (Cons x xs)
  from Cons.prems(1) obtain s' where s': "f s x = Inr s'" "foldE f s' xs = Inr t"
    by (auto simp: bindE_Inr_iff)
  moreover have "I s'" using Cons.prems(2,3) s'(1) by auto
  ultimately show ?case using Cons.prems(3) by (auto intro: Cons.IH)
qed simp

section \<open>Dictionaries\<close>

text \<open>A dictionary is an association list in insertion order; an update keeps a key's place.\<close>

fun alist_put :: "'k \<Rightarrow> 'v \<Rightarrow> ('k \<times> 'v) list \<Rightarrow> ('k \<times> 'v) list" where
  "alist_put k v [] = [(k, v)]"
| "alist_put k v (kv # kvs) = (if fst kv = k then (k, v) # kvs else kv # alist_put k v kvs)"

lemma map_of_alist_put [simp]: "map_of (alist_put k v kvs) = (map_of kvs)(k \<mapsto> v)"
  by (induction kvs) auto

lemma keys_alist_put: "fst ` set (alist_put k v kvs) = insert k (fst ` set kvs)"
  by (induction kvs) auto

lemma distinct_alist_put: "distinct (map fst kvs) \<Longrightarrow> distinct (map fst (alist_put k v kvs))"
proof (induction kvs)
  case (Cons kv kvs)
  then show ?case using keys_alist_put [of k v kvs] by auto
qed simp

section \<open>Python string operations\<close>

text \<open>\<open>s.split(sep)\<close> and \<open>sep.join(parts)\<close> for a one-character separator.\<close>

fun split_on :: "'a \<Rightarrow> 'a list \<Rightarrow> 'a list list" where
  "split_on x [] = [[]]"
| "split_on x (y # ys) =
     (if y = x then [] # split_on x ys
      else (case split_on x ys of [] \<Rightarrow> [[y]] | p # ps \<Rightarrow> (y # p) # ps))"

fun join_on :: "'a \<Rightarrow> 'a list list \<Rightarrow> 'a list" where
  "join_on x [] = []"
| "join_on x [p] = p"
| "join_on x (p # q # ps) = p @ x # join_on x (q # ps)"

lemma split_on_not_Nil [simp]: "split_on x ys \<noteq> []"
  by (cases ys) (auto split: list.split)

lemma join_split [simp]: "join_on x (split_on x ys) = ys"
proof (induction ys)
  case (Cons y ys)
  show ?case
  proof (cases "split_on x ys")
    case (Cons p ps)
    with \<open>join_on x (split_on x ys) = ys\<close> show ?thesis
      by (cases ps) auto
  qed simp
qed simp

lemma split_on_no_sep: "x \<notin> set p \<Longrightarrow> split_on x p = [p]"
  by (induction p) auto

lemma split_on_append: "x \<notin> set p \<Longrightarrow> split_on x (p @ x # ys) = p # split_on x ys"
  by (induction p) auto

lemma split_on_middle: "split_on c (v @ c # x) = split_on c v @ split_on c x"
  by (induction v) (auto split: list.split)

lemma split_join: "ps \<noteq> [] \<Longrightarrow> \<forall>p \<in> set ps. x \<notin> set p \<Longrightarrow> split_on x (join_on x ps) = ps"
  by (induction x ps rule: join_on.induct) (auto simp: split_on_no_sep split_on_append)

lemma split_on_parts: "p \<in> set (split_on x ys) \<Longrightarrow> x \<notin> set p"
proof (induction ys arbitrary: p)
  case (Cons y ys)
  then show ?case by (cases "split_on x ys") (auto split: if_splits)
qed simp

lemma join_on_append:
  "ps \<noteq> [] \<Longrightarrow> qs \<noteq> [] \<Longrightarrow> join_on x (ps @ qs) = join_on x ps @ x # join_on x qs"
  by (induction x ps rule: join_on.induct) (auto simp: neq_Nil_conv)

lemma split_on_inj: "split_on x p = split_on x q \<Longrightarrow> p = q"
  by (metis join_split)

text \<open>\<open>s.strip()\<close>: the length of the whitespace character a text starts with, 0 if none.\<close>

definition ws_ascii :: "char \<Rightarrow> bool" where
  "ws_ascii c \<longleftrightarrow> c \<in> set [CHR 0x20, CHR 0x09, CHR 0x0A, CHR 0x0B, CHR 0x0C, CHR 0x0D]"

definition ws_len_bytes :: "string \<Rightarrow> nat" where
  "ws_len_bytes s = (case s of [] \<Rightarrow> 0 | c # _ \<Rightarrow> if ws_ascii c then 1 else 0)"

text \<open>U+0085, U+00A0, U+1680, U+2000 to U+200A, U+2028, U+2029, U+202F, U+205F, U+3000.\<close>

definition ws_wide :: "string list" where
  "ws_wide =
     [[CHR 0xC2, CHR 0x85], [CHR 0xC2, CHR 0xA0], [CHR 0xE1, CHR 0x9A, CHR 0x80],
      [CHR 0xE2, CHR 0x80, CHR 0x80], [CHR 0xE2, CHR 0x80, CHR 0x81],
      [CHR 0xE2, CHR 0x80, CHR 0x82], [CHR 0xE2, CHR 0x80, CHR 0x83],
      [CHR 0xE2, CHR 0x80, CHR 0x84], [CHR 0xE2, CHR 0x80, CHR 0x85],
      [CHR 0xE2, CHR 0x80, CHR 0x86], [CHR 0xE2, CHR 0x80, CHR 0x87],
      [CHR 0xE2, CHR 0x80, CHR 0x88], [CHR 0xE2, CHR 0x80, CHR 0x89],
      [CHR 0xE2, CHR 0x80, CHR 0x8A], [CHR 0xE2, CHR 0x80, CHR 0xA8],
      [CHR 0xE2, CHR 0x80, CHR 0xA9], [CHR 0xE2, CHR 0x80, CHR 0xAF],
      [CHR 0xE2, CHR 0x81, CHR 0x9F], [CHR 0xE3, CHR 0x80, CHR 0x80]]"

definition ws_single :: "char \<Rightarrow> bool" where
  "ws_single c \<longleftrightarrow> ws_ascii c \<or> c \<in> set [CHR 0x1C, CHR 0x1D, CHR 0x1E, CHR 0x1F]"

definition ws_len_by :: "string list \<Rightarrow> string \<Rightarrow> nat" where
  "ws_len_by wide s =
     (case s of [] \<Rightarrow> 0
      | c # _ \<Rightarrow> if ws_single c then 1
          else (case find (\<lambda>w. prefix w s) wide of None \<Rightarrow> 0 | Some w \<Rightarrow> length w))"

function strip_left :: "(string \<Rightarrow> nat) \<Rightarrow> string \<Rightarrow> string" where
  "strip_left wl s = (if s = [] \<or> wl s = 0 then s else strip_left wl (drop (wl s) s))"
  by pat_completeness auto
termination
  by (relation "measure (\<lambda>(wl, s). length s)") auto

declare strip_left.simps [simp del]

definition strip :: "string \<Rightarrow> string" where
  "strip s = rev (strip_left (ws_len_by (map rev ws_wide)) (rev (strip_left (ws_len_by ws_wide) s)))"

definition strip_bytes :: "string \<Rightarrow> string" where
  "strip_bytes s = rev (strip_left ws_len_bytes (rev (strip_left ws_len_bytes s)))"

text \<open>\<open>s.strip(c)\<close> and its one-sided forms for a character.\<close>

definition lstrip_char :: "char \<Rightarrow> string \<Rightarrow> string" where
  "lstrip_char c s = dropWhile (\<lambda>d. d = c) s"

definition rstrip_char :: "char \<Rightarrow> string \<Rightarrow> string" where
  "rstrip_char c s = rev (dropWhile (\<lambda>d. d = c) (rev s))"

definition strip_char :: "char \<Rightarrow> string \<Rightarrow> string" where
  "strip_char c s = rstrip_char c (lstrip_char c s)"

text \<open>
  \<open>splitlines()\<close>: \<open>brk\<close> gives the length of the line boundary a text starts with,
  0 if none. The accumulator holds the current line in reverse, the counter the bytes
  of a boundary still to be dropped.
\<close>

fun splitlines_by :: "(string \<Rightarrow> nat) \<Rightarrow> nat \<Rightarrow> string \<Rightarrow> string \<Rightarrow> string list" where
  "splitlines_by brk k acc [] = (if acc = [] then [] else [rev acc])"
| "splitlines_by brk (Suc k) acc (c # cs) = splitlines_by brk k acc cs"
| "splitlines_by brk 0 acc (c # cs) =
     (case brk (c # cs) of
        0 \<Rightarrow> splitlines_by brk 0 (c # acc) cs
      | Suc k \<Rightarrow> rev acc # splitlines_by brk k [] cs)"

definition brk_bytes :: "string \<Rightarrow> nat" where
  "brk_bytes s =
     (if prefix [CHR 0x0D, CHR 0x0A] s then 2
      else if prefix [CHR 0x0A] s \<or> prefix [CHR 0x0D] s then 1 else 0)"

text \<open>Text adds VT, FF, FS, GS, RS, U+0085, U+2028 and U+2029.\<close>

definition brk_str :: "string \<Rightarrow> nat" where
  "brk_str s =
     (if brk_bytes s \<noteq> 0 then brk_bytes s
      else if s \<noteq> [] \<and> hd s \<in> set [CHR 0x0B, CHR 0x0C, CHR 0x1C, CHR 0x1D, CHR 0x1E] then 1
      else if prefix [CHR 0xC2, CHR 0x85] s then 2
      else if prefix [CHR 0xE2, CHR 0x80, CHR 0xA8] s \<or> prefix [CHR 0xE2, CHR 0x80, CHR 0xA9] s
        then 3 else 0)"

definition splitlines_bytes :: "string \<Rightarrow> string list" where
  "splitlines_bytes s = splitlines_by brk_bytes 0 [] s"

definition splitlines :: "string \<Rightarrow> string list" where
  "splitlines s = splitlines_by brk_str 0 [] s"

text \<open>Decimal notation of a number: \<open>f"{n}"\<close>.\<close>

definition digit_char :: "nat \<Rightarrow> char" where
  "digit_char d = char_of (d + 48)"

function show_nat :: "nat \<Rightarrow> string" where
  "show_nat n = (if n < 10 then [digit_char n] else show_nat (n div 10) @ [digit_char (n mod 10)])"
  by pat_completeness auto
termination
  by (relation "measure id") auto

declare show_nat.simps [simp del]

definition show_int :: "int \<Rightarrow> string" where
  "show_int i = (if i < 0 then CHR ''-'' # show_nat (nat (- i)) else show_nat (nat i))"

section \<open>Stateful operations\<close>

text \<open>
  An operation on a state that may raise: the state it returns with an exception is the
  one the writes before the raise have left behind.
\<close>

type_synonym ('s, 'a) sm = "'s \<Rightarrow> 'a res \<times> 's"

definition returnS :: "'a \<Rightarrow> ('s, 'a) sm" where
  "returnS x s = (Inr x, s)"

definition raiseS :: "error \<Rightarrow> ('s, 'a) sm" where
  "raiseS e s = (Inl e, s)"

definition liftS :: "'a res \<Rightarrow> ('s, 'a) sm" where
  "liftS r s = (r, s)"

definition bindS :: "('s, 'a) sm \<Rightarrow> ('a \<Rightarrow> ('s, 'b) sm) \<Rightarrow> ('s, 'b) sm" where
  "bindS m f s = (case m s of (Inl e, s') \<Rightarrow> (Inl e, s') | (Inr x, s') \<Rightarrow> f x s')"

fun mapS :: "('a \<Rightarrow> ('s, 'b) sm) \<Rightarrow> 'a list \<Rightarrow> ('s, 'b list) sm" where
  "mapS f [] = returnS []"
| "mapS f (x # xs) = bindS (f x) (\<lambda>y. bindS (mapS f xs) (\<lambda>ys. returnS (y # ys)))"

fun foldS :: "('t \<Rightarrow> 'a \<Rightarrow> ('s, 't) sm) \<Rightarrow> 't \<Rightarrow> 'a list \<Rightarrow> ('s, 't) sm" where
  "foldS f t [] = returnS t"
| "foldS f t (x # xs) = bindS (f t x) (\<lambda>t'. foldS f t' xs)"

lemma sm_simps [simp]:
  "returnS x s = (Inr x, s)" "raiseS e s = (Inl e, s)" "liftS r s = (r, s)"
  by (simp_all add: returnS_def raiseS_def liftS_def)

lemma bindS_simps [simp]:
  "m s = (Inl e, s') \<Longrightarrow> bindS m f s = (Inl e, s')"
  "m s = (Inr x, s') \<Longrightarrow> bindS m f s = f x s'"
  by (simp_all add: bindS_def)

lemma bindS_Inr: "bindS m f s = (Inr y, t) \<longleftrightarrow> (\<exists>x s'. m s = (Inr x, s') \<and> f x s' = (Inr y, t))"
  by (auto simp: bindS_def split: sum.splits prod.splits)

lemma bindS_cong [fundef_cong]:
  "m s = m' s' \<Longrightarrow> (\<And>x s1. m' s' = (Inr x, s1) \<Longrightarrow> f x s1 = f' x s1) \<Longrightarrow> bindS m f s = bindS m' f' s'"
  by (auto simp: bindS_def split: sum.splits prod.splits)

lemma foldS_invariant:
  assumes "foldS f t xs s = (Inr t', s')" and "I t s"
    and "\<And>t x s t1 s1. x \<in> set xs \<Longrightarrow> I t s \<Longrightarrow> f t x s = (Inr t1, s1) \<Longrightarrow> I t1 s1"
  shows "I t' s'"
  using assms
proof (induction xs arbitrary: t s)
  case (Cons x xs)
  from Cons.prems(1) obtain t1 s1 where "f t x s = (Inr t1, s1)" "foldS f t1 xs s1 = (Inr t', s')"
    by (auto simp: bindS_Inr)
  moreover from this(1) have "I t1 s1" by (rule Cons.prems(3) [OF _ Cons.prems(2), rotated]) simp
  ultimately show ?case
  proof (elim Cons.IH)
    fix y u v u1 v1
    assume "y \<in> set xs" "I u v" "f u y v = (Inr u1, v1)"
    with Cons.prems(3) [of y u v u1 v1] show "I u1 v1" by simp
  qed
qed simp

end
