(* ===== verification/Json.thy ===== *)
theory Json
  imports Prelude Complex_Main
begin

text \<open>
  JSON values as the program sees them, Python's \<open>str()\<close> and \<open>int()\<close> on them, and the
  record \<open>prims\<close> of the functions the program takes from packages outside the
  repository: the BLAKE3 digest, the \<open>msgspec\<close> JSON codec with its pretty printer, the
  standard library's \<open>json.loads\<close>, and the \<open>repr\<close> of a float or container. Every definition that
  depends on one takes the record as an argument; \<open>codec_ok\<close> states the documented behaviour of
  the codec on the lines the program writes.
\<close>

section \<open>Values\<close>

text \<open>A Python float: an IEEE double is a rational number, an infinity or NaN.\<close>

datatype pyfloat = Finite rat | PosInf | NegInf | NaN

datatype json =
    JNull
  | JBool bool
  | JInt int
  | JFloat pyfloat
  | JStr string
  | JArr "json list"
  | JObj "(string \<times> json) list"

record prims =
  blake3 :: "string \<Rightarrow> string"
  json_encode :: "json \<Rightarrow> string"
  json_decode :: "string \<Rightarrow> json option"
  repr_value :: "json \<Rightarrow> string"
  json_format :: "string \<Rightarrow> string"
  json_loads :: "string \<Rightarrow> json option"
  shard_max :: nat

text \<open>
  \<open>shard_max\<close> is the module variable \<open>MAX_TREE_ENTRIES\<close> of \<open>objects/tree.py\<close>: 10,000
  in production, and set to 3 or 8 by the repository's own tests.
\<close>

definition MAX_TREE_ENTRIES :: nat where
  "MAX_TREE_ENTRIES = 10000"

section \<open>str and int\<close>

definition py_str :: "prims \<Rightarrow> json \<Rightarrow> string" where
  "py_str P v =
     (case v of
        JStr s \<Rightarrow> s
      | JInt i \<Rightarrow> show_int i
      | JNull \<Rightarrow> ''None''
      | JBool b \<Rightarrow> (if b then ''True'' else ''False'')
      | _ \<Rightarrow> repr_value P v)"

text \<open>
  \<open>int(s)\<close> on text: surrounding whitespace, an optional sign, digits with single
  underscores between them. (Decimal digits outside ASCII are not modelled.)
\<close>

definition digit_val :: "char \<Rightarrow> nat option" where
  "digit_val c = (let n = of_char c in if 48 \<le> n \<and> n \<le> 57 then Some (n - 48) else None)"

fun digits_val :: "bool \<Rightarrow> nat \<Rightarrow> string \<Rightarrow> nat option" where
  "digits_val after_digit acc [] = (if after_digit then Some acc else None)"
| "digits_val after_digit acc (c # cs) =
     (case digit_val c of
        Some d \<Rightarrow> digits_val True (10 * acc + d) cs
      | None \<Rightarrow> if c = CHR ''_'' \<and> after_digit then digits_val False acc cs else None)"

definition int_of_text :: "string \<Rightarrow> int res" where
  "int_of_text s =
     (let t = strip s;
          r = (case t of
                 [] \<Rightarrow> None
               | c # cs \<Rightarrow>
                   if c = CHR ''-'' then map_option (\<lambda>n. - int n) (digits_val False 0 cs)
                   else if c = CHR ''+'' then map_option int (digits_val False 0 cs)
                   else map_option int (digits_val False 0 t))
      in case r of None \<Rightarrow> Inl ValueError | Some i \<Rightarrow> Inr i)"

definition trunc_rat :: "rat \<Rightarrow> int" where
  "trunc_rat q = (if q < 0 then - \<lfloor>- q\<rfloor> else \<lfloor>q\<rfloor>)"

definition py_int :: "json \<Rightarrow> int res" where
  "py_int v =
     (case v of
        JInt i \<Rightarrow> Inr i
      | JBool b \<Rightarrow> Inr (if b then 1 else 0)
      | JFloat (Finite q) \<Rightarrow> Inr (trunc_rat q)
      | JFloat NaN \<Rightarrow> Inl ValueError
      | JFloat _ \<Rightarrow> Inl OverflowError
      | JStr s \<Rightarrow> int_of_text s
      | _ \<Rightarrow> Inl TypeError)"

lemma py_str_simps [simp]:
  "py_str P (JStr s) = s" "py_str P (JInt i) = show_int i" "py_str P JNull = ''None''"
  by (simp_all add: py_str_def)

lemma py_int_JInt [simp]: "py_int (JInt i) = Inr i"
  by (simp add: py_int_def)

section \<open>UTF-8\<close>

text \<open>
  \<open>payload.decode("utf-8")\<close> fails on bytes that are not UTF-8. The scanner state is
  the number of continuation bytes still due and the range of the next one.
\<close>

definition utf8_step :: "nat \<times> nat \<times> nat \<Rightarrow> char \<Rightarrow> (nat \<times> nat \<times> nat) option" where
  "utf8_step st c =
     (case st of (k, lo, hi) \<Rightarrow>
       let n = of_char c :: nat in
       if k > 0 then (if lo \<le> n \<and> n \<le> hi then Some (k - 1, 128, 191) else None)
       else if n < 128 then Some (0, 128, 191)
       else if 194 \<le> n \<and> n \<le> 223 then Some (1, 128, 191)
       else if n = 224 then Some (2, 160, 191)
       else if n = 237 then Some (2, 128, 159)
       else if 225 \<le> n \<and> n \<le> 239 then Some (2, 128, 191)
       else if n = 240 then Some (3, 144, 191)
       else if 241 \<le> n \<and> n \<le> 243 then Some (3, 128, 191)
       else if n = 244 then Some (3, 128, 143)
       else None)"

fun utf8_run :: "nat \<times> nat \<times> nat \<Rightarrow> string \<Rightarrow> (nat \<times> nat \<times> nat) option" where
  "utf8_run st [] = Some st"
| "utf8_run st (c # cs) = (case utf8_step st c of None \<Rightarrow> None | Some st' \<Rightarrow> utf8_run st' cs)"

definition utf8_start :: "nat \<times> nat \<times> nat" where
  "utf8_start = (0, 128, 191)"

definition utf8_ok :: "string \<Rightarrow> bool" where
  "utf8_ok s \<longleftrightarrow> utf8_run utf8_start s = Some utf8_start"

lemma utf8_run_append:
  "utf8_run st (xs @ ys) = (case utf8_run st xs of None \<Rightarrow> None | Some st' \<Rightarrow> utf8_run st' ys)"
  by (induction xs arbitrary: st) (auto split: option.split)

lemma utf8_ok_append: "utf8_ok xs \<Longrightarrow> utf8_ok ys \<Longrightarrow> utf8_ok (xs @ ys)"
  by (simp add: utf8_ok_def utf8_run_append)

lemma utf8_ok_Nil [simp]: "utf8_ok []"
  by (simp add: utf8_ok_def)

lemma utf8_ok_ascii: "\<forall>c \<in> set s. (of_char c :: nat) < 128 \<Longrightarrow> utf8_ok s"
  by (induction s) (simp_all add: utf8_ok_def utf8_start_def utf8_step_def)

section \<open>What the program relies on of the JSON codec\<close>

text \<open>A line payload: an array of strings, integers and null.\<close>

fun json_scalar :: "json \<Rightarrow> bool" where
  "json_scalar (JStr s) = True"
| "json_scalar (JInt i) = True"
| "json_scalar JNull = True"
| "json_scalar _ = False"

text \<open>
  \<open>no_break brk s\<close>: no line boundary starts inside \<open>s\<close>, whatever text starting with a
  line feed follows it.
\<close>

definition no_break :: "(string \<Rightarrow> nat) \<Rightarrow> string \<Rightarrow> bool" where
  "no_break brk s \<longleftrightarrow> (\<forall>i < length s. \<forall>rest. brk (drop i s @ CHR 0x0A # rest) = 0)"

text \<open>Text without the line boundaries that JSON does not escape.\<close>

definition plain_text :: "string \<Rightarrow> bool" where
  "plain_text s \<longleftrightarrow>
     \<not> sublist [CHR 0xC2, CHR 0x85] s \<and> \<not> sublist [CHR 0xE2, CHR 0x80, CHR 0xA8] s \<and>
     \<not> sublist [CHR 0xE2, CHR 0x80, CHR 0xA9] s"

fun plain_scalar :: "json \<Rightarrow> bool" where
  "plain_scalar (JStr s) = plain_text s"
| "plain_scalar _ = True"

definition codec_ok :: "prims \<Rightarrow> bool" where
  "codec_ok P \<longleftrightarrow>
     (\<forall>xs. list_all json_scalar xs \<longrightarrow>
        json_decode P (json_encode P (JArr xs)) = Some (JArr xs)
      \<and> utf8_ok (json_encode P (JArr xs))
      \<and> (\<exists>body. json_encode P (JArr xs) = CHR ''['' # body @ [CHR '']''])
      \<and> no_break brk_bytes (json_encode P (JArr xs))
      \<and> (list_all plain_scalar xs \<longrightarrow> no_break brk_str (json_encode P (JArr xs))))"

end
