(* ===== verification/Entry_Codec.thy ===== *)
theory Entry_Codec
  imports Json
begin

text \<open>
  \<open>core/entry_codec.py\<close>: the entry record shared by manifests and trees, its validation
  (\<open>__post_init__\<close>), and the codec of its positional JSON line. The lemmas: whatever
  parses is valid, a valid entry survives \<open>serialize\<close> and \<open>parse\<close>, and \<open>replace(entry,
  path=...)\<close> re-validates nothing but the path.
\<close>

section \<open>Kinds\<close>

datatype kind = KIND_BLOB | KIND_META | KIND_BP | KIND_MP | KIND_TREE | KIND_SHARD

definition kind_str :: "kind \<Rightarrow> string" where
  "kind_str k =
     (case k of KIND_BLOB \<Rightarrow> ''b'' | KIND_META \<Rightarrow> ''m'' | KIND_BP \<Rightarrow> ''bp''
      | KIND_MP \<Rightarrow> ''mp'' | KIND_TREE \<Rightarrow> ''t'' | KIND_SHARD \<Rightarrow> ''s'')"

text \<open>Membership in \<open>SUPPORTED_KINDS\<close>, with the kind it names.\<close>

definition kind_of_str :: "string \<Rightarrow> kind option" where
  "kind_of_str s =
     (if s = ''b'' then Some KIND_BLOB else if s = ''m'' then Some KIND_META
      else if s = ''bp'' then Some KIND_BP else if s = ''mp'' then Some KIND_MP
      else if s = ''t'' then Some KIND_TREE else if s = ''s'' then Some KIND_SHARD else None)"

definition subtree_kind :: "kind \<Rightarrow> bool" where
  "subtree_kind k \<longleftrightarrow> k \<in> {KIND_TREE, KIND_SHARD}"

definition arity_by_kind :: "kind \<Rightarrow> (nat \<times> nat) option" where
  "arity_by_kind k =
     (case k of KIND_BLOB \<Rightarrow> Some (5, 5) | KIND_META \<Rightarrow> Some (6, 7) | KIND_BP \<Rightarrow> Some (6, 6)
      | KIND_MP \<Rightarrow> Some (7, 8) | _ \<Rightarrow> None)"

lemma kind_of_kind_str [simp]: "kind_of_str (kind_str k) = Some k"
  by (cases k) (simp_all add: kind_of_str_def kind_str_def)

lemma kind_of_str_SomeD: "kind_of_str s = Some k \<Longrightarrow> s = kind_str k"
  by (auto simp: kind_of_str_def kind_str_def split: if_splits)

section \<open>Validation\<close>

definition hex_digit :: "char \<Rightarrow> bool" where
  "hex_digit c \<longleftrightarrow> (let n = of_char c :: nat in (48 \<le> n \<and> n \<le> 57) \<or> (97 \<le> n \<and> n \<le> 102))"

definition is_hex_digest :: "string \<Rightarrow> bool" where
  "is_hex_digest s \<longleftrightarrow> length s = 64 \<and> list_all hex_digit s"

definition slash :: char where
  "slash = CHR ''/''"

definition split_path :: "string \<Rightarrow> string list" where
  "split_path p = split_on (CHR ''/'') p"

definition join_path :: "string list \<Rightarrow> string" where
  "join_path ps = join_on (CHR ''/'') ps"

definition validate_entry_path :: "string \<Rightarrow> unit res" where
  "validate_entry_path path =
     (if path = [] \<or> hd path = CHR ''/'' \<or> last path = CHR ''/'' then Inl ValueError
      else if CHR 0x5C \<in> set path \<or> sublist ''//'' path then Inl ValueError
      else if \<exists>part \<in> set (split_path path). part \<in> {[], ''.'', ''..''} then Inl ValueError
      else Inr ())"

record entry =
  e_path :: string
  e_kind :: kind
  e_hash :: string
  e_size :: int
  e_mtime :: int
  e_uri :: "string option"
  e_footer :: "string option"
  e_etag :: "string option"

definition truthy :: "string option \<Rightarrow> bool" where
  "truthy s \<longleftrightarrow> s \<noteq> None \<and> s \<noteq> Some []"

definition validate_leaf ::
  "kind \<Rightarrow> string option \<Rightarrow> string option \<Rightarrow> string option \<Rightarrow> unit res" where
  "validate_leaf k source_uri footer source_etag =
     (if subtree_kind k then Inl ValueError
      else bindE
        (if k \<in> {KIND_BLOB, KIND_BP} then
           (if source_uri \<noteq> None then Inl ValueError
            else if source_etag \<noteq> None then Inl ValueError else Inr ())
         else
           (if \<not> truthy source_uri then Inl ValueError
            else if (case source_etag of Some t \<Rightarrow> strip t = [] | None \<Rightarrow> False)
              then Inl ValueError else Inr ()))
        (\<lambda>_. if k \<in> {KIND_BP, KIND_MP} then
                (if \<not> truthy footer then Inl ValueError else Inr ())
              else if footer \<noteq> None then Inl ValueError else Inr ()))"

text \<open>\<open>Entry.__post_init__\<close>: the path first, then every other field.\<close>

definition post_init_fields :: "entry \<Rightarrow> unit res" where
  "post_init_fields e =
      (if \<not> is_hex_digest (e_hash e) then Inl ValueError
       else if e_size e < 0 then Inl ValueError
       else if e_mtime e < 0 then Inl ValueError
       else if subtree_kind (e_kind e) then
         (if e_size e \<noteq> 0 \<or> e_mtime e \<noteq> 0 \<or> truthy (e_uri e) \<or> truthy (e_footer e)
             \<or> truthy (e_etag e)
          then Inl ValueError else Inr ())
       else bindE (validate_leaf (e_kind e) (e_uri e) (e_footer e) (e_etag e)) (\<lambda>_.
         if (case e_footer e of Some f \<Rightarrow> \<not> is_hex_digest f | None \<Rightarrow> False) then Inl ValueError
         else if (case e_uri e of Some u \<Rightarrow> strip u = [] | None \<Rightarrow> False) then Inl ValueError
         else Inr ()))"

definition post_init :: "entry \<Rightarrow> unit res" where
  "post_init e = bindE (validate_entry_path (e_path e)) (\<lambda>_. post_init_fields e)"

text \<open>The constructor \<open>Entry(path=..., kind=..., ...)\<close>: the kind arrives as text.\<close>

definition make_entry ::
  "string \<Rightarrow> string \<Rightarrow> string \<Rightarrow> int \<Rightarrow> int \<Rightarrow> string option \<Rightarrow> string option \<Rightarrow> string option
     \<Rightarrow> entry res" where
  "make_entry path knd hash sz mtime_ns source_uri footer source_etag =
     bindE (validate_entry_path path) (\<lambda>_.
       case kind_of_str knd of
         None \<Rightarrow> Inl ValueError
       | Some k \<Rightarrow>
           let e = \<lparr>e_path = path, e_kind = k, e_hash = hash, e_size = sz,
                    e_mtime = mtime_ns, e_uri = source_uri, e_footer = footer,
                    e_etag = source_etag\<rparr>
           in bindE (post_init e) (\<lambda>_. Inr e))"

text \<open>\<open>dataclasses.replace(entry, path=...)\<close> runs \<open>__post_init__\<close> again.\<close>

definition replace_path :: "entry \<Rightarrow> string \<Rightarrow> entry res" where
  "replace_path e path = (let e' = e\<lparr>e_path := path\<rparr> in bindE (post_init e') (\<lambda>_. Inr e'))"

definition is_subtree :: "entry \<Rightarrow> bool" where
  "is_subtree e \<longleftrightarrow> subtree_kind (e_kind e)"

definition identity_mode :: "entry \<Rightarrow> string option" where
  "identity_mode e =
     (if subtree_kind (e_kind e) then None
      else if e_kind e \<in> {KIND_BLOB, KIND_BP} then Some ''content'' else Some ''pointer'')"

definition blob_hash :: "entry \<Rightarrow> string option" where
  "blob_hash e = (if identity_mode e = Some ''content'' then Some (e_hash e) else None)"

definition leaf_kind_for :: "string \<Rightarrow> bool \<Rightarrow> kind res" where
  "leaf_kind_for mode has_footer =
     (if mode = ''content'' then Inr (if has_footer then KIND_BP else KIND_BLOB)
      else if mode = ''pointer'' then Inr (if has_footer then KIND_MP else KIND_META)
      else Inl ValueError)"

definition with_identity ::
  "string \<Rightarrow> string \<Rightarrow> int \<Rightarrow> int \<Rightarrow> string \<Rightarrow> string option \<Rightarrow> string option \<Rightarrow> string option
     \<Rightarrow> entry res" where
  "with_identity path hash_value sz mtime_ns mode source_uri footer source_etag =
     bindE (leaf_kind_for mode (footer \<noteq> None)) (\<lambda>k.
       make_entry path (kind_str k) hash_value sz mtime_ns source_uri footer source_etag)"

section \<open>The line codec\<close>

definition opt_json :: "string option \<Rightarrow> json" where
  "opt_json s = (case s of None \<Rightarrow> JNull | Some t \<Rightarrow> JStr t)"

definition leaf_payload ::
  "kind \<Rightarrow> string \<Rightarrow> string \<Rightarrow> int \<Rightarrow> int \<Rightarrow> string option \<Rightarrow> string option \<Rightarrow> string option
     \<Rightarrow> json list" where
  "leaf_payload k name hash_value sz mtime_ns source_uri footer source_etag =
     [JStr (kind_str k), JStr name, JStr hash_value, JInt sz, JInt mtime_ns]
     @ (if k \<in> {KIND_META, KIND_MP} then [opt_json source_uri] else [])
     @ (if k \<in> {KIND_BP, KIND_MP} then [opt_json footer] else [])
     @ (if k \<in> {KIND_META, KIND_MP} \<and> source_etag \<noteq> None then [opt_json source_etag] else [])"

definition encode_leaf_parts ::
  "prims \<Rightarrow> kind \<Rightarrow> string \<Rightarrow> string \<Rightarrow> int \<Rightarrow> int \<Rightarrow> string option \<Rightarrow> string option \<Rightarrow> string option
     \<Rightarrow> string" where
  "encode_leaf_parts P k name hash_value sz mtime_ns source_uri footer source_etag =
     json_encode P (JArr (leaf_payload k name hash_value sz mtime_ns source_uri footer source_etag))"

definition encode_leaf :: "prims \<Rightarrow> entry \<Rightarrow> string" where
  "encode_leaf P e =
     encode_leaf_parts P (e_kind e) (e_path e) (e_hash e) (e_size e) (e_mtime e)
       (e_uri e) (e_footer e) (e_etag e)"

definition serialize :: "prims \<Rightarrow> entry \<Rightarrow> string" where
  "serialize P e =
     (if is_subtree e then json_encode P (JArr [JStr (kind_str (e_kind e)), JStr (e_path e), JStr (e_hash e)])
      else encode_leaf P e)"

text \<open>\<open>None if payload[i] is None else str(payload[i])\<close>.\<close>

definition opt_str :: "prims \<Rightarrow> json \<Rightarrow> string option" where
  "opt_str P v = (if v = JNull then None else Some (py_str P v))"

definition entry_from_leaf_payload :: "prims \<Rightarrow> kind \<Rightarrow> json list \<Rightarrow> entry res" where
  "entry_from_leaf_payload P k payload =
     (case arity_by_kind k of
        None \<Rightarrow> Inl ValueError
      | Some (lo, hi) \<Rightarrow>
          if \<not> (lo \<le> length payload \<and> length payload \<le> hi) then Inl ValueError
          else
            let source_uri =
                  (if k \<in> {KIND_META, KIND_MP} then Some (py_str P (payload ! 5)) else None);
                footer =
                  (if k = KIND_MP then Some (py_str P (payload ! 6))
                   else if k = KIND_BP then Some (py_str P (payload ! 5)) else None);
                source_etag =
                  (if k = KIND_META \<and> length payload \<ge> 7 then opt_str P (payload ! 6)
                   else if k = KIND_MP \<and> length payload \<ge> 8 then opt_str P (payload ! 7)
                   else None)
            in bindE (py_int (payload ! 3)) (\<lambda>sz.
               bindE (py_int (payload ! 4)) (\<lambda>mtime_ns.
                 make_entry (py_str P (payload ! 1)) (kind_str k) (py_str P (payload ! 2))
                   sz mtime_ns source_uri footer source_etag)))"

definition parse_entry :: "prims \<Rightarrow> string \<Rightarrow> entry res" where
  "parse_entry P line =
     (case json_decode P line of
        None \<Rightarrow> Inl CorruptEntryError
      | Some (JArr payload) \<Rightarrow>
          if payload = [] then Inl ValueError
          else (case kind_of_str (py_str P (payload ! 0)) of
                  None \<Rightarrow> Inl ValueError
                | Some k \<Rightarrow>
                    if subtree_kind k then
                      (if length payload < 3 then Inl ValueError
                       else make_entry (py_str P (payload ! 1)) (kind_str k)
                              (py_str P (payload ! 2)) 0 0 None None None)
                    else entry_from_leaf_payload P k payload)
      | Some _ \<Rightarrow> Inl ValueError)"

definition decode_leaf :: "prims \<Rightarrow> string \<Rightarrow> entry res" where
  "decode_leaf P line =
     bindE (parse_entry P line) (\<lambda>e. if is_subtree e then Inl ValueError else Inr e)"

section \<open>Validity\<close>

text \<open>
  The entries that exist at run time: the dataclass is frozen and checked on construction.
  Subtree pointers are only ever built without their optional fields.
\<close>

definition entry_ok :: "entry \<Rightarrow> bool" where
  "entry_ok e \<longleftrightarrow> post_init e = Inr () \<and>
     (is_subtree e \<longrightarrow> e_uri e = None \<and> e_footer e = None \<and> e_etag e = None)"

lemma post_init_path: "post_init e = Inr () \<Longrightarrow> validate_entry_path (e_path e) = Inr ()"
  by (simp add: post_init_def bindE_Inr_iff)

lemma entry_ok_path: "entry_ok e \<Longrightarrow> validate_entry_path (e_path e) = Inr ()"
  by (simp add: entry_ok_def post_init_path)

lemma make_entry_Inr:
  "make_entry p knd h sz mt u f t = Inr e \<longleftrightarrow>
     post_init e = Inr () \<and> kind_of_str knd = Some (e_kind e) \<and> e_path e = p \<and> e_hash e = h \<and>
     e_size e = sz \<and> e_mtime e = mt \<and> e_uri e = u \<and> e_footer e = f \<and> e_etag e = t"
  (is "?l = Inr e \<longleftrightarrow> ?r")
proof
  show "?l = Inr e \<Longrightarrow> ?r"
    by (auto simp: make_entry_def bindE_Inr_iff Let_def split: option.splits)
next
  assume r: ?r
  then have "validate_entry_path p = Inr ()" by (auto dest: post_init_path)
  moreover have eq: "\<lparr>e_path = p, e_kind = e_kind e, e_hash = h, e_size = sz, e_mtime = mt,
      e_uri = u, e_footer = f, e_etag = t\<rparr> = e"
    using r by auto
  ultimately show "?l = Inr e" using r by (simp add: make_entry_def Let_def eq del: entry.iffs)
qed

lemma opt_str_opt_json [simp]: "opt_str P (opt_json s) = s"
  by (cases s) (simp_all add: opt_str_def opt_json_def)

lemma subtree_kind_simps [simp]:
  "subtree_kind KIND_TREE" "subtree_kind KIND_SHARD" "\<not> subtree_kind KIND_BLOB"
  "\<not> subtree_kind KIND_META" "\<not> subtree_kind KIND_BP" "\<not> subtree_kind KIND_MP"
  by (simp_all add: subtree_kind_def)

lemma entry_from_leaf_payload_ok:
  assumes "entry_from_leaf_payload P k payload = Inr e"
  shows "post_init e = Inr () \<and> e_kind e = k \<and> \<not> subtree_kind k"
  using assms
  by (cases k)
    (auto simp: entry_from_leaf_payload_def arity_by_kind_def make_entry_Inr bindE_Inr_iff Let_def
      split: if_splits)

lemma parse_entry_ok:
  assumes "parse_entry P line = Inr e"
  shows "entry_ok e"
  using assms
  by (auto simp: parse_entry_def entry_ok_def is_subtree_def make_entry_Inr
      split: option.splits json.splits if_splits dest!: entry_from_leaf_payload_ok)

lemma post_init_fields_path: "post_init_fields (e\<lparr>e_path := p\<rparr>) = post_init_fields e"
  by (simp add: post_init_fields_def)

text \<open>The path is the only field \<open>replace\<close> changes, so it is the only one re-checked.\<close>

lemma replace_path_ok:
  assumes "entry_ok e" and "validate_entry_path p = Inr ()"
  shows "replace_path e p = Inr (e\<lparr>e_path := p\<rparr>)" and "entry_ok (e\<lparr>e_path := p\<rparr>)"
  using assms
  by (simp_all add: replace_path_def entry_ok_def post_init_def is_subtree_def bindE_Inr_iff
      post_init_fields_path)

section \<open>Round trip\<close>

lemma codec_okD:
  assumes "codec_ok P" and "list_all json_scalar xs"
  shows "json_decode P (json_encode P (JArr xs)) = Some (JArr xs)"
    and "utf8_ok (json_encode P (JArr xs))"
    and "\<exists>body. json_encode P (JArr xs) = CHR ''['' # body @ [CHR '']'']"
    and "no_break brk_bytes (json_encode P (JArr xs))"
    and "list_all plain_scalar xs \<Longrightarrow> no_break brk_str (json_encode P (JArr xs))"
  using assms by (simp_all add: codec_ok_def)

lemma opt_json_scalar [simp]: "json_scalar (opt_json s)"
  by (cases s) (simp_all add: opt_json_def)

lemma leaf_payload_scalar [simp]: "list_all json_scalar (leaf_payload k n h sz mt u f t)"
  by (simp add: leaf_payload_def)

text \<open>The array that \<open>serialize\<close> encodes.\<close>

definition entry_payload :: "entry \<Rightarrow> json list" where
  "entry_payload e =
     (if is_subtree e then [JStr (kind_str (e_kind e)), JStr (e_path e), JStr (e_hash e)]
      else leaf_payload (e_kind e) (e_path e) (e_hash e) (e_size e) (e_mtime e)
             (e_uri e) (e_footer e) (e_etag e))"

lemma serialize_payload: "serialize P e = json_encode P (JArr (entry_payload e))"
  by (simp add: serialize_def entry_payload_def encode_leaf_def encode_leaf_parts_def)

lemma entry_payload_scalar [simp]: "list_all json_scalar (entry_payload e)"
  by (simp add: entry_payload_def)

lemma leaf_fields:
  assumes "post_init_fields e = Inr ()" and "\<not> subtree_kind (e_kind e)"
  shows "e_kind e \<in> {KIND_BLOB, KIND_BP} \<Longrightarrow> e_uri e = None \<and> e_etag e = None"
    and "e_kind e \<in> {KIND_META, KIND_MP} \<Longrightarrow> \<exists>u. e_uri e = Some u"
    and "e_kind e \<in> {KIND_BP, KIND_MP} \<Longrightarrow> \<exists>f. e_footer e = Some f"
    and "e_kind e \<in> {KIND_BLOB, KIND_META} \<Longrightarrow> e_footer e = None"
  using assms
  by (auto simp: post_init_fields_def validate_leaf_def truthy_def bindE_Inr_iff split: if_splits)

lemma opt_json_Some [simp]: "opt_json (Some s) = JStr s"
  by (simp add: opt_json_def)

lemma leaf_payload_roundtrip:
  assumes ok: "entry_ok e" and leaf: "\<not> is_subtree e"
  shows "entry_from_leaf_payload P (e_kind e) (entry_payload e) = Inr e"
proof -
  have pi: "post_init e = Inr ()" and nk: "\<not> subtree_kind (e_kind e)"
    using ok leaf by (simp_all add: entry_ok_def is_subtree_def)
  have f: "post_init_fields e = Inr ()"
    using pi by (simp add: post_init_def bindE_Inr_iff)
  note lf = leaf_fields [OF f nk]
  have mk: "make_entry (e_path e) (kind_str (e_kind e)) (e_hash e) (e_size e) (e_mtime e)
      (e_uri e) (e_footer e) (e_etag e) = Inr e"
    using pi by (simp add: make_entry_Inr)
  show ?thesis
  proof (cases "e_kind e")
    case KIND_BLOB
    with mk leaf lf(1,4) show ?thesis
      by (simp add: entry_payload_def leaf_payload_def entry_from_leaf_payload_def arity_by_kind_def)
  next
    case KIND_META
    with mk leaf lf(2,4) show ?thesis
      by (cases "e_etag e")
        (auto simp: entry_payload_def leaf_payload_def entry_from_leaf_payload_def arity_by_kind_def
          opt_str_def)
  next
    case KIND_BP
    with mk leaf lf(1,3) show ?thesis
      by (auto simp: entry_payload_def leaf_payload_def entry_from_leaf_payload_def arity_by_kind_def)
  next
    case KIND_MP
    with mk leaf lf(2,3) show ?thesis
      by (cases "e_etag e")
        (auto simp: entry_payload_def leaf_payload_def entry_from_leaf_payload_def arity_by_kind_def
          opt_str_def)
  qed (use nk in simp_all)
qed

lemma entry_payload_head: "entry_payload e \<noteq> []" "entry_payload e ! 0 = JStr (kind_str (e_kind e))"
    "entry_payload e ! Suc 0 = JStr (e_path e)" "length (entry_payload e) \<ge> 3"
  by (simp_all add: entry_payload_def leaf_payload_def)

lemma parse_serialize_entry:
  assumes "codec_ok P" and ok: "entry_ok e"
  shows "parse_entry P (serialize P e) = Inr e"
proof -
  have dec: "json_decode P (serialize P e) = Some (JArr (entry_payload e))"
    unfolding serialize_payload using assms(1) by (simp add: codec_okD(1))
  show ?thesis
  proof (cases "is_subtree e")
    case True
    then have "e_size e = 0" "e_mtime e = 0" "e_uri e = None" "e_footer e = None" "e_etag e = None"
      using ok
      by (auto simp: entry_ok_def is_subtree_def post_init_def post_init_fields_def bindE_Inr_iff
          split: if_splits)
    then show ?thesis using True ok dec
      by (simp add: parse_entry_def entry_payload_def is_subtree_def make_entry_Inr entry_ok_def)
  next
    case False
    then show ?thesis
      using leaf_payload_roundtrip [OF ok False] dec
      by (simp add: parse_entry_def entry_payload_head is_subtree_def)
  qed
qed

end
