(* ===== verification/Tree_Node.thy ===== *)
theory Tree_Node
  imports Entry_Codec
begin

text \<open>
  \<open>core/objects/tree.py\<close>: a tree object is the JSONL text of its entries, sorted by name.
  \<open>parse_tree_object\<close> is the reader, \<open>validate_tree_node\<close> the guard every write runs, and
  \<open>node_payload\<close> the text \<open>TreeWriter._write_plain_node\<close> builds. The lemmas: whatever the
  reader accepts is a well-formed node, and a well-formed node is accepted by the guard
  and read back unchanged.
\<close>

section \<open>Parsing and validation\<close>

definition validate_component_name :: "string \<Rightarrow> unit res" where
  "validate_component_name name =
     (if name = [] then Inl ValueError
      else if CHR ''/'' \<in> set name \<or> CHR 0x5C \<in> set name then Inl ValueError
      else if name \<in> {''.'', ''..''} then Inl ValueError
      else Inr ())"

text \<open>The loop of \<open>parse_tree_object\<close>; \<open>prev\<close> is \<open>previous_name\<close>.\<close>

fun parse_lines :: "prims \<Rightarrow> string option \<Rightarrow> string list \<Rightarrow> entry list res" where
  "parse_lines P prev [] = Inr []"
| "parse_lines P prev (raw_line # rest) =
     (let line = strip raw_line in
      if line = [] then parse_lines P prev rest
      else bindE (parse_entry P line) (\<lambda>e.
           bindE (validate_component_name (e_path e)) (\<lambda>_.
             if (case prev of None \<Rightarrow> False | Some q \<Rightarrow> e_path e \<le> q) then Inl ValueError
             else bindE (parse_lines P (Some (e_path e)) rest) (\<lambda>es. Inr (e # es)))))"

definition parse_tree_object :: "prims \<Rightarrow> string \<Rightarrow> entry list res" where
  "parse_tree_object P payload =
     (if \<not> utf8_ok payload then Inl UnicodeDecodeError
      else parse_lines P None (splitlines payload))"

definition leaf_to_tree_entry :: "entry \<Rightarrow> entry res" where
  "leaf_to_tree_entry e = replace_path e (last (split_path (e_path e)))"

fun validate_lines :: "prims \<Rightarrow> string option \<Rightarrow> string list \<Rightarrow> unit res" where
  "validate_lines P prev [] = Inr ()"
| "validate_lines P prev (raw_line # rest) =
     (let line = strip_bytes raw_line in
      if line = [] then validate_lines P prev rest
      else (case json_decode P line of
              Some (JArr decoded) \<Rightarrow>
                if length decoded < 3 then Inl ValueError
                else
                  let name = py_str P (decoded ! 1) in
                  if kind_of_str (py_str P (decoded ! 0)) = None then Inl ValueError
                  else bindE (validate_component_name name) (\<lambda>_.
                    if (case prev of None \<Rightarrow> False | Some q \<Rightarrow> name \<le> q) then Inl ValueError
                    else validate_lines P (Some name) rest)
            | _ \<Rightarrow> Inl ValueError))"

definition validate_tree_node :: "prims \<Rightarrow> string \<Rightarrow> unit res" where
  "validate_tree_node P payload = validate_lines P None (splitlines_bytes payload)"

text \<open>\<open>b"\n".join(lines) + b"\n"\<close>.\<close>

definition node_payload :: "string list \<Rightarrow> string" where
  "node_payload lines = join_on (CHR 0x0A) lines @ [CHR 0x0A]"

section \<open>Well-formed nodes\<close>

abbreviation names :: "entry list \<Rightarrow> string list" where
  "names es \<equiv> map e_path es"

definition component_ok :: "string \<Rightarrow> bool" where
  "component_ok name \<longleftrightarrow> validate_component_name name = Inr ()"

definition child_ok :: "entry \<Rightarrow> bool" where
  "child_ok e \<longleftrightarrow> entry_ok e \<and> component_ok (e_path e)"

definition node_ok :: "entry list \<Rightarrow> bool" where
  "node_ok es \<longleftrightarrow> sorted_wrt (<) (names es) \<and> (\<forall>e \<in> set es. child_ok e)"

text \<open>The JSON encoder leaves U+0085, U+2028 and U+2029 as they are.\<close>

definition plain_entry :: "entry \<Rightarrow> bool" where
  "plain_entry e \<longleftrightarrow> list_all plain_scalar (entry_payload e)"

lemma component_ok_iff:
  "component_ok name \<longleftrightarrow> name \<noteq> [] \<and> CHR ''/'' \<notin> set name \<and> CHR 0x5C \<notin> set name
     \<and> name \<noteq> ''.'' \<and> name \<noteq> ''..''"
  by (auto simp: component_ok_def validate_component_name_def)

lemma component_entry_path: "component_ok name \<Longrightarrow> validate_entry_path name = Inr ()"
  by (auto simp: component_ok_iff validate_entry_path_def split_path_def split_on_no_sep
      sublist_def hd_append dest: hd_in_set last_in_set)

lemma child_ok_sub [simp]: "child_ok e \<Longrightarrow> entry_ok e" "child_ok e \<Longrightarrow> component_ok (e_path e)"
  by (simp_all add: child_ok_def)

lemma parse_lines_ok:
  "parse_lines P prev ls = Inr es \<Longrightarrow>
     node_ok es \<and> (case prev of None \<Rightarrow> True | Some q \<Rightarrow> \<forall>e \<in> set es. q < e_path e)"
proof (induction ls arbitrary: prev es)
  case (Cons raw ls)
  show ?case
  proof (cases "strip raw = []")
    case True
    with Cons show ?thesis by simp
  next
    case False
    with Cons.prems obtain e es' where
      e: "parse_entry P (strip raw) = Inr e" "validate_component_name (e_path e) = Inr ()"
        "\<not> (case prev of None \<Rightarrow> False | Some q \<Rightarrow> e_path e \<le> q)" and
      rest: "parse_lines P (Some (e_path e)) ls = Inr es'" and es: "es = e # es'"
      by (auto simp: Let_def bindE_Inr_iff split: if_splits)
    from Cons.IH [OF rest] e parse_entry_ok [OF e(1)] show ?thesis
      by (auto simp: es node_ok_def child_ok_def component_ok_def split: option.splits)
  qed
qed (simp add: node_ok_def split: option.split)

lemma parse_tree_object_node_ok: "parse_tree_object P payload = Inr es \<Longrightarrow> node_ok es"
  by (auto simp: parse_tree_object_def dest: parse_lines_ok split: if_splits)

section \<open>Round trip\<close>

lemma splitlines_by_line:
  assumes "no_break brk l" and "brk (CHR 0x0A # rest) = Suc 0"
  shows "splitlines_by brk 0 acc (l @ CHR 0x0A # rest) = (rev acc @ l) # splitlines_by brk 0 [] rest"
  using assms(1)
proof (induction l arbitrary: acc)
  case Nil
  then show ?case by (simp add: assms(2))
next
  case (Cons c l)
  have "brk (c # l @ CHR 0x0A # rest) = 0"
    using Cons.prems by (auto simp: no_break_def dest!: spec [where x = 0])
  moreover have "no_break brk l"
    unfolding no_break_def
  proof (intro allI impI)
    fix i rest' assume "i < length l"
    then show "brk (drop i l @ CHR 0x0A # rest') = 0"
      using Cons.prems unfolding no_break_def by (auto dest!: spec [where x = "Suc i"])
  qed
  ultimately show ?case using Cons.IH by simp
qed

lemma brk_LF: "brk_bytes (CHR 0x0A # rest) = Suc 0" "brk_str (CHR 0x0A # rest) = Suc 0"
  by (simp_all add: brk_bytes_def brk_str_def)

lemma node_payload_Cons:
  "node_payload (l # ls) = l @ CHR 0x0A # (if ls = [] then [] else node_payload ls)"
  by (cases ls) (simp_all add: node_payload_def)

lemma splitlines_payload:
  assumes "\<forall>l \<in> set ls. no_break brk l" and "\<And>rest. brk (CHR 0x0A # rest) = Suc 0" and "ls \<noteq> []"
  shows "splitlines_by brk 0 [] (node_payload ls) = ls"
  using assms(1,3)
proof (induction ls)
  case (Cons l ls)
  then show ?case
    using splitlines_by_line [of brk l "if ls = [] then [] else node_payload ls" "[]"] assms(2)
    by (auto simp: node_payload_Cons)
qed simp

lemma utf8_ok_payload: "\<forall>l \<in> set ls. utf8_ok l \<Longrightarrow> utf8_ok (node_payload ls)"
proof (induction ls)
  case Nil
  then show ?case by (simp add: node_payload_def utf8_ok_ascii)
next
  case (Cons l ls)
  have "utf8_ok [CHR 0x0A]" by (simp add: utf8_ok_ascii)
  then have "utf8_ok ([CHR 0x0A] @ (if ls = [] then [] else node_payload ls))"
    by (rule utf8_ok_append) (use Cons in simp)
  with Cons.prems show ?case by (simp add: node_payload_Cons utf8_ok_append)
qed

lemma strip_left_stop: "wl s = 0 \<Longrightarrow> strip_left wl s = s"
  by (subst strip_left.simps) simp

lemma ws_brackets:
  "ws_len_by ws_wide (CHR ''['' # s) = 0" "ws_len_by (map rev ws_wide) (CHR '']'' # s) = 0"
  "ws_len_bytes (CHR ''['' # s) = 0" "ws_len_bytes (CHR '']'' # s) = 0"
  by (simp_all add: ws_len_by_def ws_wide_def ws_single_def ws_ascii_def ws_len_bytes_def)

lemma strip_array:
  "strip (CHR ''['' # body @ [CHR '']'']) = CHR ''['' # body @ [CHR '']'']"
  "strip_bytes (CHR ''['' # body @ [CHR '']'']) = CHR ''['' # body @ [CHR '']'']"
  by (simp_all add: strip_def strip_bytes_def strip_left_stop ws_brackets)

lemma serialize_strip:
  assumes "codec_ok P"
  shows "strip (serialize P e) = serialize P e" "strip_bytes (serialize P e) = serialize P e"
    and "serialize P e \<noteq> []"
proof -
  obtain body where "serialize P e = CHR ''['' # body @ [CHR '']'']"
    using codec_okD(3) [OF assms entry_payload_scalar] by (auto simp: serialize_payload)
  then show "strip (serialize P e) = serialize P e" "strip_bytes (serialize P e) = serialize P e"
    "serialize P e \<noteq> []"
    by (simp_all only: strip_array) simp
qed

lemma parse_lines_serialize:
  assumes "codec_ok P" and "node_ok es"
    and "case prev of None \<Rightarrow> True | Some q \<Rightarrow> \<forall>e \<in> set es. q < e_path e"
  shows "parse_lines P prev (map (serialize P) es) = Inr es"
  using assms(2,3)
proof (induction es arbitrary: prev)
  case (Cons e es)
  then have "child_ok e" by (simp add: node_ok_def)
  then have "parse_entry P (serialize P e) = Inr e" "validate_component_name (e_path e) = Inr ()"
    using assms(1) by (simp_all add: parse_serialize_entry child_ok_def component_ok_def)
  moreover have "parse_lines P (Some (e_path e)) (map (serialize P) es) = Inr es"
    using Cons by (auto simp: node_ok_def)
  moreover have "\<not> (case prev of None \<Rightarrow> False | Some q \<Rightarrow> e_path e \<le> q)"
    using Cons.prems(2) by (auto split: option.splits)
  ultimately show ?case using serialize_strip [OF assms(1), of e] by (simp add: Let_def)
qed simp

lemma validate_lines_serialize:
  assumes "codec_ok P" and "node_ok es"
    and "case prev of None \<Rightarrow> True | Some q \<Rightarrow> \<forall>e \<in> set es. q < e_path e"
  shows "validate_lines P prev (map (serialize P) es) = Inr ()"
  using assms(2,3)
proof (induction es arbitrary: prev)
  case (Cons e es)
  then have "child_ok e" by (simp add: node_ok_def)
  then have v: "validate_component_name (e_path e) = Inr ()"
    by (simp add: child_ok_def component_ok_def)
  have dec: "json_decode P (serialize P e) = Some (JArr (entry_payload e))"
    unfolding serialize_payload using assms(1) by (simp add: codec_okD(1))
  have rest: "validate_lines P (Some (e_path e)) (map (serialize P) es) = Inr ()"
    using Cons by (auto simp: node_ok_def)
  have "\<not> (case prev of None \<Rightarrow> False | Some q \<Rightarrow> e_path e \<le> q)"
    using Cons.prems(2) by (auto split: option.splits)
  with v dec rest entry_payload_head [of e] serialize_strip [OF assms(1), of e] show ?case
    by (simp add: Let_def)
qed simp

lemma plain_no_break:
  assumes "codec_ok P" and "plain_entry e"
  shows "no_break brk_str (serialize P e)"
  using codec_okD(5) [OF assms(1) entry_payload_scalar] assms(2)
  by (simp add: serialize_payload plain_entry_def)

lemma parse_node_payload:
  assumes "codec_ok P" and "node_ok es" and "\<forall>e \<in> set es. plain_entry e" and "es \<noteq> []"
  shows "parse_tree_object P (node_payload (map (serialize P) es)) = Inr es"
proof -
  have "utf8_ok (node_payload (map (serialize P) es))"
    using codec_okD(2) [OF assms(1) entry_payload_scalar]
    by (auto intro!: utf8_ok_payload simp: serialize_payload)
  moreover have "splitlines (node_payload (map (serialize P) es)) = map (serialize P) es"
    unfolding splitlines_def
    by (rule splitlines_payload) (use assms in \<open>auto simp: plain_no_break brk_LF\<close>)
  ultimately show ?thesis
    using parse_lines_serialize [OF assms(1,2), of None] by (simp add: parse_tree_object_def)
qed

lemma validate_node_payload:
  assumes "codec_ok P" and "node_ok es" and "es \<noteq> []"
  shows "validate_tree_node P (node_payload (map (serialize P) es)) = Inr ()"
proof -
  have "splitlines_bytes (node_payload (map (serialize P) es)) = map (serialize P) es"
    unfolding splitlines_bytes_def
    by (rule splitlines_payload)
      (use assms codec_okD(4) [OF assms(1) entry_payload_scalar] in
        \<open>auto simp: brk_LF serialize_payload\<close>)
  then show ?thesis
    using validate_lines_serialize [OF assms(1,2), of None] by (simp add: validate_tree_node_def)
qed

lemma parse_empty_payload: "parse_tree_object P [] = Inr []"
  by (simp add: parse_tree_object_def splitlines_def)

lemma validate_empty_payload: "validate_tree_node P [] = Inr ()"
  by (simp add: validate_tree_node_def splitlines_bytes_def)

end
