(* ===== verification/Tree_Walk.thy ===== *)
theory Tree_Walk
  imports Tree_Node
begin

text \<open>
  \<open>core/objects/query.py\<close>: the LRU cache of parsed nodes, and the walker's lookups and
  listings over a tree DAG. A walker function takes the node loader \<open>L\<close> (the method
  \<open>_load\<close>) as an argument, as \<open>TreeWalker\<close> takes \<open>read_tree\<close>.

  The abstract side is a \<open>dtree\<close>: a node's entries, each with the node it points to.
  \<open>rep L h t\<close> says that the stored DAG under \<open>h\<close> unfolds to \<open>t\<close>, \<open>wf_dir t\<close> is the
  invariant of a written directory (sorted valid names, shards never nested, each covering
  the names from its own up to the next shard's), and \<open>dlookup\<close>, \<open>dleaves\<close> say which files it holds. The
  lemmas: lookup, full walk and prefix walk compute exactly these, with explicit fuel
  bounds, and the cache never changes what a load returns.
\<close>

section \<open>Loading nodes\<close>

type_synonym loader = "string \<Rightarrow> entry list option res"

text \<open>\<open>TreeWalker._load\<close> without the cache.\<close>

definition load :: "prims \<Rightarrow> (string \<Rightarrow> string option) \<Rightarrow> loader" where
  "load P read_tree tree_hash =
     (case read_tree tree_hash of
        None \<Rightarrow> Inr None
      | Some payload \<Rightarrow> bindE (parse_tree_object P payload) (\<lambda>es. Inr (Some es)))"

text \<open>\<open>TreeCache\<close>: an ordered dictionary, oldest entry first.\<close>

record tree_cache =
  c_entries :: "(string \<times> entry list) list"
  c_maxsize :: nat

definition move_to_end :: "string \<Rightarrow> entry list \<Rightarrow> (string \<times> entry list) list
    \<Rightarrow> (string \<times> entry list) list" where
  "move_to_end k v kvs = filter (\<lambda>kv. fst kv \<noteq> k) kvs @ [(k, v)]"

definition cache_get :: "tree_cache \<Rightarrow> string \<Rightarrow> entry list option \<times> tree_cache" where
  "cache_get c tree_hash =
     (case map_of (c_entries c) tree_hash of
        None \<Rightarrow> (None, c)
      | Some es \<Rightarrow> (Some es, c\<lparr>c_entries := move_to_end tree_hash es (c_entries c)\<rparr>))"

definition cache_evict :: "tree_cache \<Rightarrow> tree_cache" where
  "cache_evict c = c\<lparr>c_entries := drop (length (c_entries c) - c_maxsize c) (c_entries c)\<rparr>"

definition cache_put :: "tree_cache \<Rightarrow> string \<Rightarrow> entry list \<Rightarrow> tree_cache" where
  "cache_put c tree_hash es =
     cache_evict (c\<lparr>c_entries := move_to_end tree_hash es (c_entries c)\<rparr>)"

text \<open>\<open>TreeWalker._load\<close> with the cache.\<close>

definition cached_load ::
  "prims \<Rightarrow> (string \<Rightarrow> string option) \<Rightarrow> tree_cache \<Rightarrow> string \<Rightarrow> entry list option res \<times> tree_cache" where
  "cached_load P read_tree c tree_hash =
     (case cache_get c tree_hash of
        (Some es, c') \<Rightarrow> (Inr (Some es), c')
      | (None, c') \<Rightarrow>
          (case read_tree tree_hash of
             None \<Rightarrow> (Inr None, c')
           | Some payload \<Rightarrow>
               (case parse_tree_object P payload of
                  Inl err \<Rightarrow> (Inl err, c')
                | Inr es \<Rightarrow> (Inr (Some es), cache_put c' tree_hash es))))"

section \<open>Walker operations\<close>

definition load_or_raise :: "loader \<Rightarrow> string \<Rightarrow> entry list res" where
  "load_or_raise L tree_hash =
     bindE (L tree_hash) (\<lambda>r. case r of None \<Rightarrow> Inl ValueError | Some es \<Rightarrow> Inr es)"

fun expand_each :: "loader \<Rightarrow> entry list \<Rightarrow> entry list res" where
  "expand_each L [] = Inr []"
| "expand_each L (e # es) =
     (if e_kind e \<noteq> KIND_SHARD then bindE (expand_each L es) (\<lambda>r. Inr (e # r))
      else bindE (load_or_raise L (e_hash e)) (\<lambda>shard_entries.
           bindE (expand_each L es) (\<lambda>r. Inr (shard_entries @ r))))"

definition expand_shards :: "loader \<Rightarrow> entry list \<Rightarrow> entry list res" where
  "expand_shards L es =
     (if \<not> (\<exists>e \<in> set es. e_kind e = KIND_SHARD) then Inr es else expand_each L es)"

definition load_children :: "loader \<Rightarrow> string \<Rightarrow> entry list res" where
  "load_children L tree_hash = bindE (load_or_raise L tree_hash) (expand_shards L)"

text \<open>The binary search of the standard library's \<open>bisect_left\<close>.\<close>

function bisect_left_loop :: "string list \<Rightarrow> string \<Rightarrow> nat \<Rightarrow> nat \<Rightarrow> nat" where
  "bisect_left_loop a x lo hi =
     (if lo < hi then
        (let mid = (lo + hi) div 2 in
         if a ! mid < x then bisect_left_loop a x (mid + 1) hi else bisect_left_loop a x lo mid)
      else lo)"
  by pat_completeness auto
termination
  by (relation "measure (\<lambda>(a, x, lo, hi). hi - lo)") auto

declare bisect_left_loop.simps [simp del]

definition bisect_left :: "string list \<Rightarrow> string \<Rightarrow> nat" where
  "bisect_left a x = bisect_left_loop a x 0 (length a)"

definition descend :: "entry list \<Rightarrow> string \<Rightarrow> entry option" where
  "descend es part =
     (let idx = bisect_left (names es) part in
      if idx < length es \<and> e_path (es ! idx) = part then Some (es ! idx)
      else if idx \<ge> 1 \<and> e_kind (es ! (idx - 1)) = KIND_SHARD then Some (es ! (idx - 1))
      else None)"

fun resolve_parts :: "loader \<Rightarrow> string \<Rightarrow> string list \<Rightarrow> string option res" where
  "resolve_parts L current [] = Inr (Some current)"
| "resolve_parts L current (part # parts) =
     bindE (load_children L current) (\<lambda>es.
       case descend es part of
         None \<Rightarrow> Inr None
       | Some target \<Rightarrow>
           if is_subtree target then resolve_parts L (e_hash target) parts else Inr None)"

definition resolve_directory :: "loader \<Rightarrow> string \<Rightarrow> string \<Rightarrow> (string \<times> entry list) option res" where
  "resolve_directory L root_tree_hash directory_path =
     bindE (resolve_parts L root_tree_hash
              (filter (\<lambda>p. p \<noteq> []) (split_path (strip_char (CHR ''/'') directory_path))))
       (\<lambda>r. case r of
              None \<Rightarrow> Inr None
            | Some current \<Rightarrow> bindE (load_children L current) (\<lambda>es. Inr (Some (current, es))))"

text \<open>
  \<open>lookup_entry\<close>: the loop state is the current node and the parts still to be matched;
  each round of the \<open>while\<close> costs one unit of fuel.
\<close>

function (sequential) lookup_loop :: "loader \<Rightarrow> nat \<Rightarrow> string \<Rightarrow> string \<Rightarrow> string list \<Rightarrow> entry option res" where
  "lookup_loop L 0 normalized current_hash parts = Inl OutOfFuel"
| "lookup_loop L (Suc n) normalized current_hash [] = Inr None"
| "lookup_loop L (Suc n) normalized current_hash (part # parts) =
     bindE (load_or_raise L current_hash) (\<lambda>es.
       case descend es part of
         None \<Rightarrow> Inr None
       | Some target \<Rightarrow>
           if is_subtree target then
             lookup_loop L n normalized (e_hash target)
               (if e_kind target = KIND_TREE then parts else part # parts)
           else if parts = [] then bindE (replace_path target normalized) (\<lambda>e. Inr (Some e))
           else Inr None)"
  by pat_completeness auto
termination
  by (relation "measure (\<lambda>(L, n, normalized, current_hash, parts). n)") auto

definition lookup_entry :: "loader \<Rightarrow> nat \<Rightarrow> string \<Rightarrow> string \<Rightarrow> entry option res" where
  "lookup_entry L n tree_hash logical_path =
     (let normalized = strip_char (CHR ''/'') logical_path in
      if normalized = [] then Inr None
      else lookup_loop L n normalized tree_hash (split_path normalized))"

text \<open>
  \<open>_iter_entries\<close>: a stack of frames (node, path prefix, index to resume at), the top
  first. One unit of fuel per frame popped.
\<close>

definition child_prefix :: "string \<Rightarrow> entry \<Rightarrow> string" where
  "child_prefix pre e = (if e_kind e = KIND_SHARD then pre else pre @ e_path e @ ''/'')"

function (sequential) iter_loop :: "loader \<Rightarrow> nat \<Rightarrow> (string \<times> string \<times> nat) list \<Rightarrow> (string \<times> entry) list res" where
  "iter_loop L n [] = Inr []"
| "iter_loop L 0 (f # stack) = Inl OutOfFuel"
| "iter_loop L (Suc n) ((current_hash, pre, resume_index) # stack) =
     bindE (load_or_raise L current_hash) (\<lambda>es.
       let leaves = takeWhile (\<lambda>e. \<not> is_subtree e) (drop resume_index es);
           index = resume_index + length leaves;
           stack' =
             (if index < length es then
                (e_hash (es ! index), child_prefix pre (es ! index), 0)
                # (current_hash, pre, index + 1) # stack
              else stack)
       in bindE (iter_loop L n stack') (\<lambda>r. Inr (map (\<lambda>e. (pre @ e_path e, e)) leaves @ r)))"
  by pat_completeness auto
termination
  by (relation "measure (\<lambda>(L, n, stack). n)") auto

definition iter_all_entries :: "loader \<Rightarrow> nat \<Rightarrow> string \<Rightarrow> entry list res" where
  "iter_all_entries L n tree_hash =
     bindE (iter_loop L n [(tree_hash, [], 0)]) (mapE (\<lambda>(path, e). replace_path e path))"

definition matches_prefix :: "string \<Rightarrow> string \<Rightarrow> bool" where
  "matches_prefix path normalized_prefix \<longleftrightarrow>
     path = normalized_prefix \<or> prefix (normalized_prefix @ ''/'') path"

definition prefix_wanted :: "string \<Rightarrow> string \<Rightarrow> bool" where
  "prefix_wanted normalized path \<longleftrightarrow> normalized = [] \<or> matches_prefix path normalized"

function (sequential) prefix_loop ::
  "loader \<Rightarrow> string \<Rightarrow> nat \<Rightarrow> (string \<times> string \<times> nat) list \<Rightarrow> (string \<times> entry) list res" where
  "prefix_loop L normalized n [] = Inr []"
| "prefix_loop L normalized 0 (f # stack) = Inl OutOfFuel"
| "prefix_loop L normalized (Suc n) ((current_hash, pre, resume_index) # stack) =
     bindE (load_or_raise L current_hash) (\<lambda>es.
       let leaves = takeWhile (\<lambda>e. \<not> is_subtree e) (drop resume_index es);
           index = resume_index + length leaves;
           stack' =
             (if index < length es then
                (let subtree = es ! index; cp = child_prefix pre subtree in
                 if normalized \<noteq> [] \<and> \<not> (prefix (normalized @ ''/'') cp \<or> prefix cp normalized)
                 then (current_hash, pre, index + 1) # stack
                 else (e_hash subtree, cp, 0) # (current_hash, pre, index + 1) # stack)
              else stack)
       in bindE (prefix_loop L normalized n stack')
            (\<lambda>r. Inr (filter (\<lambda>(path, e). prefix_wanted normalized path)
                        (map (\<lambda>e. (pre @ e_path e, e)) leaves) @ r)))"
  by pat_completeness auto
termination
  by (relation "measure (\<lambda>(L, normalized, n, stack). n)") auto

definition iter_entries_for_prefix :: "loader \<Rightarrow> nat \<Rightarrow> string \<Rightarrow> string \<Rightarrow> entry list res" where
  "iter_entries_for_prefix L n tree_hash logical_prefix =
     bindE (prefix_loop L (strip_char (CHR ''/'') logical_prefix) n [(tree_hash, [], 0)])
       (mapE (\<lambda>(path, e). replace_path e path))"

section \<open>Abstract trees\<close>

datatype dtree = DNode (dkids: "(entry \<times> dtree) list")

lemma dtree_size_kid [termination_simp]:
  "(e, t) \<in> set kids \<Longrightarrow> size t < Suc (size_list (\<lambda>p. Suc (size (snd p))) kids)"
  by (induction kids) auto

fun rep :: "loader \<Rightarrow> string \<Rightarrow> dtree \<Rightarrow> bool" where
  "rep L h (DNode kids) \<longleftrightarrow>
     L h = Inr (Some (map fst kids)) \<and>
     (\<forall>(e, t) \<in> set kids. is_subtree e \<longrightarrow> rep L (e_hash e) t)"

fun dleaves :: "dtree \<Rightarrow> (string list \<times> entry) list" where
  "dleaves (DNode kids) =
     concat (map (\<lambda>(e, t).
       if \<not> is_subtree e then [([e_path e], e)]
       else if e_kind e = KIND_SHARD then dleaves t
       else map (\<lambda>(ps, x). (e_path e # ps, x)) (dleaves t)) kids)"

fun steps :: "dtree \<Rightarrow> nat" where
  "steps (DNode kids) =
     Suc (sum_list (map (\<lambda>(e, t). if is_subtree e then Suc (steps t) else 0) kids))"

definition plain_kids :: "(entry \<times> dtree) list \<Rightarrow> bool" where
  "plain_kids kids \<longleftrightarrow> (\<forall>k \<in> set kids. e_kind (fst k) \<noteq> KIND_SHARD)"

text \<open>The real children of a directory: every shard replaced by its body.\<close>

definition logical_kids :: "(entry \<times> dtree) list \<Rightarrow> (entry \<times> dtree) list" where
  "logical_kids kids =
     concat (map (\<lambda>k. if e_kind (fst k) = KIND_SHARD then dkids (snd k) else [k]) kids)"

definition logical :: "dtree \<Rightarrow> (entry \<times> dtree) list" where
  "logical t = logical_kids (dkids t)"

abbreviation kid_names :: "(entry \<times> dtree) list \<Rightarrow> string list" where
  "kid_names kids \<equiv> map (\<lambda>k. e_path (fst k)) kids"

definition shard_body :: "entry \<Rightarrow> dtree \<Rightarrow> bool" where
  "shard_body e t \<longleftrightarrow>
     dkids t \<noteq> [] \<and> plain_kids (dkids t) \<and> (\<forall>k \<in> set (dkids t). e_path e \<le> e_path (fst k))"

text \<open>A shard covers the names from its own name up to the next shard's.\<close>

definition before_shard :: "entry \<times> dtree \<Rightarrow> entry \<times> dtree \<Rightarrow> bool" where
  "before_shard k k' \<longleftrightarrow> (\<forall>x \<in> set (dkids (snd k)). e_path (fst x) < e_path (fst k'))"

definition shard_kids :: "(entry \<times> dtree) list \<Rightarrow> bool" where
  "shard_kids kids \<longleftrightarrow>
     kids \<noteq> [] \<and> (\<forall>k \<in> set kids. e_kind (fst k) = KIND_SHARD \<and> shard_body (fst k) (snd k)) \<and>
     sorted_wrt before_shard kids"

fun wf_dir :: "dtree \<Rightarrow> bool" where
  "wf_dir (DNode kids) \<longleftrightarrow>
     node_ok (map fst kids) \<and> (plain_kids kids \<or> shard_kids kids) \<and>
     (\<forall>(e, t) \<in> set kids. is_subtree e \<longrightarrow> wf_dir t)"

definition dchild :: "dtree \<Rightarrow> string \<Rightarrow> (entry \<times> dtree) option" where
  "dchild t name = find (\<lambda>k. e_path (fst k) = name) (logical t)"

fun dlookup :: "dtree \<Rightarrow> string list \<Rightarrow> entry option" where
  "dlookup t [] = None"
| "dlookup t (p # ps) =
     (case dchild t p of
        None \<Rightarrow> None
      | Some (e, t') \<Rightarrow>
          if is_subtree e then dlookup t' ps else if ps = [] then Some e else None)"

section \<open>Binary search\<close>

lemma bisect_left_loop_spec:
  fixes a :: "string list"
  assumes "sorted a" and "lo \<le> hi" "hi \<le> length a"
    and "\<forall>j < lo. a ! j < x" and "\<forall>j. hi \<le> j \<longrightarrow> j < length a \<longrightarrow> x \<le> a ! j"
  shows "bisect_left_loop a x lo hi \<le> length a \<and>
    (\<forall>j < bisect_left_loop a x lo hi. a ! j < x) \<and>
    (\<forall>j. bisect_left_loop a x lo hi \<le> j \<longrightarrow> j < length a \<longrightarrow> x \<le> a ! j)"
  using assms(2-)
proof (induction "hi - lo" arbitrary: lo hi rule: less_induct)
  case less
  show ?case
  proof (cases "lo < hi")
    case False
    have "bisect_left_loop a x lo hi = lo"
      using False by (simp add: bisect_left_loop.simps [of a x lo hi])
    with False less.prems show ?thesis by simp
  next
    case True
    define mid where "mid = (lo + hi) div 2"
    have mid: "lo \<le> mid" "mid < hi" using True by (auto simp: mid_def)
    have mono: "a ! i \<le> a ! j" if "i \<le> j" "j < length a" for i j
      using assms(1) that by (rule sorted_nth_mono)
    have eq: "bisect_left_loop a x lo hi =
        (if a ! mid < x then bisect_left_loop a x (mid + 1) hi else bisect_left_loop a x lo mid)"
      using True by (simp add: bisect_left_loop.simps [of a x lo hi] mid_def)
    show ?thesis
    proof (cases "a ! mid < x")
      case T: True
      have "\<forall>j < mid + 1. a ! j < x"
      proof (intro allI impI)
        fix j assume "j < mid + 1"
        with mid less.prems(2) have "a ! j \<le> a ! mid" by (intro mono) auto
        with T show "a ! j < x" by simp
      qed
      with less.hyps [of hi "mid + 1"] less.prems mid T show ?thesis by (simp add: eq)
    next
      case F: False
      have "\<forall>j. mid \<le> j \<longrightarrow> j < length a \<longrightarrow> x \<le> a ! j"
        using mono [of mid] F by (metis linorder_not_less order_trans)
      with less.hyps [of mid lo] less.prems mid F show ?thesis by (simp add: eq)
    qed
  qed
qed

lemma bisect_left_sorted:
  assumes "sorted_wrt (<) a"
  shows "bisect_left a x = length (takeWhile (\<lambda>y. y < x) a)"
proof -
  let ?r = "bisect_left a x"
  have "sorted a" using assms by (simp add: strict_sorted_iff)
  from bisect_left_loop_spec [OF this, of 0 "length a" x]
  have r: "?r \<le> length a" "\<forall>j < ?r. a ! j < x" "\<forall>j. ?r \<le> j \<longrightarrow> j < length a \<longrightarrow> x \<le> a ! j"
    by (simp_all add: bisect_left_def)
  then have "takeWhile (\<lambda>y. y < x) a = take ?r a"
    by (intro takeWhile_eq_take_P_nth) auto
  with r(1) show ?thesis by simp
qed

text \<open>In a node of real children the search finds exactly the entry of that name.\<close>

lemma takeWhile_less_find:
  fixes x :: "'b::linorder"
  assumes "sorted_wrt (<) (map f xs)"
  shows "find (\<lambda>k. f k = x) xs =
    (let i = length (takeWhile (\<lambda>y. y < x) (map f xs)) in
     if i < length xs \<and> f (xs ! i) = x then Some (xs ! i) else None)"
  using assms unfolding Let_def
proof (induction xs)
  case (Cons k xs)
  have none: "find (\<lambda>k. f k = x) xs = None" if "x \<le> f k"
    using Cons.prems that by (auto simp: find_None_iff)
  show ?case
  proof (cases "f k < x")
    case True
    with Cons show ?thesis by auto
  next
    case False
    with none show ?thesis by auto
  qed
qed simp

lemma descend_plain:
  assumes "sorted_wrt (<) (names es)" and "\<forall>e \<in> set es. e_kind e \<noteq> KIND_SHARD"
  shows "descend es part = find (\<lambda>e. e_path e = part) es"
proof -
  define i where "i = length (takeWhile (\<lambda>y. y < part) (names es))"
  have "i \<le> length es" unfolding i_def by (metis length_map length_takeWhile_le)
  then have "es ! (i - 1) \<in> set es" if "i \<ge> 1"
    using that by (intro nth_mem) linarith
  with assms(2) have no: "\<not> (i \<ge> 1 \<and> e_kind (es ! (i - 1)) = KIND_SHARD)" by blast
  have "bisect_left (names es) part = i"
    by (simp add: i_def bisect_left_sorted [OF assms(1)])
  moreover have "find (\<lambda>e. e_path e = part) es =
      (if i < length es \<and> e_path (es ! i) = part then Some (es ! i) else None)"
    using takeWhile_less_find [of e_path es part] assms(1) by (simp add: i_def Let_def)
  ultimately show ?thesis using no by (auto simp add: descend_def Let_def)
qed

text \<open>In a node of shards it finds the last shard that starts at or before the name.\<close>

lemma takeWhile_le_less:
  fixes x :: "'b::linorder"
  assumes "sorted_wrt (<) (map f xs)"
  shows "takeWhile (\<lambda>k. f k \<le> x) xs =
    (let i = length (takeWhile (\<lambda>y. y < x) (map f xs)) in
     if i < length xs \<and> f (xs ! i) = x then take (Suc i) xs else take i xs)"
  using assms unfolding Let_def
proof (induction xs)
  case (Cons k xs)
  have none: "takeWhile (\<lambda>k. f k \<le> x) xs = []" if "x \<le> f k"
    using Cons.prems that by (cases xs) auto
  show ?case
  proof (cases "f k < x")
    case True
    with Cons show ?thesis by auto
  next
    case False
    with none show ?thesis by auto
  qed
qed simp

lemma descend_shards:
  assumes "sorted_wrt (<) (names es)" and "\<forall>e \<in> set es. e_kind e = KIND_SHARD"
  shows "descend es part =
    (let ws = takeWhile (\<lambda>e. e_path e \<le> part) es in if ws = [] then None else Some (last ws))"
proof -
  define i where "i = length (takeWhile (\<lambda>y. y < part) (names es))"
  have i: "i \<le> length es" unfolding i_def by (metis length_map length_takeWhile_le)
  have b: "bisect_left (names es) part = i"
    by (simp add: i_def bisect_left_sorted [OF assms(1)])
  have ws: "takeWhile (\<lambda>e. e_path e \<le> part) es =
      (if i < length es \<and> e_path (es ! i) = part then take (Suc i) es else take i es)"
    using takeWhile_le_less [of e_path es part] assms(1) by (simp add: i_def Let_def)
  show ?thesis
  proof (cases "i < length es \<and> e_path (es ! i) = part")
    case True
    then show ?thesis by (simp add: ws b descend_def Let_def take_Suc_conv_app_nth)
  next
    case False
    show ?thesis
    proof (cases i)
      case 0
      with False show ?thesis by (auto simp add: ws b descend_def Let_def)
    next
      case (Suc j)
      with i have j: "j < length es" by simp
      then have "e_kind (es ! j) = KIND_SHARD" using assms(2) by simp
      with False Suc j show ?thesis
        by (auto simp add: ws b descend_def Let_def take_Suc_conv_app_nth)
    qed
  qed
qed

section \<open>Lookup\<close>

lemma find_append:
  "find Q (xs @ ys) = (case find Q xs of None \<Rightarrow> find Q ys | Some x \<Rightarrow> Some x)"
  by (induction xs) auto

lemma find_map_fst:
  "find (\<lambda>e. f e = x) (map fst kids) = map_option fst (find (\<lambda>k. f (fst k) = x) kids)"
  by (induction kids) auto

lemma rep_load: "rep L h t \<Longrightarrow> load_or_raise L h = Inr (map fst (dkids t))"
  by (cases t) (auto simp: load_or_raise_def)

lemma rep_kid: "rep L h t \<Longrightarrow> (e, t') \<in> set (dkids t) \<Longrightarrow> is_subtree e \<Longrightarrow> rep L (e_hash e) t'"
  by (cases t) auto

lemma wf_kid: "wf_dir t \<Longrightarrow> (e, t') \<in> set (dkids t) \<Longrightarrow> is_subtree e \<Longrightarrow> wf_dir t'"
  by (cases t) auto

lemma wf_node_ok: "wf_dir t \<Longrightarrow> node_ok (map fst (dkids t))"
  by (cases t) auto

lemma wf_cases: "wf_dir t \<Longrightarrow> plain_kids (dkids t) \<or> shard_kids (dkids t)"
  by (cases t) auto

lemma wf_sorted: "wf_dir t \<Longrightarrow> sorted_wrt (<) (names (map fst (dkids t)))"
  using wf_node_ok [of t] by (simp add: node_ok_def)

lemma logical_kids_plain: "plain_kids kids \<Longrightarrow> logical_kids kids = kids"
  by (induction kids) (auto simp: logical_kids_def plain_kids_def)

lemma logical_plain: "plain_kids (dkids t) \<Longrightarrow> logical t = dkids t"
  by (simp add: logical_def logical_kids_plain)

lemma logical_kids_simps [simp]:
  "logical_kids [] = []"
  "logical_kids (k # kids) =
     (if e_kind (fst k) = KIND_SHARD then dkids (snd k) else [k]) @ logical_kids kids"
  "logical_kids (ks @ ks') = logical_kids ks @ logical_kids ks'"
  by (simp_all add: logical_kids_def)

lemma is_subtree_shard [simp]: "e_kind e = KIND_SHARD \<Longrightarrow> is_subtree e"
  by (simp add: is_subtree_def)

lemma shard_kids_D:
  assumes "shard_kids kids" and "k \<in> set kids"
  shows "e_kind (fst k) = KIND_SHARD" "is_subtree (fst k)" "dkids (snd k) \<noteq> []"
    "plain_kids (dkids (snd k))" "\<forall>x \<in> set (dkids (snd k)). e_path (fst k) \<le> e_path (fst x)"
  using assms by (auto simp: shard_kids_def shard_body_def)

text \<open>The name is in the logical list exactly when it is in the last shard starting at or before it.\<close>

lemma find_in_shards:
  assumes "shard_kids kids"
  shows "find (\<lambda>k. e_path (fst k) = x) (logical_kids kids) =
    (let ws = takeWhile (\<lambda>k. e_path (fst k) \<le> x) kids in
     if ws = [] then None else find (\<lambda>k. e_path (fst k) = x) (dkids (snd (last ws))))"
proof -
  define ws where "ws = takeWhile (\<lambda>k. e_path (fst k) \<le> x) kids"
  let ?Q = "\<lambda>k :: entry \<times> dtree. e_path (fst k) = x"
  define rest where "rest = dropWhile (\<lambda>k. e_path (fst k) \<le> x) kids"
  have kids: "kids = ws @ rest" by (simp add: ws_def rest_def)
  have before: "sorted_wrt before_shard (ws @ rest)"
    using assms(1) by (simp add: shard_kids_def kids)
  have bodies: "\<exists>k \<in> set ks. y \<in> set (dkids (snd k))"
    if "y \<in> set (logical_kids ks)" "set ks \<subseteq> set kids" for y ks
    using that shard_kids_D(1) [OF assms(1)] by (induction ks) (auto split: if_splits)
  have rest: "find ?Q (logical_kids rest) = None"
  proof -
    have above: "x < e_path (fst k)" if in_rest: "k \<in> set rest" for k
    proof -
      obtain r rs where r: "rest = r # rs" using in_rest by (cases rest) auto
      then have "x < e_path (fst r)"
        unfolding rest_def by (metis hd_dropWhile list.sel(1) list.discI linorder_not_less)
      moreover have "e_path (fst r) < e_path (fst k)" if "k \<in> set rs"
      proof -
        from r kids have "r \<in> set kids" by simp
        note R = shard_kids_D [OF assms(1) this]
        then obtain y where y: "y \<in> set (dkids (snd r))" by (cases "dkids (snd r)") auto
        with before r that have "e_path (fst y) < e_path (fst k)"
          by (auto simp: sorted_wrt_append before_shard_def)
        with R(5) y show ?thesis by force
      qed
      ultimately show ?thesis using r in_rest by force
    qed
    have "x < e_path (fst y)" if "y \<in> set (logical_kids rest)" for y
    proof -
      from bodies [OF that] kids obtain k where k: "k \<in> set rest" "y \<in> set (dkids (snd k))" by auto
      with kids shard_kids_D(5) [OF assms(1), of k] above [of k] show ?thesis by force
    qed
    then show ?thesis by (force simp: find_None_iff)
  qed
  show ?thesis
  proof (cases "ws = []")
    case True
    with rest have "find ?Q (logical_kids kids) = None" by (simp add: kids)
    with True show ?thesis by (simp add: ws_def Let_def)
  next
    case False
    define w where "w = last ws"
    have ws: "ws = butlast ws @ [w]" using False by (simp add: w_def)
    have "w \<in> set ws" using False by (simp add: w_def)
    then have wx: "e_path (fst w) \<le> x" and "w \<in> set kids"
      by (auto simp: ws_def dest: set_takeWhileD)
    note w = shard_kids_D [OF assms(1) this(2)]
    have "e_path (fst y) < e_path (fst w)" if "y \<in> set (logical_kids (butlast ws))" for y
    proof -
      have "set (butlast ws) \<subseteq> set kids" by (auto simp: kids dest: in_set_butlastD)
      from bodies [OF that this] obtain k where "k \<in> set (butlast ws)" "y \<in> set (dkids (snd k))" by auto
      moreover have "sorted_wrt before_shard (butlast ws @ [w])"
        using before ws by (metis sorted_wrt_append)
      ultimately show ?thesis by (auto simp: sorted_wrt_append before_shard_def)
    qed
    with wx have "find ?Q (logical_kids (butlast ws)) = None" by (force simp: find_None_iff)
    moreover have "logical_kids ws = logical_kids (butlast ws) @ dkids (snd w)"
      by (subst ws) (simp add: w)
    ultimately have "find ?Q (logical_kids kids) = find ?Q (dkids (snd (last ws)))"
      using rest by (simp add: kids find_append w_def split: option.split)
    with False show ?thesis by (simp add: ws_def Let_def)
  qed
qed

lemma takeWhile_map_fst:
  "takeWhile (\<lambda>e. Q e) (map fst kids) = map fst (takeWhile (\<lambda>k. Q (fst k)) kids)"
  by (simp add: takeWhile_map comp_def)

lemma descend_dplain:
  assumes "wf_dir t" and "plain_kids (dkids t)"
  shows "descend (map fst (dkids t)) part = map_option fst (dchild t part)"
  using descend_plain [OF wf_sorted [OF assms(1)], of part] assms(2)
  by (simp add: plain_kids_def find_map_fst dchild_def logical_plain [OF assms(2)])

lemma descend_dshards:
  assumes "wf_dir t" and "shard_kids (dkids t)"
  shows "(descend (map fst (dkids t)) part = None \<and> dchild t part = None) \<or>
    (\<exists>e t'. (e, t') \<in> set (dkids t) \<and> descend (map fst (dkids t)) part = Some e \<and>
       dchild t part = dchild t' part \<and> plain_kids (dkids t'))"
proof -
  define ws where "ws = takeWhile (\<lambda>k. e_path (fst k) \<le> part) (dkids t)"
  have 1: "descend (map fst (dkids t)) part =
      (if ws = [] then None else Some (fst (last ws)))"
    using descend_shards [OF wf_sorted [OF assms(1)], of part] shard_kids_D(1) [OF assms(2)]
    by (auto simp: takeWhile_map_fst ws_def Let_def last_map)
  have 2: "dchild t part =
      (if ws = [] then None else find (\<lambda>k. e_path (fst k) = part) (dkids (snd (last ws))))"
    using find_in_shards [OF assms(2), of part] by (simp add: dchild_def logical_def ws_def Let_def)
  show ?thesis
  proof (cases "ws = []")
    case False
    then have "last ws \<in> set (dkids t)"
      by (metis last_in_set ws_def set_takeWhileD)
    with shard_kids_D [OF assms(2) this] 1 2 False show ?thesis
      by (auto simp: dchild_def logical_plain intro!: exI [of _ "fst (last ws)"] exI [of _ "snd (last ws)"])
  qed (simp add: 1 2)
qed

lemma dchild_logical: "dchild t p = Some k \<Longrightarrow> k \<in> set (logical t) \<and> e_path (fst k) = p"
  by (auto simp: dchild_def find_Some_iff)

lemma shard_kind [simp]: "e_kind e = KIND_SHARD \<or> e_kind e = KIND_TREE \<longleftrightarrow> is_subtree e"
  by (cases "e_kind e") (auto simp: is_subtree_def)

text \<open>The reference result of \<open>lookup_loop\<close>.\<close>

definition found :: "string \<Rightarrow> entry option \<Rightarrow> entry option res" where
  "found normalized r =
     (case r of None \<Rightarrow> Inr None | Some e \<Rightarrow> bindE (replace_path e normalized) (\<lambda>e'. Inr (Some e')))"

lemma found_None [simp]: "found normalized None = Inr None"
  by (simp add: found_def)

lemma lookup_plain:
  assumes "rep L h t" "wf_dir t" "plain_kids (dkids t)"
    and IH: "\<And>(e :: entry) t'. rep L (e_hash e) t' \<Longrightarrow> wf_dir t' \<Longrightarrow>
      lookup_loop L n normalized (e_hash e) ps = found normalized (dlookup t' ps)"
  shows "lookup_loop L (Suc n) normalized h (p # ps) = found normalized (dlookup t (p # ps))"
proof (cases "dchild t p")
  case None
  then show ?thesis
    using assms(1) by (simp add: rep_load descend_dplain [OF assms(2,3)])
next
  case (Some k)
  obtain e t' where k: "k = (e, t')" by (cases k)
  have mem: "(e, t') \<in> set (dkids t)"
    using Some k dchild_logical [OF Some] by (simp add: logical_plain [OF assms(3)])
  with assms(3) have kind: "e_kind e \<noteq> KIND_SHARD" by (auto simp: plain_kids_def)
  with shard_kind [of e] have tree: "e_kind e = KIND_TREE" if "is_subtree e" using that by blast
  have "lookup_loop L n normalized (e_hash e) ps = found normalized (dlookup t' ps)"
    if "is_subtree e"
    using IH [OF rep_kid [OF assms(1) mem that] wf_kid [OF assms(2) mem that]] .
  with Some k tree show ?thesis
    using assms(1) by (simp add: rep_load descend_dplain [OF assms(2,3)] found_def)
qed

lemma lookup_loop_spec:
  assumes "rep L h t" "wf_dir t" "2 * length parts < n"
  shows "lookup_loop L n normalized h parts = found normalized (dlookup t parts)"
  using assms
proof (induction parts arbitrary: h t n)
  case Nil
  then show ?case by (cases n) simp_all
next
  case (Cons p ps)
  from Cons.prems(3) obtain m where n: "n = Suc (Suc m)" and m: "2 * length ps < m"
    by (cases n; cases "n - 1") auto
  have plain: "lookup_loop L (Suc j) normalized h (p # ps) = found normalized (dlookup t (p # ps))"
    if "rep L h t" "wf_dir t" "plain_kids (dkids t)" "m \<le> j" for h t j
    using that m by (intro lookup_plain Cons.IH) auto
  show ?case
  proof (cases "plain_kids (dkids t)")
    case True
    with plain [OF Cons.prems(1,2)] n show ?thesis by simp
  next
    case False
    with wf_cases [OF Cons.prems(2)] have "shard_kids (dkids t)" by simp
    with descend_dshards [OF Cons.prems(2) this, of p] Cons.prems n show ?thesis
    proof (elim disjE exE conjE)
      fix e t'
      assume e: "(e, t') \<in> set (dkids t)" "descend (map fst (dkids t)) p = Some e"
        "dchild t p = dchild t' p" "plain_kids (dkids t')" "shard_kids (dkids t)"
      have k: "e_kind e = KIND_SHARD" using shard_kids_D(1) [OF e(5,1)] by simp
      have "lookup_loop L (Suc m) normalized (e_hash e) (p # ps) = found normalized (dlookup t' (p # ps))"
        using k e rep_kid [OF Cons.prems(1) e(1)] wf_kid [OF Cons.prems(2) e(1)] by (intro plain) auto
      with e k n show ?thesis using Cons.prems(1) by (simp add: rep_load)
    qed (simp add: rep_load)
  qed
qed

section \<open>Walks\<close>

text \<open>The files below a frame, with the path the walk builds for each.\<close>

fun dpaths :: "string \<Rightarrow> dtree \<Rightarrow> (string \<times> entry) list" where
  "dpaths pre (DNode kids) =
     concat (map (\<lambda>(e, t). if is_subtree e then dpaths (child_prefix pre e) t
                           else [(pre @ e_path e, e)]) kids)"

definition kid_paths :: "string \<Rightarrow> (entry \<times> dtree) list \<Rightarrow> (string \<times> entry) list" where
  "kid_paths pre kids =
     concat (map (\<lambda>(e, t). if is_subtree e then dpaths (child_prefix pre e) t
                           else [(pre @ e_path e, e)]) kids)"

definition kid_steps :: "(entry \<times> dtree) list \<Rightarrow> nat" where
  "kid_steps kids = Suc (sum_list (map (\<lambda>(e, t). if is_subtree e then Suc (steps t) else 0) kids))"

lemma dpaths_kids: "dpaths pre t = kid_paths pre (dkids t)"
  by (cases t) (simp add: kid_paths_def)

lemma steps_kids: "steps t = kid_steps (dkids t)"
  by (cases t) (simp add: kid_steps_def)

lemma kid_paths_Nil [simp]: "kid_paths pre [] = []"
  by (simp add: kid_paths_def)

lemma kid_paths_append: "kid_paths pre (xs @ ys) = kid_paths pre xs @ kid_paths pre ys"
  by (simp add: kid_paths_def)

lemma kid_paths_Cons:
  "kid_paths pre ((e, t) # ks) =
     (if is_subtree e then dpaths (child_prefix pre e) t else [(pre @ e_path e, e)]) @ kid_paths pre ks"
  by (simp add: kid_paths_def)

lemma kid_paths_leaves:
  "\<forall>k \<in> set ks. \<not> is_subtree (fst k) \<Longrightarrow> kid_paths pre ks = map (\<lambda>e. (pre @ e_path e, e)) (map fst ks)"
  by (induction ks) (auto simp: kid_paths_def)

lemma kid_steps_append: "kid_steps (xs @ ys) = kid_steps xs + (kid_steps ys - 1)"
  by (simp add: kid_steps_def)

lemma kid_steps_leaves: "\<forall>k \<in> set ks. \<not> is_subtree (fst k) \<Longrightarrow> kid_steps ks = 1"
  by (induction ks) (auto simp: kid_steps_def)

lemma prefix_child_prefix: "prefix pre (child_prefix pre e)"
  by (simp add: child_prefix_def)

lemma dpaths_prefix: "(path, x) \<in> set (dpaths pre t) \<Longrightarrow> prefix pre path"
proof (induction t arbitrary: pre)
  case (DNode kids)
  then obtain e t where k: "(e, t) \<in> set kids"
    and path: "(path, x) \<in> set (if is_subtree e then dpaths (child_prefix pre e) t else [(pre @ e_path e, e)])"
    by auto
  show ?case
  proof (cases "is_subtree e")
    case True
    with DNode.IH [OF k, of t] path have "prefix (child_prefix pre e) path" by simp
    then show ?thesis using prefix_child_prefix prefix_order.order_trans by blast
  qed (use path in simp)
qed

text \<open>A subtree that the walk for a prefix skips holds no file under that prefix.\<close>

lemma skip_sound:
  assumes "normalized \<noteq> []" and "\<not> (prefix (normalized @ ''/'') cp \<or> prefix cp normalized)"
    and "prefix cp path"
  shows "\<not> prefix_wanted normalized path"
proof
  assume "prefix_wanted normalized path"
  with assms(1) consider "path = normalized" | "prefix (normalized @ ''/'') path"
    by (auto simp: prefix_wanted_def matches_prefix_def)
  then show False
  proof cases
    case 1
    with assms(2,3) show False by simp
  next
    case 2
    with assms(3) have "prefix (normalized @ ''/'') cp \<or> prefix cp (normalized @ ''/'')"
      using prefix_same_cases by blast
    with assms(2) show False by (auto simp: prefix_snoc)
  qed
qed

lemma skipped_subtree:
  assumes "normalized \<noteq> []" and "\<not> (prefix (normalized @ ''/'') cp \<or> prefix cp normalized)"
  shows "filter (\<lambda>(path, e). prefix_wanted normalized path) (dpaths cp t) = []"
  using skip_sound [OF assms] dpaths_prefix [of _ _ cp t] by (fastforce simp: filter_empty_conv)

definition wanted :: "string \<Rightarrow> (string \<times> entry) list \<Rightarrow> (string \<times> entry) list" where
  "wanted normalized xs = filter (\<lambda>(path, e). prefix_wanted normalized path) xs"

lemma wanted_append: "wanted normalized (xs @ ys) = wanted normalized xs @ wanted normalized ys"
  by (simp add: wanted_def)

text \<open>A frame contributes the wanted files of its remaining children, then the stack goes on.\<close>

definition frame_done ::
  "loader \<Rightarrow> string \<Rightarrow> nat \<Rightarrow> string \<times> string \<times> nat \<Rightarrow> (string \<times> entry) list \<Rightarrow> bool" where
  "frame_done L normalized bound frame out \<longleftrightarrow>
     (\<exists>c \<le> bound. \<forall>n stack. prefix_loop L normalized (c + n) (frame # stack) =
        bindE (prefix_loop L normalized n stack) (\<lambda>r. Inr (out @ r)))"

lemma bindE_assoc: "bindE (bindE m f) g = bindE m (\<lambda>x. bindE (f x) g)"
  by (cases m) auto

lemma frame_step:
  assumes "rep L h (DNode kids)" and "i \<le> length kids"
    and IH: "\<And>e t pre. (e, t) \<in> set kids \<Longrightarrow> is_subtree e \<Longrightarrow>
      frame_done L normalized (steps t) (e_hash e, pre, 0) (wanted normalized (dpaths pre t))"
  shows "frame_done L normalized (kid_steps (drop i kids)) (h, pre, i)
    (wanted normalized (kid_paths pre (drop i kids)))"
  using assms(2)
proof (induction "length kids - i" arbitrary: i rule: less_induct)
  case less
  define leaves where "leaves = takeWhile (\<lambda>k. \<not> is_subtree (fst k)) (drop i kids)"
  define j where "j = i + length leaves"
  have load: "load_or_raise L h = Inr (map fst kids)" using rep_load [OF assms(1)] by simp
  have dropj: "drop i kids = leaves @ drop j kids"
    using takeWhile_dropWhile_id [of "\<lambda>k. \<not> is_subtree (fst k)" "drop i kids"]
    by (simp add: j_def leaves_def dropWhile_eq_drop add.commute)
  have lv: "takeWhile (\<lambda>e. \<not> is_subtree e) (drop i (map fst kids)) = map fst leaves"
    by (simp add: leaves_def drop_map takeWhile_map_fst)
  have leaf: "\<forall>k \<in> set leaves. \<not> is_subtree (fst k)"
    by (auto simp: leaves_def dest: set_takeWhileD)
  have out: "wanted normalized (kid_paths pre (drop i kids)) =
      wanted normalized (map (\<lambda>e. (pre @ e_path e, e)) (map fst leaves)) @
      wanted normalized (kid_paths pre (drop j kids))"
    by (simp add: dropj kid_paths_append wanted_append kid_paths_leaves [OF leaf])
  have cost: "kid_steps (drop i kids) = kid_steps (drop j kids)"
    by (simp add: dropj kid_steps_append kid_steps_leaves [OF leaf]) (simp add: kid_steps_def)
  show ?case
  proof (cases "j < length kids")
    case False
    then have "drop j kids = []" by simp
    with out have out': "wanted normalized (kid_paths pre (drop i kids)) =
        wanted normalized (map (\<lambda>e. (pre @ e_path e, e)) (map fst leaves))"
      by (simp add: wanted_def)
    from False have "prefix_loop L normalized (1 + n) ((h, pre, i) # stack) =
        bindE (prefix_loop L normalized n stack)
          (\<lambda>r. Inr (wanted normalized (kid_paths pre (drop i kids)) @ r))" for n stack
      unfolding out' by (simp add: load lv j_def [symmetric] wanted_def)
    then show ?thesis unfolding frame_done_def by (intro exI [of _ 1]) (simp add: kid_steps_def)
  next
    case True
    obtain e t where e: "kids ! j = (e, t)" by (cases "kids ! j")
    have mem: "(e, t) \<in> set kids" using True e by (metis nth_mem)
    have dj: "drop j kids = (e, t) # drop (Suc j) kids" using True e by (metis Cons_nth_drop_Suc)
    have "dropWhile (\<lambda>k. \<not> is_subtree (fst k)) (drop i kids) = drop j kids"
      by (simp add: j_def leaves_def dropWhile_eq_drop add.commute)
    with dj have sub: "is_subtree e"
      by (metis fst_conv hd_dropWhile list.discI list.sel(1))
    let ?cp = "child_prefix pre e"
    define skip where
      "skip \<longleftrightarrow> normalized \<noteq> [] \<and> \<not> (prefix (normalized @ ''/'') ?cp \<or> prefix ?cp normalized)"
    let ?lv = "wanted normalized (map (\<lambda>e. (pre @ e_path e, e)) (map fst leaves))"
    have step: "prefix_loop L normalized (Suc n) ((h, pre, i) # stack) =
        bindE (prefix_loop L normalized n
          ((if skip then [] else [(e_hash e, ?cp, 0)]) @ (h, pre, Suc j) # stack))
          (\<lambda>r. Inr (?lv @ r))" for n stack
      using True by (simp add: load lv j_def [symmetric] e wanted_def Let_def skip_def)
    have "frame_done L normalized (kid_steps (drop (Suc j) kids)) (h, pre, Suc j)
        (wanted normalized (kid_paths pre (drop (Suc j) kids)))"
      using True by (intro less.hyps) (auto simp: j_def)
    then obtain c1 where c1: "c1 \<le> kid_steps (drop (Suc j) kids)"
      and rest: "\<And>n stack. prefix_loop L normalized (c1 + n) ((h, pre, Suc j) # stack) =
        bindE (prefix_loop L normalized n stack)
          (\<lambda>r. Inr (wanted normalized (kid_paths pre (drop (Suc j) kids)) @ r))"
      unfolding frame_done_def by blast
    have bound: "Suc (steps t + kid_steps (drop (Suc j) kids)) = kid_steps (drop i kids)"
      unfolding cost dj using sub by (simp add: kid_steps_def)
    show ?thesis
    proof (cases skip)
      case skip: True
      have "wanted normalized (dpaths ?cp t) = []"
        using skip skipped_subtree [of normalized ?cp t] by (simp add: wanted_def skip_def)
      then have "prefix_loop L normalized (Suc c1 + n) ((h, pre, i) # stack) =
          bindE (prefix_loop L normalized n stack)
            (\<lambda>r. Inr (wanted normalized (kid_paths pre (drop i kids)) @ r))" for n stack
        using skip sub step [of "c1 + n" stack]
        by (simp add: rest out dj kid_paths_Cons wanted_append bindE_assoc del: prefix_loop.simps)
      then show ?thesis using c1 bound unfolding frame_done_def
        by (intro exI [of _ "Suc c1"]) auto
    next
      case keep: False
      from IH [OF mem sub, of ?cp] obtain c2 where c2: "c2 \<le> steps t"
        and sub_run: "\<And>n stack. prefix_loop L normalized (c2 + n) ((e_hash e, ?cp, 0) # stack) =
          bindE (prefix_loop L normalized n stack) (\<lambda>r. Inr (wanted normalized (dpaths ?cp t) @ r))"
        unfolding frame_done_def by blast
      have "prefix_loop L normalized (Suc (c2 + c1) + n) ((h, pre, i) # stack) =
          bindE (prefix_loop L normalized n stack)
            (\<lambda>r. Inr (wanted normalized (kid_paths pre (drop i kids)) @ r))" for n stack
        using keep sub step [of "c2 + (c1 + n)" stack]
        by (simp add: sub_run rest out dj kid_paths_Cons wanted_append bindE_assoc add.assoc
            del: prefix_loop.simps)
      then show ?thesis using c1 c2 bound unfolding frame_done_def
        by (intro exI [of _ "Suc (c2 + c1)"]) auto
    qed
  qed
qed

lemma frame_all:
  assumes "rep L h t"
  shows "frame_done L normalized (steps t) (h, pre, 0) (wanted normalized (dpaths pre t))"
  using assms
proof (induction t arbitrary: h pre)
  case (DNode kids)
  have "frame_done L normalized (steps t) (e_hash e, cp, 0) (wanted normalized (dpaths cp t))"
    if "(e, t) \<in> set kids" "is_subtree e" for e t cp
    using DNode.IH [of "(e, t)" t] rep_kid [OF DNode.prems] that by simp
  from frame_step [OF DNode.prems _ this, of 0 pre] show ?case
    by (simp add: kid_paths_def steps_kids del: steps.simps)
qed

lemma prefix_loop_spec:
  assumes "rep L h t" and "steps t \<le> n"
  shows "prefix_loop L normalized n [(h, pre, 0)] = Inr (wanted normalized (dpaths pre t))"
proof -
  from frame_all [OF assms(1), of normalized pre] obtain c where c: "c \<le> steps t"
    and run: "\<And>n stack. prefix_loop L normalized (c + n) ((h, pre, 0) # stack) =
      bindE (prefix_loop L normalized n stack) (\<lambda>r. Inr (wanted normalized (dpaths pre t) @ r))"
    unfolding frame_done_def by blast
  from c assms(2) have "n = c + (n - c)" by simp
  then show ?thesis using run [of "n - c" "[]"] by (simp del: prefix_loop.simps(3))
qed

text \<open>The full walk is the prefix walk for the empty prefix.\<close>

lemma iter_loop_prefix: "iter_loop L n stack = prefix_loop L [] n stack"
proof (induction L n stack rule: iter_loop.induct)
  case (3 L n current_hash pre resume_index stack)
  show ?case
  proof (cases "load_or_raise L current_hash")
    case (Inr es)
    with 3 show ?thesis by (simp add: prefix_wanted_def Let_def cong: bindE_cong)
  qed simp
qed simp_all

lemma wanted_all [simp]: "wanted [] xs = xs"
  by (simp add: wanted_def prefix_wanted_def case_prod_unfold)

lemma iter_loop_spec:
  "rep L h t \<Longrightarrow> steps t \<le> n \<Longrightarrow> iter_loop L n [(h, pre, 0)] = Inr (dpaths pre t)"
  by (simp add: iter_loop_prefix prefix_loop_spec)

text \<open>The paths a walk builds are the joined component lists of \<open>dleaves\<close>.\<close>

definition kid_leaves :: "entry \<times> dtree \<Rightarrow> (string list \<times> entry) list" where
  "kid_leaves = (\<lambda>(e, t).
     if \<not> is_subtree e then [([e_path e], e)]
     else if e_kind e = KIND_SHARD then dleaves t
     else map (\<lambda>(ps, x). (e_path e # ps, x)) (dleaves t))"

lemma dleaves_kids: "dleaves t = concat (map kid_leaves (dkids t))"
  by (cases t) (simp add: kid_leaves_def)

lemma dleaves_nonempty: "(ps, x) \<in> set (dleaves t) \<Longrightarrow> ps \<noteq> []"
proof (induction t arbitrary: ps)
  case (DNode kids)
  then obtain e t' where k: "(e, t') \<in> set kids" and "(ps, x) \<in> set (kid_leaves (e, t'))"
    unfolding dleaves_kids by auto
  with DNode.IH [OF k, of t'] show ?case by (auto simp: kid_leaves_def split: if_splits)
qed

lemma kid_paths_concat:
  "kid_paths pre kids =
     concat (map (\<lambda>k. if is_subtree (fst k) then dpaths (child_prefix pre (fst k)) (snd k)
                       else [(pre @ e_path (fst k), fst k)]) kids)"
  by (simp add: kid_paths_def case_prod_unfold cong: if_cong)

lemma dpaths_dleaves: "dpaths pre t = map (\<lambda>(ps, x). (pre @ join_on (CHR ''/'') ps, x)) (dleaves t)"
proof (induction t arbitrary: pre)
  case (DNode kids)
  let ?j = "\<lambda>pre (ps, x :: entry). (pre @ join_on (CHR ''/'') ps, x)"
  have nest: "?j (pre @ e_path e @ ''/'') (ps, x) = ?j pre (e_path e # ps, x)"
    if "(ps, x) \<in> set (dleaves t)" for e :: entry and ps x t
    using dleaves_nonempty [OF that] by (cases ps) simp_all
  have "(if is_subtree (fst k) then dpaths (child_prefix pre (fst k)) (snd k)
         else [(pre @ e_path (fst k), fst k)]) = map (?j pre) (kid_leaves k)" if "k \<in> set kids" for k
  proof -
    obtain e t where k: "k = (e, t)" by (cases k)
    have IH: "dpaths pre' t = map (?j pre') (dleaves t)" for pre'
      using DNode.IH [of k t] that k by simp
    consider "\<not> is_subtree e" | "e_kind e = KIND_SHARD" | "is_subtree e" "e_kind e \<noteq> KIND_SHARD" by blast
    then show ?thesis
    proof cases
      case 3
      have "map (?j (pre @ e_path e @ ''/'')) (dleaves t) =
          map (?j pre) (map (\<lambda>(ps, x). (e_path e # ps, x)) (dleaves t))"
        unfolding map_map
      proof (rule map_cong [OF refl])
        fix z assume z: "z \<in> set (dleaves t)"
        obtain ps x where "z = (ps, x)" by (cases z)
        with nest [of ps x t e] z
        show "?j (pre @ e_path e @ ''/'') z = (?j pre \<circ> (\<lambda>(ps, x). (e_path e # ps, x))) z"
          by (simp add: comp_def)
      qed
      with 3 show ?thesis by (simp add: k kid_leaves_def child_prefix_def IH)
    qed (simp_all add: k kid_leaves_def child_prefix_def IH)
  qed
  then have "map (\<lambda>k. if is_subtree (fst k) then dpaths (child_prefix pre (fst k)) (snd k)
         else [(pre @ e_path (fst k), fst k)]) kids = map (\<lambda>k. map (?j pre) (kid_leaves k)) kids"
    by (intro map_cong refl) auto
  then show ?case
    unfolding dpaths_kids [of pre "DNode kids"] dleaves_kids [of "DNode kids"] dtree.sel
      kid_paths_concat map_concat map_map comp_def by (rule arg_cong)
qed

text \<open>The names of a stored path are valid, and the path splits back into them.\<close>

lemma component_ends:
  assumes "component_ok p"
  shows "hd p \<noteq> CHR ''/''" "last p \<noteq> CHR ''/''"
  using assms hd_in_set [of p] last_in_set [of p] by (metis component_ok_iff)+

lemma entry_path_join:
  assumes "ps \<noteq> []" and "\<forall>p \<in> set ps. component_ok p"
  shows "validate_entry_path (join_on (CHR ''/'') ps) = Inr ()"
    and "split_path (join_on (CHR ''/'') ps) = ps"
proof -
  show split: "split_path (join_on (CHR ''/'') ps) = ps"
    using assms by (auto simp: split_path_def component_ok_iff intro!: split_join)
  have double: "[] \<in> set (tl (split_on x (u @ x # x # v)))" for x :: char and u v
    by (induction u) (auto split: list.split dest: list.set_sel(2) [rotated])
  have ends: "join_on (CHR ''/'') ps \<noteq> [] \<and> hd (join_on (CHR ''/'') ps) \<noteq> CHR ''/'' \<and>
      last (join_on (CHR ''/'') ps) \<noteq> CHR ''/'' \<and> CHR 0x5C \<notin> set (join_on (CHR ''/'') ps)"
    using assms
  proof (induction "CHR ''/''" ps rule: join_on.induct)
    case (2 p)
    then show ?case using component_ends [of p] by (auto simp: component_ok_iff)
  next
    case (3 p q ps)
    then show ?case using component_ends [of p] by (auto simp: component_ok_iff)
  qed simp
  have "\<not> sublist ''//'' (join_on (CHR ''/'') ps)"
  proof
    assume "sublist ''//'' (join_on (CHR ''/'') ps)"
    then obtain u v where "join_on (CHR ''/'') ps = u @ ''//'' @ v" by (auto simp: sublist_def)
    then have "[] \<in> set (split_path (join_on (CHR ''/'') ps))"
      using list.set_sel(2) [OF split_on_not_Nil double [of "CHR ''/''" u v]]
      by (simp add: split_path_def)
    with split assms(2) show False by (auto simp: component_ok_iff)
  qed
  with ends split assms(2) show "validate_entry_path (join_on (CHR ''/'') ps) = Inr ()"
    by (auto simp: validate_entry_path_def component_ok_iff)
qed

section \<open>Lookups and walks agree\<close>

lemma shard_logical_sorted:
  assumes "shard_kids ks" and "\<forall>k \<in> set ks. sorted_wrt (<) (kid_names (dkids (snd k)))"
  shows "sorted_wrt (<) (kid_names (logical_kids ks))"
proof -
  have "sorted_wrt (<) (kid_names (logical_kids ks))"
    if "sorted_wrt before_shard ks"
      "\<forall>k \<in> set ks. e_kind (fst k) = KIND_SHARD \<and> shard_body (fst k) (snd k)"
      "\<forall>k \<in> set ks. sorted_wrt (<) (kid_names (dkids (snd k)))" for ks
    using that
  proof (induction ks)
    case (Cons k ks)
    have bodies: "\<exists>k' \<in> set ks. y \<in> set (dkids (snd k'))" if "y \<in> set (logical_kids ks)" for y
      using that Cons.prems(2) by (induction ks) (auto split: if_splits)
    have "e_path (fst u) < e_path (fst y)"
      if u: "u \<in> set (dkids (snd k))" and "y \<in> set (logical_kids ks)" for u y
    proof -
      from bodies [OF that(2)] obtain k' where k': "k' \<in> set ks" "y \<in> set (dkids (snd k'))" by auto
      with Cons.prems(1) u have "e_path (fst u) < e_path (fst k')" by (simp add: before_shard_def)
      moreover have "e_path (fst k') \<le> e_path (fst y)"
        using Cons.prems(2) k' by (simp add: shard_body_def)
      ultimately show ?thesis by simp
    qed
    with Cons show ?case by (auto simp: sorted_wrt_append)
  qed simp
  with assms show ?thesis by (simp add: shard_kids_def)
qed

lemma logical_sorted:
  assumes "wf_dir t"
  shows "sorted_wrt (<) (kid_names (logical t))"
proof (cases "plain_kids (dkids t)")
  case True
  with wf_sorted [OF assms] show ?thesis by (simp add: logical_plain comp_def)
next
  case False
  with wf_cases [OF assms] have sh: "shard_kids (dkids t)" by simp
  have "sorted_wrt (<) (kid_names (dkids (snd k)))" if "k \<in> set (dkids t)" for k
    using wf_sorted [OF wf_kid [OF assms, of "fst k" "snd k"]] shard_kids_D(2) [OF sh that] that
    by (simp add: comp_def)
  with shard_logical_sorted [OF sh] show ?thesis by (simp add: logical_def)
qed

lemma logical_kid:
  assumes "wf_dir t" and "k \<in> set (logical t)"
  shows "e_kind (fst k) \<noteq> KIND_SHARD" "child_ok (fst k)" "is_subtree (fst k) \<Longrightarrow> wf_dir (snd k)"
proof -
  have "e_kind (fst k) \<noteq> KIND_SHARD \<and> child_ok (fst k) \<and> (is_subtree (fst k) \<longrightarrow> wf_dir (snd k))"
  proof (cases "plain_kids (dkids t)")
    case True
    with assms wf_node_ok [OF assms(1)] wf_kid [OF assms(1), of "fst k" "snd k"] show ?thesis
      by (auto simp: logical_plain plain_kids_def node_ok_def)
  next
    case False
    with wf_cases [OF assms(1)] have sh: "shard_kids (dkids t)" by simp
    have "k \<in> set (logical_kids kids) \<Longrightarrow> \<forall>k \<in> set kids. e_kind (fst k) = KIND_SHARD \<Longrightarrow>
        \<exists>s \<in> set kids. k \<in> set (dkids (snd s))" for kids
      by (induction kids) auto
    with assms(2) shard_kids_D(1) [OF sh] obtain s
      where s: "s \<in> set (dkids t)" "k \<in> set (dkids (snd s))" unfolding logical_def by metis
    note S = shard_kids_D [OF sh s(1)]
    have "wf_dir (snd s)" using wf_kid [OF assms(1), of "fst s" "snd s"] S(2) s(1) by simp
    with S(4) s(2) wf_node_ok [OF this] wf_kid [OF this, of "fst k" "snd k"] show ?thesis
      by (auto simp: plain_kids_def node_ok_def)
  qed
  then show "e_kind (fst k) \<noteq> KIND_SHARD" "child_ok (fst k)" "is_subtree (fst k) \<Longrightarrow> wf_dir (snd k)"
    by simp_all
qed

lemma dchild_iff:
  assumes "wf_dir t"
  shows "dchild t p = Some k \<longleftrightarrow> k \<in> set (logical t) \<and> e_path (fst k) = p"
proof -
  have "sorted_wrt (<) (kid_names ks) \<Longrightarrow>
    find (\<lambda>k. e_path (fst k) = p) ks = Some k \<longleftrightarrow> k \<in> set ks \<and> e_path (fst k) = p" for ks
    by (induction ks) auto
  from this [OF logical_sorted [OF assms]] show ?thesis by (simp add: dchild_def)
qed

lemma dleaves_logical: "dleaves t = concat (map kid_leaves (logical t))"
proof -
  have "concat (map kid_leaves kids) = concat (map kid_leaves (logical_kids kids))" for kids
    by (induction kids) (auto simp: kid_leaves_def dleaves_kids)
  then show ?thesis by (simp add: dleaves_kids logical_def)
qed

lemma kid_leaves_iff:
  assumes "e_kind (fst k) \<noteq> KIND_SHARD"
  shows "(qs, x) \<in> set (kid_leaves k) \<longleftrightarrow>
    (\<exists>ps. qs = e_path (fst k) # ps \<and>
       (if is_subtree (fst k) then (ps, x) \<in> set (dleaves (snd k)) else ps = [] \<and> x = fst k))"
  using assms by (cases k) (auto simp: kid_leaves_def)

lemma dlookup_dleaves:
  "wf_dir t \<Longrightarrow> dlookup t ps = Some e \<longleftrightarrow> (ps, e) \<in> set (dleaves t)"
proof (induction ps arbitrary: t)
  case Nil
  then show ?case using dleaves_nonempty [of "[]" e t] by auto
next
  case (Cons p ps)
  have "dlookup t (p # ps) = Some e \<longleftrightarrow>
    (\<exists>k. dchild t p = Some k \<and>
       (if is_subtree (fst k) then dlookup (snd k) ps = Some e else ps = [] \<and> e = fst k))"
    by (auto split: option.split)
  also have "\<dots> \<longleftrightarrow> (\<exists>k \<in> set (logical t). (p # ps, e) \<in> set (kid_leaves k))"
  proof -
    have "(p # ps, e) \<in> set (kid_leaves k) \<longleftrightarrow> e_path (fst k) = p \<and>
        (if is_subtree (fst k) then dlookup (snd k) ps = Some e else ps = [] \<and> e = fst k)"
      if "k \<in> set (logical t)" for k
      using Cons.IH logical_kid [OF Cons.prems that] by (auto simp: kid_leaves_iff)
    then show ?thesis unfolding dchild_iff [OF Cons.prems] by blast
  qed
  also have "\<dots> \<longleftrightarrow> (p # ps, e) \<in> set (dleaves t)" by (simp add: dleaves_logical)
  finally show ?case .
qed

lemma dleaves_ok:
  "wf_dir t \<Longrightarrow> (ps, e) \<in> set (dleaves t) \<Longrightarrow>
     \<not> is_subtree e \<and> child_ok e \<and> ps \<noteq> [] \<and> (\<forall>p \<in> set ps. component_ok p)"
proof (induction ps arbitrary: t)
  case Nil
  then show ?case using dleaves_nonempty [of "[]" e t] by simp
next
  case (Cons p ps)
  from Cons.prems(2) obtain k where k: "k \<in> set (logical t)" "(p # ps, e) \<in> set (kid_leaves k)"
    by (auto simp: dleaves_logical)
  note K = logical_kid [OF Cons.prems(1) k(1)]
  show ?case using k(2) K Cons.IH [of "snd k"] dleaves_nonempty [of ps e "snd k"]
    by (auto simp: kid_leaves_iff split: if_splits)
qed

lemma leaf_replace_path:
  assumes "wf_dir t" and "(ps, e) \<in> set (dleaves t)"
  shows "replace_path e (join_on (CHR ''/'') ps) = Inr (e\<lparr>e_path := join_on (CHR ''/'') ps\<rparr>)"
    and "split_path (join_on (CHR ''/'') ps) = ps"
  using dleaves_ok [OF assms] by (auto intro: replace_path_ok entry_path_join)

definition at_path :: "string list \<times> entry \<Rightarrow> entry" where
  "at_path = (\<lambda>(ps, e). e\<lparr>e_path := join_on (CHR ''/'') ps\<rparr>)"

lemma lookup_entry_spec:
  assumes "rep L h t" "wf_dir t"
    and "2 * length (split_path (strip_char (CHR ''/'') path)) < n"
  shows "lookup_entry L n h path =
    (let normalized = strip_char (CHR ''/'') path in
     Inr (map_option (\<lambda>e. e\<lparr>e_path := normalized\<rparr>) (dlookup t (split_path normalized))))"
proof -
  define nrm where "nrm = strip_char (CHR ''/'') path"
  have "dlookup t (split_path []) = None"
  proof (rule ccontr)
    assume "dlookup t (split_path []) \<noteq> None"
    then obtain e where "([[]], e) \<in> set (dleaves t)"
      using dlookup_dleaves [OF assms(2)] by (auto simp: split_path_def simp del: dlookup.simps)
    from dleaves_ok [OF assms(2) this] show False by (simp add: component_ok_iff)
  qed
  moreover have "found nrm (dlookup t (split_path nrm)) =
      Inr (map_option (\<lambda>e. e\<lparr>e_path := nrm\<rparr>) (dlookup t (split_path nrm)))"
  proof (cases "dlookup t (split_path nrm)")
    case (Some e)
    with dlookup_dleaves [OF assms(2)] have "(split_path nrm, e) \<in> set (dleaves t)" by simp
    from leaf_replace_path(1) [OF assms(2) this] Some show ?thesis
      by (simp add: found_def split_path_def)
  qed simp
  ultimately show ?thesis
    using lookup_loop_spec [OF assms(1,2), of "split_path nrm" n nrm] assms(3)
    by (auto simp: lookup_entry_def Let_def nrm_def [symmetric])
qed

lemma mapE_leaves:
  assumes "wf_dir t" and "set xs \<subseteq> set (dleaves t)"
  shows "mapE (\<lambda>(path, e). replace_path e path) (map (\<lambda>(ps, x). (join_on (CHR ''/'') ps, x)) xs) =
    Inr (map at_path xs)"
  using assms(2)
  by (induction xs) (auto simp: at_path_def leaf_replace_path(1) [OF assms(1)])

lemma iter_all_entries_spec:
  assumes "rep L h t" "wf_dir t" "steps t \<le> n"
  shows "iter_all_entries L n h = Inr (map at_path (dleaves t))"
  using mapE_leaves [OF assms(2) subset_refl]
  by (simp add: iter_all_entries_def iter_loop_spec [OF assms(1,3)] dpaths_dleaves)

lemma iter_prefix_spec:
  assumes "rep L h t" "wf_dir t" "steps t \<le> n"
  shows "iter_entries_for_prefix L n h pre =
    Inr (filter (\<lambda>e. prefix_wanted (strip_char (CHR ''/'') pre) (e_path e)) (map at_path (dleaves t)))"
proof -
  let ?n = "strip_char (CHR ''/'') pre"
  let ?Q = "\<lambda>(ps, x :: entry). prefix_wanted ?n (join_on (CHR ''/'') ps)"
  have "wanted ?n (dpaths [] t) = map (\<lambda>(ps, x). (join_on (CHR ''/'') ps, x)) (filter ?Q (dleaves t))"
    by (simp add: wanted_def dpaths_dleaves filter_map comp_def case_prod_unfold)
  moreover have "map at_path (filter ?Q xs) = filter (\<lambda>e. prefix_wanted ?n (e_path e)) (map at_path xs)" for xs
    by (induction xs) (auto simp: at_path_def)
  ultimately show ?thesis
    using mapE_leaves [OF assms(2), of "filter ?Q (dleaves t)"]
    by (simp add: iter_entries_for_prefix_def prefix_loop_spec [OF assms(1,3)])
qed

text \<open>The walk lists files in the order of their component lists, each path once.\<close>

lemma sorted_concat_kids:
  assumes "sorted_wrt (<) (map f ks)"
    and "\<And>k. k \<in> set ks \<Longrightarrow> sorted_wrt (<) (map fst (g k))"
    and "\<And>k qs x. k \<in> set ks \<Longrightarrow> (qs, x) \<in> set (g k) \<Longrightarrow> \<exists>ps. qs = f k # ps"
  shows "sorted_wrt (<) (map fst (concat (map g ks)) :: 'b::linorder list list)"
  using assms
proof (induction ks)
  case (Cons k ks)
  have "q < q'" if q: "q \<in> fst ` set (g k)" and q': "q' \<in> fst ` set (concat (map g ks))" for q q'
  proof -
    from q Cons.prems(3) obtain ps where "q = f k # ps" by force
    moreover from q' Cons.prems(3) obtain k' ps' where "k' \<in> set ks" "q' = f k' # ps'" by force
    ultimately show ?thesis using Cons.prems(1) by simp
  qed
  with Cons show ?case by (auto simp: sorted_wrt_append)
qed simp

lemma kid_size: "k \<in> set (dkids t) \<Longrightarrow> size (snd k) < size t"
proof (cases t)
  case (DNode kids)
  have "size (snd k) \<le> size_list (size_prod (\<lambda>x. 0) size) kids" if "k \<in> set kids" for kids
    using that by (induction kids) auto
  then show "k \<in> set (dkids t) \<Longrightarrow> size (snd k) < size t" by (simp add: DNode less_Suc_eq_le)
qed

lemma logical_size:
  assumes "k \<in> set (logical t)"
  shows "size (snd k) < size t"
proof -
  have "k \<in> set (logical_kids kids) \<Longrightarrow> k \<in> set kids \<or> (\<exists>s \<in> set kids. k \<in> set (dkids (snd s)))" for kids
    by (induction kids) (auto split: if_splits)
  from this [of "dkids t"] assms show ?thesis
    unfolding logical_def using kid_size less_trans by metis
qed

lemma dleaves_sorted: "wf_dir t \<Longrightarrow> sorted_wrt (<) (map fst (dleaves t))"
proof (induction "size t" arbitrary: t rule: less_induct)
  case less
  show ?case unfolding dleaves_logical
  proof (rule sorted_concat_kids [where f = "\<lambda>k. e_path (fst k)"])
    show "sorted_wrt (<) (kid_names (logical t))" using logical_sorted [OF less.prems] .
    fix k assume k: "k \<in> set (logical t)"
    note K = logical_kid [OF less.prems k]
    have "size (snd k) < size t" using logical_size [OF k] .
    with less.hyps K show "sorted_wrt (<) (map fst (kid_leaves k))"
      by (cases k) (auto simp: kid_leaves_def comp_def case_prod_unfold sorted_wrt_map)
    fix qs x assume "(qs, x) \<in> set (kid_leaves k)"
    with K show "\<exists>ps. qs = e_path (fst k) # ps" by (auto simp: kid_leaves_iff)
  qed
qed

text \<open>A lookup finds exactly what the full walk lists under that path.\<close>

lemma lookup_iff_walk:
  assumes "rep L h t" "wf_dir t" "steps t \<le> m" and "iter_all_entries L m h = Inr es"
    and "2 * length (split_path (strip_char (CHR ''/'') path)) < n"
  shows "lookup_entry L n h path = Inr (find (\<lambda>e. e_path e = strip_char (CHR ''/'') path) es)"
proof -
  define nrm where "nrm = strip_char (CHR ''/'') path"
  have es: "es = map at_path (dleaves t)"
    using assms(4) iter_all_entries_spec [OF assms(1-3)] by simp
  have key: "e_path (at_path x) = nrm \<longleftrightarrow> fst x = split_path nrm" if "x \<in> set (dleaves t)" for x
    using leaf_replace_path(2) [OF assms(2), of "fst x" "snd x"] that
    by (cases x) (auto simp: at_path_def split_path_def)
  have "find (\<lambda>e. e_path e = nrm) es = map_option at_path (find (\<lambda>x. fst x = split_path nrm) (dleaves t))"
  proof -
    have "\<forall>x \<in> set xs. e_path (at_path x) = nrm \<longleftrightarrow> fst x = split_path nrm \<Longrightarrow>
      find (\<lambda>e. e_path e = nrm) (map at_path xs) = map_option at_path (find (\<lambda>x. fst x = split_path nrm) xs)" for xs
      by (induction xs) auto
    with key show ?thesis by (simp add: es)
  qed
  moreover have "map_option (\<lambda>e. e\<lparr>e_path := nrm\<rparr>) (dlookup t (split_path nrm)) =
      map_option at_path (find (\<lambda>x. fst x = split_path nrm) (dleaves t))"
  proof (cases "dlookup t (split_path nrm)")
    case None
    then have "(split_path nrm, e) \<notin> set (dleaves t)" for e
      using dlookup_dleaves [OF assms(2), of "split_path nrm" e] by simp
    then have "find (\<lambda>x. fst x = split_path nrm) (dleaves t) = None" by (auto simp: find_None_iff)
    with None show ?thesis by simp
  next
    case (Some e)
    then have mem: "(split_path nrm, e) \<in> set (dleaves t)"
      using dlookup_dleaves [OF assms(2)] by simp
    have "sorted_wrt (<) (map fst xs) \<Longrightarrow> (q, e) \<in> set xs \<Longrightarrow> find (\<lambda>x. fst x = q) xs = Some (q, e)"
      for xs :: "(string list \<times> entry) list" and q
      by (induction xs) auto
    from this [OF dleaves_sorted [OF assms(2)] mem] Some show ?thesis
      by (simp add: at_path_def split_path_def)
  qed
  ultimately show ?thesis
    using lookup_entry_spec [OF assms(1,2,5)] by (simp add: nrm_def Let_def)
qed

section \<open>The cache\<close>

text \<open>
  Nodes are immutable, so a cached list is right as long as the store still holds the node
  it was parsed from; \<open>cache_ok\<close> also has the LRU's shape.
\<close>

definition cache_ok :: "prims \<Rightarrow> (string \<Rightarrow> string option) \<Rightarrow> tree_cache \<Rightarrow> bool" where
  "cache_ok P rd c \<longleftrightarrow>
     (\<forall>(h, es) \<in> set (c_entries c). load P rd h = Inr (Some es)) \<and>
     distinct (map fst (c_entries c)) \<and> length (c_entries c) \<le> c_maxsize c"

lemma move_to_end_set: "set (move_to_end k v kvs) = {kv \<in> set kvs. fst kv \<noteq> k} \<union> {(k, v)}"
  by (auto simp: move_to_end_def)

lemma move_to_end_distinct: "distinct (map fst kvs) \<Longrightarrow> distinct (map fst (move_to_end k v kvs))"
  by (induction kvs) (auto simp: move_to_end_def)

lemma move_to_end_length:
  "map_of kvs k = Some w \<Longrightarrow> length (move_to_end k v kvs) \<le> length kvs"
proof -
  assume "map_of kvs k = Some w"
  then have "(k, w) \<in> set kvs" by (rule map_of_SomeD)
  then have "length (filter (\<lambda>kv. fst kv \<noteq> k) kvs) < length kvs"
    by (rule length_filter_less) simp
  then show ?thesis by (simp add: move_to_end_def)
qed

lemma cache_put_entries:
  assumes "0 < c_maxsize c"
  shows "\<exists>kvs. c_entries (cache_put c h es) = kvs @ [(h, es)] \<and> suffix kvs (filter (\<lambda>kv. fst kv \<noteq> h) (c_entries c))"
proof -
  let ?f = "filter (\<lambda>kv. fst kv \<noteq> h) (c_entries c)"
  have "c_entries (cache_put c h es) = drop (Suc (length ?f) - c_maxsize c) (?f @ [(h, es)])"
    by (simp add: cache_put_def cache_evict_def move_to_end_def)
  also have "\<dots> = drop (Suc (length ?f) - c_maxsize c) ?f @ [(h, es)]"
    using assms by simp
  finally show ?thesis by (blast intro: suffix_drop)
qed

lemma cache_get_put:
  assumes "0 < c_maxsize c"
  shows "fst (cache_get (cache_put c h es) h) = Some es"
proof -
  obtain kvs where kvs: "c_entries (cache_put c h es) = kvs @ [(h, es)]"
    "suffix kvs (filter (\<lambda>kv. fst kv \<noteq> h) (c_entries c))"
    using cache_put_entries [OF assms] by blast
  then have "\<forall>kv \<in> set kvs. fst kv \<noteq> h" using set_mono_suffix by fastforce
  then have "map_of kvs h = None" by (auto simp: map_of_eq_None_iff)
  then show ?thesis by (simp add: cache_get_def kvs(1) map_add_def)
qed

lemma cache_put_ok:
  assumes "cache_ok P rd c" and "load P rd h = Inr (Some es)"
  shows "cache_ok P rd (cache_put c h es)"
proof -
  have sub: "set (c_entries (cache_put c h es)) \<subseteq> insert (h, es) (set (c_entries c))"
    using set_drop_subset by (fastforce simp: cache_put_def cache_evict_def move_to_end_set)
  have "distinct (map fst (c_entries (cache_put c h es)))"
    using assms(1) move_to_end_distinct [of "c_entries c" h es]
    by (simp add: cache_put_def cache_evict_def cache_ok_def drop_map [symmetric] distinct_drop)
  moreover have "length (c_entries (cache_put c h es)) \<le> c_maxsize (cache_put c h es)"
    by (simp add: cache_put_def cache_evict_def)
  ultimately show ?thesis using assms sub by (auto simp: cache_ok_def)
qed

lemma cached_load_ok:
  assumes "cache_ok P rd c"
  shows "fst (cached_load P rd c h) = load P rd h" and "cache_ok P rd (snd (cached_load P rd c h))"
proof -
  have "fst (cached_load P rd c h) = load P rd h \<and> cache_ok P rd (snd (cached_load P rd c h))"
  proof (cases "map_of (c_entries c) h")
    case (Some es)
    with assms have "load P rd h = Inr (Some es)" by (auto simp: cache_ok_def dest: map_of_SomeD)
    with Some assms show ?thesis
      using move_to_end_length [OF Some, of es] move_to_end_distinct
      by (auto simp: cached_load_def cache_get_def cache_ok_def move_to_end_set)
  next
    case None
    show ?thesis
    proof (cases "load P rd h")
      case (Inl err)
      with None assms show ?thesis
        by (auto simp: cached_load_def cache_get_def load_def bindE_Inr_iff bindE_def
            split: option.splits sum.splits)
    next
      case (Inr r)
      with None assms cache_put_ok [OF assms, of h] show ?thesis
        by (auto simp: cached_load_def cache_get_def load_def bindE_Inr_iff
            split: option.splits sum.splits)
    qed
  qed
  then show "fst (cached_load P rd c h) = load P rd h" "cache_ok P rd (snd (cached_load P rd c h))"
    by simp_all
qed

text \<open>Adding objects to the store keeps every cached node right.\<close>

lemma load_extend: "rd \<subseteq>\<^sub>m rd' \<Longrightarrow> load P rd h = Inr (Some es) \<Longrightarrow> load P rd' h = Inr (Some es)"
  by (auto simp: load_def map_le_def dom_def split: option.splits)

lemma cache_ok_extend: "rd \<subseteq>\<^sub>m rd' \<Longrightarrow> cache_ok P rd c \<Longrightarrow> cache_ok P rd' c"
  using load_extend unfolding cache_ok_def by blast

lemma rep_extend:
  "rd \<subseteq>\<^sub>m rd' \<Longrightarrow> rep (load P rd) h t \<Longrightarrow> rep (load P rd') h t"
proof (induction t arbitrary: h)
  case (DNode kids)
  then show ?case using load_extend by fastforce
qed

text \<open>Any sequence of loads through one cache gives what the uncached loads give.\<close>

fun cached_loads ::
  "prims \<Rightarrow> (string \<Rightarrow> string option) \<Rightarrow> tree_cache \<Rightarrow> string list \<Rightarrow> entry list option res list \<times> tree_cache" where
  "cached_loads P rd c [] = ([], c)"
| "cached_loads P rd c (h # hs) =
     (let (r, c') = cached_load P rd c h; (rs, c'') = cached_loads P rd c' hs in (r # rs, c''))"

lemma cached_loads_spec:
  "cache_ok P rd c \<Longrightarrow> fst (cached_loads P rd c hs) = map (load P rd) hs \<and>
     cache_ok P rd (snd (cached_loads P rd c hs))"
proof (induction hs arbitrary: c)
  case (Cons h hs)
  from Cons.IH [OF cached_load_ok(2) [OF Cons.prems, of h]] cached_load_ok(1) [OF Cons.prems, of h]
  show ?case by (auto simp: case_prod_unfold Let_def)
qed simp

lemma bisect_left_loop_le: "lo \<le> hi \<Longrightarrow> bisect_left_loop a x lo hi \<le> hi"
proof (induction a x lo hi rule: bisect_left_loop.induct)
  case (1 a x lo hi)
  show ?case
  proof (cases "lo < hi")
    case True
    with 1 show ?thesis by (subst bisect_left_loop.simps) (fastforce simp: Let_def)
  qed (use 1 in \<open>simp add: bisect_left_loop.simps\<close>)
qed

lemma bisect_left_le: "bisect_left a x \<le> length a"
  by (simp add: bisect_left_def bisect_left_loop_le)

section \<open>Whatever a store holds, a walker only returns valid entries\<close>

locale node_loader =
  fixes L :: loader
  assumes loaded_ok: "L h = Inr (Some es) \<Longrightarrow> node_ok es"
begin

lemma load_or_raise_ok: "load_or_raise L h = Inr es \<Longrightarrow> node_ok es"
  by (auto simp: load_or_raise_def bindE_Inr_iff dest: loaded_ok split: option.splits)

lemma expand_each_ok:
  "expand_each L es = Inr r \<Longrightarrow> \<forall>e \<in> set es. child_ok e \<Longrightarrow> \<forall>e \<in> set r. child_ok e"
  by (induction es arbitrary: r)
    (auto simp: bindE_Inr_iff node_ok_def split: if_splits dest!: load_or_raise_ok)

lemma load_children_ok: "load_children L h = Inr es \<Longrightarrow> e \<in> set es \<Longrightarrow> child_ok e"
  by (auto simp: load_children_def expand_shards_def bindE_Inr_iff node_ok_def
      split: if_splits dest!: load_or_raise_ok dest: expand_each_ok)

lemma descend_mem:
  assumes "descend es part = Some e"
  shows "e \<in> set es"
proof -
  obtain i where "i \<le> length es" and "bisect_left (names es) part = i"
    using bisect_left_le [of "names es" part] by simp
  moreover from this have "(i < length es \<and> e = es ! i) \<or> (i \<ge> 1 \<and> e = es ! (i - 1))"
    using assms by (auto simp: descend_def Let_def split: if_splits)
  ultimately show ?thesis by (auto intro!: nth_mem)
qed

lemma lookup_loop_ok:
  "lookup_loop L n normalized h parts = Inr (Some e) \<Longrightarrow>
     post_init e = Inr () \<and> e_path e = normalized \<and> \<not> is_subtree e"
proof (induction L n normalized h parts rule: lookup_loop.induct)
  case (3 L n normalized h part parts)
  from 3(2) obtain es target where es: "load_or_raise L h = Inr es" "descend es part = Some target"
    by (auto simp: bindE_Inr_iff split: option.splits)
  show ?case
  proof (cases "is_subtree target")
    case True
    with 3 es show ?thesis by (cases "e_kind target = KIND_TREE") auto
  next
    case False
    with 3(2) es show ?thesis
      by (auto simp: bindE_Inr_iff replace_path_def Let_def is_subtree_def split: if_splits)
  qed
qed auto

lemma lookup_entry_ok:
  "lookup_entry L n h path = Inr (Some e) \<Longrightarrow>
     post_init e = Inr () \<and> e_path e = strip_char (CHR ''/'') path \<and> \<not> is_subtree e"
  by (auto simp: lookup_entry_def Let_def dest: lookup_loop_ok split: if_splits)

end

interpretation stored_nodes: node_loader "load P rd" for P rd
  by unfold_locales
    (auto simp: load_def bindE_Inr_iff dest: parse_tree_object_node_ok split: option.splits)

end
