(* ===== verification/Tree_Write.thy ===== *)
theory Tree_Write
  imports Tree_Walk
begin

text \<open>
  \<open>core/services/tree.py\<close>: writing tree objects bottom-up. \<open>write_tree_bytes\<close> publishes one
  guarded node, \<open>build_children\<close> a directory with its shards, \<open>build_from_entries\<close> a whole
  tree from a path-sorted entry stream by a stack of open directory frames.

  The store is content-addressed and write-once. \<open>ts_hashed\<close> is a ghost: the payloads
  digested so far, so that "no two of them collide" can be said of a run. The lemmas:
  every write keeps the store content-addressed and loses nothing, and the tree built from
  a directory's children is a well-formed directory with exactly those children.
\<close>

section \<open>The store of tree objects\<close>

record tree_store =
  ts_nodes :: "string \<Rightarrow> string option"
  ts_hashed :: "string list"

text \<open>\<open>ObjectIO.write_tree_bytes(tree_hash, payload, if_missing=True)\<close>.\<close>

definition put_tree :: "string \<Rightarrow> string \<Rightarrow> ('z tree_store_scheme, unit) sm" where
  "put_tree tree_hash payload s =
     (if ts_nodes s tree_hash \<noteq> None then (Inr (), s)
      else (Inr (), s\<lparr>ts_nodes := (ts_nodes s)(tree_hash \<mapsto> payload)\<rparr>))"

definition note_hashed :: "string \<Rightarrow> ('z tree_store_scheme, unit) sm" where
  "note_hashed payload s = (Inr (), s\<lparr>ts_hashed := payload # ts_hashed s\<rparr>)"

definition write_tree_bytes ::
  "prims \<Rightarrow> string list \<Rightarrow> string \<Rightarrow> ('z tree_store_scheme, string) sm" where
  "write_tree_bytes P skip_hashes payload =
     bindS (liftS (validate_tree_node P payload)) (\<lambda>_.
     bindS (note_hashed payload) (\<lambda>_.
       let tree_hash = blake3 P payload in
       if tree_hash \<in> set skip_hashes then returnS tree_hash
       else bindS (put_tree tree_hash payload) (\<lambda>_. returnS tree_hash)))"

section \<open>Directories and shards\<close>

text \<open>\<open>_Child\<close>: the name and the serialized line.\<close>

type_synonym child = "string \<times> string"

definition leaf_line ::
  "prims \<Rightarrow> kind \<Rightarrow> string \<Rightarrow> string \<Rightarrow> int \<Rightarrow> int \<Rightarrow> string option \<Rightarrow> string option \<Rightarrow> string" where
  "leaf_line P k name hash_value sz mtime_ns source_uri footer =
     encode_leaf_parts P k name hash_value sz mtime_ns source_uri footer None"

definition subtree_line :: "prims \<Rightarrow> kind \<Rightarrow> string \<Rightarrow> string \<Rightarrow> string" where
  "subtree_line P k name hash_value =
     json_encode P (JArr [JStr (kind_str k), JStr name, JStr hash_value])"

definition entry_to_leaf_line :: "prims \<Rightarrow> entry \<Rightarrow> string res" where
  "entry_to_leaf_line P e = bindE (leaf_to_tree_entry e) (\<lambda>e'. Inr (serialize P e'))"

definition write_plain_node ::
  "prims \<Rightarrow> string list \<Rightarrow> child list \<Rightarrow> ('z tree_store_scheme, string) sm" where
  "write_plain_node P skip_hashes children =
     write_tree_bytes P skip_hashes (node_payload (map snd children))"

function chunks :: "nat \<Rightarrow> 'a list \<Rightarrow> 'a list list" where
  "chunks n xs = (if n = 0 \<or> xs = [] then [] else take n xs # chunks n (drop n xs))"
  by pat_completeness auto
termination
  by (relation "measure (\<lambda>(n, xs). length xs)") auto

declare chunks.simps [simp del]

definition write_shard ::
  "prims \<Rightarrow> string list \<Rightarrow> child list \<Rightarrow> ('z tree_store_scheme, child) sm" where
  "write_shard P skip_hashes chunk =
     bindS (write_plain_node P skip_hashes chunk) (\<lambda>shard_hash.
       let shard_name = fst (chunk ! 0) in
       returnS (shard_name, subtree_line P KIND_SHARD shard_name shard_hash))"

text \<open>
  \<open>_build_children\<close>. With a node limit of one every level has as many shards as the one
  below and Python's recursion limit ends the descent; the fuel is the number of levels
  after which that is the only possibility.
\<close>

fun build_levels ::
  "prims \<Rightarrow> string list \<Rightarrow> nat \<Rightarrow> child list \<Rightarrow> ('z tree_store_scheme, string) sm" where
  "build_levels P skip_hashes 0 children = raiseS OutOfFuel"
| "build_levels P skip_hashes (Suc n) children =
     (if length children \<le> shard_max P then write_plain_node P skip_hashes children
      else if shard_max P = 0 then raiseS ValueError
      else bindS (mapS (write_shard P skip_hashes) (chunks (shard_max P) children))
             (\<lambda>shard_children. build_levels P skip_hashes n shard_children))"

definition build_children ::
  "prims \<Rightarrow> bool \<Rightarrow> string list \<Rightarrow> child list \<Rightarrow> ('z tree_store_scheme, string) sm" where
  "build_children P already_sorted skip_hashes children =
     build_levels P skip_hashes (Suc (length children))
       (if \<not> already_sorted \<and> length children > 1 then sort_key fst children else children)"

section \<open>Frames\<close>

text \<open>\<open>_Frame\<close>: an open directory.\<close>

record frame =
  f_dir :: string
  f_children :: "child list"
  f_parent :: "(string \<times> entry) list option"
  f_node_hash :: "string option"
  f_known :: "string list"

text \<open>The dictionary of the parent's children is an association list in insertion order.\<close>

definition merge_parent_children ::
  "prims \<Rightarrow> child list \<Rightarrow> (string \<times> entry) list option \<Rightarrow> child list" where
  "merge_parent_children P children parent_by_name =
     (case parent_by_name of
        None \<Rightarrow> children
      | Some [] \<Rightarrow> children
      | Some kvs \<Rightarrow>
          let child_names = map fst children;
              extra = map (\<lambda>(name, e).
                        if is_subtree e then (name, subtree_line P (e_kind e) name (e_hash e))
                        else (name, serialize P e))
                      (filter (\<lambda>(name, e). name \<notin> set child_names) kvs)
          in sort_key fst (children @ extra))"

text \<open>
  \<open>_close_frame\<close>: build the popped frame's directory; the result is what it appends to the
  frame below, or to the root's children (nothing when the directory is empty).
\<close>

definition close_frame :: "prims \<Rightarrow> frame \<Rightarrow> ('z tree_store_scheme, child list) sm" where
  "close_frame P f =
     (let merged = merge_parent_children P (f_children f) (f_parent f) in
      if merged = [] then returnS []
      else bindS (build_children P False (f_known f) merged) (\<lambda>subtree_hash.
             let name = last (split_path (f_dir f)) in
             returnS [(name, subtree_line P KIND_TREE name subtree_hash)]))"

text \<open>\<open>dir_path == top or dir_path.startswith(f"{top}/")\<close>.\<close>

definition under_dir :: "string \<Rightarrow> string \<Rightarrow> bool" where
  "under_dir open_dir dir_path \<longleftrightarrow> dir_path = open_dir \<or> prefix (open_dir @ ''/'') dir_path"

text \<open>
  The loop that closes frames, top first, until one satisfies \<open>stop\<close>. \<open>pending\<close> are the
  children the frame just closed appends to the next one, at the end to the root's.
\<close>

fun close_frames ::
  "prims \<Rightarrow> (string \<Rightarrow> bool) \<Rightarrow> child list \<Rightarrow> frame list \<Rightarrow> child list
     \<Rightarrow> ('z tree_store_scheme, frame list \<times> child list) sm" where
  "close_frames P stop pending [] root_children = returnS ([], root_children @ pending)"
| "close_frames P stop pending (f # stack) root_children =
     (let f' = f\<lparr>f_children := f_children f @ pending\<rparr> in
      if stop (f_dir f') then returnS (f' # stack, root_children)
      else bindS (close_frame P f') (\<lambda>pending'.
             close_frames P stop pending' stack root_children))"

definition new_frame :: "string \<Rightarrow> frame" where
  "new_frame dir_path =
     \<lparr>f_dir = dir_path, f_children = [], f_parent = None, f_node_hash = None, f_known = []\<rparr>"

text \<open>\<open>for index in range(len(stack), len(parts)): stack.append(...)\<close>, the top first.\<close>

definition open_dirs :: "nat \<Rightarrow> string list \<Rightarrow> string list" where
  "open_dirs depth parts =
     rev (map (\<lambda>index. join_path (take (index + 1) parts)) [depth ..< length parts])"

section \<open>Rebuilding a tree from a leaf stream\<close>

text \<open>One round of the loop: the state is the previous path, the stack and the root's children.\<close>

definition build_step ::
  "prims \<Rightarrow> string option \<times> frame list \<times> child list \<Rightarrow> entry
     \<Rightarrow> ('z tree_store_scheme, string option \<times> frame list \<times> child list) sm" where
  "build_step P st e =
     (case st of (previous_path, stack, root_children) \<Rightarrow>
       let path = e_path e in
       if (case previous_path of None \<Rightarrow> False | Some q \<Rightarrow> path \<le> q) then raiseS ValueError
       else
         let parts = split_path path; dir_path = join_path (butlast parts); name = last parts in
         if dir_path = [] then
           bindS (liftS (entry_to_leaf_line P e)) (\<lambda>line.
             returnS (Some path, stack, root_children @ [(name, line)]))
         else
           bindS (close_frames P (\<lambda>open_dir. under_dir open_dir dir_path) [] stack root_children)
             (\<lambda>(stack1, root1).
               let parts_list = filter (\<lambda>p. p \<noteq> []) (split_path dir_path);
                   stack2 = map new_frame (open_dirs (length stack1) parts_list) @ stack1
               in bindS (liftS (entry_to_leaf_line P e)) (\<lambda>line.
                    case stack2 of
                      [] \<Rightarrow> raiseS IndexError
                    | f # rest \<Rightarrow>
                        returnS (Some path, f\<lparr>f_children := f_children f @ [(name, line)]\<rparr> # rest,
                                 root1))))"

definition build_from_entries :: "prims \<Rightarrow> entry list \<Rightarrow> ('z tree_store_scheme, string) sm" where
  "build_from_entries P entries =
     bindS (foldS (build_step P) (None, [], []) entries) (\<lambda>(previous_path, stack, root_children).
     bindS (close_frames P (\<lambda>open_dir. False) [] stack root_children) (\<lambda>(stack', root').
       if root' \<noteq> [] then build_children P False [] root'
       else write_tree_bytes P [] []))"

section \<open>Content addressing\<close>

text \<open>BLAKE3's output format, and the hypothesis that the payloads of a run do not collide.\<close>

definition digest_ok :: "prims \<Rightarrow> bool" where
  "digest_ok P \<longleftrightarrow> (\<forall>p. is_hex_digest (blake3 P p))"

definition no_clash :: "prims \<Rightarrow> 'z tree_store_scheme \<Rightarrow> bool" where
  "no_clash P s \<longleftrightarrow> inj_on (blake3 P) (set (ts_hashed s))"

text \<open>Every node is stored under the digest of its bytes, and was digested.\<close>

definition store_ok :: "prims \<Rightarrow> 'z tree_store_scheme \<Rightarrow> bool" where
  "store_ok P s \<longleftrightarrow> (\<forall>h p. ts_nodes s h = Some p \<longrightarrow> h = blake3 P p \<and> p \<in> set (ts_hashed s))"

definition grows :: "'z tree_store_scheme \<Rightarrow> 'z tree_store_scheme \<Rightarrow> bool" where
  "grows s s' \<longleftrightarrow> ts_nodes s \<subseteq>\<^sub>m ts_nodes s' \<and> set (ts_hashed s) \<subseteq> set (ts_hashed s') \<and>
     tree_store.more s' = tree_store.more s"

definition known :: "'z tree_store_scheme \<Rightarrow> string list \<Rightarrow> bool" where
  "known s hs \<longleftrightarrow> (\<forall>h \<in> set hs. ts_nodes s h \<noteq> None)"

lemma grows_refl [simp]: "grows s s"
  by (simp add: grows_def)

lemma grows_trans: "grows s s' \<Longrightarrow> grows s' s'' \<Longrightarrow> grows s s''"
  by (auto simp: grows_def intro: map_le_trans)

lemma no_clash_grows: "grows s s' \<Longrightarrow> no_clash P s' \<Longrightarrow> no_clash P s"
  by (auto simp: grows_def no_clash_def intro: inj_on_subset)

lemma known_grows: "grows s s' \<Longrightarrow> known s hs \<Longrightarrow> known s' hs"
  by (force simp: grows_def known_def map_le_def dom_def)

lemma load_grows: "grows s s' \<Longrightarrow> load P (ts_nodes s) h = Inr (Some es) \<Longrightarrow> load P (ts_nodes s') h = Inr (Some es)"
  by (auto simp: grows_def intro: load_extend)

lemma rep_grows: "grows s s' \<Longrightarrow> rep (load P (ts_nodes s)) h t \<Longrightarrow> rep (load P (ts_nodes s')) h t"
  by (auto simp: grows_def intro: rep_extend)

lemma known_Nil [simp]: "known s []"
  by (simp add: known_def)

lemma write_tree_bytes_cases:
  "write_tree_bytes P skip payload s =
     (case validate_tree_node P payload of
        Inl err \<Rightarrow> (Inl err, s)
      | Inr u \<Rightarrow> (Inr (blake3 P payload),
          s\<lparr>ts_hashed := payload # ts_hashed s,
            ts_nodes := (if blake3 P payload \<in> set skip \<or> ts_nodes s (blake3 P payload) \<noteq> None
                         then ts_nodes s else (ts_nodes s)(blake3 P payload \<mapsto> payload))\<rparr>))"
  by (auto simp: write_tree_bytes_def note_hashed_def put_tree_def bindS_def Let_def split: sum.split)

lemma write_tree_bytes_ok:
  assumes "write_tree_bytes P skip payload s = (r, s')" and "store_ok P s"
  shows "store_ok P s'" and "grows s s'"
    and "r = Inr h \<Longrightarrow> h = blake3 P payload"
    and "r = Inr h \<Longrightarrow> known s skip \<Longrightarrow> no_clash P s' \<Longrightarrow> ts_nodes s' h = Some payload"
proof -
  show "store_ok P s'" "grows s s'" "r = Inr h \<Longrightarrow> h = blake3 P payload"
    using assms
    by (auto simp: write_tree_bytes_cases store_ok_def grows_def map_le_def split: sum.splits if_splits)
  assume r: "r = Inr h" "known s skip" "no_clash P s'"
  then have v: "validate_tree_node P payload = Inr ()" and h: "h = blake3 P payload"
    using assms(1) by (auto simp: write_tree_bytes_cases split: sum.splits)
  have "ts_nodes s' h \<noteq> None" and in': "payload \<in> set (ts_hashed s')"
    using assms(1) v h r(2) by (auto simp: write_tree_bytes_cases known_def)
  then obtain p where p: "ts_nodes s' h = Some p" by auto
  with \<open>store_ok P s'\<close> have "blake3 P p = blake3 P payload" "p \<in> set (ts_hashed s')"
    using h by (auto simp: store_ok_def)
  with r(3) in' have "p = payload" by (auto simp: no_clash_def dest: inj_onD)
  with p show "ts_nodes s' h = Some payload" by simp
qed

lemma write_tree_bytes_Inr:
  "validate_tree_node P payload = Inr () \<Longrightarrow> fst (write_tree_bytes P skip payload s) = Inr (blake3 P payload)"
  by (simp add: write_tree_bytes_cases)

section \<open>Writing a directory\<close>

definition child_line :: "prims \<Rightarrow> entry \<Rightarrow> child" where
  "child_line P e = (e_path e, serialize P e)"

definition body_payload :: "prims \<Rightarrow> entry list \<Rightarrow> string" where
  "body_payload P es = node_payload (map (serialize P) es)"

definition shard_entry :: "prims \<Rightarrow> entry list \<Rightarrow> entry" where
  "shard_entry P es =
     \<lparr>e_path = e_path (hd es), e_kind = KIND_SHARD, e_hash = blake3 P (body_payload P es),
      e_size = 0, e_mtime = 0, e_uri = None, e_footer = None, e_etag = None\<rparr>"

definition writable :: "entry list \<Rightarrow> bool" where
  "writable es \<longleftrightarrow> node_ok es \<and> (\<forall>e \<in> set es. plain_entry e)"

lemma subtree_line_serialize:
  "is_subtree e \<Longrightarrow> subtree_line P (e_kind e) (e_path e) (e_hash e) = serialize P e"
  by (simp add: subtree_line_def serialize_def)

lemma write_plain_node_ok:
  assumes "codec_ok P" "writable es" "es \<noteq> []" "store_ok P s" "known s skip"
  shows "\<exists>s'. write_plain_node P skip (map (child_line P) es) s = (Inr (blake3 P (body_payload P es)), s') \<and>
    store_ok P s' \<and> grows s s' \<and>
    (no_clash P s' \<longrightarrow> load P (ts_nodes s') (blake3 P (body_payload P es)) = Inr (Some es))"
proof -
  have plain: "write_plain_node P skip (map (child_line P) es) s = write_tree_bytes P skip (body_payload P es) s"
    by (simp add: write_plain_node_def body_payload_def child_line_def comp_def)
  obtain r s' where w: "write_tree_bytes P skip (body_payload P es) s = (r, s')" by fastforce
  have "validate_tree_node P (body_payload P es) = Inr ()"
    using assms by (auto simp: body_payload_def writable_def intro: validate_node_payload)
  from write_tree_bytes_Inr [OF this, of skip s] w have r: "r = Inr (blake3 P (body_payload P es))" by simp
  have "parse_tree_object P (body_payload P es) = Inr es"
    using assms by (auto simp: body_payload_def writable_def intro: parse_node_payload)
  with write_tree_bytes_ok [OF w assms(4)] r assms(5)
  show ?thesis
    unfolding plain by (auto simp: w load_def)
qed

lemma writable_append: "writable (xs @ ys) \<Longrightarrow> writable xs \<and> writable ys"
  by (auto simp: writable_def node_ok_def sorted_wrt_append)

lemma writable_concat: "writable (concat cs) \<Longrightarrow> c \<in> set cs \<Longrightarrow> writable c"
  by (induction cs) (auto dest: writable_append)

lemma write_shards_ok:
  assumes "codec_ok P"
  shows "store_ok P s \<Longrightarrow> known s skip \<Longrightarrow> \<forall>c \<in> set cs. writable c \<and> c \<noteq> [] \<Longrightarrow>
    \<exists>s'. mapS (write_shard P skip) (map (map (child_line P)) cs) s =
          (Inr (map (\<lambda>c. child_line P (shard_entry P c)) cs), s') \<and> store_ok P s' \<and> grows s s' \<and>
      (no_clash P s' \<longrightarrow>
        (\<forall>c \<in> set cs. load P (ts_nodes s') (blake3 P (body_payload P c)) = Inr (Some c)))"
proof (induction cs arbitrary: s)
  case (Cons c cs)
  from Cons.prems write_plain_node_ok [OF assms, of c s skip] obtain s1 where
    s1: "write_plain_node P skip (map (child_line P) c) s = (Inr (blake3 P (body_payload P c)), s1)"
      "store_ok P s1" "grows s s1"
      "no_clash P s1 \<Longrightarrow> load P (ts_nodes s1) (blake3 P (body_payload P c)) = Inr (Some c)" by auto
  have head: "fst (map (child_line P) c ! 0) = e_path (hd c)"
    using Cons.prems(3) by (simp add: child_line_def hd_conv_nth)
  have line: "subtree_line P KIND_SHARD (e_path (hd c)) (blake3 P (body_payload P c)) = serialize P (shard_entry P c)"
    using subtree_line_serialize [of "shard_entry P c" P] by (simp add: shard_entry_def)
  from Cons.IH [OF s1(2) known_grows [OF s1(3)]] Cons.prems obtain s2 where
    s2: "mapS (write_shard P skip) (map (map (child_line P)) cs) s1 =
          (Inr (map (\<lambda>c. child_line P (shard_entry P c)) cs), s2)" "store_ok P s2" "grows s1 s2"
      "no_clash P s2 \<Longrightarrow> \<forall>c \<in> set cs. load P (ts_nodes s2) (blake3 P (body_payload P c)) = Inr (Some c)"
    by auto
  have "mapS (write_shard P skip) (map (map (child_line P)) (c # cs)) s =
      (Inr (map (\<lambda>c. child_line P (shard_entry P c)) (c # cs)), s2)"
    using s1(1) s2(1) head line
    by (simp add: write_shard_def bindS_def Let_def) (simp add: child_line_def shard_entry_def)
  moreover have "no_clash P s2 \<Longrightarrow> load P (ts_nodes s2) (blake3 P (body_payload P c)) = Inr (Some c)"
    using s1(4) s2(3) by (blast intro: load_grows no_clash_grows)
  ultimately show ?case using s2 s1(3) by (auto intro: grows_trans)
qed simp

lemma chunks_props:
  assumes "0 < n"
  shows "concat (chunks n xs) = xs" and "c \<in> set (chunks n xs) \<Longrightarrow> c \<noteq> [] \<and> length c \<le> n"
    and "map (map f) (chunks n xs) = chunks n (map f xs)"
    and "length xs \<le> n * m \<Longrightarrow> length (chunks n xs) \<le> m"
proof -
  show "concat (chunks n xs) = xs" using assms
    by (induction n xs rule: chunks.induct) (subst chunks.simps, simp)
  show "c \<in> set (chunks n xs) \<Longrightarrow> c \<noteq> [] \<and> length c \<le> n" using assms
  proof (induction n xs rule: chunks.induct)
    case (1 n xs)
    then show ?case by (subst (asm) (2) chunks.simps) (auto split: if_splits)
  qed
  show "map (map f) (chunks n xs) = chunks n (map f xs)" using assms
  proof (induction n xs rule: chunks.induct)
    case (1 n xs)
    then show ?case
      by (subst chunks.simps, subst (2) chunks.simps) (simp add: take_map drop_map)
  qed
  show "length xs \<le> n * m \<Longrightarrow> length (chunks n xs) \<le> m" using assms
  proof (induction m arbitrary: xs)
    case 0
    then show ?case by (simp add: chunks.simps)
  next
    case (Suc m)
    then show ?case by (subst chunks.simps) auto
  qed
qed

lemma sort_key_map: "sort_key g (map f xs) = map f (sort_key (g \<circ> f) xs)"
proof -
  have "insort_key g (f x) (map f ys) = map f (insort_key (g \<circ> f) x ys)" for x ys
    by (induction ys) auto
  then show ?thesis by (induction xs) (simp_all)
qed

lemma plain_text_free: "CHR 0xC2 \<notin> set s \<Longrightarrow> CHR 0xE2 \<notin> set s \<Longrightarrow> plain_text s"
  by (auto simp: plain_text_def sublist_def)

lemma plain_text_hex: "list_all hex_digit s \<Longrightarrow> plain_text s"
  by (rule plain_text_free) (auto simp: list_all_iff hex_digit_def)

lemma plain_text_kind: "plain_text (kind_str k)"
  by (rule plain_text_free) (cases k; simp add: kind_str_def)+

lemma shard_entry_ok:
  assumes "digest_ok P" and "writable c" "c \<noteq> []"
  shows "child_ok (shard_entry P c)" "plain_entry (shard_entry P c)" "is_subtree (shard_entry P c)"
proof -
  have h: "is_hex_digest (blake3 P (body_payload P c))" using assms(1) by (simp add: digest_ok_def)
  from assms(3) have mem: "hd c \<in> set c" by simp
  with assms(2) have c: "component_ok (e_path (hd c))" "plain_entry (hd c)"
    by (auto simp: writable_def node_ok_def)
  then have "plain_text (e_path (hd c))"
    by (auto simp: plain_entry_def entry_payload_def leaf_payload_def split: if_splits)
  with h show "plain_entry (shard_entry P c)"
    using plain_text_hex [of "blake3 P (body_payload P c)"]
    by (simp add: plain_entry_def shard_entry_def entry_payload_def is_hex_digest_def
        is_subtree_def plain_text_kind)
  show "child_ok (shard_entry P c)"
    using h component_entry_path [OF c(1)] c(1)
    by (simp add: child_ok_def entry_ok_def post_init_def post_init_fields_def shard_entry_def truthy_def
        del: child_ok_sub)
  show "is_subtree (shard_entry P c)" by (simp add: shard_entry_def is_subtree_def)
qed

lemma chunk_heads_sorted:
  assumes "sorted_wrt (<) (map f (concat cs))" and "\<forall>c \<in> set cs. c \<noteq> []"
  shows "sorted_wrt (<) (map (\<lambda>c. f (hd c)) cs)"
  using assms
proof (induction cs)
  case (Cons c cs)
  have "f (hd c) < f (hd c')" if "c' \<in> set cs" for c'
  proof -
    have "hd c \<in> set c" "hd c' \<in> set c'" using Cons.prems(2) that by auto
    with that have "hd c \<in> set c" "hd c' \<in> set (concat cs)" by auto
    with Cons.prems(1) show ?thesis by (auto simp: sorted_wrt_append)
  qed
  with Cons show ?case by (auto simp: sorted_wrt_append)
qed simp

lemma chunks_before:
  assumes "sorted_wrt (<) (map f (concat cs))" and "\<forall>c \<in> set cs. c \<noteq> []"
  shows "sorted_wrt (\<lambda>c c'. \<forall>x \<in> set c. f x < f (hd c')) cs"
  using assms
proof (induction cs)
  case (Cons c cs)
  have "f x < f (hd c')" if "x \<in> set c" "c' \<in> set cs" for x c'
  proof -
    have "hd c' \<in> set c'" using Cons.prems(2) that by simp
    with that have "hd c' \<in> set (concat cs)" by auto
    with Cons.prems(1) that show ?thesis by (auto simp: sorted_wrt_append)
  qed
  with Cons show ?case by (auto simp: sorted_wrt_append)
qed simp

lemma sorted_hd_le:
  fixes f :: "'a \<Rightarrow> 'b::linorder"
  shows "sorted_wrt (<) (map f c) \<Longrightarrow> x \<in> set c \<Longrightarrow> f (hd c) \<le> f x"
  by (cases c) (auto intro: less_imp_le)

definition subtrees_in :: "prims \<Rightarrow> 'z tree_store_scheme \<Rightarrow> (entry \<times> dtree) list \<Rightarrow> bool" where
  "subtrees_in P s kids \<longleftrightarrow>
     (\<forall>(e, t) \<in> set kids. is_subtree e \<longrightarrow> rep (load P (ts_nodes s)) (e_hash e) t \<and> wf_dir t)"

lemma subtrees_in_grows: "grows s s' \<Longrightarrow> subtrees_in P s kids \<Longrightarrow> subtrees_in P s' kids"
  by (auto simp: subtrees_in_def dest: rep_grows)

text \<open>A directory of sorted children is written as one well-formed directory over them.\<close>

lemma build_levels_ok:
  assumes P: "codec_ok P" "digest_ok P"
    and kids: "kids \<noteq> []" "writable (map fst kids)" "plain_kids kids" "subtrees_in P s kids"
    and "length kids \<le> shard_max P * shard_max P" "store_ok P s" "known s skip" "1 < n"
  shows "\<exists>h s'. build_levels P skip n (map (child_line P) (map fst kids)) s = (Inr h, s') \<and>
    store_ok P s' \<and> grows s s' \<and>
    (no_clash P s' \<longrightarrow> (\<exists>t. rep (load P (ts_nodes s')) h t \<and> wf_dir t \<and> logical t = kids))"
proof -
  obtain m where n: "n = Suc (Suc m)" using \<open>1 < n\<close> by (cases n; cases "n - 1") auto
  show ?thesis
  proof (cases "length kids \<le> shard_max P")
    case True
    from write_plain_node_ok [OF P(1) kids(2), of s skip] kids(1) assms(8,9) obtain s' where
      w: "write_plain_node P skip (map (child_line P) (map fst kids)) s =
            (Inr (blake3 P (body_payload P (map fst kids))), s')"
        "store_ok P s'" "grows s s'"
        "no_clash P s' \<Longrightarrow> load P (ts_nodes s') (blake3 P (body_payload P (map fst kids))) =
           Inr (Some (map fst kids))" by auto
    have "rep (load P (ts_nodes s')) (blake3 P (body_payload P (map fst kids))) (DNode kids) \<and>
        wf_dir (DNode kids) \<and> logical (DNode kids) = kids" if "no_clash P s'"
      using w(4) [OF that] subtrees_in_grows [OF w(3) kids(4)] kids(2,3)
      by (auto simp: subtrees_in_def writable_def logical_plain)
    then have "no_clash P s' \<Longrightarrow> \<exists>t. rep (load P (ts_nodes s')) (blake3 P (body_payload P (map fst kids))) t \<and>
        wf_dir t \<and> logical t = kids" by blast
    with w(1-3) True n show ?thesis by auto
  next
    case False
    let ?M = "shard_max P"
    have M: "0 < ?M" using False assms(7) by (cases "?M") auto
    define kcs where "kcs = chunks ?M kids"
    note ck = chunks_props [OF M, where xs = kids, folded kcs_def]
    let ?cs = "map (map fst) kcs"
    have cs: "concat ?cs = map fst kids" using ck(1) by (simp add: map_concat [symmetric])
    have cw: "writable c \<and> c \<noteq> []" if "c \<in> set ?cs" for c
      using writable_concat [of ?cs c] kids(2) that ck(2) by (auto simp: cs)
    from write_shards_ok [OF P(1) assms(8,9), of ?cs] cw obtain s1 where
      s1: "mapS (write_shard P skip) (map (map (child_line P)) ?cs) s =
            (Inr (map (\<lambda>c. child_line P (shard_entry P c)) ?cs), s1)"
        "store_ok P s1" "grows s s1"
        "no_clash P s1 \<Longrightarrow> \<forall>c \<in> set ?cs. load P (ts_nodes s1) (blake3 P (body_payload P c)) = Inr (Some c)"
      by blast
    define ses where "ses = map (shard_entry P) ?cs"
    have len: "length ses \<le> ?M" using ck(4) [of ?M] assms(7) by (simp add: ses_def)
    have "kcs \<noteq> []" using ck(1) kids(1) by auto
    have sorted: "sorted_wrt (<) (map e_path (concat ?cs))"
      using kids(2) by (simp add: cs writable_def node_ok_def)
    have wses: "writable ses"
    proof -
      have "sorted_wrt (<) (names ses)"
        using chunk_heads_sorted [OF sorted] cw by (simp add: ses_def shard_entry_def comp_def)
      moreover have "child_ok e \<and> plain_entry e" if "e \<in> set ses" for e
      proof -
        from that obtain c where "e = shard_entry P c" "c \<in> set ?cs" by (auto simp: ses_def)
        with shard_entry_ok [OF P(2), of c] cw [of c] show ?thesis by simp
      qed
      ultimately show ?thesis by (auto simp: writable_def node_ok_def)
    qed
    from write_plain_node_ok [OF P(1) wses _ s1(2) known_grows [OF s1(3) assms(9)]] \<open>kcs \<noteq> []\<close>
    obtain s2 where
      s2: "write_plain_node P skip (map (child_line P) ses) s1 = (Inr (blake3 P (body_payload P ses)), s2)"
        "store_ok P s2" "grows s1 s2"
        "no_clash P s2 \<Longrightarrow> load P (ts_nodes s2) (blake3 P (body_payload P ses)) = Inr (Some ses)"
      by (auto simp: ses_def)
    have run: "build_levels P skip n (map (child_line P) (map fst kids)) s = (Inr (blake3 P (body_payload P ses)), s2)"
      using False M n s1(1) s2(1) len by (simp add: ck(3) [symmetric] bindS_def ses_def comp_def)
    define t where "t = DNode (map (\<lambda>c. (shard_entry P (map fst c), DNode c)) kcs)"
    have grow: "grows s s2" using s1(3) s2(3) by (rule grows_trans)
    have "rep (load P (ts_nodes s2)) (blake3 P (body_payload P ses)) t" if nc: "no_clash P s2"
    proof -
      have shards: "load P (ts_nodes s2) (blake3 P (body_payload P (map fst c))) = Inr (Some (map fst c))"
        if "c \<in> set kcs" for c
        using s1(4) [OF no_clash_grows [OF s2(3) nc]] that by (auto intro: load_grows [OF s2(3)])
      have "rep (load P (ts_nodes s2)) (e_hash e) t'" if "c \<in> set kcs" "(e, t') \<in> set c" "is_subtree e" for c e t'
      proof -
        have "(e, t') \<in> set (concat kcs)" using that by auto
        with subtrees_in_grows [OF grow kids(4)] that(3) show ?thesis
          by (auto simp: subtrees_in_def ck(1))
      qed
      with shards s2(4) [OF nc] show ?thesis
        by (auto simp: t_def ses_def shard_entry_def comp_def)
    qed
    moreover have "wf_dir t"
    proof -
      have body: "wf_dir (DNode c)" if "c \<in> set kcs" for c
      proof -
        have sub: "set c \<subseteq> set kids" using ck(1) that by auto
        with kids(3,4) cw [of "map fst c"] that show ?thesis
          by (auto simp: plain_kids_def subtrees_in_def writable_def)
      qed
      have "shard_kids (map (\<lambda>c. (shard_entry P (map fst c), DNode c)) kcs)"
        unfolding shard_kids_def
      proof (intro conjI)
        show "map (\<lambda>c. (shard_entry P (map fst c), DNode c)) kcs \<noteq> []" using \<open>kcs \<noteq> []\<close> by simp
        have "shard_body (shard_entry P (map fst c)) (DNode c)" if c: "c \<in> set kcs" for c
        proof -
          have sub: "set c \<subseteq> set kids" and ne: "c \<noteq> []" using ck(1,2) c by auto
          have "sorted_wrt (<) (map (e_path \<circ> fst) c)"
            using cw [of "map fst c"] c by (simp add: writable_def node_ok_def)
          from sorted_hd_le [OF this] sub ne kids(3) show ?thesis
            by (auto simp: shard_body_def plain_kids_def shard_entry_def hd_map)
        qed
        then show "\<forall>k \<in> set (map (\<lambda>c. (shard_entry P (map fst c), DNode c)) kcs).
            e_kind (fst k) = KIND_SHARD \<and> shard_body (fst k) (snd k)"
          by (auto simp: shard_entry_def)
        have "sorted_wrt (<) (map (e_path \<circ> fst) (concat kcs))"
          using kids(2) by (simp add: ck(1) writable_def node_ok_def)
        from chunks_before [OF this] ck(2)
        have "sorted_wrt (\<lambda>c c'. \<forall>x \<in> set c. (e_path \<circ> fst) x < (e_path \<circ> fst) (hd c')) kcs" by blast
        then have "sorted_wrt (\<lambda>c c'. before_shard (shard_entry P (map fst c), DNode c)
            (shard_entry P (map fst c'), DNode c')) kcs"
          by (rule sorted_wrt_mono_rel [rotated])
            (use ck(2) in \<open>auto simp: before_shard_def shard_entry_def hd_map\<close>)
        then show "sorted_wrt before_shard (map (\<lambda>c. (shard_entry P (map fst c), DNode c)) kcs)"
          by (simp add: sorted_wrt_map)
      qed
      with body wses show ?thesis by (auto simp: t_def writable_def ses_def comp_def)
    qed
    moreover have "logical t = kids"
      using ck(1) by (simp add: t_def logical_def logical_kids_def shard_entry_def comp_def)
    ultimately show ?thesis using run s2(2) grow by blast
  qed
qed

text \<open>The children of a directory in any order: distinct valid names, no shard pointer.\<close>

definition dir_children :: "(entry \<times> dtree) list \<Rightarrow> bool" where
  "dir_children kids \<longleftrightarrow> kids \<noteq> [] \<and> distinct (kid_names kids) \<and> plain_kids kids \<and>
     (\<forall>k \<in> set kids. child_ok (fst k) \<and> plain_entry (fst k))"

lemma build_children_ok:
  assumes P: "codec_ok P" "digest_ok P"
    and kids: "dir_children kids" "subtrees_in P s kids" "length kids \<le> shard_max P * shard_max P"
    and st: "store_ok P s" "known s skip"
  shows "\<exists>h s'. build_children P False skip (map (child_line P) (map fst kids)) s = (Inr h, s') \<and>
    store_ok P s' \<and> grows s s' \<and>
    (no_clash P s' \<longrightarrow> (\<exists>t. rep (load P (ts_nodes s')) h t \<and> wf_dir t \<and>
       logical t = sort_key (\<lambda>k. e_path (fst k)) kids))"
proof -
  define ks where "ks = sort_key (\<lambda>k. e_path (fst k)) kids"
  have set_ks: "set ks = set kids" and len: "length ks = length kids" by (simp_all add: ks_def)
  have "distinct (kid_names ks)"
    using kids(1) by (simp add: ks_def dir_children_def distinct_map)
  moreover have "sorted (kid_names ks)" by (simp add: ks_def)
  ultimately have "sorted_wrt (<) (names (map fst ks))" by (simp add: strict_sorted_iff comp_def)
  with kids(1) have w: "writable (map fst ks)"
    by (auto simp: writable_def node_ok_def dir_children_def set_ks)
  have "ks \<noteq> []" "plain_kids ks" "subtrees_in P s ks" "length ks \<le> shard_max P * shard_max P"
    using kids len set_ks by (auto simp: dir_children_def plain_kids_def subtrees_in_def)
  from build_levels_ok [OF P this(1) w this(2-4) st, of "Suc (length kids)"] kids(1)
  obtain h s' where r: "build_levels P skip (Suc (length kids)) (map (child_line P) (map fst ks)) s = (Inr h, s')"
    "store_ok P s'" "grows s s'"
    "no_clash P s' \<Longrightarrow> \<exists>t. rep (load P (ts_nodes s')) h t \<and> wf_dir t \<and> logical t = ks"
    by (auto simp: dir_children_def)
  have "sort_key fst (map (child_line P) (map fst kids)) = map (child_line P) (map fst ks)"
    by (simp add: sort_key_map ks_def child_line_def comp_def)
  moreover have "map (child_line P) (map fst ks) = map (child_line P) (map fst kids)"
    if "\<not> 1 < length kids"
    using that by (cases kids) (auto simp: ks_def)
  ultimately have "build_children P False skip (map (child_line P) (map fst kids)) s = (Inr h, s')"
    using r(1) by (cases "1 < length kids") (simp_all add: build_children_def del: build_levels.simps map_map)
  with r(2-4) show ?thesis by (auto simp: ks_def)
qed
section \<open>What every writer keeps\<close>

text \<open>
  However an operation ends, the store stays content-addressed and loses nothing. The
  collection closes the property under the combinators the writers are built from.
\<close>

named_theorems keeps_intros

definition keeps :: "prims \<Rightarrow> ('z tree_store_scheme, 'a) sm \<Rightarrow> bool" where
  "keeps P m \<longleftrightarrow> (\<forall>s r s'. m s = (r, s') \<longrightarrow> store_ok P s \<longrightarrow> store_ok P s' \<and> grows s s')"

lemma keepsD: "keeps P m \<Longrightarrow> m s = (r, s') \<Longrightarrow> store_ok P s \<Longrightarrow> store_ok P s' \<and> grows s s'"
  by (auto simp: keeps_def)

lemma keeps_return [keeps_intros]: "keeps P (returnS x)"
  by (simp add: keeps_def)

lemma keeps_raise [keeps_intros]: "keeps P (raiseS e)"
  by (simp add: keeps_def)

lemma keeps_lift [keeps_intros]: "keeps P (liftS r)"
  by (simp add: keeps_def)

lemma keeps_bind [keeps_intros]:
  assumes "keeps P m" and "\<And>x. keeps P (f x)"
  shows "keeps P (bindS m f)"
  unfolding keeps_def
proof (intro allI impI)
  fix s r s' assume run: "bindS m f s = (r, s')" and ok: "store_ok P s"
  obtain q s1 where m: "m s = (q, s1)" by fastforce
  with keepsD [OF assms(1) m ok] have 1: "store_ok P s1" "grows s s1" by simp_all
  show "store_ok P s' \<and> grows s s'"
  proof (cases q)
    case (Inl e)
    with run m 1 show ?thesis by simp
  next
    case (Inr x)
    with run m have "f x s1 = (r, s')" by simp
    with keepsD [OF assms(2) this 1(1)] 1(2) show ?thesis by (auto intro: grows_trans)
  qed
qed

lemma keeps_mapS [keeps_intros]: "(\<And>x. x \<in> set xs \<Longrightarrow> keeps P (f x)) \<Longrightarrow> keeps P (mapS f xs)"
  by (induction xs) (auto intro!: keeps_intros)

lemma keeps_foldS [keeps_intros]: "(\<And>t x. keeps P (f t x)) \<Longrightarrow> keeps P (foldS f t xs)"
  by (induction xs arbitrary: t) (auto intro!: keeps_intros)

lemma keeps_if [keeps_intros]: "(b \<Longrightarrow> keeps P m) \<Longrightarrow> (\<not> b \<Longrightarrow> keeps P m') \<Longrightarrow> keeps P (if b then m else m')"
  by simp

lemma keeps_option [keeps_intros]:
  "keeps P m \<Longrightarrow> (\<And>x. keeps P (f x)) \<Longrightarrow> keeps P (case v of None \<Rightarrow> m | Some x \<Rightarrow> f x)"
  by (cases v) simp_all

lemma keeps_prod [keeps_intros]: "(\<And>x y. keeps P (f x y)) \<Longrightarrow> keeps P (case v of (x, y) \<Rightarrow> f x y)"
  by (cases v) simp

lemma keeps_list [keeps_intros]:
  "keeps P m \<Longrightarrow> (\<And>x xs. keeps P (f x xs)) \<Longrightarrow> keeps P (case v of [] \<Rightarrow> m | x # xs \<Rightarrow> f x xs)"
  by (cases v) simp_all

lemma keeps_let [keeps_intros]: "(\<And>x. keeps P (f x)) \<Longrightarrow> keeps P (Let v f)"
  by (simp add: Let_def)

lemma keeps_write_tree_bytes [keeps_intros]: "keeps P (write_tree_bytes P skip payload)"
  using write_tree_bytes_ok by (auto simp: keeps_def)

lemma keeps_write_shard [keeps_intros]: "keeps P (write_shard P skip c)"
  unfolding write_shard_def write_plain_node_def by (intro keeps_intros)

lemma keeps_build_levels [keeps_intros]: "keeps P (build_levels P skip n cs)"
proof (induction n arbitrary: cs)
  case (Suc n)
  show ?case unfolding build_levels.simps write_plain_node_def by (intro keeps_intros Suc.IH)
qed (simp add: keeps_raise)

lemma keeps_build_children [keeps_intros]: "keeps P (build_children P b skip cs)"
  unfolding build_children_def by (rule keeps_build_levels)

lemma keeps_close_frames [keeps_intros]: "keeps P (close_frames P stop pending stack children)"
proof (induction stack arbitrary: pending)
  case (Cons f stack)
  show ?case unfolding close_frames.simps close_frame_def by (intro keeps_intros Cons.IH)
qed (simp add: keeps_return)

lemma keeps_build_from_entries [keeps_intros]: "keeps P (build_from_entries P es)"
  unfolding build_from_entries_def build_step_def by (intro keeps_intros)

end
