(* ===== verification/Commit_Graph.thy ===== *)
theory Commit_Graph
  imports Prelude "HOL-Library.Product_Lexorder"
begin

text \<open>
  Commit objects (\<open>core/domain/models.py\<close>) and the walks over the commit DAG of
  \<open>core/repository_support.py\<close>: \<open>is_ancestor_commit\<close> with its generation pruning,
  \<open>_GenerationProvider\<close> with its memo, and the generation-ordered \<open>merge_base_commit\<close>.
  A walk takes the commit reader as an argument, as in the code; the reader answers
  \<open>None\<close> for a commit it does not know or raises.

  The lemmas compare the walks with the parent relation of the history: the generation
  of a commit is its depth, pruning never cuts a path to the ancestor, and the merge
  base is a common ancestor of maximal generation.
\<close>

section \<open>Commits\<close>

record commit =
  c_id :: string
  c_message :: string
  c_tree :: string
  c_parents :: "string list"
  c_created_at :: string
  c_generation :: "int option"

definition first_parent :: "commit \<Rightarrow> string option" where
  "first_parent c = (case c_parents c of [] \<Rightarrow> None | p # _ \<Rightarrow> Some p)"

type_synonym reader = "string \<Rightarrow> commit option res"

section \<open>Generations\<close>

type_synonym memo = "string \<Rightarrow> int option"

text \<open>
  \<open>_GenerationProvider.of\<close>; the memo is threaded through the recursive calls. The fuel
  bounds the depth of the recursion.
\<close>

fun gen_list :: "(memo \<Rightarrow> string \<Rightarrow> (int \<times> memo) res) \<Rightarrow> memo \<Rightarrow> string list \<Rightarrow> (int list \<times> memo) res" where
  "gen_list f memo [] = Inr ([], memo)"
| "gen_list f memo (p # ps) =
     bindE (f memo p) (\<lambda>(g, memo1). bindE (gen_list f memo1 ps) (\<lambda>(gs, memo2). Inr (g # gs, memo2)))"

fun gen_of :: "reader \<Rightarrow> nat \<Rightarrow> memo \<Rightarrow> string \<Rightarrow> (int \<times> memo) res" where
  "gen_of rd 0 memo commit_id = Inl OutOfFuel"
| "gen_of rd (Suc n) memo commit_id =
     (case memo commit_id of
        Some cached \<Rightarrow> Inr (cached, memo)
      | None \<Rightarrow>
          bindE (rd commit_id) (\<lambda>r.
            case r of
              None \<Rightarrow> Inr (0, memo(commit_id \<mapsto> 0))
            | Some c \<Rightarrow>
                (case c_generation c of
                   Some g \<Rightarrow> Inr (g, memo(commit_id \<mapsto> g))
                 | None \<Rightarrow>
                     bindE (gen_list (gen_of rd n) memo (c_parents c)) (\<lambda>(gs, memo1).
                       let g = (if gs \<noteq> [] then 1 + Max (set gs) else 0)
                       in Inr (g, memo1(commit_id \<mapsto> g))))))"

section \<open>Ancestors\<close>

text \<open>The \<open>while stack\<close> loop; the memo is the provider's, \<open>m\<close> the depth bound for it.\<close>

fun push_parents :: "string list \<Rightarrow> string list \<Rightarrow> string list \<Rightarrow> string list \<times> string list" where
  "push_parents seen stack [] = (seen, stack)"
| "push_parents seen stack (p # ps) =
     (if p \<notin> set seen then push_parents (p # seen) (p # stack) ps
      else push_parents seen stack ps)"

function (sequential) ancestor_loop ::
  "reader \<Rightarrow> nat \<Rightarrow> string \<Rightarrow> int \<Rightarrow> nat \<Rightarrow> memo \<Rightarrow> string list \<Rightarrow> string list \<Rightarrow> bool res" where
  "ancestor_loop rd m anc target_generation n memo seen [] = Inr False"
| "ancestor_loop rd m anc target_generation 0 memo seen (commit_id # stack) = Inl OutOfFuel"
| "ancestor_loop rd m anc target_generation (Suc n) memo seen (commit_id # stack) =
     (if commit_id = anc then Inr True
      else bindE (rd commit_id) (\<lambda>r.
        case r of
          None \<Rightarrow> ancestor_loop rd m anc target_generation n memo seen stack
        | Some c \<Rightarrow>
            bindE (gen_of rd m memo commit_id) (\<lambda>(generation, memo1).
              if 0 < generation \<and> generation \<le> target_generation then
                ancestor_loop rd m anc target_generation n memo1 seen stack
              else
                (case push_parents seen stack (c_parents c) of
                   (seen1, stack1) \<Rightarrow>
                     ancestor_loop rd m anc target_generation n memo1 seen1 stack1))))"
  by pat_completeness auto
termination
  by (relation "measure (\<lambda>(rd, m, anc, tg, n, memo, seen, stack). n)") auto

definition is_ancestor_commit :: "reader \<Rightarrow> nat \<Rightarrow> nat \<Rightarrow> string \<Rightarrow> string \<Rightarrow> bool res" where
  "is_ancestor_commit rd m n anc descendant =
     (if anc = descendant then Inr True
      else bindE (rd anc) (\<lambda>r.
        bindE (case r of None \<Rightarrow> Inr (- 1, Map.empty) | Some c \<Rightarrow> gen_of rd m Map.empty anc)
          (\<lambda>(target_generation, memo).
             ancestor_loop rd m anc target_generation n memo [descendant] [descendant])))"

section \<open>Merge base\<close>

text \<open>
  \<open>marked\<close> maps a commit to the sides that reach it, as the pair of the flag's two bits.
  The heap is the list of its elements; \<open>heappop\<close> takes the smallest.
\<close>

type_synonym sides = "bool \<times> bool"

definition join_sides :: "sides \<Rightarrow> sides \<Rightarrow> sides" where
  "join_sides a b = (fst a \<or> fst b, snd a \<or> snd b)"

definition visit ::
  "reader \<Rightarrow> nat \<Rightarrow> string \<Rightarrow> sides
     \<Rightarrow> (string \<Rightarrow> sides) \<times> (int \<times> string) list \<times> memo
     \<Rightarrow> ((string \<Rightarrow> sides) \<times> (int \<times> string) list \<times> memo) res" where
  "visit rd m commit_id flag st =
     (case st of (marked, heap, memo) \<Rightarrow>
       let previous = marked commit_id; combined = join_sides previous flag in
       if combined = previous then Inr (marked, heap, memo)
       else bindE (gen_of rd m memo commit_id) (\<lambda>(g, memo1).
              Inr (marked(commit_id := combined), (- g, commit_id) # heap, memo1)))"

definition heappop :: "(int \<times> string) list \<Rightarrow> (int \<times> string) \<times> (int \<times> string) list" where
  "heappop heap = (let x = Min (set heap) in (x, remove1 x heap))"

text \<open>\<open>read_commit(id).parents\<close> raises \<open>AttributeError\<close> when the reader answers \<open>None\<close>.\<close>

definition parents_of :: "reader \<Rightarrow> string \<Rightarrow> string list res" where
  "parents_of rd commit_id =
     bindE (rd commit_id) (\<lambda>r. case r of None \<Rightarrow> Inl TypeError | Some c \<Rightarrow> Inr (c_parents c))"

fun merge_base_loop ::
  "reader \<Rightarrow> nat \<Rightarrow> nat \<Rightarrow> (string \<Rightarrow> sides) \<times> (int \<times> string) list \<times> memo \<Rightarrow> commit option res" where
  "merge_base_loop rd m 0 st = (if fst (snd st) = [] then Inr None else Inl OutOfFuel)"
| "merge_base_loop rd m (Suc n) st =
     (case st of (marked, heap, memo) \<Rightarrow>
       if heap = [] then Inr None
       else
         (case heappop heap of ((_, commit_id), heap1) \<Rightarrow>
            if marked commit_id = (True, True) then rd commit_id
            else bindE (parents_of rd commit_id) (\<lambda>ps.
                 bindE (foldE (\<lambda>st p. visit rd m p (marked commit_id) st) (marked, heap1, memo) ps)
                   (merge_base_loop rd m n))))"

definition merge_base_commit :: "reader \<Rightarrow> nat \<Rightarrow> nat \<Rightarrow> string \<Rightarrow> string \<Rightarrow> commit option res" where
  "merge_base_commit rd m n commit_a commit_b =
     (if commit_a = commit_b then rd commit_a
      else bindE (visit rd m commit_a (True, False) (\<lambda>_. (False, False), [], Map.empty)) (\<lambda>st1.
           bindE (visit rd m commit_b (False, True) st1) (merge_base_loop rd m n)))"

section \<open>Histories\<close>

text \<open>
  The reader agrees with the history \<open>h\<close> on the set \<open>R\<close> of commits, which is closed under
  parents; \<open>G\<close> is the depth of a commit, and a stored generation is that depth. A commit
  missing from the history (a partial clone) has depth 0.
\<close>

definition depth_of_parents :: "(string \<Rightarrow> nat) \<Rightarrow> string list \<Rightarrow> nat" where
  "depth_of_parents G ps = (if ps = [] then 0 else 1 + Max (G ` set ps))"

definition history_ok ::
  "reader \<Rightarrow> (string \<Rightarrow> commit option) \<Rightarrow> (string \<Rightarrow> nat) \<Rightarrow> string set \<Rightarrow> bool" where
  "history_ok rd h G R \<longleftrightarrow>
     (\<forall>i \<in> R. rd i = Inr (h i) \<and>
        (case h i of
           None \<Rightarrow> G i = 0
         | Some c \<Rightarrow> set (c_parents c) \<subseteq> R \<and> G i = depth_of_parents G (c_parents c) \<and>
                     (c_generation c = None \<or> c_generation c = Some (int (G i)))))"

definition parent_rel :: "(string \<Rightarrow> commit option) \<Rightarrow> (string \<times> string) set" where
  "parent_rel h = {(i, p). \<exists>c. h i = Some c \<and> p \<in> set (c_parents c)}"

lemma history_known:
  assumes "history_ok rd h G R" "i \<in> R" "h i = Some c"
  shows "rd i = Inr (Some c)" "set (c_parents c) \<subseteq> R" "G i = depth_of_parents G (c_parents c)"
    "c_generation c = None \<or> c_generation c = Some (int (G i))"
  using assms by (auto simp: history_ok_def split: option.splits)

lemma history_unknown:
  "history_ok rd h G R \<Longrightarrow> i \<in> R \<Longrightarrow> h i = None \<Longrightarrow> rd i = Inr None \<and> G i = 0"
  by (auto simp: history_ok_def split: option.splits)

lemma parent_depth: "p \<in> set ps \<Longrightarrow> G p < depth_of_parents G ps"
  by (auto simp: depth_of_parents_def less_Suc_eq_le)

lemma ancestors_closed:
  assumes "history_ok rd h G R" "i \<in> R" "(i, a) \<in> (parent_rel h)\<^sup>*"
  shows "a \<in> R \<and> (i = a \<or> G a < G i)"
  using assms(3)
proof (induction rule: rtrancl_induct)
  case base
  with assms(2) show ?case by simp
next
  case (step y z)
  then obtain c where c: "h y = Some c" "z \<in> set (c_parents c)" by (auto simp: parent_rel_def)
  with history_known [OF assms(1), of y c] step.IH parent_depth [of z "c_parents c" G]
  show ?case by auto
qed

section \<open>The generation of a commit is its depth\<close>

definition memo_ok :: "(string \<Rightarrow> nat) \<Rightarrow> memo \<Rightarrow> bool" where
  "memo_ok G memo \<longleftrightarrow> (\<forall>i g. memo i = Some g \<longrightarrow> g = int (G i))"

lemma memo_ok_upd [simp]: "memo_ok G memo \<Longrightarrow> memo_ok G (memo(i \<mapsto> int (G i)))"
  by (auto simp: memo_ok_def)

lemma memo_ok_empty [simp]: "memo_ok G Map.empty"
  by (simp add: memo_ok_def)

lemma gen_list_spec:
  assumes "\<And>p memo. p \<in> set ps \<Longrightarrow> memo_ok G memo \<Longrightarrow>
      \<exists>memo'. f memo p = Inr (int (G p), memo') \<and> memo_ok G memo'"
    and "memo_ok G memo"
  shows "\<exists>memo'. gen_list f memo ps = Inr (map (\<lambda>p. int (G p)) ps, memo') \<and> memo_ok G memo'"
  using assms
proof (induction ps arbitrary: memo)
  case (Cons p ps)
  from Cons.prems(1) [of p memo] Cons.prems(2) obtain memo1 where
    1: "f memo p = Inr (int (G p), memo1)" "memo_ok G memo1" by auto
  from Cons.IH [OF Cons.prems(1) 1(2)] obtain memo2 where
    "gen_list f memo1 ps = Inr (map (\<lambda>p. int (G p)) ps, memo2)" "memo_ok G memo2" by auto
  with 1 show ?case by simp
qed simp

lemma gen_of_spec:
  assumes "history_ok rd h G R"
  shows "i \<in> R \<Longrightarrow> memo_ok G memo \<Longrightarrow> G i < n \<Longrightarrow>
    \<exists>memo'. gen_of rd n memo i = Inr (int (G i), memo') \<and> memo_ok G memo'"
proof (induction n arbitrary: i memo)
  case (Suc n)
  show ?case
  proof (cases "memo i")
    case (Some g)
    with Suc.prems show ?thesis by (auto simp: memo_ok_def)
  next
    case None
    show ?thesis
    proof (cases "h i")
      case hN: None
      with history_unknown [OF assms Suc.prems(1)] None Suc.prems(2) memo_ok_upd [of G memo i]
      show ?thesis by auto
    next
      case hS: (Some c)
      note K = history_known [OF assms Suc.prems(1) hS]
      show ?thesis
      proof (cases "c_generation c")
        case gS: (Some g)
        with K None Suc.prems(2) memo_ok_upd [of G memo i] show ?thesis by auto
      next
        case gN: None
        have "\<exists>memo'. gen_of rd n memo p = Inr (int (G p), memo') \<and> memo_ok G memo'"
          if "p \<in> set (c_parents c)" "memo_ok G memo" for p memo
          using that K(2,3) Suc.prems(3) parent_depth [of p "c_parents c" G] by (intro Suc.IH) auto
        from gen_list_spec [of "c_parents c" G "gen_of rd n" memo] this Suc.prems(2) obtain memo1 where
          l: "gen_list (gen_of rd n) memo (c_parents c) = Inr (map (\<lambda>p. int (G p)) (c_parents c), memo1)"
            "memo_ok G memo1" by blast
        have "1 + Max ((\<lambda>p. int (G p)) ` set (c_parents c)) = int (G i)" if "c_parents c \<noteq> []"
        proof -
          have "Max ((\<lambda>p. int (G p)) ` set (c_parents c)) = int (Max (G ` set (c_parents c)))"
            using that mono_Max_commute [of int "G ` set (c_parents c)"]
            by (simp add: mono_def image_image)
          with K(3) that show ?thesis by (simp add: depth_of_parents_def)
        qed
        moreover have "G i = 0" if "c_parents c = []" using K(3) that by (simp add: depth_of_parents_def)
        ultimately have "(if map (\<lambda>p. int (G p)) (c_parents c) \<noteq> []
            then 1 + Max (set (map (\<lambda>p. int (G p)) (c_parents c))) else 0) = int (G i)" by simp
        with None K(1) gN l memo_ok_upd [OF l(2), of i] show ?thesis by (simp add: Let_def)
      qed
    qed
  qed
qed simp

section \<open>Ancestors\<close>

lemma push_parents_spec:
  "push_parents seen stack ps = (seen', stack') \<Longrightarrow> distinct stack \<Longrightarrow> set stack \<subseteq> set seen \<Longrightarrow>
     set seen' = set seen \<union> set ps \<and> set stack' = set stack \<union> (set ps - set seen) \<and> distinct stack'"
proof (induction seen stack ps rule: push_parents.induct)
  case (2 seen stack p ps)
  show ?case
  proof (cases "p \<in> set seen")
    case False
    with 2(4,5) have "distinct (p # stack)" "set (p # stack) \<subseteq> set (p # seen)" by auto
    with 2(1) [OF False] 2(3) False have "set seen' = set (p # seen) \<union> set ps \<and>
        set stack' = set (p # stack) \<union> (set ps - set (p # seen)) \<and> distinct stack'" by simp
    with False 2(5) show ?thesis by auto
  next
    case True
    with 2(2) 2(3-) show ?thesis by auto
  qed
qed auto

text \<open>
  The loop invariant: \<open>D\<close> are the commits taken off the stack. None is the ancestor, and the
  parents of each have been seen unless the generation rules the ancestor out.
\<close>

definition search_inv ::
  "(string \<Rightarrow> commit option) \<Rightarrow> (string \<Rightarrow> nat) \<Rightarrow> string \<Rightarrow> int \<Rightarrow> string \<Rightarrow> string set
     \<Rightarrow> string list \<Rightarrow> string list \<Rightarrow> bool" where
  "search_inv h G anc tg root D seen stack \<longleftrightarrow>
     set seen = D \<union> set stack \<and> D \<inter> set stack = {} \<and> distinct stack \<and> root \<in> set seen \<and>
     anc \<notin> D \<and> set seen \<subseteq> {i. (root, i) \<in> (parent_rel h)\<^sup>*} \<and>
     (\<forall>i \<in> D. int (G i) \<le> tg \<or> (\<forall>c. h i = Some c \<longrightarrow> set (c_parents c) \<subseteq> set seen))"

lemma search_inv_step:
  assumes inv: "search_inv h G anc tg root D seen (i # st)" and "i \<noteq> anc"
    and seen': "set seen' = set seen \<union> N" and st': "set st' = set st \<union> (N - set seen)" "distinct st'"
    and N: "N \<subseteq> {q. (root, q) \<in> (parent_rel h)\<^sup>*}"
    and new: "int (G i) \<le> tg \<or> (\<forall>c. h i = Some c \<longrightarrow> set (c_parents c) \<subseteq> set seen')"
  shows "search_inv h G anc tg root (insert i D) seen' st'"
  unfolding search_inv_def
proof (intro conjI)
  note I = inv [unfolded search_inv_def]
  show "set seen' = insert i D \<union> set st'"
    unfolding seen' st'(1) using I by (simp add: Un_Diff_cancel2) blast
  show "insert i D \<inter> set st' = {}" using I st'(1) by auto
  show "distinct st'" by (rule st'(2))
  show "root \<in> set seen'" "anc \<notin> insert i D" "set seen' \<subseteq> {q. (root, q) \<in> (parent_rel h)\<^sup>*}"
    using I seen' N \<open>i \<noteq> anc\<close> by auto
  have "set seen \<subseteq> set seen'" using seen' by simp
  then show "\<forall>j \<in> insert i D. int (G j) \<le> tg \<or> (\<forall>c. h j = Some c \<longrightarrow> set (c_parents c) \<subseteq> set seen')"
    using I new by (metis insert_iff subset_trans)
qed

lemma search_complete:
  assumes "history_ok rd h G R" "root \<in> R" and "search_inv h G anc tg root D seen []"
    and "h anc \<noteq> None \<Longrightarrow> tg = int (G anc)" "h anc = None \<Longrightarrow> tg = - 1"
  shows "(root, anc) \<notin> (parent_rel h)\<^sup>*"
proof
  assume path: "(root, anc) \<in> (parent_rel h)\<^sup>*"
  have "i \<in> D" if "(root, i) \<in> (parent_rel h)\<^sup>*" "(i, anc) \<in> (parent_rel h)\<^sup>*" for i
    using that
  proof (induction rule: rtrancl_induct)
    case base
    with assms(3) show ?case by (auto simp: search_inv_def)
  next
    case (step y z)
    then have y: "(y, anc) \<in> (parent_rel h)\<^sup>*" by (meson converse_rtrancl_into_rtrancl)
    with step.IH have "y \<in> D" by simp
    obtain c where c: "h y = Some c" "z \<in> set (c_parents c)"
      using step.hyps(2) by (auto simp: parent_rel_def)
    from assms(3) \<open>y \<in> D\<close> have "y \<noteq> anc" by (auto simp: search_inv_def)
    have "y \<in> R" using ancestors_closed [OF assms(1,2) step.hyps(1)] by simp
    with ancestors_closed [OF assms(1) _ y] \<open>y \<noteq> anc\<close> have "G anc < G y" by simp
    then have "\<not> int (G y) \<le> tg" using assms(4,5) by (cases "h anc = None") auto
    with assms(3) \<open>y \<in> D\<close> c have "z \<in> set seen" unfolding search_inv_def by blast
    with assms(3) show ?case by (simp add: search_inv_def)
  qed
  with path have "anc \<in> D" by simp
  with assms(3) show False by (simp add: search_inv_def)
qed

lemma ancestor_loop_spec:
  assumes H: "history_ok rd h G R" "root \<in> R" "\<forall>i \<in> R. G i < m"
    and tg: "h anc \<noteq> None \<Longrightarrow> tg = int (G anc)" "h anc = None \<Longrightarrow> tg = - 1"
    and fin: "finite R"
  shows "search_inv h G anc tg root D seen stack \<Longrightarrow> memo_ok G memo \<Longrightarrow> card (R - D) \<le> n \<Longrightarrow>
    ancestor_loop rd m anc tg n memo seen stack = Inr ((root, anc) \<in> (parent_rel h)\<^sup>*)"
proof (induction n arbitrary: D seen stack memo)
  case 0
  have "stack = []"
  proof (rule ccontr)
    assume "stack \<noteq> []"
    then obtain i where i: "i \<in> set stack" by (cases stack) auto
    with 0(1) have "i \<notin> D" "(root, i) \<in> (parent_rel h)\<^sup>*" by (auto simp: search_inv_def)
    with ancestors_closed [OF H(1,2)] have "i \<in> R - D" by auto
    with 0(3) fin show False by auto
  qed
  with search_complete [OF H(1,2) _ tg] 0(1) show ?case by auto
next
  case (Suc n)
  show ?case
  proof (cases stack)
    case Nil
    with search_complete [OF H(1,2) _ tg] Suc.prems(1) show ?thesis by auto
  next
    case (Cons i st)
    note inv = Suc.prems(1) [unfolded search_inv_def Cons]
    have iR: "i \<in> R" "i \<notin> D" and reach: "(root, i) \<in> (parent_rel h)\<^sup>*"
      using inv ancestors_closed [OF H(1,2), of i] by auto
    have card: "card (R - insert i D) \<le> n"
    proof -
      have "R - insert i D = (R - D) - {i}" by blast
      with iR fin Suc.prems(3) show ?thesis by (simp add: card_Diff_singleton)
    qed
    show ?thesis
    proof (cases "i = anc")
      case True
      with reach Cons show ?thesis by simp
    next
      case False
      show ?thesis
      proof (cases "h i")
        case None
        then have rd: "rd i = Inr None" using history_unknown [OF H(1) iR(1)] by simp
        have "search_inv h G anc tg root (insert i D) seen st"
          using inv None by (intro search_inv_step [OF Suc.prems(1) [unfolded Cons] False, where N = "{}"]) auto
        from Suc.IH [OF this Suc.prems(2) card] show ?thesis using Cons False rd by simp
      next
        case (Some c)
        note K = history_known [OF H(1) iR(1) Some]
        from gen_of_spec [OF H(1) iR(1) Suc.prems(2)] H(3) iR(1) obtain memo1 where
          g: "gen_of rd m memo i = Inr (int (G i), memo1)" "memo_ok G memo1" by auto
        show ?thesis
        proof (cases "0 < int (G i) \<and> int (G i) \<le> tg")
          case prune: True
          have "search_inv h G anc tg root (insert i D) seen st"
            using inv prune
            by (intro search_inv_step [OF Suc.prems(1) [unfolded Cons] False, where N = "{}"]) auto
          from Suc.IH [OF this g(2) card] show ?thesis using Cons False K(1) g(1) prune by simp
        next
          case keep: False
          obtain seen1 stack1 where p: "push_parents seen st (c_parents c) = (seen1, stack1)" by fastforce
          have "distinct st" "set st \<subseteq> set seen" using inv by auto
          note ps = push_parents_spec [OF p this]
          have "(root, q) \<in> (parent_rel h)\<^sup>*" if "q \<in> set (c_parents c)" for q
            using reach Some that by (auto simp: parent_rel_def intro: rtrancl_into_rtrancl)
          with ps Some have "search_inv h G anc tg root (insert i D) seen1 stack1"
            by (intro search_inv_step [OF Suc.prems(1) [unfolded Cons] False]) auto
          from Suc.IH [OF this g(2) card] show ?thesis using Cons False K(1) g(1) keep p by auto
        qed
      qed
    qed
  qed
qed

lemma is_ancestor_commit_spec:
  assumes "history_ok rd h G R" "anc \<in> R" "d \<in> R" "\<forall>i \<in> R. G i < m" "finite R" "card R \<le> n"
  shows "is_ancestor_commit rd m n anc d = Inr ((d, anc) \<in> (parent_rel h)\<^sup>*)"
proof (cases "anc = d")
  case False
  have inv: "search_inv h G anc tg d {} [d] [d]" for tg by (simp add: search_inv_def)
  show ?thesis
  proof (cases "h anc")
    case None
    with ancestor_loop_spec [OF assms(1,3,4) _ _ assms(5) inv memo_ok_empty] assms(6)
      history_unknown [OF assms(1,2) None] False
    show ?thesis by (simp add: is_ancestor_commit_def)
  next
    case (Some c)
    from gen_of_spec [OF assms(1,2) memo_ok_empty] assms(2,4) obtain memo where
      g: "gen_of rd m Map.empty anc = Inr (int (G anc), memo)" "memo_ok G memo" by blast
    from ancestor_loop_spec [OF assms(1,3,4) _ _ assms(5) inv g(2)] assms(6) Some
      history_known(1) [OF assms(1,2) Some] g(1) False
    show ?thesis by (simp add: is_ancestor_commit_def)
  qed
qed (simp add: is_ancestor_commit_def)

section \<open>The merge base\<close>

text \<open>\<open>within s t\<close>: every side in \<open>s\<close> is in \<open>t\<close>.\<close>

definition within :: "sides \<Rightarrow> sides \<Rightarrow> bool" where
  "within s t \<longleftrightarrow> (fst s \<longrightarrow> fst t) \<and> (snd s \<longrightarrow> snd t)"

definition missing :: "sides \<Rightarrow> nat" where
  "missing s = (if fst s then 0 else 1) + (if snd s then 0 else 1)"

definition item :: "(string \<Rightarrow> nat) \<Rightarrow> string \<Rightarrow> int \<times> string" where
  "item G i = (- int (G i), i)"

lemma sides_simps [simp]:
  "within s s" "within s (join_sides s t)" "within t (join_sides s t)"
  "join_sides s t = s \<longleftrightarrow> within t s" "item G i = item G j \<longleftrightarrow> i = j"
  by (auto simp: within_def join_sides_def item_def prod_eq_iff)

lemma join_within: "within t s \<Longrightarrow> join_sides s t = s"
  by simp

lemma within_trans: "within s t \<Longrightarrow> within t u \<Longrightarrow> within s u"
  by (auto simp: within_def)

lemma missing_join: "\<not> within t s \<Longrightarrow> Suc (missing (join_sides s t)) \<le> missing s"
  by (auto simp: within_def missing_def join_sides_def)

text \<open>One visit, and the visits of all parents of a commit.\<close>

lemma visit_spec:
  assumes "history_ok rd h G R" "p \<in> R" "G p < m" "memo_ok G memo"
  shows "\<exists>memo'. memo_ok G memo' \<and> visit rd m p flag (marked, heap, memo) =
    Inr (marked(p := join_sides (marked p) flag),
         (if within flag (marked p) then heap else item G p # heap), memo')"
proof -
  from gen_of_spec [OF assms(1,2,4,3)] obtain memo' where
    "gen_of rd m memo p = Inr (int (G p), memo')" "memo_ok G memo'" by blast
  moreover have "marked(p := join_sides (marked p) flag) = marked" if "within flag (marked p)"
    using that join_within by (metis fun_upd_triv)
  ultimately show ?thesis using assms(4) by (auto simp: visit_def Let_def item_def)
qed

definition room :: "string set \<Rightarrow> (string \<Rightarrow> sides) \<Rightarrow> nat" where
  "room R marked = (\<Sum>i \<in> R. missing (marked i))"

lemma room_visit:
  assumes "finite R" "p \<in> R"
  shows "room R (marked(p := join_sides (marked p) flag)) +
    length (if within flag (marked p) then heap else item G p # heap) \<le> room R marked + length heap"
proof (cases "within flag (marked p)")
  case True
  then have "marked(p := join_sides (marked p) flag) = marked" using join_within by (metis fun_upd_triv)
  with True show ?thesis by simp
next
  case False
  have "room R (marked(p := join_sides (marked p) flag)) =
      missing (join_sides (marked p) flag) + (\<Sum>i \<in> R - {p}. missing (marked i))"
    unfolding room_def by (subst sum.remove [OF assms]) (auto intro: sum.cong)
  moreover have "room R marked = missing (marked p) + (\<Sum>i \<in> R - {p}. missing (marked i))"
    unfolding room_def by (rule sum.remove [OF assms])
  ultimately show ?thesis using missing_join [OF False] False by simp
qed

definition marks_after :: "(string \<Rightarrow> sides) \<Rightarrow> string list \<Rightarrow> sides \<Rightarrow> string \<Rightarrow> sides" where
  "marks_after marked ps flag = (\<lambda>x. if x \<in> set ps then join_sides (marked x) flag else marked x)"

lemma join_idem [simp]: "join_sides (join_sides s t) t = join_sides s t"
  by (simp add: within_def join_sides_def)

lemma visits_spec:
  assumes "history_ok rd h G R" "finite R" "\<forall>i \<in> R. G i < m"
  shows "set ps \<subseteq> R \<Longrightarrow> memo_ok G memo \<Longrightarrow>
    \<exists>heap' memo'. memo_ok G memo' \<and>
      foldE (\<lambda>st p. visit rd m p flag st) (marked, heap, memo) ps = Inr (marks_after marked ps flag, heap', memo') \<and>
      set heap' = set heap \<union> {item G p | p. p \<in> set ps \<and> \<not> within flag (marked p)} \<and>
      room R (marks_after marked ps flag) + length heap' \<le> room R marked + length heap"
proof (induction ps arbitrary: marked heap memo)
  case Nil
  then show ?case by (auto simp: marks_after_def)
next
  case (Cons p ps)
  define m1 where "m1 = marked(p := join_sides (marked p) flag)"
  define h1 where "h1 = (if within flag (marked p) then heap else item G p # heap)"
  have p: "p \<in> R" "G p < m" "set ps \<subseteq> R" using Cons.prems(1) assms(3) by auto
  from visit_spec [OF assms(1) p(1,2) Cons.prems(2), of flag marked heap]
  obtain memo1 where v: "memo_ok G memo1" "visit rd m p flag (marked, heap, memo) = Inr (m1, h1, memo1)"
    unfolding m1_def h1_def by blast
  from Cons.IH [OF p(3) v(1), of m1 h1] obtain heap' memo' where
    r: "memo_ok G memo'" "foldE (\<lambda>st p. visit rd m p flag st) (m1, h1, memo1) ps =
        Inr (marks_after m1 ps flag, heap', memo')"
      "set heap' = set h1 \<union> {item G q | q. q \<in> set ps \<and> \<not> within flag (m1 q)}"
      "room R (marks_after m1 ps flag) + length heap' \<le> room R m1 + length h1" by blast
  have marks: "marks_after m1 ps flag = marks_after marked (p # ps) flag"
    by (rule ext) (simp add: marks_after_def m1_def)
  have m1: "within flag (m1 q) \<longleftrightarrow> q = p \<or> within flag (marked q)" for q
    by (simp add: m1_def)
  have "set h1 \<union> {item G q | q. q \<in> set ps \<and> \<not> within flag (m1 q)} =
      set heap \<union> {item G q | q. q \<in> set (p # ps) \<and> \<not> within flag (marked q)}"
    unfolding m1 by (cases "within flag (marked p)") (auto simp: h1_def)
  moreover have "room R m1 + length h1 \<le> room R marked + length heap"
    unfolding m1_def h1_def by (rule room_visit [OF assms(2) p(1)])
  ultimately show ?case
    using r v(2) unfolding marks by (intro exI [of _ heap'] exI [of _ memo']) simp
qed

text \<open>
  The loop invariant. Marks are sound; a marked commit off the heap has passed its marks on
  to its parents, does not bear both marks, and is at least as deep as everything on the heap.
\<close>

definition base_inv ::
  "(string \<Rightarrow> commit option) \<Rightarrow> (string \<Rightarrow> nat) \<Rightarrow> string \<Rightarrow> string
     \<Rightarrow> (string \<Rightarrow> sides) \<Rightarrow> (int \<times> string) set \<Rightarrow> bool" where
  "base_inv h G a b marked H \<longleftrightarrow>
     (\<forall>i. fst (marked i) \<longrightarrow> (a, i) \<in> (parent_rel h)\<^sup>*) \<and>
     (\<forall>i. snd (marked i) \<longrightarrow> (b, i) \<in> (parent_rel h)\<^sup>*) \<and>
     fst (marked a) \<and> snd (marked b) \<and>
     (\<forall>x \<in> H. \<exists>i. x = item G i \<and> marked i \<noteq> (False, False)) \<and>
     (\<forall>i. marked i \<noteq> (False, False) \<longrightarrow> item G i \<notin> H \<longrightarrow>
        marked i \<noteq> (True, True) \<and> (\<forall>p. (i, p) \<in> parent_rel h \<longrightarrow> within (marked i) (marked p)) \<and>
        (\<forall>j. item G j \<in> H \<longrightarrow> G j \<le> G i))"

lemma base_inv_off:
  assumes "base_inv h G a b marked H" "marked i \<noteq> (False, False)" "item G i \<notin> H"
  shows "marked i \<noteq> (True, True)" "(i, p) \<in> parent_rel h \<Longrightarrow> within (marked i) (marked p)"
    "item G j \<in> H \<Longrightarrow> G j \<le> G i"
  using assms unfolding base_inv_def by blast+

text \<open>A mark that is passed on off the heap reaches everything deeper than the heap.\<close>

lemma deep_marked:
  assumes "history_ok rd h G R" "a \<in> R" "(a, x) \<in> (parent_rel h)\<^sup>*"
    and deep: "\<forall>j. item G j \<in> H \<longrightarrow> G j < G x"
    and start: "f a" and pass: "\<And>i p. f i \<Longrightarrow> item G i \<notin> H \<Longrightarrow> (i, p) \<in> parent_rel h \<Longrightarrow> f p"
  shows "f x"
proof -
  have "f i" if "(a, i) \<in> (parent_rel h)\<^sup>*" "(i, x) \<in> (parent_rel h)\<^sup>*" for i
    using that
  proof (induction rule: rtrancl_induct)
    case base
    show ?case by (rule start)
  next
    case (step y z)
    then have yx: "(y, x) \<in> (parent_rel h)\<^sup>*" by (meson converse_rtrancl_into_rtrancl)
    have "y \<in> R" using ancestors_closed [OF assms(1,2) step.hyps(1)] by simp
    with ancestors_closed [OF assms(1) _ yx] have "G x \<le> G y" by auto
    with deep have "item G y \<notin> H" by fastforce
    then show ?case by (rule pass [OF step.IH [OF yx] _ step.hyps(2)])
  qed
  from this [OF assms(3)] show ?thesis by simp
qed

definition common_ancestor :: "(string \<Rightarrow> commit option) \<Rightarrow> string \<Rightarrow> string \<Rightarrow> string \<Rightarrow> bool" where
  "common_ancestor h a b x \<longleftrightarrow> (a, x) \<in> (parent_rel h)\<^sup>* \<and> (b, x) \<in> (parent_rel h)\<^sup>*"

lemma no_deeper_base:
  assumes "history_ok rd h G R" "a \<in> R" "b \<in> R" "base_inv h G a b marked H" "common_ancestor h a b x"
  shows "\<exists>j. item G j \<in> H \<and> G x \<le> G j"
proof (rule ccontr)
  assume neg: "\<not> ?thesis"
  then have deep: "\<forall>j. item G j \<in> H \<longrightarrow> G j < G x" by auto
  have x: "(a, x) \<in> (parent_rel h)\<^sup>*" "(b, x) \<in> (parent_rel h)\<^sup>*"
    using assms(5) by (auto simp: common_ancestor_def)
  have pass: "within (marked i) (marked p)"
    if "marked i \<noteq> (False, False)" "item G i \<notin> H" "(i, p) \<in> parent_rel h" for i p
    using base_inv_off(2) [OF assms(4) that] .
  have "fst (marked x)"
  proof (rule deep_marked [OF assms(1,2) x(1) deep, where f = "\<lambda>i. fst (marked i)"])
    show "fst (marked a)" using assms(4) by (simp add: base_inv_def)
    show "fst (marked p)" if "fst (marked i)" "item G i \<notin> H" "(i, p) \<in> parent_rel h" for i p
      using pass [of i p] that by (cases "marked i") (auto simp: within_def)
  qed
  moreover have "snd (marked x)"
  proof (rule deep_marked [OF assms(1,3) x(2) deep, where f = "\<lambda>i. snd (marked i)"])
    show "snd (marked b)" using assms(4) by (simp add: base_inv_def)
    show "snd (marked p)" if "snd (marked i)" "item G i \<notin> H" "(i, p) \<in> parent_rel h" for i p
      using pass [of i p] that by (cases "marked i") (auto simp: within_def)
  qed
  ultimately have "marked x = (True, True)" by (simp add: prod_eq_iff)
  then have "item G x \<in> H" using base_inv_off [OF assms(4), of x] by auto
  with neg show False by blast
qed

lemma base_inv_pop:
  assumes H: "history_ok rd h G R" and inv: "base_inv h G a b marked (set heap)"
    and i: "item G i \<in> set heap" "\<forall>j. item G j \<in> set heap \<longrightarrow> G j \<le> G i"
    and notboth: "marked i \<noteq> (True, True)" and known: "h i = Some c" "i \<in> R"
    and heap': "set heap' = set (remove1 (item G i) heap) \<union>
      {item G p | p. p \<in> set (c_parents c) \<and> \<not> within (marked i) (marked p)}"
  shows "base_inv h G a b (marks_after marked (c_parents c) (marked i)) (set heap')"
proof -
  let ?M = "marks_after marked (c_parents c) (marked i)"
  have edge: "(i, p) \<in> parent_rel h \<longleftrightarrow> p \<in> set (c_parents c)" for p
    using known(1) by (simp add: parent_rel_def)
  have lower: "G p < G i" if "p \<in> set (c_parents c)" for p
    using history_known(3) [OF H known(2,1)] parent_depth [OF that] by simp
  have grow: "within (marked y) (?M y)" for y by (simp add: marks_after_def)
  have marked_i: "?M i = marked i" using lower [of i] by (auto simp: marks_after_def)
  have old: "?M y = marked y" if "item G y \<notin> set heap'" for y
    using that unfolding heap' by (auto simp: marks_after_def join_within)
  have in_heap: "item G y \<in> set heap \<Longrightarrow> item G y \<in> set heap' \<or> y = i" for y
    unfolding heap' by (cases "y = i") simp_all
  have heap_le: "G j \<le> G i" if "item G j \<in> set heap'" for j
    using that i(2) lower less_imp_le set_remove1_subset [of "item G i" heap]
    unfolding heap' by fastforce
  show ?thesis unfolding base_inv_def
  proof (intro conjI allI ballI impI)
    fix y
    show "(a, y) \<in> (parent_rel h)\<^sup>*" if "fst (?M y)"
      using that inv edge rtrancl_into_rtrancl [of a i "parent_rel h" y]
      by (auto simp: base_inv_def marks_after_def join_sides_def split: if_splits)
    show "(b, y) \<in> (parent_rel h)\<^sup>*" if "snd (?M y)"
      using that inv edge rtrancl_into_rtrancl [of b i "parent_rel h" y]
      by (auto simp: base_inv_def marks_after_def join_sides_def split: if_splits)
  next
    show "fst (?M a)" "snd (?M b)" using inv grow [of a] grow [of b] by (auto simp: base_inv_def within_def)
  next
    fix x assume "x \<in> set heap'"
    then consider "x \<in> set heap" | p where "x = item G p" "p \<in> set (c_parents c)" "\<not> within (marked i) (marked p)"
      using set_remove1_subset [of "item G i" heap] unfolding heap' by blast
    then show "\<exists>y. x = item G y \<and> ?M y \<noteq> (False, False)"
    proof cases
      case 1
      with inv obtain y where "x = item G y" "marked y \<noteq> (False, False)" unfolding base_inv_def by blast
      with grow [of y] show ?thesis by (cases "marked y") (auto simp: within_def prod_eq_iff)
    next
      case 2
      then have "?M p \<noteq> (False, False)"
        by (auto simp: marks_after_def within_def join_sides_def)
      with 2(1) show ?thesis by blast
    qed
  next
    fix y assume y: "?M y \<noteq> (False, False)" "item G y \<notin> set heap'"
    then have my: "marked y \<noteq> (False, False)" using old by simp
    from in_heap [of y] y(2) have off: "y = i \<or> item G y \<notin> set heap" by blast
    have offD: "marked y \<noteq> (True, True)" "\<forall>p. (y, p) \<in> parent_rel h \<longrightarrow> within (marked y) (marked p)"
        "\<forall>j. item G j \<in> set heap \<longrightarrow> G j \<le> G y" if "item G y \<notin> set heap"
      using base_inv_off [OF inv my that] by blast+
    show "?M y \<noteq> (True, True)" using off offD(1) notboth y(2) old marked_i by metis
    show "within (?M y) (?M p)" if "(y, p) \<in> parent_rel h" for p
    proof (cases "y = i")
      case True
      with that edge have "p \<in> set (c_parents c)" by simp
      then show ?thesis unfolding True marked_i by (simp add: marks_after_def)
    next
      case False
      with off offD(2) that have "within (marked y) (marked p)" by blast
      with grow [of p] old [OF y(2)] show ?thesis by (metis within_trans)
    qed
    show "G j \<le> G y" if "item G j \<in> set heap'" for j
      using heap_le [OF that] off offD(3) i(1) by (metis le_trans)
  qed
qed

lemma heappop_spec:
  assumes "base_inv h G a b marked (set heap)" "heap \<noteq> []"
  shows "\<exists>i. heappop heap = (item G i, remove1 (item G i) heap) \<and> item G i \<in> set heap \<and>
    marked i \<noteq> (False, False) \<and> (\<forall>j. item G j \<in> set heap \<longrightarrow> G j \<le> G i)"
proof -
  have mem: "Min (set heap) \<in> set heap" using assms(2) by simp
  with assms(1) obtain i where i: "Min (set heap) = item G i" "marked i \<noteq> (False, False)"
    unfolding base_inv_def by blast
  have "G j \<le> G i" if "item G j \<in> set heap" for j
  proof -
    have "item G i \<le> item G j" using that i(1) Min_le [of "set heap"] by (metis List.finite_set)
    then show ?thesis by (auto simp: item_def)
  qed
  with i mem show ?thesis by (auto simp: heappop_def Let_def)
qed

text \<open>What a merge base is: a common ancestor of maximal generation, if there is one at all.\<close>

definition best_base ::
  "(string \<Rightarrow> commit option) \<Rightarrow> (string \<Rightarrow> nat) \<Rightarrow> string \<Rightarrow> string \<Rightarrow> commit option \<Rightarrow> bool" where
  "best_base h G a b r \<longleftrightarrow>
     (case r of
        None \<Rightarrow> \<not> (\<exists>x. common_ancestor h a b x)
      | Some c \<Rightarrow> \<exists>i. h i = Some c \<and> common_ancestor h a b i \<and>
                   (\<forall>x. common_ancestor h a b x \<longrightarrow> G x \<le> G i))"

lemma merge_base_loop_spec:
  assumes H: "history_ok rd h G R" "finite R" "\<forall>i \<in> R. G i < m" "\<forall>i \<in> R. h i \<noteq> None"
    and ab: "a \<in> R" "b \<in> R"
  shows "base_inv h G a b marked (set heap) \<Longrightarrow> memo_ok G memo \<Longrightarrow> room R marked + length heap \<le> n \<Longrightarrow>
    \<exists>r. merge_base_loop rd m n (marked, heap, memo) = Inr r \<and> best_base h G a b r"
proof (induction n arbitrary: marked heap memo)
  case 0
  then have "heap = []" by simp
  with no_deeper_base [OF H(1) ab 0(1)] show ?case by (auto simp: best_base_def)
next
  case (Suc n)
  show ?case
  proof (cases "heap = []")
    case True
    with no_deeper_base [OF H(1) ab Suc.prems(1)] show ?thesis by (auto simp: best_base_def)
  next
    case False
    from heappop_spec [OF Suc.prems(1) False] obtain i where
      pop: "heappop heap = (item G i, remove1 (item G i) heap)" and i: "item G i \<in> set heap"
        "marked i \<noteq> (False, False)" "\<forall>j. item G j \<in> set heap \<longrightarrow> G j \<le> G i" by blast
    have reach: "fst (marked i) \<Longrightarrow> (a, i) \<in> (parent_rel h)\<^sup>*" "snd (marked i) \<Longrightarrow> (b, i) \<in> (parent_rel h)\<^sup>*"
      using Suc.prems(1) by (auto simp: base_inv_def)
    then have iR: "i \<in> R"
      using i(2) ancestors_closed [OF H(1) ab(1), of i] ancestors_closed [OF H(1) ab(2), of i]
      by (cases "marked i") auto
    with H(4) obtain c where c: "h i = Some c" by auto
    note K = history_known [OF H(1) iR c]
    show ?thesis
    proof (cases "marked i = (True, True)")
      case True
      have "G x \<le> G i" if "common_ancestor h a b x" for x
        using no_deeper_base [OF H(1) ab Suc.prems(1) that] i(3) by (meson le_trans)
      with True reach c have "best_base h G a b (Some c)" by (auto simp: best_base_def common_ancestor_def)
      with False pop True K(1) show ?thesis by (auto simp: item_def)
    next
      case notboth: False
      from visits_spec [OF H(1-3) K(2) Suc.prems(2), of "marked i" marked "remove1 (item G i) heap"]
      obtain heap' memo' where
        v: "memo_ok G memo'" "foldE (\<lambda>st p. visit rd m p (marked i) st) (marked, remove1 (item G i) heap, memo)
              (c_parents c) = Inr (marks_after marked (c_parents c) (marked i), heap', memo')"
          "set heap' = set (remove1 (item G i) heap) \<union>
              {item G p | p. p \<in> set (c_parents c) \<and> \<not> within (marked i) (marked p)}"
          "room R (marks_after marked (c_parents c) (marked i)) + length heap' \<le>
              room R marked + length (remove1 (item G i) heap)" by blast
      have "length (remove1 (item G i) heap) < length heap"
        using i(1) length_pos_if_in_set [OF i(1)] by (simp add: length_remove1)
      with v(4) Suc.prems(3) have "room R (marks_after marked (c_parents c) (marked i)) + length heap' \<le> n" by linarith
      from Suc.IH [OF base_inv_pop [OF H(1) Suc.prems(1) i(1,3) notboth c iR v(3)] v(1) this]
      show ?thesis using False pop notboth K(1) v(2) by (simp add: item_def parents_of_def)
    qed
  qed
qed

lemma merge_base_commit_spec:
  assumes H: "history_ok rd h G R" "finite R" "\<forall>i \<in> R. G i < m" "\<forall>i \<in> R. h i \<noteq> None"
    and ab: "a \<in> R" "b \<in> R" and n: "2 * card R \<le> n"
  shows "\<exists>r. merge_base_commit rd m n a b = Inr r \<and> best_base h G a b r"
proof (cases "a = b")
  case True
  with H(4) ab obtain c where c: "h a = Some c" by auto
  have "G x \<le> G a" if "common_ancestor h a a x" for x
    using that ancestors_closed [OF H(1) ab(1), of x] by (auto simp: common_ancestor_def)
  then have "best_base h G a a (Some c)" using c by (auto simp: best_base_def common_ancestor_def)
  with True history_known(1) [OF H(1) ab(1) c] show ?thesis by (auto simp: merge_base_commit_def)
next
  case False
  define m0 where "m0 = (\<lambda>_ :: string. (False, False))"
  define m1 where "m1 = m0(a := (True, False))"
  define m2 where "m2 = m1(b := (False, True))"
  have G: "G a < m" "G b < m" using H(3) ab by auto
  have j1: "join_sides (m0 a) (True, False) = (True, False)" "\<not> within (True, False) (m0 a)"
    "join_sides (m1 b) (False, True) = (False, True)" "\<not> within (False, True) (m1 b)"
    using False by (simp_all add: m0_def m1_def join_sides_def within_def)
  from visit_spec [OF H(1) ab(1) G(1) memo_ok_empty, of "(True, False)" m0 "[]"] j1
  obtain memo1 where v1: "memo_ok G memo1"
    "visit rd m a (True, False) (m0, [], Map.empty) = Inr (m1, [item G a], memo1)"
    by (auto simp: m1_def)
  from visit_spec [OF H(1) ab(2) G(2) v1(1), of "(False, True)" m1 "[item G a]"] j1
  obtain memo2 where v2: "memo_ok G memo2"
    "visit rd m b (False, True) (m1, [item G a], memo1) = Inr (m2, [item G b, item G a], memo2)"
    by (auto simp: m2_def)
  have "base_inv h G a b m2 (set [item G b, item G a])"
    using False by (auto simp: base_inv_def m2_def m1_def m0_def)
  moreover have "room R m2 + length [item G b, item G a] \<le> n"
  proof -
    have "room R m0 = 2 * card R" by (simp add: room_def m0_def missing_def)
    moreover have "room R m1 + length [item G a] \<le> room R m0 + length ([] :: (int \<times> string) list)"
      using room_visit [OF H(2) ab(1), of m0 "(True, False)" "[]" G] j1 by (simp add: m1_def)
    moreover have "room R m2 + length [item G b, item G a] \<le> room R m1 + length [item G a]"
      using room_visit [OF H(2) ab(2), of m1 "(False, True)" "[item G a]" G] j1 by (simp add: m2_def)
    ultimately show ?thesis using n by simp
  qed
  ultimately show ?thesis
    using merge_base_loop_spec [OF H ab, of m2 "[item G b, item G a]" memo2 n] v2 v1(2) False
    by (simp add: merge_base_commit_def m0_def)
qed

end
