(* ===== verification/Commit_Object.thy ===== *)
theory Commit_Object
  imports Json Commit_Graph
begin

text \<open>
  The two serialized forms of a commit: the canonical body its id is the digest of
  (\<open>TreeWriter.write_commit_object\<close>, the standard library's \<open>json.dumps\<close> with sorted keys
  and ASCII escapes), and the stored object, written with the \<open>msgspec\<close> codec and read
  back by \<open>RefManager.read_commit\<close>. The lemmas: a stored commit reads back as it was
  written, whatever fails to parse is a \<open>CorruptCommitError\<close>, and the id depends only on
  message, tree and parents.
\<close>

section \<open>json.dumps\<close>

definition hex_char :: "nat \<Rightarrow> char" where
  "hex_char d = char_of (if d < 10 then 48 + d else 87 + d)"

definition hex4 :: "nat \<Rightarrow> string" where
  "hex4 n = [hex_char (n div 4096 mod 16), hex_char (n div 256 mod 16),
             hex_char (n div 16 mod 16), hex_char (n mod 16)]"

text \<open>The code points of UTF-8 text.\<close>

function code_points :: "string \<Rightarrow> nat list" where
  "code_points s =
     (case s of
        [] \<Rightarrow> []
      | c # cs \<Rightarrow>
          let b = of_char c :: nat; k = (if b < 192 then 0 else if b < 224 then 1 else if b < 240 then 2 else 3);
              lead = (if k = 0 then b else if k = 1 then b mod 32 else if k = 2 then b mod 16 else b mod 8)
          in foldl (\<lambda>n d. n * 64 + of_char d mod 64) lead (take k cs) # code_points (drop k cs))"
  by pat_completeness auto
termination
  by (relation "measure length") auto

declare code_points.simps [simp del]

text \<open>\<open>ensure_ascii\<close>: everything outside printable ASCII is escaped, beyond the BMP as a surrogate pair.\<close>

definition escape_point :: "nat \<Rightarrow> string" where
  "escape_point n =
     (if n = 0x22 then [CHR 0x5C, CHR 0x22]
      else if n = 0x5C then [CHR 0x5C, CHR 0x5C]
      else if n = 0x0A then [CHR 0x5C, CHR ''n'']
      else if n = 0x0D then [CHR 0x5C, CHR ''r'']
      else if n = 0x09 then [CHR 0x5C, CHR ''t'']
      else if n = 0x0C then [CHR 0x5C, CHR ''f'']
      else if n = 0x08 then [CHR 0x5C, CHR ''b'']
      else if 0x20 \<le> n \<and> n \<le> 0x7E then [char_of n]
      else if n < 0x10000 then CHR 0x5C # CHR ''u'' # hex4 n
      else (let v = n - 0x10000 in
            (CHR 0x5C # CHR ''u'' # hex4 (0xD800 + v div 1024))
            @ (CHR 0x5C # CHR ''u'' # hex4 (0xDC00 + v mod 1024))))"

definition dumps_str :: "string \<Rightarrow> string" where
  "dumps_str s = CHR 0x22 # concat (map escape_point (code_points s)) @ [CHR 0x22]"

definition dumps_list :: "string list \<Rightarrow> string" where
  "dumps_list xs = CHR ''['' # join_on (CHR '','') (map dumps_str xs) @ [CHR '']'']"

text \<open>\<open>json.dumps({"message": ..., "tree": ..., "parents": ...}, sort_keys=True, separators=(",", ":"))\<close>.\<close>

definition canonical_body :: "string \<Rightarrow> string \<Rightarrow> string list \<Rightarrow> string" where
  "canonical_body message tree parents =
     CHR ''{'' # dumps_str ''message'' @ '':'' @ dumps_str message
     @ '','' @ dumps_str ''parents'' @ '':'' @ dumps_list parents
     @ '','' @ dumps_str ''tree'' @ '':'' @ dumps_str tree @ [CHR ''}'']"

definition commit_id_of :: "prims \<Rightarrow> string \<Rightarrow> string \<Rightarrow> string list \<Rightarrow> string" where
  "commit_id_of P message tree parents = blake3 P (canonical_body message tree parents)"

section \<open>The stored object\<close>

text \<open>\<open>msgspec.json.encode({...}, order="deterministic") + b"\\n"\<close>: keys in sorted order.\<close>

definition opt_int :: "int option \<Rightarrow> json" where
  "opt_int g = (case g of None \<Rightarrow> JNull | Some i \<Rightarrow> JInt i)"

definition commit_json :: "commit \<Rightarrow> json" where
  "commit_json c =
     JObj [(''created_at'', JStr (c_created_at c)),
           (''generation'', opt_int (c_generation c)),
           (''id'', JStr (c_id c)),
           (''message'', JStr (c_message c)),
           (''parents'', JArr (map JStr (c_parents c))),
           (''tree'', JStr (c_tree c))]"

definition encode_commit :: "prims \<Rightarrow> commit \<Rightarrow> string" where
  "encode_commit P c = json_encode P (commit_json c) @ [CHR 0x0A]"

text \<open>A decoded object is a dictionary: the last of equal keys wins.\<close>

definition obj_get :: "(string \<times> json) list \<Rightarrow> string \<Rightarrow> json option" where
  "obj_get kvs k = map_of (rev kvs) k"

text \<open>
  \<open>data.get("parents") or []\<close>, then iterated: a list gives its elements, an object its keys
  and a string its characters; anything else falsy is empty, anything else truthy a \<open>TypeError\<close>.
\<close>

fun utf8_chars :: "nat \<Rightarrow> string \<Rightarrow> string list" where
  "utf8_chars 0 s = []"
| "utf8_chars (Suc n) [] = []"
| "utf8_chars (Suc n) (c # cs) =
     (let b = of_char c :: nat;
          k = (if b < 192 then 0 else if b < 224 then 1 else if b < 240 then 2 else 3)
      in (c # take k cs) # utf8_chars n (drop k cs))"

definition iter_parents :: "prims \<Rightarrow> json option \<Rightarrow> string list option" where
  "iter_parents P v =
     (case v of
        None \<Rightarrow> Some []
      | Some JNull \<Rightarrow> Some []
      | Some (JBool b) \<Rightarrow> if b then None else Some []
      | Some (JInt i) \<Rightarrow> if i = 0 then Some [] else None
      | Some (JFloat f) \<Rightarrow> if f = Finite 0 then Some [] else None
      | Some (JStr s) \<Rightarrow> Some (utf8_chars (length s) s)
      | Some (JArr xs) \<Rightarrow> Some (map (py_str P) xs)
      | Some (JObj kvs) \<Rightarrow> Some (rev (remdups (rev (map fst kvs)))))"

text \<open>
  \<open>read_commit\<close>'s parse. \<open>DecodeError\<close>, \<open>AttributeError\<close>, \<open>KeyError\<close>, \<open>TypeError\<close> and
  \<open>ValueError\<close> all become \<open>CorruptCommitError\<close>; only the \<open>OverflowError\<close> of \<open>int(inf)\<close>
  is not caught.
\<close>

definition parse_commit_body :: "prims \<Rightarrow> (string \<times> json) list \<Rightarrow> commit res" where
  "parse_commit_body P data =
     bindE (case obj_get data ''generation'' of
              None \<Rightarrow> Inr None
            | Some JNull \<Rightarrow> Inr None
            | Some v \<Rightarrow> bindE (py_int v) (\<lambda>i. Inr (Some i)))
       (\<lambda>generation.
          case (obj_get data ''id'', obj_get data ''message'', obj_get data ''tree'',
                iter_parents P (obj_get data ''parents''), obj_get data ''created_at'') of
            (Some i, Some m, Some t, Some ps, Some ca) \<Rightarrow>
              Inr \<lparr>c_id = py_str P i, c_message = py_str P m, c_tree = py_str P t,
                   c_parents = ps, c_created_at = py_str P ca, c_generation = generation\<rparr>
          | _ \<Rightarrow> Inl TypeError)"

definition parse_commit :: "prims \<Rightarrow> string \<Rightarrow> string \<Rightarrow> commit res" where
  "parse_commit P commit_id payload =
     (case (case json_decode P payload of
              Some (JObj data) \<Rightarrow> parse_commit_body P data
            | _ \<Rightarrow> Inl TypeError) of
        Inr c \<Rightarrow> Inr c
      | Inl err \<Rightarrow> if err = OverflowError then Inl err else Inl (CorruptCommitError commit_id))"

text \<open>What the store relies on of the codec for a commit object.\<close>

definition commit_codec_ok :: "prims \<Rightarrow> bool" where
  "commit_codec_ok P \<longleftrightarrow> (\<forall>c. json_decode P (encode_commit P c) = Some (commit_json c))"

lemma parse_encode_commit:
  assumes "commit_codec_ok P"
  shows "parse_commit P i (encode_commit P c) = Inr c"
  using assms
  by (cases "c_generation c")
    (simp_all add: parse_commit_def commit_codec_ok_def commit_json_def parse_commit_body_def
      obj_get_def opt_int_def iter_parents_def comp_def)

lemma parse_commit_error:
  "parse_commit P i payload = Inl err \<Longrightarrow> err = CorruptCommitError i \<or> err = OverflowError"
  by (auto simp: parse_commit_def split: sum.splits if_splits)

end
