(* ===== verification/Layout.thy ===== *)
theory Layout
  imports Entry_Codec
begin

text \<open>
  Names: the key of an object below \<open>.reflake/\<close> (\<open>core/layout.py\<close>), the file name of a
  branch in client state (\<open>encode_branch_name\<close>), and the validation of paths and branch
  names (\<open>core/repository_support.py\<close>). The lemmas: distinct objects and distinct branches
  never share a file, and what the validators accept.
\<close>

section \<open>Object keys\<close>

datatype object_kind = Blob | Commit | Ref | Tree | Footer

text \<open>\<open>(Path(h[:2]) / h[2:]).as_posix()\<close> for an id without separators.\<close>

definition blob_relpath :: "string \<Rightarrow> string" where
  "blob_relpath content_hash =
     (if drop 2 content_hash = [] then take 2 content_hash
      else take 2 content_hash @ ''/'' @ drop 2 content_hash)"

definition kind_prefix :: "object_kind \<Rightarrow> string" where
  "kind_prefix k =
     (case k of Blob \<Rightarrow> ''blobs/'' | Tree \<Rightarrow> ''trees/'' | Footer \<Rightarrow> ''footers/''
      | Commit \<Rightarrow> ''commits/'' | Ref \<Rightarrow> ''refs/heads/'')"

definition object_relative_key :: "object_kind \<Rightarrow> string \<Rightarrow> string" where
  "object_relative_key k object_id =
     (if object_id = [] then kind_prefix k
      else case k of
        Blob \<Rightarrow> ''blobs/'' @ blob_relpath object_id
      | Commit \<Rightarrow> ''commits/'' @ object_id @ ''.json''
      | Tree \<Rightarrow> ''trees/'' @ object_id
      | Footer \<Rightarrow> ''footers/'' @ object_id
      | Ref \<Rightarrow> ''refs/heads/'' @ object_id)"

lemma object_key_inj:
  assumes "object_relative_key k i = object_relative_key k' i'"
    and "k = Blob \<Longrightarrow> is_hex_digest i" "k' = Blob \<Longrightarrow> is_hex_digest i'"
    and "i \<noteq> []" "i' \<noteq> []"
  shows "k = k' \<and> i = i'"
proof -
  have "k = k'" using assms(1,4,5) by (cases k; cases k') (simp_all add: object_relative_key_def)
  moreover have "i = i'" if "k = Blob" "k' = Blob"
  proof -
    have len: "length i = 64" "length i' = 64" using assms(2,3) that by (simp_all add: is_hex_digest_def)
    with assms(1,4,5) that have "take 2 i @ ''/'' @ drop 2 i = take 2 i' @ ''/'' @ drop 2 i'"
      by (simp add: object_relative_key_def blob_relpath_def split: if_splits)
    with len have "take 2 i = take 2 i'" "drop 2 i = drop 2 i'" by (simp_all add: append_eq_append_conv)
    then show ?thesis by (metis append_take_drop_id)
  qed
  ultimately show ?thesis
    using assms(1,4,5) by (cases k') (auto simp: object_relative_key_def)
qed

section \<open>Branch file names\<close>

text \<open>\<open>urllib.parse.quote(branch, safe="")\<close> on the UTF-8 bytes.\<close>

definition quote_safe :: "char \<Rightarrow> bool" where
  "quote_safe c \<longleftrightarrow>
     (let n = of_char c :: nat in
      (48 \<le> n \<and> n \<le> 57) \<or> (65 \<le> n \<and> n \<le> 90) \<or> (97 \<le> n \<and> n \<le> 122)
      \<or> n = 95 \<or> n = 46 \<or> n = 45 \<or> n = 126)"

definition upper_hex :: "nat \<Rightarrow> char" where
  "upper_hex d = char_of (if d < 10 then 48 + d else 55 + d)"

definition quote_char :: "char \<Rightarrow> string" where
  "quote_char c =
     (if quote_safe c then [c]
      else [CHR ''%'', upper_hex (of_char c div 16), upper_hex (of_char c mod 16)])"

definition encode_branch_name :: "string \<Rightarrow> string" where
  "encode_branch_name branch = concat (map quote_char branch)"

lemma of_upper_hex: "d < 16 \<Longrightarrow> of_char (upper_hex d) = (if d < 10 then 48 + d else 55 + d :: nat)"
  by (simp add: upper_hex_def)

lemma upper_hex_inj:
  assumes "d < 16" "e < 16" "upper_hex d = upper_hex e"
  shows "d = e"
proof -
  have "(if d < 10 then 48 + d else 55 + d) = (if e < 10 then 48 + e else 55 + e)"
    using of_upper_hex [OF assms(1)] of_upper_hex [OF assms(2)] unfolding assms(3) by metis
  then show ?thesis by (simp split: if_splits)
qed

lemma not_quote_safe_percent: "quote_safe c \<Longrightarrow> c \<noteq> CHR ''%''"
  by (auto simp: quote_safe_def)

lemma quote_char_split:
  assumes "quote_char c @ x = quote_char d @ y"
  shows "c = d \<and> x = y"
proof (cases "quote_safe c \<or> quote_safe d")
  case True
  with assms not_quote_safe_percent [of c] not_quote_safe_percent [of d] show ?thesis
    by (auto simp: quote_char_def split: if_splits)
next
  case False
  let ?c = "of_char c :: nat" and ?d = "of_char d :: nat"
  from False assms have "upper_hex (?c div 16) = upper_hex (?d div 16)"
    "upper_hex (?c mod 16) = upper_hex (?d mod 16)" and xy: "x = y"
    by (auto simp: quote_char_def)
  moreover have "?c div 16 < 16" "?d div 16 < 16"
    using nat_of_char_less_256 [of c] nat_of_char_less_256 [of d] by linarith+
  ultimately have "?c div 16 = ?d div 16" "?c mod 16 = ?d mod 16"
    using upper_hex_inj by (auto intro: upper_hex_inj)
  then have "?c = ?d" by (metis div_mult_mod_eq)
  then have "c = d" by (metis char_of_char)
  with xy show ?thesis by simp
qed

lemma encode_branch_name_inj: "encode_branch_name a = encode_branch_name b \<Longrightarrow> a = b"
proof (induction a arbitrary: b)
  case Nil
  then show ?case by (cases b) (auto simp: encode_branch_name_def quote_char_def split: if_splits)
next
  case (Cons c cs)
  show ?case
  proof (cases b)
    case Nil
    with Cons.prems show ?thesis by (auto simp: encode_branch_name_def quote_char_def split: if_splits)
  next
    case (Cons d ds)
    with Cons.prems quote_char_split [of c "encode_branch_name cs" d "encode_branch_name ds"]
    show ?thesis using Cons.IH [of ds] by (simp add: encode_branch_name_def)
  qed
qed

text \<open>The encoded name is one path component: no separator, so no file shadows a directory.\<close>

lemma encode_branch_name_flat: "CHR ''/'' \<notin> set (encode_branch_name b)"
proof
  assume "CHR ''/'' \<in> set (encode_branch_name b)"
  then obtain c where "CHR ''/'' \<in> set (quote_char c)" by (auto simp: encode_branch_name_def)
  then have "CHR ''/'' = c \<and> quote_safe c \<or> CHR ''/'' = upper_hex (of_char c div 16) \<or>
      CHR ''/'' = upper_hex (of_char c mod 16)"
    by (auto simp: quote_char_def split: if_splits)
  moreover have "\<not> quote_safe (CHR ''/'')" by (simp add: quote_safe_def)
  moreover have "CHR ''/'' \<noteq> upper_hex d" if "d < 16" for d
  proof
    assume "CHR ''/'' = upper_hex d"
    then have "of_char (CHR ''/'') = (of_char (upper_hex d) :: nat)" by simp
    with of_upper_hex [OF that] show False by (auto split: if_splits)
  qed
  moreover have "(of_char c :: nat) div 16 < 16" using nat_of_char_less_256 [of c] by linarith
  ultimately show False by auto
qed

section \<open>Paths\<close>

definition validate_no_binary :: "string \<Rightarrow> unit res" where
  "validate_no_binary token =
     (if CHR 0x00 \<in> set token then Inl ValueError
      else if \<exists>ch \<in> set token. (of_char ch :: nat) < 32 then Inl ValueError
      else Inr ())"

definition sanitize_path_component :: "string \<Rightarrow> string res" where
  "sanitize_path_component value =
     bindE (validate_no_binary value) (\<lambda>_.
       let stripped = strip value in
       if stripped = [] then Inl ValueError
       else if prefix ''/'' stripped then Inl ValueError
       else
         let normalized = strip_char (CHR ''/'') stripped in
         if normalized = [] then Inl ValueError
         else if normalized \<in> {''.'', ''..''} \<or> prefix ''../'' normalized
                 \<or> sublist ''/../'' normalized \<or> suffix ''/..'' normalized then Inl ValueError
         else if sublist ''//'' normalized then Inl ValueError
         else Inr normalized)"

definition normalize_repository_path :: "string \<Rightarrow> string res" where
  "normalize_repository_path path = sanitize_path_component path"

fun normalize_each :: "string list \<Rightarrow> string list \<Rightarrow> string list res" where
  "normalize_each seen [] = Inr []"
| "normalize_each seen (path # paths) =
     bindE (normalize_repository_path path) (\<lambda>value.
       if value \<in> set seen then normalize_each seen paths
       else bindE (normalize_each (value # seen) paths) (\<lambda>vs. Inr (value # vs)))"

definition normalize_logical_paths :: "string list \<Rightarrow> string list res" where
  "normalize_logical_paths paths = normalize_each [] paths"

definition matches_logical_path :: "string \<Rightarrow> string \<Rightarrow> bool" where
  "matches_logical_path entry_path logical_path \<longleftrightarrow>
     entry_path = logical_path \<or> prefix (logical_path @ ''/'') entry_path"

definition move_logical_path :: "string \<Rightarrow> string \<Rightarrow> string \<Rightarrow> string" where
  "move_logical_path entry_path source_path destination_path =
     (if entry_path = source_path then destination_path
      else destination_path @ drop (length source_path) entry_path)"

definition metadata_identity :: "prims \<Rightarrow> string \<Rightarrow> int \<Rightarrow> string" where
  "metadata_identity P relative_path sz = blake3 P (relative_path @ [CHR 0x0A] @ show_int sz)"

definition relocate_manifest_entry :: "prims \<Rightarrow> entry \<Rightarrow> string \<Rightarrow> entry res" where
  "relocate_manifest_entry P e destination_path =
     (if identity_mode e = Some ''pointer'' then
        let e' = e\<lparr>e_path := destination_path,
                   e_hash := metadata_identity P destination_path (e_size e)\<rparr>
        in bindE (post_init e') (\<lambda>_. Inr e')
      else replace_path e destination_path)"

section \<open>Branch names\<close>

definition validate_branch_name :: "string \<Rightarrow> string res" where
  "validate_branch_name name =
     (let value = strip name; parts = split_path value in
      bindE (validate_no_binary value) (\<lambda>_.
        if value = [] then Inl ValueError
        else if prefix ''/'' value \<or> suffix ''/'' value then Inl ValueError
        else if \<exists>part \<in> set parts. part \<in> {[], ''.'', ''..''} then Inl ValueError
        else if sublist ''..'' value then Inl ValueError
        else if \<exists>part \<in> set parts. prefix ''.'' part then Inl ValueError
        else if \<exists>part \<in> set parts. prefix ''-'' part then Inl ValueError
        else if \<exists>ch \<in> set value. ch \<in> {CHR 0x5C, CHR '':'', CHR ''*'', CHR ''?'', CHR 0x22,
                                         CHR ''<'', CHR ''>'', CHR ''|''} then Inl ValueError
        else if suffix ''.lock'' value then Inl ValueError
        else Inr value))"

section \<open>Import paths\<close>

definition normalize_s3_import_path :: "string \<Rightarrow> string \<Rightarrow> int \<Rightarrow> string option res" where
  "normalize_s3_import_path key pre sz =
     (if suffix ''/'' key \<and> sz = 0 then Inr None
      else
        let normalized_key = strip_char (CHR ''/'') key;
            normalized_prefix = strip_char (CHR ''/'') pre;
            normalize = (\<lambda>relative_path.
              bindE (normalize_repository_path relative_path) (\<lambda>p. Inr (Some p)))
        in if normalized_key = [] then Inr None
           else if normalized_prefix \<noteq> [] then
             (if normalized_key = normalized_prefix then normalize (last (split_path normalized_key))
              else if prefix (normalized_prefix @ ''/'') normalized_key then
                normalize (drop (length normalized_prefix + 1) normalized_key)
              else Inl ValueError)
           else normalize normalized_key)"

definition normalize_import_patterns :: "string list \<Rightarrow> string list res" where
  "normalize_import_patterns path_patterns = mapE sanitize_path_component path_patterns"

lemma normalize_each_distinct:
  "normalize_each seen paths = Inr vs \<Longrightarrow> distinct vs \<and> set vs \<inter> set seen = {}"
proof (induction seen paths arbitrary: vs rule: normalize_each.induct)
  case (2 seen path paths)
  from 2(3) obtain v where v: "normalize_repository_path path = Inr v"
    by (auto simp: bindE_Inr_iff)
  show ?case
  proof (cases "v \<in> set seen")
    case True
    with 2 v show ?thesis by simp
  next
    case False
    with 2(3) v obtain ws where ws: "normalize_each (v # seen) paths = Inr ws" "vs = v # ws"
      by (auto simp: bindE_Inr_iff)
    from 2(2) [OF v False ws(1)] ws(2) False show ?thesis by auto
  qed
qed simp

lemma rstrip_char_last: "rstrip_char c s \<noteq> [] \<Longrightarrow> last (rstrip_char c s) \<noteq> c"
  unfolding rstrip_char_def by (metis (mono_tags, lifting) hd_dropWhile last_rev rev_is_Nil_conv)

lemma rstrip_char_hd: "rstrip_char c s \<noteq> [] \<Longrightarrow> hd (rstrip_char c s) = hd s"
proof -
  assume ne: "rstrip_char c s \<noteq> []"
  have "suffix (dropWhile (\<lambda>d. d = c) (rev s)) (rev s)" by (rule suffix_dropWhile)
  then have "prefix (rstrip_char c s) s" by (metis rstrip_char_def rev_rev_ident suffix_to_prefix)
  then obtain zs where "s = rstrip_char c s @ zs" by (auto simp: prefix_def)
  with ne show ?thesis by (metis hd_append2)
qed

lemma strip_char_ends:
  assumes "strip_char c s \<noteq> []"
  shows "hd (strip_char c s) \<noteq> c" "last (strip_char c s) \<noteq> c"
proof -
  show "last (strip_char c s) \<noteq> c" using assms by (simp add: strip_char_def rstrip_char_last)
  have ne: "lstrip_char c s \<noteq> []" using assms by (auto simp: strip_char_def rstrip_char_def)
  then have "hd (lstrip_char c s) \<noteq> c" unfolding lstrip_char_def by (rule hd_dropWhile)
  with assms rstrip_char_hd [of c "lstrip_char c s"] show "hd (strip_char c s) \<noteq> c"
    by (simp add: strip_char_def)
qed

text \<open>
  A normalized path is not empty, does not start or end with a separator, has no empty
  component and never climbs with \<open>..\<close>.
\<close>

lemma normalized_path:
  assumes "normalize_repository_path path = Inr p"
  shows "p \<noteq> []" "hd p \<noteq> CHR ''/''" "last p \<noteq> CHR ''/''" "[] \<notin> set (split_path p)"
    "''..'' \<notin> set (split_path p)"
proof -
  have p: "p = strip_char (CHR ''/'') (strip path)" "p \<noteq> []" "\<not> sublist ''//'' p" "p \<noteq> ''..''"
      "\<not> prefix ''../'' p" "\<not> sublist ''/../'' p" "\<not> suffix ''/..'' p"
    using assms
    by (auto simp: normalize_repository_path_def sanitize_path_component_def bindE_Inr_iff Let_def
        split: if_splits)
  show "p \<noteq> []" by fact
  show ends: "hd p \<noteq> CHR ''/''" "last p \<noteq> CHR ''/''"
    using strip_char_ends [of "CHR ''/''" "strip path"] p(1,2) by simp_all
  have around: "\<exists>u v. p = u @ q @ v \<and> (u = [] \<or> suffix ''/'' u) \<and> (v = [] \<or> prefix ''/'' v)"
    if q: "q \<in> set (split_path p)" for q
  proof -
    from split_list [OF q] obtain us vs where uv: "split_path p = us @ q # vs" by blast
    let ?j = "join_on (CHR ''/'')"
    have pj: "p = ?j (us @ q # vs)" unfolding uv [symmetric] by (simp add: split_path_def)
    define u where "u = (if us = [] then [] else ?j us @ ''/'')"
    define v where "v = (if vs = [] then [] else CHR ''/'' # ?j vs)"
    have "?j (q # vs) = q @ v" by (cases vs) (simp_all add: v_def)
    then have "p = u @ q @ v"
      unfolding pj by (cases "us = []") (simp_all add: u_def join_on_append)
    then show ?thesis by (intro exI [of _ u] exI [of _ v]) (simp add: u_def v_def suffix_def)
  qed
  show "[] \<notin> set (split_path p)"
  proof
    assume "[] \<in> set (split_path p)"
    from around [OF this] obtain u v where uv: "p = u @ v" "u = [] \<or> suffix ''/'' u" "v = [] \<or> prefix ''/'' v"
      by auto
    show False
    proof (cases "u = [] \<or> v = []")
      case True
      with uv p(2) ends show False by (auto simp: suffix_def prefix_def)
    next
      case False
      with uv obtain u' v' where "u = u' @ ''/''" "v = ''/'' @ v'" by (auto simp: suffix_def prefix_def)
      with uv(1) have "p = u' @ ''//'' @ v'" by simp
      with p(3) show False by (metis sublist_appendI)
    qed
  qed
  show "''..'' \<notin> set (split_path p)"
  proof
    assume "''..'' \<in> set (split_path p)"
    from around [OF this] obtain u v where uv: "p = u @ ''..'' @ v" "u = [] \<or> suffix ''/'' u" "v = [] \<or> prefix ''/'' v"
      by auto
    consider "u = []" "v = []" | "u = []" "prefix ''/'' v" | "suffix ''/'' u" "v = []"
      | "suffix ''/'' u" "prefix ''/'' v" using uv(2,3) by blast
    then show False
    proof cases
      case 4
      then obtain u' v' where "u = u' @ ''/''" "v = ''/'' @ v'" by (auto simp: suffix_def prefix_def)
      with uv(1) have "p = u' @ ''/../'' @ v'" by simp
      with p(6) show False by (metis sublist_appendI)
    qed (use uv(1) p(4,5,7) in \<open>auto simp: suffix_def prefix_def\<close>)
  qed
qed

end
