(* ===== verification/Refs.thy ===== *)
theory Refs
  imports Tree_Write Commit_Object Layout
begin

text \<open>
  Branch pointers and everything that goes through them: the compare-and-set of the local
  store (\<open>core/objects/local.py\<close>), client state (\<open>core/client_state.py\<close>), and \<open>RefManager\<close>
  (\<open>core/services/refs.py\<close>).

  A branch pointer is a file below \<open>refs/heads/\<close>; the files are an association list from
  branch name to content, a directory exists where a branch lies below it. The locale
  \<open>ref_cas\<close> is the interface \<open>RefCas\<close> of \<open>core/objects/base.py\<close>; its lemma says that the
  writers of a branch form one chain, whatever their interleaving, and it is interpreted on the
  operations here.
\<close>

section \<open>State\<close>

record client =
  cl_head :: "string option"
  cl_snapshots :: "(string \<times> string option) list"
  cl_reflog :: "(string \<times> string list) list"
  cl_staging :: "(string \<times> string) list"

record repo_store = tree_store +
  rs_commits :: "(string \<times> string) list"
  rs_blobs :: "(string \<times> string) list"
  rs_footers :: "(string \<times> string) list"
  rs_refs :: "(string \<times> string) list"
  rs_client :: client

section \<open>Branch pointers of the local store\<close>

text \<open>\<open>LocalObjectStore.read_branch_ref\<close>: \<open>None\<close> without a file, \<open>Some None\<close> when it is blank.\<close>

definition read_branch_ref :: "'z repo_store_scheme \<Rightarrow> string \<Rightarrow> string option option" where
  "read_branch_ref s branch =
     (case map_of (rs_refs s) branch of
        None \<Rightarrow> None
      | Some text \<Rightarrow> Some (let c = strip text in if c = [] then None else Some c))"

text \<open>A file cannot be written where a directory is, nor below a file.\<close>

definition path_blocked :: "string list \<Rightarrow> string \<Rightarrow> bool" where
  "path_blocked files branch \<longleftrightarrow>
     (\<exists>other \<in> set files. prefix (branch @ ''/'') other \<or> prefix (other @ ''/'') branch)"

definition write_branch_ref :: "string \<Rightarrow> string option \<Rightarrow> ('z repo_store_scheme, unit) sm" where
  "write_branch_ref branch commit_id s =
     (if path_blocked (map fst (rs_refs s)) branch then (Inl OSError, s)
      else
        let payload = (case commit_id of None \<Rightarrow> [] | Some c \<Rightarrow> if c = [] then [] else c @ [CHR 0x0A])
        in (Inr (), s\<lparr>rs_refs := alist_put branch payload (rs_refs s)\<rparr>))"

definition head_of :: "string option option \<Rightarrow> string option" where
  "head_of state = (case state of None \<Rightarrow> None | Some c \<Rightarrow> c)"

definition compare_and_set_branch_ref ::
  "string \<Rightarrow> string option \<Rightarrow> string option \<Rightarrow> ('z repo_store_scheme, bool) sm" where
  "compare_and_set_branch_ref branch commit_id expected_commit_id s =
     (if head_of (read_branch_ref s branch) \<noteq> expected_commit_id then (Inr False, s)
      else bindS (write_branch_ref branch commit_id) (\<lambda>_. returnS True) s)"

text \<open>\<open>iter_branches\<close>: the files in the order of their path components, temporary files left out.\<close>

definition iter_branches :: "'z repo_store_scheme \<Rightarrow> string list" where
  "iter_branches s =
     map join_path (sort (map split_path
       (filter (\<lambda>b. \<not> prefix ''.'' (last (split_path b))) (map fst (rs_refs s)))))"

section \<open>The interface RefCas\<close>

text \<open>
  \<open>norm\<close> is what a stored commit id reads back as. A compare-and-set either replaces exactly
  the expected head, or reports a different head, or fails; only the first changes a branch.
\<close>

locale ref_cas =
  fixes head :: "'s \<Rightarrow> string \<Rightarrow> string option"
    and cas :: "string \<Rightarrow> string option \<Rightarrow> string option \<Rightarrow> 's \<Rightarrow> bool res \<times> 's"
    and norm :: "string option \<Rightarrow> string option"
  assumes cas_won: "cas b new expd s = (Inr True, s') \<Longrightarrow>
      head s b = expd \<and> head s' b = norm new \<and> (\<forall>c. c \<noteq> b \<longrightarrow> head s' c = head s c)"
    and cas_lost: "cas b new expd s = (r, s') \<Longrightarrow> r \<noteq> Inr True \<Longrightarrow> s' = s"
    and cas_false: "cas b new expd s = (Inr False, s') \<Longrightarrow> head s b \<noteq> expd"
begin

text \<open>A run of writers: (branch, new head, expected head), and the updates of a branch that won.\<close>

fun run :: "(string \<times> string option \<times> string option) list \<Rightarrow> 's \<Rightarrow> 's" where
  "run [] s = s"
| "run ((b, new, expd) # ops) s = run ops (snd (cas b new expd s))"

fun won :: "string \<Rightarrow> (string \<times> string option \<times> string option) list \<Rightarrow> 's \<Rightarrow> (string option \<times> string option) list" where
  "won branch [] s = []"
| "won branch ((b, new, expd) # ops) s =
     (if b = branch \<and> fst (cas b new expd s) = Inr True then [(expd, norm new)] else [])
     @ won branch ops (snd (cas b new expd s))"

fun chain :: "string option \<Rightarrow> (string option \<times> string option) list \<Rightarrow> string option \<Rightarrow> bool" where
  "chain start [] stop \<longleftrightarrow> start = stop"
| "chain start ((old, new) # us) stop \<longleftrightarrow> start = old \<and> chain new us stop"

lemma cas_head:
  assumes "cas b new expd s = (r, s')"
  shows "head s' branch = (if branch = b \<and> r = Inr True then norm new else head s branch)"
  using cas_won [of b new expd s s'] cas_lost [OF assms] assms by (cases "r = Inr True") auto

lemma writers_chain: "chain (head s branch) (won branch ops s) (head (run ops s) branch)"
proof (induction ops arbitrary: s)
  case (Cons op ops)
  obtain b new expd where op: "op = (b, new, expd)" by (cases op)
  obtain r s' where c: "cas b new expd s = (r, s')" by fastforce
  from Cons.IH [of s'] cas_head [OF c, of branch] cas_won [of b new expd s s'] c
  show ?case by (cases "r = Inr True \<and> b = branch") (auto simp: op)
qed simp

text \<open>Of several writers that saw the same head and all change it, the first wins and the rest lose.\<close>

lemma first_writer_wins:
  assumes "cas b n1 e s = (Inr True, s1)" "norm n1 \<noteq> e" "cas b n2 e s1 = (r, s2)"
  shows "r \<noteq> Inr True \<and> s2 = s1"
  using cas_won [OF assms(1)] cas_won [of b n2 e s1 s2] cas_lost [OF assms(3)] assms(2,3) by auto

end

definition stored_head :: "string option \<Rightarrow> string option" where
  "stored_head c =
     (case c of None \<Rightarrow> None
      | Some x \<Rightarrow> if x = [] then None else (let t = strip (x @ [CHR 0x0A]) in if t = [] then None else Some t))"

definition ref_head :: "'z repo_store_scheme \<Rightarrow> string \<Rightarrow> string option" where
  "ref_head s branch = head_of (read_branch_ref s branch)"

lemma strip_Nil [simp]: "strip [] = []"
  by (simp add: strip_def strip_left.simps)

definition ref_payload :: "string option \<Rightarrow> string" where
  "ref_payload commit_id = (case commit_id of None \<Rightarrow> [] | Some c \<Rightarrow> if c = [] then [] else c @ [CHR 0x0A])"

lemma compare_and_set_cases:
  "compare_and_set_branch_ref b new expd s =
     (if ref_head s b \<noteq> expd then (Inr False, s)
      else if path_blocked (map fst (rs_refs s)) b then (Inl OSError, s)
      else (Inr True, s\<lparr>rs_refs := alist_put b (ref_payload new) (rs_refs s)\<rparr>))"
  by (simp add: compare_and_set_branch_ref_def ref_head_def write_branch_ref_def bindS_def ref_payload_def)

lemma ref_head_put:
  "ref_head (s\<lparr>rs_refs := alist_put b (ref_payload new) (rs_refs s)\<rparr>) c =
     (if c = b then stored_head new else ref_head s c)"
  by (cases new)
    (simp_all add: ref_head_def read_branch_ref_def head_of_def stored_head_def ref_payload_def Let_def)

interpretation local_refs: ref_cas ref_head compare_and_set_branch_ref stored_head
proof unfold_locales
  fix b new expd and s s' :: "'a repo_store_scheme"
  assume "compare_and_set_branch_ref b new expd s = (Inr True, s')"
  then show "ref_head s b = expd \<and> ref_head s' b = stored_head new \<and>
      (\<forall>c. c \<noteq> b \<longrightarrow> ref_head s' c = ref_head s c)"
    by (simp add: compare_and_set_cases split: if_splits) (auto simp: ref_head_put)
next
  fix b new expd and s s' :: "'a repo_store_scheme" and r
  assume "compare_and_set_branch_ref b new expd s = (r, s')" "r \<noteq> Inr True"
  then show "s' = s" by (auto simp: compare_and_set_cases split: if_splits)
next
  fix b new expd and s s' :: "'a repo_store_scheme"
  assume "compare_and_set_branch_ref b new expd s = (Inr False, s')"
  then show "ref_head s b \<noteq> expd" by (auto simp: compare_and_set_cases split: if_splits)
qed

section \<open>Client state\<close>

definition current_branch :: "client \<Rightarrow> string res" where
  "current_branch cl =
     (case cl_head cl of
        None \<Rightarrow> Inl FileNotFoundError
      | Some text \<Rightarrow>
          let content = strip text in
          if \<not> prefix ''refs/heads/'' content then Inl ValueError
          else Inr (drop (length ''refs/heads/'') content))"

definition set_head :: "string \<Rightarrow> client \<Rightarrow> client" where
  "set_head branch cl = cl\<lparr>cl_head := Some (''refs/heads/'' @ branch @ [CHR 0x0A])\<rparr>"

definition ensure_current_branch :: "string \<Rightarrow> client \<Rightarrow> client" where
  "ensure_current_branch default_branch cl =
     (if cl_head cl = None then set_head default_branch cl else cl)"

definition read_branch_snapshot :: "client \<Rightarrow> string \<Rightarrow> string option option" where
  "read_branch_snapshot cl branch = map_of (cl_snapshots cl) (encode_branch_name branch)"

definition write_branch_snapshot :: "string \<Rightarrow> string option \<Rightarrow> client \<Rightarrow> client" where
  "write_branch_snapshot branch commit_id cl =
     cl\<lparr>cl_snapshots := alist_put (encode_branch_name branch) commit_id (cl_snapshots cl)\<rparr>"

text \<open>\<open>old_commit or "0" * 64\<close>; \<open>timestamp\<close> is \<open>datetime.now(UTC).isoformat()\<close>.\<close>

definition commit_or_zeros :: "string option \<Rightarrow> string" where
  "commit_or_zeros c = (case c of None \<Rightarrow> replicate 64 (CHR ''0'') | Some x \<Rightarrow> if x = [] then replicate 64 (CHR ''0'') else x)"

definition append_reflog ::
  "string \<Rightarrow> string \<Rightarrow> string option \<Rightarrow> string option \<Rightarrow> string \<Rightarrow> client \<Rightarrow> client" where
  "append_reflog timestamp branch old_commit new_commit operation cl =
     (let key = encode_branch_name branch;
          line = commit_or_zeros old_commit @ '' '' @ commit_or_zeros new_commit @ '' '' @ operation @ '' '' @ timestamp;
          lines = (case map_of (cl_reflog cl) key of None \<Rightarrow> [] | Some ls \<Rightarrow> ls)
      in cl\<lparr>cl_reflog := alist_put key (lines @ [line]) (cl_reflog cl)\<rparr>)"

definition iter_reflog :: "client \<Rightarrow> string \<Rightarrow> string list" where
  "iter_reflog cl branch =
     (case map_of (cl_reflog cl) (encode_branch_name branch) of
        None \<Rightarrow> []
      | Some lines \<Rightarrow> filter (\<lambda>raw. strip raw \<noteq> []) (rev lines))"

definition read_staging_payload :: "client \<Rightarrow> string \<Rightarrow> string option" where
  "read_staging_payload cl branch = map_of (cl_staging cl) (encode_branch_name branch)"

definition write_staging_payload :: "string \<Rightarrow> string option \<Rightarrow> client \<Rightarrow> client" where
  "write_staging_payload branch payload cl =
     (case payload of
        None \<Rightarrow> cl\<lparr>cl_staging := filter (\<lambda>kv. fst kv \<noteq> encode_branch_name branch) (cl_staging cl)\<rparr>
      | Some text \<Rightarrow> cl\<lparr>cl_staging := alist_put (encode_branch_name branch) text (cl_staging cl)\<rparr>)"

lemma read_write_staging:
  "read_staging_payload (write_staging_payload b payload cl) c =
     (if c = b then payload else read_staging_payload cl c)"
proof -
  have "map_of (filter (\<lambda>kv. fst kv \<noteq> k) kvs) k' = (if k' = k then None else map_of kvs k')"
    for k k' :: string and kvs :: "(string \<times> string) list"
    by (induction kvs) auto
  then show ?thesis
    by (auto simp: read_staging_payload_def write_staging_payload_def dest: encode_branch_name_inj
        split: option.splits)
qed

lemma read_write_snapshot:
  "read_branch_snapshot (write_branch_snapshot b commit_id cl) c =
     (if c = b then Some commit_id else read_branch_snapshot cl c)"
  by (auto simp: read_branch_snapshot_def write_branch_snapshot_def dest: encode_branch_name_inj)

end
