(* ===== verification/Tree_Inspect.thy ===== *)
theory Tree_Inspect
  imports Refs
begin

text \<open>
  \<open>core/services/tree_inspect.py\<close>: the reachable-set walks of garbage collection and sync
  planning, and the structural diff. \<open>mark_loop\<close> is the \<open>while stack\<close> loop with a seen set
  that the marking walks share. The lemmas: a marking walk visits exactly the nodes reachable
  from its roots, each once, whatever was seen before; the memoised leaf references are those
  of the tree's leaves in walk order; the structural diff is the path-by-path difference.
\<close>

section \<open>Marking walks\<close>

text \<open>
  The stack's top is the head; \<open>vis\<close> handles a node not seen before and returns what it
  pushes. The seen list holds the latest first.
\<close>

function (sequential) mark_loop ::
  "('n \<Rightarrow> 's \<Rightarrow> ('n list \<times> 's) res) \<Rightarrow> nat \<Rightarrow> 'n list \<Rightarrow> 's \<Rightarrow> 'n list \<Rightarrow> ('n list \<times> 's) res" where
  "mark_loop vis n seen s [] = Inr (seen, s)"
| "mark_loop vis 0 seen s (h # stack) = Inl OutOfFuel"
| "mark_loop vis (Suc n) seen s (h # stack) =
     (if h \<in> set seen then mark_loop vis n seen s stack
      else bindE (vis h s) (\<lambda>(kids, s'). mark_loop vis n (h # seen) s' (kids @ stack)))"
  by pat_completeness auto
termination
  by (relation "measure (\<lambda>(vis, n, seen, s, stack). n)") auto

definition kid_rel :: "('n \<Rightarrow> 'n list) \<Rightarrow> ('n \<times> 'n) set" where
  "kid_rel kids = {(x, y). y \<in> set (kids x)}"

definition reach :: "('n \<Rightarrow> 'n list) \<Rightarrow> 'n set \<Rightarrow> 'n set" where
  "reach kids A = (kid_rel kids)\<^sup>* `` A"

definition closed_under :: "('n \<Rightarrow> 'n list) \<Rightarrow> 'n set \<Rightarrow> bool" where
  "closed_under kids A \<longleftrightarrow> (\<forall>x \<in> A. set (kids x) \<subseteq> A)"

lemma reach_step: "x \<in> reach kids A \<Longrightarrow> y \<in> set (kids x) \<Longrightarrow> y \<in> reach kids A"
  by (auto simp: reach_def kid_rel_def intro: rtrancl_into_rtrancl)

lemma reach_self: "A \<subseteq> reach kids A"
  by (auto simp: reach_def)

lemma reach_closed: "closed_under kids A \<Longrightarrow> reach kids A = A"
proof -
  assume c: "closed_under kids A"
  have "y \<in> A" if "(x, y) \<in> (kid_rel kids)\<^sup>*" "x \<in> A" for x y
    using that by (induction rule: rtrancl_induct) (use c in \<open>auto simp: closed_under_def kid_rel_def\<close>)
  then show ?thesis using reach_self [of A kids] by (auto simp: reach_def)
qed

lemma reach_mono: "A \<subseteq> B \<Longrightarrow> reach kids A \<subseteq> reach kids B"
  by (auto simp: reach_def)

lemma reach_Un: "reach kids (A \<union> B) = reach kids A \<union> reach kids B"
  by (auto simp: reach_def)

lemma reach_is_closed: "closed_under kids (reach kids A)"
  by (auto simp: closed_under_def intro: reach_step)

lemma reach_least: "A \<subseteq> B \<Longrightarrow> closed_under kids B \<Longrightarrow> reach kids A \<subseteq> B"
  using reach_mono [of A B kids] reach_closed [of kids B] by simp

definition visit_state :: "('n \<Rightarrow> 's \<Rightarrow> ('n list \<times> 's) res) \<Rightarrow> 's \<Rightarrow> 'n \<Rightarrow> 's res" where
  "visit_state vis s h = bindE (vis h s) (\<lambda>(kids, s'). Inr s')"

text \<open>The contract of a visit: what it pushes depends on the node alone.\<close>

locale dag_visit =
  fixes vis :: "'n \<Rightarrow> 's \<Rightarrow> ('n list \<times> 's) res" and kids :: "'n \<Rightarrow> 'n list"
  assumes visit_kids: "vis h s = Inr (ks, s') \<Longrightarrow> ks = kids h"
begin

lemma mark_sound:
  "mark_loop vis n seen s stack = Inr (seen', s') \<Longrightarrow>
     \<exists>ys. seen' = rev ys @ seen \<and> distinct ys \<and> set ys \<inter> set seen = {} \<and>
       foldE (visit_state vis) s ys = Inr s' \<and> set stack \<subseteq> set seen' \<and>
       (\<forall>h \<in> set ys. set (kids h) \<subseteq> set seen') \<and> set ys \<subseteq> reach kids (set stack)"
proof (induction n arbitrary: seen s stack)
  case 0
  then show ?case by (cases stack) auto
next
  case (Suc n)
  show ?case
  proof (cases stack)
    case Nil
    with Suc.prems show ?thesis by auto
  next
    case (Cons h rest)
    show ?thesis
    proof (cases "h \<in> set seen")
      case True
      with Suc.prems Cons have "mark_loop vis n seen s rest = Inr (seen', s')" by simp
      from Suc.IH [OF this] obtain ys where
        ys: "seen' = rev ys @ seen" "distinct ys" "set ys \<inter> set seen = {}"
          "foldE (visit_state vis) s ys = Inr s'" "set rest \<subseteq> set seen'"
          "\<forall>x \<in> set ys. set (kids x) \<subseteq> set seen'" "set ys \<subseteq> reach kids (set rest)" by blast
      moreover have "set stack \<subseteq> set seen'" using ys(1,5) True Cons by simp
      moreover have "set ys \<subseteq> reach kids (set stack)"
        using ys(7) reach_mono [of "set rest" "set stack" kids] Cons by auto
      ultimately show ?thesis by blast
    next
      case False
      with Suc.prems Cons obtain ks s1 where v: "vis h s = Inr (ks, s1)"
        and run: "mark_loop vis n (h # seen) s1 (ks @ rest) = Inr (seen', s')"
        by (auto simp: bindE_Inr_iff)
      have ks: "ks = kids h" using v by (rule visit_kids)
      from Suc.IH [OF run] obtain ys where
        ys: "seen' = rev ys @ h # seen" "distinct ys" "set ys \<inter> set (h # seen) = {}"
          "foldE (visit_state vis) s1 ys = Inr s'" "set (ks @ rest) \<subseteq> set seen'"
          "\<forall>x \<in> set ys. set (kids x) \<subseteq> set seen'" "set ys \<subseteq> reach kids (set (ks @ rest))" by blast
      have h: "h \<in> reach kids (set stack)" using reach_self [of "set stack" kids] Cons by auto
      have "set (ks @ rest) \<subseteq> reach kids (set stack)"
        using reach_step [OF h] reach_self [of "set stack" kids] Cons ks by auto
      then have "reach kids (set (ks @ rest)) \<subseteq> reach kids (set stack)"
        by (rule reach_least) (rule reach_is_closed)
      with ys(7) h have "set (h # ys) \<subseteq> reach kids (set stack)" by simp
      moreover have "foldE (visit_state vis) s (h # ys) = Inr s'"
        using ys(4) v by (simp add: visit_state_def)
      moreover have "distinct (h # ys)" "set (h # ys) \<inter> set seen = {}" using ys(2,3) False by auto
      moreover have "set stack \<subseteq> set seen'" using ys(1,5) Cons by simp
      moreover have "\<forall>x \<in> set (h # ys). set (kids x) \<subseteq> set seen'" using ys(5,6) ks by simp
      moreover have "seen' = rev (h # ys) @ seen" using ys(1) by simp
      ultimately show ?thesis by blast
    qed
  qed
qed

text \<open>A walk from roots with a closed seen set marks exactly what the roots reach.\<close>

lemma mark_spec:
  assumes "mark_loop vis n seen s stack = Inr (seen', s')" and "closed_under kids (set seen)"
  shows "\<exists>ys. seen' = rev ys @ seen \<and> distinct ys \<and> foldE (visit_state vis) s ys = Inr s' \<and>
    set ys = reach kids (set stack) - set seen" and "set seen' = set seen \<union> reach kids (set stack)"
    and "closed_under kids (set seen')"
proof -
  from mark_sound [OF assms(1)] obtain ys where
    ys: "seen' = rev ys @ seen" "distinct ys" "set ys \<inter> set seen = {}"
      "foldE (visit_state vis) s ys = Inr s'" "set stack \<subseteq> set seen'"
      "\<forall>x \<in> set ys. set (kids x) \<subseteq> set seen'" "set ys \<subseteq> reach kids (set stack)" by blast
  show c: "closed_under kids (set seen')" using ys(1,6) assms(2) by (auto simp: closed_under_def)
  have "reach kids (set stack) \<subseteq> set seen'" using ys(5) c by (rule reach_least)
  with ys show "set seen' = set seen \<union> reach kids (set stack)"
    "\<exists>ys. seen' = rev ys @ seen \<and> distinct ys \<and> foldE (visit_state vis) s ys = Inr s' \<and>
      set ys = reach kids (set stack) - set seen" by auto
qed

text \<open>Enough fuel: a unit for every node and for every pointer that may be pushed.\<close>

lemma mark_total:
  assumes "finite U" "closed_under kids U" "set stack \<subseteq> U" "okay s"
    and "\<And>h s. h \<in> U \<Longrightarrow> okay s \<Longrightarrow> \<exists>s'. vis h s = Inr (kids h, s') \<and> okay s'"
    and "length stack + (\<Sum>h \<in> U - set seen. length (kids h)) \<le> n"
  shows "\<exists>seen' s'. mark_loop vis n seen s stack = Inr (seen', s') \<and> okay s'"
  using assms(3,4,6)
proof (induction n arbitrary: seen s stack)
  case 0
  then show ?case by auto
next
  case (Suc n)
  show ?case
  proof (cases stack)
    case Nil
    with Suc.prems show ?thesis by auto
  next
    case (Cons h rest)
    show ?thesis
    proof (cases "h \<in> set seen")
      case True
      with Suc.IH [of rest s seen] Suc.prems Cons show ?thesis by simp
    next
      case False
      have h: "h \<in> U" using Suc.prems(1) Cons by simp
      from assms(5) [OF h Suc.prems(2)] obtain s1 where v: "vis h s = Inr (kids h, s1)" "okay s1" by blast
      have "U - set seen = insert h (U - set (h # seen))" using False h by auto
      moreover have "h \<notin> U - set (h # seen)" "finite (U - set (h # seen))" using assms(1) by simp_all
      ultimately have "(\<Sum>x \<in> U - set seen. length (kids x)) =
          length (kids h) + (\<Sum>x \<in> U - set (h # seen). length (kids x))"
        by (simp only: sum.insert not_False_eq_True)
      moreover have "set (kids h @ rest) \<subseteq> U"
        using assms(2) h Suc.prems(1) Cons by (auto simp: closed_under_def)
      moreover from calculation(1) have
        "length (kids h @ rest) + (\<Sum>x \<in> U - set (h # seen). length (kids x)) \<le> n"
        using Suc.prems(3) Cons by simp
      ultimately obtain seen' s' where
        "mark_loop vis n (h # seen) s1 (kids h @ rest) = Inr (seen', s')" "okay s'"
        using Suc.IH [of "kids h @ rest" s1 "h # seen"] v(2) by blast
      with False v(1) Cons show ?thesis by simp
    qed
  qed
qed

end

text \<open>\<open>iter_tree_hashes\<close>: the hashes it yields, and the seen set it leaves behind.\<close>

definition subtree_hashes :: "entry list \<Rightarrow> string list" where
  "subtree_hashes es = map e_hash (filter is_subtree es)"

definition visit_tree :: "loader \<Rightarrow> string \<Rightarrow> string list \<Rightarrow> (string list \<times> string list) res" where
  "visit_tree L tree_hash yielded =
     bindE (L tree_hash) (\<lambda>r. case r of
       None \<Rightarrow> Inr ([], yielded @ [tree_hash])
     | Some es \<Rightarrow> Inr (subtree_hashes es, yielded @ [tree_hash]))"

definition iter_tree_hashes ::
  "loader \<Rightarrow> nat \<Rightarrow> string \<Rightarrow> string list \<Rightarrow> (string list \<times> string list) res" where
  "iter_tree_hashes L n root_tree seen = mark_loop (visit_tree L) n seen [] [root_tree]"

definition tree_kids :: "loader \<Rightarrow> string \<Rightarrow> string list" where
  "tree_kids L h = (case L h of Inr (Some es) \<Rightarrow> subtree_hashes es | _ \<Rightarrow> [])"

interpretation tree_marks: dag_visit "visit_tree L" "tree_kids L" for L
  by unfold_locales (auto simp: visit_tree_def tree_kids_def bindE_Inr_iff split: option.splits)

lemma fold_visit_tree:
  assumes "foldE (visit_state (visit_tree L)) s ys = Inr s'"
  shows "s' = s @ ys"
  using assms
proof (induction ys arbitrary: s)
  case (Cons h ys)
  have step: "s1 = s @ [h]" if "visit_state (visit_tree L) s h = Inr s1" for s1
    using that by (auto simp: bindE_Inr_iff visit_state_def visit_tree_def split: option.splits)
  from Cons.prems obtain s1 where "visit_state (visit_tree L) s h = Inr s1"
    "foldE (visit_state (visit_tree L)) s1 ys = Inr s'" by (auto simp: bindE_Inr_iff)
  with step have "foldE (visit_state (visit_tree L)) (s @ [h]) ys = Inr s'" by simp
  from Cons.IH [OF this] show ?case by simp
qed simp

lemma iter_tree_hashes_spec:
  assumes "iter_tree_hashes L n top_hash seen = Inr (seen', ys)" and "closed_under (tree_kids L) (set seen)"
  shows "seen' = rev ys @ seen" "distinct ys" "set ys = reach (tree_kids L) {top_hash} - set seen"
    "set seen' = set seen \<union> reach (tree_kids L) {top_hash}" "closed_under (tree_kids L) (set seen')"
  using tree_marks.mark_spec [OF assms(1) [unfolded iter_tree_hashes_def] assms(2)] fold_visit_tree
  by (force+)

lemma iter_tree_hashes_total:
  assumes "finite U" "closed_under (tree_kids L) U" "top_hash \<in> U" "\<forall>h \<in> U. \<exists>r. L h = Inr r"
    and "1 + (\<Sum>h \<in> U - set seen. length (tree_kids L h)) \<le> n"
  shows "\<exists>r. iter_tree_hashes L n top_hash seen = Inr r"
proof -
  have "\<exists>s'. visit_tree L h s = Inr (tree_kids L h, s') \<and> True" if "h \<in> U" for h s
    using assms(4) that by (auto simp: visit_tree_def tree_kids_def split: option.splits)
  from tree_marks.mark_total [where okay = "\<lambda>_. True", OF assms(1,2) _ _ this, of "[top_hash]" seen n "[]"] assms(3,5)
  show ?thesis by (auto simp: iter_tree_hashes_def)
qed

section \<open>Leaf references\<close>

type_synonym leaf_ref = "string option \<times> string option"

definition entry_refs :: "entry \<Rightarrow> leaf_ref list" where
  "entry_refs e =
     (if e_kind e \<in> {KIND_BLOB, KIND_BP} then [(Some (e_hash e), e_footer e)]
      else if e_footer e \<noteq> None then [(None, e_footer e)] else [])"

text \<open>
  \<open>_collect_leaf_refs\<close>: the top of the stack stays until every subtree it points to is in
  the memo. \<open>unresolved\<close> is pushed in order, so its last hash is on top.
\<close>

type_synonym refs_memo = "string \<Rightarrow> leaf_ref list option"

function (sequential) leaf_refs_loop :: "loader \<Rightarrow> nat \<Rightarrow> refs_memo \<Rightarrow> string list \<Rightarrow> refs_memo res" where
  "leaf_refs_loop L n memo [] = Inr memo"
| "leaf_refs_loop L 0 memo (h # stack) = Inl OutOfFuel"
| "leaf_refs_loop L (Suc n) memo (h # stack) =
     (if memo h \<noteq> None then leaf_refs_loop L n memo stack
      else bindE (L h) (\<lambda>r. case r of
        None \<Rightarrow> leaf_refs_loop L n (memo(h \<mapsto> [])) stack
      | Some es \<Rightarrow>
          let unresolved = filter (\<lambda>k. memo k = None) (map e_hash (filter is_subtree es)) in
          if unresolved \<noteq> [] then leaf_refs_loop L n memo (rev unresolved @ h # stack)
          else leaf_refs_loop L n
                 (memo(h \<mapsto> concat (map (\<lambda>e. if is_subtree e then the (memo (e_hash e)) else entry_refs e) es)))
                 stack))"
  by pat_completeness auto
termination
  by (relation "measure (\<lambda>(L, n, memo, stack). n)") auto

definition iter_leaf_refs :: "loader \<Rightarrow> nat \<Rightarrow> string \<Rightarrow> refs_memo \<Rightarrow> (leaf_ref list \<times> refs_memo) res" where
  "iter_leaf_refs L n root_tree memo =
     bindE (leaf_refs_loop L n memo [root_tree]) (\<lambda>memo'. Inr (the (memo' root_tree), memo'))"

text \<open>The references of a tree, in the order of its walk.\<close>

definition drefs :: "dtree \<Rightarrow> leaf_ref list" where
  "drefs t = concat (map (\<lambda>(ps, e). entry_refs e) (dleaves t))"

lemma drefs_kids:
  "drefs t = concat (map (\<lambda>(e, t'). if is_subtree e then drefs t' else entry_refs e) (dkids t))"
proof (cases t)
  case (DNode kids)
  have "concat (map (\<lambda>(ps, e). entry_refs e) (map (\<lambda>(ps, x). (q # ps, x)) xs)) =
      concat (map (\<lambda>(ps, e). entry_refs e) xs)" for q and xs :: "(string list \<times> entry) list"
    by (induction xs) auto
  then have "concat (map (\<lambda>(ps, e). entry_refs e) (dleaves (DNode kids))) =
      concat (map (\<lambda>(e, t'). if is_subtree e then drefs t' else entry_refs e) kids)"
    by (induction kids) (auto simp: drefs_def)
  then show ?thesis by (simp add: DNode drefs_def)
qed

text \<open>A memo is right when it holds, for stored nodes, the references of their trees.\<close>

definition memo_right :: "loader \<Rightarrow> refs_memo \<Rightarrow> bool" where
  "memo_right L memo \<longleftrightarrow> (\<forall>h t rs. rep L h t \<longrightarrow> memo h = Some rs \<longrightarrow> rs = drefs t)"

lemma rep_drefs_unique: "rep L h t \<Longrightarrow> rep L h t' \<Longrightarrow> drefs t = drefs t'"
proof (induction t arbitrary: h t' rule: measure_induct_rule [of size])
  case (less t)
  obtain kids kids' where t: "t = DNode kids" "t' = DNode kids'" by (cases t; cases t')
  with less.prems have eq: "map fst kids = map fst kids'" by simp
  have kid: "drefs u = drefs u'" if "(e, u) \<in> set kids" "(e, u') \<in> set kids'" "is_subtree e" for e u u'
  proof (rule less.IH)
    show "size u < size t" using kid_size [of "(e, u)" t] that(1) t by simp
    show "rep L (e_hash e) u" "rep L (e_hash e) u'" using less.prems that t by auto
  qed
  have "map (\<lambda>(e, u). if is_subtree e then drefs u else entry_refs e) kids =
      map (\<lambda>(e, u). if is_subtree e then drefs u else entry_refs e) kids'"
  proof (rule nth_equalityI)
    show "length (map (\<lambda>(e, u). if is_subtree e then drefs u else entry_refs e) kids) =
        length (map (\<lambda>(e, u). if is_subtree e then drefs u else entry_refs e) kids')"
      using arg_cong [OF eq, of length] by simp
    fix i assume i: "i < length (map (\<lambda>(e, u). if is_subtree e then drefs u else entry_refs e) kids)"
    then have "kids ! i \<in> set kids" "kids' ! i \<in> set kids'" "fst (kids ! i) = fst (kids' ! i)"
      using arg_cong [OF eq, of length] arg_cong [OF eq, of "\<lambda>xs. xs ! i"] by auto
    moreover obtain e u e' u' where "kids ! i = (e, u)" "kids' ! i = (e', u')" by force
    ultimately show "map (\<lambda>(e, u). if is_subtree e then drefs u else entry_refs e) kids ! i =
        map (\<lambda>(e, u). if is_subtree e then drefs u else entry_refs e) kids' ! i"
      using i kid [of e u u'] arg_cong [OF eq, of length] by auto
  qed
  then show ?case using t by (simp add: drefs_kids)
qed

text \<open>
  \<open>resolves L hs memo memo' c\<close>: with the hashes on top of the stack, \<open>c\<close> rounds put them all
  into the memo and leave the rest of the stack.
\<close>

definition resolves :: "loader \<Rightarrow> string list \<Rightarrow> refs_memo \<Rightarrow> refs_memo \<Rightarrow> nat \<Rightarrow> bool" where
  "resolves L hs memo memo' c \<longleftrightarrow>
     memo_right L memo' \<and> memo \<subseteq>\<^sub>m memo' \<and> (\<forall>h \<in> set hs. memo' h \<noteq> None) \<and>
     (\<forall>n stack. leaf_refs_loop L (c + n) memo (hs @ stack) = leaf_refs_loop L n memo' stack)"

lemma resolves_list:
  assumes "\<And>x memo. x \<in> set xs \<Longrightarrow> memo_right L memo \<Longrightarrow> \<exists>memo' c. c \<le> cost x \<and> resolves L [g x] memo memo' c"
    and "memo_right L memo"
  shows "\<exists>memo' c. c \<le> sum_list (map cost xs) \<and> resolves L (map g xs) memo memo' c"
  using assms
proof (induction xs arbitrary: memo)
  case Nil
  then show ?case by (intro exI [of _ memo] exI [of _ 0]) (simp add: resolves_def)
next
  case (Cons x xs)
  from Cons.prems obtain m1 c1 where 1: "c1 \<le> cost x" "resolves L [g x] memo m1 c1" by force
  then have "memo_right L m1" by (simp add: resolves_def)
  with Cons.IH [of m1] Cons.prems(1) obtain m2 c2 where
    2: "c2 \<le> sum_list (map cost xs)" "resolves L (map g xs) m1 m2 c2" by auto
  have m: "m1 (g x) \<noteq> None" "memo \<subseteq>\<^sub>m m1" "m1 \<subseteq>\<^sub>m m2" using 1(2) 2(2) by (auto simp: resolves_def)
  then have "m2 (g x) \<noteq> None" by (metis domIff map_le_def)
  moreover have "memo \<subseteq>\<^sub>m m2" using m(2,3) by (rule map_le_trans)
  moreover have "leaf_refs_loop L (c1 + c2 + n) memo (g x # map g xs @ stack) = leaf_refs_loop L n m2 stack" for n stack
  proof -
    have "leaf_refs_loop L (c1 + (c2 + n)) memo ([g x] @ (map g xs @ stack)) =
        leaf_refs_loop L (c2 + n) m1 (map g xs @ stack)"
      using 1(2) unfolding resolves_def by blast
    also have "\<dots> = leaf_refs_loop L n m2 stack" using 2(2) unfolding resolves_def by blast
    finally show ?thesis by (simp add: add.assoc)
  qed
  moreover have "memo_right L m2" "\<forall>h \<in> set (map g xs). m2 h \<noteq> None"
    using 2(2) unfolding resolves_def by blast+
  ultimately have "resolves L (map g (x # xs)) memo m2 (c1 + c2)"
    unfolding resolves_def by simp
  moreover have "c1 + c2 \<le> sum_list (map cost (x # xs))" using 1(1) 2(1) by simp
  ultimately show ?case by blast
qed

lemma resolves_one:
  assumes "rep L h t" "memo_right L memo"
  shows "\<exists>memo' c. c \<le> 2 * steps t \<and> resolves L [h] memo memo' c"
  using assms
proof (induction t arbitrary: h memo rule: measure_induct_rule [of size])
  case (less t)
  obtain kids where t: "t = DNode kids" by (cases t)
  with less.prems have L: "L h = Inr (Some (map fst kids))" by simp
  define sub where "sub = filter (\<lambda>k. is_subtree (fst k)) kids"
  have sub: "map e_hash (filter is_subtree (map fst kids)) = map (\<lambda>k. e_hash (fst k)) sub"
    unfolding sub_def by (induction kids) auto
  have st: "steps t = Suc (sum_list (map (\<lambda>k. Suc (steps (snd k))) sub))"
    unfolding t sub_def by (simp, induction kids) auto
  text \<open>With every subtree in the memo, one round records the node.\<close>
  have final: "resolves L [h] m (if m h = None then m(h \<mapsto> drefs t) else m) 1"
    if m: "memo_right L m" "\<forall>k \<in> set sub. m (e_hash (fst k)) \<noteq> None" for m
  proof (cases "m h")
    case None
    have "map (\<lambda>e. if is_subtree e then the (m (e_hash e)) else entry_refs e) (map fst kids) =
        map (\<lambda>(e, u). if is_subtree e then drefs u else entry_refs e) kids"
    proof -
      have "the (m (e_hash e)) = drefs u" if "(e, u) \<in> set kids" "is_subtree e" for e u
      proof -
        have "(e, u) \<in> set sub" using that by (simp add: sub_def)
        then obtain rs where "m (e_hash e) = Some rs" using m(2) by force
        moreover have "rep L (e_hash e) u" using less.prems(1) t that by auto
        ultimately show ?thesis using m(1) by (auto simp: memo_right_def)
      qed
      then show ?thesis by (auto split: prod.splits)
    qed
    then have "concat (map (\<lambda>e. if is_subtree e then the (m (e_hash e)) else entry_refs e) (map fst kids)) = drefs t"
      using drefs_kids [of t] by (simp only: t dtree.sel)
    moreover have "filter (\<lambda>k. m k = None) (map e_hash (filter is_subtree (map fst kids))) = []"
      unfolding sub using m(2) by (auto simp: filter_empty_conv)
    ultimately have "leaf_refs_loop L (Suc n) m (h # stack) = leaf_refs_loop L n (m(h \<mapsto> drefs t)) stack" for n stack
      using L None by (simp add: Let_def)
    moreover have "memo_right L (m(h \<mapsto> drefs t))"
      using m(1) less.prems(1) by (auto simp: memo_right_def dest: rep_drefs_unique)
    ultimately show ?thesis using None by (simp add: resolves_def map_le_def) (auto simp: dom_def)
  next
    case (Some rs)
    with m(1) show ?thesis by (simp add: resolves_def)
  qed
  define ks where "ks = rev (filter (\<lambda>k. memo (e_hash (fst k)) = None) sub)"
  show ?case
  proof (cases "memo h = None \<and> ks \<noteq> []")
    case False
    then have "memo h \<noteq> None \<or> (\<forall>k \<in> set sub. memo (e_hash (fst k)) \<noteq> None)"
      by (auto simp: ks_def filter_empty_conv)
    then show ?thesis
    proof
      assume "memo h \<noteq> None"
      then have "resolves L [h] memo memo 1" using less.prems(2) by (simp add: resolves_def)
      then show ?thesis using st by (intro exI [of _ memo] exI [of _ 1]) simp
    next
      assume "\<forall>k \<in> set sub. memo (e_hash (fst k)) \<noteq> None"
      from final [OF less.prems(2) this] show ?thesis using st by (intro exI conjI) auto
    qed
  next
    case True
    have kid: "rep L (e_hash (fst k)) (snd k)" "size (snd k) < size t" if "k \<in> set ks" for k
      using that less.prems(1) t kid_size [of k t] by (auto simp: ks_def sub_def)
    have "\<exists>memo' c. c \<le> sum_list (map (\<lambda>k. 2 * steps (snd k)) ks) \<and>
        resolves L (map (\<lambda>k. e_hash (fst k)) ks) memo memo' c"
      using less.prems(2) kid less.IH by (intro resolves_list) blast+
    then obtain m c where c: "c \<le> sum_list (map (\<lambda>k. 2 * steps (snd k)) ks)"
      and m: "resolves L (map (\<lambda>k. e_hash (fst k)) ks) memo m c" by blast
    have "m (e_hash (fst k)) \<noteq> None" if "k \<in> set sub" for k
    proof (cases "k \<in> set ks")
      case True
      with m show ?thesis by (auto simp: resolves_def)
    next
      case False
      with that have "memo (e_hash (fst k)) \<noteq> None" by (auto simp: ks_def)
      moreover have "memo \<subseteq>\<^sub>m m" using m by (simp add: resolves_def)
      ultimately show ?thesis by (metis domIff map_le_def)
    qed
    moreover have "memo_right L m" using m by (simp add: resolves_def)
    ultimately obtain m' where m': "resolves L [h] m m' 1" using final by blast
    have "filter (\<lambda>k. memo k = None) (map e_hash (filter is_subtree (map fst kids))) = map (\<lambda>k. e_hash (fst k)) (rev ks)"
      unfolding sub ks_def by (simp add: filter_map comp_def)
    then have step: "leaf_refs_loop L (Suc n) memo (h # stack) =
        leaf_refs_loop L n memo (map (\<lambda>k. e_hash (fst k)) ks @ h # stack)" for n stack
      using True L by (simp add: rev_map)
    have "leaf_refs_loop L (Suc (c + 1) + n) memo ([h] @ stack) = leaf_refs_loop L n m' stack" for n stack
    proof -
      have "leaf_refs_loop L (Suc (c + 1) + n) memo ([h] @ stack) =
          leaf_refs_loop L (c + (1 + n)) memo (map (\<lambda>k. e_hash (fst k)) ks @ [h] @ stack)"
        using step [of "c + (1 + n)"] by simp
      also have "\<dots> = leaf_refs_loop L (1 + n) m ([h] @ stack)" using m unfolding resolves_def by blast
      also have "\<dots> = leaf_refs_loop L n m' stack" using m' unfolding resolves_def by blast
      finally show ?thesis .
    qed
    moreover have "memo \<subseteq>\<^sub>m m'" using m m' by (auto simp: resolves_def intro: map_le_trans)
    ultimately have "resolves L [h] memo m' (Suc (c + 1))"
      using m' by (simp add: resolves_def)
    moreover have "sum_list (map (\<lambda>k. 2 * steps (snd k)) ks) \<le> 2 * (steps t - 1)"
    proof -
      have "sum_list (map (\<lambda>k. 2 * steps (snd k)) ks) =
          sum_list (map (\<lambda>k. 2 * steps (snd k)) (filter (\<lambda>k. memo (e_hash (fst k)) = None) sub))"
        by (simp add: ks_def rev_map [symmetric] sum_list_rev)
      also have "\<dots> \<le> sum_list (map (\<lambda>k. 2 * steps (snd k)) sub)"
        by (induction sub) auto
      also have "\<dots> \<le> 2 * sum_list (map (\<lambda>k. Suc (steps (snd k))) sub)"
        by (induction sub) auto
      finally show ?thesis using st by simp
    qed
    moreover have "0 < steps t" using st by simp
    ultimately show ?thesis using c by (intro exI [of _ m'] exI [of _ "Suc (c + 1)"]) simp
  qed
qed

lemma iter_leaf_refs_spec:
  assumes "rep L h t" "memo_right L memo" "2 * steps t \<le> n"
  shows "\<exists>memo'. iter_leaf_refs L n h memo = Inr (drefs t, memo') \<and> memo_right L memo' \<and> memo \<subseteq>\<^sub>m memo'"
proof -
  from resolves_one [OF assms(1,2)] obtain memo' c where
    c: "c \<le> 2 * steps t" "resolves L [h] memo memo' c" by blast
  then have run: "leaf_refs_loop L (c + (n - c)) memo ([h] @ []) = leaf_refs_loop L (n - c) memo' []"
    unfolding resolves_def by blast
  have "c + (n - c) = n" using c(1) assms(3) by simp
  with run have "leaf_refs_loop L n memo [h] = Inr memo'" by simp
  moreover have "memo' h = Some (drefs t)"
    using c(2) assms(1) by (auto simp: resolves_def memo_right_def)
  ultimately show ?thesis using c(2) by (auto simp: iter_leaf_refs_def resolves_def)
qed

section \<open>Structural diff\<close>

datatype change = Added | Removed | Modified

record diff_entry =
  d_path :: string
  d_change :: change
  d_before :: "(string \<times> int) option"
  d_after :: "(string \<times> int) option"

text \<open>\<open>DiffEntry\<close>: the hash and the size of either side, \<open>None\<close> for a side that is missing.\<close>

definition hash_size :: "entry \<Rightarrow> string \<times> int" where
  "hash_size e = (e_hash e, e_size e)"

definition diff_of :: "string \<Rightarrow> change \<Rightarrow> entry option \<Rightarrow> entry option \<Rightarrow> diff_entry" where
  "diff_of path ch before after =
     \<lparr>d_path = path, d_change = ch, d_before = map_option hash_size before,
      d_after = map_option hash_size after\<rparr>"

definition subtree_leaves :: "loader \<Rightarrow> nat \<Rightarrow> string \<Rightarrow> entry option \<Rightarrow> (string \<times> entry) list res" where
  "subtree_leaves L n path side =
     (case side of
        Some e \<Rightarrow>
          if is_subtree e then
            bindE (iter_all_entries L n (e_hash e)) (\<lambda>leaves.
              Inr (map (\<lambda>leaf. (path @ ''/'' @ e_path leaf, leaf)) leaves))
          else Inr []
      | None \<Rightarrow> Inr [])"

text \<open>
  \<open>_emit_change\<close>: the leaves below a subtree, in path order; they are no subtrees themselves,
  so the recursive calls of the code append one change each.
\<close>

definition emit_change ::
  "loader \<Rightarrow> nat \<Rightarrow> string \<Rightarrow> change \<Rightarrow> entry option \<Rightarrow> entry option \<Rightarrow> diff_entry list res" where
  "emit_change L n path ch before after =
     (if (case before of Some e \<Rightarrow> is_subtree e | None \<Rightarrow> False) \<or>
         (case after of Some e \<Rightarrow> is_subtree e | None \<Rightarrow> False) then
        bindE (subtree_leaves L n path before) (\<lambda>bs.
        bindE (subtree_leaves L n path after) (\<lambda>as.
          let pending = map (\<lambda>(p, e). (p, Some e, None)) bs @ map (\<lambda>(p, e). (p, None, Some e)) as
          in Inr (map (\<lambda>(p, b, a). diff_of p ch b a) (sort_key fst pending))))
      else Inr [diff_of path ch before after])"

definition child_dict :: "entry list \<Rightarrow> string \<Rightarrow> entry option" where
  "child_dict es = map_of (rev (map (\<lambda>e. (e_path e, e)) es))"

text \<open>The body of the loop over the names; \<open>rec\<close> is the recursive call.\<close>

definition name_changes ::
  "loader \<Rightarrow> nat \<Rightarrow> (string \<Rightarrow> string \<Rightarrow> string \<Rightarrow> diff_entry list res) \<Rightarrow> string
     \<Rightarrow> entry option \<Rightarrow> entry option \<Rightarrow> diff_entry list res" where
  "name_changes L n rec path before after =
     (case (before, after) of
        (Some b, Some a) \<Rightarrow>
          if is_subtree b \<and> is_subtree a then
            (if e_hash b \<noteq> e_hash a then rec (e_hash b) (e_hash a) path else Inr [])
          else if is_subtree b \<or> is_subtree a then
            bindE (emit_change L n path Removed (Some b) None) (\<lambda>rs.
            bindE (emit_change L n path Added None (Some a)) (\<lambda>as. Inr (rs @ as)))
          else if e_hash b \<noteq> e_hash a \<or> e_size b \<noteq> e_size a then
            Inr [diff_of path Modified (Some b) (Some a)]
          else Inr []
      | (None, _) \<Rightarrow> emit_change L n path Added None after
      | (_, None) \<Rightarrow> emit_change L n path Removed before None)"

primrec diff_subtrees :: "loader \<Rightarrow> nat \<Rightarrow> string \<Rightarrow> string \<Rightarrow> string \<Rightarrow> diff_entry list res" where
  "diff_subtrees L 0 from_tree to_tree pre = Inl OutOfFuel"
| "diff_subtrees L (Suc n) from_tree to_tree pre =
     (if from_tree = to_tree then Inr []
      else bindE (load_children L from_tree) (\<lambda>from_entries.
        bindE (load_children L to_tree) (\<lambda>to_entries.
          bindE (mapE (\<lambda>name.
              name_changes L n (diff_subtrees L n) (if pre \<noteq> [] then pre @ ''/'' @ name else name)
                (child_dict from_entries name) (child_dict to_entries name))
            (sort (remdups (map e_path from_entries @ map e_path to_entries))))
          (\<lambda>css. Inr (concat css)))))"

definition diff_trees :: "loader \<Rightarrow> nat \<Rightarrow> string \<Rightarrow> string \<Rightarrow> diff_entry list res" where
  "diff_trees L n from_tree to_tree = diff_subtrees L n from_tree to_tree []"

text \<open>The change a path shows between two trees.\<close>

definition expected_change :: "string list \<Rightarrow> entry option \<Rightarrow> entry option \<Rightarrow> diff_entry option" where
  "expected_change ps before after =
     (case (before, after) of
        (None, None) \<Rightarrow> None
      | (None, Some a) \<Rightarrow> Some (diff_of (join_path ps) Added None (Some a))
      | (Some b, None) \<Rightarrow> Some (diff_of (join_path ps) Removed (Some b) None)
      | (Some b, Some a) \<Rightarrow>
          if hash_size b \<noteq> hash_size a
          then Some (diff_of (join_path ps) Modified (Some b) (Some a)) else None)"

lemma expand_each_logical:
  assumes "\<forall>(e, u) \<in> set kids. is_subtree e \<longrightarrow> rep L (e_hash e) u"
  shows "expand_each L (map fst kids) = Inr (map fst (logical_kids kids))"
  using assms by (induction kids) (auto dest: rep_load)

lemma load_children_rep:
  assumes "rep L h t"
  shows "load_children L h = Inr (map fst (logical t))"
proof (cases t)
  case (DNode kids)
  have ks: "\<forall>(e, u) \<in> set kids. is_subtree e \<longrightarrow> rep L (e_hash e) u" using assms DNode by simp
  have "logical_kids kids = kids" if "\<not> (\<exists>e \<in> set (map fst kids). e_kind e = KIND_SHARD)"
    using that by (intro logical_kids_plain) (auto simp: plain_kids_def)
  with expand_each_logical [OF ks] rep_load [OF assms] DNode show ?thesis
    by (auto simp: load_children_def expand_shards_def logical_def)
qed

lemma logical_kidE:
  assumes "k \<in> set (logical t)"
  obtains k0 where "k0 \<in> set (dkids t)" "k \<in> set (if e_kind (fst k0) = KIND_SHARD then dkids (snd k0) else [k0])"
  using assms that unfolding logical_def logical_kids_def set_concat set_map by blast

lemma rep_logical:
  assumes "rep L h t" "k \<in> set (logical t)" "is_subtree (fst k)"
  shows "rep L (e_hash (fst k)) (snd k)"
proof (cases t)
  case (DNode kids)
  from assms(2) obtain k0 where k0: "k0 \<in> set (dkids t)" "k \<in> set (if e_kind (fst k0) = KIND_SHARD then dkids (snd k0) else [k0])"
    by (rule logical_kidE)
  then have k0: "k0 \<in> set kids" "k \<in> set (if e_kind (fst k0) = KIND_SHARD then dkids (snd k0) else [k0])"
    using DNode by simp_all
  show ?thesis
  proof (cases "e_kind (fst k0) = KIND_SHARD")
    case True
    then have "rep L (e_hash (fst k0)) (snd k0)" using assms(1) DNode k0(1) by (cases k0) auto
    with k0(2) True assms(3) rep_kid [of L "e_hash (fst k0)" "snd k0" "fst k" "snd k"] show ?thesis by simp
  next
    case False
    with k0 assms DNode show ?thesis by (cases k0) auto
  qed
qed

lemma steps_kid: "(e, u) \<in> set (dkids t) \<Longrightarrow> is_subtree e \<Longrightarrow> steps u < steps t"
proof (cases t)
  case (DNode kids)
  assume a: "(e, u) \<in> set (dkids t)" "is_subtree e"
  then have "Suc (steps u) \<in> set (map (\<lambda>(e, t). if is_subtree e then Suc (steps t) else 0) kids)"
    using DNode by force
  from member_le_sum_list [OF this] show ?thesis by (simp add: DNode)
qed

lemma steps_logical:
  assumes "k \<in> set (logical t)" "is_subtree (fst k)"
  shows "steps (snd k) < steps t"
proof -
  from assms(1) obtain k0 where k0: "k0 \<in> set (dkids t)" "k \<in> set (if e_kind (fst k0) = KIND_SHARD then dkids (snd k0) else [k0])"
    by (rule logical_kidE) auto
  show ?thesis
  proof (cases "e_kind (fst k0) = KIND_SHARD")
    case True
    then have "steps (snd k0) < steps t" using steps_kid [of "fst k0" "snd k0" t] k0(1) by simp
    moreover have "steps (snd k) < steps (snd k0)"
      using steps_kid [of "fst k" "snd k" "snd k0"] k0(2) True assms(2) by simp
    ultimately show ?thesis by simp
  next
    case False
    with k0 assms(2) steps_kid [of "fst k" "snd k" t] show ?thesis by simp
  qed
qed

lemma rep_kids_unique: "rep L h t \<Longrightarrow> rep L h t' \<Longrightarrow> map fst (logical t) = map fst (logical t')"
  using load_children_rep [of L h t] load_children_rep [of L h t'] by simp

lemma rep_lookup_unique:
  "rep L h t \<Longrightarrow> rep L h t' \<Longrightarrow> dlookup t ps = dlookup t' ps"
proof (induction ps arbitrary: h t t')
  case (Cons p ps)
  from rep_kids_unique [OF Cons.prems]
  have same: "map_option fst (dchild t p) = map_option fst (dchild t' p)"
    unfolding dchild_def using find_map_fst [of e_path p "logical t"] find_map_fst [of e_path p "logical t'"] by simp
  show ?case
  proof (cases "dchild t p")
    case None
    with same show ?thesis by simp
  next
    case (Some k)
    with same obtain k' where k': "dchild t' p = Some k'" "fst k' = fst k"
      by (metis option.map_disc_iff option.map_sel option.sel option.collapse option.discI)
    then show ?thesis
    proof (cases "is_subtree (fst k)")
      case True
      have "rep L (e_hash (fst k)) (snd k)" "rep L (e_hash (fst k')) (snd k')"
        using Some k' True Cons.prems dchild_logical by (metis rep_logical)+
      with Cons.IH [of "e_hash (fst k)" "snd k" "snd k'"] k' Some True show ?thesis
        by (cases k; cases k') auto
    qed (use Some k' in \<open>cases k; cases k'; auto\<close>)
  qed
qed simp

definition covers ::
  "string list \<Rightarrow> (string list \<Rightarrow> entry option) \<Rightarrow> (string list \<Rightarrow> entry option) \<Rightarrow> diff_entry list \<Rightarrow> bool" where
  "covers pre F G cs \<longleftrightarrow> distinct (map d_path cs) \<and>
     (\<forall>d. d \<in> set cs \<longleftrightarrow> (\<exists>ps. expected_change (pre @ ps) (F ps) (G ps) = Some d))"

definition comps_ok :: "(string list \<Rightarrow> entry option) \<Rightarrow> bool" where
  "comps_ok F \<longleftrightarrow> (\<forall>ps e. F ps = Some e \<longrightarrow> (\<forall>p \<in> set ps. component_ok p))"

lemma expected_change_path:
  "expected_change ps b a = Some d \<Longrightarrow> d_path d = join_path ps \<and> (b \<noteq> None \<or> a \<noteq> None)"
  by (auto simp: expected_change_def diff_of_def split: option.splits if_splits)

lemma join_path_inj:
  assumes "ps \<noteq> []" "qs \<noteq> []" "\<forall>p \<in> set ps. component_ok p" "\<forall>p \<in> set qs. component_ok p"
    and "join_path ps = join_path qs"
  shows "ps = qs"
proof -
  have "split_path (join_path ps) = ps" unfolding join_path_def
    by (rule entry_path_join(2) [OF assms(1,3)])
  moreover have "split_path (join_path qs) = qs" unfolding join_path_def
    by (rule entry_path_join(2) [OF assms(2,4)])
  ultimately show ?thesis using assms(5) by metis
qed

lemma covers_path:
  assumes "covers pre F G cs" "d \<in> set cs" "comps_ok F" "comps_ok G"
  obtains ps where "d_path d = join_path (pre @ ps)" "expected_change (pre @ ps) (F ps) (G ps) = Some d"
    "\<forall>p \<in> set ps. component_ok p"
proof -
  from assms(1,2) obtain ps where ps: "expected_change (pre @ ps) (F ps) (G ps) = Some d"
    by (auto simp: covers_def)
  from expected_change_path [OF ps] assms(3,4) have "\<forall>p \<in> set ps. component_ok p"
    by (auto simp: comps_ok_def)
  with ps expected_change_path [OF ps] that show thesis by blast
qed

lemma covers_append:
  assumes "covers pre F G xs" "covers pre F' G' ys"
    and ok: "pre \<noteq> []" "\<forall>p \<in> set pre. component_ok p" "comps_ok F" "comps_ok G" "comps_ok F'" "comps_ok G'"
    and dis: "\<And>ps. (F ps = None \<and> G ps = None) \<or> (F' ps = None \<and> G' ps = None)"
  shows "covers pre (\<lambda>ps. if F ps = None then F' ps else F ps)
    (\<lambda>ps. if G ps = None then G' ps else G ps) (xs @ ys)"
proof -
  have "d_path d \<noteq> d_path d'" if d: "d \<in> set xs" "d' \<in> set ys" for d d'
  proof -
    from covers_path [OF assms(1) d(1) ok(3,4)] obtain ps where
      1: "d_path d = join_path (pre @ ps)" "expected_change (pre @ ps) (F ps) (G ps) = Some d"
        "\<forall>p \<in> set ps. component_ok p" .
    from covers_path [OF assms(2) d(2) ok(5,6)] obtain qs where
      2: "d_path d' = join_path (pre @ qs)" "expected_change (pre @ qs) (F' qs) (G' qs) = Some d'"
        "\<forall>p \<in> set qs. component_ok p" .
    have "ps \<noteq> qs" using expected_change_path [OF 1(2)] expected_change_path [OF 2(2)] dis [of ps] by auto
    with join_path_inj [of "pre @ ps" "pre @ qs"] 1 2 ok(1,2) show ?thesis by auto
  qed
  moreover have "expected_change (pre @ ps) (if F ps = None then F' ps else F ps) (if G ps = None then G' ps else G ps) = Some d
      \<longleftrightarrow> expected_change (pre @ ps) (F ps) (G ps) = Some d \<or> expected_change (pre @ ps) (F' ps) (G' ps) = Some d" for ps d
  proof -
    have "expected_change qs None None = None" for qs by (simp add: expected_change_def)
    then show ?thesis using dis [of ps] by auto
  qed
  ultimately show ?thesis using assms(1,2) unfolding covers_def by (simp, blast)
qed

lemma covers_names:
  assumes blocks: "\<And>q. q \<in> set qs \<Longrightarrow> covers (pre @ [q]) (\<lambda>ps. F (q # ps)) (\<lambda>ps. G (q # ps)) (cs q)"
    and "distinct qs" "F [] = None" "G [] = None"
    and ok: "\<forall>p \<in> set pre. component_ok p" "comps_ok F" "comps_ok G"
    and all: "\<And>q ps. F (q # ps) \<noteq> None \<or> G (q # ps) \<noteq> None \<Longrightarrow> q \<in> set qs"
  shows "covers pre F G (concat (map cs qs))"
proof -
  have ok': "comps_ok (\<lambda>ps. F (q # ps))" "comps_ok (\<lambda>ps. G (q # ps))" for q
    using ok(2,3) by (fastforce simp: comps_ok_def)+
  have path: "\<exists>ps. d_path d = join_path (pre @ q # ps) \<and> (\<forall>p \<in> set (q # ps). component_ok p)"
    if "q \<in> set qs" "d \<in> set (cs q)" for q d
  proof -
    from covers_path [OF blocks [OF that(1)] that(2) ok'] obtain ps where
      ps: "d_path d = join_path ((pre @ [q]) @ ps)"
        "expected_change ((pre @ [q]) @ ps) (F (q # ps)) (G (q # ps)) = Some d" .
    from expected_change_path [OF ps(2)] ok(2,3) have "\<forall>p \<in> set (q # ps). component_ok p"
      unfolding comps_ok_def by blast
    with ps(1) show ?thesis by auto
  qed
  have "distinct (map d_path (concat (map cs rs)))" if "set rs \<subseteq> set qs" "distinct rs" for rs
    using that
  proof (induction rs)
    case (Cons q rs)
    have "d_path d \<noteq> d_path d'" if d: "d \<in> set (cs q)" "q' \<in> set rs" "d' \<in> set (cs q')" for d d' q'
    proof -
      have m: "q \<in> set qs" "q' \<in> set qs" "q \<noteq> q'" using Cons.prems d(2) by auto
      from path [OF m(1) d(1)] path [OF m(2) d(3)] obtain ps ps' where
        "d_path d = join_path (pre @ q # ps)" "\<forall>p \<in> set (q # ps). component_ok p"
        "d_path d' = join_path (pre @ q' # ps')" "\<forall>p \<in> set (q' # ps'). component_ok p" by blast
      with join_path_inj [of "pre @ q # ps" "pre @ q' # ps'"] m(3) ok(1) show ?thesis by auto
    qed
    with Cons blocks [of q] show ?case by (fastforce simp: covers_def)
  qed simp
  then have "distinct (map d_path (concat (map cs qs)))" using assms(2) by simp
  moreover have "d \<in> set (concat (map cs qs)) \<longleftrightarrow> (\<exists>ps. expected_change (pre @ ps) (F ps) (G ps) = Some d)" for d
  proof
    assume "d \<in> set (concat (map cs qs))"
    then obtain q where "q \<in> set qs" "d \<in> set (cs q)" by auto
    with blocks [of q] show "\<exists>ps. expected_change (pre @ ps) (F ps) (G ps) = Some d"
      by (auto simp: covers_def)
  next
    assume "\<exists>ps. expected_change (pre @ ps) (F ps) (G ps) = Some d"
    then obtain ps where ps: "expected_change (pre @ ps) (F ps) (G ps) = Some d" by blast
    from expected_change_path [OF ps] assms(3,4) obtain q rs where q: "ps = q # rs" by (cases ps) auto
    with expected_change_path [OF ps] all have "q \<in> set qs" by blast
    moreover from blocks [OF this] ps q have "d \<in> set (cs q)" by (auto simp: covers_def)
    ultimately show "d \<in> set (concat (map cs qs))" by auto
  qed
  ultimately show ?thesis by (simp add: covers_def)
qed

definition leaf_at :: "entry \<Rightarrow> string list \<Rightarrow> entry option" where
  "leaf_at e ps = (if ps = [] then Some e else None)"

text \<open>What a directory holds below one of its names.\<close>

definition below :: "(entry \<times> dtree) option \<Rightarrow> string list \<Rightarrow> entry option" where
  "below k ps =
     (case k of None \<Rightarrow> None | Some (e, u) \<Rightarrow> if is_subtree e then dlookup u ps else leaf_at e ps)"

lemma dlookup_below: "dlookup t (q # ps) = below (dchild t q) ps"
  by (auto simp: below_def leaf_at_def split: option.splits)

lemma dlookup_comps_ok: "wf_dir t \<Longrightarrow> comps_ok (dlookup t)"
  unfolding comps_ok_def using dlookup_dleaves dleaves_ok by blast

lemma below_comps_ok:
  assumes "\<And>e u. k = Some (e, u) \<Longrightarrow> is_subtree e \<Longrightarrow> wf_dir u"
  shows "comps_ok (below k)"
proof (cases k)
  case None
  then show ?thesis by (simp add: below_def comps_ok_def)
next
  case (Some ku)
  obtain e u where k: "k = Some (e, u)" using Some by (cases ku) auto
  show ?thesis
  proof (cases "is_subtree e")
    case True
    then have "below k = dlookup u" by (simp add: k below_def fun_eq_iff)
    with dlookup_comps_ok assms [OF k True] show ?thesis by simp
  next
    case False
    then show ?thesis by (simp add: k below_def comps_ok_def leaf_at_def)
  qed
qed

lemma hash_size_at_path [simp]: "hash_size (at_path (ps, e)) = hash_size e"
  by (simp add: hash_size_def at_path_def)

lemma dleaves_functional:
  assumes "wf_dir u" shows "(ps, e) \<in> set (dleaves u) \<longleftrightarrow> dlookup u ps = Some e"
  using dlookup_dleaves [OF assms] by simp

lemma joined_leaf:
  assumes "wf_dir u" "(ps, e) \<in> set (dleaves u)" "pre \<noteq> []"
  shows "join_path pre @ ''/'' @ e_path (at_path (ps, e)) = join_path (pre @ ps)"
  using dleaves_ok [OF assms(1,2)] assms(3) by (simp add: at_path_def join_path_def join_on_append)

text \<open>One side missing: every leaf below the path is emitted.\<close>

definition one_side :: "change \<Rightarrow> entry \<Rightarrow> entry option \<times> entry option" where
  "one_side ch e = (if ch = Added then (None, Some e) else (Some e, None))"

lemma emit_subtree:
  assumes u: "rep L (e_hash e) u" "wf_dir u" "steps u \<le> n" "is_subtree e"
    and pre: "pre \<noteq> []" "\<forall>p \<in> set pre. component_ok p" and ch: "ch \<noteq> Modified"
  shows "\<exists>cs. emit_change L n (join_path pre) ch (fst (one_side ch e)) (snd (one_side ch e)) = Inr cs \<and>
    covers pre (\<lambda>ps. if ch = Added then None else dlookup u ps) (\<lambda>ps. if ch = Added then dlookup u ps else None) cs"
proof -
  define mk where "mk = (\<lambda>(ps, x). (join_path (pre @ ps), one_side ch (at_path (ps, x))))"
  define pend where "pend = map mk (dleaves u)"
  define fin where "fin = (\<lambda>(p, b, a). diff_of p ch b a)"
  have run: "subtree_leaves L n (join_path pre) (Some e) =
      Inr (map (\<lambda>(ps, x). (join_path (pre @ ps), at_path (ps, x))) (dleaves u))"
    using iter_all_entries_spec [OF u(1-3)] u(2,4) pre(1) joined_leaf [OF u(2)]
    by (auto simp: subtree_leaves_def)
  have "emit_change L n (join_path pre) ch (fst (one_side ch e)) (snd (one_side ch e)) =
      Inr (map fin (sort_key fst pend))"
    using run u(4)
    by (auto simp: emit_change_def one_side_def pend_def mk_def fin_def subtree_leaves_def Let_def
        comp_def case_prod_unfold)
  moreover have "covers pre (\<lambda>ps. if ch = Added then None else dlookup u ps)
      (\<lambda>ps. if ch = Added then dlookup u ps else None) (map fin (sort_key fst pend))"
    unfolding covers_def
  proof (intro conjI allI)
    have "inj_on (\<lambda>(ps, x). join_path (pre @ ps)) (set (dleaves u))"
    proof (rule inj_onI, clarify)
      fix ps x qs y
      assume a: "(ps, x) \<in> set (dleaves u)" "(qs, y) \<in> set (dleaves u)" "join_path (pre @ ps) = join_path (pre @ qs)"
      have "pre @ ps = pre @ qs"
        using dleaves_ok [OF u(2) a(1)] dleaves_ok [OF u(2) a(2)] pre a(3) by (intro join_path_inj) auto
      with a(1,2) show "ps = qs \<and> x = y" by (simp add: dleaves_functional [OF u(2)])
    qed
    moreover have "distinct (dleaves u)"
      using dleaves_sorted [OF u(2)] by (metis distinct_map strict_sorted_iff)
    ultimately have "distinct (map fst pend)"
      by (auto simp: pend_def mk_def distinct_map comp_def case_prod_unfold)
    moreover have "map d_path (map fin (sort_key fst pend)) = map fst (sort_key fst pend)"
      by (auto simp: fin_def diff_of_def)
    ultimately show "distinct (map d_path (map fin (sort_key fst pend)))"
      by (simp add: distinct_map del: map_map)
    fix d
    have "d \<in> set (map fin (sort_key fst pend)) \<longleftrightarrow> (\<exists>ps x. dlookup u ps = Some x \<and> d = fin (mk (ps, x)))"
    proof -
      have "set (map fin (sort_key fst pend)) = (\<lambda>p. fin (mk p)) ` set (dleaves u)"
        by (simp add: pend_def image_image)
      then show ?thesis unfolding dleaves_functional [OF u(2), symmetric] by force
    qed
    also have "\<dots> \<longleftrightarrow> (\<exists>ps. expected_change (pre @ ps) (if ch = Added then None else dlookup u ps)
        (if ch = Added then dlookup u ps else None) = Some d)"
      using ch by (cases ch) (auto simp: expected_change_def mk_def fin_def one_side_def diff_of_def split: option.splits)
    finally show "d \<in> set (map fin (sort_key fst pend)) \<longleftrightarrow>
      (\<exists>ps. expected_change (pre @ ps) (if ch = Added then None else dlookup u ps)
        (if ch = Added then dlookup u ps else None) = Some d)" .
  qed
  ultimately show ?thesis by blast
qed

lemma emit_side:
  assumes k: "k = (e, u)" "is_subtree e \<Longrightarrow> rep L (e_hash e) u \<and> wf_dir u \<and> steps u \<le> n"
    and pre: "pre \<noteq> []" "\<forall>p \<in> set pre. component_ok p"
  shows "\<exists>cs. emit_change L n (join_path pre) Added None (Some e) = Inr cs \<and> covers pre (\<lambda>_. None) (below (Some k)) cs"
    and "\<exists>cs. emit_change L n (join_path pre) Removed (Some e) None = Inr cs \<and> covers pre (below (Some k)) (\<lambda>_. None) cs"
proof -
  have leaf: "emit_change L n (join_path pre) Added None (Some e) = Inr [diff_of (join_path pre) Added None (Some e)]"
    "emit_change L n (join_path pre) Removed (Some e) None = Inr [diff_of (join_path pre) Removed (Some e) None]"
    "covers pre (\<lambda>_. None) (below (Some k)) [diff_of (join_path pre) Added None (Some e)]"
    "covers pre (below (Some k)) (\<lambda>_. None) [diff_of (join_path pre) Removed (Some e) None]"
    if "\<not> is_subtree e"
    using that k(1)
    by (auto simp: emit_change_def covers_def below_def leaf_at_def expected_change_def split: option.splits if_splits)
  have sub: "below (Some k) = dlookup u" if "is_subtree e"
    using that k(1) by (simp add: below_def fun_eq_iff)
  show "\<exists>cs. emit_change L n (join_path pre) Added None (Some e) = Inr cs \<and> covers pre (\<lambda>_. None) (below (Some k)) cs"
    using leaf sub emit_subtree [of L e u n pre Added] k pre by (cases "is_subtree e") (auto simp: one_side_def)
  show "\<exists>cs. emit_change L n (join_path pre) Removed (Some e) None = Inr cs \<and> covers pre (below (Some k)) (\<lambda>_. None) cs"
    using leaf sub emit_subtree [of L e u n pre Removed] k pre by (cases "is_subtree e") (auto simp: one_side_def)
qed

lemma child_dict_logical:
  assumes "wf_dir t"
  shows "child_dict (map fst (logical t)) name = map_option fst (dchild t name)"
proof -
  have d: "distinct (kid_names (logical t))"
    using logical_sorted [OF assms] by (simp add: strict_sorted_iff)
  have "map_of (rev xs) = map_of xs" if "distinct (map fst xs)" for xs :: "(string \<times> entry) list"
    using that by (metis map_of_inject_set distinct_rev rev_map set_rev)
  with d have "child_dict (map fst (logical t)) name = map_of (map (\<lambda>k. (e_path (fst k), fst k)) (logical t)) name"
    by (simp add: child_dict_def rev_map [symmetric] comp_def)
  also have "\<dots> = map_option fst (dchild t name)"
  proof -
    have "map_of (map (\<lambda>k. (e_path (fst k), fst k)) ks) name = map_option fst (find (\<lambda>k. e_path (fst k) = name) ks)"
      for ks :: "(entry \<times> dtree) list"
      by (induction ks) auto
    then show ?thesis by (simp add: dchild_def)
  qed
  finally show ?thesis .
qed

text \<open>A child as the lemmas need it: its subtree is stored, well-formed and small enough.\<close>

definition kid_ready :: "loader \<Rightarrow> nat \<Rightarrow> entry \<times> dtree \<Rightarrow> bool" where
  "kid_ready L n k \<longleftrightarrow>
     (is_subtree (fst k) \<longrightarrow> rep L (e_hash (fst k)) (snd k) \<and> wf_dir (snd k) \<and> steps (snd k) \<le> n)"

definition diff_rec_ok :: "loader \<Rightarrow> nat \<Rightarrow> (string \<Rightarrow> string \<Rightarrow> string \<Rightarrow> diff_entry list res) \<Rightarrow> bool" where
  "diff_rec_ok L n rec \<longleftrightarrow>
     (\<forall>h1 t1 h2 t2 pre. rep L h1 t1 \<longrightarrow> wf_dir t1 \<longrightarrow> steps t1 \<le> n \<longrightarrow>
        rep L h2 t2 \<longrightarrow> wf_dir t2 \<longrightarrow> steps t2 \<le> n \<longrightarrow> (\<forall>p \<in> set pre. component_ok p) \<longrightarrow>
        (\<exists>cs. rec h1 h2 (join_path pre) = Inr cs \<and> covers pre (dlookup t1) (dlookup t2) cs))"

lemma name_changes_ok:
  assumes kb: "\<And>k. kb = Some k \<Longrightarrow> kid_ready L n k" and ka: "\<And>k. ka = Some k \<Longrightarrow> kid_ready L n k"
    and some: "kb \<noteq> None \<or> ka \<noteq> None" and rec: "diff_rec_ok L n rec"
    and pre: "pre \<noteq> []" "\<forall>p \<in> set pre. component_ok p"
  shows "\<exists>cs. name_changes L n rec (join_path pre) (map_option fst kb) (map_option fst ka) = Inr cs \<and>
    covers pre (below kb) (below ka) cs"
proof -
  have none: "below None = (\<lambda>_. None)" by (simp add: below_def fun_eq_iff)
  have ok: "comps_ok (below kb)" "comps_ok (below ka)"
    using kb ka by (auto intro!: below_comps_ok simp: kid_ready_def)
  show ?thesis
  proof (cases kb)
    case None
    with some obtain e u where a: "ka = Some (e, u)" by auto
    from emit_side(1) [of "(e, u)" e u L n pre] ka [OF a] pre None show ?thesis
      by (simp add: a name_changes_def none kid_ready_def)
  next
    case (Some kb0)
    obtain e u where b: "kb = Some (e, u)" using Some by (cases kb0) auto
    show ?thesis
    proof (cases ka)
      case None
      from emit_side(2) [of "(e, u)" e u L n pre] kb [OF b] pre None show ?thesis
        by (simp add: b name_changes_def none kid_ready_def)
    next
      case (Some ka0)
      obtain e' u' where a: "ka = Some (e', u')" using Some by (cases ka0) auto
      note eu = kb [OF b] and eu' = ka [OF a]
      consider (dirs) "is_subtree e" "is_subtree e'" | (shape) "is_subtree e \<noteq> is_subtree e'"
        | (files) "\<not> is_subtree e" "\<not> is_subtree e'" by blast
      then show ?thesis
      proof cases
        case dirs
        have lk: "below kb = dlookup u" "below ka = dlookup u'"
          using dirs by (simp_all add: a b below_def fun_eq_iff)
        show ?thesis
        proof (cases "e_hash e = e_hash e'")
          case True
          have "dlookup u = dlookup u'"
            using rep_lookup_unique [of L "e_hash e" u u'] eu eu' dirs True by (auto simp: kid_ready_def fun_eq_iff)
          then have "covers pre (below kb) (below ka) []"
            by (simp add: covers_def lk expected_change_def split: option.split)
          with dirs True show ?thesis by (simp add: a b name_changes_def)
        next
          case False
          with dirs rec eu eu' pre(2) show ?thesis
            by (simp add: a b name_changes_def lk [unfolded a b] diff_rec_ok_def kid_ready_def)
        qed
      next
        case shape
        from emit_side(2) [of "(e, u)" e u L n pre] eu pre obtain rs where
          rs: "emit_change L n (join_path pre) Removed (Some e) None = Inr rs" "covers pre (below kb) (\<lambda>_. None) rs"
          by (auto simp: b kid_ready_def)
        from emit_side(1) [of "(e', u')" e' u' L n pre] eu' pre obtain as where
          as: "emit_change L n (join_path pre) Added None (Some e') = Inr as" "covers pre (\<lambda>_. None) (below ka) as"
          by (auto simp: a kid_ready_def)
        have wf: "is_subtree e \<Longrightarrow> wf_dir u" "is_subtree e' \<Longrightarrow> wf_dir u'"
          using eu eu' by (simp_all add: kid_ready_def)
        have "dlookup v [] = None" for v by (cases v) simp
        then have dis: "(below kb ps = None \<and> None = None) \<or> (None = None \<and> below ka ps = None)" for ps
          using shape by (auto simp: a b below_def leaf_at_def)
        have e: "comps_ok (\<lambda>_. None)" by (simp add: comps_ok_def)
        have "(\<lambda>ps. if below kb ps = None then None else below kb ps) = below kb" by auto
        with covers_append [OF rs(2) as(2) pre ok(1) e e ok(2)] dis
        have "covers pre (below kb) (below ka) (rs @ as)" by simp
        with rs(1) as(1) shape show ?thesis by (auto simp: a b name_changes_def)
      next
        case files
        then have "covers pre (below kb) (below ka)
            (if e_hash e \<noteq> e_hash e' \<or> e_size e \<noteq> e_size e'
             then [diff_of (join_path pre) Modified (Some e) (Some e')] else [])"
          by (auto simp: a b covers_def below_def leaf_at_def expected_change_def hash_size_def)
        with files show ?thesis by (auto simp: a b name_changes_def split: if_splits)
      qed
    qed
  qed
qed

lemma join_path_child:
  assumes "\<forall>p \<in> set pre. component_ok p"
  shows "(if join_path pre \<noteq> [] then join_path pre @ ''/'' @ name else name) = join_path (pre @ [name])"
proof (cases "pre = []")
  case False
  then have "join_path pre \<noteq> []" using assms
    by (cases "(CHR ''/'', pre)" rule: join_on.cases) (auto simp: join_path_def component_ok_iff)
  with False show ?thesis by (simp add: join_path_def join_on_append)
qed (simp add: join_path_def)

lemma diff_subtrees_ok: "diff_rec_ok L n (diff_subtrees L n)"
proof (induction n)
  case 0
  have steps0: "steps t \<noteq> 0" for t by (cases t) simp
  show ?case by (simp add: diff_rec_ok_def steps0)
next
  case (Suc n)
  show ?case unfolding diff_rec_ok_def
  proof (intro allI impI)
    fix h1 t1 h2 t2 pre
    assume t1: "rep L h1 t1" "wf_dir t1" "steps t1 \<le> Suc n" and t2: "rep L h2 t2" "wf_dir t2" "steps t2 \<le> Suc n"
      and pre: "\<forall>p \<in> set pre. component_ok p"
    show "\<exists>cs. diff_subtrees L (Suc n) h1 h2 (join_path pre) = Inr cs \<and> covers pre (dlookup t1) (dlookup t2) cs"
    proof (cases "h1 = h2")
      case True
      then have "dlookup t1 = dlookup t2" using rep_lookup_unique [of L h1 t1 t2] t1(1) t2(1) by auto
      then have "covers pre (dlookup t1) (dlookup t2) []"
        by (simp add: covers_def expected_change_def split: option.split)
      with True show ?thesis by simp
    next
      case False
      define ns where "ns = sort (remdups (map e_path (map fst (logical t1)) @ map e_path (map fst (logical t2))))"
      define f where "f = (\<lambda>name. name_changes L n (diff_subtrees L n) (join_path (pre @ [name]))
        (map_option fst (dchild t1 name)) (map_option fst (dchild t2 name)))"
      have ready: "kid_ready L n k" if "dchild t name = Some k" "rep L h t" "wf_dir t" "steps t \<le> Suc n" for t h name k
        using dchild_logical [OF that(1)] rep_logical [OF that(2), of k] logical_kid(3) [OF that(3), of k]
          steps_logical [of k t] that(4) by (auto simp: kid_ready_def)
      have mem: "name \<in> set ns \<longleftrightarrow> dchild t1 name \<noteq> None \<or> dchild t2 name \<noteq> None" for name
        by (force simp: ns_def dchild_def find_None_iff)
      have nameok: "component_ok name" if "name \<in> set ns" for name
      proof -
        from that mem obtain t k where "dchild t name = Some k" "t = t1 \<or> t = t2" by blast
        with dchild_logical [of t name k] logical_kid(2) [of t k] t1(2) t2(2) show ?thesis
          by (auto simp: child_ok_def)
      qed
      have blk: "\<exists>cs. f name = Inr cs \<and> covers (pre @ [name]) (below (dchild t1 name)) (below (dchild t2 name)) cs"
        if "name \<in> set ns" for name
        unfolding f_def
      proof (rule name_changes_ok [OF _ _ _ Suc.IH])
        show "kid_ready L n k" if "dchild t1 name = Some k" for k using ready [OF that t1] .
        show "kid_ready L n k" if "dchild t2 name = Some k" for k using ready [OF that t2] .
        show "dchild t1 name \<noteq> None \<or> dchild t2 name \<noteq> None" using mem that by blast
        show "\<forall>p \<in> set (pre @ [name]). component_ok p" using pre nameok [OF that] by simp
      qed simp
      define g where "g = (\<lambda>name. case f name of Inr cs \<Rightarrow> cs | Inl _ \<Rightarrow> [])"
      have g: "f name = Inr (g name)" "covers (pre @ [name]) (below (dchild t1 name)) (below (dchild t2 name)) (g name)"
        if "name \<in> set ns" for name
        using blk [OF that] by (auto simp: g_def)
      have body: "name_changes L n (diff_subtrees L n)
          (if join_path pre \<noteq> [] then join_path pre @ ''/'' @ name else name)
          (child_dict (map fst (logical t1)) name) (child_dict (map fst (logical t2)) name) = f name" for name
        unfolding f_def join_path_child [OF pre] child_dict_logical [OF t1(2)] child_dict_logical [OF t2(2)] ..
      have "diff_subtrees L (Suc n) h1 h2 (join_path pre) = bindE (mapE f ns) (\<lambda>css. Inr (concat css))"
        unfolding diff_subtrees.simps load_children_rep [OF t1(1)] load_children_rep [OF t2(1)] bindE_simps
          body ns_def
        using False by simp
      also have "mapE f ns = Inr (map g ns)" using g(1) by (rule mapE_Inr_map)
      finally have run: "diff_subtrees L (Suc n) h1 h2 (join_path pre) = Inr (concat (map g ns))" by simp
      have "covers pre (dlookup t1) (dlookup t2) (concat (map g ns))"
      proof (rule covers_names)
        show "covers (pre @ [q]) (\<lambda>ps. dlookup t1 (q # ps)) (\<lambda>ps. dlookup t2 (q # ps)) (g q)" if "q \<in> set ns" for q
          using g(2) [OF that] by (simp only: dlookup_below)
        show "distinct ns" by (simp add: ns_def)
        show "dlookup t1 [] = None" "dlookup t2 [] = None" by simp_all
        show "comps_ok (dlookup t1)" "comps_ok (dlookup t2)" using t1(2) t2(2) by (auto intro: dlookup_comps_ok)
        show "q \<in> set ns" if "dlookup t1 (q # ps) \<noteq> None \<or> dlookup t2 (q # ps) \<noteq> None" for q ps
          using that mem by (auto simp: dlookup_below below_def split: option.splits)
      qed (rule pre)
      with run show ?thesis by blast
    qed
  qed
qed

lemma diff_trees_spec:
  assumes "rep L h1 t1" "wf_dir t1" "steps t1 \<le> n" "rep L h2 t2" "wf_dir t2" "steps t2 \<le> n"
  shows "\<exists>cs. diff_trees L n h1 h2 = Inr cs \<and> distinct (map d_path cs) \<and>
    (\<forall>d. d \<in> set cs \<longleftrightarrow> (\<exists>ps. expected_change ps (dlookup t1 ps) (dlookup t2 ps) = Some d))"
  using diff_subtrees_ok [of L n, unfolded diff_rec_ok_def, rule_format, OF assms, of "[]"]
  by (simp add: diff_trees_def covers_def join_path_def)

section \<open>Derived manifests\<close>

text \<open>
  \<open>export_derived_manifest\<close>: the exported files by tree hash, which is their file name. The
  temporary file disappears when the walk raises, so a failed export leaves nothing.
\<close>

definition derived_lines :: "prims \<Rightarrow> entry list \<Rightarrow> string" where
  "derived_lines P es = concat (map (\<lambda>e. serialize P e @ [CHR 0x0A]) es)"

definition export_derived_manifest ::
  "prims \<Rightarrow> loader \<Rightarrow> nat \<Rightarrow> string \<Rightarrow> ((string \<times> string) list, string) sm" where
  "export_derived_manifest P L n tree_hash derived =
     (if map_of derived tree_hash \<noteq> None then (Inr tree_hash, derived)
      else bindS (liftS (iter_all_entries L n tree_hash))
        (\<lambda>es d. (Inr tree_hash, alist_put tree_hash (derived_lines P es) d)) derived)"

lemma export_derived_spec:
  assumes "rep L h t" "wf_dir t" "steps t \<le> n" "map_of derived h = None"
  shows "map_of (snd (export_derived_manifest P L n h derived)) h =
    Some (derived_lines P (map at_path (dleaves t)))"
  using assms by (simp add: export_derived_manifest_def bindS_def iter_all_entries_spec)

end
