(* ===== verification/Ref_Manager.thy ===== *)
theory Ref_Manager
  imports Refs
begin

text \<open>
  \<open>RefManager\<close> (\<open>core/services/refs.py\<close>) and \<open>TreeWriter.write_commit_object\<close>: resolving
  refs, creating and deleting branches, reading commits, fast-forward and compare-and-set
  updates. \<open>now\<close> is the text of \<open>datetime.now(UTC).isoformat()\<close>; \<open>m\<close> and \<open>n\<close> bound the depth
  of a history and the commits a walk takes up.

  The commit cache is modelled on its own: a read through it equals the uncached
  \<open>fetch_commit\<close> the other operations are written with.
\<close>

section \<open>Reading commits\<close>

definition fetch_commit :: "prims \<Rightarrow> 'z repo_store_scheme \<Rightarrow> string \<Rightarrow> commit res" where
  "fetch_commit P s commit_id =
     (case map_of (rs_commits s) commit_id of
        None \<Rightarrow> Inl (UnknownCommitError commit_id)
      | Some payload \<Rightarrow> parse_commit P commit_id payload)"

definition commit_reader :: "prims \<Rightarrow> 'z repo_store_scheme \<Rightarrow> reader" where
  "commit_reader P s commit_id = bindE (fetch_commit P s commit_id) (\<lambda>c. Inr (Some c))"

text \<open>\<open>_BoundedCache\<close>, oldest entry first.\<close>

record commit_cache =
  cc_entries :: "(string \<times> commit) list"
  cc_maxsize :: nat

definition cc_without :: "string \<Rightarrow> (string \<times> commit) list \<Rightarrow> (string \<times> commit) list" where
  "cc_without k kvs = filter (\<lambda>kv. fst kv \<noteq> k) kvs"

definition cc_getitem :: "commit_cache \<Rightarrow> string \<Rightarrow> commit option \<times> commit_cache" where
  "cc_getitem c key =
     (case map_of (cc_entries c) key of
        None \<Rightarrow> (None, c)
      | Some v \<Rightarrow> (Some v, c\<lparr>cc_entries := cc_without key (cc_entries c) @ [(key, v)]\<rparr>))"

definition cc_setitem :: "commit_cache \<Rightarrow> string \<Rightarrow> commit \<Rightarrow> commit_cache" where
  "cc_setitem c key v =
     (let kvs = cc_without key (cc_entries c) @ [(key, v)]
      in c\<lparr>cc_entries := (if length kvs > cc_maxsize c then tl kvs else kvs)\<rparr>)"

definition read_commit ::
  "prims \<Rightarrow> 'z repo_store_scheme \<Rightarrow> commit_cache \<Rightarrow> string \<Rightarrow> commit res \<times> commit_cache" where
  "read_commit P s cache commit_id =
     (case cc_getitem cache commit_id of
        (Some c, cache') \<Rightarrow> (Inr c, cache')
      | (None, cache') \<Rightarrow>
          (case fetch_commit P s commit_id of
             Inl err \<Rightarrow> (Inl err, cache')
           | Inr c \<Rightarrow> (Inr c, cc_setitem cache' commit_id c)))"

definition commit_cache_ok :: "prims \<Rightarrow> 'z repo_store_scheme \<Rightarrow> commit_cache \<Rightarrow> bool" where
  "commit_cache_ok P s cache \<longleftrightarrow>
     (\<forall>(i, c) \<in> set (cc_entries cache). fetch_commit P s i = Inr c) \<and>
     length (cc_entries cache) \<le> cc_maxsize cache"

lemma cc_without_subset: "set (cc_without k kvs) \<subseteq> set kvs"
  by (auto simp: cc_without_def)

lemma cc_without_length: "length (cc_without k kvs) \<le> length kvs"
  by (simp add: cc_without_def)

lemma cc_without_less: "map_of kvs k = Some v \<Longrightarrow> length (cc_without k kvs) < length kvs"
  unfolding cc_without_def by (rule length_filter_less [of "(k, v)"]) (auto dest: map_of_SomeD)

lemma cc_setitem_ok:
  assumes "commit_cache_ok P s cache" "fetch_commit P s i = Inr c" 
  shows "commit_cache_ok P s (cc_setitem cache i c)"
proof -
  let ?kvs = "cc_without i (cc_entries cache) @ [(i, c)]"
  have "set ?kvs \<subseteq> insert (i, c) (set (cc_entries cache))"
    using cc_without_subset [of i "cc_entries cache"] by auto
  moreover have "set (tl ?kvs) \<subseteq> set ?kvs" by (meson list.set_sel(2) subsetI append_is_Nil_conv not_Cons_self2)
  moreover have "length ?kvs \<le> Suc (cc_maxsize cache)"
    using assms(1) cc_without_length [of i "cc_entries cache"] by (simp add: commit_cache_ok_def)
  ultimately show ?thesis using assms
    unfolding commit_cache_ok_def cc_setitem_def Let_def by (auto split: if_splits)
qed

lemma read_commit_ok:
  assumes "commit_cache_ok P s cache"
  shows "fst (read_commit P s cache i) = fetch_commit P s i"
    and "commit_cache_ok P s (snd (read_commit P s cache i))"
proof -
  have "fst (read_commit P s cache i) = fetch_commit P s i \<and> commit_cache_ok P s (snd (read_commit P s cache i))"
  proof (cases "map_of (cc_entries cache) i")
    case None
    then show ?thesis using assms cc_setitem_ok [OF assms, of i]
      by (auto simp: read_commit_def cc_getitem_def split: sum.split)
  next
    case (Some c)
    then have "fetch_commit P s i = Inr c" using assms by (auto simp: commit_cache_ok_def dest: map_of_SomeD)
    moreover have "commit_cache_ok P s (cache\<lparr>cc_entries := cc_without i (cc_entries cache) @ [(i, c)]\<rparr>)"
      using assms calculation cc_without_subset [of i "cc_entries cache"] cc_without_less [OF Some]
      by (fastforce simp: commit_cache_ok_def)
    ultimately show ?thesis using Some by (simp add: read_commit_def cc_getitem_def)
  qed
  then show "fst (read_commit P s cache i) = fetch_commit P s i"
    "commit_cache_ok P s (snd (read_commit P s cache i))" by simp_all
qed

section \<open>Refs\<close>

definition object_exists_commit :: "'z repo_store_scheme \<Rightarrow> string \<Rightarrow> bool" where
  "object_exists_commit s commit_id \<longleftrightarrow> map_of (rs_commits s) commit_id \<noteq> None"

definition resolve_ref :: "'z repo_store_scheme \<Rightarrow> string \<Rightarrow> string res" where
  "resolve_ref s branch_or_commit =
     (case read_branch_ref s branch_or_commit of
        Some None \<Rightarrow> Inl (EmptyBranchError branch_or_commit)
      | Some (Some c) \<Rightarrow> Inr c
      | None \<Rightarrow> if object_exists_commit s branch_or_commit then Inr branch_or_commit
                else Inl (UnknownRefError branch_or_commit))"

definition head_commit :: "'z repo_store_scheme \<Rightarrow> string option res" where
  "head_commit s = bindE (current_branch (rs_client s)) (\<lambda>b. Inr (ref_head s b))"

definition snapshot :: "string \<Rightarrow> ('z repo_store_scheme, unit) sm" where
  "snapshot branch s =
     (case read_branch_ref s branch of
        None \<Rightarrow> (Inr (), s)
      | Some c \<Rightarrow> (Inr (), s\<lparr>rs_client := write_branch_snapshot branch c (rs_client s)\<rparr>))"

definition reflog :: "string \<Rightarrow> string \<Rightarrow> string option \<Rightarrow> string option \<Rightarrow> string \<Rightarrow> ('z repo_store_scheme, unit) sm" where
  "reflog now branch old new operation s =
     (Inr (), s\<lparr>rs_client := append_reflog now branch old new operation (rs_client s)\<rparr>)"

text \<open>\<open>update_branch_ref\<close>: on success and on a lost race the client's snapshot follows the store.\<close>

definition update_branch_ref ::
  "string \<Rightarrow> string \<Rightarrow> string option \<Rightarrow> string option \<Rightarrow> string \<Rightarrow> ('z repo_store_scheme, unit) sm" where
  "update_branch_ref now branch commit_id expected_commit_id operation =
     bindS (compare_and_set_branch_ref branch commit_id expected_commit_id) (\<lambda>updated.
       if updated then
         bindS (snapshot branch) (\<lambda>_. reflog now branch expected_commit_id commit_id operation)
       else
         bindS (snapshot branch) (\<lambda>_ s.
           (Inl (RefConflictError branch operation expected_commit_id (ref_head s branch)), s)))"

definition reject_namespace_conflict :: "'z repo_store_scheme \<Rightarrow> string \<Rightarrow> unit res" where
  "reject_namespace_conflict s name =
     (if \<exists>other \<in> set (iter_branches s). other \<noteq> name \<and>
           (prefix (name @ ''/'') other \<or> prefix (other @ ''/'') name)
      then Inl ValueError else Inr ())"

definition create_branch :: "string \<Rightarrow> ('z repo_store_scheme, string) sm" where
  "create_branch name0 s =
     bindS (liftS (validate_branch_name name0)) (\<lambda>name.
     bindS (liftS (reject_namespace_conflict s name)) (\<lambda>_.
       if ref_head s name \<noteq> None then raiseS ValueError
       else
         bindS (liftS (head_commit s)) (\<lambda>head.
         bindS (compare_and_set_branch_ref name head None) (\<lambda>created.
           if \<not> created then raiseS ValueError
           else bindS (snapshot name) (\<lambda>_. returnS name))))) s"

definition delete_branch :: "string \<Rightarrow> string \<Rightarrow> ('z repo_store_scheme, string) sm" where
  "delete_branch now name s =
     bindS (liftS (current_branch (rs_client s))) (\<lambda>current.
       if name = current then raiseS ValueError
       else if ref_head s name = None then raiseS (UnknownRefError name)
       else bindS (update_branch_ref now name None (ref_head s name) ''branch delete'')
              (\<lambda>_. returnS name)) s"

definition ensure_branch_exists :: "'z repo_store_scheme \<Rightarrow> string \<Rightarrow> unit res" where
  "ensure_branch_exists s b =
     (if read_branch_ref s b \<noteq> None then Inr ()
      else bindE (current_branch (rs_client s)) (\<lambda>current.
             if b = current then Inr () else Inl (UnknownRefError b)))"

definition set_current_branch :: "string \<Rightarrow> ('z repo_store_scheme, unit) sm" where
  "set_current_branch b s =
     bindS (liftS (ensure_branch_exists s b)) (\<lambda>_ s.
       (Inr (), s\<lparr>rs_client := set_head b (rs_client s)\<rparr>)) s"

text \<open>\<open>require_branch_state\<close> answers from the client's snapshot when there is one.\<close>

definition require_branch_state :: "bool \<Rightarrow> string \<Rightarrow> ('z repo_store_scheme, string option) sm" where
  "require_branch_state allow_unborn b s =
     (case read_branch_snapshot (rs_client s) b of
        Some cached \<Rightarrow> (Inr cached, s)
      | None \<Rightarrow>
          (case read_branch_ref s b of
             None \<Rightarrow> if allow_unborn then (Inr None, s) else (Inl (UnknownRefError b), s)
           | Some c \<Rightarrow> bindS (snapshot b) (\<lambda>_. returnS c) s))"

definition require_commit_for_metadata_mutation :: "prims \<Rightarrow> string \<Rightarrow> ('z repo_store_scheme, commit) sm" where
  "require_commit_for_metadata_mutation P b =
     bindS (require_branch_state False b) (\<lambda>c s.
       case c of
         None \<Rightarrow> (Inl FileNotFoundError, s)
       | Some i \<Rightarrow> if i = [] then (Inl FileNotFoundError, s) else (fetch_commit P s i, s))"

definition is_ancestor :: "prims \<Rightarrow> nat \<Rightarrow> nat \<Rightarrow> 'z repo_store_scheme \<Rightarrow> string \<Rightarrow> string \<Rightarrow> bool res" where
  "is_ancestor P m n s anc descendant = is_ancestor_commit (commit_reader P s) m n anc descendant"

definition fast_forward_branch ::
  "prims \<Rightarrow> nat \<Rightarrow> nat \<Rightarrow> string \<Rightarrow> string \<Rightarrow> string \<Rightarrow> string \<Rightarrow> ('z repo_store_scheme, bool) sm" where
  "fast_forward_branch P m n now b target_commit operation =
     bindS (require_branch_state False b) (\<lambda>current.
       if current = Some target_commit then returnS False
       else
         bindS (\<lambda>s. (case current of
                        None \<Rightarrow> Inr ()
                      | Some c \<Rightarrow>
                          if c = [] then Inr ()
                          else bindE (is_ancestor P m n s c target_commit) (\<lambda>ok.
                                 if ok then Inr () else Inl (NonFastForwardError b c target_commit)), s))
           (\<lambda>_. bindS (update_branch_ref now b (Some target_commit) current operation)
                  (\<lambda>_. returnS True)))"

section \<open>Writing a commit\<close>

definition generation_of :: "prims \<Rightarrow> nat \<Rightarrow> 'z repo_store_scheme \<Rightarrow> string list \<Rightarrow> int res" where
  "generation_of P m s parents =
     (if parents = [] then Inr 0
      else bindE (gen_list (gen_of (commit_reader P s) m) Map.empty parents)
             (\<lambda>(gs, memo). Inr (Max (set gs) + 1)))"

definition put_commit :: "string \<Rightarrow> string \<Rightarrow> ('z repo_store_scheme, unit) sm" where
  "put_commit commit_id payload s = (Inr (), s\<lparr>rs_commits := alist_put commit_id payload (rs_commits s)\<rparr>)"

definition write_commit_object ::
  "prims \<Rightarrow> nat \<Rightarrow> string \<Rightarrow> string \<Rightarrow> string \<Rightarrow> string option \<Rightarrow> string list option \<Rightarrow> string
     \<Rightarrow> string option \<Rightarrow> string \<Rightarrow> ('z repo_store_scheme, string) sm" where
  "write_commit_object P m now b message parent_commit parents0 tree_hash expected_commit_id operation s =
     (let parents = (case parents0 of
            Some ps \<Rightarrow> ps
          | None \<Rightarrow> (case parent_commit of None \<Rightarrow> [] | Some p \<Rightarrow> if p = [] then [] else [p]))
      in bindS (liftS (generation_of P m s parents)) (\<lambda>generation.
           let commit_id = commit_id_of P message tree_hash parents;
               c = \<lparr>c_id = commit_id, c_message = message, c_tree = tree_hash, c_parents = parents,
                    c_created_at = now, c_generation = Some generation\<rparr>
           in bindS (put_commit commit_id (encode_commit P c)) (\<lambda>_.
              bindS (update_branch_ref now b (Some commit_id) expected_commit_id operation) (\<lambda>_.
                returnS commit_id))) s)"

section \<open>Commit ids read back as written\<close>

lemma hex_digit_ascii: "hex_digit c \<Longrightarrow> (of_char c :: nat) < 128 \<and> \<not> ws_single c \<and> c \<noteq> CHR 0x0A"
  by (auto simp: hex_digit_def ws_single_def ws_ascii_def Let_def)

lemma ws_len_ascii:
  assumes "\<forall>w \<in> set wide. w \<noteq> [] \<and> 128 \<le> (of_char (hd w) :: nat)"
    and "(of_char c :: nat) < 128" "\<not> ws_single c"
  shows "ws_len_by wide (c # cs) = 0"
proof -
  have "\<not> prefix w (c # cs)" if "w \<in> set wide" for w
    using assms that by (cases w) auto
  then have "find (\<lambda>w. prefix w (c # cs)) wide = None" by (auto simp: find_None_iff)
  with assms(3) show ?thesis by (simp add: ws_len_by_def)
qed

lemma strip_left_ascii:
  assumes "\<forall>w \<in> set wide. w \<noteq> [] \<and> 128 \<le> (of_char (hd w) :: nat)" "hex_digit c"
  shows "strip_left (ws_len_by wide) (c # cs) = c # cs"
  using ws_len_ascii [OF assms(1), of c cs] hex_digit_ascii [OF assms(2)] by (intro strip_left_stop) auto

lemma wide_non_ascii:
  "\<forall>w \<in> set ws_wide. w \<noteq> [] \<and> 128 \<le> (of_char (hd w) :: nat)"
  "\<forall>w \<in> set (map rev ws_wide). w \<noteq> [] \<and> 128 \<le> (of_char (hd w) :: nat)"
  by (simp_all add: ws_wide_def)

lemma strip_hex_line:
  assumes "list_all hex_digit i" "i \<noteq> []"
  shows "strip (i @ [CHR 0x0A]) = i"
proof -
  obtain c cs where i: "i = c # cs" "hex_digit c" using assms by (cases i) auto
  obtain d ds where r: "rev i = d # ds" "hex_digit d"
    using assms by (cases "rev i") (auto simp: list_all_iff)
  have left: "strip_left (ws_len_by ws_wide) (i @ [CHR 0x0A]) = i @ [CHR 0x0A]"
    using strip_left_ascii [OF wide_non_ascii(1) i(2)] by (simp add: i(1))
  have "ws_len_by (map rev ws_wide) (CHR 0x0A # rev i) = 1"
    by (simp add: ws_len_by_def ws_single_def ws_ascii_def)
  then have "strip_left (ws_len_by (map rev ws_wide)) (CHR 0x0A # rev i) =
      strip_left (ws_len_by (map rev ws_wide)) (rev i)"
    by (subst strip_left.simps) simp
  also have "\<dots> = rev i" using strip_left_ascii [OF wide_non_ascii(2) r(2)] by (simp add: r(1))
  finally show ?thesis by (simp add: strip_def left)
qed

lemma stored_head_digest: "is_hex_digest i \<Longrightarrow> stored_head (Some i) = Some i"
  using strip_hex_line [of i] by (auto simp: stored_head_def is_hex_digest_def Let_def)

section \<open>What the operations do\<close>

lemma snapshot_run: "\<exists>cl. snapshot b s = (Inr (), s\<lparr>rs_client := cl\<rparr>)"
proof (cases "read_branch_ref s b")
  case None
  then show ?thesis by (simp add: snapshot_def exI [of _ "rs_client s"])
qed (auto simp: snapshot_def)

lemma ref_head_client [simp]: "ref_head (s\<lparr>rs_client := cl\<rparr>) b = ref_head s b"
  by (simp add: ref_head_def read_branch_ref_def)

text \<open>
  \<open>update_branch_ref\<close> in full: it moves exactly one branch from the expected head, or changes
  no branch and says what it found.
\<close>

lemma update_branch_ref_spec:
  assumes "update_branch_ref now b new expd operation s = (r, s')"
  shows "case r of
      Inr _ \<Rightarrow> ref_head s b = expd \<and> ref_head s' b = stored_head new \<and>
               (\<forall>c. c \<noteq> b \<longrightarrow> ref_head s' c = ref_head s c)
    | Inl err \<Rightarrow> (\<forall>c. ref_head s' c = ref_head s c) \<and>
               ((err = RefConflictError b operation expd (ref_head s b) \<and> ref_head s b \<noteq> expd) \<or>
                (err = OSError \<and> ref_head s b = expd \<and> path_blocked (map fst (rs_refs s)) b))"
proof (cases "ref_head s b = expd")
  case lost: False
  obtain cl where "snapshot b s = (Inr (), s\<lparr>rs_client := cl\<rparr>)" using snapshot_run by blast
  with assms lost show ?thesis
    by (auto simp: update_branch_ref_def compare_and_set_cases bindS_def)
next
  case won: True
  show ?thesis
  proof (cases "path_blocked (map fst (rs_refs s)) b")
    case True
    with assms won show ?thesis by (auto simp: update_branch_ref_def compare_and_set_cases bindS_def)
  next
    case False
    let ?s1 = "s\<lparr>rs_refs := alist_put b (ref_payload new) (rs_refs s)\<rparr>"
    obtain cl where "snapshot b ?s1 = (Inr (), ?s1\<lparr>rs_client := cl\<rparr>)" using snapshot_run by blast
    with assms won False have "r = Inr () \<and> (\<exists>cl'. s' = ?s1\<lparr>rs_client := cl'\<rparr>)"
      by (auto simp: update_branch_ref_def compare_and_set_cases bindS_def reflog_def)
    then show ?thesis using won by (auto simp: ref_head_put)
  qed
qed

lemma update_branch_ref_frame:
  assumes "update_branch_ref now b new expd operation s = (r, s')"
  shows "rs_commits s' = rs_commits s \<and> ts_nodes s' = ts_nodes s \<and> rs_blobs s' = rs_blobs s \<and> rs_footers s' = rs_footers s"
  using assms
  by (auto simp: update_branch_ref_def compare_and_set_cases bindS_def snapshot_def reflog_def
      split: if_splits option.splits sum.splits prod.splits)

lemma write_commit_object_ok:
  assumes "write_commit_object P m now b message parent_commit parents0 tree_hash expd operation s = (Inr i, s')"
    and "commit_codec_ok P" "digest_ok P"
  defines "parents \<equiv> (case parents0 of Some ps \<Rightarrow> ps
      | None \<Rightarrow> (case parent_commit of None \<Rightarrow> [] | Some p \<Rightarrow> if p = [] then [] else [p]))"
  shows "i = commit_id_of P message tree_hash parents"
    and "ref_head s b = expd" and "ref_head s' b = Some i"
    and "c \<noteq> b \<Longrightarrow> ref_head s' c = ref_head s c"
    and "\<exists>g. generation_of P m s parents = Inr g \<and> fetch_commit P s' i = Inr
          \<lparr>c_id = i, c_message = message, c_tree = tree_hash, c_parents = parents,
           c_created_at = now, c_generation = Some g\<rparr>"
    and "j \<noteq> i \<Longrightarrow> fetch_commit P s' j = fetch_commit P s j" and "ts_nodes s' = ts_nodes s"
proof -
  obtain g where g: "generation_of P m s parents = Inr g"
    using assms(1) by (cases "generation_of P m s parents")
      (auto simp: write_commit_object_def bindS_def Let_def parents_def)
  let ?i = "commit_id_of P message tree_hash parents"
  let ?c = "\<lparr>c_id = ?i, c_message = message, c_tree = tree_hash, c_parents = parents,
           c_created_at = now, c_generation = Some g\<rparr>"
  let ?s1 = "s\<lparr>rs_commits := alist_put ?i (encode_commit P ?c) (rs_commits s)\<rparr>"
  have u: "update_branch_ref now b (Some ?i) expd operation ?s1 = (Inr (), s')" and i: "i = ?i"
    using assms(1) g
    by (auto simp: write_commit_object_def bindS_def Let_def parents_def put_commit_def
        split: sum.splits prod.splits)
  have d: "is_hex_digest ?i" using assms(3) by (simp add: digest_ok_def commit_id_of_def)
  have head: "ref_head ?s1 c = ref_head s c" for c by (simp add: ref_head_def read_branch_ref_def)
  note U = update_branch_ref_spec [OF u, simplified] and F = update_branch_ref_frame [OF u]
  show "i = ?i" "ref_head s b = expd" "ref_head s' b = Some i" "c \<noteq> b \<Longrightarrow> ref_head s' c = ref_head s c"
    using U i head stored_head_digest [OF d] by auto
  show "\<exists>g. generation_of P m s parents = Inr g \<and> fetch_commit P s' i = Inr
          \<lparr>c_id = i, c_message = message, c_tree = tree_hash, c_parents = parents,
           c_created_at = now, c_generation = Some g\<rparr>"
    using g F i parse_encode_commit [OF assms(2)] by (simp add: fetch_commit_def)
  show "j \<noteq> i \<Longrightarrow> fetch_commit P s' j = fetch_commit P s j" using F i by (simp add: fetch_commit_def)
  show "ts_nodes s' = ts_nodes s" using F by simp
qed

text \<open>The generation a commit is written with is its depth, so the history stays consistent.\<close>

lemma generation_of_depth:
  assumes "history_ok (commit_reader P s) h G R" "set parents \<subseteq> R" "\<forall>i \<in> R. G i < m"
  shows "generation_of P m s parents = Inr (int (depth_of_parents G parents))"
proof (cases "parents = []")
  case False
  have "\<exists>memo'. gen_of (commit_reader P s) m memo p = Inr (int (G p), memo') \<and> memo_ok G memo'"
    if "p \<in> set parents" "memo_ok G memo" for p memo
    using gen_of_spec [OF assms(1) _ that(2)] assms(2,3) that(1) by blast
  from gen_list_spec [of parents G "gen_of (commit_reader P s) m" Map.empty] this
  obtain memo' where "gen_list (gen_of (commit_reader P s) m) Map.empty parents =
      Inr (map (\<lambda>p. int (G p)) parents, memo')" by auto
  moreover have "Max ((\<lambda>p. int (G p)) ` set parents) = int (Max (G ` set parents))"
    using False mono_Max_commute [of int "G ` set parents"] by (simp add: mono_def image_image)
  ultimately show ?thesis using False by (simp add: generation_of_def depth_of_parents_def)
qed (simp add: generation_of_def depth_of_parents_def)

lemma history_extend:
  assumes H: "history_ok (commit_reader P s) h G R" and "i \<notin> R" "set (c_parents c) \<subseteq> R"
    and "fetch_commit P s' i = Inr c" "\<And>j. j \<noteq> i \<Longrightarrow> fetch_commit P s' j = fetch_commit P s j"
    and "c_generation c = Some (int (depth_of_parents G (c_parents c)))"
  shows "history_ok (commit_reader P s') (h(i \<mapsto> c)) (G(i := depth_of_parents G (c_parents c))) (insert i R)"
proof -
  let ?G = "G(i := depth_of_parents G (c_parents c))"
  have same: "depth_of_parents ?G ps = depth_of_parents G ps" if "set ps \<subseteq> R" for ps
  proof -
    have "?G ` set ps = G ` set ps" using that assms(2) by (intro image_cong) auto
    then show ?thesis by (simp add: depth_of_parents_def)
  qed
  show ?thesis unfolding history_ok_def
  proof
    fix j assume "j \<in> insert i R"
    then consider "j = i" | "j \<in> R" "j \<noteq> i" by blast
    then show "commit_reader P s' j = Inr ((h(i \<mapsto> c)) j) \<and>
        (case (h(i \<mapsto> c)) j of None \<Rightarrow> ?G j = 0
         | Some d \<Rightarrow> set (c_parents d) \<subseteq> insert i R \<and> ?G j = depth_of_parents ?G (c_parents d) \<and>
             (c_generation d = None \<or> c_generation d = Some (int (?G j))))"
    proof cases
      case 1
      with assms(3,4,6) same show ?thesis by (auto simp: commit_reader_def)
    next
      case 2
      with H assms(5) [OF 2(2)] same show ?thesis
        by (auto simp: history_ok_def commit_reader_def split: option.splits)
    qed
  qed
qed

section \<open>Branches\<close>

definition branch_files :: "'z repo_store_scheme \<Rightarrow> string set" where
  "branch_files s = fst ` set (rs_refs s)"

lemma set_iter_branches:
  "set (iter_branches s) = {b \<in> branch_files s. \<not> prefix ''.'' (last (split_path b))}"
proof -
  have "join_path ` split_path ` B = B" for B
    by (simp add: image_image join_path_def split_path_def)
  then show ?thesis by (auto simp: iter_branches_def branch_files_def)
qed

text \<open>Every ref file has a visible name: the files \<open>iter_branches\<close> lists are all of them.\<close>

definition refs_visible :: "'z repo_store_scheme \<Rightarrow> bool" where
  "refs_visible s \<longleftrightarrow> (\<forall>b \<in> branch_files s. \<not> prefix ''.'' (last (split_path b)))"

text \<open>No branch is a directory of branches.\<close>

definition refs_flat :: "'z repo_store_scheme \<Rightarrow> bool" where
  "refs_flat s \<longleftrightarrow> (\<forall>b \<in> branch_files s. \<forall>c \<in> branch_files s. \<not> prefix (b @ ''/'') c)"

lemma path_blocked_files:
  "path_blocked (map fst (rs_refs s)) b \<longleftrightarrow>
     (\<exists>other \<in> branch_files s. prefix (b @ ''/'') other \<or> prefix (other @ ''/'') b)"
  by (simp add: path_blocked_def branch_files_def)

lemma branch_files_put: "branch_files (s\<lparr>rs_refs := alist_put b v (rs_refs s)\<rparr>) = insert b (branch_files s)"
  by (simp add: branch_files_def keys_alist_put)

lemma not_prefix_dir_self [simp]: "\<not> prefix (b @ ''/'') b"
  by (auto simp: prefix_def)

lemma compare_and_set_flat:
  assumes "compare_and_set_branch_ref b new expd s = (r, s')" "refs_flat s"
  shows "refs_flat s'"
  using assms
  by (auto simp: compare_and_set_cases refs_flat_def path_blocked_files branch_files_put split: if_splits)

lemma namespace_free:
  assumes "refs_visible s" "reject_namespace_conflict s name = Inr ()"
  shows "\<not> path_blocked (map fst (rs_refs s)) name"
proof
  assume "path_blocked (map fst (rs_refs s)) name"
  then obtain other where o: "other \<in> branch_files s"
    "prefix (name @ ''/'') other \<or> prefix (other @ ''/'') name" by (auto simp: path_blocked_files)
  then have "other \<noteq> name" by auto
  moreover have "other \<in> set (iter_branches s)"
    using o(1) assms(1) by (simp add: set_iter_branches refs_visible_def)
  ultimately show False using o(2) assms(2) by (auto simp: reject_namespace_conflict_def split: if_splits)
qed

lemma create_branch_spec:
  assumes "create_branch name0 s = (r, s')" "refs_visible s"
  shows "case r of
      Inr name \<Rightarrow> validate_branch_name name0 = Inr name \<and> ref_head s name = None \<and>
          (\<exists>head. head_commit s = Inr head \<and> ref_head s' name = stored_head head) \<and>
          (\<forall>c. c \<noteq> name \<longrightarrow> ref_head s' c = ref_head s c)
    | Inl err \<Rightarrow> err \<noteq> OSError \<and> s' = s"
proof (cases "validate_branch_name name0")
  case (Inl e)
  with assms(1) show ?thesis
    by (auto simp: create_branch_def bindS_def validate_branch_name_def validate_no_binary_def Let_def
        bindE_def split: if_splits sum.splits)
next
  case (Inr name)
  show ?thesis
  proof (cases "reject_namespace_conflict s name")
    case e: (Inl e)
    with assms(1) Inr show ?thesis
      by (auto simp: create_branch_def bindS_def reject_namespace_conflict_def split: if_splits)
  next
    case ok: (Inr u)
    then have free: "\<not> path_blocked (map fst (rs_refs s)) name" using namespace_free [OF assms(2)] by simp
    show ?thesis
    proof (cases "ref_head s name")
      case (Some c)
      with assms(1) Inr ok show ?thesis by (auto simp: create_branch_def bindS_def)
    next
      case None
      show ?thesis
      proof (cases "head_commit s")
        case (Inl e)
        with assms(1) Inr ok None show ?thesis
          by (auto simp: create_branch_def bindS_def head_commit_def current_branch_def Let_def bindE_def
              split: option.splits if_splits sum.splits)
      next
        case h: (Inr head)
        let ?s1 = "s\<lparr>rs_refs := alist_put name (ref_payload head) (rs_refs s)\<rparr>"
        obtain cl where "snapshot name ?s1 = (Inr (), ?s1\<lparr>rs_client := cl\<rparr>)" using snapshot_run by blast
        with assms(1) Inr ok None h free have "r = Inr name \<and> s' = ?s1\<lparr>rs_client := cl\<rparr>"
          by (auto simp: create_branch_def bindS_def compare_and_set_cases)
        with Inr None h show ?thesis by (auto simp: ref_head_put)
      qed
    qed
  qed
qed

section \<open>Fast-forward\<close>

lemma require_branch_state_frame:
  assumes "require_branch_state allow b s = (r, s1)"
  shows "\<exists>cl. s1 = s\<lparr>rs_client := cl\<rparr>"
proof (cases "read_branch_snapshot (rs_client s) b")
  case None
  show ?thesis
  proof (cases "read_branch_ref s b")
    case (Some c)
    obtain cl where "snapshot b s = (Inr (), s\<lparr>rs_client := cl\<rparr>)" using snapshot_run by blast
    with assms None Some show ?thesis by (auto simp: require_branch_state_def bindS_def)
  qed (use assms None in \<open>auto simp: require_branch_state_def intro!: exI [of _ "rs_client s"] split: if_splits\<close>)
qed (use assms in \<open>auto simp: require_branch_state_def intro!: exI [of _ "rs_client s"]\<close>)

lemma commit_reader_client [simp]: "commit_reader P (s\<lparr>rs_client := cl\<rparr>) = commit_reader P s"
  by (rule ext) (simp add: commit_reader_def fetch_commit_def)

lemma fast_forward_branch_ok:
  assumes run: "fast_forward_branch P m n now b target operation s = (Inr True, s')"
    and H: "history_ok (commit_reader P s) h G R" "\<forall>i \<in> R. G i < m" "finite R" "card R \<le> n"
    and heads: "target \<in> R" "\<And>c. ref_head s b = Some c \<Longrightarrow> c \<in> R" and "is_hex_digest target"
  shows "ref_head s' b = Some target \<and> (\<forall>c. c \<noteq> b \<longrightarrow> ref_head s' c = ref_head s c) \<and>
    (\<forall>old. ref_head s b = Some old \<longrightarrow> old \<noteq> [] \<longrightarrow> (target, old) \<in> (parent_rel h)\<^sup>*)"
proof -
  obtain current s1 where s1: "require_branch_state False b s = (Inr current, s1)"
    using run by (auto simp: fast_forward_branch_def bindS_Inr)
  obtain cl where cl: "s1 = s\<lparr>rs_client := cl\<rparr>" using require_branch_state_frame [OF s1] by blast
  have u: "update_branch_ref now b (Some target) current operation s1 = (Inr (), s')"
    and anc: "\<And>c. current = Some c \<Longrightarrow> c \<noteq> [] \<Longrightarrow> is_ancestor P m n s1 c target = Inr True"
    using run s1
    by (auto simp: fast_forward_branch_def bindS_Inr bindE_Inr_iff split: if_splits option.splits)
  note U = update_branch_ref_spec [OF u, simplified]
  have heads': "ref_head s b = current" using U cl by simp
  have "(target, old) \<in> (parent_rel h)\<^sup>*" if "ref_head s b = Some old" "old \<noteq> []" for old
  proof -
    have "is_ancestor_commit (commit_reader P s) m n old target = Inr True"
      using anc [of old] that heads' cl by (simp add: is_ancestor_def)
    with is_ancestor_commit_spec [OF H(1) heads(2) [OF that(1)] heads(1) H(2-4)] show ?thesis by simp
  qed
  with U cl stored_head_digest [OF assms(8)] show ?thesis by auto
qed

section \<open>Updates go through\<close>

lemma update_branch_ref_total:
  assumes "ref_head s b = expd" "\<not> path_blocked (map fst (rs_refs s)) b"
  shows "\<exists>s'. update_branch_ref now b new expd operation s = (Inr (), s')"
proof (cases "update_branch_ref now b new expd operation s")
  case (Pair r s')
  with update_branch_ref_spec [OF Pair] assms show ?thesis by (cases r) auto
qed

lemma write_commit_object_total:
  assumes "generation_of P m s parents = Inr g" "ref_head s b = expd" "\<not> path_blocked (map fst (rs_refs s)) b"
  shows "\<exists>s'. write_commit_object P m now b message parent_commit (Some parents) tree_hash expd operation s =
    (Inr (commit_id_of P message tree_hash parents), s')"
proof -
  let ?c = "\<lparr>c_id = commit_id_of P message tree_hash parents, c_message = message, c_tree = tree_hash,
      c_parents = parents, c_created_at = now, c_generation = Some g\<rparr>"
  let ?s1 = "s\<lparr>rs_commits := alist_put (c_id ?c) (encode_commit P ?c) (rs_commits s)\<rparr>"
  have "ref_head ?s1 b = expd" "\<not> path_blocked (map fst (rs_refs ?s1)) b"
    using assms(2,3) by (simp_all add: ref_head_def read_branch_ref_def)
  from update_branch_ref_total [OF this] obtain s' where
    "update_branch_ref now b (Some (c_id ?c)) expd operation ?s1 = (Inr (), s')" by blast
  then show ?thesis using assms(1) by (auto simp: write_commit_object_def put_commit_def bindS_def Let_def)
qed

text \<open>A commit with known parents on the expected head is written, and the history grows by it.\<close>

lemma commit_extends:
  assumes P: "commit_codec_ok P" "digest_ok P" and H: "history_ok (commit_reader P s) h G R"
    and "set parents \<subseteq> R" "\<forall>i \<in> R. G i < m" "commit_id_of P message tree_hash parents \<notin> R"
    and "ref_head s b = expd" "\<not> path_blocked (map fst (rs_refs s)) b"
  shows "\<exists>c s'. write_commit_object P m now b message parent_commit (Some parents) tree_hash expd operation s = (Inr (c_id c), s') \<and>
    c_tree c = tree_hash \<and> c_parents c = parents \<and> c_message c = message \<and>
    ref_head s' b = Some (c_id c) \<and> (\<forall>b'. b' \<noteq> b \<longrightarrow> ref_head s' b' = ref_head s b') \<and>
    history_ok (commit_reader P s') (h(c_id c \<mapsto> c)) (G(c_id c := depth_of_parents G parents)) (insert (c_id c) R)"
proof -
  note g = generation_of_depth [OF H assms(4,5)]
  from write_commit_object_total [OF g assms(7,8)] obtain i s' where
    run: "write_commit_object P m now b message parent_commit (Some parents) tree_hash expd operation s = (Inr i, s')"
    and i: "i = commit_id_of P message tree_hash parents" by blast
  note W = write_commit_object_ok [OF run P, simplified]
  let ?c = "\<lparr>c_id = i, c_message = message, c_tree = tree_hash, c_parents = parents,
      c_created_at = now, c_generation = Some (int (depth_of_parents G parents))\<rparr>"
  have "history_ok (commit_reader P s') (h(i \<mapsto> ?c)) (G(i := depth_of_parents G (c_parents ?c))) (insert i R)"
    using W(5,6) g assms(4,6) i by (intro history_extend [OF H]) auto
  with run W(3,4) show ?thesis by (intro exI [of _ ?c] exI [of _ s']) simp
qed

lemma fast_forward_branch_total:
  assumes "require_branch_state False b s = (Inr current, s1)" "current \<noteq> Some target"
    and H: "history_ok (commit_reader P s) h G R" "\<forall>i \<in> R. G i < m" "finite R" "card R \<le> n" "target \<in> R"
    and anc: "\<And>c. current = Some c \<Longrightarrow> c \<noteq> [] \<Longrightarrow> c \<in> R \<and> (target, c) \<in> (parent_rel h)\<^sup>*"
    and "ref_head s b = current" "\<not> path_blocked (map fst (rs_refs s)) b"
  shows "\<exists>s'. fast_forward_branch P m n now b target operation s = (Inr True, s')"
proof -
  obtain cl where cl: "s1 = s\<lparr>rs_client := cl\<rparr>" using require_branch_state_frame [OF assms(1)] by blast
  have "is_ancestor P m n s1 c target = Inr True" if "current = Some c" "c \<noteq> []" for c
    using is_ancestor_commit_spec [OF H(1) _ H(5,2,3,4), of c] anc [OF that] by (simp add: is_ancestor_def cl)
  moreover obtain s' where "update_branch_ref now b (Some target) current operation s1 = (Inr (), s')"
    using update_branch_ref_total [of s1 b current now "Some target" operation] assms(9,10) cl by auto
  ultimately show ?thesis using assms(1,2)
    by (auto simp: fast_forward_branch_def bindS_def split: option.splits)
qed

end
