(* ===== verification/Gc.thy ===== *)
theory Gc
  imports Tree_Inspect Ref_Manager
begin

text \<open>
  \<open>Repository.gc\<close> and \<open>_sweep_kind\<close> (\<open>core/repository.py\<close>), with the listing and deletion of
  \<open>core/objects/local.py\<close>: mark every commit, tree, blob and footer the branch heads reach,
  then delete the unmarked objects older than the grace window. The listing of the stored
  objects with their modification times is the parameter \<open>inventory\<close>, as it is in the code;
  \<open>now_ns\<close> is \<open>time_ns()\<close>.

  The lemmas: the mark phase computes exactly the reachable sets and ends with an explicit
  amount of fuel; the sweep deletes exactly the listed, unmarked, old objects; so no object a
  branch head reaches is ever deleted.
\<close>

section \<open>Objects of a store\<close>

definition lookup_object :: "object_kind \<Rightarrow> 'z repo_store_scheme \<Rightarrow> string \<Rightarrow> string option" where
  "lookup_object k s object_id =
     (case k of
        Commit \<Rightarrow> map_of (rs_commits s) object_id
      | Tree \<Rightarrow> ts_nodes s object_id
      | Blob \<Rightarrow> map_of (rs_blobs s) object_id
      | Footer \<Rightarrow> map_of (rs_footers s) object_id
      | Ref \<Rightarrow> map_of (rs_refs s) object_id)"

definition object_exists :: "object_kind \<Rightarrow> 'z repo_store_scheme \<Rightarrow> string \<Rightarrow> bool" where
  "object_exists k s object_id \<longleftrightarrow> lookup_object k s object_id \<noteq> None"

definition drop_keys :: "string list \<Rightarrow> (string \<times> 'v) list \<Rightarrow> (string \<times> 'v) list" where
  "drop_keys ids kvs = filter (\<lambda>kv. fst kv \<notin> set ids) kvs"

lemma map_of_drop_keys [simp]: "map_of (drop_keys ids kvs) k = (if k \<in> set ids then None else map_of kvs k)"
  by (induction kvs) (auto simp: drop_keys_def)

text \<open>\<open>delete_objects\<close>: a missing file is no error, and counts.\<close>

definition delete_objects :: "object_kind \<Rightarrow> string list \<Rightarrow> ('z repo_store_scheme, nat) sm" where
  "delete_objects k ids s =
     (Inr (length ids),
      (case k of
         Commit \<Rightarrow> s\<lparr>rs_commits := drop_keys ids (rs_commits s)\<rparr>
       | Tree \<Rightarrow> s\<lparr>ts_nodes := (\<lambda>h. if h \<in> set ids then None else ts_nodes s h)\<rparr>
       | Blob \<Rightarrow> s\<lparr>rs_blobs := drop_keys ids (rs_blobs s)\<rparr>
       | Footer \<Rightarrow> s\<lparr>rs_footers := drop_keys ids (rs_footers s)\<rparr>
       | Ref \<Rightarrow> s\<lparr>rs_refs := drop_keys ids (rs_refs s)\<rparr>))"

lemma delete_objects_lookup:
  "lookup_object k' (snd (delete_objects k ids s)) i =
     (if k' = k \<and> i \<in> set ids then None else lookup_object k' s i)"
  by (cases k; cases k') (auto simp: delete_objects_def lookup_object_def)

section \<open>The mark phase\<close>

type_synonym gc_trees = "string list \<times> string list"

text \<open>The state: the shared seen set of tree hashes, and the reachable trees.\<close>

definition visit_commit ::
  "prims \<Rightarrow> 'z repo_store_scheme \<Rightarrow> loader \<Rightarrow> nat \<Rightarrow> string \<Rightarrow> gc_trees \<Rightarrow> (string list \<times> gc_trees) res" where
  "visit_commit P s L m commit_id st =
     bindE (fetch_commit P s commit_id) (\<lambda>c.
       bindE (iter_tree_hashes L m (c_tree c) (fst st)) (\<lambda>(seen', ys).
         Inr (rev (c_parents c), (seen', snd st @ ys))))"

definition branch_heads :: "'z repo_store_scheme \<Rightarrow> string list" where
  "branch_heads s =
     concat (map (\<lambda>b. case read_branch_ref s b of Some (Some c) \<Rightarrow> [c] | _ \<Rightarrow> []) (iter_branches s))"

record reachable_sets =
  r_commits :: "string list"
  r_trees :: "string list"
  r_blobs :: "string list"
  r_footers :: "string list"

definition node_leaves :: "loader \<Rightarrow> string list \<Rightarrow> entry list res" where
  "node_leaves L hs =
     bindE (mapE (\<lambda>h. bindE (L h) (\<lambda>r. case r of
         None \<Rightarrow> Inr []
       | Some es \<Rightarrow> Inr (filter (\<lambda>e. \<not> is_subtree e) es))) hs)
       (\<lambda>ess. Inr (concat ess))"

definition given :: "string option list \<Rightarrow> string list" where
  "given xs = concat (map (\<lambda>x. case x of Some v \<Rightarrow> if v = [] then [] else [v] | None \<Rightarrow> []) xs)"

definition gc_mark :: "prims \<Rightarrow> nat \<Rightarrow> nat \<Rightarrow> 'z repo_store_scheme \<Rightarrow> reachable_sets res" where
  "gc_mark P n m s =
     (let L = load P (ts_nodes s) in
      bindE (mark_loop (visit_commit P s L m) n [] ([], []) (rev (branch_heads s)))
        (\<lambda>(commits, st). bindE (node_leaves L (snd st)) (\<lambda>leaves.
          Inr \<lparr>r_commits = commits, r_trees = snd st,
               r_blobs = given (map blob_hash leaves), r_footers = given (map e_footer leaves)\<rparr>)))"

section \<open>The sweep\<close>

definition delete_batch_size :: nat where
  "delete_batch_size = 1000"

record sweep_counts =
  sw_stored :: nat
  sw_orphans :: nat
  sw_young :: nat
  sw_deleted :: nat

definition too_young :: "int \<Rightarrow> int \<Rightarrow> bool" where
  "too_young young_cutoff mtime_ns \<longleftrightarrow> mtime_ns = 0 \<or> mtime_ns \<ge> young_cutoff"

fun sweep_loop ::
  "object_kind \<Rightarrow> string list \<Rightarrow> bool \<Rightarrow> int \<Rightarrow> sweep_counts \<Rightarrow> string list \<Rightarrow> (string \<times> int) list
     \<Rightarrow> ('z repo_store_scheme, sweep_counts) sm" where
  "sweep_loop k reachable dry_run young_cutoff c batch [] =
     (if batch \<noteq> [] then
        bindS (delete_objects k batch) (\<lambda>d. returnS (c\<lparr>sw_deleted := sw_deleted c + d\<rparr>))
      else returnS c)"
| "sweep_loop k reachable dry_run young_cutoff c batch ((object_id, mtime_ns) # rest) =
     (let c1 = c\<lparr>sw_stored := sw_stored c + 1\<rparr> in
      if object_id \<in> set reachable then sweep_loop k reachable dry_run young_cutoff c1 batch rest
      else
        let c2 = c1\<lparr>sw_orphans := sw_orphans c1 + 1\<rparr> in
        if too_young young_cutoff mtime_ns then
          sweep_loop k reachable dry_run young_cutoff (c2\<lparr>sw_young := sw_young c2 + 1\<rparr>) batch rest
        else if dry_run then sweep_loop k reachable dry_run young_cutoff c2 batch rest
        else
          let batch' = batch @ [object_id] in
          if length batch' \<ge> delete_batch_size then
            bindS (delete_objects k batch') (\<lambda>d.
              sweep_loop k reachable dry_run young_cutoff (c2\<lparr>sw_deleted := sw_deleted c2 + d\<rparr>) [] rest)
          else sweep_loop k reachable dry_run young_cutoff c2 batch' rest)"

definition sweep_kind ::
  "object_kind \<Rightarrow> string list \<Rightarrow> (string \<times> int) list \<Rightarrow> bool \<Rightarrow> int \<Rightarrow> ('z repo_store_scheme, sweep_counts) sm" where
  "sweep_kind k reachable listing dry_run young_cutoff =
     sweep_loop k reachable dry_run young_cutoff
       \<lparr>sw_stored = 0, sw_orphans = 0, sw_young = 0, sw_deleted = 0\<rparr> [] listing"

section \<open>Garbage collection\<close>

record gc_result =
  gc_reachable :: "object_kind \<Rightarrow> nat"
  gc_orphans :: "object_kind \<Rightarrow> nat"
  gc_pruned :: bool
  gc_skipped_young :: nat

definition reachable_of :: "reachable_sets \<Rightarrow> object_kind \<Rightarrow> string list" where
  "reachable_of r k =
     (case k of Commit \<Rightarrow> r_commits r | Tree \<Rightarrow> r_trees r | Blob \<Rightarrow> r_blobs r | Footer \<Rightarrow> r_footers r
      | Ref \<Rightarrow> [])"

definition young_cutoff_of :: "int \<Rightarrow> int \<Rightarrow> int" where
  "young_cutoff_of now_ns grace_seconds = now_ns - max 0 grace_seconds * 1000000000"

definition gc ::
  "prims \<Rightarrow> nat \<Rightarrow> nat \<Rightarrow> (object_kind \<Rightarrow> (string \<times> int) list) \<Rightarrow> int \<Rightarrow> int \<Rightarrow> bool
     \<Rightarrow> ('z repo_store_scheme, gc_result) sm" where
  "gc P n m inventory now_ns grace_seconds dry_run s =
     bindS (liftS (gc_mark P n m s)) (\<lambda>r.
     bindS (mapS (\<lambda>k. sweep_kind k (reachable_of r k) (inventory k) dry_run
                        (young_cutoff_of now_ns grace_seconds)) [Commit, Tree, Blob, Footer])
       (\<lambda>cs. returnS
          \<lparr>gc_reachable = (\<lambda>k. length (remdups (reachable_of r k))),
           gc_orphans = (\<lambda>k. case k of Commit \<Rightarrow> sw_orphans (cs ! 0) | Tree \<Rightarrow> sw_orphans (cs ! 1)
              | Blob \<Rightarrow> sw_orphans (cs ! 2) | Footer \<Rightarrow> sw_orphans (cs ! 3) | Ref \<Rightarrow> 0),
           gc_pruned = (\<exists>c \<in> set cs. sw_deleted c \<noteq> 0),
           gc_skipped_young = sum_list (map sw_young cs)\<rparr>)) s"

section \<open>What is marked\<close>

definition commit_kids :: "prims \<Rightarrow> 'z repo_store_scheme \<Rightarrow> string \<Rightarrow> string list" where
  "commit_kids P s i = (case fetch_commit P s i of Inr c \<Rightarrow> rev (c_parents c) | Inl _ \<Rightarrow> [])"

definition live_commits :: "prims \<Rightarrow> 'z repo_store_scheme \<Rightarrow> string set" where
  "live_commits P s = reach (commit_kids P s) (set (branch_heads s))"

definition live_trees :: "prims \<Rightarrow> 'z repo_store_scheme \<Rightarrow> string set" where
  "live_trees P s =
     reach (tree_kids (load P (ts_nodes s)))
       {c_tree c | i c. i \<in> live_commits P s \<and> fetch_commit P s i = Inr c}"

definition live_leaves :: "prims \<Rightarrow> 'z repo_store_scheme \<Rightarrow> entry set" where
  "live_leaves P s =
     {e. \<not> is_subtree e \<and> (\<exists>h \<in> live_trees P s. \<exists>es. load P (ts_nodes s) h = Inr (Some es) \<and> e \<in> set es)}"

definition live :: "prims \<Rightarrow> 'z repo_store_scheme \<Rightarrow> object_kind \<Rightarrow> string set" where
  "live P s k =
     (case k of
        Commit \<Rightarrow> live_commits P s
      | Tree \<Rightarrow> live_trees P s
      | Blob \<Rightarrow> {h. h \<noteq> [] \<and> (\<exists>e \<in> live_leaves P s. blob_hash e = Some h)}
      | Footer \<Rightarrow> {h. h \<noteq> [] \<and> (\<exists>e \<in> live_leaves P s. e_footer e = Some h)}
      | Ref \<Rightarrow> {})"

interpretation commit_marks: dag_visit "visit_commit P s L m" "commit_kids P s" for P s L m
  by unfold_locales (auto simp: visit_commit_def commit_kids_def bindE_Inr_iff)

lemma fold_visit_commit:
  assumes "foldE (visit_state (visit_commit P s L m)) st ys = Inr st'"
    and "closed_under (tree_kids L) (set (fst st))" "set (snd st) = set (fst st)"
  shows "set (snd st') = set (snd st) \<union> reach (tree_kids L) {c_tree c | i c. i \<in> set ys \<and> fetch_commit P s i = Inr c}"
    and "set (fst st') = set (snd st')" "closed_under (tree_kids L) (set (fst st'))"
proof -
  let ?new = "\<lambda>ys. {c_tree c | i c. i \<in> set ys \<and> fetch_commit P s i = Inr c}"
  have "set (snd st') = set (snd st) \<union> reach (tree_kids L) (?new ys) \<and>
      set (fst st') = set (snd st') \<and> closed_under (tree_kids L) (set (fst st'))"
    using assms
  proof (induction ys arbitrary: st)
    case Nil
    then show ?case by (simp add: reach_def)
  next
    case (Cons i ys)
    from Cons.prems(1) obtain st1 where v: "visit_state (visit_commit P s L m) st i = Inr st1"
      and run: "foldE (visit_state (visit_commit P s L m)) st1 ys = Inr st'" by (auto simp: bindE_Inr_iff)
    from v obtain c seen' zs where
      c: "fetch_commit P s i = Inr c" "iter_tree_hashes L m (c_tree c) (fst st) = Inr (seen', zs)"
      and st1: "st1 = (seen', snd st @ zs)"
      by (auto simp: bindE_Inr_iff visit_state_def visit_commit_def)
    note it = iter_tree_hashes_spec [OF c(2) Cons.prems(2)]
    have new: "?new (i # ys) = {c_tree c} \<union> ?new ys" using c(1) by auto
    have s1: "set (snd st1) = set (snd st) \<union> reach (tree_kids L) {c_tree c}"
      "set (fst st1) = set (snd st1)"
      using it(3,4) Cons.prems(3) by (auto simp: st1)
    have cl: "closed_under (tree_kids L) (set (fst st1))" using it(5) st1 by simp
    note ih = Cons.IH [OF run cl s1(2) [symmetric]]
    then have "set (snd st') = set (snd st) \<union> reach (tree_kids L) (?new (i # ys))"
      unfolding new reach_Un using s1(1) by (simp only: Un_assoc)
    with ih show ?case by blast
  qed
  then show "set (snd st') = set (snd st) \<union> reach (tree_kids L) (?new ys)"
    "set (fst st') = set (snd st')" "closed_under (tree_kids L) (set (fst st'))" by blast+
qed

lemma set_given: "set (given xs) = {v. v \<noteq> [] \<and> Some v \<in> set xs}"
  by (auto simp: given_def split: option.splits if_splits)

lemma node_leaves_set:
  assumes "node_leaves L hs = Inr leaves"
  shows "set leaves = {e. \<not> is_subtree e \<and> (\<exists>h \<in> set hs. \<exists>es. L h = Inr (Some es) \<and> e \<in> set es)}"
proof -
  let ?f = "\<lambda>h. bindE (L h) (\<lambda>r. case r of None \<Rightarrow> Inr [] | Some es \<Rightarrow> Inr (filter (\<lambda>e. \<not> is_subtree e) es))"
  have sets: "mapE ?f hs = Inr ess \<Longrightarrow>
      set (concat ess) = {e. \<not> is_subtree e \<and> (\<exists>h \<in> set hs. \<exists>es. L h = Inr (Some es) \<and> e \<in> set es)}" for ess
  proof (induction hs arbitrary: ess)
    case (Cons h hs)
    from Cons.prems obtain zs rest where z: "?f h = Inr zs" "mapE ?f hs = Inr rest" "ess = zs # rest"
      by (auto simp only: mapE.simps bindE_Inr_iff sum.inject)
    have "set zs = {e. \<not> is_subtree e \<and> (\<exists>es. L h = Inr (Some es) \<and> e \<in> set es)}"
    proof (cases "L h")
      case (Inr r)
      with z(1) show ?thesis by (cases r) auto
    qed (use z(1) in simp)
    then have "set (concat ess) = {e. \<not> is_subtree e \<and> (\<exists>es. L h = Inr (Some es) \<and> e \<in> set es)} \<union> set (concat rest)"
      using z(3) by simp
    also have "set (concat rest) = {e. \<not> is_subtree e \<and> (\<exists>h \<in> set hs. \<exists>es. L h = Inr (Some es) \<and> e \<in> set es)}"
      by (rule Cons.IH [OF z(2)])
    finally show ?case by auto
  qed simp
  from assms obtain ess where "mapE ?f hs = Inr ess" "leaves = concat ess" by (auto simp: node_leaves_def bindE_Inr_iff)
  with sets show ?thesis by metis
qed

lemma gc_mark_spec:
  assumes "gc_mark P n m s = Inr r"
  shows "set (reachable_of r k) = live P s k"
proof -
  let ?L = "load P (ts_nodes s)"
  from assms obtain commits st leaves where
    run: "mark_loop (visit_commit P s ?L m) n [] ([], []) (rev (branch_heads s)) = Inr (commits, st)"
      "node_leaves ?L (snd st) = Inr leaves"
    and r: "r = \<lparr>r_commits = commits, r_trees = snd st,
        r_blobs = given (map blob_hash leaves), r_footers = given (map e_footer leaves)\<rparr>"
    by (auto simp: gc_mark_def Let_def bindE_Inr_iff)
  have "closed_under (commit_kids P s) (set [])" by (simp add: closed_under_def)
  from commit_marks.mark_spec [OF run(1) this] obtain ys where
    ys: "commits = rev ys" "foldE (visit_state (visit_commit P s ?L m)) ([], []) ys = Inr st"
    and commits: "set commits = live_commits P s" by (auto simp: live_commits_def)
  have "closed_under (tree_kids ?L) (set (fst ([], [])))" by (simp add: closed_under_def)
  from fold_visit_commit(1) [OF ys(2) this] ys(1) commits
  have trees: "set (snd st) = live_trees P s" by (auto simp: live_trees_def)
  have "set leaves = live_leaves P s"
    using node_leaves_set [OF run(2)] trees by (auto simp: live_leaves_def)
  with trees commits show ?thesis
    by (cases k) (auto simp: r reachable_of_def live_def set_given intro: rev_image_eqI)
qed


section \<open>What is swept\<close>

definition doomed :: "string list \<Rightarrow> int \<Rightarrow> (string \<times> int) list \<Rightarrow> string list" where
  "doomed reachable young_cutoff listing =
     map fst (filter (\<lambda>(i, t). i \<notin> set reachable \<and> \<not> too_young young_cutoff t) listing)"

lemma doomed_simps [simp]:
  "doomed reachable young_cutoff [] = []"
  "doomed reachable young_cutoff ((i, t) # rest) =
     (if i \<notin> set reachable \<and> \<not> too_young young_cutoff t then [i] else []) @ doomed reachable young_cutoff rest"
  by (simp_all add: doomed_def)

definition swept ::
  "object_kind \<Rightarrow> string list \<Rightarrow> bool \<Rightarrow> int \<Rightarrow> sweep_counts \<Rightarrow> string list \<Rightarrow> (string \<times> int) list
     \<Rightarrow> 'z repo_store_scheme \<Rightarrow> sweep_counts res \<times> 'z repo_store_scheme \<Rightarrow> bool" where
  "swept k reachable dry_run young_cutoff c batch listing s r \<longleftrightarrow> (\<exists>c' s'. r = (Inr c', s') \<and>
     (\<forall>k' i. lookup_object k' s' i =
        (if k' = k \<and> (i \<in> set batch \<or> (\<not> dry_run \<and> i \<in> set (doomed reachable young_cutoff listing))) then None
         else lookup_object k' s i)) \<and>
     sw_stored c' = sw_stored c + length listing \<and>
     sw_orphans c' = sw_orphans c + length (filter (\<lambda>(i, t). i \<notin> set reachable) listing) \<and>
     sw_young c' = sw_young c +
       length (filter (\<lambda>(i, t). i \<notin> set reachable \<and> too_young young_cutoff t) listing) \<and>
     sw_deleted c' = sw_deleted c + length batch +
       (if dry_run then 0 else length (doomed reachable young_cutoff listing)))"

lemma swept_step:
  assumes "swept k reachable dry_run young_cutoff c1 batch1 rest s1 r"
    and "\<And>k' i. lookup_object k' s1 i = (if k' = k \<and> i \<in> set gone then None else lookup_object k' s i)"
    and "set gone \<union> set batch1 = set batch \<union> (if dry_run then {} else set (doomed reachable young_cutoff [x]))"
    and "sw_stored c1 = sw_stored c + 1"
    and "sw_orphans c1 = sw_orphans c + length (filter (\<lambda>(i, t). i \<notin> set reachable) [x])"
    and "sw_young c1 = sw_young c + length (filter (\<lambda>(i, t). i \<notin> set reachable \<and> too_young young_cutoff t) [x])"
    and "sw_deleted c1 + length batch1 =
      sw_deleted c + length batch + (if dry_run then 0 else length (doomed reachable young_cutoff [x]))"
  shows "swept k reachable dry_run young_cutoff c batch (x # rest) s r"
proof -
  from assms(1) obtain c' s' where r: "r = (Inr c', s')"
    and lk: "\<And>k' i. lookup_object k' s' i =
        (if k' = k \<and> (i \<in> set batch1 \<or> (\<not> dry_run \<and> i \<in> set (doomed reachable young_cutoff rest))) then None
         else lookup_object k' s1 i)"
    and n: "sw_stored c' = sw_stored c1 + length rest"
      "sw_orphans c' = sw_orphans c1 + length (filter (\<lambda>(i, t). i \<notin> set reachable) rest)"
      "sw_young c' = sw_young c1 + length (filter (\<lambda>(i, t). i \<notin> set reachable \<and> too_young young_cutoff t) rest)"
      "sw_deleted c' = sw_deleted c1 + length batch1 +
        (if dry_run then 0 else length (doomed reachable young_cutoff rest))"
    unfolding swept_def by blast
  have d: "set (doomed reachable young_cutoff (x # rest)) =
      set (doomed reachable young_cutoff [x]) \<union> set (doomed reachable young_cutoff rest)"
    "length (doomed reachable young_cutoff (x # rest)) =
      length (doomed reachable young_cutoff [x]) + length (doomed reachable young_cutoff rest)"
    by (cases x; simp)+
  have "lookup_object k' s' i =
      (if k' = k \<and> (i \<in> set batch \<or> (\<not> dry_run \<and> i \<in> set (doomed reachable young_cutoff (x # rest)))) then None
       else lookup_object k' s i)" for k' i
    using assms(3) unfolding lk assms(2) d(1) by (auto split: if_splits)
  moreover have "sw_deleted c' = sw_deleted c + length batch +
      (if dry_run then 0 else length (doomed reachable young_cutoff (x # rest)))"
    using assms(7) n(4) d(2) by auto
  moreover have flt: "length (filter Q (x # rest)) = length (filter Q [x]) + length (filter Q rest)" for Q by simp
  have "sw_orphans c' = sw_orphans c + length (filter (\<lambda>(i, t). i \<notin> set reachable) (x # rest))"
    unfolding flt n(2) assms(5) by (rule add.assoc)
  moreover have "sw_young c' = sw_young c +
      length (filter (\<lambda>(i, t). i \<notin> set reachable \<and> too_young young_cutoff t) (x # rest))"
    unfolding flt n(3) assms(6) by (rule add.assoc)
  moreover have "sw_stored c' = sw_stored c + length (x # rest)" using n(1) assms(4) by simp
  ultimately show ?thesis unfolding swept_def r by blast
qed

lemma sweep_loop_spec:
  "swept k reachable dry_run young_cutoff c batch listing s
     (sweep_loop k reachable dry_run young_cutoff c batch listing s)"
proof (induction listing arbitrary: c batch s)
  case Nil
  have "delete_objects k batch s = (Inr (length batch), snd (delete_objects k batch s))"
    by (simp add: delete_objects_def)
  then show ?case by (cases "batch = []") (auto simp: swept_def delete_objects_lookup)
next
  case (Cons x rest)
  obtain i t where x: "x = (i, t)" by (cases x)
  let ?R = "sweep_loop k reachable dry_run young_cutoff c batch (x # rest) s"
  let ?c1 = "c\<lparr>sw_stored := sw_stored c + 1\<rparr>"
  let ?c2 = "?c1\<lparr>sw_orphans := sw_orphans ?c1 + 1\<rparr>"
  consider (live) "i \<in> set reachable" | (young) "i \<notin> set reachable" "too_young young_cutoff t"
    | (dry) "i \<notin> set reachable" "\<not> too_young young_cutoff t" dry_run
    | (flush) "i \<notin> set reachable" "\<not> too_young young_cutoff t" "\<not> dry_run" "length (batch @ [i]) \<ge> delete_batch_size"
    | (collect) "i \<notin> set reachable" "\<not> too_young young_cutoff t" "\<not> dry_run" "\<not> length (batch @ [i]) \<ge> delete_batch_size"
    by blast
  then show ?case
  proof cases
    case live
    then have "?R = sweep_loop k reachable dry_run young_cutoff ?c1 batch rest s" by (simp add: x Let_def)
    with Cons.IH [of ?c1 batch s] live show ?thesis by (auto elim!: swept_step [where gone = "[]"] simp: x split: if_splits)
  next
    case young
    then have "?R = sweep_loop k reachable dry_run young_cutoff (?c2\<lparr>sw_young := sw_young ?c2 + 1\<rparr>) batch rest s"
      by (simp add: x Let_def)
    with Cons.IH [of "?c2\<lparr>sw_young := sw_young ?c2 + 1\<rparr>" batch s] young show ?thesis
      by (auto elim!: swept_step [where gone = "[]"] simp: x split: if_splits)
  next
    case dry
    then have "?R = sweep_loop k reachable dry_run young_cutoff ?c2 batch rest s" by (simp add: x Let_def)
    with Cons.IH [of ?c2 batch s] dry show ?thesis by (auto elim!: swept_step [where gone = "[]"] simp: x split: if_splits)
  next
    case flush
    let ?s = "snd (delete_objects k (batch @ [i]) s)"
    have "delete_objects k (batch @ [i]) s = (Inr (length batch + 1), ?s)"
      by (simp add: delete_objects_def)
    with flush have "?R = sweep_loop k reachable dry_run young_cutoff
        (?c2\<lparr>sw_deleted := sw_deleted ?c2 + (length batch + 1)\<rparr>) [] rest ?s"
      by (simp add: x Let_def)
    with Cons.IH [of "?c2\<lparr>sw_deleted := sw_deleted ?c2 + (length batch + 1)\<rparr>" "[]" ?s] flush show ?thesis
      by (auto elim!: swept_step [where gone = "batch @ [i]"] simp: x delete_objects_lookup)
  next
    case collect
    then have "?R = sweep_loop k reachable dry_run young_cutoff ?c2 (batch @ [i]) rest s" by (simp add: x Let_def)
    with Cons.IH [of ?c2 "batch @ [i]" s] collect show ?thesis
      by (auto elim!: swept_step [where gone = "[]"] simp: x split: if_splits)
  qed
qed

lemma sweep_kind_spec:
  "\<exists>c s'. sweep_kind k reachable listing dry_run young_cutoff s = (Inr c, s') \<and>
     (\<forall>k' i. lookup_object k' s' i =
        (if k' = k \<and> \<not> dry_run \<and> i \<in> set (doomed reachable young_cutoff listing) then None
         else lookup_object k' s i)) \<and>
     sw_deleted c = (if dry_run then 0 else length (doomed reachable young_cutoff listing)) \<and>
     sw_orphans c = length (filter (\<lambda>(i, t). i \<notin> set reachable) listing)"
  using sweep_loop_spec [of k reachable dry_run young_cutoff
      "\<lparr>sw_stored = 0, sw_orphans = 0, sw_young = 0, sw_deleted = 0\<rparr>" "[]" listing s]
  by (auto simp: sweep_kind_def swept_def)

text \<open>The objects a collection with these marks deletes.\<close>

definition collected ::
  "reachable_sets \<Rightarrow> (object_kind \<Rightarrow> (string \<times> int) list) \<Rightarrow> int \<Rightarrow> object_kind \<Rightarrow> string list" where
  "collected r inventory young_cutoff k = doomed (reachable_of r k) young_cutoff (inventory k)"

lemma sweeps_spec:
  assumes "distinct ks"
  shows "\<exists>cs s'. mapS (\<lambda>k. sweep_kind k (reachable_of r k) (inventory k) dry_run cutoff) ks s = (Inr cs, s') \<and>
     (\<forall>k i. lookup_object k s' i =
        (if k \<in> set ks \<and> \<not> dry_run \<and> i \<in> set (collected r inventory cutoff k) then None
         else lookup_object k s i))"
  using assms
proof (induction ks arbitrary: s)
  case (Cons k ks)
  from sweep_kind_spec [of k "reachable_of r k" "inventory k" dry_run cutoff s] obtain c s1 where
    1: "sweep_kind k (reachable_of r k) (inventory k) dry_run cutoff s = (Inr c, s1)"
      "\<And>k' i. lookup_object k' s1 i = (if k' = k \<and> \<not> dry_run \<and> i \<in> set (collected r inventory cutoff k) then None
         else lookup_object k' s i)" by (auto simp: collected_def)
  have "distinct ks" using Cons.prems by simp
  from Cons.IH [OF this, of s1] obtain cs s2 where
    2: "mapS (\<lambda>k. sweep_kind k (reachable_of r k) (inventory k) dry_run cutoff) ks s1 = (Inr cs, s2)"
      "\<And>k' i. lookup_object k' s2 i = (if k' \<in> set ks \<and> \<not> dry_run \<and> i \<in> set (collected r inventory cutoff k') then None
         else lookup_object k' s1 i)" by blast
  have "mapS (\<lambda>k. sweep_kind k (reachable_of r k) (inventory k) dry_run cutoff) (k # ks) s = (Inr (c # cs), s2)"
    using 1(1) 2(1) by (simp add: bindS_def)
  moreover have "lookup_object k' s2 i =
      (if k' \<in> set (k # ks) \<and> \<not> dry_run \<and> i \<in> set (collected r inventory cutoff k') then None
       else lookup_object k' s i)" for k' i
    unfolding 1(2) 2(2) by auto
  ultimately show ?case by blast
qed simp

lemma gc_spec:
  assumes "gc_mark P n m s = Inr r"
  shows "\<exists>res s'. gc P n m inventory now_ns grace dry_run s = (Inr res, s') \<and>
    (\<forall>k i. lookup_object k s' i =
       (if k \<noteq> Ref \<and> \<not> dry_run \<and> i \<in> set (collected r inventory (young_cutoff_of now_ns grace) k) then None
        else lookup_object k s i))"
proof -
  have "distinct [Commit, Tree, Blob, Footer]" by simp
  from sweeps_spec [OF this, of r inventory dry_run "young_cutoff_of now_ns grace" s] obtain cs s' where
    "mapS (\<lambda>k. sweep_kind k (reachable_of r k) (inventory k) dry_run (young_cutoff_of now_ns grace))
       [Commit, Tree, Blob, Footer] s = (Inr cs, s')"
    and lk: "\<And>k i. lookup_object k s' i =
        (if k \<in> {Commit, Tree, Blob, Footer} \<and> \<not> dry_run \<and> i \<in> set (collected r inventory (young_cutoff_of now_ns grace) k)
         then None else lookup_object k s i)" by auto
  moreover have "k \<in> {Commit, Tree, Blob, Footer} \<longleftrightarrow> k \<noteq> Ref" for k by (cases k) auto
  ultimately show ?thesis using assms by (simp add: gc_def bindS_def del: mapS.simps)
qed

text \<open>Whatever the listing says and whatever the clock: nothing a branch head reaches is lost.\<close>

lemma gc_safe:
  assumes "gc P n m inventory now_ns grace dry_run s = (Inr res, s')" and "i \<in> live P s k"
  shows "lookup_object k s' i = lookup_object k s i"
proof -
  from assms(1) obtain r where r: "gc_mark P n m s = Inr r"
    by (cases "gc_mark P n m s") (auto simp: gc_def bindS_def)
  from gc_mark_spec [OF r, of k] assms(2) have "i \<in> set (reachable_of r k)" by simp
  then have "i \<notin> set (collected r inventory (young_cutoff_of now_ns grace) k)"
    by (auto simp: collected_def doomed_def)
  with gc_spec [OF r, of inventory now_ns grace dry_run] assms(1) show ?thesis by auto
qed

text \<open>And nothing else that is listed as old enough survives.\<close>

lemma gc_complete:
  assumes "gc P n m inventory now_ns grace False s = (Inr res, s')"
    and "(i, t) \<in> set (inventory k)" "i \<notin> live P s k" "k \<noteq> Ref"
    and "t \<noteq> 0" "t < now_ns - max 0 grace * 1000000000"
  shows "lookup_object k s' i = None"
proof -
  from assms(1) obtain r where r: "gc_mark P n m s = Inr r"
    by (cases "gc_mark P n m s") (auto simp: gc_def bindS_def)
  from gc_mark_spec [OF r, of k] assms(3) have "i \<notin> set (reachable_of r k)" by simp
  with assms(2,5,6) have "i \<in> set (collected r inventory (young_cutoff_of now_ns grace) k)"
    by (force simp: collected_def doomed_def too_young_def young_cutoff_of_def)
  with gc_spec [OF r, of inventory now_ns grace False] assms(1,4) show ?thesis by auto
qed

text \<open>The mark phase ends, given a bound on the commits and the trees.\<close>

lemma gc_mark_total:
  assumes C: "finite C" "closed_under (commit_kids P s) C" "set (branch_heads s) \<subseteq> C"
      "\<forall>i \<in> C. \<exists>c. fetch_commit P s i = Inr c \<and> c_tree c \<in> T"
    and T: "finite T" "closed_under (tree_kids (load P (ts_nodes s))) T"
      "\<forall>h \<in> T. \<exists>r. load P (ts_nodes s) h = Inr r"
    and n: "length (branch_heads s) + (\<Sum>i \<in> C. length (commit_kids P s i)) \<le> n"
    and m: "1 + (\<Sum>h \<in> T. length (tree_kids (load P (ts_nodes s)) h)) \<le> m"
  shows "\<exists>r. gc_mark P n m s = Inr r"
proof -
  let ?L = "load P (ts_nodes s)"
  define inv where "inv = (\<lambda>st :: gc_trees. closed_under (tree_kids ?L) (set (fst st)) \<and> set (snd st) \<subseteq> T)"
  have step: "\<exists>st'. visit_commit P s ?L m i st = Inr (commit_kids P s i, st') \<and> inv st'"
    if i: "i \<in> C" and st: "inv st" for i st
  proof -
    from C(4) i obtain c where c: "fetch_commit P s i = Inr c" "c_tree c \<in> T" by blast
    have "(\<Sum>h \<in> T - set (fst st). length (tree_kids ?L h)) \<le> (\<Sum>h \<in> T. length (tree_kids ?L h))"
      using T(1) by (intro sum_mono2) auto
    with iter_tree_hashes_total [OF T(1,2) c(2) T(3), of "fst st" m] m
    obtain seen' ys where it: "iter_tree_hashes ?L m (c_tree c) (fst st) = Inr (seen', ys)" by force
    note spec = iter_tree_hashes_spec [OF it] st [unfolded inv_def]
    have "set ys \<subseteq> T" using reach_least [of "{c_tree c}" T "tree_kids ?L"] c(2) T(2) spec by auto
    with c(1) it spec show ?thesis by (auto simp: visit_commit_def commit_kids_def inv_def)
  qed
  have "inv ([], [])" by (simp add: inv_def closed_under_def)
  moreover have "set (rev (branch_heads s)) \<subseteq> C" using C(3) by simp
  moreover have "length (rev (branch_heads s)) + (\<Sum>i \<in> C - set []. length (commit_kids P s i)) \<le> n" using n by simp
  ultimately obtain commits st where run: "mark_loop (visit_commit P s ?L m) n [] ([], []) (rev (branch_heads s)) = Inr (commits, st)"
    "inv st"
    using commit_marks.mark_total [OF C(1,2) _ _ step, of "rev (branch_heads s)" "([], [])" "[]" n] by blast
  have "\<exists>ess. mapE (\<lambda>h. bindE (?L h) (\<lambda>r. case r of None \<Rightarrow> Inr [] | Some es \<Rightarrow> Inr (filter (\<lambda>e. \<not> is_subtree e) es))) hs = Inr ess"
    if "set hs \<subseteq> T" for hs
    using that
  proof (induction hs)
    case (Cons h hs)
    from Cons.prems T(3) obtain r where "?L h = Inr r" by auto
    with Cons show ?case by (cases r) auto
  qed simp
  with run(2) obtain leaves where "node_leaves ?L (snd st) = Inr leaves" by (force simp: node_leaves_def inv_def)
  with run(1) show ?thesis by (simp add: gc_mark_def Let_def)
qed

end
