(* ===== verification/Json_Sample.thy ===== *)
theory Json_Sample
  imports Commit_Object Tree_Write
begin

text \<open>
  A concrete instance of the package functions the model is parametrised with, on which the
  properties' witnesses run: JSON text for the values the program writes (every character
  outside printable ASCII escaped) with a recursive-descent reader, and a 64-digit
  checksum in place of BLAKE3. The theorems show that it meets \<open>codec_ok\<close>,
  \<open>commit_codec_ok\<close> and \<open>digest_ok\<close>, so these hypotheses can hold together.
\<close>

section \<open>Writing\<close>

definition printable :: "char \<Rightarrow> bool" where
  "printable c \<longleftrightarrow> (let n = of_char c :: nat in 32 \<le> n \<and> n \<le> 126)"

definition enc_char :: "char \<Rightarrow> string" where
  "enc_char c =
     (if printable c \<and> c \<noteq> CHR 0x22 \<and> c \<noteq> CHR 0x5C then [c]
      else [CHR 0x5C, CHR ''u'', CHR ''0'', CHR ''0'', hex_char (of_char c div 16), hex_char (of_char c mod 16)])"

definition enc_str :: "string \<Rightarrow> string" where
  "enc_str s = CHR 0x22 # concat (map enc_char s) @ [CHR 0x22]"

definition enc_scalar :: "json \<Rightarrow> string" where
  "enc_scalar v =
     (case v of JStr s \<Rightarrow> enc_str s | JInt i \<Rightarrow> show_int i | JNull \<Rightarrow> ''null''
      | JBool b \<Rightarrow> (if b then ''true'' else ''false'') | _ \<Rightarrow> ''?'')"

definition enc_item :: "json \<Rightarrow> string" where
  "enc_item v =
     (case v of JArr xs \<Rightarrow> CHR ''['' # join_on (CHR '','') (map enc_scalar xs) @ [CHR '']'']
      | _ \<Rightarrow> enc_scalar v)"

definition enc_pair :: "string \<times> json \<Rightarrow> string" where
  "enc_pair kv = enc_str (fst kv) @ CHR '':'' # enc_item (snd kv)"

definition enc_value :: "json \<Rightarrow> string" where
  "enc_value v =
     (case v of JObj kvs \<Rightarrow> CHR ''{'' # join_on (CHR '','') (map enc_pair kvs) @ [CHR ''}'']
      | _ \<Rightarrow> enc_item v)"

section \<open>Reading\<close>

definition hex_val :: "char \<Rightarrow> nat" where
  "hex_val c = (let n = of_char c in if n \<le> 57 then n - 48 else n - 87)"

function dec_body :: "string \<Rightarrow> string \<Rightarrow> (string \<times> string) option" where
  "dec_body acc s =
     (case s of
        [] \<Rightarrow> None
      | c # cs \<Rightarrow>
          if c = CHR 0x22 then Some (rev acc, cs)
          else if c = CHR 0x5C then
            (if length cs < 5 then None
             else dec_body (char_of (16 * hex_val (cs ! 3) + hex_val (cs ! 4)) # acc) (drop 5 cs))
          else dec_body (c # acc) cs)"
  by pat_completeness auto
termination
  by (relation "measure (\<lambda>(acc, s). length s)") auto

declare dec_body.simps [simp del]

definition dec_int :: "string \<Rightarrow> int option" where
  "dec_int t =
     (case t of [] \<Rightarrow> None
      | c # cs \<Rightarrow> if c = CHR ''-'' then map_option (\<lambda>n. - int n) (digits_val False 0 cs)
                 else map_option int (digits_val False 0 t))"

definition in_token :: "char \<Rightarrow> bool" where
  "in_token c \<longleftrightarrow> c \<notin> set [CHR '','', CHR '']'', CHR ''}'', CHR 0x0A]"

definition dec_scalar :: "string \<Rightarrow> (json \<times> string) option" where
  "dec_scalar s =
     (case s of
        [] \<Rightarrow> None
      | c # cs \<Rightarrow>
          if c = CHR 0x22 then map_option (\<lambda>(t, r). (JStr t, r)) (dec_body [] cs)
          else
            let t = takeWhile in_token s; r = dropWhile in_token s in
            if t = ''null'' then Some (JNull, r)
            else if t = ''true'' then Some (JBool True, r)
            else if t = ''false'' then Some (JBool False, r)
            else map_option (\<lambda>i. (JInt i, r)) (dec_int t))"

fun dec_items :: "(string \<Rightarrow> ('a \<times> string) option) \<Rightarrow> char \<Rightarrow> nat \<Rightarrow> string \<Rightarrow> ('a list \<times> string) option" where
  "dec_items p close 0 s = None"
| "dec_items p close (Suc n) s =
     (case p s of
        None \<Rightarrow> None
      | Some (v, r) \<Rightarrow>
          (case r of
             [] \<Rightarrow> None
           | c # r' \<Rightarrow>
               if c = CHR '','' then map_option (\<lambda>(vs, r''). (v # vs, r'')) (dec_items p close n r')
               else if c = close then Some ([v], r') else None))"

definition dec_seq :: "(string \<Rightarrow> ('a \<times> string) option) \<Rightarrow> char \<Rightarrow> string \<Rightarrow> ('a list \<times> string) option" where
  "dec_seq p close s = (if prefix [close] s then Some ([], tl s) else dec_items p close (length s) s)"

definition dec_item :: "string \<Rightarrow> (json \<times> string) option" where
  "dec_item s =
     (if prefix ''['' s then map_option (\<lambda>(xs, r). (JArr xs, r)) (dec_seq dec_scalar (CHR '']'') (tl s))
      else dec_scalar s)"

definition dec_pair :: "string \<Rightarrow> ((string \<times> json) \<times> string) option" where
  "dec_pair s =
     (if prefix [CHR 0x22] s then
        (case dec_body [] (tl s) of
           None \<Rightarrow> None
         | Some (k, r) \<Rightarrow>
             if prefix '':'' r then map_option (\<lambda>(v, r'). ((k, v), r')) (dec_item (tl r)) else None)
      else None)"

definition dec_value :: "string \<Rightarrow> json option" where
  "dec_value s =
     (case (if prefix ''{'' s then map_option (\<lambda>(kvs, r). (JObj kvs, r)) (dec_seq dec_pair (CHR ''}'') (tl s))
            else dec_item s) of
        None \<Rightarrow> None
      | Some (v, r) \<Rightarrow> if r = [] \<or> r = [CHR 0x0A] then Some v else None)"

section \<open>The digest\<close>

definition checksum :: "string \<Rightarrow> nat" where
  "checksum s = foldl (\<lambda>n c. (n * 31 + of_char c + 7) mod 4294967296) 17 s"

fun hex_digits :: "nat \<Rightarrow> nat \<Rightarrow> string" where
  "hex_digits 0 n = []"
| "hex_digits (Suc k) n = hex_char (n mod 16) # hex_digits k (n div 16)"

definition sample_digest :: "string \<Rightarrow> string" where
  "sample_digest s = hex_digits 8 (checksum s) @ replicate 56 (CHR ''0'')"

definition sample :: prims where
  "sample = \<lparr>blake3 = sample_digest, json_encode = enc_value, json_decode = dec_value,
             repr_value = (\<lambda>v. ''<value>''),
             json_format = (\<lambda>s. s), json_loads = dec_value, shard_max = 3\<rparr>"

lemma sample_sel [simp]:
  "blake3 sample = sample_digest" "json_encode sample = enc_value" "json_decode sample = dec_value"
  "shard_max sample = 3"
  by (simp_all add: sample_def)

lemma hex_char_props:
  assumes "d < 16"
  shows "hex_digit (hex_char d)" "hex_val (hex_char d) = d" "printable (hex_char d)"
    "hex_char d \<noteq> CHR 0x22" "hex_char d \<noteq> CHR 0x5C"
proof -
  have n: "of_char (hex_char d) = (if d < 10 then 48 + d else 87 + d)"
    using assms by (simp add: hex_char_def)
  show "hex_digit (hex_char d)" "hex_val (hex_char d) = d" "printable (hex_char d)"
    using n assms by (auto simp: hex_digit_def hex_val_def printable_def Let_def)
  show "hex_char d \<noteq> CHR 0x22" "hex_char d \<noteq> CHR 0x5C"
    using n assms by (auto split: if_splits)
qed

lemma sample_digest_ok: "digest_ok sample"
proof -
  have "list_all hex_digit (hex_digits k n) \<and> length (hex_digits k n) = k" for k n
    by (induction k n rule: hex_digits.induct) (auto simp: hex_char_props)
  moreover have "hex_digit (CHR ''0'')" by (simp add: hex_digit_def)
  ultimately show ?thesis
    by (simp add: digest_ok_def is_hex_digest_def sample_digest_def list_all_iff)
qed

section \<open>Round trip\<close>

lemma dec_body_char:
  "dec_body acc (enc_char c @ r) = dec_body (c # acc) r"
proof (cases "printable c \<and> c \<noteq> CHR 0x22 \<and> c \<noteq> CHR 0x5C")
  case True
  then show ?thesis by (simp add: enc_char_def dec_body.simps [of acc "c # r"])
next
  case False
  have "(of_char c :: nat) div 16 < 16" using nat_of_char_less_256 [of c] by linarith
  then have "hex_val (hex_char (of_char c div 16)) = of_char c div 16"
    "hex_val (hex_char (of_char c mod 16)) = of_char c mod 16"
    by (simp_all add: hex_char_props)
  moreover from this have "char_of (16 * (of_char c div 16) + of_char c mod 16 :: nat) = c"
    by (metis char_of_char mult_div_mod_eq)
  ultimately show ?thesis using False
    by (subst dec_body.simps) (simp add: enc_char_def)
qed

lemma dec_body_enc: "dec_body acc (concat (map enc_char s) @ CHR 0x22 # r) = Some (rev acc @ s, r)"
  by (induction s arbitrary: acc) (simp_all add: dec_body_char, simp add: dec_body.simps)

lemma digit_val_char: "d < 10 \<Longrightarrow> digit_val (digit_char d) = Some d"
  by (simp add: digit_val_def digit_char_def Let_def)

lemma digits_val_snoc:
  assumes "d < 10"
  shows "digits_val b acc xs = Some n \<Longrightarrow> digits_val b acc (xs @ [digit_char d]) = Some (10 * n + d)"
proof (induction xs arbitrary: b acc)
  case (Cons x xs)
  then show ?case by (cases "digit_val x") (auto split: if_splits)
qed (use assms in \<open>auto simp: digit_val_char split: if_splits\<close>)

lemma digits_val_show_nat: "digits_val False 0 (show_nat n) = Some n \<and> show_nat n \<noteq> []"
proof (induction n rule: less_induct)
  case (less n)
  show ?case
  proof (cases "n < 10")
    case True
    then show ?thesis by (simp add: show_nat.simps digit_val_char)
  next
    case False
    then have "n div 10 < n" by simp
    from less [OF this] False show ?thesis
      using digits_val_snoc [of "n mod 10" False 0 "show_nat (n div 10)" "n div 10"]
      by (subst (1 2) show_nat.simps) simp
  qed
qed

lemma show_nat_digits: "c \<in> set (show_nat n) \<Longrightarrow> \<exists>d < 10. c = digit_char d"
proof (induction n rule: less_induct)
  case (less n)
  show ?case
  proof (cases "n < 10")
    case True
    with less.prems show ?thesis by (auto simp: show_nat.simps)
  next
    case False
    with less.prems have "c \<in> set (show_nat (n div 10)) \<or> c = digit_char (n mod 10)"
      by (subst (asm) show_nat.simps) auto
    then show ?thesis
    proof
      assume "c \<in> set (show_nat (n div 10))"
      with less.IH [of "n div 10"] False show ?thesis by simp
    next
      assume "c = digit_char (n mod 10)"
      then show ?thesis by (intro exI [of _ "n mod 10"]) simp
    qed
  qed
qed

lemma digit_char_props:
  assumes "d < 10"
  shows "printable (digit_char d)" "in_token (digit_char d)" "digit_char d \<noteq> CHR ''-''"
    "digit_char d \<noteq> CHR 0x22" "digit_char d \<noteq> CHR ''n''" "digit_char d \<noteq> CHR ''t''" "digit_char d \<noteq> CHR ''f''"
    "digit_char d \<noteq> CHR ''[''"
proof -
  have n: "of_char (digit_char d) = 48 + d" using assms by (simp add: digit_char_def)
  then show "printable (digit_char d)" using assms by (simp add: printable_def Let_def)
  show "in_token (digit_char d)" "digit_char d \<noteq> CHR ''-''"
    "digit_char d \<noteq> CHR 0x22" "digit_char d \<noteq> CHR ''n''" "digit_char d \<noteq> CHR ''t''" "digit_char d \<noteq> CHR ''f''"
    "digit_char d \<noteq> CHR ''[''"
    using n assms by (auto simp: in_token_def)
qed

lemma show_int_cases:
  "\<exists>d ds. d < 10 \<and> (\<forall>c \<in> set ds. \<exists>d < 10. c = digit_char d) \<and>
     show_int i = (if i < 0 then CHR ''-'' # digit_char d # ds else digit_char d # ds)"
proof -
  define k where "k = (if i < 0 then nat (- i) else nat i)"
  obtain c ds where s: "show_nat k = c # ds" using digits_val_show_nat [of k] by (cases "show_nat k") auto
  moreover have "\<exists>d < 10. c = digit_char d" "\<forall>c \<in> set ds. \<exists>d < 10. c = digit_char d"
    using show_nat_digits [of _ k] s by auto
  moreover have "show_int i = (if i < 0 then CHR ''-'' # show_nat k else show_nat k)"
    by (simp add: show_int_def k_def)
  ultimately show ?thesis by auto
qed

definition stops :: "string \<Rightarrow> bool" where
  "stops r \<longleftrightarrow> r \<noteq> [] \<and> \<not> in_token (hd r)"

lemma token_split:
  "\<forall>c \<in> set t. in_token c \<Longrightarrow> stops r \<Longrightarrow> takeWhile in_token (t @ r) = t \<and> dropWhile in_token (t @ r) = r"
  by (cases r) (auto simp: stops_def)

lemma dec_int_show: "dec_int (show_int i) = Some i"
proof -
  obtain d ds where s: "d < 10" "show_int i = (if i < 0 then CHR ''-'' # digit_char d # ds else digit_char d # ds)"
    using show_int_cases by blast
  show ?thesis
  proof (cases "i < 0")
    case True
    then have "show_int i = CHR ''-'' # show_nat (nat (- i))" by (simp add: show_int_def)
    with True digits_val_show_nat [of "nat (- i)"] show ?thesis by (simp add: dec_int_def)
  next
    case False
    then have n: "show_int i = show_nat (nat i)" by (simp add: show_int_def)
    with s False digit_char_props(3) [OF s(1)] digits_val_show_nat [of "nat i"] show ?thesis
      by (simp add: dec_int_def)
  qed
qed

lemma dec_scalar_enc:
  assumes "json_scalar v" "stops r"
  shows "dec_scalar (enc_scalar v @ r) = Some (v, r)"
proof (cases v)
  case (JStr s)
  then show ?thesis by (simp add: dec_scalar_def enc_scalar_def enc_str_def dec_body_enc)
next
  case (JInt i)
  obtain d ds where s: "d < 10" "\<forall>c \<in> set ds. \<exists>d < 10. c = digit_char d"
    "show_int i = (if i < 0 then CHR ''-'' # digit_char d # ds else digit_char d # ds)"
    using show_int_cases by blast
  have "in_token c" if "c \<in> set ds" for c
  proof -
    from s(2) that obtain e where "e < 10" "c = digit_char e" by blast
    then show ?thesis by (simp add: digit_char_props(2))
  qed
  moreover have "in_token (CHR ''-'')" by (simp add: in_token_def)
  ultimately have "\<forall>c \<in> set (show_int i). in_token c"
    using s(1,3) digit_char_props(2) [of d] by auto
  note tk = token_split [OF this assms(2)]
  have "hd (show_int i) \<noteq> CHR ''n''" "hd (show_int i) \<noteq> CHR ''t''" "hd (show_int i) \<noteq> CHR ''f''"
    using s(3) digit_char_props(5-7) [OF s(1)] by (cases "i < 0"; simp)+
  then have "show_int i \<noteq> ''null'' \<and> show_int i \<noteq> ''true'' \<and> show_int i \<noteq> ''false''" by auto
  moreover obtain c cs where c: "show_int i = c # cs" "c \<noteq> CHR 0x22"
    using s(3) digit_char_props(4) [OF s(1)] by (cases "i < 0") auto
  moreover have "dec_int (c # cs) = Some i" using dec_int_show [of i] c(1) by simp
  ultimately show ?thesis using tk JInt by (simp add: dec_scalar_def enc_scalar_def Let_def)
next
  case JNull
  have "\<forall>c \<in> set ''null''. in_token c" by (simp add: in_token_def)
  from token_split [OF this assms(2)] JNull show ?thesis by (simp add: dec_scalar_def enc_scalar_def)
qed (use assms in auto)

lemma dec_items_enc:
  assumes "\<And>v r. v \<in> set xs \<Longrightarrow> stops r \<Longrightarrow> p (enc v @ r) = Some (v, r)"
    and "close \<noteq> CHR '',''" "\<not> in_token close" "xs \<noteq> []" "length xs \<le> n"
  shows "dec_items p close n (join_on (CHR '','') (map enc xs) @ close # r) = Some (xs, r)"
  using assms
proof (induction xs arbitrary: n)
  case (Cons v xs)
  then obtain m where n: "n = Suc m" by (cases n) auto
  have comma: "\<not> in_token (CHR '','')" by (simp add: in_token_def)
  show ?case
  proof (cases xs)
    case Nil
    with Cons.prems(1) [of v "close # r"] Cons.prems(2,3) n show ?thesis by (simp add: stops_def)
  next
    case (Cons w ws)
    with Cons.prems(1) [of v "CHR '','' # join_on (CHR '','') (map enc xs) @ close # r"] comma
      Cons.IH [of m] Cons.prems n
    show ?thesis by (simp add: stops_def)
  qed
qed simp

lemma join_on_length: "xs \<noteq> [] \<Longrightarrow> length xs \<le> Suc (length (join_on c xs))"
  by (induction c xs rule: join_on.induct) auto

lemma dec_seq_enc:
  assumes "\<And>v r. v \<in> set xs \<Longrightarrow> stops r \<Longrightarrow> p (enc v @ r) = Some (v, r)"
    and "close \<noteq> CHR '',''" "\<not> in_token close" "\<And>v. v \<in> set xs \<Longrightarrow> enc v \<noteq> [] \<and> hd (enc v) \<noteq> close"
  shows "dec_seq p close (join_on (CHR '','') (map enc xs) @ close # r) = Some (xs, r)"
proof (cases "xs = []")
  case False
  then obtain v vs where xs: "xs = v # vs" by (cases xs) auto
  have "\<not> prefix [close] (join_on (CHR '','') (map enc xs) @ close # r)"
    using assms(4) [of v] by (cases vs; cases "enc v") (auto simp: xs)
  moreover have "length xs \<le> length (join_on (CHR '','') (map enc xs) @ close # r)"
    using join_on_length [of "map enc xs" "CHR '',''"] False by simp
  ultimately show ?thesis
    using dec_items_enc [OF assms(1-3) False] by (simp add: dec_seq_def del: dec_items.simps)
qed (simp add: dec_seq_def)

text \<open>Values the program writes: scalars, arrays of scalars, and objects of those.\<close>

fun flat_item :: "json \<Rightarrow> bool" where
  "flat_item (JArr xs) = list_all json_scalar xs"
| "flat_item v = json_scalar v"

lemma enc_scalar_head:
  assumes "json_scalar v"
  shows "enc_scalar v \<noteq> []" "hd (enc_scalar v) \<notin> {CHR '']'', CHR ''}'', CHR ''['', CHR ''{''}"
proof -
  have "enc_scalar v \<noteq> [] \<and> hd (enc_scalar v) \<notin> {CHR '']'', CHR ''}'', CHR ''['', CHR ''{''}"
  proof (cases v)
    case (JInt i)
    obtain d ds where s: "d < 10" "show_int i = (if i < 0 then CHR ''-'' # digit_char d # ds else digit_char d # ds)"
      using show_int_cases by blast
    have "of_char (digit_char d) = 48 + d" using s(1) by (simp add: digit_char_def)
    then have "digit_char d \<notin> {CHR '']'', CHR ''}'', CHR ''['', CHR ''{''}" using s(1) by auto
    with s JInt show ?thesis by (simp add: enc_scalar_def)
  qed (use assms in \<open>auto simp: enc_scalar_def enc_str_def\<close>)
  then show "enc_scalar v \<noteq> []" "hd (enc_scalar v) \<notin> {CHR '']'', CHR ''}'', CHR ''['', CHR ''{''}" by simp_all
qed

lemma dec_item_enc:
  assumes "flat_item v" "stops r"
  shows "dec_item (enc_item v @ r) = Some (v, r)"
proof (cases "\<exists>xs. v = JArr xs")
  case True
  then obtain xs where v: "v = JArr xs" by blast
  have "dec_seq dec_scalar (CHR '']'') (join_on (CHR '','') (map enc_scalar xs) @ CHR '']'' # r) = Some (xs, r)"
    using assms(1) enc_scalar_head
    by (intro dec_seq_enc) (auto simp: v list_all_iff in_token_def intro: dec_scalar_enc)
  then show ?thesis by (simp add: v dec_item_def enc_item_def)
next
  case False
  with assms have "json_scalar v" "enc_item v = enc_scalar v" by (cases v; simp add: enc_item_def)+
  with enc_scalar_head [of v] dec_scalar_enc [of v r] assms(2) show ?thesis
    by (cases "enc_scalar v") (auto simp: dec_item_def)
qed

lemma dec_pair_enc:
  assumes "flat_item (snd kv)" "stops r"
  shows "dec_pair (enc_pair kv @ r) = Some (kv, r)"
  using dec_item_enc [OF assms]
  by (simp add: dec_pair_def enc_pair_def enc_str_def dec_body_enc)

lemma stops_end: "stops [CHR 0x0A]" "stops (CHR '']'' # r)"
  by (simp_all add: stops_def in_token_def)

lemma dec_value_array:
  assumes "list_all json_scalar xs"
  shows "dec_value (enc_value (JArr xs)) = Some (JArr xs)"
proof -
  have "dec_seq dec_scalar (CHR '']'') (join_on (CHR '','') (map enc_scalar xs) @ [CHR '']'']) = Some (xs, [])"
    using assms enc_scalar_head
    by (intro dec_seq_enc) (auto simp: list_all_iff in_token_def intro: dec_scalar_enc)
  then show ?thesis by (simp add: dec_value_def enc_value_def dec_item_def enc_item_def)
qed

lemma dec_value_object:
  assumes "\<forall>kv \<in> set kvs. flat_item (snd kv)"
  shows "dec_value (enc_value (JObj kvs) @ [CHR 0x0A]) = Some (JObj kvs)"
proof -
  have "dec_seq dec_pair (CHR ''}'') (join_on (CHR '','') (map enc_pair kvs) @ CHR ''}'' # [CHR 0x0A]) =
      Some (kvs, [CHR 0x0A])"
    using assms by (intro dec_seq_enc dec_pair_enc) (auto simp: in_token_def enc_pair_def enc_str_def)
  then show ?thesis by (simp add: dec_value_def enc_value_def)
qed

lemma sample_commit_codec_ok: "commit_codec_ok sample"
  unfolding commit_codec_ok_def encode_commit_def commit_json_def sample_sel
  by (intro allI dec_value_object) (auto simp: opt_int_def list_all_iff split: option.split)

lemma printable_no_break:
  assumes "printable c"
  shows "c \<noteq> CHR 0x0A" "c \<noteq> CHR 0x0B" "c \<noteq> CHR 0x0C" "c \<noteq> CHR 0x0D" "c \<noteq> CHR 0x1C"
    "c \<noteq> CHR 0x1D" "c \<noteq> CHR 0x1E" "c \<noteq> CHR 0xC2" "c \<noteq> CHR 0xE2"
  using assms by (auto simp: printable_def)

lemma no_break_printable:
  assumes "\<forall>c \<in> set s. printable c"
  shows "no_break brk_bytes s" "no_break brk_str s"
proof -
  have "brk_bytes (drop i s @ CHR 0x0A # rest) = 0 \<and> brk_str (drop i s @ CHR 0x0A # rest) = 0"
    if i: "i < length s" for i rest
  proof -
    obtain c cs where c: "drop i s = c # cs" using i by (cases "drop i s") auto
    then have "printable c" using assms by (metis in_set_dropD list.set_intros(1))
    from printable_no_break [OF this] show ?thesis by (simp add: c brk_bytes_def brk_str_def)
  qed
  then show "no_break brk_bytes s" "no_break brk_str s" by (simp_all add: no_break_def)
qed

lemma printable_enc_str: "\<forall>c \<in> set (enc_str s). printable c"
proof -
  have "printable d" if "d \<in> set (enc_char c)" for c d
  proof -
    have "(of_char c :: nat) div 16 < 16" using nat_of_char_less_256 [of c] by linarith
    with that hex_char_props(3) show ?thesis
      by (auto simp: enc_char_def printable_def split: if_splits)
  qed
  then show ?thesis by (auto simp: enc_str_def printable_def)
qed

lemma printable_enc_scalar:
  assumes "json_scalar v"
  shows "\<forall>c \<in> set (enc_scalar v). printable c"
proof (cases v)
  case (JInt i)
  obtain d ds where s: "d < 10" "\<forall>c \<in> set ds. \<exists>d < 10. c = digit_char d"
    "show_int i = (if i < 0 then CHR ''-'' # digit_char d # ds else digit_char d # ds)"
    using show_int_cases by blast
  have "printable (CHR ''-'')" by (simp add: printable_def)
  with s digit_char_props(1) JInt show ?thesis by (auto simp: enc_scalar_def split: if_splits)
qed (use assms printable_enc_str in \<open>auto simp: enc_scalar_def printable_def\<close>)

lemma set_join_on: "set (join_on c xs) \<subseteq> insert c (\<Union> (set ` set xs))"
  by (induction c xs rule: join_on.induct) auto

lemma printable_array:
  assumes "list_all json_scalar xs"
  shows "\<forall>c \<in> set (enc_value (JArr xs)). printable c"
proof -
  have p: "printable (CHR '','')" "printable (CHR ''['')" "printable (CHR '']'')"
    by (simp_all add: printable_def)
  have "\<forall>c \<in> set (join_on (CHR '','') (map enc_scalar xs)). printable c"
    using set_join_on [of "CHR '',''" "map enc_scalar xs"] printable_enc_scalar assms p(1)
    by (fastforce simp: list_all_iff)
  with p show ?thesis by (auto simp: enc_value_def enc_item_def)
qed

lemma sample_codec_ok: "codec_ok sample"
  unfolding codec_ok_def sample_sel
proof (intro allI impI conjI)
  fix xs assume xs: "list_all json_scalar xs"
  note p = printable_array [OF xs]
  show "dec_value (enc_value (JArr xs)) = Some (JArr xs)" using xs by (rule dec_value_array)
  have "(of_char c :: nat) < 128" if "printable c" for c using that by (auto simp: printable_def Let_def)
  with p show "utf8_ok (enc_value (JArr xs))" by (intro utf8_ok_ascii) auto
  show "\<exists>body. enc_value (JArr xs) = CHR ''['' # body @ [CHR '']'']" by (simp add: enc_value_def enc_item_def)
  show "no_break brk_bytes (enc_value (JArr xs))" "no_break brk_str (enc_value (JArr xs))"
    using no_break_printable [OF p] by simp_all
qed

end
