(* ===== verification/Footer.thy ===== *)
theory Footer
  imports Gc
begin

unbundle bit_operations_syntax

text \<open>
  \<open>core/objects/footer.py\<close>: the reader of Parquet's thrift-compact footer, the compact stats
  object it is turned into, and the capture at ingest. A reader is a function from the bytes
  that remain to a result and the bytes after it; \<open>depth\<close> bounds the nesting of skipped
  values (Python's recursion limit) and every loop over fields is bounded by the bytes left.

  The lemmas: variable-length and zigzag integers of every size read back, no reader returns
  more bytes than it was given, and a footer that fails to parse leaves the store as it was.
\<close>

section \<open>Bytes\<close>

type_synonym 'a rd = "string \<Rightarrow> ('a \<times> string) res"

definition byte_of :: "char \<Rightarrow> nat" where
  "byte_of c = of_char c"

definition read_byte :: "nat rd" where
  "read_byte s = (case s of [] \<Rightarrow> Inl IndexError | c # cs \<Rightarrow> Inr (byte_of c, cs))"

fun varint_loop :: "nat \<Rightarrow> nat \<Rightarrow> nat rd" where
  "varint_loop result shift [] = Inl IndexError"
| "varint_loop result shift (c # cs) =
     (let b = byte_of c; result' = result OR push_bit shift (b AND 0x7F) in
      if b AND 0x80 = 0 then Inr (result', cs) else varint_loop result' (shift + 7) cs)"

definition read_varint :: "nat rd" where
  "read_varint s = varint_loop 0 0 s"

definition unzigzag :: "nat \<Rightarrow> int" where
  "unzigzag raw = (int raw div 2) XOR (- (int raw AND 1))"

definition read_zigzag :: "int rd" where
  "read_zigzag s = bindE (read_varint s) (\<lambda>(raw, r). Inr (unzigzag raw, r))"

definition read_binary :: "string rd" where
  "read_binary s =
     bindE (read_varint s) (\<lambda>(n, r).
       if length (take n r) \<noteq> n then Inl ValueError else Inr (take n r, drop n r))"

text \<open>Little-endian integers of the standard library's \<open>struct\<close>.\<close>

fun le_nat :: "string \<Rightarrow> nat" where
  "le_nat [] = 0"
| "le_nat (c # cs) = byte_of c + 256 * le_nat cs"

definition signed_of :: "nat \<Rightarrow> nat \<Rightarrow> int" where
  "signed_of bits n = (if n < 2 ^ (bits - 1) then int n else int n - 2 ^ bits)"

definition pow2 :: "int \<Rightarrow> rat" where
  "pow2 k = (if 0 \<le> k then 2 ^ nat k else 1 / 2 ^ nat (- k))"

text \<open>An IEEE 754 value with \<open>eb\<close> exponent and \<open>mb\<close> mantissa bits. The zeros are one rational.\<close>

definition ieee :: "nat \<Rightarrow> nat \<Rightarrow> nat \<Rightarrow> pyfloat" where
  "ieee eb mb n =
     (let m = n mod 2 ^ mb; e = (n div 2 ^ mb) mod 2 ^ eb; neg = n div 2 ^ (mb + eb) mod 2 = 1;
          bias = 2 ^ (eb - 1) - 1 :: int;
          mag = (if e = 0 then of_nat m * pow2 (1 - bias - int mb)
                 else of_nat (2 ^ mb + m) * pow2 (int e - bias - int mb))
      in if e = 2 ^ eb - 1 then (if m \<noteq> 0 then NaN else if neg then NegInf else PosInf)
         else Finite (if neg then - mag else mag))"

section \<open>Skipping a value\<close>

definition read_list_header :: "(nat \<times> nat) rd" where
  "read_list_header s =
     bindE (read_byte s) (\<lambda>(b, r).
       let sz = b div 16; element_type = b mod 16 in
       if sz = 15 then bindE (read_varint r) (\<lambda>(n, r'). Inr ((n, element_type), r'))
       else Inr ((sz, element_type), r))"

fun repeatE :: "('a \<Rightarrow> 'a res) \<Rightarrow> nat \<Rightarrow> 'a \<Rightarrow> 'a res" where
  "repeatE f 0 x = Inr x"
| "repeatE f (Suc n) x = bindE (f x) (repeatE f n)"

text \<open>A map entry as the code skips it: each half is preceded by a type byte of its own.\<close>

definition skip_pair :: "(nat \<Rightarrow> string \<Rightarrow> string res) \<Rightarrow> string \<Rightarrow> string res" where
  "skip_pair sk s =
     bindE (read_byte s) (\<lambda>(t, r). bindE (sk t r) (\<lambda>r.
     bindE (read_byte r) (\<lambda>(t, r). sk t r)))"

fun skip_struct :: "(nat \<Rightarrow> string \<Rightarrow> string res) \<Rightarrow> nat \<Rightarrow> string \<Rightarrow> string res" where
  "skip_struct sk 0 s = Inl OutOfFuel"
| "skip_struct sk (Suc k) s =
     bindE (read_byte s) (\<lambda>(header, r).
       if header = 0 then Inr r
       else
         bindE (if header div 16 = 15 then bindE (read_zigzag r) (\<lambda>(d, r'). Inr r') else Inr r) (\<lambda>r.
         bindE (sk (header mod 16) r) (skip_struct sk k)))"

primrec skip_value :: "nat \<Rightarrow> nat \<Rightarrow> string \<Rightarrow> string res" where
  "skip_value 0 = (\<lambda>field_type s. Inl OutOfFuel)"
| "skip_value (Suc depth) = (\<lambda>field_type s.
     if field_type \<in> {1, 2} then Inr s
     else if field_type = 3 then Inr (drop 1 s)
     else if field_type \<in> {4, 5, 6} then bindE (read_zigzag s) (\<lambda>(v, r). Inr r)
     else if field_type = 7 then Inr (drop 8 s)
     else if field_type = 13 then Inr (drop 16 s)
     else if field_type = 8 then bindE (read_binary s) (\<lambda>(v, r). Inr r)
     else if field_type \<in> {9, 10} then
       bindE (read_list_header s) (\<lambda>((n, t), r). repeatE (skip_value depth t) n r)
     else if field_type = 11 then
       bindE (read_list_header s) (\<lambda>((n, t), r). repeatE (skip_pair (skip_value depth)) n r)
     else if field_type = 12 then skip_struct (skip_value depth) (Suc (length s)) s
     else Inl ValueError)"

section \<open>Structs\<close>

text \<open>
  \<open>_read_fields\<close>: \<open>handlers\<close> maps a field id to what is done with the field, on a state that
  stands for the variables the handlers of the code write.
\<close>

type_synonym 'st handler = "nat \<Rightarrow> 'st \<Rightarrow> 'st rd"

fun read_fields :: "nat \<Rightarrow> (int \<Rightarrow> 'st handler option) \<Rightarrow> nat \<Rightarrow> int \<Rightarrow> 'st \<Rightarrow> 'st rd" where
  "read_fields depth handlers 0 last_field st s = Inl OutOfFuel"
| "read_fields depth handlers (Suc k) last_field st s =
     bindE (read_byte s) (\<lambda>(header, r).
       if header div 16 = 0 then Inr (st, r)
       else
         bindE (if header div 16 = 15 then read_zigzag r else Inr (int (header div 16), r)) (\<lambda>(delta, r).
           let field_id = last_field + delta; field_type = header mod 16 in
           bindE (case handlers field_id of
                    Some h \<Rightarrow> h field_type st r
                  | None \<Rightarrow> bindE (skip_value depth field_type r) (\<lambda>r'. Inr (st, r')))
             (\<lambda>(st', r'). read_fields depth handlers k field_id st' r')))"

definition read_struct :: "nat \<Rightarrow> (int \<Rightarrow> 'st handler option) \<Rightarrow> 'st \<Rightarrow> 'st rd" where
  "read_struct depth handlers st s = read_fields depth handlers (Suc (length s)) 0 st s"

text \<open>A handler that takes a value of the expected types and skips any other.\<close>

definition expect :: "nat \<Rightarrow> nat set \<Rightarrow> ('st \<Rightarrow> 'st rd) \<Rightarrow> 'st handler" where
  "expect depth types h field_type st s =
     (if field_type \<in> types then h st s
      else bindE (skip_value depth field_type s) (\<lambda>r. Inr (st, r)))"

fun read_items :: "('st \<Rightarrow> 'st rd) \<Rightarrow> nat \<Rightarrow> 'st \<Rightarrow> 'st rd" where
  "read_items f 0 st s = Inr (st, s)"
| "read_items f (Suc n) st s = bindE (f st s) (\<lambda>(st', r). read_items f n st' r)"

text \<open>A list handler: a list of another element type is skipped element by element.\<close>

definition expect_list :: "nat \<Rightarrow> nat \<Rightarrow> ('st \<Rightarrow> 'st rd) \<Rightarrow> 'st handler" where
  "expect_list depth element_type f =
     expect depth {9} (\<lambda>st s.
       bindE (read_list_header s) (\<lambda>((n, t), r).
         if t \<noteq> element_type then
           bindE (repeatE (skip_value depth t) n r) (\<lambda>r'. Inr (st, r'))
         else read_items f n st r))"

section \<open>Text\<close>

text \<open>
  \<open>bytes.decode("utf-8", errors="replace")\<close>: an ill-formed sequence, up to the byte that
  breaks it, becomes one U+FFFD. \<open>pend\<close> holds the bytes of the character under way.
\<close>

definition fffd :: string where
  "fffd = [CHR 0xEF, CHR 0xBF, CHR 0xBD]"

fun decode_replace_from :: "nat \<times> nat \<times> nat \<Rightarrow> string \<Rightarrow> string \<Rightarrow> string" where
  "decode_replace_from st pend [] = (if pend = [] then [] else fffd)"
| "decode_replace_from st pend (c # cs) =
     (case utf8_step st c of
        Some st' \<Rightarrow>
          if fst st' = 0 then pend @ [c] @ decode_replace_from utf8_start [] cs
          else decode_replace_from st' (pend @ [c]) cs
      | None \<Rightarrow>
          if pend = [] then fffd @ decode_replace_from utf8_start [] cs
          else fffd @
            (case utf8_step utf8_start c of
               None \<Rightarrow> fffd @ decode_replace_from utf8_start [] cs
             | Some st' \<Rightarrow>
                 if fst st' = 0 then [c] @ decode_replace_from utf8_start [] cs
                 else decode_replace_from st' [c] cs))"

definition decode_replace :: "string \<Rightarrow> string" where
  "decode_replace s = decode_replace_from utf8_start [] s"

section \<open>The file metadata\<close>

record column_stats =
  cs_path :: string
  cs_min :: json
  cs_max :: json
  cs_nulls :: int

record row_group_stats =
  rg_rows :: int
  rg_columns :: "column_stats list"

record footer_stats =
  fs_schema_hash :: string
  fs_schema :: "(string \<times> string) list"
  fs_row_groups :: "row_group_stats list"
  fs_created_by :: json

definition parquet_type :: "int \<Rightarrow> string option" where
  "parquet_type t =
     (if t = 0 then Some ''BOOLEAN'' else if t = 1 then Some ''INT32'' else if t = 2 then Some ''INT64''
      else if t = 3 then Some ''INT96'' else if t = 4 then Some ''FLOAT'' else if t = 5 then Some ''DOUBLE''
      else if t = 6 then Some ''BYTE_ARRAY'' else if t = 7 then Some ''FIXED_LEN_BYTE_ARRAY'' else None)"

definition decode_min_max :: "string option \<Rightarrow> int \<Rightarrow> json" where
  "decode_min_max raw column_type =
     (case raw of
        None \<Rightarrow> JNull
      | Some b \<Rightarrow>
          if column_type = 0 then (if b = [] then JNull else JBool (byte_of (hd b) \<noteq> 0))
          else if column_type = 1 then (if length b < 4 then JNull else JInt (signed_of 32 (le_nat (take 4 b))))
          else if column_type = 2 then (if length b < 8 then JNull else JInt (signed_of 64 (le_nat (take 8 b))))
          else if column_type = 4 then (if length b < 4 then JNull else JFloat (ieee 8 23 (le_nat (take 4 b))))
          else if column_type = 5 then (if length b < 8 then JNull else JFloat (ieee 11 52 (le_nat (take 8 b))))
          else if column_type \<in> {6, 7} then (if utf8_ok b then JStr b else JNull)
          else JNull)"

text \<open>The variables of \<open>_parse_column_metadata\<close>.\<close>

record column_vars =
  cv_type :: int
  cv_path :: "string list"
  cv_min :: "string option"
  cv_max :: "string option"
  cv_nulls :: int

definition statistics_handlers :: "nat \<Rightarrow> int \<Rightarrow> column_vars handler option" where
  "statistics_handlers depth field_id =
     (if field_id \<in> {1, 5} then
        Some (expect depth {8} (\<lambda>v s. bindE (read_binary s) (\<lambda>(raw, r). Inr (v\<lparr>cv_max := Some raw\<rparr>, r))))
      else if field_id \<in> {2, 6} then
        Some (expect depth {8} (\<lambda>v s. bindE (read_binary s) (\<lambda>(raw, r). Inr (v\<lparr>cv_min := Some raw\<rparr>, r))))
      else if field_id = 3 then
        Some (expect depth {6} (\<lambda>v s. bindE (read_zigzag s) (\<lambda>(n, r). Inr (v\<lparr>cv_nulls := n\<rparr>, r))))
      else None)"

definition column_metadata_handlers :: "nat \<Rightarrow> int \<Rightarrow> column_vars handler option" where
  "column_metadata_handlers depth field_id =
     (if field_id = 1 then
        Some (expect depth {4, 5} (\<lambda>v s. bindE (read_zigzag s) (\<lambda>(t, r). Inr (v\<lparr>cv_type := t\<rparr>, r))))
      else if field_id = 3 then
        Some (expect_list depth 8 (\<lambda>v s. bindE (read_binary s) (\<lambda>(raw, r).
          Inr (v\<lparr>cv_path := cv_path v @ [decode_replace raw]\<rparr>, r))))
      else if field_id = 12 then
        Some (expect depth {12} (\<lambda>v s. read_struct depth (statistics_handlers depth) v s))
      else None)"

definition parse_column_metadata :: "nat \<Rightarrow> column_stats rd" where
  "parse_column_metadata depth s =
     bindE (read_struct depth (column_metadata_handlers depth)
              \<lparr>cv_type = 0, cv_path = [], cv_min = None, cv_max = None, cv_nulls = 0\<rparr> s) (\<lambda>(v, r).
       Inr (\<lparr>cs_path = join_on (CHR ''.'') (cv_path v), cs_min = decode_min_max (cv_min v) (cv_type v),
             cs_max = decode_min_max (cv_max v) (cv_type v), cs_nulls = cv_nulls v\<rparr>, r))"

definition parse_column_chunk :: "nat \<Rightarrow> column_stats rd" where
  "parse_column_chunk depth s =
     bindE (read_struct depth
              (\<lambda>field_id. if field_id = 3 then
                 Some (expect depth {12} (\<lambda>m s. bindE (parse_column_metadata depth s) (\<lambda>(c, r). Inr (Some c, r))))
               else None) None s) (\<lambda>(m, r).
       Inr (case m of Some c \<Rightarrow> c | None \<Rightarrow> \<lparr>cs_path = [], cs_min = JNull, cs_max = JNull, cs_nulls = 0\<rparr>, r))"

definition row_group_handlers :: "nat \<Rightarrow> int \<Rightarrow> row_group_stats handler option" where
  "row_group_handlers depth field_id =
     (if field_id = 1 then
        Some (expect_list depth 12 (\<lambda>g s. bindE (parse_column_chunk depth s) (\<lambda>(c, r).
          Inr (g\<lparr>rg_columns := rg_columns g @ [c]\<rparr>, r))))
      else if field_id = 3 then
        Some (expect depth {6} (\<lambda>g s. bindE (read_zigzag s) (\<lambda>(n, r). Inr (g\<lparr>rg_rows := n\<rparr>, r))))
      else None)"

definition parse_row_group :: "nat \<Rightarrow> row_group_stats rd" where
  "parse_row_group depth s = read_struct depth (row_group_handlers depth) \<lparr>rg_rows = 0, rg_columns = []\<rparr> s"

text \<open>A schema element: the name and the type, where they were given.\<close>

type_synonym element = "string option \<times> string option"

definition schema_element_handlers :: "nat \<Rightarrow> int \<Rightarrow> element handler option" where
  "schema_element_handlers depth field_id =
     (if field_id = 1 then
        Some (expect depth {4, 5} (\<lambda>(nm, ty) s. bindE (read_zigzag s) (\<lambda>(t, r). Inr ((nm, parquet_type t), r))))
      else if field_id = 4 then
        Some (expect depth {8} (\<lambda>(nm, ty) s. bindE (read_binary s) (\<lambda>(raw, r).
          Inr ((Some (decode_replace raw), ty), r))))
      else if field_id = 5 then
        Some (expect depth {4, 5} (\<lambda>el s. bindE (read_zigzag s) (\<lambda>(n, r). Inr (el, r))))
      else None)"

definition parse_schema_element :: "nat \<Rightarrow> element rd" where
  "parse_schema_element depth s = read_struct depth (schema_element_handlers depth) (None, None) s"

record file_vars =
  fv_schema :: "element list"
  fv_num_rows :: int
  fv_row_groups :: "row_group_stats list"
  fv_created_by :: "string option"

definition file_handlers :: "nat \<Rightarrow> int \<Rightarrow> file_vars handler option" where
  "file_handlers depth field_id =
     (if field_id = 2 then
        Some (expect_list depth 12 (\<lambda>v s. bindE (parse_schema_element depth s) (\<lambda>(el, r).
          Inr (v\<lparr>fv_schema := fv_schema v @ [el]\<rparr>, r))))
      else if field_id = 3 then
        Some (expect depth {6} (\<lambda>v s. bindE (read_zigzag s) (\<lambda>(n, r). Inr (v\<lparr>fv_num_rows := n\<rparr>, r))))
      else if field_id = 4 then
        Some (expect_list depth 12 (\<lambda>v s. bindE (parse_row_group depth s) (\<lambda>(g, r).
          Inr (v\<lparr>fv_row_groups := fv_row_groups v @ [g]\<rparr>, r))))
      else if field_id = 6 then
        Some (expect depth {8} (\<lambda>v s. bindE (read_binary s) (\<lambda>(raw, r).
          Inr (v\<lparr>fv_created_by := Some (decode_replace raw)\<rparr>, r))))
      else None)"

text \<open>\<open>json.dumps(value, sort_keys=True, separators=(item_sep, key_sep))\<close>.\<close>

definition dumps_float :: "prims \<Rightarrow> pyfloat \<Rightarrow> string" where
  "dumps_float P f =
     (case f of NaN \<Rightarrow> ''NaN'' | PosInf \<Rightarrow> ''Infinity'' | NegInf \<Rightarrow> ''-Infinity'' | Finite q \<Rightarrow> repr_value P (JFloat f))"

fun join_with :: "string \<Rightarrow> string list \<Rightarrow> string" where
  "join_with sep [] = []"
| "join_with sep [x] = x"
| "join_with sep (x # y # ys) = x @ sep @ join_with sep (y # ys)"

fun dumps :: "prims \<Rightarrow> string \<Rightarrow> string \<Rightarrow> json \<Rightarrow> string" where
  "dumps P item_sep key_sep JNull = ''null''"
| "dumps P item_sep key_sep (JBool b) = (if b then ''true'' else ''false'')"
| "dumps P item_sep key_sep (JInt i) = show_int i"
| "dumps P item_sep key_sep (JFloat f) = dumps_float P f"
| "dumps P item_sep key_sep (JStr s) = dumps_str s"
| "dumps P item_sep key_sep (JArr xs) =
     ''['' @ join_with item_sep (map (dumps P item_sep key_sep) xs) @ '']''"
| "dumps P item_sep key_sep (JObj kvs) =
     ''{'' @ join_with item_sep (map snd (sort_key fst
       (map (\<lambda>(k, v). (k, dumps_str k @ key_sep @ dumps P item_sep key_sep v)) kvs))) @ ''}''"

definition schema_json :: "(string \<times> string) list \<Rightarrow> json" where
  "schema_json schema = JArr (map (\<lambda>(nm, ty). JObj [(''name'', JStr nm), (''type'', JStr ty)]) schema)"

text \<open>Elements without a known type are left out; one with a type must have a name.\<close>

definition schema_of :: "element list \<Rightarrow> (string \<times> string) list res" where
  "schema_of elements =
     mapE (\<lambda>(nm, ty). case nm of None \<Rightarrow> Inl KeyError | Some n \<Rightarrow> Inr (n, the ty))
       (filter (\<lambda>(nm, ty). ty \<noteq> None) elements)"

definition parse_file_metadata :: "prims \<Rightarrow> nat \<Rightarrow> string \<Rightarrow> footer_stats res" where
  "parse_file_metadata P depth data =
     bindE (read_struct depth (file_handlers depth)
              \<lparr>fv_schema = [], fv_num_rows = 0, fv_row_groups = [], fv_created_by = None\<rparr> data) (\<lambda>(v, r).
     bindE (schema_of (fv_schema v)) (\<lambda>schema.
       Inr \<lparr>fs_schema_hash = blake3 P (dumps P '', '' '': '' (schema_json schema)),
            fs_schema = schema, fs_row_groups = fv_row_groups v,
            fs_created_by = (case fv_created_by v of None \<Rightarrow> JNull | Some c \<Rightarrow> JStr c)\<rparr>))"

definition MAX_FOOTER_SIZE :: nat where
  "MAX_FOOTER_SIZE = 64 * 1024 * 1024"

definition parse_parquet_footer :: "prims \<Rightarrow> nat \<Rightarrow> string \<Rightarrow> footer_stats res" where
  "parse_parquet_footer P depth source =
     (let end = length source in
      if end < 12 then Inl ValueError
      else
        let tail = drop (end - 8) source in
        if drop 4 tail \<noteq> ''PAR1'' then Inl ValueError
        else
          let footer_length = le_nat (take 4 tail) in
          if footer_length \<le> 0 \<or> footer_length > MAX_FOOTER_SIZE \<or> footer_length > end - 8 then Inl ValueError
          else parse_file_metadata P depth (take footer_length (drop (end - 8 - footer_length) source)))"

section \<open>The stats object\<close>

definition column_json :: "column_stats \<Rightarrow> json" where
  "column_json c = JObj [(''path'', JStr (cs_path c)), (''min'', cs_min c), (''max'', cs_max c), (''nulls'', JInt (cs_nulls c))]"

definition group_json :: "row_group_stats \<Rightarrow> json" where
  "group_json g = JObj [(''rows'', JInt (rg_rows g)), (''columns'', JArr (map column_json (rg_columns g)))]"

definition stats_json :: "footer_stats \<Rightarrow> json" where
  "stats_json st =
     JObj [(''schema_hash'', JStr (fs_schema_hash st)), (''schema'', schema_json (fs_schema st)),
           (''created_by'', fs_created_by st), (''row_groups'', JArr (map group_json (fs_row_groups st)))]"

definition serialize_footer_stats :: "prims \<Rightarrow> footer_stats \<Rightarrow> string" where
  "serialize_footer_stats P st = dumps P '','' '':'' (stats_json st)"

text \<open>\<open>for x in value\<close>, \<open>value["k"]\<close> and \<open>value.get("k")\<close> of a decoded value.\<close>

definition py_iter :: "json \<Rightarrow> json list res" where
  "py_iter v =
     (case v of
        JArr xs \<Rightarrow> Inr xs
      | JObj kvs \<Rightarrow> Inr (map JStr (rev (remdups (rev (map fst kvs)))))
      | JStr s \<Rightarrow> Inr (map JStr (utf8_chars (length s) s))
      | _ \<Rightarrow> Inl TypeError)"

definition py_item :: "json \<Rightarrow> string \<Rightarrow> json res" where
  "py_item v k =
     (case v of
        JObj kvs \<Rightarrow> (case obj_get kvs k of None \<Rightarrow> Inl KeyError | Some x \<Rightarrow> Inr x)
      | _ \<Rightarrow> Inl TypeError)"

definition py_get :: "json \<Rightarrow> string \<Rightarrow> json \<Rightarrow> json res" where
  "py_get v k dflt =
     (case v of
        JObj kvs \<Rightarrow> Inr (case obj_get kvs k of None \<Rightarrow> dflt | Some x \<Rightarrow> x)
      | _ \<Rightarrow> Inl AttributeError)"

definition json_truthy :: "json \<Rightarrow> bool" where
  "json_truthy v =
     (case v of
        JNull \<Rightarrow> False | JBool b \<Rightarrow> b | JInt i \<Rightarrow> i \<noteq> 0 | JFloat f \<Rightarrow> f \<noteq> Finite 0
      | JStr s \<Rightarrow> s \<noteq> [] | JArr xs \<Rightarrow> xs \<noteq> [] | JObj kvs \<Rightarrow> kvs \<noteq> [])"

definition parse_schema_item :: "prims \<Rightarrow> json \<Rightarrow> (string \<times> string) res" where
  "parse_schema_item P element =
     bindE (py_item element ''name'') (\<lambda>nm.
     bindE (py_get element ''type'' JNull) (\<lambda>ty.
       Inr (py_str P nm, if json_truthy ty then py_str P ty else [])))"

definition parse_column_item :: "prims \<Rightarrow> json \<Rightarrow> column_stats res" where
  "parse_column_item P column =
     bindE (py_get column ''path'' (JStr [])) (\<lambda>path.
     bindE (py_get column ''min'' JNull) (\<lambda>mn.
     bindE (py_get column ''max'' JNull) (\<lambda>mx.
     bindE (py_get column ''nulls'' (JInt 0)) (\<lambda>n.
     bindE (py_int n) (\<lambda>nulls.
       Inr \<lparr>cs_path = py_str P path, cs_min = mn, cs_max = mx, cs_nulls = nulls\<rparr>)))))"

definition parse_group_item :: "prims \<Rightarrow> json \<Rightarrow> row_group_stats res" where
  "parse_group_item P g =
     bindE (py_item g ''rows'') (\<lambda>r.
     bindE (py_int r) (\<lambda>rows.
     bindE (py_get g ''columns'' (JArr [])) (\<lambda>cs.
     bindE (py_iter cs) (\<lambda>items.
     bindE (mapE (parse_column_item P) items) (\<lambda>columns.
       Inr \<lparr>rg_rows = rows, rg_columns = columns\<rparr>)))))"

definition parse_footer_stats :: "prims \<Rightarrow> string \<Rightarrow> footer_stats res" where
  "parse_footer_stats P payload =
     (if \<not> utf8_ok payload then Inl UnicodeDecodeError
      else case json_loads P payload of
        None \<Rightarrow> Inl ValueError
      | Some data \<Rightarrow>
          bindE (py_get data ''schema'' (JArr [])) (\<lambda>sc.
          bindE (py_iter sc) (\<lambda>items.
          bindE (mapE (parse_schema_item P) items) (\<lambda>schema.
          bindE (py_get data ''row_groups'' (JArr [])) (\<lambda>gs.
          bindE (py_iter gs) (\<lambda>groups.
          bindE (mapE (parse_group_item P) groups) (\<lambda>row_groups.
          bindE (py_item data ''schema_hash'') (\<lambda>sh.
          bindE (py_get data ''created_by'' JNull) (\<lambda>created_by.
            Inr \<lparr>fs_schema_hash = py_str P sh, fs_schema = schema, fs_row_groups = row_groups,
                 fs_created_by = created_by\<rparr>)))))))))"

section \<open>Capture and cache\<close>

definition write_footer_file :: "string \<Rightarrow> string \<Rightarrow> bool \<Rightarrow> ('z repo_store_scheme, unit) sm" where
  "write_footer_file footer_hash payload if_missing s =
     (if if_missing \<and> object_exists Footer s footer_hash then (Inr (), s)
      else (Inr (), s\<lparr>rs_footers := alist_put footer_hash payload (rs_footers s)\<rparr>))"

definition capture_footer_stats :: "prims \<Rightarrow> nat \<Rightarrow> string \<Rightarrow> ('z repo_store_scheme, string option) sm" where
  "capture_footer_stats P depth source s =
     (case parse_parquet_footer P depth source of
        Inl e \<Rightarrow>
          if e \<in> {ValueError, UnicodeDecodeError, OSError, IndexError, StructError} then (Inr None, s)
          else (Inl e, s)
      | Inr st \<Rightarrow>
          let payload = serialize_footer_stats P st; stats_hash = blake3 P payload in
          if object_exists Footer s stats_hash then (Inr (Some stats_hash), s)
          else bindS (write_footer_file stats_hash payload True) (\<lambda>_. returnS (Some stats_hash)) s)"

text \<open>The cache directory: \<open>fc_writable\<close> is False where writing it raises an \<open>OSError\<close>.\<close>

record footer_cache =
  fc_memory :: "(string \<times> footer_stats) list"
  fc_files :: "(string \<times> string) list"
  fc_writable :: bool
  fc_maxsize :: nat

definition remember :: "string \<Rightarrow> footer_stats \<Rightarrow> footer_cache \<Rightarrow> footer_cache" where
  "remember h st c =
     (let memory = alist_put h st (fc_memory c) in
      c\<lparr>fc_memory := if length memory > fc_maxsize c then tl memory else memory\<rparr>)"

definition footer_cache_get ::
  "prims \<Rightarrow> (string \<Rightarrow> string option) \<Rightarrow> string \<Rightarrow> (footer_cache, footer_stats option) sm" where
  "footer_cache_get P read_footer h c =
     (case map_of (fc_memory c) h of
        Some st \<Rightarrow> (Inr (Some st), c\<lparr>fc_memory := filter (\<lambda>kv. fst kv \<noteq> h) (fc_memory c) @ [(h, st)]\<rparr>)
      | None \<Rightarrow>
          let (payload, c1) =
            (case map_of (fc_files c) h of
               Some p \<Rightarrow> (Some p, c)
             | None \<Rightarrow>
                 (case read_footer h of
                    None \<Rightarrow> (None, c)
                  | Some p \<Rightarrow> (Some p, if fc_writable c then c\<lparr>fc_files := alist_put h p (fc_files c)\<rparr> else c)))
          in (case payload of
                None \<Rightarrow> (Inr None, c1)
              | Some p \<Rightarrow>
                  (case parse_footer_stats P p of
                     Inl e \<Rightarrow>
                       if e \<in> {ValueError, UnicodeDecodeError, KeyError, TypeError} then (Inr None, c1)
                       else (Inl e, c1)
                   | Inr st \<Rightarrow> (Inr (Some st), remember h st c1))))"

section \<open>Integers read back\<close>

text \<open>The encodings of the thrift compact protocol.\<close>

function varint :: "nat \<Rightarrow> string" where
  "varint n = (if n < 128 then [char_of n] else char_of (n mod 128 + 128) # varint (n div 128))"
  by pat_completeness auto
termination
  by (relation "measure id") auto

declare varint.simps [simp del]

definition zigzag :: "int \<Rightarrow> nat" where
  "zigzag i = (if 0 \<le> i then nat (2 * i) else nat (- 2 * i - 1))"

lemma low_bits: "(b::nat) AND 0x7F = b mod 128"
  using take_bit_eq_mask [of 7 b] by (simp add: take_bit_eq_mod mask_numeral)

lemma high_bit:
  assumes "b < 256"
  shows "(b::nat) AND 0x80 = 0 \<longleftrightarrow> b < 128"
proof -
  have "b AND 0x80 = 0 \<longleftrightarrow> \<not> bit b 7"
    by (simp add: bit_iff_and_push_bit_not_eq_0 push_bit_eq_mult)
  also have "\<dots> \<longleftrightarrow> even (b div 128)" by (simp add: bit_iff_odd)
  also have "\<dots> \<longleftrightarrow> b < 128"
  proof (cases "b < 128")
    case False
    then have "b div 128 = 1" using assms by (intro div_nat_eqI) auto
    with False show ?thesis by simp
  qed simp
  finally show ?thesis .
qed

lemma or_shifted:
  assumes "(result::nat) < 2 ^ shift"
  shows "result OR push_bit shift b = result + b * 2 ^ shift"
proof -
  have "take_bit shift result = result" using assms by (simp add: take_bit_nat_eq_self)
  then have "result AND push_bit shift b = take_bit shift result AND push_bit shift b" by simp
  also have "\<dots> = 0" by (rule bit_eqI) (auto simp: bit_and_iff bit_push_bit_iff bit_take_bit_iff)
  finally show ?thesis by (simp add: disjunctive_add_eq_or [symmetric] push_bit_eq_mult)
qed

lemma byte_of_char_of [simp]: "n < 256 \<Longrightarrow> byte_of (char_of n) = n"
  by (simp add: byte_of_def)

lemma varint_loop_byte:
  assumes "result < 2 ^ shift" "b < 128"
  shows "varint_loop result shift (char_of b # r) = Inr (result + b * 2 ^ shift, r)"
    "varint_loop result shift (char_of (b + 128) # r) = varint_loop (result + b * 2 ^ shift) (shift + 7) r"
  using assms high_bit [of b] high_bit [of "b + 128"]
  by (simp_all add: byte_of_def low_bits or_shifted Let_def mod_less)

lemma shift_bound: "result < 2 ^ shift \<Longrightarrow> b < 128 \<Longrightarrow> result + b * 2 ^ shift < 2 ^ (shift + 7)" for result :: nat
proof -
  assume "result < 2 ^ shift" "b < 128"
  then have "result + b * 2 ^ shift < (b + 1) * 2 ^ shift" by simp
  also have "\<dots> \<le> 128 * 2 ^ shift" using \<open>b < 128\<close> by (intro mult_right_mono) auto
  finally show ?thesis by (simp add: power_add mult.commute)
qed

lemma varint_loop_varint:
  "result < 2 ^ shift \<Longrightarrow> varint_loop result shift (varint n @ r) = Inr (result + n * 2 ^ shift, r)"
proof (induction n arbitrary: result shift rule: varint.induct)
  case (1 n)
  show ?case
  proof (cases "n < 128")
    case True
    with 1 show ?thesis by (simp add: varint.simps [of n] varint_loop_byte del: varint_loop.simps)
  next
    case False
    have "r * 2 ^ shift + q * 2 ^ (shift + 7) = (r + 128 * q) * 2 ^ shift" for r q :: nat
      by (simp add: power_add algebra_simps)
    from this [of "n mod 128" "n div 128"]
    have "n mod 128 * 2 ^ shift + n div 128 * 2 ^ (shift + 7) = n * 2 ^ shift" by simp
    with False 1(1) [OF False shift_bound [OF 1(2), of "n mod 128"]] show ?thesis
      by (simp add: varint.simps [of n] varint_loop_byte [OF 1(2)] add.assoc del: varint_loop.simps)
  qed
qed

lemma read_varint_varint: "read_varint (varint n @ r) = Inr (n, r)"
  using varint_loop_varint [of 0 0 n r] by (simp add: read_varint_def)

lemma unzigzag_zigzag: "unzigzag (zigzag i) = i"
proof (cases "0 \<le> i")
  case True
  then show ?thesis by (simp add: unzigzag_def zigzag_def and_one_eq)
next
  case False
  then have "int (zigzag i) = - 2 * i - 1" by (simp add: zigzag_def)
  moreover have "(- 2 * i - 1) mod 2 = 1" "(- 2 * i - 1) div 2 = - i - 1" by presburger+
  ultimately show ?thesis by (simp add: unzigzag_def and_one_eq not_int_def)
qed

lemma read_zigzag_zigzag: "read_zigzag (varint (zigzag i) @ r) = Inr (i, r)"
  by (simp add: read_zigzag_def read_varint_varint unzigzag_zigzag)

lemma read_binary_bytes: "read_binary (varint (length b) @ b @ r) = Inr (b, r)"
  by (simp add: read_binary_def read_varint_varint)

section \<open>Every reader ends\<close>

text \<open>
  A result of a reader that was given \<open>n\<close> bytes: at most \<open>n\<close> bytes are left, or the bytes were
  rejected. \<open>OutOfFuel\<close> is neither, so these lemmas also say that a depth above the number of
  bytes is never used up.
\<close>

definition rejected :: "error \<Rightarrow> bool" where
  "rejected e \<longleftrightarrow> e = ValueError \<or> e = IndexError"

definition reads :: "nat \<Rightarrow> ('a \<times> string) res \<Rightarrow> bool" where
  "reads n m \<longleftrightarrow> (case m of Inl e \<Rightarrow> rejected e | Inr (x, r) \<Rightarrow> length r \<le> n)"

definition skips :: "nat \<Rightarrow> string res \<Rightarrow> bool" where
  "skips n m \<longleftrightarrow> (case m of Inl e \<Rightarrow> rejected e | Inr r \<Rightarrow> length r \<le> n)"

lemma reads_simps [simp]:
  "reads n (Inl e) \<longleftrightarrow> rejected e" "reads n (Inr (x, r)) \<longleftrightarrow> length r \<le> n"
  "skips n (Inl e) \<longleftrightarrow> rejected e" "skips n (Inr r) \<longleftrightarrow> length r \<le> n"
  "rejected ValueError" "rejected IndexError"
  by (simp_all add: reads_def skips_def rejected_def)

lemma reads_mono: "reads n m \<Longrightarrow> n \<le> k \<Longrightarrow> reads k m"
  by (auto simp: reads_def split: sum.splits)

lemma skips_mono: "skips n m \<Longrightarrow> n \<le> k \<Longrightarrow> skips k m"
  by (auto simp: skips_def split: sum.splits)

lemma reads_bind:
  assumes "reads k m" "\<And>x r. m = Inr (x, r) \<Longrightarrow> length r \<le> k \<Longrightarrow> reads n (f (x, r))"
  shows "reads n (bindE m f)"
  using assms by (cases m) (auto simp: reads_def)

lemma skips_bind:
  assumes "skips k m" "\<And>r. m = Inr r \<Longrightarrow> length r \<le> k \<Longrightarrow> skips n (f r)"
  shows "skips n (bindE m f)"
  using assms by (cases m) (auto simp: skips_def)

lemma reads_skips_bind:
  assumes "reads k m" "\<And>x r. m = Inr (x, r) \<Longrightarrow> length r \<le> k \<Longrightarrow> skips n (f (x, r))"
  shows "skips n (bindE m f)"
  using assms by (cases m) (auto simp: reads_def)

lemma skips_reads_bind:
  assumes "skips k m" "\<And>r. m = Inr r \<Longrightarrow> length r \<le> k \<Longrightarrow> reads n (f r)"
  shows "reads n (bindE m f)"
  using assms by (cases m) (auto simp: skips_def)

lemmas reads_binds = reads_bind skips_bind reads_skips_bind skips_reads_bind

lemma reads_byte: "reads (length s - 1) (read_byte s)"
  by (cases s) (simp_all add: read_byte_def)

lemma read_byte_rest: "read_byte s = Inr (b, r) \<Longrightarrow> length s = Suc (length r)"
  by (cases s) (simp_all add: read_byte_def)

lemma reads_varint_loop: "reads (length s - 1) (varint_loop result shift s)"
proof (induction result shift s rule: varint_loop.induct)
  case (2 result shift c cs)
  have "reads (length cs) (varint_loop r' k cs)"
    if "reads (length cs - 1) (varint_loop r' k cs)" for r' k
    using that by (rule reads_mono) simp
  with 2 show ?case by (simp add: Let_def)
qed simp

lemma reads_varint: "reads (length s - 1) (read_varint s)"
  unfolding read_varint_def by (rule reads_varint_loop)

lemma reads_zigzag: "reads (length s - 1) (read_zigzag s)"
  unfolding read_zigzag_def by (rule reads_bind [OF reads_varint]) simp

lemma reads_binary: "reads (length s - 1) (read_binary s)"
  unfolding read_binary_def by (rule reads_bind [OF reads_varint]) auto

lemma reads_list_header: "reads (length s - 1) (read_list_header s)"
  unfolding read_list_header_def
proof (rule reads_bind [OF reads_byte])
  fix b and r :: string assume "length r \<le> length s - 1"
  then show "reads (length s - 1) (case (b, r) of (b, r) \<Rightarrow> let sz = b div 16; element_type = b mod 16 in
      if sz = 15 then bindE (read_varint r) (\<lambda>(n, r'). Inr ((n, element_type), r'))
      else Inr ((sz, element_type), r))"
    by (auto simp: Let_def intro!: reads_bind [OF reads_varint])
qed

lemma skips_repeat:
  assumes "\<And>s. length s \<le> n \<Longrightarrow> skips (length s) (f s)" "length s \<le> n"
  shows "skips (length s) (repeatE f k s)"
  using assms(2)
proof (induction k arbitrary: s)
  case (Suc k)
  have "skips (length s) (bindE (f s) (repeatE f k))"
  proof (rule skips_bind [OF assms(1) [OF Suc.prems]])
    fix r :: string assume "length r \<le> length s"
    with Suc.prems Suc.IH [of r] show "skips (length s) (repeatE f k r)" by (auto intro: skips_mono)
  qed
  then show ?case by simp
qed simp

lemma skips_pair:
  assumes "\<And>t s. length s \<le> n \<Longrightarrow> skips (length s) (sk t s)" "length s \<le> n"
  shows "skips (length s) (skip_pair sk s)"
  unfolding skip_pair_def
proof (rule reads_skips_bind [OF reads_byte], clarify)
  fix t and r :: string assume r: "length r \<le> length s - 1"
  show "skips (length s) (bindE (sk t r) (\<lambda>r. bindE (read_byte r) (\<lambda>(t, y). sk t y)))"
  proof (rule skips_bind [OF assms(1)])
    fix r' :: string assume "length r' \<le> length r"
    with r assms(2) show "skips (length s) (bindE (read_byte r') (\<lambda>(t, y). sk t y))"
      by (intro reads_skips_bind [OF reads_byte]) (auto intro!: skips_mono [OF assms(1)])
  qed (use r assms(2) in simp)
qed

lemma skips_struct:
  assumes "\<And>t s. length s \<le> n \<Longrightarrow> skips (length s) (sk t s)"
  shows "length s \<le> Suc n \<Longrightarrow> length s < k \<Longrightarrow> skips (length s) (skip_struct sk k s)"
proof (induction k arbitrary: s)
  case (Suc k)
  have "skips (length s) (bindE (read_byte s) (\<lambda>(header, r). if header = 0 then Inr r
      else bindE (if header div 16 = 15 then bindE (read_zigzag r) (\<lambda>(d, r'). Inr r') else Inr r) (\<lambda>r.
           bindE (sk (header mod 16) r) (skip_struct sk k))))"
  proof (rule reads_skips_bind [OF reads_byte], clarify)
    fix header r assume b: "read_byte s = Inr (header, r)"
    then have s: "length s = Suc (length r)" by (rule read_byte_rest)
    show "skips (length s) (if header = 0 then Inr r
        else bindE (if header div 16 = 15 then bindE (read_zigzag r) (\<lambda>(d, r'). Inr r') else Inr r) (\<lambda>r.
             bindE (sk (header mod 16) r) (skip_struct sk k)))"
    proof (cases "header = 0")
      case False
      have "skips (length r) (if header div 16 = 15 then bindE (read_zigzag r) (\<lambda>(d, r'). Inr r') else Inr r)"
        by (auto intro!: reads_skips_bind [OF reads_zigzag])
      then have "skips (length s) (bindE (if header div 16 = 15 then bindE (read_zigzag r) (\<lambda>(d, r'). Inr r') else Inr r) (\<lambda>r.
             bindE (sk (header mod 16) r) (skip_struct sk k)))"
      proof (rule skips_bind)
        fix r1 :: string assume r1: "length r1 \<le> length r"
        show "skips (length s) (bindE (sk (header mod 16) r1) (skip_struct sk k))"
        proof (rule skips_bind [OF assms])
          fix r2 :: string assume r2: "length r2 \<le> length r1"
          with r1 s Suc.prems have "skips (length r2) (skip_struct sk k r2)" by (intro Suc.IH) auto
          with r1 r2 s show "skips (length s) (skip_struct sk k r2)" by (auto intro: skips_mono)
        qed (use r1 s Suc.prems in simp)
      qed
      with False show ?thesis by simp
    qed (use s in simp)
  qed
  then show ?case by simp
qed simp

lemma skips_value: "length s < depth \<Longrightarrow> skips (length s) (skip_value depth t s)"
proof (induction depth arbitrary: t s)
  case (Suc depth)
  show ?case
  proof (cases s)
    case Nil
    have "skips 0 (skip_struct (skip_value depth) (Suc 0) [])"
      by (simp add: read_byte_def)
    then show ?thesis
      by (simp add: Nil read_zigzag_def read_varint_def read_binary_def read_list_header_def read_byte_def)
  next
    case (Cons c cs)
    have IH: "skips (length x) (skip_value depth t' x)" if "length x \<le> length cs" for t' x
      using Suc that Cons by auto
    have listlike: "skips (length s) (bindE (read_list_header s) (\<lambda>((n, t), r). repeatE (f t) n r))"
      if f: "\<And>t x. length x \<le> length cs \<Longrightarrow> skips (length x) (f t x)" for f
    proof (rule reads_skips_bind [OF reads_list_header], clarify)
      fix n t and r :: string assume r: "length r \<le> length s - 1"
      then have "skips (length r) (repeatE (f t) n r)"
        by (intro skips_repeat [of "length cs"] f) (auto simp: Cons)
      with r show "skips (length s) (repeatE (f t) n r)" by (auto intro: skips_mono)
    qed
    have "skips (length s) (skip_struct (skip_value depth) (Suc (length s)) s)"
      by (rule skips_struct [of "length cs"]) (auto simp: Cons IH)
    then show ?thesis
      using listlike [of "skip_value depth", OF IH]
        listlike [of "\<lambda>t. skip_pair (skip_value depth)", OF skips_pair [OF IH]]
      by (auto intro!: reads_skips_bind [OF reads_zigzag] reads_skips_bind [OF reads_binary]
          simp del: skip_struct.simps)
  qed
qed simp

text \<open>\<open>handles n h\<close>: on at most \<open>n\<close> bytes the handler gives none back that it was not given.\<close>

definition handles :: "nat \<Rightarrow> 'st handler \<Rightarrow> bool" where
  "handles n h \<longleftrightarrow> (\<forall>t st s. length s \<le> n \<longrightarrow> reads (length s) (h t st s))"

definition consumes :: "nat \<Rightarrow> ('st \<Rightarrow> 'st rd) \<Rightarrow> bool" where
  "consumes n f \<longleftrightarrow> (\<forall>st s. length s \<le> n \<longrightarrow> reads (length s) (f st s))"

lemma consumes_read:
  assumes "\<And>s. length s \<le> n \<Longrightarrow> reads (length s) (rd s)"
  shows "consumes n (\<lambda>st s. bindE (rd s) (\<lambda>(x, r). Inr (g st x, r)))"
  unfolding consumes_def
proof (intro allI impI)
  fix st and s :: string
  assume "length s \<le> n"
  from assms [OF this] show "reads (length s) (bindE (rd s) (\<lambda>(x, r). Inr (g st x, r)))"
    by (rule reads_bind) simp
qed

lemma consumes_zigzag: "consumes n (\<lambda>st s. bindE (read_zigzag s) (\<lambda>(x, r). Inr (g st x, r)))"
  by (rule consumes_read) (auto intro: reads_mono [OF reads_zigzag])

lemma consumes_binary: "consumes n (\<lambda>st s. bindE (read_binary s) (\<lambda>(x, r). Inr (g st x, r)))"
  by (rule consumes_read) (auto intro: reads_mono [OF reads_binary])

lemma handles_expect:
  fixes h :: "'st \<Rightarrow> 'st rd"
  assumes "n < depth" "consumes n h"
  shows "handles n (expect depth types h)"
  unfolding handles_def
proof (intro allI impI)
  fix t and st :: 'st and s :: string
  assume s: "length s \<le> n"
  have "reads (length s) (bindE (skip_value depth t s) (\<lambda>r. Inr (st, r)))"
    by (rule skips_reads_bind [OF skips_value]) (use s assms(1) in auto)
  with assms(2) s show "reads (length s) (expect depth types h t st s)"
    by (auto simp: expect_def consumes_def)
qed

lemma reads_items:
  assumes "consumes n f"
  shows "length s \<le> n \<Longrightarrow> reads (length s) (read_items f k st s)"
proof (induction k arbitrary: st s)
  case (Suc k)
  have "reads (length s) (bindE (f st s) (\<lambda>(st', r). read_items f k st' r))"
  proof (rule reads_bind)
    show "reads (length s) (f st s)" using assms Suc.prems by (simp add: consumes_def)
    fix st' and r :: string assume "length r \<le> length s"
    with Suc.IH [of r st'] Suc.prems
    show "reads (length s) (case (st', r) of (st', r) \<Rightarrow> read_items f k st' r)"
      by (auto intro: reads_mono)
  qed
  then show ?case by simp
qed simp

lemma handles_expect_list:
  fixes f :: "'st \<Rightarrow> 'st rd"
  assumes "n < depth" "consumes n f"
  shows "handles n (expect_list depth element_type f)"
  unfolding expect_list_def
proof (rule handles_expect [OF assms(1)], unfold consumes_def, intro allI impI)
  fix st :: 'st and s :: string
  assume s: "length s \<le> n"
  show "reads (length s) (bindE (read_list_header s) (\<lambda>((n, t), r).
      if t \<noteq> element_type then bindE (repeatE (skip_value depth t) n r) (\<lambda>r'. Inr (st, r'))
      else read_items f n st r))"
  proof (rule reads_bind [OF reads_list_header], clarify)
    fix k t and r :: string
    assume r: "length r \<le> length s - 1"
    have "skips (length r) (repeatE (skip_value depth t) k r)"
      by (rule skips_repeat [of n]) (use r s assms(1) in \<open>auto intro: skips_value\<close>)
    then have "reads (length s) (bindE (repeatE (skip_value depth t) k r) (\<lambda>r'. Inr (st, r')))"
      by (rule skips_reads_bind) (use r in auto)
    moreover have "reads (length s) (read_items f k st r)"
      by (rule reads_mono [OF reads_items [OF assms(2)]]) (use r s in auto)
    ultimately show "reads (length s)
        (if t \<noteq> element_type then bindE (repeatE (skip_value depth t) k r) (\<lambda>r'. Inr (st, r'))
         else read_items f k st r)" by simp
  qed
qed

lemma reads_fields:
  assumes "n < depth" "\<And>i h. handlers i = Some h \<Longrightarrow> handles n h"
  shows "length s \<le> Suc n \<Longrightarrow> length s < k \<Longrightarrow> reads (length s) (read_fields depth handlers k i st s)"
proof (induction k arbitrary: i st s)
  case (Suc k)
  have "reads (length s) (read_fields depth handlers (Suc k) i st s)"
    unfolding read_fields.simps
  proof (rule reads_bind [OF reads_byte], clarify)
    fix header r assume "read_byte s = Inr (header, r)"
    then have s: "length s = Suc (length r)" by (rule read_byte_rest)
    have field: "reads (length s) (bindE (case handlers j of Some h \<Rightarrow> h t st r1
          | None \<Rightarrow> bindE (skip_value depth t r1) (\<lambda>r'. Inr (st, r')))
        (\<lambda>(st', r'). read_fields depth handlers k j st' r'))" if r1: "length r1 \<le> length r" for j t r1
    proof (rule reads_bind [of "length r1"])
      have "reads (length r1) (bindE (skip_value depth t r1) (\<lambda>r'. Inr (st, r')))"
        by (rule skips_reads_bind [OF skips_value]) (use r1 s Suc.prems assms(1) in auto)
      with assms(2) r1 s Suc.prems show "reads (length r1) (case handlers j of Some h \<Rightarrow> h t st r1
          | None \<Rightarrow> bindE (skip_value depth t r1) (\<lambda>r'. Inr (st, r')))"
        by (auto simp: handles_def split: option.split)
      fix st' and r2 :: string assume r2: "length r2 \<le> length r1"
      with r1 s Suc.prems have "reads (length r2) (read_fields depth handlers k j st' r2)"
        by (intro Suc.IH) auto
      with r1 r2 s show "reads (length s) (case (st', r2) of (st', r') \<Rightarrow> read_fields depth handlers k j st' r')"
        by (auto intro: reads_mono)
    qed
    have delta: "reads (length r) (if header div 16 = 15 then read_zigzag r else Inr (int (header div 16), r))"
      using reads_mono [OF reads_zigzag, of r "length r"] by simp
    show "reads (length s) (if header div 16 = 0 then Inr (st, r)
       else bindE (if header div 16 = 15 then read_zigzag r else Inr (int (header div 16), r))
             (\<lambda>(delta, r). let field_id = i + delta; field_type = header mod 16 in
               bindE (case handlers field_id of Some h \<Rightarrow> h field_type st r
                  | None \<Rightarrow> bindE (skip_value depth field_type r) (\<lambda>r'. Inr (st, r')))
                (\<lambda>(st', r'). read_fields depth handlers k field_id st' r')))"
    proof (cases "header div 16 = 0")
      case False
      have "reads (length s) (bindE (if header div 16 = 15 then read_zigzag r else Inr (int (header div 16), r))
             (\<lambda>(delta, r). let field_id = i + delta; field_type = header mod 16 in
               bindE (case handlers field_id of Some h \<Rightarrow> h field_type st r
                  | None \<Rightarrow> bindE (skip_value depth field_type r) (\<lambda>r'. Inr (st, r')))
                (\<lambda>(st', r'). read_fields depth handlers k field_id st' r')))"
        by (rule reads_bind [OF delta]) (simp add: Let_def field)
      with False show ?thesis by simp
    qed (simp add: s)
  qed
  then show ?case .
qed simp

lemma consumes_struct:
  assumes "n < depth" "\<And>i h. handlers i = Some h \<Longrightarrow> handles n h"
  shows "consumes n (\<lambda>st s. read_struct depth handlers (g st) s)"
  unfolding consumes_def read_struct_def
  by (intro allI impI reads_fields [OF assms(1)]) (use assms(2) in auto)

lemma consumes_parse:
  assumes "n < depth" "\<And>i h. handlers i = Some h \<Longrightarrow> handles n h" "length s \<le> n"
  shows "reads (length s) (bindE (read_struct depth handlers st s) (\<lambda>(v, r). Inr (g v, r)))"
proof (rule reads_bind)
  show "reads (length s) (read_struct depth handlers st s)"
    using consumes_struct [where g = "\<lambda>x. x", OF assms(1,2)] assms(3) by (simp add: consumes_def)
qed simp

lemmas handler_intros = handles_expect handles_expect_list consumes_zigzag consumes_binary consumes_struct

lemma statistics_handled: "n < depth \<Longrightarrow> statistics_handlers depth i = Some h \<Longrightarrow> handles n h"
  by (auto simp: statistics_handlers_def intro!: handler_intros split: if_splits)

lemma consumes_statistics: "n < depth \<Longrightarrow> consumes n (read_struct depth (statistics_handlers depth))"
  by (rule consumes_struct [where g = "\<lambda>v. v", simplified]) (auto intro: statistics_handled)

lemma column_metadata_handled:
  "n < depth \<Longrightarrow> column_metadata_handlers depth i = Some h \<Longrightarrow> handles n h"
  by (auto simp: column_metadata_handlers_def intro!: handler_intros consumes_statistics split: if_splits)

lemma reads_column_metadata: "length s < depth \<Longrightarrow> reads (length s) (parse_column_metadata depth s)"
  unfolding parse_column_metadata_def
  by (rule consumes_parse [of "length s"]) (auto intro: column_metadata_handled)

lemma reads_column_chunk: "length s < depth \<Longrightarrow> reads (length s) (parse_column_chunk depth s)"
  unfolding parse_column_chunk_def
  by (rule consumes_parse [of "length s"])
    (auto intro!: handles_expect consumes_read reads_column_metadata split: if_splits)

lemma reads_row_group: "length s < depth \<Longrightarrow> reads (length s) (parse_row_group depth s)"
  unfolding parse_row_group_def
  using consumes_struct [of "length s" depth "row_group_handlers depth" "\<lambda>x. x"]
  by (fastforce simp: consumes_def row_group_handlers_def
      intro!: handler_intros consumes_read reads_column_chunk split: if_splits)

lemma schema_element_handled: "n < depth \<Longrightarrow> schema_element_handlers depth i = Some h \<Longrightarrow> handles n h"
  by (auto simp: schema_element_handlers_def consumes_def split: if_splits
      intro!: handles_expect reads_bind [OF reads_zigzag] reads_bind [OF reads_binary])

lemma reads_schema_element: "length s < depth \<Longrightarrow> reads (length s) (parse_schema_element depth s)"
  using consumes_struct [of "length s" depth "schema_element_handlers depth" "\<lambda>x. x"]
  by (auto simp: parse_schema_element_def consumes_def schema_element_handled)

lemma file_handled: "n < depth \<Longrightarrow> file_handlers depth i = Some h \<Longrightarrow> handles n h"
  by (auto simp: file_handlers_def split: if_splits
      intro!: handler_intros consumes_read reads_schema_element reads_row_group)

text \<open>
  The parser ends on every input, with stats or with one of three exceptions, when the depth
  exceeds the length of the footer.
\<close>

lemma parse_file_metadata_errors:
  assumes "length data < depth" "parse_file_metadata P depth data = Inl e"
  shows "e = ValueError \<or> e = IndexError \<or> e = KeyError"
proof -
  have "reads (length data) (read_struct depth (file_handlers depth) st data)" for st
    using consumes_struct [of "length data" depth "file_handlers depth" "\<lambda>x. x"] assms(1) file_handled
    by (simp add: consumes_def)
  moreover have "x = KeyError" if "schema_of els = Inl x" for els x
  proof -
    have "mapE (\<lambda>(nm, ty). case nm of None \<Rightarrow> Inl KeyError | Some n \<Rightarrow> Inr (n, the ty)) ys = Inl x \<Longrightarrow> x = KeyError"
      for ys :: "element list"
      by (induction ys) (auto simp: bindE_def split: sum.splits option.splits)
    with that show ?thesis by (simp add: schema_of_def)
  qed
  ultimately show ?thesis
    using assms(2) by (fastforce simp: parse_file_metadata_def reads_def rejected_def bindE_def split: sum.splits)
qed

lemma parse_parquet_footer_errors:
  assumes "length source < depth" "parse_parquet_footer P depth source = Inl e"
  shows "e = ValueError \<or> e = IndexError \<or> e = KeyError"
proof (rule ccontr)
  assume no: "\<not> ?thesis"
  let ?n = "le_nat (take 4 (drop (length source - 8) source))"
  from assms(2) no have "parse_file_metadata P depth (take ?n (drop (length source - 8 - ?n) source)) = Inl e"
    by (auto simp: parse_parquet_footer_def Let_def split: if_splits)
  moreover have "length (take ?n (drop (length source - 8 - ?n) source)) < depth"
    using assms(1) by (simp only: length_take length_drop)
  ultimately show False using parse_file_metadata_errors no by blast
qed

section \<open>The stats object reads back\<close>

text \<open>What \<open>json.loads(json.dumps(v, sort_keys=True))\<close> is: \<open>v\<close> with the keys of its objects sorted.\<close>

fun sort_keys :: "json \<Rightarrow> json" where
  "sort_keys (JArr xs) = JArr (map sort_keys xs)"
| "sort_keys (JObj kvs) = JObj (sort_key fst (map (\<lambda>(k, v). (k, sort_keys v)) kvs))"
| "sort_keys v = v"

definition plain_stats :: "footer_stats \<Rightarrow> bool" where
  "plain_stats st \<longleftrightarrow>
     sort_keys (fs_created_by st) = fs_created_by st \<and>
     (\<forall>(nm, ty) \<in> set (fs_schema st). ty \<noteq> []) \<and>
     (\<forall>g \<in> set (fs_row_groups st). \<forall>c \<in> set (rg_columns g).
        sort_keys (cs_min c) = cs_min c \<and> sort_keys (cs_max c) = cs_max c)"

lemma parse_column_json:
  assumes "sort_keys (cs_min c) = cs_min c" "sort_keys (cs_max c) = cs_max c"
  shows "parse_column_item P (sort_keys (column_json c)) = Inr c"
  using assms by (simp add: parse_column_item_def column_json_def py_get_def obj_get_def)

lemma parse_group_json:
  assumes "\<forall>c \<in> set (rg_columns g). sort_keys (cs_min c) = cs_min c \<and> sort_keys (cs_max c) = cs_max c"
  shows "parse_group_item P (sort_keys (group_json g)) = Inr g"
proof -
  have "mapE (parse_column_item P) (map (sort_keys \<circ> column_json) (rg_columns g)) = Inr (rg_columns g)"
    using assms unfolding mapE_Inr_iff list_all2_conv_all_nth
    by (auto intro!: parse_column_json dest: nth_mem)
  then show ?thesis
    by (simp add: parse_group_item_def group_json_def py_get_def py_item_def obj_get_def py_iter_def comp_def)
qed

lemma parse_serialize_footer_stats:
  assumes loads: "json_loads P (serialize_footer_stats P st) = Some (sort_keys (stats_json st))"
    and utf8: "utf8_ok (serialize_footer_stats P st)" and "plain_stats st"
  shows "parse_footer_stats P (serialize_footer_stats P st) = Inr st"
proof -
  have schema: "mapE (parse_schema_item P) (map (\<lambda>x. sort_keys (case x of (nm, ty) \<Rightarrow>
      JObj [(''name'', JStr nm), (''type'', JStr ty)])) (fs_schema st)) = Inr (fs_schema st)"
    using assms(3) unfolding plain_stats_def mapE_Inr_iff list_all2_conv_all_nth
    by (auto simp: parse_schema_item_def py_get_def py_item_def obj_get_def json_truthy_def split: prod.splits dest!: nth_mem)
  have groups: "mapE (parse_group_item P) (map (\<lambda>x. sort_keys (group_json x)) (fs_row_groups st))
      = Inr (fs_row_groups st)"
    using assms(3) unfolding plain_stats_def mapE_Inr_iff list_all2_conv_all_nth
    by (auto intro!: parse_group_json dest!: nth_mem)
  have created: "sort_keys (fs_created_by st) = fs_created_by st" using assms(3) by (simp add: plain_stats_def)
  show ?thesis
    unfolding parse_footer_stats_def loads
    using utf8 schema groups
    by (simp add: stats_json_def py_get_def py_item_def obj_get_def schema_json_def py_iter_def comp_def created)
qed

text \<open>An invariant of the variables: kept by every handler, it holds of what a struct leaves in them.\<close>

definition guards :: "('st \<Rightarrow> bool) \<Rightarrow> ('st \<Rightarrow> 'st rd) \<Rightarrow> bool" where
  "guards I f \<longleftrightarrow> (\<forall>st s st' r. f st s = Inr (st', r) \<longrightarrow> I st \<longrightarrow> I st')"

lemma guardsD: "guards I f \<Longrightarrow> f st s = Inr (st', r) \<Longrightarrow> I st \<Longrightarrow> I st'"
  by (auto simp: guards_def)

lemma guards_skip: "bindE (skip s) (\<lambda>r. Inr (st, r)) = Inr (st', r') \<Longrightarrow> st' = st"
  by (auto simp: bindE_Inr_iff)

lemma guards_fields:
  assumes "\<And>i h t. handlers i = Some h \<Longrightarrow> guards I (h t)"
  shows "guards I (read_fields depth handlers k i)"
proof (induction k arbitrary: i)
  case (Suc k)
  show ?case unfolding guards_def
  proof (intro allI impI)
    fix st s st' r
    assume run: "read_fields depth handlers (Suc k) i st s = Inr (st', r)" and "I st"
    have "I st'" if "(case handlers j of None \<Rightarrow> bindE (skip_value depth t r1) (\<lambda>r'. Inr (st, r'))
          | Some h \<Rightarrow> h t st r1) = Inr (st1, r2)" "read_fields depth handlers k j st1 r2 = Inr (st', r)"
      for j t r1 st1 r2
    proof -
      from that(1) have "I st1"
        using assms \<open>I st\<close> by (auto simp: bindE_Inr_iff dest: guardsD split: option.splits)
      with Suc.IH that(2) show ?thesis by (auto dest: guardsD)
    qed
    with run \<open>I st\<close> show "I st'" by (auto simp: bindE_Inr_iff Let_def split: if_splits)
  qed
qed (simp add: guards_def)

lemma guards_struct: "(\<And>i h t. handlers i = Some h \<Longrightarrow> guards I (h t)) \<Longrightarrow> guards I (read_struct depth handlers)"
  unfolding guards_def read_struct_def using guards_fields unfolding guards_def by metis

lemma guards_expect: "guards I f \<Longrightarrow> guards I (expect depth types f t)"
  by (auto simp: guards_def expect_def bindE_Inr_iff split: if_splits)

lemma guards_items: "guards I f \<Longrightarrow> guards I (read_items f n)"
proof (induction n)
  case (Suc n)
  then show ?case unfolding guards_def by (simp add: bindE_Inr_iff) blast
qed (simp add: guards_def)

lemma guards_expect_list: "guards I f \<Longrightarrow> guards I (expect_list depth et f t)"
  unfolding expect_list_def
proof (rule guards_expect)
  assume "guards I f"
  then have "guards I (read_items f n)" for n by (rule guards_items)
  then show "guards I (\<lambda>st s. bindE (read_list_header s) (\<lambda>((n, t), r).
      if t \<noteq> et then bindE (repeatE (skip_value depth t) n r) (\<lambda>r'. Inr (st, r')) else read_items f n st r))"
    unfolding guards_def by (simp add: bindE_Inr_iff split: prod.splits) blast
qed

definition plain_column :: "column_stats \<Rightarrow> bool" where
  "plain_column c \<longleftrightarrow> sort_keys (cs_min c) = cs_min c \<and> sort_keys (cs_max c) = cs_max c"

lemma sort_keys_decode: "sort_keys (decode_min_max raw t) = decode_min_max raw t"
  by (simp add: decode_min_max_def split: option.split)

lemma plain_column_metadata: "parse_column_metadata depth s = Inr (c, r) \<Longrightarrow> plain_column c"
  by (auto simp: parse_column_metadata_def bindE_Inr_iff plain_column_def sort_keys_decode)

lemma guards_read: "(\<And>s x r st. rd s = Inr (x, r) \<Longrightarrow> I st \<Longrightarrow> I (g st x)) \<Longrightarrow>
    guards I (\<lambda>st s. bindE (rd s) (\<lambda>(x, r). Inr (g st x, r)))"
  by (auto simp: guards_def bindE_Inr_iff)

lemma plain_column_chunk: "parse_column_chunk depth s = Inr (c, r) \<Longrightarrow> plain_column c"
proof -
  let ?I = "\<lambda>m. case m of None \<Rightarrow> True | Some c \<Rightarrow> plain_column c"
  have "guards ?I (read_struct depth (\<lambda>field_id. if field_id = 3 then
                 Some (expect depth {12} (\<lambda>m s. bindE (parse_column_metadata depth s) (\<lambda>(c, r). Inr (Some c, r))))
               else None))"
    by (rule guards_struct)
      (auto split: if_splits intro!: guards_expect guards_read intro: plain_column_metadata)
  then show "parse_column_chunk depth s = Inr (c, r) \<Longrightarrow> plain_column c"
    by (auto simp: parse_column_chunk_def bindE_Inr_iff plain_column_def dest!: guardsD split: option.splits)
qed

lemma plain_row_group: "parse_row_group depth s = Inr (g, r) \<Longrightarrow> \<forall>c \<in> set (rg_columns g). plain_column c"
proof -
  let ?I = "\<lambda>g. \<forall>c \<in> set (rg_columns g). plain_column c"
  have "guards ?I (read_struct depth (row_group_handlers depth))"
    by (rule guards_struct)
      (auto simp: row_group_handlers_def split: if_splits
        intro!: guards_expect guards_expect_list guards_read intro: plain_column_chunk)
  then show "parse_row_group depth s = Inr (g, r) \<Longrightarrow> ?I g"
    by (auto simp: parse_row_group_def dest!: guardsD)
qed

lemma named_type: "parse_schema_element depth s = Inr ((nm, ty), r) \<Longrightarrow> ty \<noteq> Some []"
proof -
  let ?I = "\<lambda>(nm, ty). ty \<noteq> Some ([] :: string)"
  have "guards ?I (read_struct depth (schema_element_handlers depth))"
    by (rule guards_struct)
      (auto simp: schema_element_handlers_def split: if_splits intro!: guards_expect,
       auto simp: guards_def bindE_Inr_iff parquet_type_def split: if_splits)
  then show "parse_schema_element depth s = Inr ((nm, ty), r) \<Longrightarrow> ty \<noteq> Some []"
    by (auto simp: parse_schema_element_def dest!: guardsD)
qed

lemma guards_file:
  "guards (\<lambda>v. (\<forall>(nm, ty) \<in> set (fv_schema v). ty \<noteq> Some []) \<and>
      (\<forall>g \<in> set (fv_row_groups v). \<forall>c \<in> set (rg_columns g). plain_column c))
     (read_struct depth (file_handlers depth))"
  by (rule guards_struct)
    (auto simp: file_handlers_def split: if_splits intro!: guards_expect guards_expect_list guards_read
      dest: named_type plain_row_group [THEN bspec])

lemma schema_of_typed:
  assumes "schema_of els = Inr schema" "\<forall>(nm, ty) \<in> set els. ty \<noteq> Some []"
  shows "\<forall>(nm, ty) \<in> set schema. ty \<noteq> []"
proof -
  have "mapE (\<lambda>(nm, ty). case nm of None \<Rightarrow> Inl KeyError | Some n \<Rightarrow> Inr (n, the ty)) els = Inr schema \<Longrightarrow>
      \<forall>(nm, ty) \<in> set els. ty \<noteq> None \<and> ty \<noteq> Some [] \<Longrightarrow> ?thesis" for els :: "element list"
    by (induction els arbitrary: schema) (auto simp: bindE_Inr_iff split: option.splits)
  with assms show ?thesis unfolding schema_of_def by fastforce
qed

lemma parsed_metadata_plain:
  assumes "parse_file_metadata P depth data = Inr st"
  shows "plain_stats st"
proof -
  from assms obtain v r schema where v: "read_struct depth (file_handlers depth)
        \<lparr>fv_schema = [], fv_num_rows = 0, fv_row_groups = [], fv_created_by = None\<rparr> data = Inr (v, r)"
      and schema: "schema_of (fv_schema v) = Inr schema"
      and st: "st = \<lparr>fs_schema_hash = blake3 P (dumps P '', '' '': '' (schema_json schema)),
            fs_schema = schema, fs_row_groups = fv_row_groups v,
            fs_created_by = (case fv_created_by v of None \<Rightarrow> JNull | Some c \<Rightarrow> JStr c)\<rparr>"
    by (auto simp: parse_file_metadata_def bindE_Inr_iff)
  from guardsD [OF guards_file v]
  have ok: "\<forall>(nm, ty) \<in> set (fv_schema v). ty \<noteq> Some []"
    "\<forall>g \<in> set (fv_row_groups v). \<forall>c \<in> set (rg_columns g). plain_column c" by auto
  from schema_of_typed [OF schema ok(1)] ok(2) show ?thesis
    by (simp add: plain_stats_def st plain_column_def split: option.split)
qed

lemma parsed_plain: "parse_parquet_footer P depth source = Inr st \<Longrightarrow> plain_stats st"
  unfolding parse_parquet_footer_def Let_def by (rule parsed_metadata_plain) (simp split: if_splits)

section \<open>Capture\<close>

lemma captured_object:
  assumes "capture_footer_stats P depth source s = (Inr (Some h), s')"
    and "\<And>p. map_of (rs_footers s) h = Some p \<Longrightarrow> blake3 P p = h"
  shows "\<exists>st p. parse_parquet_footer P depth source = Inr st \<and> h = blake3 P (serialize_footer_stats P st) \<and>
      map_of (rs_footers s') h = Some p \<and> blake3 P p = h \<and>
      (map_of (rs_footers s) h = None \<longrightarrow> p = serialize_footer_stats P st)"
  using assms
  by (auto simp: capture_footer_stats_def Let_def bindS_def write_footer_file_def object_exists_def
      lookup_object_def split: sum.splits if_splits)

lemma capture_other:
  assumes "length source < depth" "capture_footer_stats P depth source s = (r, s')" "\<forall>h. r \<noteq> Inr (Some h)"
  shows "s' = s \<and> (r = Inr None \<or> r = Inl KeyError)"
  using assms(2,3) parse_parquet_footer_errors [OF assms(1), of P]
  by (auto simp: capture_footer_stats_def Let_def bindS_def write_footer_file_def split: sum.splits if_splits)

section \<open>The cache\<close>

text \<open>The read without a cache, as \<open>plan_pruned_scan\<close> does it when it is given none.\<close>

definition read_stats :: "prims \<Rightarrow> (string \<Rightarrow> string option) \<Rightarrow> string \<Rightarrow> footer_stats option res" where
  "read_stats P read_footer h =
     (case read_footer h of
        None \<Rightarrow> Inr None
      | Some payload \<Rightarrow>
          (case parse_footer_stats P payload of
             Inl e \<Rightarrow> if e \<in> {ValueError, UnicodeDecodeError, KeyError, TypeError} then Inr None else Inl e
           | Inr st \<Rightarrow> Inr (Some st)))"

definition cache_coherent :: "prims \<Rightarrow> (string \<Rightarrow> string option) \<Rightarrow> footer_cache \<Rightarrow> bool" where
  "cache_coherent P content c \<longleftrightarrow>
     (\<forall>(h, p) \<in> set (fc_files c). content h = Some p) \<and>
     (\<forall>(h, st) \<in> set (fc_memory c). \<exists>p. content h = Some p \<and> parse_footer_stats P p = Inr st)"

lemma set_alist_put: "set (alist_put k v kvs) \<subseteq> insert (k, v) (set kvs)"
  by (induction kvs) auto

lemma footer_cache_get_plain:
  assumes "cache_coherent P content c" "footer_cache_get P content h c = (r, c')"
  shows "r = read_stats P content h \<and> cache_coherent P content c'"
proof -
  have files: "content h = Some p" if "map_of (fc_files c) h = Some p" for p
    using assms(1) map_of_SomeD [OF that] by (auto simp: cache_coherent_def)
  have mem: "\<exists>p. content h = Some p \<and> parse_footer_stats P p = Inr st" if "map_of (fc_memory c) h = Some st" for st
    using assms(1) map_of_SomeD [OF that] by (auto simp: cache_coherent_def)
  have put: "cache_coherent P content (c\<lparr>fc_files := alist_put h p (fc_files c)\<rparr>)" if "content h = Some p" for p
    using assms(1) that set_alist_put [of h p "fc_files c"] by (auto simp: cache_coherent_def)
  have remembered: "cache_coherent P content (remember h st d)"
    if "cache_coherent P content d" "content h = Some p" "parse_footer_stats P p = Inr st" for d p st
  proof -
    have "set (tl (alist_put h st (fc_memory d))) \<subseteq> set (alist_put h st (fc_memory d))"
      by (cases "alist_put h st (fc_memory d)") auto
    then have "set (fc_memory (remember h st d)) \<subseteq> insert (h, st) (set (fc_memory d))"
      using set_alist_put [of h st "fc_memory d"] by (auto simp: remember_def Let_def)
    with that show ?thesis by (auto simp: cache_coherent_def remember_def Let_def)
  qed
  show ?thesis
  proof (cases "map_of (fc_memory c) h")
    case (Some st)
    from mem [OF Some] assms(1,2) Some show ?thesis
      by (auto simp: footer_cache_get_def read_stats_def cache_coherent_def)
  next
    case memory: None
    show ?thesis
    proof (cases "map_of (fc_files c) h")
      case (Some p)
      with assms memory files [OF Some] remembered [OF assms(1) files [OF Some]] show ?thesis
        by (auto simp: footer_cache_get_def read_stats_def split: sum.splits if_splits)
    next
      case None
      with assms memory put remembered show ?thesis
        by (auto simp: footer_cache_get_def read_stats_def split: sum.splits if_splits option.splits)
    qed
  qed
qed

lemma footer_cache_bounded:
  assumes "footer_cache_get P content h c = (r, c')" "length (fc_memory c) \<le> fc_maxsize c" "fc_maxsize c = m"
  shows "length (fc_memory c') \<le> fc_maxsize c' \<and> fc_maxsize c' = m"
proof -
  have len: "length (alist_put h st kvs) \<le> Suc (length kvs)" for st and kvs :: "(string \<times> footer_stats) list"
    by (induction kvs) auto
  have "length (filter (\<lambda>kv. fst kv \<noteq> h) kvs) < length kvs" if "map_of kvs h = Some st"
    for st and kvs :: "(string \<times> footer_stats) list"
    using map_of_SomeD [OF that] by (intro length_filter_less) auto
  then have hit: "Suc (length (filter (\<lambda>kv. fst kv \<noteq> h) (fc_memory c))) \<le> length (fc_memory c)"
    if "map_of (fc_memory c) h = Some st" for st
    using that by (simp add: Suc_leI)
  have "length (fc_memory (remember h st d)) \<le> n" if "length (fc_memory d) \<le> n" "fc_maxsize d = n" for st d n
    using that len [of st "fc_memory d"] by (auto simp: remember_def Let_def)
  moreover have "fc_maxsize (remember h st d) = fc_maxsize d" for st d by (simp add: remember_def Let_def)
  ultimately show ?thesis
    using assms hit
    by (auto simp: footer_cache_get_def split: option.splits sum.splits if_splits intro: le_trans)
qed

end
