(* ===== verification/Pruning.thy ===== *)
theory Pruning
  imports Footer
begin

text \<open>
  \<open>core/query/pruning.py\<close>: the WHERE clause, the three-valued decision on a row group, and the
  scan plan of a prefix. The regular expressions are written out as the scanners they are;
  keywords are matched in either case of ASCII.

  The lemmas: a row group whose stats describe its rows is kept whenever one of the rows
  satisfies the predicates, the groups are split into kept and pruned ones, and a scan with a
  coherent cache plans what the scan without one does.
\<close>

section \<open>Clauses\<close>

datatype pred_op = Eq | Ne | Lt | Le | Gt | Ge | IsNull | IsNotNull

record predicate =
  p_column :: string
  p_op :: pred_op
  p_value :: json

text \<open>\<open>\<backslash>s*\<close> at the start of a text.\<close>

definition skip_ws :: "string \<Rightarrow> string" where
  "skip_ws s = strip_left (ws_len_by ws_wide) s"

definition ws_run :: "string \<Rightarrow> nat" where
  "ws_run s = length s - length (skip_ws s)"

definition lower_char :: "char \<Rightarrow> char" where
  "lower_char c = (let n = of_char c :: nat in if 65 \<le> n \<and> n \<le> 90 then char_of (n + 32) else c)"

definition lower :: "string \<Rightarrow> string" where
  "lower s = map lower_char s"

text \<open>The length of \<open>\<backslash>s+KEYWORD\<backslash>s+\<close> at the start of a text, 0 where it does not match.\<close>

definition keyword_len :: "string \<Rightarrow> string \<Rightarrow> nat" where
  "keyword_len kw s =
     (let a = ws_run s; r = drop a s; k = length kw; b = ws_run (drop k r) in
      if a > 0 \<and> length r \<ge> k \<and> lower (take k r) = lower kw \<and> b > 0 then a + k + b else 0)"

text \<open>The rest after the closing quote of \<open>'(?:\<backslash>\<backslash>.|[^'])*'\<close>, with its backtracking.\<close>

fun quote_rest :: "char \<Rightarrow> string \<Rightarrow> string option" where
  "quote_rest q [] = None"
| "quote_rest q [c] = (if c = q then Some [] else None)"
| "quote_rest q (c # d # ds) =
     (if c = q then Some (d # ds)
      else if c = CHR 0x5C \<and> d \<noteq> CHR 0x0A then
        (case quote_rest q ds of Some r \<Rightarrow> Some r | None \<Rightarrow> quote_rest q (d # ds))
      else quote_rest q (d # ds))"

definition quoted_len :: "string \<Rightarrow> nat" where
  "quoted_len s =
     (case s of
        [] \<Rightarrow> 0
      | c # cs \<Rightarrow>
          if c = CHR 0x27 \<or> c = CHR 0x22 then
            (case quote_rest c cs of None \<Rightarrow> 0 | Some r \<Rightarrow> length s - length r)
          else 0)"

function split_loop :: "string \<Rightarrow> string \<Rightarrow> string list" where
  "split_loop acc s =
     (if s = [] then [rev acc]
      else if quoted_len s > 0 then split_loop (rev (take (quoted_len s) s) @ acc) (drop (quoted_len s) s)
      else if keyword_len ''AND'' s > 0 then rev acc # split_loop [] (drop (keyword_len ''AND'' s) s)
      else split_loop (hd s # acc) (tl s))"
  by pat_completeness auto
termination
  by (relation "measure (\<lambda>(acc, s). length s)") auto

declare split_loop.simps [simp del]

definition split_and_clauses :: "string \<Rightarrow> string list" where
  "split_and_clauses s = split_loop [] s"

text \<open>\<open>re.search(r"\<backslash>s+OR\<backslash>s+", clause)\<close>.\<close>

definition has_or :: "string \<Rightarrow> bool" where
  "has_or clause \<longleftrightarrow> list_ex (\<lambda>i. keyword_len ''OR'' (drop i clause) > 0) [0..<length clause]"

definition col_start :: "char \<Rightarrow> bool" where
  "col_start c \<longleftrightarrow>
     (let n = of_char c :: nat in (65 \<le> n \<and> n \<le> 90) \<or> (97 \<le> n \<and> n \<le> 122) \<or> c = CHR ''_'')"

definition col_char :: "char \<Rightarrow> bool" where
  "col_char c \<longleftrightarrow> col_start c \<or> digit_val c \<noteq> None \<or> c = CHR ''.''"

text \<open>\<open>^\<backslash>s*(?P<col>[A-Za-z_][A-Za-z0-9_.]*)\<close>: the column and the rest.\<close>

definition match_col :: "string \<Rightarrow> (string \<times> string) option" where
  "match_col clause =
     (case skip_ws clause of
        [] \<Rightarrow> None
      | c # cs \<Rightarrow> if col_start c then Some (takeWhile col_char (c # cs), dropWhile col_char (c # cs)) else None)"

text \<open>A word of \<open>_NULL_CLAUSE\<close>, matched in either case.\<close>

definition eat_word :: "string \<Rightarrow> string \<Rightarrow> string option" where
  "eat_word w s = (if length s \<ge> length w \<and> lower (take (length w) s) = lower w then Some (drop (length w) s) else None)"

definition eat_ws1 :: "string \<Rightarrow> string option" where
  "eat_ws1 s = (if ws_run s > 0 then Some (skip_ws s) else None)"

text \<open>
  \<open>_NULL_CLAUSE\<close>. The code takes the operator's text for \<open>IS NULL\<close> only when it is written
  with one blank; every other text the pattern matches is \<open>IS NOT NULL\<close>.
\<close>

definition match_null :: "string \<Rightarrow> (string \<times> pred_op) option" where
  "match_null clause =
     (case match_col clause of
        None \<Rightarrow> None
      | Some (col, r) \<Rightarrow>
          (case eat_ws1 r of
             None \<Rightarrow> None
           | Some op_text \<Rightarrow>
               (case Option.bind (eat_word ''IS'' op_text) eat_ws1 of
                  None \<Rightarrow> None
                | Some r1 \<Rightarrow>
                    (case (case Option.bind (Option.bind (eat_word ''NOT'' r1) eat_ws1) (eat_word ''NULL'') of
                             Some r2 \<Rightarrow> Some r2 | None \<Rightarrow> eat_word ''NULL'' r1) of
                       None \<Rightarrow> None
                     | Some r2 \<Rightarrow>
                         if skip_ws r2 \<noteq> [] then None
                         else Some (col,
                           if lower (take (length op_text - length r2) op_text) = ''is null'' then IsNull
                           else IsNotNull)))))"

text \<open>
  \<open>\<backslash>s*(?P<val>.+?)\<backslash>s*$\<close>: no line feed inside the value, and at least one character that is not a
  line feed. The value is returned stripped, as its only use strips it.
\<close>

definition match_val :: "string \<Rightarrow> string option" where
  "match_val r =
     (let v = strip r in
      if v \<noteq> [] then (if CHR 0x0A \<in> set v then None else Some v)
      else if list_ex (\<lambda>c. c \<noteq> CHR 0x0A) r then Some [] else None)"

definition comparison_ops :: "(string \<times> pred_op) list" where
  "comparison_ops = [(''='', Eq), (''!='', Ne), (''<>'', Ne), (''<='', Le), (''>='', Ge), (''<'', Lt), (''>'', Gt)]"

fun try_ops :: "(string \<times> pred_op) list \<Rightarrow> string \<Rightarrow> (pred_op \<times> string) option" where
  "try_ops [] r = None"
| "try_ops ((w, op) # ops) r =
     (case (if prefix w r then match_val (drop (length w) r) else None) of
        Some v \<Rightarrow> Some (op, v)
      | None \<Rightarrow> try_ops ops r)"

definition match_comparison :: "string \<Rightarrow> (string \<times> pred_op \<times> string) option" where
  "match_comparison clause =
     (case match_col clause of
        None \<Rightarrow> None
      | Some (col, r) \<Rightarrow> map_option (\<lambda>(op, v). (col, op, v)) (try_ops comparison_ops (skip_ws r)))"

section \<open>Values\<close>

text \<open>\<open>float(value)\<close>: the decimal grammar, and the nearest double, ties to even.\<close>

fun digits_rest :: "nat \<Rightarrow> nat \<Rightarrow> string \<Rightarrow> nat \<times> nat \<times> string" where
  "digits_rest acc k [] = (acc, k, [])"
| "digits_rest acc k (c # cs) =
     (case digit_val c of
        Some d \<Rightarrow> digits_rest (10 * acc + d) (Suc k) cs
      | None \<Rightarrow>
          if c = CHR ''_'' \<and> k > 0 \<and> cs \<noteq> [] \<and> digit_val (hd cs) \<noteq> None then digits_rest acc k cs
          else (acc, k, c # cs))"

definition round_half_even :: "rat \<Rightarrow> int" where
  "round_half_even x =
     (let f = \<lfloor>x\<rfloor>; d = x - of_int f in
      if d < 1 / 2 then f else if d > 1 / 2 then f + 1 else if even f then f else f + 1)"

definition round_double :: "rat \<Rightarrow> pyfloat" where
  "round_double q =
     (let a = \<bar>q\<bar> in
      case find (\<lambda>e. a < pow2 (53 + e)) [-1074..971] of
        None \<Rightarrow> (if q < 0 then NegInf else PosInf)
      | Some e \<Rightarrow>
          let v = of_int (round_half_even (a / pow2 e)) * pow2 e in
          if v \<ge> pow2 1024 then (if q < 0 then NegInf else PosInf) else Finite (if q < 0 then - v else v))"

definition take_sign :: "string \<Rightarrow> bool \<times> string" where
  "take_sign s =
     (case s of
        [] \<Rightarrow> (False, s)
      | c # cs \<Rightarrow> if c = CHR ''-'' then (True, cs) else if c = CHR ''+'' then (False, cs) else (False, s))"

definition exponent_of :: "string \<Rightarrow> int option" where
  "exponent_of s =
     (case s of
        [] \<Rightarrow> Some 0
      | c # cs \<Rightarrow>
          if lower_char c = CHR ''e'' then
            (case take_sign cs of (neg, ds) \<Rightarrow>
              (case digits_rest 0 0 ds of (n, k, r) \<Rightarrow>
                if k > 0 \<and> r = [] then Some (if neg then - int n else int n) else None))
          else None)"

definition float_of_text :: "string \<Rightarrow> pyfloat option" where
  "float_of_text s =
     (case take_sign (strip s) of (neg, t) \<Rightarrow>
       if lower t \<in> {''inf'', ''infinity''} then Some (if neg then NegInf else PosInf)
       else if lower t = ''nan'' then Some NaN
       else
         (case digits_rest 0 0 t of (a, ka, r) \<Rightarrow>
           (case (case r of [] \<Rightarrow> (a, 0, r)
                  | c # cs \<Rightarrow>
                      if c = CHR ''.'' then
                        (case digits_rest 0 0 cs of (b, kb, r') \<Rightarrow> (a * 10 ^ kb + b, kb, r'))
                      else (a, 0, r)) of (m, kb, r) \<Rightarrow>
             if ka + kb = 0 then None
             else
               map_option (\<lambda>e.
                   let x = e - int kb;
                       q = of_nat m * (if 0 \<le> x then 10 ^ nat x else 1 / 10 ^ nat (- x))
                   in round_double (if neg then - q else q))
                 (exponent_of r))))"

definition parse_value :: "string \<Rightarrow> json" where
  "parse_value raw =
     (let v = strip raw in
      if length v \<ge> 2 \<and> hd v = last v \<and> (hd v = CHR 0x27 \<or> hd v = CHR 0x22) then JStr (butlast (tl v))
      else if lower v = ''true'' then JBool True
      else if lower v = ''false'' then JBool False
      else if lower v = ''null'' then JNull
      else
        (case int_of_text v of
           Inr i \<Rightarrow> JInt i
         | Inl err \<Rightarrow> (case float_of_text v of Some f \<Rightarrow> JFloat f | None \<Rightarrow> JStr v)))"

definition parse_clause :: "string \<Rightarrow> predicate res" where
  "parse_clause clause =
     (if has_or clause then Inl ValueError
      else case match_null clause of
        Some (col, op) \<Rightarrow> Inr \<lparr>p_column = col, p_op = op, p_value = JNull\<rparr>
      | None \<Rightarrow>
          (case match_comparison clause of
             None \<Rightarrow> Inl ValueError
           | Some (col, op, v) \<Rightarrow> Inr \<lparr>p_column = col, p_op = op, p_value = parse_value v\<rparr>))"

definition parse_where_clause :: "string \<Rightarrow> predicate list res" where
  "parse_where_clause s =
     bindE (mapE parse_clause (split_and_clauses s)) (\<lambda>predicates.
       if predicates = [] then Inl ValueError else Inr predicates)"

section \<open>Deciding a row group\<close>

fun flt :: "pyfloat \<Rightarrow> pyfloat \<Rightarrow> bool" where
  "flt (Finite a) (Finite b) = (a < b)"
| "flt NegInf (Finite b) = True"
| "flt NegInf PosInf = True"
| "flt (Finite a) PosInf = True"
| "flt _ _ = False"

definition num_of :: "json \<Rightarrow> pyfloat option" where
  "num_of v =
     (case v of
        JBool b \<Rightarrow> Some (Finite (if b then 1 else 0))
      | JInt i \<Rightarrow> Some (Finite (of_int i))
      | JFloat f \<Rightarrow> Some f
      | _ \<Rightarrow> None)"

definition is_bool :: "json \<Rightarrow> bool" where
  "is_bool v = (case v of JBool b \<Rightarrow> True | _ \<Rightarrow> False)"

definition compare_values :: "json \<Rightarrow> json \<Rightarrow> int option" where
  "compare_values l r =
     (if l = JNull \<or> r = JNull then None
      else if is_bool l \<noteq> is_bool r then None
      else case (num_of l, num_of r) of
        (Some x, Some y) \<Rightarrow> Some (of_bool (flt y x) - of_bool (flt x y))
      | _ \<Rightarrow>
          (case (l, r) of
             (JStr a, JStr b) \<Rightarrow> Some (of_bool (b < a) - of_bool (a < b))
           | _ \<Rightarrow> None))"

definition possible :: "row_group_stats \<Rightarrow> predicate \<Rightarrow> bool option" where
  "possible g p =
     (case find (\<lambda>c. cs_path c = p_column p) (rg_columns g) of
        None \<Rightarrow> None
      | Some c \<Rightarrow>
          let min_cmp = compare_values (cs_min c) (p_value p); max_cmp = compare_values (cs_max c) (p_value p) in
          (case p_op p of
             IsNull \<Rightarrow> Some (cs_nulls c > 0)
           | IsNotNull \<Rightarrow> Some (cs_nulls c < rg_rows g)
           | Ne \<Rightarrow>
               if cs_nulls c > 0 then Some True
               else (case (min_cmp, max_cmp) of
                       (Some a, Some b) \<Rightarrow> Some (\<not> (a = 0 \<and> b = 0)) | _ \<Rightarrow> None)
           | Lt \<Rightarrow> map_option (\<lambda>a. a < 0) min_cmp
           | Le \<Rightarrow> map_option (\<lambda>a. a \<le> 0) min_cmp
           | Gt \<Rightarrow> map_option (\<lambda>b. b > 0) max_cmp
           | Ge \<Rightarrow> map_option (\<lambda>b. b \<ge> 0) max_cmp
           | Eq \<Rightarrow> (case (min_cmp, max_cmp) of (Some a, Some b) \<Rightarrow> Some (a \<le> 0 \<and> b \<ge> 0) | _ \<Rightarrow> None)))"

record prune_result =
  pr_total :: nat
  pr_kept :: "nat list"
  pr_pruned :: "nat list"
  pr_applicable :: "string list"
  pr_inapplicable :: "string list"

text \<open>The loop over the predicates of one group: kept or not, and the columns that did not decide.\<close>

fun prune_group :: "row_group_stats \<Rightarrow> predicate list \<Rightarrow> string list \<Rightarrow> bool \<times> string list" where
  "prune_group g [] inapplicable = (True, inapplicable)"
| "prune_group g (p # ps) inapplicable =
     (case possible g p of
        None \<Rightarrow> prune_group g ps (List.insert (p_column p) inapplicable)
      | Some b \<Rightarrow> if b then prune_group g ps inapplicable else (False, inapplicable))"

fun prune_loop ::
  "predicate list \<Rightarrow> nat \<Rightarrow> row_group_stats list \<Rightarrow> nat list \<times> nat list \<times> string list
     \<Rightarrow> nat list \<times> nat list \<times> string list" where
  "prune_loop ps i [] acc = acc"
| "prune_loop ps i (g # gs) (kept, pruned, inapplicable) =
     (case prune_group g ps inapplicable of (keep, inapplicable') \<Rightarrow>
        prune_loop ps (Suc i) gs
          (if keep then (kept @ [i], pruned, inapplicable') else (kept, pruned @ [i], inapplicable')))"

definition prune_row_groups :: "footer_stats \<Rightarrow> predicate list \<Rightarrow> prune_result" where
  "prune_row_groups st ps =
     (case prune_loop ps 0 (fs_row_groups st) ([], [], []) of (kept, pruned, inapplicable) \<Rightarrow>
       \<lparr>pr_total = length (fs_row_groups st), pr_kept = kept, pr_pruned = pruned,
        pr_applicable = filter (\<lambda>c. c \<notin> set inapplicable) (map p_column ps),
        pr_inapplicable = sort inapplicable\<rparr>)"

section \<open>The scan plan\<close>

record pruned_scan =
  sc_path :: string
  sc_footer :: string
  sc_total :: nat
  sc_kept :: "nat list"
  sc_pruned :: "nat list"

definition scan_of :: "entry \<Rightarrow> string \<Rightarrow> prune_result \<Rightarrow> pruned_scan" where
  "scan_of e h r =
     \<lparr>sc_path = e_path e, sc_footer = h, sc_total = pr_total r, sc_kept = pr_kept r, sc_pruned = pr_pruned r\<rparr>"

definition get_stats ::
  "prims \<Rightarrow> (string \<Rightarrow> string option) \<Rightarrow> string \<Rightarrow> (footer_cache option, footer_stats option) sm" where
  "get_stats P read_footer h cache =
     (case cache of
        None \<Rightarrow> (read_stats P read_footer h, None)
      | Some c \<Rightarrow> (case footer_cache_get P read_footer h c of (r, c') \<Rightarrow> (r, Some c')))"

fun scan_entries ::
  "prims \<Rightarrow> (string \<Rightarrow> string option) \<Rightarrow> predicate list \<Rightarrow> entry list \<Rightarrow> (footer_cache option, pruned_scan list) sm" where
  "scan_entries P read_footer ps [] = returnS []"
| "scan_entries P read_footer ps (e # es) =
     (case e_footer e of
        None \<Rightarrow> scan_entries P read_footer ps es
      | Some h \<Rightarrow>
          bindS (get_stats P read_footer h) (\<lambda>r.
            case r of
              None \<Rightarrow> scan_entries P read_footer ps es
            | Some st \<Rightarrow>
                bindS (scan_entries P read_footer ps es) (\<lambda>scans.
                  returnS (scan_of e h (prune_row_groups st ps) # scans))))"

definition plan_pruned_scan ::
  "prims \<Rightarrow> loader \<Rightarrow> nat \<Rightarrow> (string \<Rightarrow> string option) \<Rightarrow> string \<Rightarrow> string \<Rightarrow> predicate list
     \<Rightarrow> (footer_cache option, pruned_scan list) sm" where
  "plan_pruned_scan P L n read_footer tree_hash prefix_path ps =
     bindS (liftS (iter_entries_for_prefix L n tree_hash prefix_path)) (scan_entries P read_footer ps)"

section \<open>Pruning is sound\<close>

text \<open>Values that occur in a comparison that means something: neither NULL nor NaN.\<close>

definition proper :: "json \<Rightarrow> bool" where
  "proper v \<longleftrightarrow> v \<noteq> JNull \<and> v \<noteq> JFloat NaN"

lemma flt_trans: "flt x y \<Longrightarrow> flt y z \<Longrightarrow> flt x z"
  by (cases x; cases y; cases z) auto

lemma flt_neg_trans: "\<not> flt y x \<Longrightarrow> \<not> flt z y \<Longrightarrow> y \<noteq> NaN \<Longrightarrow> \<not> flt z x"
  by (cases x; cases y; cases z) auto

lemma num_of_NaN: "num_of v = Some NaN \<longleftrightarrow> v = JFloat NaN"
  by (auto simp: num_of_def split: json.splits)

lemma compare_num:
  assumes "num_of a = Some x" "compare_values a b = Some k"
  shows "\<exists>y. num_of b = Some y \<and> is_bool b = is_bool a \<and> b \<noteq> JNull \<and> k = of_bool (flt y x) - of_bool (flt x y)"
  using assms by (cases a; cases b) (auto simp: compare_values_def num_of_def is_bool_def split: if_splits)

lemma compare_str:
  "num_of a = None \<Longrightarrow> compare_values a b = Some k \<Longrightarrow>
    \<exists>s t. a = JStr s \<and> b = JStr t \<and> k = of_bool (t < s) - of_bool (s < t)"
  by (cases a; cases b) (auto simp: compare_values_def num_of_def is_bool_def split: if_splits)

lemma compare_cases [consumes 1, case_names num str]:
  assumes "compare_values a b = Some k"
  obtains x y where "num_of a = Some x" "num_of b = Some y" "is_bool a = is_bool b" "a \<noteq> JNull" "b \<noteq> JNull"
      "k = of_bool (flt y x) - of_bool (flt x y)"
  | s t where "a = JStr s" "b = JStr t" "k = of_bool (t < s) - of_bool (s < t)"
proof (cases "num_of a")
  case None
  with compare_str [OF None assms] that(2) show ?thesis by blast
next
  case (Some x)
  moreover have "a \<noteq> JNull" using Some by (auto simp: num_of_def)
  ultimately show ?thesis using compare_num [OF Some assms] that(1) by blast
qed

lemma compare_trans:
  assumes ab: "compare_values a b = Some i" and bc: "compare_values b c = Some j" and "proper b" "a \<noteq> JFloat NaN" "c \<noteq> JFloat NaN"
  shows "\<exists>k. compare_values a c = Some k \<and> (i \<le> 0 \<longrightarrow> j \<le> 0 \<longrightarrow> k \<le> 0 \<and> (i < 0 \<or> j < 0 \<longrightarrow> k < 0))"
  using ab
proof (cases rule: compare_cases)
  case (num x y)
  with compare_num [OF num(2) bc] obtain z where z: "num_of c = Some z" "is_bool c = is_bool b" "c \<noteq> JNull"
    "j = of_bool (flt z y) - of_bool (flt y z)" by blast
  have y: "x \<noteq> NaN" "y \<noteq> NaN" "z \<noteq> NaN"
    using num(1,2) z(1) assms(3-5) num_of_NaN by (auto simp: proper_def)
  from num z have "compare_values a c = Some (of_bool (flt z x) - of_bool (flt x z))"
    by (simp add: compare_values_def)
  then show ?thesis using num(6) z(4) y
    by (cases x; cases y; cases z) (auto split: if_splits)
next
  case (str s t)
  with bc obtain u where u: "c = JStr u" "j = of_bool (u < t) - of_bool (t < u)"
    using compare_str [OF _ bc] by (auto simp: num_of_def)
  with str have "compare_values a c = Some (of_bool (u < s) - of_bool (s < u))"
    by (simp add: compare_values_def num_of_def is_bool_def)
  with str u show ?thesis by (auto split: if_splits)
qed

lemma compare_sym: "compare_values b a = map_option uminus (compare_values a b)"
  by (cases a; cases b) (auto simp: compare_values_def num_of_def is_bool_def split: option.splits)

text \<open>SQL's meaning of a predicate on the value of its column; a comparison with NULL is not true.\<close>

definition holds_op :: "pred_op \<Rightarrow> json \<Rightarrow> json \<Rightarrow> bool" where
  "holds_op op v w =
     (case op of
        IsNull \<Rightarrow> v = JNull
      | IsNotNull \<Rightarrow> v \<noteq> JNull
      | Eq \<Rightarrow> compare_values v w = Some 0
      | Ne \<Rightarrow> (\<exists>k. compare_values v w = Some k \<and> k \<noteq> 0)
      | Lt \<Rightarrow> (\<exists>k. compare_values v w = Some k \<and> k < 0)
      | Le \<Rightarrow> (\<exists>k. compare_values v w = Some k \<and> k \<le> 0)
      | Gt \<Rightarrow> (\<exists>k. compare_values v w = Some k \<and> k > 0)
      | Ge \<Rightarrow> (\<exists>k. compare_values v w = Some k \<and> k \<ge> 0))"

text \<open>What the stats of a group claim of its rows: a row gives each column a value.\<close>

definition column_describes :: "column_stats \<Rightarrow> json list \<Rightarrow> bool" where
  "column_describes c vals \<longleftrightarrow>
     cs_nulls c = int (length (filter (\<lambda>v. v = JNull) vals)) \<and>
     cs_min c \<noteq> JFloat NaN \<and> cs_max c \<noteq> JFloat NaN \<and>
     (\<forall>v \<in> set vals. v \<noteq> JFloat NaN \<and>
        (v \<noteq> JNull \<longrightarrow> (\<exists>k. compare_values (cs_min c) v = Some k \<and> k \<le> 0) \<or> cs_min c = JNull) \<and>
        (v \<noteq> JNull \<longrightarrow> (\<exists>k. compare_values (cs_max c) v = Some k \<and> k \<ge> 0) \<or> cs_max c = JNull))"

definition group_describes :: "row_group_stats \<Rightarrow> (string \<Rightarrow> json) list \<Rightarrow> bool" where
  "group_describes g rows \<longleftrightarrow>
     rg_rows g = int (length rows) \<and>
     (\<forall>c \<in> set (rg_columns g). column_describes c (map (\<lambda>row. row (cs_path c)) rows))"

lemma compare_None [simp]: "compare_values JNull w = None" "compare_values v JNull = None"
  by (simp_all add: compare_values_def)

lemma possible_sound:
  assumes stats: "group_describes g rows" and row: "row \<in> set rows"
    and nonan: "p_value p \<noteq> JFloat NaN" and sat: "holds_op (p_op p) (row (p_column p)) (p_value p)"
  shows "possible g p \<noteq> Some False"
proof (cases "find (\<lambda>c. cs_path c = p_column p) (rg_columns g)")
  case (Some c)
  then have c: "c \<in> set (rg_columns g)" "cs_path c = p_column p"
    by (auto simp: find_Some_iff)
  define v where "v = row (p_column p)"
  have v: "v \<in> set (map (\<lambda>row. row (cs_path c)) rows)" using row c(2) by (auto simp: v_def)
  have d: "column_describes c (map (\<lambda>row. row (cs_path c)) rows)" using stats c(1) by (simp add: group_describes_def)
  have nulls: "v = JNull \<Longrightarrow> cs_nulls c > 0"
    using v d by (auto simp: column_describes_def filter_empty_conv comp_def intro: sym)
  have some: "v \<noteq> JNull \<Longrightarrow> cs_nulls c < rg_rows g"
  proof -
    assume "v \<noteq> JNull"
    with v have "length (filter (\<lambda>v. v = JNull) (map (\<lambda>row. row (cs_path c)) rows)) < length (map (\<lambda>row. row (cs_path c)) rows)"
      by (intro length_filter_less)
    with d stats show ?thesis by (simp add: column_describes_def group_describes_def)
  qed
  have lo: "\<exists>j. compare_values (cs_min c) w = Some j \<and> (k \<le> 0 \<longrightarrow> j \<le> 0 \<and> (k < 0 \<longrightarrow> j < 0))"
    if "compare_values v w = Some k" "cs_min c \<noteq> JNull" "w \<noteq> JFloat NaN" for w k
  proof -
    have "v \<noteq> JNull" using that(1) by auto
    with d v that(2) obtain i where "compare_values (cs_min c) v = Some i" "i \<le> 0" "proper v" "cs_min c \<noteq> JFloat NaN"
      by (auto simp: column_describes_def proper_def)
    with compare_trans [OF _ that(1)] that(3) show ?thesis by blast
  qed
  have hi: "\<exists>j. compare_values (cs_max c) w = Some j \<and> (k \<ge> 0 \<longrightarrow> j \<ge> 0 \<and> (k > 0 \<longrightarrow> j > 0))"
    if "compare_values v w = Some k" "cs_max c \<noteq> JNull" "w \<noteq> JFloat NaN" for w k
  proof -
    have "v \<noteq> JNull" using that(1) by auto
    with d v that(2) obtain i where i: "compare_values (cs_max c) v = Some i" "i \<ge> 0" "proper v" "cs_max c \<noteq> JFloat NaN"
      by (auto simp: column_describes_def proper_def)
    from i(1) that(1) have "compare_values v (cs_max c) = Some (- i)" "compare_values w v = Some (- k)"
      using compare_sym [of v "cs_max c"] compare_sym [of w v] by auto
    from compare_trans [OF this(2,1) i(3) that(3) i(4)] i(2) obtain j
      where "compare_values w (cs_max c) = Some j" "k \<ge> 0 \<longrightarrow> j \<le> 0 \<and> (k > 0 \<longrightarrow> j < 0)" by force
    then show ?thesis using compare_sym [of "cs_max c" w] by force
  qed
  have ne: False if "compare_values v w = Some k" "k \<noteq> 0" "compare_values (cs_min c) w = Some 0"
    "compare_values (cs_max c) w = Some 0" "w \<noteq> JFloat NaN" for w k
  proof -
    from that(3,4) have "cs_min c \<noteq> JNull" "cs_max c \<noteq> JNull" by auto
    with lo [OF that(1)] hi [OF that(1)] that show False by fastforce
  qed
  have "cs_min c \<noteq> JNull" if "compare_values (cs_min c) w = Some j" for w j using that by auto
  moreover have "cs_max c \<noteq> JNull" if "compare_values (cs_max c) w = Some j" for w j using that by auto
  ultimately show ?thesis
    using sat nulls some lo [OF _ _ nonan] hi [OF _ _ nonan] ne [OF _ _ _ _ nonan]
    unfolding v_def [symmetric]
    by (cases "p_op p") (fastforce simp: possible_def Some holds_op_def Let_def split: option.splits if_splits)+
qed (simp add: possible_def)

lemma prune_group_kept: "fst (prune_group g ps ia) \<longleftrightarrow> (\<forall>p \<in> set ps. possible g p \<noteq> Some False)"
  by (induction g ps ia rule: prune_group.induct) (auto split: option.splits)

definition keeps_group :: "predicate list \<Rightarrow> row_group_stats \<Rightarrow> bool" where
  "keeps_group ps g \<longleftrightarrow> (\<forall>p \<in> set ps. possible g p \<noteq> Some False)"

lemma prune_loop_spec:
  "prune_loop ps i gs (kept, pruned, ia) = (kept', pruned', ia') \<Longrightarrow>
   kept' = kept @ filter (\<lambda>j. keeps_group ps (gs ! (j - i))) [i..<i + length gs] \<and>
   pruned' = pruned @ filter (\<lambda>j. \<not> keeps_group ps (gs ! (j - i))) [i..<i + length gs]"
proof (induction gs arbitrary: i kept pruned ia)
  case (Cons g gs)
  obtain keep ia1 where g: "prune_group g ps ia = (keep, ia1)" by fastforce
  then have keep: "keep \<longleftrightarrow> keeps_group ps g" using prune_group_kept [of g ps ia] by (simp add: keeps_group_def)
  have upt: "[i..<i + length (g # gs)] = i # [Suc i..<Suc i + length gs]" by (simp add: upt_rec)
  have shift: "filter (\<lambda>j. Q ((g # gs) ! (j - i))) [Suc i..<Suc i + length gs]
      = filter (\<lambda>j. Q (gs ! (j - Suc i))) [Suc i..<Suc i + length gs]" for Q
  proof (rule filter_cong [OF refl])
    fix j assume "j \<in> set [Suc i..<Suc i + length gs]"
    then have "j - i = Suc (j - Suc i)" by auto
    then show "Q ((g # gs) ! (j - i)) = Q (gs ! (j - Suc i))" by simp
  qed
  from Cons.prems g have
    "prune_loop ps (Suc i) gs (if keep then (kept @ [i], pruned, ia1) else (kept, pruned @ [i], ia1))
      = (kept', pruned', ia')" by simp
  with Cons.IH [of "Suc i" "if keep then kept @ [i] else kept" "if keep then pruned else pruned @ [i]" ia1]
  have "kept' = (if keep then kept @ [i] else kept) @ filter (\<lambda>j. keeps_group ps (gs ! (j - Suc i))) [Suc i..<Suc i + length gs] \<and>
    pruned' = (if keep then pruned else pruned @ [i]) @ filter (\<lambda>j. \<not> keeps_group ps (gs ! (j - Suc i))) [Suc i..<Suc i + length gs]"
    by (cases keep) simp_all
  then show ?case unfolding upt using shift [of "keeps_group ps"] shift [of "\<lambda>g. \<not> keeps_group ps g"] keep
    by simp
qed simp

lemma prune_row_groups_spec:
  "pr_kept (prune_row_groups st ps) = filter (\<lambda>i. keeps_group ps (fs_row_groups st ! i)) [0..<length (fs_row_groups st)]"
  "pr_pruned (prune_row_groups st ps) = filter (\<lambda>i. \<not> keeps_group ps (fs_row_groups st ! i)) [0..<length (fs_row_groups st)]"
  using prune_loop_spec [of ps 0 "fs_row_groups st" "[]" "[]" "[]"]
  by (auto simp: prune_row_groups_def split: prod.splits)

lemma matching_rows_kept:
  assumes "i < length (fs_row_groups st)" "group_describes (fs_row_groups st ! i) rows" "row \<in> set rows"
    and "\<forall>p \<in> set ps. p_value p \<noteq> JFloat NaN \<and> holds_op (p_op p) (row (p_column p)) (p_value p)"
  shows "i \<in> set (pr_kept (prune_row_groups st ps)) \<and> i \<notin> set (pr_pruned (prune_row_groups st ps))"
  using assms possible_sound [OF assms(2,3)] by (simp add: prune_row_groups_spec keeps_group_def)

section \<open>The plan with a cache\<close>

lemma get_stats_cached:
  assumes "\<forall>c. cache = Some c \<longrightarrow> cache_coherent P read_footer c"
  shows "\<exists>cache'. get_stats P read_footer h cache = (read_stats P read_footer h, cache') \<and>
     (\<forall>c. cache' = Some c \<longrightarrow> cache_coherent P read_footer c)"
proof (cases cache)
  case (Some c)
  obtain r c' where g: "footer_cache_get P read_footer h c = (r, c')" by fastforce
  with footer_cache_get_plain [OF _ g] assms Some show ?thesis by (simp add: get_stats_def)
qed (simp add: get_stats_def)

lemma scan_entries_cached:
  assumes "\<forall>c. cache = Some c \<longrightarrow> cache_coherent P read_footer c"
  shows "fst (scan_entries P read_footer ps es cache) = fst (scan_entries P read_footer ps es None)"
  using assms
proof (induction es arbitrary: cache)
  case (Cons e es)
  show ?case
  proof (cases "e_footer e")
    case (Some h)
    from get_stats_cached [OF Cons.prems, of h] obtain cache' where
      c: "get_stats P read_footer h cache = (read_stats P read_footer h, cache')"
        "\<forall>c. cache' = Some c \<longrightarrow> cache_coherent P read_footer c" by blast
    have n: "get_stats P read_footer h None = (read_stats P read_footer h, None)" by (simp add: get_stats_def)
    from Cons.IH [OF c(2)] obtain r s' t' where
      run: "scan_entries P read_footer ps es cache' = (r, s')" "scan_entries P read_footer ps es None = (r, t')"
      by (metis prod.collapse)
    show ?thesis
      by (cases "read_stats P read_footer h"; cases r) (auto simp: Some c(1) n run bindS_def split: option.split)
  next
    case None
    with Cons.IH [OF Cons.prems] show ?thesis by simp
  qed
qed simp

lemma plan_pruned_scan_cached:
  assumes "cache_coherent P read_footer c"
  shows "fst (plan_pruned_scan P L n read_footer h pre ps (Some c)) = fst (plan_pruned_scan P L n read_footer h pre ps None)"
  using scan_entries_cached [of "Some c"] assms
  by (cases "iter_entries_for_prefix L n h pre") (simp_all add: plan_pruned_scan_def bindS_def)

section \<open>Where the stats mislead\<close>

text \<open>Without statistics a column is recorded with 0 nulls, and \<open>IS NULL\<close> prunes its group.\<close>

lemma absent_stats_prune:
  "parse_column_metadata 8 [CHR 0x00] = Inr (\<lparr>cs_path = [], cs_min = JNull, cs_max = JNull, cs_nulls = 0\<rparr>, [])"
  "possible \<lparr>rg_rows = 1, rg_columns = [c\<lparr>cs_path := ''x'', cs_nulls := 0\<rparr>]\<rparr>
     \<lparr>p_column = ''x'', p_op = IsNull, p_value = JNull\<rparr> = Some False"
  by (simp_all add: parse_column_metadata_def read_struct_def read_byte_def byte_of_def decode_min_max_def possible_def)

text \<open>A NaN bound compares as equal to every number, so a strict comparison prunes the group.\<close>

lemma nan_bound_prunes:
  "possible \<lparr>rg_rows = 1, rg_columns = [\<lparr>cs_path = ''x'', cs_min = JFloat NaN, cs_max = JFloat NaN, cs_nulls = 0\<rparr>]\<rparr>
     \<lparr>p_column = ''x'', p_op = Lt, p_value = JInt 5\<rparr> = Some False"
  by (simp add: possible_def compare_values_def num_of_def is_bool_def)

text \<open>Two blanks between \<open>IS\<close> and \<open>NULL\<close> turn the predicate around.\<close>

lemma two_blanks_negate:
  "parse_where_clause ''x IS NULL'' = Inr [\<lparr>p_column = ''x'', p_op = IsNull, p_value = JNull\<rparr>]"
  "parse_where_clause ''x IS  NULL'' = Inr [\<lparr>p_column = ''x'', p_op = IsNotNull, p_value = JNull\<rparr>]"
  by code_simp+

text \<open>A quoted literal may contain AND, but not OR.\<close>

lemma quoted_or_rejected:
  "parse_where_clause (''x = '' @ CHR 0x27 # ''a or b'' @ [CHR 0x27]) = Inl ValueError"
  "parse_where_clause (''x = '' @ CHR 0x27 # ''a and b'' @ [CHR 0x27]) = Inr [\<lparr>p_column = ''x'', p_op = Eq, p_value = JStr ''a and b''\<rparr>]"
  by code_simp+

end
