(* ===== verification/Source.thy ===== *)
theory Source
  imports Footer
begin

text \<open>
  \<open>core/objects/source.py\<close>: the addresses of external data (\<open>file://\<close>, \<open>s3://\<close>, plain paths) and
  what is read through them. The world outside the repository is a parameter: the file
  system as a tree, the S3 service as the answers of its client, \<open>fsspec\<close>, and the resolution
  of a relative path. Symbolic links are not followed.

  The lemmas: a file address made from a path leads back to that path, whatever characters it
  holds, and an S3 address leads back to its key when the key has no \<open>?\<close> and no \<open>#\<close>.
\<close>

section \<open>The world\<close>

datatype fs =
    File (file_bytes: string) (file_mtime: int)
  | Dir (dir_entries: "(string \<times> fs) list")
  | Locked
  | Other

record s3_reply =
  s3_size :: int
  s3_mtime :: int
  s3_etag :: "string option"

record s3_listed = s3_reply +
  s3_key :: string

text \<open>An \<open>Inl\<close> of the S3 client is the code of a \<open>ClientError\<close>.\<close>

record world =
  w_fs :: fs
  w_root :: "string list"
  w_resolve :: "string \<Rightarrow> string list"
  w_head :: "string \<Rightarrow> string \<Rightarrow> string + s3_reply"
  w_get :: "string \<Rightarrow> string \<Rightarrow> string + string"
  w_list :: "string \<Rightarrow> string \<Rightarrow> string + s3_listed list"
  w_fsspec :: "string \<Rightarrow> string res"

fun fs_at :: "fs \<Rightarrow> string list \<Rightarrow> fs option" where
  "fs_at d [] = Some d"
| "fs_at d (p # ps) =
     (case d of
        Dir kvs \<Rightarrow> (case map_of kvs p of None \<Rightarrow> None | Some d' \<Rightarrow> fs_at d' ps)
      | _ \<Rightarrow> None)"

definition path_exists :: "world \<Rightarrow> string list \<Rightarrow> bool" where
  "path_exists W ps \<longleftrightarrow> fs_at (w_fs W) ps \<noteq> None"

definition path_file :: "world \<Rightarrow> string list \<Rightarrow> (string \<times> int) option" where
  "path_file W ps = (case fs_at (w_fs W) ps of Some (File b m) \<Rightarrow> Some (b, m) | _ \<Rightarrow> None)"

definition open_path :: "world \<Rightarrow> string list \<Rightarrow> string res" where
  "open_path W ps =
     (case fs_at (w_fs W) ps of
        Some (File b m) \<Rightarrow> Inr b
      | None \<Rightarrow> Inl FileNotFoundError
      | _ \<Rightarrow> Inl OSError)"

section \<open>Addresses\<close>

text \<open>The components of an absolute path, \<open>..\<close> resolved.\<close>

fun resolve_dots :: "string list \<Rightarrow> string list \<Rightarrow> string list" where
  "resolve_dots acc [] = rev acc"
| "resolve_dots acc (p # ps) =
     (if p = [] \<or> p = ''.'' then resolve_dots acc ps
      else if p = ''..'' then resolve_dots (tl acc) ps
      else resolve_dots (p # acc) ps)"

definition abs_parts :: "string \<Rightarrow> string list" where
  "abs_parts path = resolve_dots [] (split_path path)"

definition abs_path :: "string list \<Rightarrow> string" where
  "abs_path ps = CHR ''/'' # join_path ps"

text \<open>\<open>urllib.parse.quote\<close> with \<open>/\<close> safe, and \<open>unquote\<close>.\<close>

definition uri_safe :: "char \<Rightarrow> bool" where
  "uri_safe c \<longleftrightarrow> quote_safe c \<or> c = CHR ''/''"

definition uri_quote :: "string \<Rightarrow> string" where
  "uri_quote s = concat (map (\<lambda>c. if uri_safe c then [c] else quote_char c) s)"

definition hex_val :: "char \<Rightarrow> nat option" where
  "hex_val c =
     (let n = of_char c :: nat in
      if 48 \<le> n \<and> n \<le> 57 then Some (n - 48)
      else if 65 \<le> n \<and> n \<le> 70 then Some (n - 55)
      else if 97 \<le> n \<and> n \<le> 102 then Some (n - 87) else None)"

definition hex_pair :: "char \<Rightarrow> char \<Rightarrow> char option" where
  "hex_pair a b =
     (case (hex_val a, hex_val b) of (Some x, Some y) \<Rightarrow> Some (char_of (16 * x + y)) | _ \<Rightarrow> None)"

fun percent_decode :: "string \<Rightarrow> string" where
  "percent_decode (c # a # b # cs) =
     (if c = CHR ''%'' then
        (case hex_pair a b of Some d \<Rightarrow> d # percent_decode cs | None \<Rightarrow> c # percent_decode (a # b # cs))
      else c # percent_decode (a # b # cs))"
| "percent_decode s = s"

definition uri_unquote :: "string \<Rightarrow> string" where
  "uri_unquote s = decode_replace (percent_decode s)"

definition as_uri :: "string list \<Rightarrow> string" where
  "as_uri ps = ''file://'' @ uri_quote (abs_path ps)"

text \<open>
  \<open>urlparse\<close>: leading control characters and blanks are stripped, tabs and line ends are
  removed; the query and the fragment are cut off the path. (Brackets in the authority, which
  \<open>urlparse\<close> checks as an IPv6 address, are not modelled.)
\<close>

record url =
  u_scheme :: string
  u_netloc :: string
  u_path :: string

definition scheme_char :: "char \<Rightarrow> bool" where
  "scheme_char c \<longleftrightarrow>
     (let n = of_char c :: nat in
      (48 \<le> n \<and> n \<le> 57) \<or> (65 \<le> n \<and> n \<le> 90) \<or> (97 \<le> n \<and> n \<le> 122) \<or> c \<in> {CHR ''+'', CHR ''-'', CHR ''.''})"

definition ascii_alpha :: "char \<Rightarrow> bool" where
  "ascii_alpha c \<longleftrightarrow> (let n = of_char c :: nat in (65 \<le> n \<and> n \<le> 90) \<or> (97 \<le> n \<and> n \<le> 122))"

definition ascii_lower :: "string \<Rightarrow> string" where
  "ascii_lower s = map (\<lambda>c. let n = of_char c :: nat in if 65 \<le> n \<and> n \<le> 90 then char_of (n + 32) else c) s"

definition clean_url :: "string \<Rightarrow> string" where
  "clean_url s =
     filter (\<lambda>c. c \<notin> {CHR 0x09, CHR 0x0D, CHR 0x0A}) (dropWhile (\<lambda>c. (of_char c :: nat) \<le> 32) s)"

definition split_scheme :: "string \<Rightarrow> string \<times> string" where
  "split_scheme s =
     (let head = takeWhile (\<lambda>c. c \<noteq> CHR '':'') s in
      if head \<noteq> [] \<and> length head < length s \<and> ascii_alpha (hd head) \<and> list_all scheme_char head
      then (ascii_lower head, drop (length head + 1) s) else ([], s))"

definition url_end :: "char \<Rightarrow> bool" where
  "url_end c \<longleftrightarrow> c = CHR ''?'' \<or> c = CHR ''#''"

definition urlparse :: "string \<Rightarrow> url" where
  "urlparse s =
     (case split_scheme (clean_url s) of (scheme, rest) \<Rightarrow>
       let auth = prefix ''//'' rest; r = (if auth then drop 2 rest else rest);
           netloc = (if auth then takeWhile (\<lambda>c. c \<noteq> CHR ''/'' \<and> \<not> url_end c) r else []);
           path = (if auth then dropWhile (\<lambda>c. c \<noteq> CHR ''/'' \<and> \<not> url_end c) r else r)
       in \<lparr>u_scheme = scheme, u_netloc = netloc, u_path = takeWhile (\<lambda>c. \<not> url_end c) path\<rparr>)"

definition parse_s3_uri :: "string \<Rightarrow> (string \<times> string) res" where
  "parse_s3_uri uri =
     (let u = urlparse uri in
      if u_scheme u \<noteq> ''s3'' \<or> u_netloc u = [] then Inl ValueError
      else Inr (u_netloc u, lstrip_char (CHR ''/'') (u_path u)))"

section \<open>Errors of the S3 client\<close>

definition s3_is_404 :: "string \<Rightarrow> bool" where
  "s3_is_404 code \<longleftrightarrow> code \<in> {''404'', ''NoSuchKey'', ''NotFound''}"

definition s3_is_precondition_failed :: "string \<Rightarrow> bool" where
  "s3_is_precondition_failed code \<longleftrightarrow> code \<in> {''PreconditionFailed'', ''412''}"

definition translate_s3_error :: "string \<Rightarrow> error" where
  "translate_s3_error code =
     (if s3_is_404 code then ObjectMissingError
      else if s3_is_precondition_failed code then PreconditionFailedError
      else StorageUnavailableError)"

definition clean_etag :: "string option \<Rightarrow> string option" where
  "clean_etag v =
     (case v of
        None \<Rightarrow> None
      | Some s \<Rightarrow> (let cleaned = strip_char (CHR 0x22) (strip s) in if cleaned = [] then None else Some cleaned))"

section \<open>Reading through an address\<close>

record source_meta =
  sm_uri :: string
  sm_size :: int
  sm_mtime :: int
  sm_etag :: "string option"

record s3_object =
  so_bucket :: string
  so_key :: string
  so_size :: int
  so_mtime :: int
  so_etag :: "string option"

definition s3_object_uri :: "s3_object \<Rightarrow> string" where
  "s3_object_uri x = ''s3://'' @ so_bucket x @ ''/'' @ so_key x"

definition iter_s3_objects :: "world \<Rightarrow> string \<Rightarrow> s3_object list res" where
  "iter_s3_objects W source_uri =
     bindE (parse_s3_uri source_uri) (\<lambda>(bucket, pre).
       case w_list W bucket pre of
         Inl code \<Rightarrow> Inl (translate_s3_error code)
       | Inr xs \<Rightarrow>
           Inr (map (\<lambda>x. \<lparr>so_bucket = bucket, so_key = s3_key x, so_size = s3_size x,
                          so_mtime = s3_mtime x, so_etag = clean_etag (s3_etag x)\<rparr>) xs))"

definition source_path :: "world \<Rightarrow> string \<Rightarrow> string list" where
  "source_path W source_uri =
     (let u = urlparse source_uri in
      if u_scheme u = ''file'' then abs_parts (uri_unquote (u_path u)) else w_resolve W source_uri)"

definition describe_source_uri :: "world \<Rightarrow> string \<Rightarrow> source_meta res" where
  "describe_source_uri W source_uri =
     (if prefix ''s3://'' source_uri then
        bindE (parse_s3_uri source_uri) (\<lambda>(bucket, key).
          if key = [] \<or> suffix ''/'' key then Inl ValueError
          else case w_head W bucket key of
            Inl code \<Rightarrow> Inl (if s3_is_404 code then SourceNotFoundError else translate_s3_error code)
          | Inr r \<Rightarrow>
              Inr \<lparr>sm_uri = source_uri, sm_size = s3_size r, sm_mtime = s3_mtime r, sm_etag = clean_etag (s3_etag r)\<rparr>)
      else
        let path = source_path W source_uri in
        case path_file W path of
          None \<Rightarrow> Inl SourceNotFoundError
        | Some (b, m) \<Rightarrow>
            Inr \<lparr>sm_uri = as_uri path, sm_size = int (length b), sm_mtime = m, sm_etag = None\<rparr>)"

text \<open>What is read to the end from the stream that \<open>open_source_uri\<close> yields.\<close>

definition open_source_uri :: "world \<Rightarrow> string \<Rightarrow> string res" where
  "open_source_uri W source_uri =
     (if prefix ''s3://'' source_uri then
        bindE (parse_s3_uri source_uri) (\<lambda>(bucket, key).
          case w_get W bucket key of
            Inl code \<Rightarrow> Inl (translate_s3_error code)
          | Inr body \<Rightarrow> Inr body)
      else if u_scheme (urlparse source_uri) = ''file'' then open_path W (source_path W source_uri)
      else w_fsspec W source_uri)"

section \<open>Addresses lead back\<close>

lemma utf8_step_done: "utf8_step st c = Some (0, lo, hi) \<Longrightarrow> (0, lo, hi) = utf8_start"
  by (auto simp: utf8_step_def utf8_start_def Let_def split: prod.splits if_splits)

lemma decode_replace_from_ok:
  "utf8_run st s = Some utf8_start \<Longrightarrow> pend = [] \<longleftrightarrow> fst st = 0 \<Longrightarrow> decode_replace_from st pend s = pend @ s"
proof (induction s arbitrary: st pend)
  case Nil
  then show ?case by (simp add: utf8_start_def)
next
  case (Cons c cs)
  then obtain st' where st': "utf8_step st c = Some st'" "utf8_run st' cs = Some utf8_start"
    by (auto split: option.splits)
  show ?case
  proof (cases "fst st' = 0")
    case True
    then have "st' = utf8_start" using utf8_step_done [of st c] st'(1) by (cases st') auto
    then show ?thesis using True st' Cons.IH [of utf8_start "[]"] by (simp add: utf8_start_def)
  next
    case False
    then show ?thesis using st' Cons.IH [OF st'(2), of "pend @ [c]"] by simp
  qed
qed

lemma decode_replace_ok: "utf8_ok s \<Longrightarrow> decode_replace s = s"
  using decode_replace_from_ok [of utf8_start s "[]"] by (simp add: decode_replace_def utf8_ok_def utf8_start_def)

lemma hex_val_upper: "d < 16 \<Longrightarrow> hex_val (upper_hex d) = Some d"
  using of_upper_hex [of d] by (auto simp: hex_val_def Let_def)

lemma percent_decode_plain: "c \<noteq> CHR ''%'' \<Longrightarrow> percent_decode (c # s) = c # percent_decode s"
proof (cases s)
  case (Cons a t)
  then show "c \<noteq> CHR ''%'' \<Longrightarrow> ?thesis" by (cases t) auto
qed simp

lemma percent_decode_escape: "percent_decode ([CHR ''%'', upper_hex (of_char c div 16), upper_hex (of_char c mod 16)] @ s) = c # percent_decode s"
proof -
  have less: "(of_char c :: nat) div 16 < 16" "(of_char c :: nat) mod 16 < 16"
    using nat_of_char_less_256 [of c] by linarith simp
  have "char_of (16 * ((of_char c :: nat) div 16) + of_char c mod 16) = c"
    by (simp only: mult_div_mod_eq char_of_char)
  with hex_val_upper [OF less(1)] hex_val_upper [OF less(2)] show ?thesis by (simp add: hex_pair_def)
qed

lemma percent_decode_quote: "percent_decode (uri_quote s) = s"
proof (induction s)
  case (Cons c cs)
  show ?case
  proof (cases "uri_safe c")
    case True
    then have "c \<noteq> CHR ''%''" by (auto simp: uri_safe_def dest: not_quote_safe_percent)
    with True Cons show ?thesis by (simp add: uri_quote_def percent_decode_plain)
  next
    case False
    then have "quote_char c = [CHR ''%'', upper_hex (of_char c div 16), upper_hex (of_char c mod 16)]"
      by (simp add: quote_char_def uri_safe_def)
    with False Cons percent_decode_escape [of c "uri_quote cs"] show ?thesis by (simp add: uri_quote_def)
  qed
qed (simp add: uri_quote_def)

definition plain_uri_char :: "char \<Rightarrow> bool" where
  "plain_uri_char c \<longleftrightarrow> (32 < (of_char c :: nat)) \<and> \<not> url_end c"

lemma uri_quote_plain: "c \<in> set (uri_quote s) \<Longrightarrow> plain_uri_char c"
proof -
  have "plain_uri_char (upper_hex d)" if "d < 16" for d
  proof -
    from of_upper_hex [OF that] have "32 < (of_char (upper_hex d) :: nat)" "of_char (upper_hex d) \<noteq> (63 :: nat)"
        "of_char (upper_hex d) \<noteq> (35 :: nat)" by auto
    then show ?thesis by (auto simp: plain_uri_char_def url_end_def)
  qed
  moreover have "(of_char x :: nat) div 16 < 16" "(of_char x :: nat) mod 16 < 16" for x
    using nat_of_char_less_256 [of x] by linarith simp
  moreover have "plain_uri_char x" if "uri_safe x" for x
    using that by (auto simp: plain_uri_char_def uri_safe_def quote_safe_def url_end_def Let_def)
  moreover have "plain_uri_char (CHR ''%'')" by (simp add: plain_uri_char_def url_end_def)
  ultimately have each: "\<forall>y \<in> set (if uri_safe x then [x] else quote_char x). plain_uri_char y" for x
    by (auto simp: quote_char_def uri_safe_def)
  assume "c \<in> set (uri_quote s)"
  then obtain x where "c \<in> set (if uri_safe x then [x] else quote_char x)" 
    unfolding uri_quote_def set_concat set_map by blast
  with each [of x] show "plain_uri_char c" by blast
qed

lemma clean_url_plain: "list_all plain_uri_char s \<Longrightarrow> clean_url s = s"
proof -
  assume plain: "list_all plain_uri_char s"
  then have "dropWhile (\<lambda>c. (of_char c :: nat) \<le> 32) s = s"
    by (cases s) (auto simp: plain_uri_char_def)
  moreover have "c \<notin> {CHR 0x09, CHR 0x0D, CHR 0x0A}" if "c \<in> set s" for c
    using plain that by (auto simp: list_all_iff plain_uri_char_def)
  ultimately show ?thesis unfolding clean_url_def by (simp only: filter_id_conv) blast
qed

lemma urlparse_plain:
  assumes "list_all plain_uri_char s" "scheme \<in> {''file'', ''s3''}" "CHR ''/'' \<notin> set netloc"
    "list_all plain_uri_char netloc" "s = scheme @ ''://'' @ netloc @ path" "path = [] \<or> hd path = CHR ''/''"
  shows "urlparse s = \<lparr>u_scheme = scheme, u_netloc = netloc, u_path = path\<rparr>"
proof -
  have split: "split_scheme s = (scheme, ''//'' @ netloc @ path)"
    using assms(2,5) by (auto simp: split_scheme_def ascii_alpha_def scheme_char_def ascii_lower_def)
  have chars: "\<forall>c \<in> set path. \<not> url_end c" "\<forall>c \<in> set netloc. \<not> url_end c"
    using assms(1,4,5) by (auto simp: list_all_iff plain_uri_char_def)
  have "takeWhile (\<lambda>c. c \<noteq> CHR ''/'' \<and> \<not> url_end c) (netloc @ path) = netloc"
    "dropWhile (\<lambda>c. c \<noteq> CHR ''/'' \<and> \<not> url_end c) (netloc @ path) = path"
    using chars assms(3,6) by (cases path; auto simp: takeWhile_append dropWhile_append)+
  moreover have "takeWhile (\<lambda>c. \<not> url_end c) path = path" using chars by simp
  ultimately show ?thesis by (simp add: urlparse_def clean_url_plain [OF assms(1)] split)
qed

definition good_parts :: "string list \<Rightarrow> bool" where
  "good_parts ps \<longleftrightarrow> (\<forall>p \<in> set ps. p \<noteq> [] \<and> p \<noteq> ''.'' \<and> p \<noteq> ''..'' \<and> CHR ''/'' \<notin> set p)"

lemma resolve_dots_good: "good_parts ps \<Longrightarrow> resolve_dots acc ps = rev acc @ ps"
  by (induction acc ps rule: resolve_dots.induct) (auto simp: good_parts_def)

lemma abs_parts_path:
  assumes "good_parts ps"
  shows "abs_parts (abs_path ps) = ps"
proof (cases "ps = []")
  case True
  then show ?thesis by (simp add: abs_parts_def abs_path_def join_path_def split_path_def slash_def)
next
  case False
  then have "split_path (abs_path ps) = [] # ps"
    using assms split_join [OF False, where x = slash]
    by (auto simp: abs_path_def split_path_def join_path_def good_parts_def slash_def)
  then show ?thesis using resolve_dots_good [OF assms, of "[]"] by (simp add: abs_parts_def)
qed

lemma source_path_as_uri:
  assumes "good_parts ps" "utf8_ok (abs_path ps)"
  shows "source_path W (as_uri ps) = ps" "\<not> prefix ''s3://'' (as_uri ps)" "u_scheme (urlparse (as_uri ps)) = ''file''"
proof -
  have "list_all plain_uri_char (uri_quote (abs_path ps))" by (auto simp: list_all_iff intro: uri_quote_plain)
  moreover have "list_all plain_uri_char ''file://''" by (simp add: plain_uri_char_def url_end_def)
  ultimately have plain: "list_all plain_uri_char (as_uri ps)" by (simp add: as_uri_def)
  have "uri_quote (abs_path ps) = CHR ''/'' # uri_quote (join_path ps)"
    by (simp add: abs_path_def uri_quote_def uri_safe_def)
  then have u: "urlparse (as_uri ps) = \<lparr>u_scheme = ''file'', u_netloc = [], u_path = uri_quote (abs_path ps)\<rparr>"
    by (intro urlparse_plain [OF plain]) (simp_all add: as_uri_def)
  then show "u_scheme (urlparse (as_uri ps)) = ''file''" by simp
  show "source_path W (as_uri ps) = ps"
    using abs_parts_path [OF assms(1)] decode_replace_ok [OF assms(2)]
    by (simp add: source_path_def u uri_unquote_def percent_decode_quote)
  show "\<not> prefix ''s3://'' (as_uri ps)" by (simp add: as_uri_def)
qed

lemma file_uri_reads_back:
  assumes "good_parts ps" "utf8_ok (abs_path ps)" "path_file W ps = Some (b, m)"
  shows "open_source_uri W (as_uri ps) = Inr b"
    and "describe_source_uri W (as_uri ps) = Inr \<lparr>sm_uri = as_uri ps, sm_size = int (length b), sm_mtime = m, sm_etag = None\<rparr>"
  using assms(3) source_path_as_uri(1) [OF assms(1,2), of W] source_path_as_uri(2,3) [OF assms(1,2)]
  by (auto simp: open_source_uri_def describe_source_uri_def open_path_def path_file_def Let_def
      split: option.splits fs.splits)

lemma parse_s3_uri_plain:
  assumes "b \<noteq> []" "CHR ''/'' \<notin> set b" "list_all plain_uri_char (b @ k)" "k = [] \<or> hd k \<noteq> CHR ''/''"
  shows "parse_s3_uri (''s3://'' @ b @ ''/'' @ k) = Inr (b, k)"
proof -
  have "list_all plain_uri_char (''s3://'' @ b @ ''/'' @ k)"
    using assms(3) by (simp add: plain_uri_char_def url_end_def)
  then have "urlparse (''s3://'' @ b @ ''/'' @ k) = \<lparr>u_scheme = ''s3'', u_netloc = b, u_path = CHR ''/'' # k\<rparr>"
    by (intro urlparse_plain) (use assms(2,3) in \<open>simp_all\<close>)
  moreover have "lstrip_char (CHR ''/'') (CHR ''/'' # k) = k"
    using assms(4) by (cases k) (simp_all add: lstrip_char_def)
  ultimately show ?thesis using assms(1) by (simp add: parse_s3_uri_def)
qed

text \<open>A key with \<open>#\<close> or \<open>?\<close> in it does not come back: the rest is taken for a fragment or a query.\<close>

lemma s3_key_cut: "parse_s3_uri ''s3://bucket/a#b.csv'' = Inr (''bucket'', ''a'')"
  by (simp add: parse_s3_uri_def urlparse_def split_scheme_def clean_url_def ascii_alpha_def scheme_char_def
      ascii_lower_def url_end_def lstrip_char_def)

lemma s3_listing_reads_other_key:
  "s3_object_uri \<lparr>so_bucket = ''bucket'', so_key = ''a#b.csv'', so_size = sz, so_mtime = m, so_etag = et\<rparr>
     = ''s3://bucket/a#b.csv''"
  "open_source_uri W ''s3://bucket/a#b.csv'' =
     (case w_get W ''bucket'' ''a'' of Inl code \<Rightarrow> Inl (translate_s3_error code) | Inr body \<Rightarrow> Inr body)"
  by (simp_all add: s3_object_uri_def open_source_uri_def s3_key_cut)

end
