(* ===== verification/Ignore.thy ===== *)
theory Ignore
  imports Source
begin

text \<open>
  \<open>core/ignore.py\<close> and \<open>core/manifest.py\<close>: the ignore rules and the walk of a worktree. A
  pattern is translated to the pieces of the regular expression the code builds, matched on the
  characters of the path. A class without members (\<open>[]\<close>, \<open>[!]\<close>) leaves the expression
  without its closing bracket and raises, unless a later class closes it, which is not modelled.

  The lemmas: the last rule that matches decides, and the walk lists exactly the files none of
  whose directories, nor themselves, are ignored.
\<close>

section \<open>Patterns\<close>

datatype glob =
    GChar string
  | GAny
  | GStar
  | GDeep
  | GDeepDir
  | GClass bool "(string \<times> string) list"

definition chars :: "string \<Rightarrow> string list" where
  "chars s = utf8_chars (length s) s"

text \<open>The members of a class: a range of characters, or a character as a range of one.\<close>

fun class_items :: "string list \<Rightarrow> (string \<times> string) list res" where
  "class_items [] = Inr []"
| "class_items [c] = Inr [(c, c)]"
| "class_items [c, d] = Inr [(c, c), (d, d)]"
| "class_items (c # d # e # cs) =
     (if d = ''-'' then
        (if e < c then Inl PatternError else bindE (class_items cs) (\<lambda>r. Inr ((c, e) # r)))
      else bindE (class_items (d # e # cs)) (\<lambda>r. Inr ((c, c) # r)))"

definition class_of :: "string list \<Rightarrow> glob res" where
  "class_of inner =
     (let neg = inner \<noteq> [] \<and> (hd inner = ''!'' \<or> hd inner = ''^''); members = (if neg then tl inner else inner) in
      if members = [] then Inl PatternError
      else bindE (class_items members) (\<lambda>r. Inr (GClass neg r)))"

function glob_translate :: "string list \<Rightarrow> glob list res" where
  "glob_translate pattern =
     (case pattern of
        [] \<Rightarrow> Inr []
      | c # cs \<Rightarrow>
          if c = ''*'' then
            (if cs \<noteq> [] \<and> hd cs = ''*'' then
               (if tl cs \<noteq> [] \<and> hd (tl cs) = ''/'' then
                  bindE (glob_translate (tl (tl cs))) (\<lambda>r. Inr (GDeepDir # r))
                else bindE (glob_translate (tl cs)) (\<lambda>r. Inr (GDeep # r)))
             else bindE (glob_translate cs) (\<lambda>r. Inr (GStar # r)))
          else if c = ''?'' then bindE (glob_translate cs) (\<lambda>r. Inr (GAny # r))
          else if c = ''['' \<and> '']'' \<in> set cs then
            bindE (class_of (takeWhile (\<lambda>d. d \<noteq> '']'') cs)) (\<lambda>k.
            bindE (glob_translate (tl (dropWhile (\<lambda>d. d \<noteq> '']'') cs))) (\<lambda>r. Inr (k # r)))
          else bindE (glob_translate cs) (\<lambda>r. Inr (GChar c # r)))"
  by pat_completeness auto
termination
proof (relation "measure length", goal_cases)
  case (6 pattern c cs)
  then show ?case using length_dropWhile_le [of "\<lambda>d. d \<noteq> '']''" cs] by (simp add: less_Suc_eq_le)
qed auto

declare glob_translate.simps [simp del]

text \<open>The pieces matched to the end of the text, where \<open>$\<close> also matches before a last line feed.\<close>

definition nl :: string where
  "nl = [CHR 0x0A]"

fun glob_weight :: "glob \<Rightarrow> nat" where
  "glob_weight GDeepDir = 3"
| "glob_weight g = 1"

definition class_has :: "bool \<Rightarrow> (string \<times> string) list \<Rightarrow> string \<Rightarrow> bool" where
  "class_has neg rs c \<longleftrightarrow> (list_ex (\<lambda>(lo, hi). lo \<le> c \<and> c \<le> hi) rs \<noteq> neg)"

function (sequential) glob_match :: "glob list \<Rightarrow> string list \<Rightarrow> bool" where
  "glob_match [] s = (s = [] \<or> s = [nl])"
| "glob_match (GDeepDir # g) s = (glob_match g s \<or> glob_match (GDeep # GChar ''/'' # g) s)"
| "glob_match (GStar # g) [] = glob_match g []"
| "glob_match (GStar # g) (c # cs) = (glob_match g (c # cs) \<or> (c \<noteq> ''/'' \<and> glob_match (GStar # g) cs))"
| "glob_match (GDeep # g) [] = glob_match g []"
| "glob_match (GDeep # g) (c # cs) = (glob_match g (c # cs) \<or> (c \<noteq> nl \<and> glob_match (GDeep # g) cs))"
| "glob_match (p # g) [] = False"
| "glob_match (GChar d # g) (c # cs) = (d = c \<and> glob_match g cs)"
| "glob_match (GAny # g) (c # cs) = (c \<noteq> ''/'' \<and> glob_match g cs)"
| "glob_match (GClass neg rs # g) (c # cs) = (class_has neg rs c \<and> glob_match g cs)"
  by pat_completeness auto
termination
  by (relation "measures [\<lambda>(g, s). sum_list (map glob_weight g), \<lambda>(g, s). length s]") auto

section \<open>Rules\<close>

record ignore_rule =
  ir_negated :: bool
  ir_dir_only :: bool
  ir_anchored :: bool
  ir_body :: "glob list"

definition parse_rule :: "string \<Rightarrow> ignore_rule option res" where
  "parse_rule raw =
     (let line = strip raw in
      if line = [] \<or> hd line = CHR ''#'' then Inr None
      else
        let negated = (hd line = CHR ''!''); l1 = (if negated then strip (tl line) else line) in
        if l1 = [] then Inr None
        else
          let dir_only = (last l1 = CHR ''/''); l2 = rstrip_char (CHR ''/'') l1 in
          if l2 = [] then Inr None
          else
            let rooted = (hd l2 = CHR ''/''); l3 = (if rooted then lstrip_char (CHR ''/'') l2 else l2);
                anchored = (rooted \<or> CHR ''/'' \<in> set l3)
            in bindE (glob_translate (chars l3)) (\<lambda>body.
                 Inr (Some \<lparr>ir_negated = negated, ir_dir_only = dir_only, ir_anchored = anchored, ir_body = body\<rparr>)))"

definition parse_rules :: "string list \<Rightarrow> ignore_rule list res" where
  "parse_rules patterns =
     bindE (mapE parse_rule patterns) (\<lambda>rs. Inr (map the (filter (\<lambda>r. r \<noteq> None) rs)))"

definition DEFAULT_PATTERNS :: "string list" where
  "DEFAULT_PATTERNS = [''.reflake/'', ''.git/'']"

definition load_rules :: "world \<Rightarrow> string list \<Rightarrow> ignore_rule list res" where
  "load_rules W tree_root =
     (case path_file W (tree_root @ [''.reflakeignore'']) of
        None \<Rightarrow> parse_rules DEFAULT_PATTERNS
      | Some (b, m) \<Rightarrow>
          if \<not> utf8_ok b then Inl UnicodeDecodeError
          else parse_rules (DEFAULT_PATTERNS @ splitlines b))"

text \<open>\<open>^body$\<close>, or \<open>(?:^|/)body$\<close> searched for in the text.\<close>

fun after_slash :: "glob list \<Rightarrow> string list \<Rightarrow> bool" where
  "after_slash g [] = False"
| "after_slash g (c # cs) = ((c = ''/'' \<and> glob_match g cs) \<or> after_slash g cs)"

definition rule_matches :: "ignore_rule \<Rightarrow> string list \<Rightarrow> bool" where
  "rule_matches r s \<longleftrightarrow> glob_match (ir_body r) s \<or> (\<not> ir_anchored r \<and> after_slash (ir_body r) s)"

fun ignores_from :: "bool \<Rightarrow> ignore_rule list \<Rightarrow> string list \<Rightarrow> bool \<Rightarrow> bool" where
  "ignores_from ignored [] s is_dir = ignored"
| "ignores_from ignored (r # rs) s is_dir =
     (if ir_dir_only r \<and> \<not> is_dir then ignores_from ignored rs s is_dir
      else ignores_from (if rule_matches r s then \<not> ir_negated r else ignored) rs s is_dir)"

definition ignores :: "ignore_rule list \<Rightarrow> string \<Rightarrow> bool \<Rightarrow> bool" where
  "ignores rules relative_path is_dir = ignores_from False rules (chars relative_path) is_dir"

section \<open>The walk\<close>

record file_entry =
  fe_path :: "string list"
  fe_rel :: string
  fe_size :: int
  fe_mtime :: int

definition relative_name :: "string \<Rightarrow> string list \<Rightarrow> string" where
  "relative_name rel_prefix parts =
     (if rel_prefix = [] then join_path parts else rel_prefix @ ''/'' @ join_path parts)"

definition sub_walk ::
  "ignore_rule list \<Rightarrow> string \<Rightarrow> string list \<Rightarrow> (string list \<Rightarrow> fs \<Rightarrow> file_entry list) \<Rightarrow> string list
     \<Rightarrow> string \<times> fs \<Rightarrow> file_entry list" where
  "sub_walk rules rel_prefix path iter_dir rel_parts = (\<lambda>(name, node).
     let parts = rel_parts @ [name]; full = relative_name rel_prefix parts in
     case node of
       Dir kvs \<Rightarrow> if ignores rules full True then [] else iter_dir parts node
     | Locked \<Rightarrow> if ignores rules full True then [] else iter_dir parts node
     | File b m \<Rightarrow>
         if ignores rules full False then []
         else [\<lparr>fe_path = path @ parts, fe_rel = full, fe_size = int (length b), fe_mtime = m\<rparr>]
     | Other \<Rightarrow> [])"

primrec iter_dir ::
  "ignore_rule list \<Rightarrow> string \<Rightarrow> string list \<Rightarrow> nat \<Rightarrow> string list \<Rightarrow> fs \<Rightarrow> file_entry list" where
  "iter_dir rules rel_prefix path 0 = (\<lambda>rel_parts node. [])"
| "iter_dir rules rel_prefix path (Suc n) = (\<lambda>rel_parts node.
     case node of
       Dir kvs \<Rightarrow>
         concat (map (sub_walk rules rel_prefix path (iter_dir rules rel_prefix path n) rel_parts) (sort_key fst kvs))
     | _ \<Rightarrow> [])"

text \<open>The nesting of a tree of directories bounds the recursion.\<close>

fun fs_depth :: "fs \<Rightarrow> nat" where
  "fs_depth (Dir kvs) = Suc (Max (insert 0 (set (map (\<lambda>(k, d). fs_depth d) kvs))))"
| "fs_depth d = 0"

definition walk_files :: "world \<Rightarrow> string list \<Rightarrow> ignore_rule list \<Rightarrow> string \<Rightarrow> file_entry list" where
  "walk_files W path rules rel_prefix =
     (case fs_at (w_fs W) path of
        None \<Rightarrow> []
      | Some node \<Rightarrow> iter_dir rules rel_prefix path (fs_depth node) [] node)"

section \<open>What is ignored, and what is walked\<close>

text \<open>The last rule that applies and matches decides; without one, nothing is ignored.\<close>

definition applies :: "ignore_rule \<Rightarrow> string \<Rightarrow> bool \<Rightarrow> bool" where
  "applies r path is_dir \<longleftrightarrow> (ir_dir_only r \<longrightarrow> is_dir) \<and> rule_matches r (chars path)"

lemma ignores_from_last:
  "ignores_from ignored rs s is_dir =
     (case filter (\<lambda>r. (ir_dir_only r \<longrightarrow> is_dir) \<and> rule_matches r s) rs of
        [] \<Rightarrow> ignored | r # ms \<Rightarrow> \<not> ir_negated (last (r # ms)))"
  by (induction ignored rs s is_dir rule: ignores_from.induct) (auto split: list.splits)

lemma ignores_last:
  "ignores rules path is_dir \<longleftrightarrow>
     (\<exists>r. filter (\<lambda>r. applies r path is_dir) rules \<noteq> [] \<and>
          last (filter (\<lambda>r. applies r path is_dir) rules) = r \<and> \<not> ir_negated r)"
  by (auto simp: ignores_def ignores_from_last applies_def split: list.splits)

lemma glob_match_literal: "glob_match (map GChar s) s"
  by (induction s) auto

fun fs_ok :: "fs \<Rightarrow> bool" where
  "fs_ok (Dir kvs) = (distinct (map fst kvs) \<and> (\<forall>x \<in> set kvs. fs_ok (snd x)))"
| "fs_ok d = True"

fun visible :: "ignore_rule list \<Rightarrow> string \<Rightarrow> string list \<Rightarrow> string list \<Rightarrow> bool" where
  "visible rules pre parts [] = False"
| "visible rules pre parts [p] = (\<not> ignores rules (relative_name pre (parts @ [p])) False)"
| "visible rules pre parts (p # q # qs) =
     (\<not> ignores rules (relative_name pre (parts @ [p])) True \<and> visible rules pre (parts @ [p]) (q # qs))"

definition file_at :: "string list \<Rightarrow> string \<Rightarrow> string list \<Rightarrow> string \<Rightarrow> int \<Rightarrow> file_entry" where
  "file_at path pre ps b m =
     \<lparr>fe_path = path @ ps, fe_rel = relative_name pre ps, fe_size = int (length b), fe_mtime = m\<rparr>"

lemma fs_depth_kid: "x \<in> set kvs \<Longrightarrow> fs_depth (snd x) < fs_depth (Dir kvs)"
proof -
  assume x: "x \<in> set kvs"
  have "(\<lambda>(k, d). fs_depth d) x \<in> set (map (\<lambda>(k, d). fs_depth d) kvs)"
    unfolding set_map using x by (rule imageI)
  then have "fs_depth (snd x) \<in> insert 0 (set (map (\<lambda>(k, d). fs_depth d) kvs))"
    by (simp add: case_prod_beta)
  then have "fs_depth (snd x) \<le> Max (insert 0 (set (map (\<lambda>(k, d). fs_depth d) kvs)))" by (intro Max_ge) auto
  then show ?thesis by simp
qed

lemma iter_dir_spec:
  "fs_ok node \<Longrightarrow> fs_depth node \<le> n \<Longrightarrow>
    fe \<in> set (iter_dir rules pre path n parts node) \<longleftrightarrow>
      (\<exists>ps b m. fs_at node ps = Some (File b m) \<and> visible rules pre parts ps \<and> fe = file_at path pre (parts @ ps) b m)"
proof (induction n arbitrary: node parts)
  case 0
  have "\<not> visible rules pre parts ps" if "fs_at node ps = Some (File b m)" for ps b m
    using that 0(2) by (cases ps; cases node) auto
  then show ?case by auto
next
  case (Suc n)
  show ?case
  proof (cases node)
    case (Dir kvs)
    have kid: "fe \<in> set (sub_walk rules pre path (iter_dir rules pre path n) parts (name, d)) \<longleftrightarrow>
        (\<exists>ps b m. fs_at d ps = Some (File b m) \<and> visible rules pre parts (name # ps) \<and>
           fe = file_at path pre (parts @ name # ps) b m)" if x: "(name, d) \<in> set kvs" for name d
    proof (cases d)
      case (File b m)
      have "fs_at d ps = Some (File b' m') \<longleftrightarrow> ps = [] \<and> b' = b \<and> m' = m" for ps b' m'
        using File by (cases ps) auto
      then show ?thesis
        by (auto simp: sub_walk_def Let_def file_at_def File)
    next
      case (Dir kvs')
      have "fs_ok d" "fs_depth d \<le> n"
        using Suc.prems x fs_depth_kid [OF x] by (auto simp: \<open>node = Dir kvs\<close>)
      from Suc.IH [OF this, of "parts @ [name]"] Dir
      have "fe \<in> set (sub_walk rules pre path (iter_dir rules pre path n) parts (name, d)) \<longleftrightarrow>
          \<not> ignores rules (relative_name pre (parts @ [name])) True \<and>
          (\<exists>ps b m. fs_at d ps = Some (File b m) \<and> visible rules pre (parts @ [name]) ps \<and>
            fe = file_at path pre ((parts @ [name]) @ ps) b m)"
        by (simp add: sub_walk_def Let_def)
      moreover have "visible rules pre parts (name # ps) \<longleftrightarrow>
          \<not> ignores rules (relative_name pre (parts @ [name])) True \<and> visible rules pre (parts @ [name]) ps"
        if "fs_at d ps = Some (File b m)" for ps b m
        using that Dir by (cases ps) auto
      ultimately show ?thesis by simp blast
    next
      case Locked
      have "fs_at d ps \<noteq> Some (File b m)" for ps b m using Locked by (cases ps) auto
      then show ?thesis using Locked by (cases n) (auto simp: sub_walk_def Let_def)
    next
      case Other
      have "fs_at d ps \<noteq> Some (File b m)" for ps b m using Other by (cases ps) auto
      then show ?thesis using Other by (auto simp: sub_walk_def Let_def)
    qed
    have at: "fs_at node (name # ps) = Some f \<longleftrightarrow> (\<exists>d. (name, d) \<in> set kvs \<and> fs_at d ps = Some f)" for name ps f
    proof -
      have "map_of kvs name = Some d \<longleftrightarrow> (name, d) \<in> set kvs" for d
        using Suc.prems(1) Dir by (intro map_of_eq_Some_iff) simp
      then have "(\<exists>d. (name, d) \<in> set kvs \<and> fs_at d ps = Some f) \<longleftrightarrow> (\<exists>d. map_of kvs name = Some d \<and> fs_at d ps = Some f)"
        by simp
      then show ?thesis by (simp add: Dir split: option.split)
    qed
    have "fe \<in> set (iter_dir rules pre path (Suc n) parts node) \<longleftrightarrow>
        (\<exists>name d. (name, d) \<in> set kvs \<and> fe \<in> set (sub_walk rules pre path (iter_dir rules pre path n) parts (name, d)))"
      by (auto simp: Dir)
    also have "\<dots> \<longleftrightarrow> (\<exists>name ps b m. fs_at node (name # ps) = Some (File b m) \<and> visible rules pre parts (name # ps) \<and>
           fe = file_at path pre (parts @ name # ps) b m)"
      using kid at by blast
    also have "\<dots> \<longleftrightarrow> (\<exists>ps b m. fs_at node ps = Some (File b m) \<and> visible rules pre parts ps \<and>
           fe = file_at path pre (parts @ ps) b m)"
      by (metis neq_Nil_conv visible.simps(1))
    finally show ?thesis .
  next
    case (File b m)
    then have "\<not> visible rules pre parts ps" if "fs_at node ps = Some (File b' m')" for ps b' m'
      using that by (cases ps) auto
    with File show ?thesis by auto
  next
    case Locked
    have "fs_at node ps \<noteq> Some (File b m)" for ps b m using Locked by (cases ps) auto
    with Locked show ?thesis by simp
  next
    case Other
    have "fs_at node ps \<noteq> Some (File b m)" for ps b m using Other by (cases ps) auto
    with Other show ?thesis by simp
  qed
qed

lemma walk_files_spec:
  assumes "fs_at (w_fs W) path = Some node" "fs_ok node"
  shows "fe \<in> set (walk_files W path rules pre) \<longleftrightarrow>
      (\<exists>ps b m. path_file W (path @ ps) = Some (b, m) \<and> visible rules pre [] ps \<and> fe = file_at path pre ps b m)"
proof -
  have "fs_at d (xs @ ys) = Option.bind (fs_at d xs) (\<lambda>d'. fs_at d' ys)" for d xs ys
  proof (induction xs arbitrary: d)
    case (Cons x xs)
    then show ?case by (cases d) (auto split: option.splits)
  qed simp
  then have "path_file W (path @ ps) = Some (b, m) \<longleftrightarrow> fs_at node ps = Some (File b m)" for ps b m
    using assms(1) by (auto simp: path_file_def split: option.splits fs.splits)
  with iter_dir_spec [OF assms(2) order_refl, of fe rules pre path "[]"] assms(1) show ?thesis
    by (simp add: walk_files_def)
qed

text \<open>The defaults keep the tool's own directory out of every walk.\<close>

lemma default_rules:
  "case parse_rules DEFAULT_PATTERNS of
     Inl e \<Rightarrow> False
   | Inr rules \<Rightarrow> ignores rules ''.reflake'' True \<and> ignores rules ''a/.git'' True \<and>
       \<not> ignores rules ''a/b.csv'' False \<and> \<not> ignores rules ''.reflake'' False"
  by code_simp

lemma empty_class_raises: "parse_rules [''a[]b''] = Inl PatternError"
  by code_simp

end
