(* ===== verification/Samples.thy ===== *)
theory Samples
  imports Gc Json_Sample Pruning Ignore
begin

text \<open>
  Concrete repositories for the witnesses of the properties: a tree with a sharded root, a
  commit history with a fork, and a store with two branches, over the package functions of
  \<open>Json_Sample\<close>.
\<close>

section \<open>A tree\<close>

definition dg :: "char \<Rightarrow> string" where
  "dg c = replicate 64 c"

definition leaf :: "string \<Rightarrow> char \<Rightarrow> entry" where
  "leaf name c =
     \<lparr>e_path = name, e_kind = KIND_BLOB, e_hash = dg c, e_size = 3, e_mtime = 7,
      e_uri = None, e_footer = None, e_etag = None\<rparr>"

definition pointer :: "kind \<Rightarrow> string \<Rightarrow> char \<Rightarrow> entry" where
  "pointer k name c =
     \<lparr>e_path = name, e_kind = k, e_hash = dg c, e_size = 0, e_mtime = 0,
      e_uri = None, e_footer = None, e_etag = None\<rparr>"

text \<open>\<open>b\<close>, \<open>data/x\<close> and \<open>readme\<close>; the root is split into the shards \<open>b\<close> and \<open>data\<close>.\<close>

definition data_dir :: dtree where
  "data_dir = DNode [(leaf ''x'' CHR ''1'', DNode [])]"

definition shard1 :: dtree where
  "shard1 = DNode [(leaf ''b'' CHR ''2'', DNode [])]"

definition shard2 :: dtree where
  "shard2 = DNode [(pointer KIND_TREE ''data'' CHR ''d'', data_dir), (leaf ''readme'' CHR ''3'', DNode [])]"

definition root_dir :: dtree where
  "root_dir = DNode [(pointer KIND_SHARD ''b'' CHR ''e'', shard1), (pointer KIND_SHARD ''data'' CHR ''f'', shard2)]"

definition sample_loader :: loader where
  "sample_loader h =
     Inr (if h = dg CHR ''0'' then Some (map fst (dkids root_dir))
          else if h = dg CHR ''e'' then Some (map fst (dkids shard1))
          else if h = dg CHR ''f'' then Some (map fst (dkids shard2))
          else if h = dg CHR ''d'' then Some (map fst (dkids data_dir)) else None)"

lemma root_dir_rep: "rep sample_loader (dg CHR ''0'') root_dir"
  by (simp add: sample_loader_def root_dir_def shard1_def shard2_def data_dir_def pointer_def leaf_def
      dg_def is_subtree_def)

lemma root_dir_wf: "wf_dir root_dir"
  by code_simp

lemma root_dir_steps: "steps root_dir = 7"
  by code_simp

section \<open>A history\<close>

text \<open>The root \<open>r\<close>, its children \<open>a\<close> and \<open>b\<close>, and their merge \<open>m\<close>, which carries no stored generation.\<close>

definition sample_commit :: "string \<Rightarrow> string list \<Rightarrow> int option \<Rightarrow> commit" where
  "sample_commit i ps g =
     \<lparr>c_id = i, c_message = ''work'', c_tree = dg CHR ''0'', c_parents = ps, c_created_at = ''2025'',
      c_generation = g\<rparr>"

definition sample_history :: "string \<Rightarrow> commit option" where
  "sample_history i =
     (if i = ''r'' then Some (sample_commit ''r'' [] (Some 0))
      else if i = ''a'' then Some (sample_commit ''a'' [''r''] (Some 1))
      else if i = ''b'' then Some (sample_commit ''b'' [''r''] (Some 1))
      else if i = ''m'' then Some (sample_commit ''m'' [''a'', ''b''] None) else None)"

definition sample_depth :: "string \<Rightarrow> nat" where
  "sample_depth i = (if i = ''m'' then 2 else if i = ''a'' \<or> i = ''b'' then 1 else 0)"

definition sample_ids :: "string set" where
  "sample_ids = {''r'', ''a'', ''b'', ''m''}"

lemma sample_history_ok: "history_ok (\<lambda>i. Inr (sample_history i)) sample_history sample_depth sample_ids"
  by (simp add: history_ok_def sample_ids_def sample_history_def sample_commit_def sample_depth_def
      depth_of_parents_def)

lemma sample_ids_bounds:
  "finite sample_ids" "card sample_ids = 4" "\<forall>i \<in> sample_ids. sample_depth i < 3"
  "\<forall>i \<in> sample_ids. sample_history i \<noteq> None"
  by (simp_all add: sample_ids_def sample_depth_def sample_history_def)

section \<open>A store\<close>

text \<open>The branches \<open>main\<close> and \<open>dev\<close>, \<open>main\<close> at a first commit; the client is on \<open>main\<close>.\<close>

definition empty_client :: client where
  "empty_client = \<lparr>cl_head = Some ''refs/heads/main'', cl_snapshots = [], cl_reflog = [], cl_staging = []\<rparr>"

definition sample_store :: repo_store where
  "sample_store =
     \<lparr>ts_nodes = Map.empty, ts_hashed = [], rs_commits = [], rs_blobs = [], rs_footers = [],
      rs_refs = [(''main'', dg CHR ''a'' @ [CHR 0x0A]), (''dev'', [])], rs_client = empty_client\<rparr>"

definition sample_kids :: "(entry \<times> dtree) list" where
  "sample_kids = map (\<lambda>n. (leaf n CHR ''1'', DNode [])) [''d'', ''b'', ''a'', ''c'', ''e'']"

lemma sample_kids_ok: "dir_children sample_kids"
  by code_simp

section \<open>A store with a history\<close>

text \<open>\<open>main\<close> is at the first of two commits; the second has it as its parent.\<close>

definition first_commit :: commit where
  "first_commit =
     \<lparr>c_id = dg CHR ''a'', c_message = ''first'', c_tree = dg CHR ''0'', c_parents = [], c_created_at = ''2025'',
      c_generation = Some 0\<rparr>"

definition second_commit :: commit where
  "second_commit =
     \<lparr>c_id = dg CHR ''b'', c_message = ''second'', c_tree = dg CHR ''0'', c_parents = [dg CHR ''a''], c_created_at = ''2025'',
      c_generation = Some 1\<rparr>"

definition sample_repo :: repo_store where
  "sample_repo = sample_store
     \<lparr>rs_commits := [(dg CHR ''a'', encode_commit sample first_commit), (dg CHR ''b'', encode_commit sample second_commit)]\<rparr>"

definition repo_history :: "string \<Rightarrow> commit option" where
  "repo_history i = (if i = dg CHR ''a'' then Some first_commit else if i = dg CHR ''b'' then Some second_commit else None)"

definition repo_depth :: "string \<Rightarrow> nat" where
  "repo_depth i = (if i = dg CHR ''b'' then 1 else 0)"

lemma dg_inj [simp]: "dg c = dg d \<longleftrightarrow> c = d"
  by (simp add: dg_def)

lemma dg_digest: "c \<in> {CHR ''a'', CHR ''b'', CHR ''0''} \<Longrightarrow> is_hex_digest (dg c)"
  by (elim insertE; hypsubst?; (code_simp | simp))

lemma sample_repo_fetch:
  "fetch_commit sample sample_repo (dg CHR ''a'') = Inr first_commit"
  "fetch_commit sample sample_repo (dg CHR ''b'') = Inr second_commit"
  using parse_encode_commit [OF sample_commit_codec_ok, of "dg CHR ''a''" first_commit]
    parse_encode_commit [OF sample_commit_codec_ok, of "dg CHR ''b''" second_commit]
  by (simp_all add: fetch_commit_def sample_repo_def)

lemma sample_repo_history:
  "history_ok (commit_reader sample sample_repo) repo_history repo_depth {dg CHR ''a'', dg CHR ''b''}"
  by (simp add: history_ok_def commit_reader_def sample_repo_fetch repo_history_def repo_depth_def
      first_commit_def second_commit_def depth_of_parents_def)

lemma sample_store_heads:
  "ref_head sample_store ''main'' = Some (dg CHR ''a'')" "ref_head sample_store ''dev'' = None"
  "read_branch_ref sample_store ''main'' = Some (Some (dg CHR ''a''))"
  by code_simp+

lemma sample_repo_heads:
  "ref_head sample_repo b = ref_head sample_store b" "rs_refs sample_repo = rs_refs sample_store"
  by (simp_all add: sample_repo_def ref_head_def read_branch_ref_def)

lemma sample_store_free:
  "\<not> path_blocked (map fst (rs_refs sample_store)) ''main''" "\<not> path_blocked (map fst (rs_refs sample_store)) ''dev''"
  by code_simp+

section \<open>What its garbage collection reads\<close>

lemma sample_repo_walks:
  "branch_heads sample_repo = [dg CHR ''a'']" "commit_kids sample sample_repo (dg CHR ''a'') = []"
  "load sample (ts_nodes sample_repo) h = Inr None" "tree_kids (load sample (ts_nodes sample_repo)) h = []"
proof -
  have "branch_heads sample_repo = branch_heads sample_store"
    by (simp add: branch_heads_def sample_repo_def read_branch_ref_def iter_branches_def)
  also have "\<dots> = [dg CHR ''a'']" by code_simp
  finally show "branch_heads sample_repo = [dg CHR ''a'']" .
  show "load sample (ts_nodes sample_repo) h = Inr None" for h
    by (simp add: sample_repo_def sample_store_def load_def)
  then show "tree_kids (load sample (ts_nodes sample_repo)) h = []" by (simp add: tree_kids_def)
qed (simp add: commit_kids_def sample_repo_fetch first_commit_def)

lemma sample_repo_live: "live sample sample_repo Commit = {dg CHR ''a''}"
  using reach_closed [of "commit_kids sample sample_repo" "{dg CHR ''a''}"]
  by (simp add: live_def live_commits_def sample_repo_walks closed_under_def)

lemma sample_repo_marked:
  "finite {dg CHR ''a''}" "closed_under (commit_kids sample sample_repo) {dg CHR ''a''}"
  "set (branch_heads sample_repo) \<subseteq> {dg CHR ''a''}"
  "\<forall>i \<in> {dg CHR ''a''}. \<exists>c. fetch_commit sample sample_repo i = Inr c \<and> c_tree c \<in> {dg CHR ''0''}"
  "finite {dg CHR ''0''}" "closed_under (tree_kids (load sample (ts_nodes sample_repo))) {dg CHR ''0''}"
  "\<forall>h \<in> {dg CHR ''0''}. \<exists>r. load sample (ts_nodes sample_repo) h = Inr r"
  "length (branch_heads sample_repo) + (\<Sum>i \<in> {dg CHR ''a''}. length (commit_kids sample sample_repo i)) \<le> 1"
  "1 + (\<Sum>h \<in> {dg CHR ''0''}. length (tree_kids (load sample (ts_nodes sample_repo)) h)) \<le> 1"
  by (simp_all add: sample_repo_walks closed_under_def sample_repo_fetch first_commit_def)

text \<open>Both commits are old; the second is on no branch.\<close>

definition sample_inventory :: "object_kind \<Rightarrow> (string \<times> int) list" where
  "sample_inventory k = (if k = Commit then [(dg CHR ''a'', 5), (dg CHR ''b'', 5)] else [])"

section \<open>A footer and a file system\<close>

definition sample_group :: row_group_stats where
  "sample_group = \<lparr>rg_rows = 2, rg_columns = [\<lparr>cs_path = ''x'', cs_min = JInt 1, cs_max = JInt 5, cs_nulls = 0\<rparr>]\<rparr>"

definition sample_stats :: footer_stats where
  "sample_stats = \<lparr>fs_schema_hash = ''ab'', fs_schema = [(''x'', ''INT64'')], fs_row_groups = [sample_group], fs_created_by = JNull\<rparr>"

definition stats_reader :: prims where
  "stats_reader = sample\<lparr>json_loads := (\<lambda>s. Some (sort_keys (stats_json sample_stats)))\<rparr>"

text \<open>The smallest file with a footer.\<close>

definition empty_parquet :: string where
  "empty_parquet = ''PAR1'' @ [CHR 0x00, CHR 0x01, CHR 0x00, CHR 0x00, CHR 0x00] @ ''PAR1''"

lemma empty_parquet_parse:
  "parse_parquet_footer P 20 empty_parquet =
     Inr \<lparr>fs_schema_hash = blake3 P (dumps P '', '' '': '' (schema_json [])), fs_schema = [], fs_row_groups = [],
          fs_created_by = JNull\<rparr>"
  by (simp add: parse_parquet_footer_def empty_parquet_def parse_file_metadata_def read_struct_def read_byte_def
      byte_of_def schema_of_def MAX_FOOTER_SIZE_def Let_def)

definition sample_world :: world where
  "sample_world =
     \<lparr>w_fs = Dir [(''data'', Dir [(''a b.csv'', File ''1,2'' 5), (''x.tmp'', File ''t'' 6)])], w_root = [''data''],
      w_resolve = split_path, w_head = (\<lambda>b k. Inl ''404''), w_get = (\<lambda>b k. Inl ''404''), w_list = (\<lambda>b p. Inr []),
      w_fsspec = (\<lambda>u. Inl OSError)\<rparr>"

end
