(* ===== verification/Tree_Splice.thy ===== *)
theory Tree_Splice
  imports Tree_Write
begin

text \<open>
  \<open>core/services/tree.py\<close>: editing a stored tree along the paths of a change.
  \<open>splice_tree\<close> merges staged additions and removals into a parent tree, \<open>prune_tree\<close> drops
  everything under a set of removed paths, and both reuse untouched subtrees and shards by
  hash. The recursion over directories is bounded by a fuel; the operations on one node take
  the recursive call as an argument.

  The lemmas: whatever these operations do, and however they end, they keep the store
  content-addressed and lose no object. Which files an edited tree has is proved in \<open>Splice_Spec\<close>.
\<close>

section \<open>Paths\<close>

definition parent_dir :: "string \<Rightarrow> string" where
  "parent_dir path = join_path (butlast (split_path path))"

text \<open>\<open>f"{dir_path}/{name}" if dir_path else name\<close>.\<close>

definition child_path :: "string \<Rightarrow> string \<Rightarrow> string" where
  "child_path dir_path name = (if dir_path \<noteq> [] then dir_path @ ''/'' @ name else name)"

text \<open>\<open>_path_is_removed\<close>: the loop over the ancestors, with the prefix built so far.\<close>

fun ancestor_removed :: "string list \<Rightarrow> string \<Rightarrow> string list \<Rightarrow> bool" where
  "ancestor_removed removed pre [] = False"
| "ancestor_removed removed pre (part # parts) =
     (let pre' = child_path pre part in
      if pre' \<in> set removed then True else ancestor_removed removed pre' parts)"

definition path_is_removed :: "string \<Rightarrow> string list \<Rightarrow> bool" where
  "path_is_removed path removed =
     (if removed = [] then False
      else if path \<in> set removed then True
      else ancestor_removed removed [] (butlast (split_path path)))"

text \<open>What a removal prefix says inside a directory: \<open>prefix[prefix_len:]\<close>, if it lies below.\<close>

definition inside :: "string \<Rightarrow> string \<Rightarrow> string option" where
  "inside dir_path p =
     (if dir_path \<noteq> [] then
        (if prefix (dir_path @ ''/'') p then Some (drop (length dir_path + 1) p) else None)
      else Some p)"

definition first_part :: "string \<Rightarrow> string" where
  "first_part rel = takeWhile (\<lambda>c. c \<noteq> CHR ''/'') rel"

section \<open>Reading inside a run\<close>

definition loadS :: "prims \<Rightarrow> string \<Rightarrow> ('z tree_store_scheme, entry list option) sm" where
  "loadS P tree_hash s = (load P (ts_nodes s) tree_hash, s)"

definition load_known :: "prims \<Rightarrow> string \<Rightarrow> ('z tree_store_scheme, entry list) sm" where
  "load_known P tree_hash =
     bindS (loadS P tree_hash) (\<lambda>r. case r of None \<Rightarrow> raiseS ValueError | Some es \<Rightarrow> returnS es)"

definition kept_subtree :: "prims \<Rightarrow> kind \<Rightarrow> string \<Rightarrow> string \<Rightarrow> child" where
  "kept_subtree P k name tree_hash = (name, subtree_line P k name tree_hash)"

section \<open>Additions\<close>

text \<open>Dictionaries in insertion order: \<open>d.setdefault(k, []).append(v)\<close>.\<close>

definition alist_append :: "'k \<Rightarrow> 'v list \<Rightarrow> ('k \<times> 'v list) list \<Rightarrow> ('k \<times> 'v list) list" where
  "alist_append k vs kvs = alist_put k ((case map_of kvs k of None \<Rightarrow> [] | Some us \<Rightarrow> us) @ vs) kvs"

type_synonym leaf_adds = "(string \<times> entry) list"
type_synonym child_adds = "(string \<times> entry list) list"

definition split_additions :: "string \<Rightarrow> entry list \<Rightarrow> leaf_adds \<times> child_adds" where
  "split_additions dir_path additions =
     foldl (\<lambda>(leaves, kids) e.
         let rel = (if dir_path \<noteq> [] then drop (length dir_path + 1) (e_path e) else e_path e) in
         if CHR ''/'' \<notin> set rel then (alist_put rel e leaves, kids)
         else (leaves, alist_append (first_part rel) [e] kids))
       ([], []) additions"

definition touched_direct_names :: "string \<Rightarrow> leaf_adds \<Rightarrow> child_adds \<Rightarrow> string list \<Rightarrow> string list" where
  "touched_direct_names dir_path leaves kids removed =
     map fst leaves @ map fst kids @
     concat (map (\<lambda>p. case inside dir_path p of
         None \<Rightarrow> [] | Some rel \<Rightarrow> if rel = [] then [] else [first_part rel]) removed)"

section \<open>Splicing one node\<close>

type_synonym 's splice_rec = "string \<Rightarrow> string option \<Rightarrow> entry list \<Rightarrow> ('s, string option) sm"

text \<open>What the loop over a node's entries has collected.\<close>

record splice_acc =
  sa_kept :: "child list"
  sa_changed :: bool
  sa_leaves :: "string list"
  sa_dirs :: "string list"

definition keep :: "child \<Rightarrow> splice_acc \<Rightarrow> splice_acc" where
  "keep c a = a\<lparr>sa_kept := sa_kept a @ [c]\<rparr>"

definition mark_changed :: "splice_acc \<Rightarrow> splice_acc" where
  "mark_changed a = a\<lparr>sa_changed := True\<rparr>"

definition handled_leaf :: "string \<Rightarrow> splice_acc \<Rightarrow> splice_acc" where
  "handled_leaf name a = a\<lparr>sa_leaves := name # sa_leaves a\<rparr>"

definition handled_dir :: "string \<Rightarrow> splice_acc \<Rightarrow> splice_acc" where
  "handled_dir name a = a\<lparr>sa_dirs := name # sa_dirs a\<rparr>"

text \<open>A new directory at \<open>name\<close>, from additions alone.\<close>

definition keep_new_dir ::
  "prims \<Rightarrow> 's splice_rec \<Rightarrow> string \<Rightarrow> string \<Rightarrow> entry list \<Rightarrow> splice_acc \<Rightarrow> ('s, splice_acc) sm" where
  "keep_new_dir P rec full name adds a =
     bindS (rec full None adds) (\<lambda>r. case r of
       None \<Rightarrow> returnS a
     | Some h \<Rightarrow> returnS (keep (kept_subtree P KIND_TREE name h) a))"

definition keep_leaf :: "prims \<Rightarrow> string \<Rightarrow> entry \<Rightarrow> splice_acc \<Rightarrow> ('s, splice_acc) sm" where
  "keep_leaf P name e a =
     bindS (liftS (entry_to_leaf_line P e)) (\<lambda>line. returnS (keep (name, line) a))"

definition splice_leaf ::
  "prims \<Rightarrow> 's splice_rec \<Rightarrow> string \<Rightarrow> leaf_adds \<Rightarrow> child_adds \<Rightarrow> string list \<Rightarrow> entry
     \<Rightarrow> splice_acc \<Rightarrow> ('s, splice_acc) sm" where
  "splice_leaf P rec full leaves kids removed e a =
     (let name = e_path e in
      if path_is_removed full removed then
        (let a1 = mark_changed a in
         case map_of leaves name of
           Some new_leaf \<Rightarrow>
             bindS (keep_leaf P name new_leaf a1) (\<lambda>a2. returnS (handled_leaf name a2))
         | None \<Rightarrow>
             (case map_of kids name of
                Some adds \<Rightarrow> keep_new_dir P rec full name adds (handled_dir name a1)
              | None \<Rightarrow> returnS a1))
      else
        (case map_of leaves name of
           Some new_leaf \<Rightarrow>
             bindS (keep_leaf P name new_leaf a) (\<lambda>a2.
               returnS (mark_changed (handled_dir name (handled_leaf name a2))))
         | None \<Rightarrow>
             (case map_of kids name of
                Some adds \<Rightarrow>
                  bindS (keep_new_dir P rec full name adds (handled_dir name a)) (\<lambda>a2.
                    returnS (mark_changed a2))
              | None \<Rightarrow> returnS (keep (name, serialize P e) a))))"

definition splice_subtree ::
  "prims \<Rightarrow> 's splice_rec \<Rightarrow> string \<Rightarrow> leaf_adds \<Rightarrow> child_adds \<Rightarrow> string list \<Rightarrow> entry
     \<Rightarrow> splice_acc \<Rightarrow> ('s, splice_acc) sm" where
  "splice_subtree P rec full leaves kids removed e a =
     (let name = e_path e; gone = path_is_removed full removed in
      if gone \<and> map_of kids name = None then returnS (mark_changed a)
      else
        (case map_of leaves name of
           Some new_leaf \<Rightarrow>
             bindS (keep_leaf P name new_leaf a) (\<lambda>a2.
               returnS (mark_changed (handled_dir name (handled_leaf name a2))))
         | None \<Rightarrow>
             if \<not> gone \<and> \<not> (\<exists>p \<in> set removed. p = full \<or> prefix (full @ ''/'') p) \<and> map_of kids name = None
             then returnS (keep (kept_subtree P (e_kind e) name (e_hash e)) a)
             else
               (let adds = (case map_of kids name of None \<Rightarrow> [] | Some es \<Rightarrow> es); a1 = handled_dir name a in
                bindS (rec full (if gone then None else Some (e_hash e)) adds) (\<lambda>r. case r of
                  None \<Rightarrow> returnS (mark_changed a1)
                | Some h \<Rightarrow>
                    returnS (keep (kept_subtree P KIND_TREE name h)
                      (if h \<noteq> e_hash e then mark_changed a1 else a1))))))"

definition splice_children ::
  "prims \<Rightarrow> 's splice_rec \<Rightarrow> string \<Rightarrow> entry list \<Rightarrow> leaf_adds \<Rightarrow> child_adds \<Rightarrow> string list
     \<Rightarrow> ('s, child list \<times> bool) sm" where
  "splice_children P rec dir_path es leaves kids removed =
     bindS (foldS (\<lambda>a e.
         (if is_subtree e then splice_subtree else splice_leaf) P rec (child_path dir_path (e_path e))
           leaves kids removed e a)
       \<lparr>sa_kept = [], sa_changed = False, sa_leaves = [], sa_dirs = []\<rparr> es) (\<lambda>a1.
     bindS (foldS (\<lambda>a (name, new_leaf).
         if name \<in> set (sa_leaves a1) then returnS a
         else bindS (keep_leaf P name new_leaf a) (\<lambda>a'. returnS (mark_changed a'))) a1 leaves) (\<lambda>a2.
     bindS (foldS (\<lambda>a (name, adds).
         if name \<in> set (sa_dirs a2) then returnS a
         else bindS (rec (child_path dir_path name) None adds) (\<lambda>r. case r of
                None \<Rightarrow> returnS a
              | Some h \<Rightarrow> returnS (mark_changed (keep (kept_subtree P KIND_TREE name h) a)))) a2 kids)
       (\<lambda>a3. returnS (sa_kept a3, sa_changed a3))))"

section \<open>Sharded directories\<close>

text \<open>The binary search of the standard library's \<open>bisect_right\<close>.\<close>

function bisect_right_loop :: "string list \<Rightarrow> string \<Rightarrow> nat \<Rightarrow> nat \<Rightarrow> nat" where
  "bisect_right_loop a x lo hi =
     (if lo < hi then
        (let mid = (lo + hi) div 2 in
         if x < a ! mid then bisect_right_loop a x lo mid else bisect_right_loop a x (mid + 1) hi)
      else lo)"
  by pat_completeness auto
termination
  by (relation "measure (\<lambda>(a, x, lo, hi). hi - lo)") auto

declare bisect_right_loop.simps [simp del]

definition bisect_right :: "string list \<Rightarrow> string \<Rightarrow> nat" where
  "bisect_right a x = bisect_right_loop a x 0 (length a)"

definition shard_positions :: "entry list \<Rightarrow> nat list" where
  "shard_positions es = filter (\<lambda>i. e_kind (es ! i) = KIND_SHARD) [0 ..< length es]"

text \<open>\<open>shard_positions[max(bisect_right(shard_names, name) - 1, 0)]\<close>.\<close>

definition shard_index :: "entry list \<Rightarrow> string \<Rightarrow> nat" where
  "shard_index es name =
     (let ps = shard_positions es in ps ! (bisect_right (map (\<lambda>i. e_path (es ! i)) ps) name - 1))"

definition additions_by_index :: "entry list \<Rightarrow> leaf_adds \<Rightarrow> child_adds \<Rightarrow> (nat \<times> entry list) list" where
  "additions_by_index es leaves kids =
     foldl (\<lambda>d (name, adds). alist_append (shard_index es name) adds d)
       (foldl (\<lambda>d (name, e). alist_append (shard_index es name) [e] d) [] leaves) kids"

definition ceil_div :: "nat \<Rightarrow> nat \<Rightarrow> nat" where
  "ceil_div a b = (a + b - 1) div b"

text \<open>A rewritten shard body, split into sibling shards when it outgrew one node.\<close>

definition write_body ::
  "prims \<Rightarrow> string \<Rightarrow> child list \<Rightarrow> ('z tree_store_scheme, child list) sm" where
  "write_body P shard_hash sub_kept =
     (let body = sort_key fst sub_kept;
          group_size = ceil_div (length body) (ceil_div (length body) (shard_max P))
      in mapS (write_shard P [shard_hash]) (chunks group_size body))"

definition splice_shard ::
  "prims \<Rightarrow> 'z tree_store_scheme splice_rec \<Rightarrow> string \<Rightarrow> (nat \<times> entry list) list \<Rightarrow> nat list \<Rightarrow> string list
     \<Rightarrow> child list \<times> bool \<Rightarrow> nat \<times> entry \<Rightarrow> ('z tree_store_scheme, child list \<times> bool) sm" where
  "splice_shard P rec dir_path adds_at affected removed acc ie =
     (case (acc, ie) of ((kept, changed), (index, shard)) \<Rightarrow>
       if e_kind shard \<noteq> KIND_SHARD then
         returnS (kept @ [kept_subtree P (e_kind shard) (e_path shard) (e_hash shard)], changed)
       else if index \<notin> set affected then
         returnS (kept @ [kept_subtree P KIND_SHARD (e_path shard) (e_hash shard)], changed)
       else
         bindS (load_known P (e_hash shard)) (\<lambda>shard_content.
           case split_additions dir_path (case map_of adds_at index of None \<Rightarrow> [] | Some es \<Rightarrow> es) of
             (shard_local, shard_children) \<Rightarrow>
               bindS (splice_children P rec dir_path shard_content shard_local shard_children removed)
                 (\<lambda>(sub_kept, sub_changed).
                   if sub_kept = [] then returnS (kept, True)
                   else if \<not> sub_changed then
                     returnS (kept @ [kept_subtree P KIND_SHARD (e_path shard) (e_hash shard)], changed)
                   else bindS (write_body P (e_hash shard) sub_kept) (\<lambda>new_shards.
                          returnS (kept @ new_shards, True)))))"

text \<open>\<open>_expand_all_shards\<close>: a shard that is missing or empty contributes nothing.\<close>

definition expand_all_shards :: "prims \<Rightarrow> entry list \<Rightarrow> ('z tree_store_scheme, entry list) sm" where
  "expand_all_shards P es =
     bindS (mapS (\<lambda>e. if e_kind e = KIND_SHARD then
                        bindS (loadS P (e_hash e)) (\<lambda>r. returnS (case r of None \<Rightarrow> [] | Some xs \<Rightarrow> xs))
                      else returnS [e]) es)
       (\<lambda>ess. returnS (concat ess))"

definition splice_sharded_directory ::
  "prims \<Rightarrow> 'z tree_store_scheme splice_rec \<Rightarrow> string \<Rightarrow> string \<Rightarrow> entry list \<Rightarrow> leaf_adds \<Rightarrow> child_adds
     \<Rightarrow> string list \<Rightarrow> ('z tree_store_scheme, string option) sm" where
  "splice_sharded_directory P rec dir_path tree_hash es leaves kids removed =
     (let adds_at = additions_by_index es leaves kids;
          affected = map (shard_index es) (touched_direct_names dir_path leaves kids removed)
      in bindS (foldS (splice_shard P rec dir_path adds_at affected removed) ([], False)
                  (zip [0 ..< length es] es)) (\<lambda>(kept, changed).
           if kept = [] then returnS None
           else if \<not> changed then returnS (Some tree_hash)
           else if length kept > shard_max P then
             bindS (expand_all_shards P es) (\<lambda>expanded.
             bindS (splice_children P rec dir_path expanded leaves kids removed) (\<lambda>(full_kept, _).
               if full_kept = [] then returnS None
               else bindS (build_children P False [] full_kept) (\<lambda>h. returnS (Some h))))
           else bindS (build_children P False [tree_hash] kept) (\<lambda>h. returnS (Some h))))"

section \<open>Splicing a tree\<close>

definition finish_splice ::
  "prims \<Rightarrow> string option \<Rightarrow> child list \<times> bool \<Rightarrow> ('z tree_store_scheme, string option) sm" where
  "finish_splice P tree_hash kc =
     (case kc of (kept, changed) \<Rightarrow>
       if kept = [] then returnS None
       else if \<not> changed \<and> tree_hash \<noteq> None then returnS tree_hash
       else bindS (build_children P False [] kept) (\<lambda>h. returnS (Some h)))"

definition splice_node ::
  "prims \<Rightarrow> 'z tree_store_scheme splice_rec \<Rightarrow> string list \<Rightarrow> 'z tree_store_scheme splice_rec" where
  "splice_node P rec removed dir_path tree_hash additions =
     (case split_additions dir_path additions of (leaves, kids) \<Rightarrow>
       if \<exists>name \<in> set (map fst leaves). name \<in> set (map fst kids) then raiseS ValueError
       else case tree_hash of
           None \<Rightarrow>
             bindS (splice_children P rec dir_path [] leaves kids removed) (finish_splice P None)
         | Some h \<Rightarrow>
             bindS (load_known P h) (\<lambda>es.
               if \<exists>e \<in> set es. e_kind e = KIND_SHARD then
                 (if length es \<le> shard_max P then
                    splice_sharded_directory P rec dir_path h es leaves kids removed
                  else bindS (expand_all_shards P es) (\<lambda>expanded.
                         bindS (splice_children P rec dir_path expanded leaves kids removed)
                           (finish_splice P tree_hash)))
               else bindS (splice_children P rec dir_path es leaves kids removed)
                      (finish_splice P tree_hash)))"

primrec splice_directory :: "prims \<Rightarrow> string list \<Rightarrow> nat \<Rightarrow> 'z tree_store_scheme splice_rec" where
  "splice_directory P removed 0 = (\<lambda>dir_path tree_hash additions. raiseS OutOfFuel)"
| "splice_directory P removed (Suc n) = splice_node P (splice_directory P removed n) removed"

definition splice_tree ::
  "prims \<Rightarrow> nat \<Rightarrow> string option \<Rightarrow> entry list \<Rightarrow> string list \<Rightarrow> ('z tree_store_scheme, string) sm" where
  "splice_tree P n parent_tree additions removed_prefixes =
     (if \<not> truthy parent_tree then
        (if additions = [] then write_tree_bytes P [] []
         else build_from_entries P (sort_key e_path additions))
      else
        bindS (splice_directory P removed_prefixes n [] parent_tree additions) (\<lambda>r. case r of
          None \<Rightarrow> write_tree_bytes P [] []
        | Some h \<Rightarrow> returnS h))"

definition overlay_staged ::
  "prims \<Rightarrow> nat \<Rightarrow> string \<Rightarrow> entry list \<Rightarrow> string list \<Rightarrow> ('z tree_store_scheme, string) sm" where
  "overlay_staged P n parent_tree additions removed_prefixes =
     splice_tree P n (Some parent_tree) additions removed_prefixes"

section \<open>Pruning a tree\<close>

text \<open>U+10FFFF, the last code point.\<close>

definition last_char :: string where
  "last_char = [CHR 0xF4, CHR 0x8F, CHR 0xBF, CHR 0xBF]"

definition removal_ranges :: "string \<Rightarrow> string list \<Rightarrow> (string \<times> string) list" where
  "removal_ranges dir_path removed =
     concat (map (\<lambda>p. case inside dir_path p of
         None \<Rightarrow> [] | Some rel \<Rightarrow> if rel = [] then [] else [(rel, rel @ last_char)]) removed)"

type_synonym 's prune_rec = "string \<Rightarrow> string \<Rightarrow> ('s, string option) sm"

definition prune_entry ::
  "prims \<Rightarrow> 's prune_rec \<Rightarrow> string list \<Rightarrow> string \<Rightarrow> child list \<times> bool \<Rightarrow> entry \<Rightarrow> ('s, child list \<times> bool) sm" where
  "prune_entry P rec removed dir_path acc e =
     (case acc of (kept, changed) \<Rightarrow>
       let full = child_path dir_path (e_path e) in
       if path_is_removed full removed then returnS (kept, True)
       else if is_subtree e then
         (if \<not> (\<exists>p \<in> set removed. prefix (full @ ''/'') p) then
            returnS (kept @ [kept_subtree P (e_kind e) (e_path e) (e_hash e)], changed)
          else bindS (rec full (e_hash e)) (\<lambda>r. case r of
                 None \<Rightarrow> returnS (kept, True)
               | Some h \<Rightarrow> returnS (kept @ [kept_subtree P (e_kind e) (e_path e) h], changed \<or> h \<noteq> e_hash e)))
       else returnS (kept @ [(e_path e, serialize P e)], changed))"

definition prune_children ::
  "prims \<Rightarrow> 's prune_rec \<Rightarrow> string list \<Rightarrow> string \<Rightarrow> entry list \<Rightarrow> ('s, child list \<times> bool) sm" where
  "prune_children P rec removed dir_path es = foldS (prune_entry P rec removed dir_path) ([], False) es"

text \<open>A shard is loaded when a removal's range may meet the names it covers.\<close>

definition shard_touched :: "(string \<times> string) list \<Rightarrow> entry list \<Rightarrow> nat \<Rightarrow> bool" where
  "shard_touched ranges es index \<longleftrightarrow>
     (\<exists>(low, high) \<in> set ranges.
        (index + 1 < length es \<longrightarrow> low < e_path (es ! (index + 1))) \<and> e_path (es ! index) < high)"

definition prune_shard ::
  "prims \<Rightarrow> 'z tree_store_scheme prune_rec \<Rightarrow> string list \<Rightarrow> string \<Rightarrow> entry list
     \<Rightarrow> child list \<times> bool \<Rightarrow> nat \<Rightarrow> ('z tree_store_scheme, child list \<times> bool) sm" where
  "prune_shard P rec removed dir_path es acc index =
     (case acc of (kept, changed) \<Rightarrow>
       let shard = es ! index in
       if e_kind shard \<noteq> KIND_SHARD then
         returnS (kept @ [kept_subtree P (e_kind shard) (e_path shard) (e_hash shard)], changed)
       else if \<not> shard_touched (removal_ranges dir_path removed) es index then
         returnS (kept @ [kept_subtree P KIND_SHARD (e_path shard) (e_hash shard)], changed)
       else
         bindS (load_known P (e_hash shard)) (\<lambda>body.
         bindS (prune_children P rec removed dir_path body) (\<lambda>(body_kept, body_changed).
           if body_kept = [] then returnS (kept, True)
           else if \<not> body_changed then
             returnS (kept @ [kept_subtree P KIND_SHARD (e_path shard) (e_hash shard)], changed)
           else bindS (write_shard P [e_hash shard] (sort_key fst body_kept)) (\<lambda>c.
                  returnS (kept @ [c], True)))))"

definition prune_node ::
  "prims \<Rightarrow> 'z tree_store_scheme prune_rec \<Rightarrow> string list \<Rightarrow> 'z tree_store_scheme prune_rec" where
  "prune_node P rec removed dir_path tree_hash =
     bindS (load_known P tree_hash) (\<lambda>es.
       let sharded = (\<exists>e \<in> set es. e_kind e = KIND_SHARD) in
       bindS (if sharded then foldS (prune_shard P rec removed dir_path es) ([], False) [0 ..< length es]
              else prune_children P rec removed dir_path es) (\<lambda>(kept, changed).
         if kept = [] then returnS None
         else if \<not> changed then returnS (Some tree_hash)
         else bindS (build_children P False (if sharded then [tree_hash] else []) kept) (\<lambda>h.
                returnS (Some h))))"

primrec prune_directory :: "prims \<Rightarrow> string list \<Rightarrow> nat \<Rightarrow> 'z tree_store_scheme prune_rec" where
  "prune_directory P removed 0 = (\<lambda>dir_path tree_hash. raiseS OutOfFuel)"
| "prune_directory P removed (Suc n) = prune_node P (prune_directory P removed n) removed"

definition prune_tree ::
  "prims \<Rightarrow> nat \<Rightarrow> string \<Rightarrow> string list \<Rightarrow> ('z tree_store_scheme, string option) sm" where
  "prune_tree P n root_tree removed = prune_directory P removed n [] root_tree"

section \<open>What the operations keep\<close>

lemma keeps_loadS [keeps_intros]: "keeps P (loadS P h)"
  by (simp add: keeps_def loadS_def)

lemma keeps_load_known [keeps_intros]: "keeps P (load_known P h)"
  unfolding load_known_def by (intro keeps_intros)

lemma keeps_keep_leaf [keeps_intros]: "keeps P (keep_leaf P name e a)"
  unfolding keep_leaf_def by (intro keeps_intros)

lemma keeps_splice_children:
  assumes "\<And>d h as. keeps P (rec d h as)"
  shows "keeps P (splice_children P rec dir_path es leaves kids removed)"
proof -
  have "keeps P (splice_subtree P rec full leaves kids removed e a)"
    "keeps P (splice_leaf P rec full leaves kids removed e a)" for full e a
    unfolding splice_subtree_def splice_leaf_def keep_new_dir_def by (intro keeps_intros assms)+
  then have "keeps P ((if is_subtree e then splice_subtree else splice_leaf) P rec full leaves kids removed e a)"
    for full e a by simp
  then show ?thesis unfolding splice_children_def by (intro keeps_intros assms)
qed

lemma keeps_splice_directory: "keeps P (splice_directory P removed n d h as)"
proof (induction n arbitrary: d h as)
  case (Suc n)
  note ch = keeps_splice_children [of P "splice_directory P removed n", OF Suc.IH]
  show ?case
    unfolding splice_directory.simps splice_node_def splice_sharded_directory_def splice_shard_def
      write_body_def expand_all_shards_def finish_splice_def
    by (intro keeps_intros ch)
qed (simp add: keeps_raise)

lemma keeps_splice_tree [keeps_intros]: "keeps P (splice_tree P n parent adds removed)"
  unfolding splice_tree_def by (intro keeps_intros keeps_splice_directory)

lemma keeps_prune_children:
  assumes "\<And>d h. keeps P (rec d h)"
  shows "keeps P (prune_children P rec removed d es)"
  unfolding prune_children_def prune_entry_def by (intro keeps_intros assms)

lemma keeps_prune_directory: "keeps P (prune_directory P removed n d h)"
proof (induction n arbitrary: d h)
  case (Suc n)
  note ch = keeps_prune_children [of P "prune_directory P removed n", OF Suc.IH]
  show ?case unfolding prune_directory.simps prune_node_def prune_shard_def by (intro keeps_intros ch)
qed (simp add: keeps_raise)

lemma keeps_prune_tree [keeps_intros]: "keeps P (prune_tree P n h removed)"
  unfolding prune_tree_def by (rule keeps_prune_directory)

end
