(* ===== verification/Tree_Merge.thy ===== *)
theory Tree_Merge
  imports Tree_Splice Tree_Inspect
begin

text \<open>
  \<open>core/services/tree.py\<close>: the three-way merge of tree DAGs. Directories are merged node by
  node; a subtree unchanged on one side is taken from the other by hash, and two sharded
  sides with the ranges of the base are merged range by range. Conflicting paths are
  collected in an accumulator; \<open>merge_trees\<close> raises when there are any.
\<close>

section \<open>Merging a name\<close>

definition same_child :: "entry option \<Rightarrow> entry option \<Rightarrow> bool" where
  "same_child left right \<longleftrightarrow>
     (case (left, right) of
        (Some l, Some r) \<Rightarrow> e_kind l = e_kind r \<and> e_hash l = e_hash r \<and> e_size l = e_size r
      | _ \<Rightarrow> False)"

type_synonym 's merge_rec =
  "string \<Rightarrow> string option \<Rightarrow> string option \<Rightarrow> string option \<Rightarrow> string list
     \<Rightarrow> ('s, string option \<times> string list) sm"

definition merge_child ::
  "'s merge_rec \<Rightarrow> string \<Rightarrow> entry option \<Rightarrow> entry option \<Rightarrow> entry option \<Rightarrow> string list
     \<Rightarrow> ('s, entry option \<times> string list) sm" where
  "merge_child rec path base ours theirs conflicts =
     (if same_child ours theirs then returnS (ours, conflicts)
      else case (ours, theirs) of
        (Some o', Some t) \<Rightarrow>
          if base \<noteq> None \<and> same_child ours base then returnS (theirs, conflicts)
          else if base \<noteq> None \<and> same_child theirs base then returnS (ours, conflicts)
          else if is_subtree o' \<and> is_subtree t then
            bindS (rec path (case base of Some b \<Rightarrow> if is_subtree b then Some (e_hash b) else None | None \<Rightarrow> None)
                     (Some (e_hash o')) (Some (e_hash t)) conflicts) (\<lambda>(merged_hash, conflicts').
              case merged_hash of
                None \<Rightarrow> returnS (None, conflicts')
              | Some h \<Rightarrow>
                  bindS (liftS (make_entry (e_path o') (kind_str (e_kind o')) h 0 0 None None None)) (\<lambda>e.
                    returnS (Some e, conflicts')))
          else returnS (ours, conflicts @ [path])
      | _ \<Rightarrow>
          let present = (if ours \<noteq> None then ours else theirs) in
          if present = None then raiseS AssertionError
          else if base = None then returnS (present, conflicts)
          else if same_child present base then returnS (None, conflicts)
          else returnS (present, conflicts @ [path]))"

definition merged_line :: "prims \<Rightarrow> entry \<Rightarrow> ('s, string) sm" where
  "merged_line P e =
     (if is_subtree e then returnS (subtree_line P (e_kind e) (e_path e) (e_hash e))
      else liftS (entry_to_leaf_line P e))"

section \<open>Merging a directory\<close>

definition load_childrenS :: "prims \<Rightarrow> string \<Rightarrow> ('z tree_store_scheme, entry list) sm" where
  "load_childrenS P tree_hash s = (load_children (load P (ts_nodes s)) tree_hash, s)"

text \<open>\<open>_merge_sharded\<close>: \<open>None\<close> stands for \<open>(False, None)\<close>, the case it does not handle.\<close>

definition merge_shard ::
  "prims \<Rightarrow> 'z tree_store_scheme merge_rec \<Rightarrow> string \<Rightarrow> child list \<times> string list \<Rightarrow> entry \<times> entry \<times> entry
     \<Rightarrow> ('z tree_store_scheme, child list \<times> string list) sm" where
  "merge_shard P rec dir_path acc shards =
     (case (acc, shards) of ((merged_shards, conflicts), (ours_shard, theirs_shard, base_shard)) \<Rightarrow>
       bindS (if e_hash ours_shard = e_hash theirs_shard then returnS (Some (e_hash ours_shard), conflicts)
              else if e_hash ours_shard = e_hash base_shard then returnS (Some (e_hash theirs_shard), conflicts)
              else if e_hash theirs_shard = e_hash base_shard then returnS (Some (e_hash ours_shard), conflicts)
              else rec dir_path (Some (e_hash base_shard)) (Some (e_hash ours_shard))
                     (Some (e_hash theirs_shard)) conflicts)
         (\<lambda>(merged_hash, conflicts').
            case merged_hash of
              None \<Rightarrow> returnS (merged_shards, conflicts')
            | Some h \<Rightarrow>
                returnS (merged_shards @ [kept_subtree P KIND_SHARD (e_path ours_shard) h], conflicts')))"

definition merge_sharded ::
  "prims \<Rightarrow> 'z tree_store_scheme merge_rec \<Rightarrow> string \<Rightarrow> string option \<Rightarrow> string option \<Rightarrow> string option
     \<Rightarrow> string list \<Rightarrow> ('z tree_store_scheme, (string option \<times> string list) option) sm" where
  "merge_sharded P rec dir_path base_hash ours_hash theirs_hash conflicts =
     (case (base_hash, ours_hash, theirs_hash) of
        (Some b, Some o', Some t) \<Rightarrow>
          bindS (loadS P b) (\<lambda>base_node. bindS (loadS P o') (\<lambda>ours_node. bindS (loadS P t) (\<lambda>theirs_node.
            case (base_node, ours_node, theirs_node) of
              (Some bs, Some os, Some ts) \<Rightarrow>
                if \<not> (\<forall>e \<in> set (bs @ os @ ts). e_kind e = KIND_SHARD) then returnS None
                else if names os \<noteq> names ts \<or> names bs \<noteq> names ts then returnS None
                else
                  bindS (foldS (merge_shard P rec dir_path) ([], conflicts) (zip os (zip ts bs)))
                    (\<lambda>(merged_shards, conflicts').
                       if merged_shards = [] then returnS (Some (None, conflicts'))
                       else bindS (build_children P False [o', t] merged_shards) (\<lambda>h.
                              returnS (Some (Some h, conflicts'))))
            | _ \<Rightarrow> returnS None)))
      | _ \<Rightarrow> returnS None)"

definition merge_name ::
  "prims \<Rightarrow> 'z tree_store_scheme merge_rec \<Rightarrow> string \<Rightarrow> entry list \<Rightarrow> entry list \<Rightarrow> entry list
     \<Rightarrow> child list \<times> string list \<Rightarrow> string \<Rightarrow> ('z tree_store_scheme, child list \<times> string list) sm" where
  "merge_name P rec dir_path bs os ts acc name =
     (case acc of (merged_children, conflicts) \<Rightarrow>
       bindS (merge_child rec (child_path dir_path name) (child_dict bs name) (child_dict os name)
                (child_dict ts name) conflicts) (\<lambda>(merged, conflicts').
         case merged of
           None \<Rightarrow> returnS (merged_children, conflicts')
         | Some e \<Rightarrow> bindS (merged_line P e) (\<lambda>line.
                       returnS (merged_children @ [(name, line)], conflicts'))))"

definition merge_children ::
  "prims \<Rightarrow> 'z tree_store_scheme merge_rec \<Rightarrow> string \<Rightarrow> string option \<Rightarrow> string \<Rightarrow> string \<Rightarrow> string list
     \<Rightarrow> ('z tree_store_scheme, string option \<times> string list) sm" where
  "merge_children P rec dir_path base_hash o' t conflicts =
     bindS (load_childrenS P o') (\<lambda>os.
     bindS (load_childrenS P t) (\<lambda>ts.
     bindS (case base_hash of None \<Rightarrow> returnS [] | Some b \<Rightarrow> load_childrenS P b) (\<lambda>bs.
     bindS (foldS (merge_name P rec dir_path bs os ts) ([], conflicts)
              (sort (remdups (names bs @ names os @ names ts)))) (\<lambda>(merged_children, conflicts').
       if merged_children = [] then returnS (None, conflicts')
       else bindS (build_children P False [o', t] merged_children) (\<lambda>h.
              returnS (Some h, conflicts'))))))"

definition merge_node :: "prims \<Rightarrow> 'z tree_store_scheme merge_rec \<Rightarrow> 'z tree_store_scheme merge_rec" where
  "merge_node P rec dir_path base_hash ours_hash theirs_hash conflicts =
     (if ours_hash = theirs_hash then returnS (ours_hash, conflicts)
      else if ours_hash = base_hash then returnS (theirs_hash, conflicts)
      else if theirs_hash = base_hash then returnS (ours_hash, conflicts)
      else case (ours_hash, theirs_hash) of
        (Some o', Some t) \<Rightarrow>
          bindS (merge_sharded P rec dir_path base_hash ours_hash theirs_hash conflicts) (\<lambda>r.
            case r of
              Some handled \<Rightarrow> returnS handled
            | None \<Rightarrow> merge_children P rec dir_path base_hash o' t conflicts)
      | _ \<Rightarrow> returnS (if ours_hash \<noteq> None then ours_hash else theirs_hash, conflicts @ [dir_path]))"

primrec merge_directory :: "prims \<Rightarrow> nat \<Rightarrow> 'z tree_store_scheme merge_rec" where
  "merge_directory P 0 = (\<lambda>dir_path base_hash ours_hash theirs_hash conflicts. raiseS OutOfFuel)"
| "merge_directory P (Suc n) = merge_node P (merge_directory P n)"

section \<open>Merging trees\<close>

definition three_way_merge ::
  "prims \<Rightarrow> nat \<Rightarrow> string option \<Rightarrow> string \<Rightarrow> string \<Rightarrow> ('z tree_store_scheme, string \<times> string list) sm" where
  "three_way_merge P n base_tree ours_tree theirs_tree =
     bindS (merge_directory P n [] base_tree (Some ours_tree) (Some theirs_tree) []) (\<lambda>(merged, conflicts).
       case merged of
         None \<Rightarrow> bindS (write_tree_bytes P [] []) (\<lambda>h. returnS (h, conflicts))
       | Some h \<Rightarrow> returnS (h, conflicts))"

definition merge_trees ::
  "prims \<Rightarrow> nat \<Rightarrow> string option \<Rightarrow> string \<Rightarrow> string \<Rightarrow> ('z tree_store_scheme, string) sm" where
  "merge_trees P n base_tree ours_tree theirs_tree =
     bindS (three_way_merge P n base_tree ours_tree theirs_tree) (\<lambda>(merged_tree, conflicts).
       if conflicts \<noteq> [] then raiseS (MergeConflictError (sort conflicts)) else returnS merged_tree)"

section \<open>What the merge keeps\<close>

lemma keeps_load_childrenS [keeps_intros]: "keeps P (load_childrenS P h)"
  by (simp add: keeps_def load_childrenS_def)

lemma keeps_merge_child:
  assumes "\<And>p b o' t c. keeps P (rec p b o' t c)"
  shows "keeps P (merge_child rec path base ours theirs conflicts)"
  unfolding merge_child_def by (cases ours; cases theirs; simp; intro conjI impI keeps_intros assms)

lemma keeps_merge_node:
  assumes "\<And>p b o' t c. keeps P (rec p b o' t c)"
  shows "keeps P (merge_node P rec d b o' t c)"
proof -
  have "keeps P (merge_sharded P rec d b o' t c)" for b o' t c
    unfolding merge_sharded_def merge_shard_def by (intro keeps_intros assms)
  moreover have "keeps P (merge_children P rec d b o' t c)" for b o' t c
    unfolding merge_children_def merge_name_def merged_line_def
    by (intro keeps_intros keeps_merge_child assms)
  ultimately show ?thesis unfolding merge_node_def by (intro keeps_intros)
qed

lemma keeps_merge_directory: "keeps P (merge_directory P n d b o' t c)"
  by (induction n arbitrary: d b o' t c) (simp_all add: keeps_raise keeps_merge_node)

lemma keeps_three_way_merge [keeps_intros]: "keeps P (three_way_merge P n b o' t)"
  unfolding three_way_merge_def by (intro keeps_intros keeps_merge_directory)

lemma keeps_merge_trees [keeps_intros]: "keeps P (merge_trees P n b o' t)"
  unfolding merge_trees_def by (intro keeps_intros)

end
