(* ===== verification/Entries.thy ===== *)
theory Entries
  imports Ignore
begin

text \<open>
  \<open>core/services/entries.py\<close>: entries for staged changes and imported objects, and the blobs
  they name, with the blob writes of the local store and the import path filters of
  \<open>core/repository_support.py\<close>. An \<open>env\<close> holds what an operation is given besides the store: the
  codecs, the world, the settings, and the fuel of the recursive reads.

  That every blob and footer these operations write is stored under its own digest, and that an
  entry that cannot be made leaves no wrong object behind, is proved in \<open>Repo_Invariants\<close>.
\<close>

section \<open>The environment of an operation\<close>

record env =
  ev_prims :: prims
  ev_world :: world
  ev_capture :: bool
  ev_trust_mtime :: bool
  ev_identity :: string
  ev_depth :: nat
  ev_tree :: nat
  ev_history :: nat
  ev_walk :: nat
  ev_now :: string

text \<open>The exceptions that \<open>except (OSError, ValueError)\<close> catches.\<close>

definition os_or_value :: "error \<Rightarrow> bool" where
  "os_or_value e \<longleftrightarrow>
     e \<notin> {TypeError, OverflowError, AssertionError, IndexError, KeyError, NotImplementedError, AttributeError, StructError,
          PatternError, DecodeError, OutOfFuel}"

section \<open>Blobs\<close>

text \<open>\<open>write_blob_file\<close> and \<open>write_blob_stream\<close>: the digest is computed from what is copied.\<close>

definition write_blob :: "prims \<Rightarrow> string \<Rightarrow> string \<Rightarrow> bool \<Rightarrow> ('z repo_store_scheme, unit) sm" where
  "write_blob P h payload if_missing s =
     (if if_missing \<and> object_exists Blob s h then (Inr (), s)
      else if blake3 P payload \<noteq> h then (Inl ValueError, s)
      else (Inr (), s\<lparr>rs_blobs := alist_put h payload (rs_blobs s)\<rparr>))"

definition store_blob_from_source_uri :: "env \<Rightarrow> string \<Rightarrow> ('z repo_store_scheme, string) sm" where
  "store_blob_from_source_uri E source_uri s =
     bindS (liftS (open_source_uri (ev_world E) source_uri)) (\<lambda>payload.
       let digest = blake3 (ev_prims E) payload in
       if object_exists Blob s digest then returnS digest
       else bindS (write_blob (ev_prims E) digest payload True) (\<lambda>_. returnS digest)) s"

definition capture_footer :: "env \<Rightarrow> string \<Rightarrow> ('z repo_store_scheme, string option) sm" where
  "capture_footer E source_uri s =
     (if \<not> ev_capture E \<or> \<not> suffix ''.parquet'' (ascii_lower source_uri) then (Inr None, s)
      else case bindS (liftS (open_source_uri (ev_world E) source_uri))
                 (capture_footer_stats (ev_prims E) (ev_depth E)) s of
        (Inl e, s') \<Rightarrow> (if os_or_value e then Inr None else Inl e, s')
      | r \<Rightarrow> r)"

section \<open>Import path filters\<close>

text \<open>\<open>fnmatch\<close> on one component: \<open>*\<close> and \<open>?\<close> match any character, a range that is empty is dropped.\<close>

fun fn_items :: "string list \<Rightarrow> (string \<times> string) list" where
  "fn_items [] = []"
| "fn_items [c] = [(c, c)]"
| "fn_items [c, d] = [(c, c), (d, d)]"
| "fn_items (c # d # e # cs) =
     (if d = ''-'' then (if e < c then fn_items cs else (c, e) # fn_items cs) else (c, c) # fn_items (d # e # cs))"

text \<open>The members of a class and the rest of the pattern; a bracket that is not closed is a character.\<close>

definition fn_class :: "string list \<Rightarrow> (bool \<times> (string \<times> string) list \<times> string list) option" where
  "fn_class cs =
     (let neg = cs \<noteq> [] \<and> hd cs = ''!''; ds = (if neg then tl cs else cs);
          first = (if ds \<noteq> [] \<and> hd ds = '']'' then [hd ds] else []); rest = drop (length first) ds;
          members = first @ takeWhile (\<lambda>c. c \<noteq> '']'') rest
      in if '']'' \<in> set rest then Some (neg, fn_items members, tl (dropWhile (\<lambda>c. c \<noteq> '']'') rest)) else None)"

lemma fn_class_shorter: "fn_class cs = Some (neg, rs, rest) \<Longrightarrow> length rest < Suc (length cs)"
proof -
  have "length (tl (dropWhile Q xs)) \<le> length xs" for Q and xs :: "string list"
    using length_dropWhile_le [of Q xs] by simp
  note this [of "\<lambda>c. c \<noteq> '']''" cs] this [of "\<lambda>c. c \<noteq> '']''" "tl cs"]
    this [of "\<lambda>c. c \<noteq> '']''" "tl (tl cs)"]
  then show "fn_class cs = Some (neg, rs, rest) \<Longrightarrow> ?thesis"
    by (auto simp: fn_class_def Let_def drop_Suc split: if_splits)
qed

function fn_match :: "string list \<Rightarrow> string list \<Rightarrow> bool" where
  "fn_match pattern s =
     (case pattern of
        [] \<Rightarrow> s = []
      | p # ps \<Rightarrow>
          if p = ''*'' then (if s = [] then fn_match ps s else fn_match ps s \<or> fn_match (p # ps) (tl s))
          else if s = [] then False
          else if p = ''?'' then fn_match ps (tl s)
          else if p = ''['' then
            (case fn_class ps of
               None \<Rightarrow> hd s = p \<and> fn_match ps (tl s)
             | Some (neg, rs, rest) \<Rightarrow> class_has neg rs (hd s) \<and> fn_match rest (tl s))
          else hd s = p \<and> fn_match ps (tl s))"
  by pat_completeness auto
termination
  by (relation "measures [\<lambda>(p, s). length p, \<lambda>(p, s). length s]") (auto dest: fn_class_shorter)

declare fn_match.simps [simp del]

definition pure_parts :: "string \<Rightarrow> string list" where
  "pure_parts path = filter (\<lambda>p. p \<noteq> [] \<and> p \<noteq> ''.'') (split_path path)"

text \<open>\<open>PurePosixPath(path).match(pattern)\<close>: component by component, from the right.\<close>

definition path_match :: "string list \<Rightarrow> string \<Rightarrow> bool res" where
  "path_match parts pattern =
     (let ps = pure_parts pattern in
      if ps = [] then Inl ValueError
      else Inr (length ps \<le> length parts \<and>
        list_all2 (\<lambda>p c. fn_match (chars p) (chars c)) (rev ps) (take (length ps) (rev parts))))"

definition match_import_pattern :: "string list \<Rightarrow> string \<Rightarrow> bool res" where
  "match_import_pattern parts pattern =
     bindE (path_match parts pattern) (\<lambda>m.
       if m then Inr True
       else if prefix ''**/'' pattern then
         (if length parts = 1 then path_match parts (drop 3 pattern) else Inr False)
       else Inr False)"

fun any_pattern :: "string list \<Rightarrow> string list \<Rightarrow> bool res" where
  "any_pattern parts [] = Inr False"
| "any_pattern parts (p # ps) =
     bindE (match_import_pattern parts p) (\<lambda>m. if m then Inr True else any_pattern parts ps)"

definition matches_import_patterns :: "string \<Rightarrow> string list \<Rightarrow> bool res" where
  "matches_import_patterns relative_path path_patterns =
     (if path_patterns = [] then Inr True else any_pattern (pure_parts relative_path) path_patterns)"

section \<open>Entries\<close>

record stage_change =
  ch_path :: string
  ch_action :: string
  ch_identity :: "string option"
  ch_uri :: "string option"
  ch_blob :: "string option"
  ch_size :: "int option"
  ch_mtime :: "int option"

definition identity_of_object ::
  "env \<Rightarrow> string \<Rightarrow> string \<Rightarrow> s3_object \<Rightarrow> ('z repo_store_scheme, string) sm" where
  "identity_of_object E mode relative_path obj =
     (if mode = ''content'' then store_blob_from_source_uri E (s3_object_uri obj)
      else if mode = ''pointer'' then returnS (metadata_identity (ev_prims E) relative_path (so_size obj))
      else raiseS ValueError)"

definition materialize_s3_object ::
  "env \<Rightarrow> string \<Rightarrow> string \<Rightarrow> string list \<Rightarrow> s3_object \<Rightarrow> ('z repo_store_scheme, entry list) sm" where
  "materialize_s3_object E mode pre patterns obj =
     bindS (liftS (normalize_s3_import_path (so_key obj) pre (so_size obj))) (\<lambda>r.
       case r of
         None \<Rightarrow> returnS []
       | Some relative_path \<Rightarrow>
           bindS (liftS (matches_import_patterns relative_path patterns)) (\<lambda>m.
             if \<not> m then returnS []
             else
               bindS (identity_of_object E mode relative_path obj) (\<lambda>identity_value.
               bindS (liftS (with_identity relative_path identity_value (so_size obj) (so_mtime obj) mode
                        (Some (s3_object_uri obj)) None (so_etag obj))) (\<lambda>e.
                 returnS [e]))))"

definition materialize_s3_entries ::
  "env \<Rightarrow> string \<Rightarrow> string \<Rightarrow> string list \<Rightarrow> ('z repo_store_scheme, entry list) sm" where
  "materialize_s3_entries E source_uri mode path_patterns =
     bindS (liftS (parse_s3_uri source_uri)) (\<lambda>(bucket, pre).
     bindS (liftS (normalize_import_patterns path_patterns)) (\<lambda>patterns.
     bindS (liftS (iter_s3_objects (ev_world E) source_uri)) (\<lambda>objects.
     bindS (mapS (materialize_s3_object E mode (strip_char (CHR ''/'') pre) patterns) objects) (\<lambda>ess.
       returnS (concat ess)))))"

definition root_parts :: "env \<Rightarrow> string \<Rightarrow> string list" where
  "root_parts E relative_path = w_root (ev_world E) @ pure_parts relative_path"

definition entry_from_working_path ::
  "env \<Rightarrow> string \<Rightarrow> string \<Rightarrow> bool \<Rightarrow> ('z repo_store_scheme, entry) sm" where
  "entry_from_working_path E relative_path mode store_blob =
     (let P = ev_prims E; source_path = root_parts E relative_path in
      case path_file (ev_world E) source_path of
        None \<Rightarrow> raiseS SourceNotFoundError
      | Some (b, mtime_ns) \<Rightarrow>
          let source_uri = as_uri source_path in
          bindS (capture_footer E source_uri) (\<lambda>footer.
          bindS (if mode = ''content'' then
                   (if store_blob then bindS (write_blob P (blake3 P b) b True) (\<lambda>_. returnS (blake3 P b))
                    else returnS (blake3 P b))
                 else if mode = ''pointer'' then returnS (metadata_identity P relative_path (int (length b)))
                 else raiseS ValueError) (\<lambda>identity_value.
            liftS (with_identity relative_path identity_value (int (length b)) mtime_ns mode
              (if mode = ''pointer'' then Some source_uri else None) footer None))))"

definition entry_from_source_uri ::
  "env \<Rightarrow> string \<Rightarrow> string \<Rightarrow> string \<Rightarrow> bool \<Rightarrow> ('z repo_store_scheme, entry) sm" where
  "entry_from_source_uri E logical_path source_uri mode store_blob =
     bindS (liftS (describe_source_uri (ev_world E) source_uri)) (\<lambda>m.
     bindS (capture_footer E source_uri) (\<lambda>footer.
     bindS (if mode = ''content'' then store_blob_from_source_uri E source_uri
            else if mode = ''pointer'' then returnS (metadata_identity (ev_prims E) logical_path (sm_size m))
            else raiseS ValueError) (\<lambda>identity_value.
       liftS (with_identity logical_path identity_value (sm_size m) (sm_mtime m) mode
         (if mode = ''pointer'' then Some (sm_uri m) else None) footer
         (if mode = ''pointer'' then sm_etag m else None)))))"

definition entry_from_stage_change ::
  "env \<Rightarrow> stage_change \<Rightarrow> string \<Rightarrow> bool \<Rightarrow> ('z repo_store_scheme, entry) sm" where
  "entry_from_stage_change E c mode store_blob =
     (case ch_uri c of
        Some uri \<Rightarrow> entry_from_source_uri E (ch_path c) uri mode store_blob
      | None \<Rightarrow>
          if path_exists (ev_world E) (root_parts E (ch_path c)) then
            entry_from_working_path E (ch_path c) mode store_blob
          else case ch_blob c of
            Some h \<Rightarrow>
              if h \<noteq> [] \<and> mode = ''content'' then
                liftS (with_identity (ch_path c) h (case ch_size c of None \<Rightarrow> 0 | Some sz \<Rightarrow> sz) 0 ''content'' None None None)
              else raiseS SourceNotFoundError
          | None \<Rightarrow> raiseS SourceNotFoundError)"

end
