(* ===== verification/Staging.thy ===== *)
theory Staging
  imports Entries Ref_Manager
begin

text \<open>
  \<open>core/services/staging.py\<close>: the staged changes of a branch (a dictionary from path to change,
  kept as a JSON document in client state), the expansion of a source into logical paths, and
  the status report with its comparison of the working tree.

  What these operations keep of the repository is proved in \<open>Repo_Invariants\<close>; that a commit clears
  what it took from the staged changes, in \<open>Repo_History\<close>.
\<close>

section \<open>The staged changes\<close>

definition opt_num :: "int option \<Rightarrow> json" where
  "opt_num v = (case v of None \<Rightarrow> JNull | Some i \<Rightarrow> JInt i)"

definition change_json :: "stage_change \<Rightarrow> json" where
  "change_json c =
     JObj [(''path'', JStr (ch_path c)), (''action'', JStr (ch_action c)), (''identity_mode'', opt_json (ch_identity c)),
           (''source_uri'', opt_json (ch_uri c)), (''blob_hash'', opt_json (ch_blob c)), (''size'', opt_num (ch_size c)),
           (''mtime_ns'', opt_num (ch_mtime c))]"

text \<open>The typed decoding of a field: \<open>str\<close>, \<open>str | None\<close> or \<open>int | None\<close>, absent for the default.\<close>

definition str_field :: "(string \<times> json) list \<Rightarrow> string \<Rightarrow> string res" where
  "str_field kvs k = (case obj_get kvs k of Some (JStr s) \<Rightarrow> Inr s | _ \<Rightarrow> Inl DecodeError)"

definition opt_str_field :: "(string \<times> json) list \<Rightarrow> string \<Rightarrow> string option res" where
  "opt_str_field kvs k =
     (case obj_get kvs k of None \<Rightarrow> Inr None | Some JNull \<Rightarrow> Inr None | Some (JStr s) \<Rightarrow> Inr (Some s) | _ \<Rightarrow> Inl DecodeError)"

definition opt_int_field :: "(string \<times> json) list \<Rightarrow> string \<Rightarrow> int option res" where
  "opt_int_field kvs k =
     (case obj_get kvs k of None \<Rightarrow> Inr None | Some JNull \<Rightarrow> Inr None | Some (JInt i) \<Rightarrow> Inr (Some i) | _ \<Rightarrow> Inl DecodeError)"

definition change_of_json :: "json \<Rightarrow> stage_change res" where
  "change_of_json v =
     (case v of
        JObj kvs \<Rightarrow>
          bindE (str_field kvs ''path'') (\<lambda>p.
          bindE (str_field kvs ''action'') (\<lambda>a.
          bindE (opt_str_field kvs ''identity_mode'') (\<lambda>i.
          bindE (opt_str_field kvs ''source_uri'') (\<lambda>u.
          bindE (opt_str_field kvs ''blob_hash'') (\<lambda>b.
          bindE (opt_int_field kvs ''size'') (\<lambda>sz.
          bindE (opt_int_field kvs ''mtime_ns'') (\<lambda>m.
            Inr \<lparr>ch_path = p, ch_action = a, ch_identity = i, ch_uri = u, ch_blob = b, ch_size = sz, ch_mtime = m\<rparr>)))))))
      | _ \<Rightarrow> Inl DecodeError)"

type_synonym staged = "(string \<times> stage_change) list"

definition decode_changes :: "prims \<Rightarrow> string \<Rightarrow> stage_change list res" where
  "decode_changes P payload =
     (case json_decode P payload of Some (JArr xs) \<Rightarrow> mapE change_of_json xs | _ \<Rightarrow> Inl DecodeError)"

definition by_path :: "stage_change list \<Rightarrow> staged" where
  "by_path cs = fold (\<lambda>c st. alist_put (ch_path c) c st) cs []"

definition stage_load :: "prims \<Rightarrow> 'z repo_store_scheme \<Rightarrow> string \<Rightarrow> staged res" where
  "stage_load P s b =
     (case read_staging_payload (rs_client s) b of
        None \<Rightarrow> Inr []
      | Some payload \<Rightarrow> bindE (decode_changes P payload) (\<lambda>cs. Inr (by_path cs)))"

definition encode_staged :: "prims \<Rightarrow> staged \<Rightarrow> string" where
  "encode_staged P staged =
     json_format P (json_encode P (JArr (map change_json (sort_key ch_path (map snd staged))))) @ [CHR 0x0A]"

definition stage_save :: "prims \<Rightarrow> string \<Rightarrow> staged \<Rightarrow> ('z repo_store_scheme, unit) sm" where
  "stage_save P b staged s =
     (Inr (), s\<lparr>rs_client := write_staging_payload b (if staged = [] then None else Some (encode_staged P staged)) (rs_client s)\<rparr>)"

section \<open>Sources\<close>

definition normalize_to :: "string option \<Rightarrow> string \<Rightarrow> string res" where
  "normalize_to destination_path dflt =
     (case destination_path of Some d \<Rightarrow> normalize_repository_path d | None \<Rightarrow> normalize_repository_path dflt)"

text \<open>\<open>path.relative_to(root).as_posix()\<close>, \<open>None\<close> where it raises.\<close>

definition relative_to_root :: "env \<Rightarrow> string list \<Rightarrow> string option" where
  "relative_to_root E path =
     (let r = w_root (ev_world E) in
      if take (length r) path \<noteq> r then None
      else Some (let ps = drop (length r) path in if ps = [] then ''.'' else join_path ps))"

definition path_name :: "string list \<Rightarrow> string" where
  "path_name ps = (if ps = [] then [] else last ps)"

definition stage_source_path :: "env \<Rightarrow> string \<Rightarrow> string list" where
  "stage_source_path E raw_source =
     (if prefix ''/'' raw_source then abs_parts raw_source
      else if prefix ''~'' raw_source then w_resolve (ev_world E) raw_source
      else resolve_dots (rev (w_root (ev_world E))) (split_path raw_source))"

definition single_local_logical_path :: "env \<Rightarrow> string list \<Rightarrow> string option \<Rightarrow> string res" where
  "single_local_logical_path E src_path destination_path =
     (case destination_path of
        Some d \<Rightarrow> normalize_repository_path d
      | None \<Rightarrow>
          (case (case relative_to_root E src_path of
                   None \<Rightarrow> Inl ValueError | Some r \<Rightarrow> normalize_repository_path r) of
             Inr p \<Rightarrow> Inr p
           | Inl err \<Rightarrow> normalize_repository_path (path_name src_path)))"

definition joined_logical_path :: "string \<Rightarrow> string \<Rightarrow> string res" where
  "joined_logical_path destination_prefix suffix_path =
     normalize_repository_path (join_path (pure_parts destination_prefix @ pure_parts suffix_path))"

text \<open>The directory a source is staged under: the given one, its own path in the repository, or its name.\<close>

definition stage_prefix :: "env \<Rightarrow> string list \<Rightarrow> string option \<Rightarrow> string res" where
  "stage_prefix E src_path destination_path =
     (let repo_relative_dir =
            (case relative_to_root E src_path of
               None \<Rightarrow> None
             | Some r \<Rightarrow> (case normalize_repository_path r of Inr p \<Rightarrow> Some p | Inl err \<Rightarrow> None))
      in case destination_path of
           Some d \<Rightarrow> normalize_repository_path d
         | None \<Rightarrow> (case repo_relative_dir of Some p \<Rightarrow> Inr p | None \<Rightarrow> normalize_repository_path (path_name src_path)))"

definition expand_directory :: "env \<Rightarrow> string list \<Rightarrow> string option \<Rightarrow> (string \<times> string) list res" where
  "expand_directory E src_path destination_path =
     bindE (stage_prefix E src_path destination_path) (\<lambda>destination_prefix.
       let W = ev_world E;
           (ignore_root, pre) =
             (case relative_to_root E src_path of
                None \<Rightarrow> (src_path, [])
              | Some r \<Rightarrow> (w_root W, if r = ''.'' then [] else r))
       in bindE (load_rules W ignore_root) (\<lambda>rules.
          bindE (mapE (\<lambda>f.
                   bindE (joined_logical_path destination_prefix (join_path (drop (length src_path) (fe_path f)))) (\<lambda>p.
                     Inr (p, as_uri (fe_path f))))
                 (walk_files W src_path rules pre)) (\<lambda>entries.
            if entries = [] then Inl SourceNotFoundError else Inr entries)))"

definition expand_local_stage_source :: "env \<Rightarrow> string \<Rightarrow> string option \<Rightarrow> (string \<times> string) list res" where
  "expand_local_stage_source E raw_source destination_path =
     (let src_path = stage_source_path E raw_source in
      case fs_at (w_fs (ev_world E)) src_path of
        None \<Rightarrow> Inl SourceNotFoundError
      | Some (File b m) \<Rightarrow>
          bindE (single_local_logical_path E src_path destination_path) (\<lambda>p. Inr [(p, as_uri src_path)])
      | Some Other \<Rightarrow> Inl SourceNotFoundError
      | _ \<Rightarrow> expand_directory E src_path destination_path)"

definition last_part :: "string \<Rightarrow> string" where
  "last_part path = path_name (pure_parts path)"

definition stage_s3_object :: "string \<Rightarrow> string \<Rightarrow> s3_object \<Rightarrow> (string \<times> string) list res" where
  "stage_s3_object pre destination_prefix obj =
     bindE (normalize_s3_import_path (so_key obj) pre (so_size obj)) (\<lambda>r.
       case r of
         None \<Rightarrow> Inr []
       | Some relative_path \<Rightarrow>
           bindE (joined_logical_path destination_prefix relative_path) (\<lambda>p. Inr [(p, s3_object_uri obj)]))"

definition expand_s3_stage_source :: "env \<Rightarrow> string \<Rightarrow> string option \<Rightarrow> (string \<times> string) list res" where
  "expand_s3_stage_source E raw_source destination_path =
     bindE (parse_s3_uri raw_source) (\<lambda>(bucket, key).
       let normalized_key = strip_char (CHR ''/'') key in
       if normalized_key = [] then Inl ValueError
       else
         bindE (iter_s3_objects (ev_world E) raw_source) (\<lambda>objects.
           if objects = [] then Inl SourceNotFoundError
           else
             let exact_object_uri = ''s3://'' @ bucket @ ''/'' @ normalized_key;
                 exact = filter (\<lambda>x. s3_object_uri x = exact_object_uri) objects;
                 single = bindE (normalize_to destination_path (last_part normalized_key)) (\<lambda>p. Inr [(p, exact_object_uri)])
             in if length exact = 1 \<and> length objects = 1 then single
                else
                  bindE (normalize_to destination_path (last_part normalized_key)) (\<lambda>destination_prefix.
                  bindE (mapE (stage_s3_object normalized_key destination_prefix) objects) (\<lambda>ess.
                    let entries = concat ess in
                    if entries = [] \<and> exact \<noteq> [] then single
                    else if entries = [] then Inl SourceNotFoundError
                    else Inr entries))))"

definition expand_stage_source :: "env \<Rightarrow> string \<Rightarrow> string option \<Rightarrow> (string \<times> string) list res" where
  "expand_stage_source E raw_source destination_path =
     (if prefix ''s3://'' raw_source then expand_s3_stage_source E raw_source destination_path
      else expand_local_stage_source E raw_source destination_path)"

section \<open>Status\<close>

record stage_status =
  ss_ref :: string
  ss_added :: "string list"
  ss_removed :: "string list"
  ss_wt_added :: "string list"
  ss_wt_removed :: "string list"
  ss_wt_modified :: "string list"

text \<open>A path in both: modified when the size differs, or the digest does, unless its time is trusted.\<close>

definition file_modified :: "env \<Rightarrow> file_entry \<Rightarrow> entry \<Rightarrow> bool res" where
  "file_modified E f e =
     (if fe_size f \<noteq> e_size e then Inr True
      else if ev_trust_mtime E \<and> fe_mtime f = e_mtime e then Inr False
      else bindE (open_path (ev_world E) (fe_path f)) (\<lambda>b. Inr (blake3 (ev_prims E) b \<noteq> e_hash e)))"

definition differing ::
  "env \<Rightarrow> (string \<Rightarrow> file_entry option) \<Rightarrow> (string \<Rightarrow> entry option) \<Rightarrow> string list \<Rightarrow> string list res" where
  "differing E working manifest both =
     bindE (mapE (\<lambda>p. bindE (file_modified E (the (working p)) (the (manifest p))) (\<lambda>m. Inr (p, m))) both)
       (\<lambda>pms. Inr (map fst (filter snd pms)))"

definition compare_working_tree ::
  "env \<Rightarrow> 'z repo_store_scheme \<Rightarrow> string \<Rightarrow> (string list \<times> string list \<times> string list) res" where
  "compare_working_tree E s b =
     (let P = ev_prims E; W = ev_world E in
      bindE (case ref_head s b of
               None \<Rightarrow> Inr []
             | Some c \<Rightarrow>
                 bindE (fetch_commit P s c) (\<lambda>commit.
                   iter_all_entries (load P (ts_nodes s)) (ev_tree E) (c_tree commit))) (\<lambda>entries.
      bindE (load_rules W (w_root W)) (\<lambda>rules.
        let files = walk_files W (w_root W) rules [];
            working = map_of (rev (map (\<lambda>f. (fe_rel f, f)) files));
            manifest = map_of (rev (map (\<lambda>e. (e_path e, e)) entries));
            working_paths = sort (remdups (map fe_rel files));
            manifest_paths = sort (remdups (map e_path entries))
        in bindE (differing E working manifest (filter (\<lambda>p. manifest p \<noteq> None) working_paths)) (\<lambda>modified.
             Inr (filter (\<lambda>p. manifest p = None) working_paths,
                  filter (\<lambda>p. working p = None) manifest_paths, modified)))))"

definition stage_status_of ::
  "env \<Rightarrow> 'z repo_store_scheme \<Rightarrow> string option \<Rightarrow> bool \<Rightarrow> stage_status res" where
  "stage_status_of E s ref working_tree =
     bindE (case ref of Some r \<Rightarrow> if r = [] then current_branch (rs_client s) else Inr r
                      | None \<Rightarrow> current_branch (rs_client s)) (\<lambda>b.
     bindE (ensure_branch_exists s b) (\<lambda>_.
     bindE (stage_load (ev_prims E) s b) (\<lambda>staged.
     bindE (if working_tree then compare_working_tree E s b else Inr ([], [], [])) (\<lambda>(a, r, m).
       Inr \<lparr>ss_ref = b,
            ss_added = sort (map ch_path (filter (\<lambda>c. ch_action c = ''add'') (map snd staged))),
            ss_removed = sort (map ch_path (filter (\<lambda>c. ch_action c = ''remove'') (map snd staged))),
            ss_wt_added = a, ss_wt_removed = r, ss_wt_modified = m\<rparr>))))"

end
