(* ===== verification/Worktree_Build.thy ===== *)
theory Worktree_Build
  imports Staging Tree_Splice
begin

text \<open>
  \<open>TreeWriter.build_worktree_tree\<close> (\<open>core/services/tree.py\<close>): the tree of a full commit, built
  from the files of the worktree over the parent tree and the staged additions. Leaves and
  subtrees the worktree does not have are kept from the parent; staged removals are pruned at
  the end; additions whose directory holds no worktree file are spliced in afterwards.

  That the store stays content-addressed and loses nothing, however the build ends, and that a file
  is stored under the digest of its bytes, is proved in \<open>Repo_Invariants\<close>.
\<close>

section \<open>One file\<close>

definition file_digest :: "env \<Rightarrow> string list \<Rightarrow> string res" where
  "file_digest E path = bindE (open_path (ev_world E) path) (\<lambda>b. Inr (blake3 (ev_prims E) b))"

definition can_reuse_without_hash :: "env \<Rightarrow> entry option \<Rightarrow> file_entry \<Rightarrow> bool" where
  "can_reuse_without_hash E parent_entry f \<longleftrightarrow>
     ev_trust_mtime E \<and>
     (case parent_entry of
        None \<Rightarrow> False
      | Some e \<Rightarrow> \<not> is_subtree e \<and> e_kind e \<in> {KIND_BLOB, KIND_BP} \<and> e_size e = fe_size f \<and> e_mtime e = fe_mtime f)"

definition file_name :: "file_entry \<Rightarrow> string" where
  "file_name f = last (split_path (fe_rel f))"

definition parent_lookup :: "(string \<times> entry) list option \<Rightarrow> string \<Rightarrow> entry option" where
  "parent_lookup parent_by_name name = (case parent_by_name of None \<Rightarrow> None | Some kvs \<Rightarrow> map_of kvs name)"

definition prefetch_digests ::
  "env \<Rightarrow> file_entry list \<Rightarrow> (string \<times> entry) list option \<Rightarrow> string \<Rightarrow> (string list \<times> string) list res" where
  "prefetch_digests E files parent_by_name mode =
     (if mode \<noteq> ''content'' then Inr []
      else mapE (\<lambda>f. bindE (file_digest E (fe_path f)) (\<lambda>d. Inr (fe_path f, d)))
             (filter (\<lambda>f. \<not> can_reuse_without_hash E (parent_lookup parent_by_name (file_name f)) f) files))"

text \<open>\<open>Path.suffix\<close>.\<close>

definition path_suffix :: "string \<Rightarrow> string" where
  "path_suffix name =
     (let ext = rev (takeWhile (\<lambda>c. c \<noteq> CHR ''.'') (rev name)) in
      if CHR ''.'' \<in> set name \<and> ext \<noteq> [] \<and> length ext + 1 < length name then CHR ''.'' # ext else [])"

definition capture_path_footer :: "env \<Rightarrow> string list \<Rightarrow> bool \<Rightarrow> ('z repo_store_scheme, string option) sm" where
  "capture_path_footer E path capture =
     (if \<not> capture \<or> ascii_lower (path_suffix (path_name path)) \<noteq> ''.parquet'' then returnS None
      else bindS (liftS (open_path (ev_world E) path)) (capture_footer_stats (ev_prims E) (ev_depth E)))"

definition reuse_or_backfill_footer ::
  "env \<Rightarrow> entry \<Rightarrow> string \<Rightarrow> string list \<Rightarrow> string option \<Rightarrow> bool \<Rightarrow> ('z repo_store_scheme, child) sm" where
  "reuse_or_backfill_footer E e name path source_uri capture =
     (let P = ev_prims E in
      if e_footer e \<noteq> None \<or> \<not> capture then returnS (name, serialize P e)
      else
        bindS (capture_path_footer E path True) (\<lambda>footer.
          case footer of
            None \<Rightarrow> returnS (name, serialize P e)
          | Some h \<Rightarrow>
              returnS (name, leaf_line P (if e_kind e = KIND_BLOB then KIND_BP else KIND_MP) name (e_hash e)
                (e_size e) (e_mtime e) source_uri (Some h))))"

text \<open>A footer hash is false in Python only when it is empty.\<close>

definition has_footer :: "string option \<Rightarrow> bool" where
  "has_footer footer \<longleftrightarrow> footer \<noteq> None \<and> footer \<noteq> Some []"

definition digest_for :: "env \<Rightarrow> (string list \<times> string) list \<Rightarrow> string list \<Rightarrow> string res" where
  "digest_for E digests path =
     (case map_of digests path of Some d \<Rightarrow> Inr d | None \<Rightarrow> file_digest E path)"

definition new_file_line ::
  "env \<Rightarrow> file_entry \<Rightarrow> string \<Rightarrow> bool \<Rightarrow> (string list \<times> string) list \<Rightarrow> ('z repo_store_scheme, child) sm" where
  "new_file_line E f mode capture digests =
     (let P = ev_prims E; name = file_name f in
      if mode = ''content'' then
        bindS (liftS (digest_for E digests (fe_path f))) (\<lambda>identity_value.
        bindS (liftS (open_path (ev_world E) (fe_path f))) (\<lambda>b.
        bindS (write_blob P identity_value b True) (\<lambda>_.
        bindS (capture_path_footer E (fe_path f) capture) (\<lambda>footer.
          returnS (name, leaf_line P (if has_footer footer then KIND_BP else KIND_BLOB) name identity_value
            (fe_size f) (fe_mtime f) None footer)))))
      else
        bindS (capture_path_footer E (fe_path f) capture) (\<lambda>footer.
          returnS (name, leaf_line P (if has_footer footer then KIND_MP else KIND_META) name
            (metadata_identity P (fe_rel f) (fe_size f)) (fe_size f) (fe_mtime f) (Some (as_uri (fe_path f))) footer)))"

definition unchanged_content :: "env \<Rightarrow> file_entry \<Rightarrow> (string list \<times> string) list \<Rightarrow> entry \<Rightarrow> bool res" where
  "unchanged_content E f digests e =
     (if e_kind e \<notin> {KIND_BLOB, KIND_BP} then Inr False
      else if can_reuse_without_hash E (Some e) f then Inr True
      else if e_size e \<noteq> fe_size f then Inr False
      else bindE (digest_for E digests (fe_path f)) (\<lambda>d. Inr (d = e_hash e)))"

definition materialize_worktree_file ::
  "env \<Rightarrow> (string \<times> entry) list option \<Rightarrow> string \<Rightarrow> bool \<Rightarrow> (string list \<times> string) list \<Rightarrow> file_entry
     \<Rightarrow> ('z repo_store_scheme, child) sm" where
  "materialize_worktree_file E parent_by_name mode capture digests f =
     (let name = file_name f in
      case parent_lookup parent_by_name name of
        None \<Rightarrow> new_file_line E f mode capture digests
      | Some e \<Rightarrow>
          if is_subtree e then new_file_line E f mode capture digests
          else if mode = ''content'' then
            bindS (liftS (unchanged_content E f digests e)) (\<lambda>same.
              if same then reuse_or_backfill_footer E e name (fe_path f) None capture
              else new_file_line E f mode capture digests)
          else if e_kind e \<in> {KIND_META, KIND_MP} \<and> metadata_identity (ev_prims E) (fe_rel f) (fe_size f) = e_hash e then
            reuse_or_backfill_footer E e name (fe_path f) (Some (as_uri (fe_path f))) capture
          else new_file_line E f mode capture digests)"

section \<open>Directories\<close>

type_synonym dir_adds = "(string \<times> (string \<times> entry) list) list"

definition group_additions :: "entry list \<Rightarrow> dir_adds res" where
  "group_additions additions =
     foldE (\<lambda>acc e.
       let parts = split_path (e_path e); d = join_path (butlast parts);
           here = (case map_of acc d of None \<Rightarrow> [] | Some kvs \<Rightarrow> kvs)
       in bindE (leaf_to_tree_entry e) (\<lambda>e'. Inr (alist_put d (alist_put (last parts) e' here) acc))) [] additions"

definition put_all :: "('k \<times> 'v) list \<Rightarrow> ('k \<times> 'v) list \<Rightarrow> ('k \<times> 'v) list" where
  "put_all kvs m = fold (\<lambda>(k, v) m. alist_put k v m) kvs m"

definition parent_node ::
  "loader \<Rightarrow> string option \<Rightarrow> string \<Rightarrow> ((string \<times> entry) list \<times> string option \<times> string list) res" where
  "parent_node L parent_tree dir_path =
     (if \<not> truthy parent_tree then Inr ([], None, [])
      else
        bindE (resolve_directory L (the parent_tree) dir_path) (\<lambda>r.
          case r of
            None \<Rightarrow> Inr ([], None, [])
          | Some (node_hash, es) \<Rightarrow>
              bindE (L node_hash) (\<lambda>raw.
                Inr (put_all (map (\<lambda>e. (e_path e, e)) es) [], Some node_hash,
                     node_hash # (case raw of None \<Rightarrow> [] | Some xs \<Rightarrow> map e_hash (filter is_subtree xs))))))"

type_synonym parent_info = "(string \<times> entry) list option \<times> string option \<times> string list"

definition parent_children ::
  "prims \<Rightarrow> string option \<Rightarrow> string \<Rightarrow> dir_adds \<Rightarrow> ('z tree_store_scheme, parent_info \<times> dir_adds) sm" where
  "parent_children P parent_tree dir_path adds s =
     bindS (liftS (parent_node (load P (ts_nodes s)) parent_tree dir_path)) (\<lambda>(kvs, node_hash, known_hashes).
       let merged = put_all (case map_of adds dir_path of None \<Rightarrow> [] | Some extra \<Rightarrow> extra) kvs
       in returnS ((if merged = [] then None else Some merged, node_hash, known_hashes),
                   filter (\<lambda>da. fst da \<noteq> dir_path) adds)) s"

record build_state =
  bs_adds :: dir_adds
  bs_stack :: "frame list"
  bs_root :: "child list"

definition push_frame ::
  "prims \<Rightarrow> string option \<Rightarrow> build_state \<Rightarrow> string \<Rightarrow> ('z tree_store_scheme, build_state) sm" where
  "push_frame P parent_tree b frame_dir =
     bindS (parent_children P parent_tree frame_dir (bs_adds b)) (\<lambda>((parent, node_hash, known_hashes), adds).
       returnS (b\<lparr>bs_adds := adds,
         bs_stack := \<lparr>f_dir = frame_dir, f_children = [], f_parent = parent, f_node_hash = node_hash,
                     f_known = known_hashes\<rparr> # bs_stack b\<rparr>))"

definition open_frames ::
  "prims \<Rightarrow> string option \<Rightarrow> string \<Rightarrow> build_state \<Rightarrow> ('z tree_store_scheme, build_state) sm" where
  "open_frames P parent_tree dir_path b =
     bindS (close_frames P (\<lambda>d. under_dir d dir_path) [] (bs_stack b) (bs_root b)) (\<lambda>(stack, root_children).
       foldS (push_frame P parent_tree) (b\<lparr>bs_stack := stack, bs_root := root_children\<rparr>)
         (rev (open_dirs (length stack) (filter (\<lambda>p. p \<noteq> []) (split_path dir_path)))))"

definition directory_lines ::
  "env \<Rightarrow> (string \<times> entry) list option \<Rightarrow> string \<Rightarrow> bool \<Rightarrow> file_entry list \<Rightarrow> ('z repo_store_scheme, child list) sm" where
  "directory_lines E parent_by_name mode capture files =
     bindS (liftS (prefetch_digests E files parent_by_name mode)) (\<lambda>digests.
       mapS (materialize_worktree_file E parent_by_name mode capture digests) files)"

definition handle_directory ::
  "env \<Rightarrow> string option \<Rightarrow> (string \<times> entry) list option \<Rightarrow> string \<Rightarrow> bool
     \<Rightarrow> build_state \<Rightarrow> string \<times> file_entry list \<Rightarrow> ('z repo_store_scheme, build_state) sm" where
  "handle_directory E parent_tree root_parent mode capture b batch =
     (case batch of (dir_path, files) \<Rightarrow>
       if dir_path = [] then
         bindS (directory_lines E root_parent mode capture files) (\<lambda>children.
           returnS (b\<lparr>bs_root := bs_root b @ children\<rparr>))
       else
         bindS (open_frames (ev_prims E) parent_tree dir_path b) (\<lambda>b1.
           case bs_stack b1 of
             [] \<Rightarrow> raiseS IndexError
           | f # rest \<Rightarrow>
               bindS (directory_lines E (f_parent f) mode capture files) (\<lambda>children.
                 returnS (b1\<lparr>bs_stack := f\<lparr>f_children := f_children f @ children\<rparr> # rest\<rparr>))))"

text \<open>The consecutive files of a directory are one batch.\<close>

fun batches :: "file_entry list \<Rightarrow> (string \<times> file_entry list) list" where
  "batches [] = []"
| "batches (f # fs) =
     (let d = parent_dir (fe_rel f) in
      case batches fs of
        [] \<Rightarrow> [(d, [f])]
      | (d', gs) # rest \<Rightarrow> if d' = d then (d, f # gs) # rest else (d, [f]) # (d', gs) # rest)"

section \<open>The tree of the worktree\<close>

definition build_worktree_inner ::
  "env \<Rightarrow> string option \<Rightarrow> string \<Rightarrow> string list \<Rightarrow> entry list \<Rightarrow> bool
     \<Rightarrow> ('z repo_store_scheme, string \<times> string list) sm" where
  "build_worktree_inner E parent_tree mode removed additions capture =
     (let P = ev_prims E; W = ev_world E in
      bindS (liftS (group_additions additions)) (\<lambda>adds0.
      bindS (parent_children P parent_tree [] adds0) (\<lambda>((root_parent, root_hash, root_known), adds1).
      bindS (liftS (load_rules W (w_root W))) (\<lambda>rules.
        let files = filter (\<lambda>f. \<not> path_is_removed (fe_rel f) removed) (walk_files W (w_root W) rules []) in
        bindS (foldS (handle_directory E parent_tree root_parent mode capture)
                 \<lparr>bs_adds = adds1, bs_stack = [], bs_root = []\<rparr> (batches files)) (\<lambda>b.
        bindS (close_frames P (\<lambda>d. False) [] (bs_stack b) (bs_root b)) (\<lambda>(stack, root_children).
          let merged_root = merge_parent_children P root_children root_parent in
          bindS (if merged_root \<noteq> [] then build_children P False root_known merged_root
                 else write_tree_bytes P [] []) (\<lambda>h.
            returnS (h, map fst (bs_adds b)))))))))"

definition build_worktree_tree ::
  "env \<Rightarrow> string option \<Rightarrow> string \<Rightarrow> string list \<Rightarrow> entry list \<Rightarrow> bool \<Rightarrow> ('z repo_store_scheme, string) sm" where
  "build_worktree_tree E parent_tree mode removed additions capture =
     (let P = ev_prims E in
      bindS (build_worktree_inner E parent_tree mode removed additions capture) (\<lambda>(h, leftover_dirs).
      bindS (if removed = [] then returnS h
             else bindS (prune_tree P (ev_tree E) h removed) (\<lambda>r. case r of
                    None \<Rightarrow> write_tree_bytes P [] []
                  | Some h' \<Rightarrow> returnS h')) (\<lambda>h1.
        let leftovers = filter (\<lambda>e. parent_dir (e_path e) \<in> set leftover_dirs) additions in
        if leftovers = [] then returnS h1
        else overlay_staged P (ev_tree E) h1 (sort_key e_path leftovers) [])))"

end
