(* ===== verification/Repository.thy ===== *)
theory Repository
  imports Worktree_Build Tree_Merge
begin

text \<open>
  \<open>ReflakeRepository\<close> (\<open>core/repository.py\<close>) and the operations of \<open>core/repository_ops.py\<close>: merge,
  reset, commit, log, diff, staging of additions, removals and moves, promotion, restoring
  files. An operation is a function of the environment and the repository store; a restore
  also writes the file system of the worktree, which is its state.

  \<open>Repo_Invariants\<close> proves that each operation moves no branch but the one it works on and that the
  store only grows, \<open>Repo_History\<close> what a commit and a merge do to the history.
\<close>

section \<open>Reading\<close>

definition asksS :: "('s \<Rightarrow> 'a res) \<Rightarrow> ('s, 'a) sm" where
  "asksS f s = (f s, s)"

definition tree_loader :: "env \<Rightarrow> 'z tree_store_scheme \<Rightarrow> loader" where
  "tree_loader E s = load (ev_prims E) (ts_nodes s)"

definition branch_or_current :: "string option \<Rightarrow> ('z repo_store_scheme, string) sm" where
  "branch_or_current ref =
     (if truthy ref then returnS (the ref) else asksS (\<lambda>s. current_branch (rs_client s)))"

definition read_commitS :: "env \<Rightarrow> string \<Rightarrow> ('z repo_store_scheme, commit) sm" where
  "read_commitS E i = asksS (\<lambda>s. fetch_commit (ev_prims E) s i)"

definition resolve_refS :: "string \<Rightarrow> ('z repo_store_scheme, string) sm" where
  "resolve_refS ref = asksS (\<lambda>s. resolve_ref s ref)"

definition lookupS :: "env \<Rightarrow> string \<Rightarrow> string \<Rightarrow> ('z repo_store_scheme, entry option) sm" where
  "lookupS E h path = asksS (\<lambda>s. lookup_entry (tree_loader E s) (ev_tree E) h path)"

definition all_entriesS :: "env \<Rightarrow> string \<Rightarrow> ('z repo_store_scheme, entry list) sm" where
  "all_entriesS E h = asksS (\<lambda>s. iter_all_entries (tree_loader E s) (ev_tree E) h)"

definition prefix_entriesS :: "env \<Rightarrow> string \<Rightarrow> string \<Rightarrow> ('z repo_store_scheme, entry list) sm" where
  "prefix_entriesS E h p = asksS (\<lambda>s. iter_entries_for_prefix (tree_loader E s) (ev_tree E) h p)"

definition write_commitS ::
  "env \<Rightarrow> string \<Rightarrow> string \<Rightarrow> string option \<Rightarrow> string list option \<Rightarrow> string \<Rightarrow> string option \<Rightarrow> string
     \<Rightarrow> ('z repo_store_scheme, string) sm" where
  "write_commitS E b message parent_commit parents tree_hash expected operation =
     write_commit_object (ev_prims E) (ev_history E) (ev_now E) b message parent_commit parents tree_hash expected operation"

section \<open>Merge, reset, log, diff\<close>

record merge_result =
  mr_source :: string
  mr_target :: string
  mr_commit :: string
  mr_updated :: bool

definition merge_diverged ::
  "env \<Rightarrow> string \<Rightarrow> string \<Rightarrow> string \<Rightarrow> string \<Rightarrow> ('z repo_store_scheme, string) sm" where
  "merge_diverged E source_ref target_ref source_commit target_commit =
     bindS (asksS (\<lambda>s. merge_base_commit (commit_reader (ev_prims E) s) (ev_history E) (ev_walk E) source_commit target_commit)) (\<lambda>base.
     bindS (read_commitS E target_commit) (\<lambda>target_obj.
     bindS (read_commitS E source_commit) (\<lambda>source_obj.
     bindS (merge_trees (ev_prims E) (ev_tree E) (map_option c_tree base) (c_tree target_obj) (c_tree source_obj)) (\<lambda>merged_tree.
     bindS (require_branch_state False target_ref) (\<lambda>expected.
       write_commitS E target_ref (''merge '' @ source_ref @ '' into '' @ target_ref) None
         (Some [target_commit, source_commit]) merged_tree expected ''merge'')))))"

definition repo_merge :: "env \<Rightarrow> string \<Rightarrow> string \<Rightarrow> ('z repo_store_scheme, merge_result) sm" where
  "repo_merge E source_ref target_ref =
     (let P = ev_prims E; m = ev_history E; n = ev_walk E;
          outcome = (\<lambda>c updated. \<lparr>mr_source = source_ref, mr_target = target_ref, mr_commit = c, mr_updated = updated\<rparr>)
      in if source_ref = [] \<or> target_ref = [] then raiseS ValueError
         else
           bindS (resolve_refS source_ref) (\<lambda>source_commit.
           bindS (resolve_refS target_ref) (\<lambda>target_commit.
             if source_commit = target_commit then returnS (outcome target_commit False)
             else
               bindS (asksS (\<lambda>s. is_ancestor P m n s source_commit target_commit)) (\<lambda>contained.
                 if contained then returnS (outcome target_commit False)
                 else
                   bindS (asksS (\<lambda>s. is_ancestor P m n s target_commit source_commit)) (\<lambda>behind.
                     if behind then
                       bindS (fast_forward_branch P m n (ev_now E) target_ref source_commit ''merge'') (\<lambda>_.
                         returnS (outcome source_commit True))
                     else
                       bindS (merge_diverged E source_ref target_ref source_commit target_commit) (\<lambda>c.
                         returnS (outcome c True)))))))"

record reset_result =
  rr_ref :: string
  rr_commit :: string
  rr_previous :: "string option"
  rr_updated :: bool

definition repo_reset :: "env \<Rightarrow> string \<Rightarrow> string option \<Rightarrow> ('z repo_store_scheme, reset_result) sm" where
  "repo_reset E ref b0 =
     bindS (resolve_refS ref) (\<lambda>target.
     bindS (branch_or_current b0) (\<lambda>b.
     bindS (asksS (\<lambda>s. Inr (ref_head s b))) (\<lambda>current_commit.
       if current_commit = Some target then
         returnS \<lparr>rr_ref = b, rr_commit = target, rr_previous = current_commit, rr_updated = False\<rparr>
       else
         bindS (update_branch_ref (ev_now E) b (Some target) current_commit ''reset'') (\<lambda>_.
           returnS \<lparr>rr_ref = b, rr_commit = target, rr_previous = current_commit, rr_updated = True\<rparr>))))"

definition log_visit ::
  "prims \<Rightarrow> 'z repo_store_scheme \<Rightarrow> string \<Rightarrow> commit list \<Rightarrow> (string list \<times> commit list) res" where
  "log_visit P s i cs = bindE (fetch_commit P s i) (\<lambda>c. Inr (rev (c_parents c), cs @ [c]))"

definition generation_keys :: "env \<Rightarrow> 'z repo_store_scheme \<Rightarrow> commit list \<Rightarrow> ((int \<times> string) \<times> commit) list res" where
  "generation_keys E s cs =
     mapE (\<lambda>c. bindE (gen_of (commit_reader (ev_prims E) s) (ev_history E) Map.empty (c_id c)) (\<lambda>(g, memo).
                  Inr ((- g, c_id c), c))) cs"

text \<open>Sorting by a pair is sorting by its second part and then, stably, by its first.\<close>

definition sort_log :: "((int \<times> string) \<times> commit) list \<Rightarrow> commit list" where
  "sort_log kcs = map snd (sort_key (fst \<circ> fst) (sort_key (snd \<circ> fst) kcs))"

definition repo_log :: "env \<Rightarrow> 'z repo_store_scheme \<Rightarrow> string \<Rightarrow> commit list res" where
  "repo_log E s ref =
     (case resolve_ref s ref of
        Inl e \<Rightarrow> (case e of EmptyBranchError b \<Rightarrow> Inr [] | _ \<Rightarrow> Inl e)
      | Inr i \<Rightarrow>
          bindE (mark_loop (log_visit (ev_prims E) s) (ev_walk E) [] [] [i]) (\<lambda>(seen, commits).
          bindE (generation_keys E s commits) (\<lambda>kcs. Inr (sort_log kcs))))"

definition repo_diff :: "env \<Rightarrow> 'z repo_store_scheme \<Rightarrow> string \<Rightarrow> string \<Rightarrow> diff_entry list res" where
  "repo_diff E s from_ref to_ref =
     bindE (bindE (resolve_ref s from_ref) (fetch_commit (ev_prims E) s)) (\<lambda>from_commit.
     bindE (bindE (resolve_ref s to_ref) (fetch_commit (ev_prims E) s)) (\<lambda>to_commit.
       diff_trees (tree_loader E s) (ev_tree E) (c_tree from_commit) (c_tree to_commit)))"

section \<open>Commit\<close>

definition staged_commit_retries :: nat where
  "staged_commit_retries = 3"

definition commit_identity :: "env \<Rightarrow> string" where
  "commit_identity E = (if ev_identity E \<in> {''content'', ''pointer''} then ev_identity E else ''content'')"

definition with_action :: "string \<Rightarrow> staged \<Rightarrow> staged" where
  "with_action action staged = filter (\<lambda>(p, c). ch_action c = action) staged"

definition change_identity :: "stage_change \<Rightarrow> string \<Rightarrow> string" where
  "change_identity c mode = (if truthy (ch_identity c) then the (ch_identity c) else mode)"

definition materialize_additions :: "env \<Rightarrow> staged \<Rightarrow> ('z repo_store_scheme, entry list) sm" where
  "materialize_additions E staged =
     bindS (mapS (\<lambda>(p, c). entry_from_stage_change E c (change_identity c (commit_identity E)) True)
              (with_action ''add'' staged))
       (\<lambda>es. returnS (sort_key e_path es))"

definition parent_tree_of :: "env \<Rightarrow> string option \<Rightarrow> ('z repo_store_scheme, string option) sm" where
  "parent_tree_of E parent_commit =
     (if truthy parent_commit then bindS (read_commitS E (the parent_commit)) (\<lambda>c. returnS (Some (c_tree c)))
      else returnS None)"

definition commit_tree ::
  "env \<Rightarrow> bool \<Rightarrow> string option \<Rightarrow> entry list \<Rightarrow> string list \<Rightarrow> ('z repo_store_scheme, string) sm" where
  "commit_tree E staged_only parent_tree additions removed =
     (if staged_only then
        (case parent_tree of
           None \<Rightarrow> build_from_entries (ev_prims E) additions
         | Some t \<Rightarrow> overlay_staged (ev_prims E) (ev_tree E) t additions removed)
      else build_worktree_tree E parent_tree (commit_identity E) removed additions (ev_capture E))"

definition is_ref_conflict :: "error \<Rightarrow> bool" where
  "is_ref_conflict e = (case e of RefConflictError b operation expd cur \<Rightarrow> True | _ \<Rightarrow> False)"

primrec commit_attempts ::
  "env \<Rightarrow> string \<Rightarrow> string \<Rightarrow> bool \<Rightarrow> entry list \<Rightarrow> string list \<Rightarrow> nat \<Rightarrow> ('z repo_store_scheme, string) sm" where
  "commit_attempts E b message staged_only additions removed 0 = raiseS (RefConflictError b ''commit'' None None)"
| "commit_attempts E b message staged_only additions removed (Suc k) =
     bindS (require_branch_state True b) (\<lambda>parent_commit.
     bindS (parent_tree_of E parent_commit) (\<lambda>parent_tree.
     bindS (commit_tree E staged_only parent_tree additions removed) (\<lambda>root_tree s.
       case write_commitS E b message parent_commit None root_tree parent_commit ''commit'' s of
         (Inl e, s') \<Rightarrow>
           if is_ref_conflict e \<and> k \<noteq> 0 then commit_attempts E b message staged_only additions removed k s'
           else (Inl e, s')
       | (Inr c, s') \<Rightarrow> (Inr c, s'))))"

definition repo_commit :: "env \<Rightarrow> string \<Rightarrow> bool \<Rightarrow> ('z repo_store_scheme, string) sm" where
  "repo_commit E message staged_only =
     (if strip message = [] then raiseS ValueError
      else
        bindS (asksS (\<lambda>s. current_branch (rs_client s))) (\<lambda>b.
        bindS (asksS (\<lambda>s. ensure_branch_exists s b)) (\<lambda>_.
        bindS (asksS (\<lambda>s. stage_load (ev_prims E) s b)) (\<lambda>staged.
        bindS (materialize_additions E staged) (\<lambda>additions.
        bindS (commit_attempts E b message staged_only additions (map fst (with_action ''remove'' staged))
                 (if staged_only then staged_commit_retries else 1)) (\<lambda>commit_id.
        bindS (stage_save (ev_prims E) b []) (\<lambda>_. returnS commit_id)))))))"

section \<open>Entries and blobs of a ref\<close>

definition overlay_change ::
  "env \<Rightarrow> (string \<times> entry) list \<Rightarrow> stage_change \<Rightarrow> ('z repo_store_scheme, (string \<times> entry) list) sm" where
  "overlay_change E index c =
     (if ch_action c = ''remove'' then returnS (filter (\<lambda>pe. fst pe \<noteq> ch_path c) index)
      else if ch_action c = ''add'' then
        bindS (entry_from_stage_change E c (change_identity c ''content'') False) (\<lambda>e.
          returnS (alist_put (ch_path c) e index))
      else returnS index)"

definition entry_index :: "entry list \<Rightarrow> (string \<times> entry) list" where
  "entry_index es = put_all (map (\<lambda>e. (e_path e, e)) es) []"

definition resolve_entries :: "env \<Rightarrow> string \<Rightarrow> bool \<Rightarrow> ('z repo_store_scheme, (string \<times> entry) list) sm" where
  "resolve_entries E ref include_staging =
     bindS (bindS (resolve_refS ref) (read_commitS E)) (\<lambda>c.
     bindS (all_entriesS E (c_tree c)) (\<lambda>es.
       if include_staging then
         bindS (asksS (\<lambda>s. stage_load (ev_prims E) s ref)) (\<lambda>staged.
           foldS (overlay_change E) (entry_index es) (map snd staged))
       else returnS (entry_index es)))"

definition resolve_entries_for_prefix ::
  "env \<Rightarrow> string \<Rightarrow> string \<Rightarrow> bool \<Rightarrow> string option \<Rightarrow> ('z repo_store_scheme, (string \<times> entry) list) sm" where
  "resolve_entries_for_prefix E ref logical_prefix include_staging commit_id =
     (let normalized = strip_char (CHR ''/'') logical_prefix in
      bindS (if truthy commit_id then returnS (the commit_id) else resolve_refS ref) (\<lambda>i.
      bindS (read_commitS E i) (\<lambda>c.
      bindS (if normalized = [] then all_entriesS E (c_tree c) else prefix_entriesS E (c_tree c) normalized) (\<lambda>es.
        if include_staging then
          bindS (asksS (\<lambda>s. stage_load (ev_prims E) s ref)) (\<lambda>staged.
            foldS (overlay_change E) (entry_index es)
              (filter (\<lambda>ch. normalized = [] \<or> matches_logical_path (ch_path ch) normalized) (map snd staged)))
        else returnS (entry_index es)))))"

definition resolve_entry ::
  "env \<Rightarrow> string \<Rightarrow> string \<Rightarrow> bool \<Rightarrow> string option \<Rightarrow> ('z repo_store_scheme, entry option) sm" where
  "resolve_entry E ref logical_path include_staging commit_id =
     (let normalized = strip_char (CHR ''/'') logical_path;
          committed = bindS (if truthy commit_id then returnS (the commit_id) else resolve_refS ref) (\<lambda>i.
                      bindS (read_commitS E i) (\<lambda>c. lookupS E (c_tree c) normalized))
      in if normalized = [] then returnS None
         else if \<not> include_staging then committed
         else
           bindS (asksS (\<lambda>s. stage_load (ev_prims E) s ref)) (\<lambda>staged.
             case map_of staged normalized of
               None \<Rightarrow> committed
             | Some c \<Rightarrow>
                 if ch_action c = ''remove'' then returnS None
                 else if ch_action c = ''add'' then
                   bindS (entry_from_stage_change E c (change_identity c ''content'') False) (\<lambda>e. returnS (Some e))
                 else committed))"

definition open_blob :: "'z repo_store_scheme \<Rightarrow> string \<Rightarrow> string res" where
  "open_blob s h = (case lookup_object Blob s h of None \<Rightarrow> Inl FileNotFoundError | Some b \<Rightarrow> Inr b)"

definition read_blob :: "prims \<Rightarrow> 'z repo_store_scheme \<Rightarrow> string \<Rightarrow> string res" where
  "read_blob P s h =
     bindE (open_blob s h) (\<lambda>payload.
       let actual = blake3 P payload in
       if actual \<noteq> h then Inl (BlobIntegrityError h actual) else Inr payload)"

definition repo_cat :: "env \<Rightarrow> string \<Rightarrow> string \<Rightarrow> ('z repo_store_scheme, string) sm" where
  "repo_cat E ref path =
     bindS (resolve_entry E ref path False None) (\<lambda>r.
       case r of
         None \<Rightarrow> raiseS FileNotFoundError
       | Some e \<Rightarrow>
           if truthy (blob_hash e) then asksS (\<lambda>s. read_blob (ev_prims E) s (the (blob_hash e)))
           else if truthy (e_uri e) then liftS (open_source_uri (ev_world E) (the (e_uri e)))
           else raiseS FileNotFoundError)"

definition repo_reflog :: "'z repo_store_scheme \<Rightarrow> string option \<Rightarrow> string list res" where
  "repo_reflog s b =
     bindE (if truthy b then Inr (the b) else current_branch (rs_client s)) (\<lambda>name.
       Inr (iter_reflog (rs_client s) name))"

definition repo_branches :: "env \<Rightarrow> 'z repo_store_scheme \<Rightarrow> (string \<times> string option \<times> string option) list res" where
  "repo_branches E s =
     mapE (\<lambda>b. case ref_head s b of
            None \<Rightarrow> Inr (b, None, None)
          | Some c \<Rightarrow> bindE (fetch_commit (ev_prims E) s c) (\<lambda>co. Inr (b, Some c, Some (c_message co))))
       (sort (iter_branches s))"

end
