(* ===== verification/Repo_Ops.thy ===== *)
theory Repo_Ops
  imports Repository
begin

text \<open>
  \<open>core/repository_ops.py\<close>: staging of additions, removals and moves, imports, commits that
  remove or move paths, the audit of pointer entries and their promotion, restoring files and
  the commands of a bulk transfer. A restore writes the file system of the worktree, which is
  its state; the others change the repository store.

  \<open>Restore\<close> proves that a restore writes only the bytes an entry names and leaves every other file
  alone, \<open>Repo_Invariants\<close> that a promotion stores each blob under its digest, \<open>Transfer_Commands\<close>
  what the conflict check of an addition misses and that a quoted operand is read back as it is.
\<close>

section \<open>Staging additions and removals\<close>

definition add_paths_of :: "staged \<Rightarrow> string list" where
  "add_paths_of staged = sort (map fst (filter (\<lambda>(p, c). ch_action c = ''add'') staged))"

fun neighbours_clash :: "string list \<Rightarrow> bool" where
  "neighbours_clash (path # following # rest) \<longleftrightarrow>
     prefix (path @ ''/'') following \<or> neighbours_clash (following # rest)"
| "neighbours_clash paths \<longleftrightarrow> False"

definition reject_conflicting_adds :: "staged \<Rightarrow> unit res" where
  "reject_conflicting_adds staged = (if neighbours_clash (add_paths_of staged) then Inl ValueError else Inr ())"

definition source_stat :: "env \<Rightarrow> string \<Rightarrow> int option \<times> int option" where
  "source_stat E source_uri =
     (if source_uri = [] \<or> \<not> prefix ''file:'' source_uri then (None, None)
      else case path_file (ev_world E) (abs_parts (uri_unquote (u_path (urlparse source_uri)))) of
             None \<Rightarrow> (None, None)
           | Some (b, m) \<Rightarrow> (Some (int (length b)), Some m))"

definition added_change :: "env \<Rightarrow> string \<Rightarrow> string \<Rightarrow> string \<Rightarrow> stage_change" where
  "added_change E mode logical_path source_uri =
     (let (sz, mtime_ns) = source_stat E source_uri in
      \<lparr>ch_path = logical_path, ch_action = ''add'', ch_identity = Some mode, ch_uri = Some source_uri, ch_blob = None,
       ch_size = sz, ch_mtime = mtime_ns\<rparr>)"

definition removed_change :: "string \<Rightarrow> stage_change" where
  "removed_change path =
     \<lparr>ch_path = path, ch_action = ''remove'', ch_identity = None, ch_uri = None, ch_blob = None, ch_size = None, ch_mtime = None\<rparr>"

definition stage_source :: "env \<Rightarrow> string \<Rightarrow> string option \<Rightarrow> staged \<Rightarrow> string \<Rightarrow> staged res" where
  "stage_source E mode destination_path staged raw_source =
     bindE (expand_stage_source E raw_source destination_path) (\<lambda>expanded.
       Inr (fold (\<lambda>(p, uri). alist_put p (added_change E mode p uri)) expanded staged))"

definition load_stageS :: "env \<Rightarrow> string \<Rightarrow> ('z repo_store_scheme, staged) sm" where
  "load_stageS E b = bindS (asksS (\<lambda>s. ensure_branch_exists s b)) (\<lambda>_. asksS (\<lambda>s. stage_load (ev_prims E) s b))"

definition save_stageS :: "env \<Rightarrow> string \<Rightarrow> staged \<Rightarrow> ('z repo_store_scheme, stage_status) sm" where
  "save_stageS E b staged =
     bindS (stage_save (ev_prims E) b staged) (\<lambda>_. asksS (\<lambda>s. stage_status_of E s (Some b) False))"

definition repo_add ::
  "env \<Rightarrow> string list \<Rightarrow> string option \<Rightarrow> string \<Rightarrow> string option \<Rightarrow> ('z repo_store_scheme, stage_status) sm" where
  "repo_add E paths ref mode destination_path =
     (if mode \<notin> {''content'', ''pointer''} then raiseS ValueError
      else
        bindS (branch_or_current ref) (\<lambda>b.
        bindS (load_stageS E b) (\<lambda>staged.
          if destination_path \<noteq> None \<and> length paths \<noteq> 1 then raiseS ValueError
          else
            bindS (liftS (foldE (stage_source E mode destination_path) staged paths)) (\<lambda>staged'.
            bindS (liftS (reject_conflicting_adds staged')) (\<lambda>_. save_stageS E b staged')))))"

definition repo_rm :: "env \<Rightarrow> string list \<Rightarrow> string option \<Rightarrow> ('z repo_store_scheme, stage_status) sm" where
  "repo_rm E paths ref =
     bindS (branch_or_current ref) (\<lambda>b.
     bindS (load_stageS E b) (\<lambda>staged.
     bindS (liftS (foldE (\<lambda>st path. bindE (normalize_repository_path path) (\<lambda>p. Inr (alist_put p (removed_change p) st)))
              staged paths)) (\<lambda>staged'. save_stageS E b staged')))"

section \<open>Importing\<close>

definition repo_import_s3 ::
  "env \<Rightarrow> string \<Rightarrow> string \<Rightarrow> string \<Rightarrow> string list \<Rightarrow> string option \<Rightarrow> ('z repo_store_scheme, string) sm" where
  "repo_import_s3 E source_uri message mode path_patterns ref =
     (if strip message = [] then raiseS ValueError
      else if mode \<notin> {''content'', ''pointer''} then raiseS ValueError
      else
        bindS (branch_or_current ref) (\<lambda>b.
        bindS (require_branch_state True b) (\<lambda>parent_commit.
        bindS (parent_tree_of E parent_commit) (\<lambda>parent_tree.
        bindS (materialize_s3_entries E source_uri mode path_patterns) (\<lambda>es.
          let additions = sort_key e_path es in
          bindS (case parent_tree of
                   None \<Rightarrow> build_from_entries (ev_prims E) additions
                 | Some t \<Rightarrow> overlay_staged (ev_prims E) (ev_tree E) t additions []) (\<lambda>root_tree.
            write_commitS E b message parent_commit None root_tree parent_commit ''commit''))))))"

section \<open>Removing and moving in a commit\<close>

record remove_result =
  rm_ref :: string
  rm_commit :: string
  rm_removed :: "string list"

definition covered_paths :: "env \<Rightarrow> string \<Rightarrow> string \<Rightarrow> ('z repo_store_scheme, string list) sm" where
  "covered_paths E tree path =
     bindS (lookupS E tree path) (\<lambda>exact.
     bindS (prefix_entriesS E tree path) (\<lambda>es.
       returnS ((case exact of None \<Rightarrow> [] | Some e \<Rightarrow> [e_path e]) @ map e_path es)))"

definition repo_remove_paths ::
  "env \<Rightarrow> string list \<Rightarrow> string \<Rightarrow> string option \<Rightarrow> ('z repo_store_scheme, remove_result) sm" where
  "repo_remove_paths E paths message ref =
     (if strip message = [] then raiseS ValueError
      else
        bindS (branch_or_current ref) (\<lambda>b.
        bindS (require_branch_state False b) (\<lambda>head.
        bindS (require_commit_for_metadata_mutation (ev_prims E) b) (\<lambda>base_commit.
        bindS (liftS (normalize_logical_paths paths)) (\<lambda>normalized_paths.
        bindS (mapS (covered_paths E (c_tree base_commit)) normalized_paths) (\<lambda>pss.
          let removed_paths = sort (remdups (concat pss)) in
          if removed_paths = [] then raiseS FileNotFoundError
          else
            bindS (splice_tree (ev_prims E) (ev_tree E) (Some (c_tree base_commit)) [] normalized_paths) (\<lambda>root_tree.
            bindS (write_commitS E b message head None root_tree head ''rm'') (\<lambda>commit_id.
              returnS \<lparr>rm_ref = b, rm_commit = commit_id, rm_removed = removed_paths\<rparr>))))))))"

fun ancestors_from :: "string \<Rightarrow> string list \<Rightarrow> string list" where
  "ancestors_from pre (part # next # parts) =
     (let p = (if pre \<noteq> [] then pre @ ''/'' @ part else part) in p # ancestors_from p (next # parts))"
| "ancestors_from pre parts = []"

definition require_directory_destination :: "env \<Rightarrow> string \<Rightarrow> string \<Rightarrow> ('z repo_store_scheme, unit) sm" where
  "require_directory_destination E base_tree destination =
     bindS (mapS (\<lambda>p. bindS (lookupS E base_tree p) (\<lambda>r.
                   case r of
                     Some e \<Rightarrow> if \<not> is_subtree e then raiseS ValueError else returnS ()
                   | None \<Rightarrow> returnS ()))
              (ancestors_from [] (split_path destination)))
       (\<lambda>_. returnS ())"

definition move_ends :: "string \<Rightarrow> string \<Rightarrow> (string \<times> string) res" where
  "move_ends src dst =
     bindE (normalize_repository_path src) (\<lambda>source.
     bindE (normalize_repository_path dst) (\<lambda>destination.
       if source = destination then Inl ValueError
       else if prefix (source @ ''/'') destination then Inl ValueError
       else Inr (source, destination)))"

record move_result =
  mv_ref :: string
  mv_commit :: string
  mv_source :: string
  mv_destination :: string
  mv_moved :: "string list"

definition source_entries :: "env \<Rightarrow> string \<Rightarrow> string \<Rightarrow> ('z repo_store_scheme, entry list) sm" where
  "source_entries E tree source =
     bindS (lookupS E tree source) (\<lambda>exact.
     bindS (prefix_entriesS E tree source) (\<lambda>es.
       returnS (case exact of
                  None \<Rightarrow> es
                | Some x \<Rightarrow> x # filter (\<lambda>e. e_path e \<noteq> e_path x) es)))"

definition reject_collision :: "env \<Rightarrow> string \<Rightarrow> string set \<Rightarrow> string \<Rightarrow> ('z repo_store_scheme, unit) sm" where
  "reject_collision E tree sources moved_path =
     bindS (lookupS E tree moved_path) (\<lambda>r.
       case r of
         None \<Rightarrow> returnS ()
       | Some c \<Rightarrow> if e_path c \<notin> sources then raiseS ValueError else returnS ())"

definition repo_move ::
  "env \<Rightarrow> string \<Rightarrow> string \<Rightarrow> string \<Rightarrow> string option \<Rightarrow> ('z repo_store_scheme, move_result) sm" where
  "repo_move E src dst message ref =
     (if strip message = [] then raiseS ValueError
      else
        bindS (branch_or_current ref) (\<lambda>b.
        bindS (require_branch_state False b) (\<lambda>head.
        bindS (require_commit_for_metadata_mutation (ev_prims E) b) (\<lambda>base_commit.
        bindS (liftS (move_ends src dst)) (\<lambda>(source, destination).
        bindS (require_directory_destination E (c_tree base_commit) destination) (\<lambda>_.
        bindS (source_entries E (c_tree base_commit) source) (\<lambda>es.
          if es = [] then raiseS FileNotFoundError
          else
            let moved_paths = map (\<lambda>e. move_logical_path (e_path e) source destination) es in
            bindS (liftS (mapE (\<lambda>e. relocate_manifest_entry (ev_prims E) e (move_logical_path (e_path e) source destination)) es))
              (\<lambda>moved_entries.
              if \<not> distinct moved_paths then raiseS ValueError
              else
                bindS (mapS (reject_collision E (c_tree base_commit) (e_path ` set es)) moved_paths) (\<lambda>_.
                bindS (splice_tree (ev_prims E) (ev_tree E) (Some (c_tree base_commit)) moved_entries [source]) (\<lambda>root_tree.
                bindS (write_commitS E b message head None root_tree head ''mv'') (\<lambda>commit_id.
                  returnS \<lparr>mv_ref = b, mv_commit = commit_id, mv_source = source, mv_destination = destination,
                           mv_moved = sort moved_paths\<rparr>)))))))))))"

definition stage_move :: "string \<Rightarrow> string \<Rightarrow> entry \<Rightarrow> staged \<Rightarrow> staged" where
  "stage_move source destination e stage =
     (let moved_path = move_logical_path (e_path e) source destination in
      alist_put moved_path
        \<lparr>ch_path = moved_path, ch_action = ''add'', ch_identity = identity_mode e, ch_uri = e_uri e, ch_blob = blob_hash e,
         ch_size = Some (e_size e), ch_mtime = None\<rparr>
        (alist_put (e_path e) (removed_change (e_path e)) stage))"

definition repo_move_staged :: "env \<Rightarrow> string \<Rightarrow> string \<Rightarrow> string option \<Rightarrow> ('z repo_store_scheme, stage_status) sm" where
  "repo_move_staged E src dst ref =
     bindS (branch_or_current ref) (\<lambda>b.
     bindS (load_stageS E b) (\<lambda>stage.
     bindS (liftS (move_ends src dst)) (\<lambda>(source, destination).
     bindS (bindS (resolve_refS b) (read_commitS E)) (\<lambda>base_commit.
     bindS (require_directory_destination E (c_tree base_commit) destination) (\<lambda>_.
     bindS (all_entriesS E (c_tree base_commit)) (\<lambda>all.
       let es = filter (\<lambda>e. matches_logical_path (e_path e) source) all in
       if es = [] then raiseS FileNotFoundError
       else save_stageS E b (fold (stage_move source destination) es stage)))))))"

section \<open>Auditing and promoting pointer entries\<close>

definition pointer_drifted :: "env \<Rightarrow> entry \<Rightarrow> bool res" where
  "pointer_drifted E e =
     (if \<not> truthy (e_uri e) then Inr True
      else case describe_source_uri (ev_world E) (the (e_uri e)) of
        Inl err \<Rightarrow> if os_or_value err then Inr True else Inl err
      | Inr m \<Rightarrow>
          Inr (if sm_size m \<noteq> e_size e then True
               else if truthy (e_etag e) \<and> truthy (sm_etag m) then sm_etag m \<noteq> e_etag e
               else if e_mtime e \<noteq> 0 \<and> sm_mtime m \<noteq> 0 then sm_mtime m \<noteq> e_mtime e
               else False))"

record verify_result =
  vr_commit :: string
  vr_verified :: nat
  vr_candidates :: nat
  vr_total :: nat
  vr_created :: bool
  vr_dry_run :: bool
  vr_drifted :: "string list"

fun first_by_path :: "string list \<Rightarrow> entry list \<Rightarrow> entry list" where
  "first_by_path seen [] = []"
| "first_by_path seen (e # es) =
     (if e_path e \<in> set seen then first_by_path seen es else e # first_by_path (e_path e # seen) es)"

definition verify_scope :: "env \<Rightarrow> string \<Rightarrow> string list \<Rightarrow> ('z repo_store_scheme, entry list) sm" where
  "verify_scope E tree path_prefixes =
     (let normalized = filter (\<lambda>p. p \<noteq> []) (map (strip_char (CHR ''/'')) path_prefixes)
      in if normalized = [] then all_entriesS E tree
         else bindS (mapS (prefix_entriesS E tree) normalized) (\<lambda>ess. returnS (first_by_path [] (concat ess))))"

definition audit :: "env \<Rightarrow> string \<Rightarrow> bool \<Rightarrow> entry list \<Rightarrow> verify_result res" where
  "audit E base_commit_id drift_check es =
     (let candidates = filter (\<lambda>e. blob_hash e = None) es in
      bindE (if drift_check then mapE (\<lambda>e. bindE (pointer_drifted E e) (\<lambda>d. Inr (if d then [e_path e] else []))) candidates
             else Inr []) (\<lambda>drifted.
        Inr \<lparr>vr_commit = base_commit_id, vr_verified = 0, vr_candidates = length candidates, vr_total = length es,
             vr_created = False, vr_dry_run = True, vr_drifted = sort (concat drifted)\<rparr>))"

definition promote_entry :: "env \<Rightarrow> entry \<Rightarrow> ('z repo_store_scheme, entry list) sm" where
  "promote_entry E e =
     (if blob_hash e \<noteq> None then returnS []
      else if \<not> truthy (e_uri e) then raiseS FileNotFoundError
      else
        bindS (store_blob_from_source_uri E (the (e_uri e))) (\<lambda>digest.
        bindS (liftS (with_identity (e_path e) digest (e_size e) (e_mtime e) ''content'' None (e_footer e) None)) (\<lambda>e'.
          returnS [e'])))"

definition promote_entries :: "env \<Rightarrow> string \<Rightarrow> string \<Rightarrow> string \<Rightarrow> entry list \<Rightarrow> ('z repo_store_scheme, verify_result) sm" where
  "promote_entries E ref base_commit_id tree es =
     bindS (mapS (promote_entry E) es) (\<lambda>ess.
       let additions = concat ess in
       if additions = [] then
         returnS \<lparr>vr_commit = base_commit_id, vr_verified = 0, vr_candidates = 0, vr_total = length es,
                  vr_created = False, vr_dry_run = False, vr_drifted = []\<rparr>
       else
         bindS (splice_tree (ev_prims E) (ev_tree E) (Some tree) additions []) (\<lambda>root_tree.
         bindS (write_commitS E ref (''promote '' @ ref) (Some base_commit_id) None root_tree (Some base_commit_id) ''promote'')
           (\<lambda>commit_id.
             returnS \<lparr>vr_commit = commit_id, vr_verified = length additions, vr_candidates = length additions,
                      vr_total = length es, vr_created = True, vr_dry_run = False, vr_drifted = []\<rparr>)))"

definition repo_verify ::
  "env \<Rightarrow> string option \<Rightarrow> string list \<Rightarrow> bool \<Rightarrow> bool \<Rightarrow> ('z repo_store_scheme, verify_result) sm" where
  "repo_verify E ref0 path_prefixes dry_run drift_check =
     bindS (case ref0 of None \<Rightarrow> asksS (\<lambda>s. current_branch (rs_client s)) | Some r \<Rightarrow> returnS r) (\<lambda>ref.
     bindS (asksS (\<lambda>s. guardE (dry_run \<or> read_branch_ref s ref \<noteq> None) ValueError)) (\<lambda>_.
     bindS (resolve_refS ref) (\<lambda>base_commit_id.
     bindS (read_commitS E base_commit_id) (\<lambda>base_commit.
     bindS (verify_scope E (c_tree base_commit) path_prefixes) (\<lambda>es.
       if dry_run then liftS (audit E base_commit_id drift_check es)
       else promote_entries E ref base_commit_id (c_tree base_commit) es)))))"

section \<open>Restoring files\<close>

text \<open>
  The state is the file system. \<open>make_dirs\<close> is \<open>mkdir(parents=True, exist_ok=True)\<close>, \<open>put_file\<close> the
  replacement of a file by a temporary file written at \<open>clock\<close>.
\<close>

fun make_dirs :: "string list \<Rightarrow> fs \<Rightarrow> fs res" where
  "make_dirs [] (Dir kvs) = Inr (Dir kvs)"
| "make_dirs (p # ps) (Dir kvs) =
     bindE (make_dirs ps (case map_of kvs p of None \<Rightarrow> Dir [] | Some d \<Rightarrow> d)) (\<lambda>d. Inr (Dir (alist_put p d kvs)))"
| "make_dirs ps d = Inl OSError"

fun put_file :: "string list \<Rightarrow> string \<Rightarrow> int \<Rightarrow> fs \<Rightarrow> fs res" where
  "put_file [p] b clock (Dir kvs) =
     (case map_of kvs p of Some (Dir sub) \<Rightarrow> Inl OSError | _ \<Rightarrow> Inr (Dir (alist_put p (File b clock) kvs)))"
| "put_file (p # q # ps) b clock (Dir kvs) =
     (case map_of kvs p of
        None \<Rightarrow> Inl OSError
      | Some d \<Rightarrow> bindE (put_file (q # ps) b clock d) (\<lambda>d'. Inr (Dir (alist_put p d' kvs))))"
| "put_file ps b clock d = Inl OSError"

definition entry_content :: "env \<Rightarrow> 'z repo_store_scheme \<Rightarrow> entry \<Rightarrow> fs \<Rightarrow> string res" where
  "entry_content E s e d =
     (if truthy (blob_hash e) then open_blob s (the (blob_hash e))
      else if truthy (e_uri e) then open_source_uri ((ev_world E)\<lparr>w_fs := d\<rparr>) (the (e_uri e))
      else Inl FileNotFoundError)"

definition lift_fs :: "(fs \<Rightarrow> fs res) \<Rightarrow> (fs, unit) sm" where
  "lift_fs f d = (case f d of Inl e \<Rightarrow> (Inl e, d) | Inr d' \<Rightarrow> (Inr (), d'))"

definition write_entry_to_file ::
  "env \<Rightarrow> 'z repo_store_scheme \<Rightarrow> int \<Rightarrow> entry \<Rightarrow> string list \<Rightarrow> (fs, unit) sm" where
  "write_entry_to_file E s clock e target =
     bindS (asksS (entry_content E s e)) (\<lambda>payload.
       let actual = blake3 (ev_prims E) payload in
       if truthy (blob_hash e) \<and> actual \<noteq> the (blob_hash e) then raiseS (BlobIntegrityError (the (blob_hash e)) actual)
       else lift_fs (put_file target payload clock))"

definition restore_one ::
  "env \<Rightarrow> 'z repo_store_scheme \<Rightarrow> int \<Rightarrow> bool \<Rightarrow> string \<times> entry \<Rightarrow> (fs, string list) sm" where
  "restore_one E s clock force pe =
     (let target = root_parts E (fst pe) in
      bindS (asksS (\<lambda>d. Inr (fs_at d target \<noteq> None))) (\<lambda>there.
        if there \<and> \<not> force then returnS []
        else
          bindS (lift_fs (make_dirs (butlast target))) (\<lambda>_.
            if truthy (blob_hash (snd pe)) \<or> truthy (e_uri (snd pe)) then
              bindS (write_entry_to_file E s clock (snd pe) target) (\<lambda>_. returnS [fst pe])
            else returnS [])))"

text \<open>The entries the given paths name, and the paths that name none.\<close>

definition select_path ::
  "env \<Rightarrow> 'z repo_store_scheme \<Rightarrow> string \<Rightarrow> (string \<times> entry) list \<times> string list \<Rightarrow> string
     \<Rightarrow> ((string \<times> entry) list \<times> string list) res" where
  "select_path E s tree acc raw_path =
     (let L = tree_loader E s; (es, unmatched) = acc in
      bindE (normalize_repository_path raw_path) (\<lambda>normalized.
      bindE (lookup_entry L (ev_tree E) tree normalized) (\<lambda>exact.
        case exact of
          Some e \<Rightarrow> Inr (alist_put (e_path e) e es, unmatched)
        | None \<Rightarrow>
            bindE (iter_entries_for_prefix L (ev_tree E) tree normalized) (\<lambda>matches.
              if matches = [] then Inr (es, unmatched @ [raw_path])
              else Inr (fold (\<lambda>e. alist_put (e_path e) e) matches es, unmatched)))))"

definition select_entries :: "env \<Rightarrow> 'z repo_store_scheme \<Rightarrow> string \<Rightarrow> string list \<Rightarrow> (string \<times> entry) list res" where
  "select_entries E s tree paths =
     (if paths \<noteq> [] then
        bindE (foldE (select_path E s tree) ([], []) paths) (\<lambda>(es, unmatched).
          if unmatched \<noteq> [] then Inl FileNotFoundError else Inr es)
      else bindE (iter_all_entries (tree_loader E s) (ev_tree E) tree) (\<lambda>es. Inr (entry_index es)))"

definition repo_restore_files ::
  "env \<Rightarrow> 'z repo_store_scheme \<Rightarrow> int \<Rightarrow> string \<Rightarrow> string list \<Rightarrow> bool \<Rightarrow> (fs, string list) sm" where
  "repo_restore_files E s clock ref paths force =
     bindS (liftS (bindE (bindE (resolve_ref s ref) (fetch_commit (ev_prims E) s)) (\<lambda>c. select_entries E s (c_tree c) paths)))
       (\<lambda>es. bindS (mapS (restore_one E s clock force) (sort_key fst es)) (\<lambda>rs. returnS (concat rs)))"

section \<open>Transfer commands\<close>

text \<open>\<open>shlex.quote\<close>\<close>

definition shell_safe :: "char \<Rightarrow> bool" where
  "shell_safe c \<longleftrightarrow>
     (let n = of_char c :: nat in
      (48 \<le> n \<and> n \<le> 57) \<or> (65 \<le> n \<and> n \<le> 90) \<or> (97 \<le> n \<and> n \<le> 122) \<or> c \<in> set ''_@%+=:,./-'')"

definition single_quote :: char where
  "single_quote = CHR 0x27"

definition shell_escape :: "char \<Rightarrow> string" where
  "shell_escape c = (if c = single_quote then [single_quote, CHR 0x22, single_quote, CHR 0x22, single_quote] else [c])"

definition shell_quote :: "string \<Rightarrow> string" where
  "shell_quote s =
     (if s = [] then [single_quote, single_quote]
      else if list_all shell_safe s then s
      else single_quote # concat (map shell_escape s) @ [single_quote])"

definition copy_command :: "bool \<Rightarrow> string \<Rightarrow> string \<Rightarrow> string" where
  "copy_command upload local_path s3_uri =
     (if upload then ''cp '' @ shell_quote local_path @ '' '' @ shell_quote s3_uri
      else ''cp '' @ shell_quote s3_uri @ '' '' @ shell_quote local_path)"

definition under_prefix :: "string \<Rightarrow> string \<Rightarrow> string" where
  "under_prefix s3_prefix key = (if s3_prefix \<noteq> [] then s3_prefix @ ''/'' @ key else key)"

definition object_command :: "env \<Rightarrow> bool \<Rightarrow> string \<Rightarrow> string \<Rightarrow> string \<Rightarrow> string \<Rightarrow> string" where
  "object_command E upload bucket s3_prefix dir name =
     copy_command upload (abs_path (w_root (ev_world E) @ [''.reflake'', dir] @ split_path name))
       (''s3://'' @ bucket @ ''/'' @ under_prefix s3_prefix (dir @ ''/'' @ name))"

text \<open>\<open>config\<close>: the bucket and the prefix of an S3 configuration; \<open>L\<close> reads the trees of the local store.\<close>

definition repo_generate_transfer_commands ::
  "env \<Rightarrow> 'z repo_store_scheme \<Rightarrow> loader \<Rightarrow> (string \<times> string) option \<Rightarrow> string option \<Rightarrow> bool \<Rightarrow> bool \<Rightarrow> string list res" where
  "repo_generate_transfer_commands E s L config ref upload include_metadata =
     (case config of
        None \<Rightarrow> Inl ValueError
      | Some (bucket, s3_prefix) \<Rightarrow>
          bindE (if truthy ref then Inr (the ref) else current_branch (rs_client s)) (\<lambda>b.
          bindE (resolve_ref s b) (\<lambda>commit_id.
          bindE (fetch_commit (ev_prims E) s commit_id) (\<lambda>c.
          bindE (iter_all_entries L (ev_tree E) (c_tree c)) (\<lambda>es.
            let command = object_command E upload bucket s3_prefix;
                blobs = map (\<lambda>h. command ''blobs'' (blob_relpath h)) (rev (remdups (rev (given (map blob_hash es)))))
            in if \<not> include_metadata then Inr blobs
               else
                 bindE (iter_tree_hashes (tree_loader E s) (ev_tree E) (c_tree c) []) (\<lambda>(seen, hs).
                   Inr (blobs @ map (command ''trees'') hs @ [command ''commits'' (commit_id @ ''.json'')])))))))"

end
