(* ===== verification/Transfer_Commands.thy ===== *)
theory Transfer_Commands
  imports Repo_Ops
begin

text \<open>
  The commands \<open>generate_transfer_commands\<close> prints (\<open>core/repository_ops.py\<close>) are read back by a shell as
  they were meant, whatever the paths are; and what the conflict check of \<open>add\<close> sees and misses.
\<close>

section \<open>Quoted operands\<close>

text \<open>
  How a POSIX shell splits a line into words: blanks end a word, single quotes keep everything,
  double quotes keep everything but expansions. A line with another operator has no reading here.
\<close>

datatype quoting = Plain | Single | Double

definition expansions :: string where
  "expansions = [CHR ''$'', CHR 0x60, CHR 0x5C, CHR ''!'']"

fun shell_words :: "quoting \<Rightarrow> string option \<Rightarrow> string \<Rightarrow> string list option" where
  "shell_words Plain w [] = Some (case w of None \<Rightarrow> [] | Some a \<Rightarrow> [a])"
| "shell_words q w [] = None"
| "shell_words Plain w (c # cs) =
     (if c = single_quote then shell_words Single (Some (case w of None \<Rightarrow> [] | Some a \<Rightarrow> a)) cs
      else if c = CHR 0x22 then shell_words Double (Some (case w of None \<Rightarrow> [] | Some a \<Rightarrow> a)) cs
      else if c = CHR '' '' then
        (case w of None \<Rightarrow> shell_words Plain None cs
         | Some a \<Rightarrow> map_option ((#) a) (shell_words Plain None cs))
      else if shell_safe c then shell_words Plain (Some ((case w of None \<Rightarrow> [] | Some a \<Rightarrow> a) @ [c])) cs
      else None)"
| "shell_words Single w (c # cs) =
     (if c = single_quote then shell_words Plain w cs
      else shell_words Single (map_option (\<lambda>a. a @ [c]) w) cs)"
| "shell_words Double w (c # cs) =
     (if c = CHR 0x22 then shell_words Plain w cs
      else if c \<in> set expansions then None
      else shell_words Double (map_option (\<lambda>a. a @ [c]) w) cs)"

lemma shell_safe_plain: "shell_safe c \<Longrightarrow> c \<noteq> single_quote \<and> c \<noteq> CHR 0x22 \<and> c \<noteq> CHR '' ''"
  by (auto simp: shell_safe_def single_quote_def)

lemma shell_words_safe:
  "list_all shell_safe s \<Longrightarrow> shell_words Plain (Some a) (s @ t) = shell_words Plain (Some (a @ s)) t"
  by (induction s arbitrary: a) (auto dest: shell_safe_plain)

lemma shell_words_escaped:
  "shell_words Single (Some a) (concat (map shell_escape s) @ single_quote # t) = shell_words Plain (Some (a @ s)) t"
  by (induction s arbitrary: a) (auto simp: shell_escape_def single_quote_def expansions_def)

lemma shell_words_quote: "shell_words Plain None (shell_quote s @ t) = shell_words Plain (Some s) t"
proof (cases "s \<noteq> [] \<and> list_all shell_safe s")
  case True
  then obtain c cs where s: "s = c # cs" by (cases s) auto
  with True have "shell_words Plain None (s @ t) = shell_words Plain (Some [c]) (cs @ t)"
    using shell_safe_plain [of c] by simp
  also have "\<dots> = shell_words Plain (Some s) t" using shell_words_safe [of cs "[c]" t] True s by simp
  finally show ?thesis using True by (auto simp: shell_quote_def)
next
  case False
  then show ?thesis using shell_words_escaped [of "[]" s t] by (auto simp: shell_quote_def)
qed

lemma copy_command_words:
  "shell_words Plain None (copy_command upload local_path s3_uri) =
     Some (''cp'' # (if upload then [local_path, s3_uri] else [s3_uri, local_path]))"
proof -
  have cp: "shell_words Plain None (''cp '' @ t) = map_option ((#) ''cp'') (shell_words Plain None t)" for t
    by (simp add: shell_safe_def single_quote_def)
  have two: "shell_words Plain None (shell_quote a @ '' '' @ shell_quote b) = Some [a, b]" for a b
    using shell_words_quote [of a "'' '' @ shell_quote b"] shell_words_quote [of b "[]"] by (simp add: single_quote_def)
  show ?thesis unfolding copy_command_def
    by (cases upload) (simp_all only: if_True if_False cp two option.map)
qed

section \<open>The conflict check of an addition\<close>

text \<open>The neighbour check reports only real conflicts, but a name between the two hides one.\<close>

lemma neighbours_clash_sound:
  "neighbours_clash ps \<Longrightarrow> \<exists>p \<in> set ps. \<exists>q \<in> set ps. prefix (p @ ''/'') q"
  by (induction ps rule: neighbours_clash.induct) auto

lemma conflict_missed: "\<not> neighbours_clash (sort [''a'', ''a/b'', ''a.txt''])"
  by code_simp

lemma conflict_seen: "neighbours_clash (sort [''a'', ''a/b'', ''z''])"
  by code_simp

end
