(* ===== verification/S3_Client.thy ===== *)
theory S3_Client
  imports Source
begin

text \<open>
  The S3 client of boto3 as the code uses it, and \<open>core/objects/multipart.py\<close>. The client is a
  parameter: a record of its calls over an unknown state of the service. A call either answers
  or raises a \<open>ClientError\<close>, whose error code is the \<open>Inl\<close>.

  \<open>s3_laws\<close> states what the service documents: a read returns the stored bytes, a conditional
  put writes exactly when its condition holds, a multipart upload becomes visible as a whole
  when it is completed; a write that raises may still have been applied, unless the error is
  the failed precondition.

  The lemmas: an upload stores exactly the bytes of the stream or leaves the object as it was,
  and the check that runs before completion is never skipped for a stream that is not empty;
  the parts of a file stay within the limits of the service.
\<close>

section \<open>The client\<close>

datatype condition = Always | IfMatch string | IfNoneMatch string

type_synonym bucket_key = "string \<times> string"

type_synonym ('w, 'a) call = "'w \<Rightarrow> (string + 'a) \<times> 'w"

record s3_body =
  gb_body :: string
  gb_etag :: "string option"

text \<open>A listing is the contents of all its pages: key and modification time, 0 when it has none.\<close>

record 'w s3_client =
  sc_get :: "bucket_key \<Rightarrow> ('w, s3_body) call"
  sc_head :: "bucket_key \<Rightarrow> ('w, string option) call"
  sc_put :: "bucket_key \<Rightarrow> string \<Rightarrow> condition \<Rightarrow> ('w, unit) call"
  sc_delete :: "bucket_key \<Rightarrow> ('w, unit) call"
  sc_delete_many :: "string \<Rightarrow> string list \<Rightarrow> ('w, unit) call"
  sc_list :: "string \<Rightarrow> string \<Rightarrow> ('w, (string \<times> int) list) call"
  sc_create :: "bucket_key \<Rightarrow> ('w, string) call"
  sc_part :: "bucket_key \<Rightarrow> string \<Rightarrow> nat \<Rightarrow> string \<Rightarrow> ('w, string) call"
  sc_complete :: "bucket_key \<Rightarrow> string \<Rightarrow> (string \<times> nat) list \<Rightarrow> ('w, unit) call"
  sc_abort :: "bucket_key \<Rightarrow> string \<Rightarrow> ('w, unit) call"

section \<open>Exceptions\<close>

text \<open>Inside the adapters an exception is a \<open>ClientError\<close> or one of the program; \<open>try_client\<close> is the
  \<open>except ClientError\<close> at their boundary.\<close>

datatype s3_exc = ClientError string | Raised error

type_synonym ('w, 'a) xm = "'w \<Rightarrow> (s3_exc + 'a) \<times> 'w"

definition callX :: "('w, 'a) call \<Rightarrow> ('w, 'a) xm" where
  "callX m w = (case m w of (Inl code, w') \<Rightarrow> (Inl (ClientError code), w') | (Inr x, w') \<Rightarrow> (Inr x, w'))"

definition returnX :: "'a \<Rightarrow> ('w, 'a) xm" where
  "returnX x w = (Inr x, w)"

definition liftX :: "'a res \<Rightarrow> ('w, 'a) xm" where
  "liftX r w = (case r of Inl e \<Rightarrow> (Inl (Raised e), w) | Inr x \<Rightarrow> (Inr x, w))"

definition bindX :: "('w, 'a) xm \<Rightarrow> ('a \<Rightarrow> ('w, 'b) xm) \<Rightarrow> ('w, 'b) xm" where
  "bindX m f w = (case m w of (Inl e, w') \<Rightarrow> (Inl e, w') | (Inr x, w') \<Rightarrow> f x w')"

definition try_client :: "('w, 'a) xm \<Rightarrow> (string \<Rightarrow> ('w, 'a) sm) \<Rightarrow> ('w, 'a) sm" where
  "try_client m handler w =
     (case m w of
        (Inr x, w') \<Rightarrow> (Inr x, w')
      | (Inl (ClientError code), w') \<Rightarrow> handler code w'
      | (Inl (Raised e), w') \<Rightarrow> (Inl e, w'))"

text \<open>\<open>except BaseException\<close>: clean up, whatever comes of it, and raise again.\<close>

definition on_error :: "('w, 'a) xm \<Rightarrow> ('w, 'b) call \<Rightarrow> ('w, 'a) xm" where
  "on_error m cleanup w =
     (case m w of (Inr x, w') \<Rightarrow> (Inr x, w') | (Inl e, w') \<Rightarrow> (Inl e, snd (cleanup w')))"

section \<open>Multipart uploads\<close>

definition MULTIPART_THRESHOLD :: nat where
  "MULTIPART_THRESHOLD = 64 * 1024 * 1024"

definition MULTIPART_PART_SIZE :: nat where
  "MULTIPART_PART_SIZE = 64 * 1024 * 1024"

definition MIN_PART_SIZE :: nat where
  "MIN_PART_SIZE = 5 * 1024 * 1024"

definition MAX_PARTS :: nat where
  "MAX_PARTS = 10000"

definition part_size_for :: "nat \<Rightarrow> nat" where
  "part_size_for total_size =
     (if total_size \<le> MULTIPART_PART_SIZE then MULTIPART_PART_SIZE
      else max MIN_PART_SIZE (nat (- ((- int total_size) div int MAX_PARTS))))"

function read_parts :: "nat \<Rightarrow> string \<Rightarrow> string list" where
  "read_parts part_size src =
     (if take part_size src = [] then [] else take part_size src # read_parts part_size (drop part_size src))"
  by pat_completeness auto
termination
  by (relation "measure (\<lambda>(n, s). length s)") auto

declare read_parts.simps [simp del]

text \<open>The loop of \<open>upload_stream\<close>: \<open>body\<close> is the part to send, \<open>src\<close> what is left of the stream.\<close>

function upload_parts ::
  "'w s3_client \<Rightarrow> bucket_key \<Rightarrow> string \<Rightarrow> nat \<Rightarrow> nat \<Rightarrow> string \<Rightarrow> string \<Rightarrow> ('w, (string \<times> nat) list) xm" where
  "upload_parts C key upload_id base_part number body src =
     (if body = [] then returnX []
      else bindX (callX (sc_part C key upload_id number body)) (\<lambda>etag.
           bindX (upload_parts C key upload_id base_part (number + 1) (take base_part src) (drop base_part src)) (\<lambda>parts.
             returnX ((etag, number) # parts))))"
  by pat_completeness auto
termination
proof (relation "measure (\<lambda>(C, k, i, b, n, body, src). length body + length src)", goal_cases)
  case (2 C key upload_id base_part number body src e)
  then show ?case by (cases body) simp_all
qed simp

declare upload_parts.simps [simp del]

definition put_once :: "'w s3_client \<Rightarrow> bucket_key \<Rightarrow> string \<Rightarrow> bool \<Rightarrow> ('w, unit) xm" where
  "put_once C key body if_none_match =
     callX (sc_put C key body (if if_none_match then IfNoneMatch ''*'' else Always))"

definition complete_upload :: "'w s3_client \<Rightarrow> bucket_key \<Rightarrow> string \<Rightarrow> (string \<times> nat) list \<Rightarrow> ('w, unit) xm" where
  "complete_upload C key upload_id parts = callX (sc_complete C key upload_id parts)"

text \<open>
  \<open>pre_complete\<close> is given the bytes read from the stream so far (the caller's hasher has seen
  them); without one it is \<open>\<lambda>_. Inr ()\<close>.
\<close>

definition upload_stream ::
  "'w s3_client \<Rightarrow> bucket_key \<Rightarrow> string \<Rightarrow> nat option \<Rightarrow> nat option \<Rightarrow> (string \<Rightarrow> unit res) \<Rightarrow> bool \<Rightarrow> ('w, unit) xm" where
  "upload_stream C key src part_size threshold0 pre_complete if_none_match =
     (let threshold = (case threshold0 of None \<Rightarrow> MULTIPART_THRESHOLD | Some n \<Rightarrow> n);
          base_part = (case part_size of None \<Rightarrow> MULTIPART_PART_SIZE | Some n \<Rightarrow> n);
          first = take (threshold + 1) src
      in if first = [] then put_once C key [] if_none_match
         else if length first \<le> threshold then
           bindX (liftX (pre_complete first)) (\<lambda>_. put_once C key first if_none_match)
         else
           bindX (callX (sc_create C key)) (\<lambda>upload_id.
             on_error
               (bindX (upload_parts C key upload_id base_part 1 first (drop (threshold + 1) src)) (\<lambda>parts.
                bindX (liftX (pre_complete (first @ concat (read_parts base_part (drop (threshold + 1) src))))) (\<lambda>_.
                complete_upload C key upload_id parts)))
               (sc_abort C key upload_id)))"

text \<open>A local file is its bytes.\<close>

definition upload_file :: "'w s3_client \<Rightarrow> bucket_key \<Rightarrow> string \<Rightarrow> bool \<Rightarrow> ('w, unit) xm" where
  "upload_file C key file if_none_match =
     (let sz = length file in
      if if_none_match \<and> sz \<le> MULTIPART_THRESHOLD then put_once C key file True
      else if sz \<le> MULTIPART_THRESHOLD then put_once C key file False
      else upload_stream C key file (Some (part_size_for sz)) (Some (part_size_for sz)) (\<lambda>_. Inr ()) False)"

text \<open>The bytes that replace the target file; a failed read leaves the target as it was.\<close>

definition download_to_file :: "'w s3_client \<Rightarrow> bucket_key \<Rightarrow> ('w, string) xm" where
  "download_to_file C key = bindX (callX (sc_get C key)) (\<lambda>r. returnX (gb_body r))"


section \<open>The service\<close>

text \<open>
  What a state of the service holds: the object under each key, the unfinished uploads with the
  parts they have so far, and the entity tag of a content.
\<close>

record 'w s3_view =
  sv_holds :: "'w \<Rightarrow> bucket_key \<Rightarrow> string option"
  sv_uploads :: "'w \<Rightarrow> string \<Rightarrow> (bucket_key \<times> string list) option"
  sv_etag :: "string \<Rightarrow> string"

definition admits :: "'w s3_view \<Rightarrow> condition \<Rightarrow> string option \<Rightarrow> bool" where
  "admits V cond stored =
     (case cond of
        Always \<Rightarrow> True
      | IfMatch tag \<Rightarrow> (case stored of None \<Rightarrow> False | Some b \<Rightarrow> sv_etag V b = tag)
      | IfNoneMatch _ \<Rightarrow> stored = None)"

definition get_law :: "'w s3_client \<Rightarrow> 'w s3_view \<Rightarrow> bool" where
  "get_law C V \<longleftrightarrow>
     (\<forall>key w r w'. sc_get C key w = (r, w') \<longrightarrow> sv_holds V w' = sv_holds V w \<and> sv_uploads V w' = sv_uploads V w \<and>
        (case r of
           Inr b \<Rightarrow> sv_holds V w key = Some (gb_body b) \<and> gb_etag b \<in> {None, Some (sv_etag V (gb_body b))}
         | Inl code \<Rightarrow> s3_is_404 code \<longrightarrow> sv_holds V w key = None))"

definition head_law :: "'w s3_client \<Rightarrow> 'w s3_view \<Rightarrow> bool" where
  "head_law C V \<longleftrightarrow>
     (\<forall>key w r w'. sc_head C key w = (r, w') \<longrightarrow> sv_holds V w' = sv_holds V w \<and> sv_uploads V w' = sv_uploads V w \<and>
        (case r of Inr t \<Rightarrow> sv_holds V w key \<noteq> None | Inl code \<Rightarrow> s3_is_404 code \<longrightarrow> sv_holds V w key = None))"

text \<open>A put that raises has been refused, or has been applied without the caller hearing of it.\<close>

definition put_law :: "'w s3_client \<Rightarrow> 'w s3_view \<Rightarrow> bool" where
  "put_law C V \<longleftrightarrow>
     (\<forall>key body cond w r w'. sc_put C key body cond w = (r, w') \<longrightarrow> sv_uploads V w' = sv_uploads V w \<and>
        (case r of
           Inr _ \<Rightarrow> admits V cond (sv_holds V w key) \<and> sv_holds V w' = (sv_holds V w)(key \<mapsto> body)
         | Inl code \<Rightarrow>
             if s3_is_precondition_failed code then \<not> admits V cond (sv_holds V w key) \<and> sv_holds V w' = sv_holds V w
             else sv_holds V w' = sv_holds V w \<or>
               admits V cond (sv_holds V w key) \<and> sv_holds V w' = (sv_holds V w)(key \<mapsto> body)))"

definition create_law :: "'w s3_client \<Rightarrow> 'w s3_view \<Rightarrow> bool" where
  "create_law C V \<longleftrightarrow>
     (\<forall>key w r w'. sc_create C key w = (r, w') \<longrightarrow> sv_holds V w' = sv_holds V w \<and>
        (case r of
           Inr upload_id \<Rightarrow> sv_uploads V w' upload_id = Some (key, [])
         | Inl code \<Rightarrow> \<not> s3_is_precondition_failed code))"

definition part_law :: "'w s3_client \<Rightarrow> 'w s3_view \<Rightarrow> bool" where
  "part_law C V \<longleftrightarrow>
     (\<forall>key upload_id parts body w r w'. sv_uploads V w upload_id = Some (key, parts) \<longrightarrow>
        sc_part C key upload_id (Suc (length parts)) body w = (r, w') \<longrightarrow> sv_holds V w' = sv_holds V w \<and>
        (case r of
           Inr _ \<Rightarrow> sv_uploads V w' upload_id = Some (key, parts @ [body])
         | Inl code \<Rightarrow> \<not> s3_is_precondition_failed code))"

definition complete_law :: "'w s3_client \<Rightarrow> 'w s3_view \<Rightarrow> bool" where
  "complete_law C V \<longleftrightarrow>
     (\<forall>key upload_id parts named w r w'. sv_uploads V w upload_id = Some (key, parts) \<longrightarrow>
        map snd named = [1..<Suc (length parts)] \<longrightarrow> sc_complete C key upload_id named w = (r, w') \<longrightarrow>
        (case r of
           Inr _ \<Rightarrow> sv_holds V w' = (sv_holds V w)(key \<mapsto> concat parts)
         | Inl code \<Rightarrow> \<not> s3_is_precondition_failed code \<and>
             sv_holds V w' \<in> {sv_holds V w, (sv_holds V w)(key \<mapsto> concat parts)}))"

definition abort_law :: "'w s3_client \<Rightarrow> 'w s3_view \<Rightarrow> bool" where
  "abort_law C V \<longleftrightarrow> (\<forall>key upload_id w. sv_holds V (snd (sc_abort C key upload_id w)) = sv_holds V w)"

text \<open>A request deletes at most 1000 keys; one that raises has deleted some of them.\<close>

definition delete_law :: "'w s3_client \<Rightarrow> 'w s3_view \<Rightarrow> bool" where
  "delete_law C V \<longleftrightarrow>
     (\<forall>bucket keys w r w'. length keys \<le> 1000 \<longrightarrow> sc_delete_many C bucket keys w = (r, w') \<longrightarrow>
        (\<forall>key. key \<notin> Pair bucket ` set keys \<longrightarrow> sv_holds V w' key = sv_holds V w key) \<and>
        (\<forall>key. sv_holds V w' key = None \<or> sv_holds V w' key = sv_holds V w key) \<and>
        (\<forall>u. r = Inr u \<longrightarrow> (\<forall>key \<in> set keys. sv_holds V w' (bucket, key) = None)))"

definition list_law :: "'w s3_client \<Rightarrow> 'w s3_view \<Rightarrow> bool" where
  "list_law C V \<longleftrightarrow>
     (\<forall>bucket pre w r w'. sc_list C bucket pre w = (r, w') \<longrightarrow> sv_holds V w' = sv_holds V w \<and>
        (\<forall>objects. r = Inr objects \<longrightarrow>
           fst ` set objects = {key. prefix pre key \<and> sv_holds V w (bucket, key) \<noteq> None}))"

definition s3_laws :: "'w s3_client \<Rightarrow> 'w s3_view \<Rightarrow> bool" where
  "s3_laws C V \<longleftrightarrow> get_law C V \<and> head_law C V \<and> put_law C V \<and> create_law C V \<and> part_law C V \<and>
     complete_law C V \<and> abort_law C V \<and> delete_law C V \<and> list_law C V"


lemma s3_lawsD:
  assumes "s3_laws C V"
  shows "get_law C V" "head_law C V" "put_law C V" "create_law C V" "part_law C V" "complete_law C V" "abort_law C V"
    "delete_law C V" "list_law C V"
  using assms by (simp_all add: s3_laws_def)

lemma abort_keeps [simp]: "s3_laws C V \<Longrightarrow> sv_holds V (snd (sc_abort C key i w)) = sv_holds V w"
  by (cases key) (simp add: s3_laws_def abort_law_def)

section \<open>Lemmas\<close>

lemma xm_simps [simp]:
  "returnX x w = (Inr x, w)" "liftX (Inr x) w = (Inr x, w)" "liftX (Inl e) w = (Inl (Raised e), w)"
  by (simp_all add: returnX_def liftX_def)

lemma callX_Inr: "callX m w = (Inr x, w') \<longleftrightarrow> m w = (Inr x, w')"
  by (auto simp: callX_def split: prod.splits sum.splits)

lemma callX_Inl: "callX m w = (Inl e, w') \<longleftrightarrow> (\<exists>code. e = ClientError code \<and> m w = (Inl code, w'))"
  by (auto simp: callX_def split: prod.splits sum.splits)

lemma bindX_cases:
  assumes "bindX m f w = (r, w')"
  obtains (fails) e where "m w = (Inl e, w')" "r = Inl e"
    | (continues) x w1 where "m w = (Inr x, w1)" "f x w1 = (r, w')"
  using assms by (auto simp: bindX_def split: prod.splits sum.splits)

lemma read_parts_Nil [simp]: "read_parts n [] = []"
  by (simp add: read_parts.simps)

lemma concat_read_parts: "0 < n \<Longrightarrow> concat (read_parts n src) = src"
proof (induction n src rule: read_parts.induct)
  case (1 n src)
  then show ?case by (cases "src = []") (simp_all add: read_parts.simps [of n src])
qed

definition part_bodies :: "nat \<Rightarrow> string \<Rightarrow> string \<Rightarrow> string list" where
  "part_bodies base_part body src = (if body = [] then [] else body # read_parts base_part src)"

lemma part_bodies_Cons:
  "body \<noteq> [] \<Longrightarrow> part_bodies b body src = body # part_bodies b (take b src) (drop b src)"
  by (simp add: part_bodies_def read_parts.simps [of b src])

lemma upload_parts_spec:
  assumes "part_law C V" "sv_uploads V w upload_id = Some (key, parts)" "number = Suc (length parts)"
    and "upload_parts C key upload_id base_part number body src w = (r, w')"
  shows "sv_holds V w' = sv_holds V w \<and>
    (case r of
       Inr named \<Rightarrow> sv_uploads V w' upload_id = Some (key, parts @ part_bodies base_part body src) \<and>
         map snd named = [number..<number + length (part_bodies base_part body src)]
     | Inl e \<Rightarrow> \<exists>code. e = ClientError code \<and> \<not> s3_is_precondition_failed code)"
  using assms
proof (induction C key upload_id base_part number body src arbitrary: w parts r rule: upload_parts.induct)
  case (1 C key upload_id base_part number body src)
  show ?case
  proof (cases "body = []")
    case True
    with 1 show ?thesis by (auto simp: upload_parts.simps [of C] part_bodies_def)
  next
    case False
    note bodies = part_bodies_Cons [OF False, of base_part src]
    from 1(5) False have run: "bindX (callX (sc_part C key upload_id number body)) (\<lambda>etag.
           bindX (upload_parts C key upload_id base_part (number + 1) (take base_part src) (drop base_part src)) (\<lambda>parts.
             returnX ((etag, number) # parts))) w = (r, w')" by (simp add: upload_parts.simps [of C])
    note law = 1(2) [unfolded part_law_def, rule_format, OF 1(3)]
    from run show ?thesis
    proof (cases rule: bindX_cases)
      case (fails e)
      then obtain code where "e = ClientError code" "sc_part C key upload_id (Suc (length parts)) body w = (Inl code, w')"
        using 1(4) by (auto simp: callX_Inl)
      with law [OF this(2)] fails show ?thesis by simp
    next
      case (continues t w1)
      then have "sc_part C key upload_id (Suc (length parts)) body w = (Inr t, w1)" using 1(4) by (simp add: callX_Inr)
      from law [OF this] have w1: "sv_holds V w1 = sv_holds V w" "sv_uploads V w1 upload_id = Some (key, parts @ [body])"
        by simp_all
      from continues(2) show ?thesis
      proof (cases rule: bindX_cases)
        case (fails e)
        with 1(1) [OF False 1(2) w1(2)] 1(4) w1 show ?thesis by simp
      next
        case (continues named w2)
        have up: "[number..<Suc (number + n)] = number # [Suc number..<Suc (number + n)]" for n by (simp add: upt_conv_Cons)
        from continues 1(1) [OF False 1(2) w1(2)] 1(4) have
          w2: "sv_holds V w2 = sv_holds V w1" "r = Inr ((t, number) # named)" "w' = w2"
            "sv_uploads V w2 upload_id = Some (key, (parts @ [body]) @ part_bodies base_part (take base_part src) (drop base_part src))"
            "map snd named = [number + 1..<number + 1 + length (part_bodies base_part (take base_part src) (drop base_part src))]"
          by simp_all
        with w1 show ?thesis by (simp add: bodies up del: upt_Suc)
      qed
    qed
  qed
qed


text \<open>
  \<open>uploaded\<close>: a success has stored the bytes and run the check on them (a stream without bytes is
  not checked); a failed precondition means that the object was there; another exception leaves
  everything as it was or has stored the checked bytes.
\<close>

definition uploaded ::
  "'w s3_view \<Rightarrow> bucket_key \<Rightarrow> string \<Rightarrow> unit res \<Rightarrow> bool \<Rightarrow> 'w \<Rightarrow> s3_exc + unit \<Rightarrow> 'w \<Rightarrow> bool" where
  "uploaded V key src checked if_none_match w r w' \<longleftrightarrow>
     (case r of
        Inr _ \<Rightarrow> checked = Inr () \<and> (if_none_match \<longrightarrow> sv_holds V w key = None) \<and> sv_holds V w' = (sv_holds V w)(key \<mapsto> src)
      | Inl (ClientError code) \<Rightarrow>
          if s3_is_precondition_failed code
          then checked = Inr () \<and> if_none_match \<and> sv_holds V w key \<noteq> None \<and> sv_holds V w' = sv_holds V w
          else sv_holds V w' = sv_holds V w \<or>
            checked = Inr () \<and> (if_none_match \<longrightarrow> sv_holds V w key = None) \<and> sv_holds V w' = (sv_holds V w)(key \<mapsto> src)
      | Inl (Raised e) \<Rightarrow> checked = Inl e \<and> sv_holds V w' = sv_holds V w)"

lemma uploaded_cong:
  assumes "uploaded V key src checked False w1 r w2" "sv_holds V w1 = sv_holds V w" "sv_holds V w2 = sv_holds V w'"
  shows "uploaded V key src checked False w r w'"
  using assms unfolding uploaded_def by (simp split: sum.splits s3_exc.splits if_splits)

lemma put_once_spec:
  assumes "put_law C V" "put_once C key src if_none_match w = (r, w')"
  shows "uploaded V key src (Inr ()) if_none_match w r w'"
proof -
  let ?cond = "if if_none_match then IfNoneMatch ''*'' else Always"
  obtain q where q: "sc_put C key src ?cond w = (q, w')" "r = map_sum ClientError id q"
    using assms(2) by (auto simp: put_once_def callX_def split: prod.splits sum.splits)
  note law = assms(1) [unfolded put_law_def, rule_format, OF q(1)]
  show ?thesis
    by (cases q; use law q(2) in \<open>simp add: uploaded_def admits_def split: if_splits\<close>) auto?
qed

lemma complete_spec:
  assumes "s3_laws C V" "sv_uploads V w upload_id = Some (key, [])" "body \<noteq> []" "base_part \<noteq> 0"
    and run: "bindX (upload_parts C key upload_id base_part 1 body src) (\<lambda>parts.
       bindX (liftX (pre (body @ concat (read_parts base_part src)))) (\<lambda>_. complete_upload C key upload_id parts)) w = (r, w')"
  shows "uploaded V key (body @ src) (pre (body @ src)) False w r w'"
proof -
  have bytes: "concat (part_bodies base_part body src) = body @ src" "concat (read_parts base_part src) = src"
    using assms(3,4) by (simp_all add: part_bodies_def concat_read_parts)
  note parts = upload_parts_spec [OF s3_lawsD(5) [OF assms(1)] assms(2) _, of 1 base_part body src]
  from run show ?thesis
  proof (cases rule: bindX_cases)
    case (fails e)
    with parts show ?thesis by (fastforce simp: uploaded_def)
  next
    case (continues named w1)
    with parts have w1: "sv_holds V w1 = sv_holds V w" "sv_uploads V w1 upload_id = Some (key, part_bodies base_part body src)"
      "map snd named = [1..<Suc (length (part_bodies base_part body src))]" by fastforce+
    show ?thesis
    proof (cases "pre (body @ src)")
      case (Inl e)
      with continues(2) bytes w1 show ?thesis by (auto simp: uploaded_def bindX_def)
    next
      case (Inr u)
      with continues(2) bytes have "complete_upload C key upload_id named w1 = (r, w')" by (simp add: bindX_def)
      with s3_lawsD(6) [OF assms(1), unfolded complete_law_def, rule_format, OF w1(2,3)] bytes w1(1) Inr show ?thesis
        by (auto simp: uploaded_def complete_upload_def callX_def split: prod.splits sum.splits)
    qed
  qed
qed

lemma upload_stream_spec:
  assumes "s3_laws C V" "part_size \<noteq> Some 0" "upload_stream C key src part_size threshold0 pre if_none_match w = (r, w')"
  shows "uploaded V key src (if src = [] then Inr () else pre src)
    (if_none_match \<and> length src \<le> (case threshold0 of None \<Rightarrow> MULTIPART_THRESHOLD | Some n \<Rightarrow> n)) w r w'"
proof -
  define t where "t = (case threshold0 of None \<Rightarrow> MULTIPART_THRESHOLD | Some n \<Rightarrow> n)"
  define b where "b = (case part_size of None \<Rightarrow> MULTIPART_PART_SIZE | Some n \<Rightarrow> n)"
  have b: "b \<noteq> 0" using assms(2) by (auto simp: b_def MULTIPART_PART_SIZE_def split: option.splits)
  have ne: "take (t + 1) src = [] \<longleftrightarrow> src = []" by simp
  note run = assms(3) [unfolded upload_stream_def Let_def, folded t_def b_def]
  note t_def [symmetric, simp]
  consider (empty) "src = []" | (small) "src \<noteq> []" "length src \<le> t" | (large) "src \<noteq> []" "t < length src" by fastforce
  then show ?thesis
  proof cases
    case empty
    with run put_once_spec [OF s3_lawsD(3) [OF assms(1)]] show ?thesis by simp
  next
    case small
    then have "take (t + 1) src = src" by simp
    with small run have "bindX (liftX (pre src)) (\<lambda>_. put_once C key src if_none_match) w = (r, w')" by simp
    with small put_once_spec [OF s3_lawsD(3) [OF assms(1)], of key src if_none_match w r w'] show ?thesis
      by (cases "pre src") (auto simp: bindX_def uploaded_def)
  next
    case large
    let ?send = "\<lambda>i. bindX (upload_parts C key i b 1 (take (t + 1) src) (drop (t + 1) src)) (\<lambda>parts.
          bindX (liftX (pre (take (t + 1) src @ concat (read_parts b (drop (t + 1) src))))) (\<lambda>_. complete_upload C key i parts))"
    from large have first: "take (t + 1) src \<noteq> []" "\<not> length (take (t + 1) src) \<le> t" by simp_all
    from run have "bindX (callX (sc_create C key)) (\<lambda>i. on_error (?send i) (sc_abort C key i)) w = (r, w')"
      by (simp only: first if_False)
    then show ?thesis
    proof (cases rule: bindX_cases)
      case (fails e)
      with s3_lawsD(4) [OF assms(1), unfolded create_law_def, rule_format, of key w] show ?thesis
        by (fastforce simp: uploaded_def callX_Inl)
    next
      case (continues i w1)
      with s3_lawsD(4) [OF assms(1), unfolded create_law_def, rule_format, of key w] have
        w1: "sv_holds V w1 = sv_holds V w" "sv_uploads V w1 i = Some (key, [])" by (fastforce simp: callX_Inr)+
      obtain q w2 where send: "?send i w1 = (q, w2)" by fastforce
      from complete_spec [where pre = pre, OF assms(1) w1(2) _ b send] large(1)
      have sent: "uploaded V key src (pre src) False w1 q w2" by simp
      have "r = q" "sv_holds V w' = sv_holds V w2"
        using continues(2) send abort_keeps [OF assms(1), of key i w2]
        by (auto simp: on_error_def split: sum.splits)
      with uploaded_cong [OF sent w1(1)] large show ?thesis by simp
    qed
  qed
qed


lemma upload_file_spec:
  assumes "s3_laws C V" "upload_file C key file if_none_match w = (r, w')"
  shows "uploaded V key file (Inr ()) (if_none_match \<and> length file \<le> MULTIPART_THRESHOLD) w r w'"
proof -
  have "part_size_for (length file) \<noteq> 0"
    by (auto simp: part_size_for_def MULTIPART_PART_SIZE_def MIN_PART_SIZE_def)
  then have large: "uploaded V key file (Inr ()) False w r w'"
    if "upload_stream C key file (Some (part_size_for (length file))) (Some (part_size_for (length file))) (\<lambda>_. Inr ()) False w = (r, w')"
    using upload_stream_spec [OF assms(1) _ that] by simp
  with assms(2) put_once_spec [OF s3_lawsD(3) [OF assms(1)]] show ?thesis
    by (cases if_none_match) (auto simp: upload_file_def Let_def split: if_splits)
qed

section \<open>The parts of a file\<close>

lemma length_read_parts: "0 < n \<Longrightarrow> n * length (read_parts n src) < length src + n"
proof (induction n src rule: read_parts.induct)
  case (1 n src)
  show ?case
  proof (cases "n < length src")
    case True
    then have "take n src \<noteq> []" using 1(2) by auto
    with 1 True have "n * length (read_parts n (drop n src)) < length src - n + n" by simp
    with True \<open>take n src \<noteq> []\<close> show ?thesis by (simp add: read_parts.simps [of n src])
  next
    case False
    then show ?thesis using 1(2) by (cases "src = []") (simp_all add: read_parts.simps [of n src])
  qed
qed

lemma part_size_covers:
  assumes "MULTIPART_PART_SIZE < sz"
  shows "sz \<le> MAX_PARTS * part_size_for sz" "MIN_PART_SIZE \<le> part_size_for sz"
proof -
  have "int sz \<le> int MAX_PARTS * - ((- int sz) div int MAX_PARTS)"
    using minus_mult_div_eq_mod [of "- int sz" "int MAX_PARTS"] pos_mod_sign [of "int MAX_PARTS" "- int sz"]
    by (simp add: MAX_PARTS_def)
  then have "sz \<le> MAX_PARTS * nat (- ((- int sz) div int MAX_PARTS))"
    by (simp add: MAX_PARTS_def)
  then show "sz \<le> MAX_PARTS * part_size_for sz"
    using assms by (auto simp: part_size_for_def max_def MAX_PARTS_def)
qed (use assms in \<open>simp add: part_size_for_def\<close>)

text \<open>
  A file above the threshold is sent in at most 10000 parts, and every part but the last has the
  minimum size. A stream is not: its parts have a fixed size, so its length is limited to 10000 of them.
\<close>

lemma file_parts:
  fixes content :: string
  defines "p \<equiv> part_size_for (length content)"
  assumes "MULTIPART_PART_SIZE < length content"
  shows "length (part_bodies p (take (p + 1) content) (drop (p + 1) content)) \<le> MAX_PARTS"
proof -
  have p: "0 < p" "length content \<le> MAX_PARTS * p" using part_size_covers [OF assms(2)] by (auto simp: p_def MIN_PART_SIZE_def)
  have ne: "take (p + 1) content \<noteq> []" using assms(2) by auto
  let ?n = "length (read_parts p (drop (p + 1) content))"
  have "p * (1 + ?n) < MAX_PARTS * p + p \<and> ?n + 1 \<le> MAX_PARTS"
  proof (cases "length content \<le> p")
    case True
    then show ?thesis using p by (auto simp: MAX_PARTS_def)
  next
    case False
    then have "p * ?n < length content - (p + 1) + p" using length_read_parts [OF p(1), of "drop (p + 1) content"] by simp
    with False have "p * (1 + ?n) < length content + p" by (simp add: distrib_left)
    with p have 1: "p * (1 + ?n) < MAX_PARTS * p + p" by linarith
    then have "p * (1 + ?n) < p * (MAX_PARTS + 1)" by (simp add: distrib_left mult.commute)
    with p(1) have "1 + ?n < MAX_PARTS + 1" by (metis mult_less_cancel1)
    with 1 show ?thesis by simp
  qed
  with ne show ?thesis by (simp add: part_bodies_def)
qed

end
