(* ===== verification/Sync.thy ===== *)
theory Sync
  imports Repo_Ops S3_Client
begin

text \<open>
  \<open>core/repository_sync.py\<close>: push, pull and fetch between a local repository and one in an S3
  bucket. The state is the pair of the two stores; the client state of each is part of it. A
  store is a \<open>repo_store\<close> whatever its adapter; \<open>store_kind\<close> says which adapter it is, and so
  how its writes and its branch updates behave (\<open>objects/local.py\<close>, \<open>objects/s3.py\<close>).

  \<open>Sync_Spec\<close> proves that a plan lists exactly the missing objects the commits reach, each once, and
  that after a push or pull every object of the transferred commits is there, no branch but the
  synchronized one moves, and a failed run moves none.
\<close>

section \<open>Stores\<close>

datatype store_kind = LocalStore | S3Store

text \<open>A tree also joins the list of the payloads the store has seen, which no operation reads.\<close>

definition put_object :: "object_kind \<Rightarrow> string \<Rightarrow> string \<Rightarrow> 'z repo_store_scheme \<Rightarrow> 'z repo_store_scheme" where
  "put_object k i payload s =
     (case k of
        Commit \<Rightarrow> s\<lparr>rs_commits := alist_put i payload (rs_commits s)\<rparr>
      | Tree \<Rightarrow> s\<lparr>ts_nodes := (ts_nodes s)(i \<mapsto> payload), ts_hashed := payload # ts_hashed s\<rparr>
      | Blob \<Rightarrow> s\<lparr>rs_blobs := alist_put i payload (rs_blobs s)\<rparr>
      | Footer \<Rightarrow> s\<lparr>rs_footers := alist_put i payload (rs_footers s)\<rparr>
      | Ref \<Rightarrow> s\<lparr>rs_refs := alist_put i payload (rs_refs s)\<rparr>)"

text \<open>Tree and footer files: a stored object is left alone (\<open>if_missing\<close>).\<close>

definition write_missing :: "object_kind \<Rightarrow> string \<Rightarrow> string \<Rightarrow> ('z repo_store_scheme, unit) sm" where
  "write_missing k i payload s =
     (if object_exists k s i then (Inr (), s) else (Inr (), put_object k i payload s))"

text \<open>\<open>write_commit_bytes\<close> with \<open>if_missing\<close>, on either adapter.\<close>

definition write_new_commit :: "string \<Rightarrow> string \<Rightarrow> ('z repo_store_scheme, unit) sm" where
  "write_new_commit i payload s =
     (if object_exists Commit s i then (Inl OptimisticLockError, s) else (Inr (), put_object Commit i payload s))"

text \<open>
  \<open>S3ObjectStore.write_blob_stream\<close> with \<open>if_missing\<close>. With a transfer backend the bytes are hashed
  first; without one the upload hashes them on the way, an empty stream is put as it is, and a
  stream above the threshold is a multipart upload, which has no condition.
\<close>

definition s3_write_blob_stream :: "prims \<Rightarrow> bool \<Rightarrow> string \<Rightarrow> string \<Rightarrow> ('z repo_store_scheme, unit) sm" where
  "s3_write_blob_stream P backend h payload s =
     (let actual = blake3 P payload in
      if (backend \<or> payload \<noteq> []) \<and> actual \<noteq> h then (Inl (BlobIntegrityError h actual), s)
      else if object_exists Blob s h \<and> (backend \<or> length payload \<le> MULTIPART_THRESHOLD) then (Inr (), s)
      else (Inr (), put_object Blob h payload s))"

text \<open>\<open>iter_object_ids\<close>, as the set it is made into.\<close>

definition iter_object_ids :: "object_kind \<Rightarrow> 'z repo_store_scheme \<Rightarrow> string set" where
  "iter_object_ids k s = {i. object_exists k s i}"

text \<open>The compare-and-set of the two adapters: on S3 a branch name is a key, and no name is in the way of another.\<close>

definition s3_compare_and_set_branch_ref ::
  "string \<Rightarrow> string option \<Rightarrow> string option \<Rightarrow> ('z repo_store_scheme, bool) sm" where
  "s3_compare_and_set_branch_ref branch commit_id expected_commit_id s =
     (if head_of (read_branch_ref s branch) \<noteq> expected_commit_id then (Inr False, s)
      else (Inr True, put_object Ref branch (ref_payload commit_id) s))"

definition store_cas ::
  "store_kind \<Rightarrow> string \<Rightarrow> string option \<Rightarrow> string option \<Rightarrow> ('z repo_store_scheme, bool) sm" where
  "store_cas kind =
     (case kind of LocalStore \<Rightarrow> compare_and_set_branch_ref | S3Store \<Rightarrow> s3_compare_and_set_branch_ref)"

section \<open>RefManager over either store\<close>

definition store_update_branch_ref ::
  "store_kind \<Rightarrow> string \<Rightarrow> string \<Rightarrow> string option \<Rightarrow> string option \<Rightarrow> string \<Rightarrow> ('z repo_store_scheme, unit) sm" where
  "store_update_branch_ref kind now branch commit_id expected_commit_id operation =
     bindS (store_cas kind branch commit_id expected_commit_id) (\<lambda>updated.
       if updated then
         bindS (snapshot branch) (\<lambda>_. reflog now branch expected_commit_id commit_id operation)
       else
         bindS (snapshot branch) (\<lambda>_ s.
           (Inl (RefConflictError branch operation expected_commit_id (ref_head s branch)), s)))"

definition store_fast_forward ::
  "store_kind \<Rightarrow> prims \<Rightarrow> nat \<Rightarrow> nat \<Rightarrow> string \<Rightarrow> string \<Rightarrow> string \<Rightarrow> string \<Rightarrow> ('z repo_store_scheme, bool) sm" where
  "store_fast_forward kind P m n now b target_commit operation =
     bindS (require_branch_state False b) (\<lambda>current.
       if current = Some target_commit then returnS False
       else
         bindS (\<lambda>s. (case current of
                        None \<Rightarrow> Inr ()
                      | Some c \<Rightarrow>
                          if c = [] then Inr ()
                          else bindE (is_ancestor P m n s c target_commit) (\<lambda>ok.
                                 if ok then Inr () else Inl (NonFastForwardError b c target_commit)), s))
           (\<lambda>_. bindS (store_update_branch_ref kind now b (Some target_commit) current operation)
                  (\<lambda>_. returnS True)))"

text \<open>On a local store these are the operations of \<open>Ref_Manager\<close>.\<close>

lemma store_update_local [simp]: "store_update_branch_ref LocalStore = update_branch_ref"
  by (intro ext) (simp add: store_update_branch_ref_def update_branch_ref_def store_cas_def)

lemma store_fast_forward_local [simp]: "store_fast_forward LocalStore = fast_forward_branch"
  by (intro ext) (simp only: store_fast_forward_def fast_forward_branch_def store_update_local)

interpretation s3_refs: ref_cas ref_head s3_compare_and_set_branch_ref stored_head
proof unfold_locales
  fix b new expd and s s' :: "'a repo_store_scheme"
  assume "s3_compare_and_set_branch_ref b new expd s = (Inr True, s')"
  then show "ref_head s b = expd \<and> ref_head s' b = stored_head new \<and> (\<forall>c. c \<noteq> b \<longrightarrow> ref_head s' c = ref_head s c)"
    by (simp add: s3_compare_and_set_branch_ref_def put_object_def split: if_splits)
      (auto simp: ref_head_put simp flip: ref_head_def)
qed (auto simp: s3_compare_and_set_branch_ref_def ref_head_def split: if_splits)

section \<open>Transfer plans\<close>

datatype direction = Upload | Download

record transfer_item =
  ti_kind :: object_kind
  ti_id :: string
  ti_local :: string
  ti_uri :: string

record transfer_plan =
  tp_direction :: direction
  tp_items :: "transfer_item list"

text \<open>The two repositories: the root of the local one, the bucket and prefix of the remote one.\<close>

record ends =
  en_kind :: store_kind
  en_root :: "string list"
  en_bucket :: string
  en_prefix :: string

definition object_path :: "ends \<Rightarrow> object_kind \<Rightarrow> string \<Rightarrow> string" where
  "object_path D k i = abs_path (en_root D @ ''.reflake'' # split_path (object_relative_key k i))"

definition s3_store_key :: "string \<Rightarrow> object_kind \<Rightarrow> string \<Rightarrow> string" where
  "s3_store_key pre k i =
     (let p = strip_char (CHR ''/'') pre in
      if p \<noteq> [] then p @ ''/'' @ object_relative_key k i else object_relative_key k i)"

definition object_uri :: "ends \<Rightarrow> object_kind \<Rightarrow> string \<Rightarrow> string" where
  "object_uri D k i = ''s3://'' @ en_bucket D @ ''/'' @ s3_store_key (en_prefix D) k i"

definition require_local_path :: "store_kind \<Rightarrow> unit res" where
  "require_local_path kind = (case kind of LocalStore \<Rightarrow> Inr () | S3Store \<Rightarrow> Inl TransferEndpointError)"

definition require_remote_uri :: "store_kind \<Rightarrow> unit res" where
  "require_remote_uri kind = (case kind of S3Store \<Rightarrow> Inr () | LocalStore \<Rightarrow> Inl TransferEndpointError)"

definition INVENTORY_THRESHOLD :: nat where
  "INVENTORY_THRESHOLD = 64"

definition missing_ids :: "'z repo_store_scheme \<Rightarrow> object_kind \<Rightarrow> string list \<Rightarrow> string list" where
  "missing_ids s k ids =
     (if length (remdups ids) \<le> INVENTORY_THRESHOLD then filter (\<lambda>i. \<not> object_exists k s i) (remdups ids)
      else let present = iter_object_ids k s in filter (\<lambda>i. i \<notin> present) (remdups ids))"

definition collect_candidates ::
  "prims \<Rightarrow> nat \<Rightarrow> 'z repo_store_scheme \<Rightarrow> string list \<Rightarrow> (object_kind \<Rightarrow> string list) res" where
  "collect_candidates P m src commit_ids =
     (let L = load P (ts_nodes src) in
      bindE (foldE (visit_state (visit_commit P src L m)) ([], []) commit_ids) (\<lambda>(seen_trees, trees).
      bindE (node_leaves L trees) (\<lambda>leaves.
        Inr (\<lambda>k. case k of Commit \<Rightarrow> commit_ids | Tree \<Rightarrow> trees | Blob \<Rightarrow> given (map blob_hash leaves)
                  | Footer \<Rightarrow> given (map e_footer leaves) | Ref \<Rightarrow> []))))"

definition plan_item :: "ends \<Rightarrow> object_kind \<Rightarrow> string \<Rightarrow> transfer_item" where
  "plan_item D k i = \<lparr>ti_kind = k, ti_id = i, ti_local = object_path D k i, ti_uri = object_uri D k i\<rparr>"

definition missing_items ::
  "ends \<Rightarrow> 'z repo_store_scheme \<Rightarrow> (object_kind \<Rightarrow> string list) \<Rightarrow> transfer_item list" where
  "missing_items D dst candidates =
     concat (map (\<lambda>k. map (plan_item D k) (sort (missing_ids dst k (candidates k)))) [Commit, Tree, Blob, Footer])"

definition build_plan ::
  "env \<Rightarrow> ends \<Rightarrow> direction \<Rightarrow> 'y repo_store_scheme \<Rightarrow> 'z repo_store_scheme \<Rightarrow> string list \<Rightarrow> transfer_plan res" where
  "build_plan E D dir src dst commit_ids =
     bindE (collect_candidates (ev_prims E) (ev_tree E) src commit_ids) (\<lambda>candidates.
     bindE (require_local_path (en_kind D)) (\<lambda>_.
     bindE (require_remote_uri S3Store) (\<lambda>_.
       Inr \<lparr>tp_direction = dir, tp_items = missing_items D dst candidates\<rparr>)))"

section \<open>Copying\<close>

type_synonym ('y, 'z) both = "'y repo_store_scheme \<times> 'z repo_store_scheme"

definition on_local :: "('y repo_store_scheme, 'a) sm \<Rightarrow> (('y, 'z) both, 'a) sm" where
  "on_local m st = (case m (fst st) of (r, l) \<Rightarrow> (r, (l, snd st)))"

definition on_remote :: "('z repo_store_scheme, 'a) sm \<Rightarrow> (('y, 'z) both, 'a) sm" where
  "on_remote m st = (case m (snd st) of (r, s) \<Rightarrow> (r, (fst st, s)))"

text \<open>The local path of an item is the file of the object in the local store.\<close>

definition upload_item :: "prims \<Rightarrow> bool \<Rightarrow> transfer_item \<Rightarrow> (('y, 'z) both, unit) sm" where
  "upload_item P backend x st =
     (case lookup_object (ti_kind x) (fst st) (ti_id x) of
        None \<Rightarrow> (Inl FileNotFoundError, st)
      | Some payload \<Rightarrow>
          on_remote
            (case ti_kind x of
               Blob \<Rightarrow> s3_write_blob_stream P backend (ti_id x) payload
             | Tree \<Rightarrow> write_missing Tree (ti_id x) payload
             | Footer \<Rightarrow> write_missing Footer (ti_id x) payload
             | _ \<Rightarrow> write_new_commit (ti_id x) payload) st)"

definition download_item :: "prims \<Rightarrow> transfer_item \<Rightarrow> (('y, 'z) both, unit) sm" where
  "download_item P x st =
     (case lookup_object (ti_kind x) (snd st) (ti_id x) of
        None \<Rightarrow> (if ti_kind x = Blob then Inl ObjectMissingError else Inr (), st)
      | Some payload \<Rightarrow>
          on_local
            (case ti_kind x of
               Blob \<Rightarrow> write_blob P (ti_id x) payload True
             | Tree \<Rightarrow> write_missing Tree (ti_id x) payload
             | Footer \<Rightarrow> write_missing Footer (ti_id x) payload
             | _ \<Rightarrow> write_new_commit (ti_id x) payload) st)"

definition copy_item :: "prims \<Rightarrow> bool \<Rightarrow> direction \<Rightarrow> transfer_item \<Rightarrow> (('y, 'z) both, unit) sm" where
  "copy_item P backend dir x =
     (case dir of Upload \<Rightarrow> upload_item P backend x | Download \<Rightarrow> download_item P x)"

text \<open>
  The transfer backend of the remote store: none, one that copies object by object, or one that
  runs a whole plan, which is a program of its own (a function of the plan and the two stores).
\<close>

datatype ('y, 'z) backend =
    NoBackend
  | Single
  | Batch "transfer_plan \<Rightarrow> (('y, 'z) both, nat) sm"

definition has_backend :: "('y, 'z) backend \<Rightarrow> bool" where
  "has_backend backend = (case backend of NoBackend \<Rightarrow> False | _ \<Rightarrow> True)"

definition execute_transfer_plan ::
  "prims \<Rightarrow> ('y, 'z) backend \<Rightarrow> transfer_plan \<Rightarrow> (('y, 'z) both, nat) sm" where
  "execute_transfer_plan P backend plan =
     (if tp_items plan = [] then returnS 0
      else case backend of
        Batch transfer \<Rightarrow> transfer plan
      | _ \<Rightarrow> bindS (mapS (copy_item P (has_backend backend) (tp_direction plan)) (tp_items plan))
               (\<lambda>_. returnS (length (tp_items plan))))"

section \<open>What is to be transferred\<close>

definition visit_history :: "prims \<Rightarrow> 'z repo_store_scheme \<Rightarrow> string \<Rightarrow> unit \<Rightarrow> (string list \<times> unit) res" where
  "visit_history P s i u = bindE (fetch_commit P s i) (\<lambda>c. Inr (rev (c_parents c), u))"

text \<open>\<open>commits.sort\<close> by generation; \<open>list(missing)\<close> has the commits in some order, here that of the walk.\<close>

definition by_generation :: "env \<Rightarrow> 'z repo_store_scheme \<Rightarrow> string list \<Rightarrow> string list res" where
  "by_generation E s ids =
     bindE (mapE (\<lambda>i. bindE (gen_of (commit_reader (ev_prims E) s) (ev_history E) Map.empty i) (\<lambda>(g, memo). Inr (g, i))) ids)
       (\<lambda>kis. Inr (map snd (sort_key fst kis)))"

definition collect_commits_to_push ::
  "env \<Rightarrow> 'y repo_store_scheme \<Rightarrow> 'z repo_store_scheme \<Rightarrow> string \<Rightarrow> string list res" where
  "collect_commits_to_push E src dst commit_id =
     bindE (mark_loop (visit_history (ev_prims E) src) (ev_walk E) [] () [commit_id]) (\<lambda>(reachable, u).
       by_generation E src (missing_ids dst Commit reachable))"

section \<open>Fast-forward checks\<close>

text \<open>A commit the repository does not have counts as unreachable.\<close>

definition lenient_reader :: "prims \<Rightarrow> 'z repo_store_scheme \<Rightarrow> reader" where
  "lenient_reader P s i =
     (case fetch_commit P s i of
        Inr c \<Rightarrow> Inr (Some c)
      | Inl (UnknownCommitError j) \<Rightarrow> Inr None
      | Inl e \<Rightarrow> Inl e)"

definition is_ancestor_in :: "env \<Rightarrow> string \<Rightarrow> string \<Rightarrow> 'z repo_store_scheme \<Rightarrow> bool res" where
  "is_ancestor_in E anc descendant s =
     is_ancestor_commit (lenient_reader (ev_prims E) s) (ev_history E) (ev_walk E) anc descendant"

definition verify_fast_forward ::
  "env \<Rightarrow> string option \<Rightarrow> 'z repo_store_scheme \<Rightarrow> string \<Rightarrow> string \<Rightarrow> bool res" where
  "verify_fast_forward E head repo branch target =
     (if head = Some target then Inr False
      else case head of
        None \<Rightarrow> Inr True
      | Some h \<Rightarrow> bindE (is_ancestor_in E h target repo) (\<lambda>ok.
                    if ok then Inr True else Inl (NonFastForwardError branch h target)))"

definition verify_push_fast_forward ::
  "env \<Rightarrow> string \<Rightarrow> string \<Rightarrow> 'y repo_store_scheme \<Rightarrow> 'z repo_store_scheme \<Rightarrow> bool res" where
  "verify_push_fast_forward E branch local_commit_id local remote =
     verify_fast_forward E (ref_head remote branch) local branch local_commit_id"

definition verify_pull_fast_forward ::
  "env \<Rightarrow> string \<Rightarrow> string \<Rightarrow> 'y repo_store_scheme \<Rightarrow> 'z repo_store_scheme \<Rightarrow> bool res" where
  "verify_pull_fast_forward E branch remote_commit_id local remote =
     verify_fast_forward E (ref_head local branch) remote branch remote_commit_id"

section \<open>Push, pull, fetch\<close>

record sync_result =
  sy_branch :: string
  sy_uri :: string
  sy_commits :: nat
  sy_blobs :: nat
  sy_updated :: bool

text \<open>
  \<open>open_repository\<close> of an \<open>s3://\<close> address, over a client state of its own: its HEAD is set when it
  is new, nothing is written to the bucket.
\<close>

definition open_remote :: "env \<Rightarrow> store_kind \<Rightarrow> string \<Rightarrow> (('y, 'z) both, ends) sm" where
  "open_remote E kind uri =
     bindS (liftS (parse_s3_uri uri)) (\<lambda>(bucket, pre).
     bindS (on_remote (\<lambda>r. (Inr (), r\<lparr>rs_client := ensure_current_branch ''main'' (rs_client r)\<rparr>))) (\<lambda>_.
       returnS \<lparr>en_kind = kind, en_root = w_root (ev_world E), en_bucket = bucket, en_prefix = pre\<rparr>))"

definition ensure_unborn :: "store_kind \<Rightarrow> string \<Rightarrow> ('z repo_store_scheme, unit) sm" where
  "ensure_unborn kind branch s =
     (if read_branch_ref s branch = None then bindS (store_cas kind branch None None) (\<lambda>_. returnS ()) s
      else (Inr (), s))"

definition count_blobs :: "transfer_plan \<Rightarrow> nat" where
  "count_blobs plan = length (filter (\<lambda>x. ti_kind x = Blob) (tp_items plan))"

definition fast_forward_of ::
  "env \<Rightarrow> store_kind \<Rightarrow> string \<Rightarrow> string \<Rightarrow> string \<Rightarrow> ('z repo_store_scheme, bool) sm" where
  "fast_forward_of E kind branch target operation =
     store_fast_forward kind (ev_prims E) (ev_history E) (ev_walk E) (ev_now E) branch target operation"

definition branch_to_push :: "string \<Rightarrow> ('z repo_store_scheme, string) sm" where
  "branch_to_push branch =
     asksS (\<lambda>s. if \<not> object_exists Ref s branch then Inl ValueError
                else case read_branch_ref s branch of Some (Some c) \<Rightarrow> Inr c | _ \<Rightarrow> Inl ValueError)"

definition push ::
  "env \<Rightarrow> store_kind \<Rightarrow> ('y, 'z) backend \<Rightarrow> string \<Rightarrow> string option \<Rightarrow> (('y, 'z) both, sync_result) sm" where
  "push E kind backend uri ref =
     bindS (on_local (branch_or_current ref)) (\<lambda>branch.
     bindS (on_local (branch_to_push branch)) (\<lambda>local_commit_id.
     bindS (open_remote E kind uri) (\<lambda>D.
     bindS (on_remote (ensure_unborn S3Store branch)) (\<lambda>_.
     bindS (asksS (\<lambda>(l, r). verify_push_fast_forward E branch local_commit_id l r)) (\<lambda>can_fast_forward.
       let outcome = (\<lambda>commits blobs updated. \<lparr>sy_branch = branch, sy_uri = uri, sy_commits = commits,
             sy_blobs = blobs, sy_updated = updated\<rparr>)
       in if \<not> can_fast_forward then returnS (outcome 0 0 False)
          else
            bindS (asksS (\<lambda>(l, r). collect_commits_to_push E l r local_commit_id)) (\<lambda>commits.
              if commits = [] then
                bindS (on_remote (fast_forward_of E S3Store branch local_commit_id ''push'')) (\<lambda>updated.
                  returnS (outcome 0 0 updated))
              else
                bindS (asksS (\<lambda>(l, r). build_plan E D Upload l r commits)) (\<lambda>plan.
                bindS (execute_transfer_plan (ev_prims E) backend plan) (\<lambda>_.
                bindS (on_remote (fast_forward_of E S3Store branch local_commit_id ''push'')) (\<lambda>updated.
                  returnS (outcome (length commits) (count_blobs plan) updated))))))))))"

definition pull ::
  "env \<Rightarrow> store_kind \<Rightarrow> ('y, 'z) backend \<Rightarrow> string \<Rightarrow> string option \<Rightarrow> (('y, 'z) both, sync_result) sm" where
  "pull E kind backend uri ref =
     bindS (on_local (branch_or_current ref)) (\<lambda>branch.
     bindS (open_remote E kind uri) (\<lambda>D.
     bindS (on_remote (resolve_refS branch)) (\<lambda>remote_commit_id.
     bindS (on_local (ensure_unborn kind branch)) (\<lambda>_.
     bindS (asksS (\<lambda>(l, r). verify_pull_fast_forward E branch remote_commit_id l r)) (\<lambda>can_fast_forward.
       let outcome = (\<lambda>commits blobs updated. \<lparr>sy_branch = branch, sy_uri = uri, sy_commits = commits,
             sy_blobs = blobs, sy_updated = updated\<rparr>)
       in if \<not> can_fast_forward then returnS (outcome 0 0 False)
          else
            bindS (asksS (\<lambda>(l, r). collect_commits_to_push E r l remote_commit_id)) (\<lambda>commits.
              if commits = [] then
                bindS (on_local (fast_forward_of E kind branch remote_commit_id ''pull'')) (\<lambda>updated.
                  returnS (outcome 0 0 updated))
              else
                bindS (asksS (\<lambda>(l, r). build_plan E D Download r l commits)) (\<lambda>plan.
                bindS (execute_transfer_plan (ev_prims E) backend plan) (\<lambda>_.
                bindS (on_local (fast_forward_of E kind branch remote_commit_id ''pull'')) (\<lambda>updated.
                  returnS (outcome (length commits) (count_blobs plan) updated))))))))))"

text \<open>\<open>FetchResult\<close> has no \<open>updated\<close>: no branch moves.\<close>

definition fetch ::
  "env \<Rightarrow> store_kind \<Rightarrow> ('y, 'z) backend \<Rightarrow> string \<Rightarrow> string option \<Rightarrow> (('y, 'z) both, string \<times> nat \<times> nat) sm" where
  "fetch E kind backend uri ref =
     bindS (on_local (branch_or_current ref)) (\<lambda>branch.
     bindS (open_remote E kind uri) (\<lambda>D.
     bindS (on_remote (resolve_refS branch)) (\<lambda>remote_commit_id.
     bindS (asksS (\<lambda>(l, r). collect_commits_to_push E r l remote_commit_id)) (\<lambda>commits.
     bindS (asksS (\<lambda>(l, r). build_plan E D Download r l commits)) (\<lambda>plan.
     bindS (execute_transfer_plan (ev_prims E) backend plan) (\<lambda>_.
       returnS (branch, length commits, count_blobs plan)))))))"

end
