(* ===== verification/S3_Store.thy ===== *)
theory S3_Store
  imports Sync
begin

text \<open>
  \<open>core/objects/s3.py\<close>: the object store in a bucket. Each operation is the calls it makes to the
  client, with the exceptions of the code; the state is the state of the service.

  \<open>S3_Spec\<close> proves that each operation refines the one \<open>Sync\<close> assumes of a remote store, that the
  compare-and-set of a branch is decided at its conditional put, whatever other clients write
  between its read and its put, and that a listing finds the stored objects.
\<close>

section \<open>The store\<close>

text \<open>The transfer backend, when there is one, works on files and addresses.\<close>

record 'w blob_transfer =
  bt_upload :: "string \<Rightarrow> string \<Rightarrow> bool \<Rightarrow> ('w, unit) sm"
  bt_download :: "string \<Rightarrow> ('w, string) sm"
  bt_exists :: "string \<Rightarrow> ('w, bool) sm"

record 'w s3_store =
  st_bucket :: string
  st_prefix :: string
  st_client :: "'w s3_client"
  st_transfer :: "'w blob_transfer option"

definition store_key :: "'w s3_store \<Rightarrow> object_kind \<Rightarrow> string \<Rightarrow> bucket_key" where
  "store_key S k object_id = (st_bucket S, s3_store_key (st_prefix S) k object_id)"

definition store_object_uri :: "'w s3_store \<Rightarrow> object_kind \<Rightarrow> string \<Rightarrow> string" where
  "store_object_uri S k object_id = ''s3://'' @ st_bucket S @ ''/'' @ s3_store_key (st_prefix S) k object_id"

definition s3_blob_uri :: "'w s3_store \<Rightarrow> string \<Rightarrow> string" where
  "s3_blob_uri S h = ''s3://'' @ st_bucket S @ ''/'' @ s3_store_key (st_prefix S) Blob h"

section \<open>Commits, trees, footers\<close>

definition s3_get_or_none :: "'w s3_store \<Rightarrow> bucket_key \<Rightarrow> ('w, string option) sm" where
  "s3_get_or_none S key =
     try_client (bindX (callX (sc_get (st_client S) key)) (\<lambda>response. returnX (Some (gb_body response))))
       (\<lambda>code. if s3_is_404 code then returnS None else raiseS (translate_s3_error code))"

definition s3_read_commit_bytes :: "'w s3_store \<Rightarrow> string \<Rightarrow> ('w, string option) sm" where
  "s3_read_commit_bytes S commit_id = s3_get_or_none S (store_key S Commit commit_id)"

definition s3_read_tree_bytes :: "'w s3_store \<Rightarrow> string \<Rightarrow> ('w, string option) sm" where
  "s3_read_tree_bytes S tree_hash = s3_get_or_none S (store_key S Tree tree_hash)"

definition s3_read_footer_bytes :: "'w s3_store \<Rightarrow> string \<Rightarrow> ('w, string option) sm" where
  "s3_read_footer_bytes S footer_hash = s3_get_or_none S (store_key S Footer footer_hash)"

definition s3_write_commit_bytes :: "'w s3_store \<Rightarrow> string \<Rightarrow> string \<Rightarrow> bool \<Rightarrow> ('w, unit) sm" where
  "s3_write_commit_bytes S commit_id payload if_missing =
     try_client (put_once (st_client S) (store_key S Commit commit_id) payload if_missing)
       (\<lambda>code. if if_missing \<and> s3_is_precondition_failed code then raiseS OptimisticLockError
               else raiseS (translate_s3_error code))"

definition s3_put_stream :: "'w s3_store \<Rightarrow> bucket_key \<Rightarrow> string \<Rightarrow> bool \<Rightarrow> ('w, unit) sm" where
  "s3_put_stream S key body if_missing =
     try_client (put_once (st_client S) key body if_missing)
       (\<lambda>code. if if_missing \<and> s3_is_precondition_failed code then raiseS OptimisticLockError
               else raiseS (translate_s3_error code))"

text \<open>\<open>except OptimisticLockError\<close>, which \<open>PreconditionFailedError\<close> is a subclass of.\<close>

definition unless_locked :: "bool \<Rightarrow> ('w, unit) sm \<Rightarrow> ('w, unit) sm" where
  "unless_locked if_missing m w =
     (case m w of
        (Inl e, w') \<Rightarrow>
          (if (e = OptimisticLockError \<or> e = PreconditionFailedError) \<and> if_missing then Inr () else Inl e, w')
      | (Inr u, w') \<Rightarrow> (Inr u, w'))"

definition s3_write_tree_bytes :: "'w s3_store \<Rightarrow> string \<Rightarrow> string \<Rightarrow> bool \<Rightarrow> ('w, unit) sm" where
  "s3_write_tree_bytes S tree_hash payload if_missing =
     unless_locked if_missing (s3_put_stream S (store_key S Tree tree_hash) payload if_missing)"

definition s3_write_tree_file :: "'w s3_store \<Rightarrow> string \<Rightarrow> string \<Rightarrow> bool \<Rightarrow> ('w, unit) sm" where
  "s3_write_tree_file S tree_hash source_file if_missing =
     unless_locked if_missing (s3_put_stream S (store_key S Tree tree_hash) source_file if_missing)"

definition s3_write_footer_file :: "'w s3_store \<Rightarrow> string \<Rightarrow> string \<Rightarrow> bool \<Rightarrow> ('w, unit) sm" where
  "s3_write_footer_file S footer_hash source_file if_missing =
     unless_locked if_missing (s3_put_stream S (store_key S Footer footer_hash) source_file if_missing)"

section \<open>Branches\<close>

definition decode_ref :: "string \<Rightarrow> string option res" where
  "decode_ref body =
     (if \<not> utf8_ok body then Inl UnicodeDecodeError
      else Inr (let c = strip body in if c = [] then None else Some c))"

definition s3_read_branch_ref :: "'w s3_store \<Rightarrow> string \<Rightarrow> ('w, string option option) sm" where
  "s3_read_branch_ref S branch =
     bindS (s3_get_or_none S (store_key S Ref branch)) (\<lambda>response.
       case response of
         None \<Rightarrow> returnS None
       | Some body \<Rightarrow> liftS (bindE (decode_ref body) (\<lambda>c. Inr (Some c))))"

definition s3_write_branch_ref ::
  "'w s3_store \<Rightarrow> string \<Rightarrow> string option \<Rightarrow> string option \<Rightarrow> string option \<Rightarrow> ('w, unit) sm" where
  "s3_write_branch_ref S branch commit_id if_match if_none_match =
     (let cond = (case if_match of
            Some t \<Rightarrow> IfMatch (if prefix [CHR 0x22] t then t else CHR 0x22 # t @ [CHR 0x22])
          | None \<Rightarrow> (case if_none_match of Some t \<Rightarrow> IfNoneMatch t | None \<Rightarrow> Always))
      in try_client (callX (sc_put (st_client S) (store_key S Ref branch) (ref_payload commit_id) cond))
           (\<lambda>code. if s3_is_precondition_failed code then raiseS PreconditionFailedError
                   else raiseS (translate_s3_error code)))"

text \<open>
  \<open>compare_and_set_branch_ref\<close> is a read and a conditional put; other clients may write in
  between. \<open>cas_read\<close> decides to give up or what to put on condition of, \<open>cas_write\<close> puts it.
\<close>

definition cas_read :: "'w s3_store \<Rightarrow> string \<Rightarrow> string option \<Rightarrow> ('w, s3_body option option) sm" where
  "cas_read S branch expected_commit_id =
     bindS (try_client (bindX (callX (sc_get (st_client S) (store_key S Ref branch))) (\<lambda>r. returnX (Some r)))
              (\<lambda>code. if \<not> s3_is_404 code then raiseS (translate_s3_error code) else returnS None)) (\<lambda>response.
     bindS (liftS (case response of None \<Rightarrow> Inr None | Some r \<Rightarrow> decode_ref (gb_body r))) (\<lambda>current_commit_id.
       returnS (if current_commit_id \<noteq> expected_commit_id then None else Some response)))"

definition catch_lock :: "('w, unit) sm \<Rightarrow> ('w, bool) sm" where
  "catch_lock m w =
     (case m w of
        (Inl e, w') \<Rightarrow> (if e = PreconditionFailedError \<or> e = OptimisticLockError then Inr False else Inl e, w')
      | (Inr _, w') \<Rightarrow> (Inr True, w'))"

definition cas_write :: "'w s3_store \<Rightarrow> string \<Rightarrow> string option \<Rightarrow> s3_body option \<Rightarrow> ('w, bool) sm" where
  "cas_write S branch commit_id response =
     (case response of
        None \<Rightarrow> catch_lock (s3_write_branch_ref S branch commit_id None (Some ''*''))
      | Some r \<Rightarrow>
          (let etag = strip_char (CHR 0x22) (case gb_etag r of None \<Rightarrow> [] | Some t \<Rightarrow> t) in
           if etag = [] then returnS False
           else catch_lock (s3_write_branch_ref S branch commit_id (Some etag) None)))"

definition s3_compare_and_set ::
  "'w s3_store \<Rightarrow> string \<Rightarrow> string option \<Rightarrow> string option \<Rightarrow> ('w, bool) sm" where
  "s3_compare_and_set S branch commit_id expected_commit_id =
     bindS (cas_read S branch expected_commit_id) (\<lambda>decision.
       case decision of None \<Rightarrow> returnS False | Some response \<Rightarrow> cas_write S branch commit_id response)"

section \<open>Enumeration and deletion\<close>

definition drop_prefix :: "string \<Rightarrow> string \<Rightarrow> string" where
  "drop_prefix pre key = (if prefix pre key then drop (length pre) key else key)"

definition s3_iter_branches :: "'w s3_store \<Rightarrow> ('w, string list) sm" where
  "s3_iter_branches S =
     (let pre = snd (store_key S Ref []) in
      try_client (bindX (callX (sc_list (st_client S) (st_bucket S) pre)) (\<lambda>objects. returnX (map (drop_prefix pre \<circ> fst) objects)))
        (\<lambda>code. raiseS (translate_s3_error code)))"

definition iter_keys_with_mtimes :: "'w s3_store \<Rightarrow> string \<Rightarrow> ('w, (string \<times> int) list) xm" where
  "iter_keys_with_mtimes S pre = callX (sc_list (st_client S) (st_bucket S) pre)"

text \<open>The listings of objects do not translate a \<open>ClientError\<close>.\<close>

definition commit_listed :: "string \<times> int \<Rightarrow> (string \<times> int) option" where
  "commit_listed km =
     (let name = last (split_path (fst km)) in
      if suffix ''.json'' name then Some (take (length name - 5) name, snd km) else None)"

definition s3_iter_object_ids_with_mtimes :: "'w s3_store \<Rightarrow> object_kind \<Rightarrow> ('w, (string \<times> int) list) xm" where
  "s3_iter_object_ids_with_mtimes S k =
     (let pre = snd (store_key S k []); keys = iter_keys_with_mtimes S pre in
      case k of
        Blob \<Rightarrow> bindX keys (\<lambda>kms. returnX (map (\<lambda>(key, m). (filter (\<lambda>c. c \<noteq> CHR ''/'') (drop_prefix pre key), m)) kms))
      | Tree \<Rightarrow> bindX keys (\<lambda>kms. returnX (map (\<lambda>(key, m). (drop_prefix pre key, m)) kms))
      | Footer \<Rightarrow> bindX keys (\<lambda>kms. returnX (map (\<lambda>(key, m). (drop_prefix pre key, m)) kms))
      | Commit \<Rightarrow> bindX keys (\<lambda>kms. returnX (List.map_filter commit_listed kms))
      | Ref \<Rightarrow> returnX [])"

definition s3_iter_object_ids :: "'w s3_store \<Rightarrow> object_kind \<Rightarrow> ('w, string list) xm" where
  "s3_iter_object_ids S k = bindX (s3_iter_object_ids_with_mtimes S k) (\<lambda>ims. returnX (map fst ims))"

definition DELETE_BATCH_SIZE :: nat where
  "DELETE_BATCH_SIZE = 1000"

function s3_delete_objects :: "'w s3_store \<Rightarrow> object_kind \<Rightarrow> string list \<Rightarrow> ('w, nat) sm" where
  "s3_delete_objects S k ids =
     (if ids = [] then returnS 0
      else
        let batch = take DELETE_BATCH_SIZE ids in
        bindS (try_client (callX (sc_delete_many (st_client S) (st_bucket S) (map (snd \<circ> store_key S k) batch)))
                 (\<lambda>code. raiseS (translate_s3_error code))) (\<lambda>_.
        bindS (s3_delete_objects S k (drop DELETE_BATCH_SIZE ids)) (\<lambda>deleted.
          returnS (length batch + deleted))))"
  by pat_completeness auto
termination
  by (relation "measure (\<lambda>(S, k, ids). length ids)") (auto simp: DELETE_BATCH_SIZE_def)

declare s3_delete_objects.simps [simp del]

section \<open>Blobs\<close>

definition s3_object_exists :: "'w s3_store \<Rightarrow> object_kind \<Rightarrow> string \<Rightarrow> ('w, bool) sm" where
  "s3_object_exists S k object_id =
     (let probe = try_client (bindX (callX (sc_head (st_client S) (store_key S k object_id))) (\<lambda>_. returnX True))
            (\<lambda>code. if s3_is_404 code then returnS False else raiseS (translate_s3_error code))
      in case st_transfer S of
           Some T \<Rightarrow> if k = Blob then bt_exists T (s3_blob_uri S object_id) else probe
         | None \<Rightarrow> probe)"

definition s3_open_blob :: "'w s3_store \<Rightarrow> string \<Rightarrow> ('w, string) sm" where
  "s3_open_blob S h =
     try_client (bindX (callX (sc_get (st_client S) (store_key S Blob h))) (\<lambda>response. returnX (gb_body response)))
       (\<lambda>code. raiseS (translate_s3_error code))"

definition s3_read_blob_bytes :: "'w s3_store \<Rightarrow> string \<Rightarrow> ('w, string) sm" where
  "s3_read_blob_bytes S h =
     (case st_transfer S of
        Some T \<Rightarrow> bt_download T (s3_blob_uri S h)
      | None \<Rightarrow>
          try_client (bindX (callX (sc_get (st_client S) (store_key S Blob h))) (\<lambda>response. returnX (gb_body response)))
            (\<lambda>code. raiseS (translate_s3_error code)))"

definition transfer_up :: "'w s3_store \<Rightarrow> 'w blob_transfer \<Rightarrow> string \<Rightarrow> string \<Rightarrow> bool \<Rightarrow> ('w, unit) sm" where
  "transfer_up S T h source_file if_missing =
     bindS (if if_missing then s3_object_exists S Blob h else returnS False) (\<lambda>present.
       if present then returnS () else bt_upload T source_file (s3_blob_uri S h) if_missing)"

definition s3_write_blob_file :: "'w s3_store \<Rightarrow> string \<Rightarrow> string \<Rightarrow> bool \<Rightarrow> ('w, unit) sm" where
  "s3_write_blob_file S h source_file if_missing =
     (case st_transfer S of
        Some T \<Rightarrow> transfer_up S T h source_file if_missing
      | None \<Rightarrow>
          bindS (if if_missing \<and> length source_file > MULTIPART_THRESHOLD then s3_object_exists S Blob h
                 else returnS False) (\<lambda>present.
            if present then returnS ()
            else try_client (upload_file (st_client S) (store_key S Blob h) source_file if_missing)
                   (\<lambda>code. if if_missing \<and> s3_is_precondition_failed code then returnS ()
                           else raiseS (translate_s3_error code))))"

definition verify_blob :: "prims \<Rightarrow> string \<Rightarrow> string \<Rightarrow> unit res" where
  "verify_blob P h payload =
     (let actual = blake3 P payload in if actual \<noteq> h then Inl (BlobIntegrityError h actual) else Inr ())"

definition s3_stream_blob :: "prims \<Rightarrow> 'w s3_store \<Rightarrow> string \<Rightarrow> string \<Rightarrow> bool \<Rightarrow> ('w, unit) sm" where
  "s3_stream_blob P S h src if_missing =
     (case st_transfer S of
        Some T \<Rightarrow> bindS (liftS (verify_blob P h src)) (\<lambda>_. transfer_up S T h src if_missing)
      | None \<Rightarrow>
          try_client
            (upload_stream (st_client S) (store_key S Blob h) src None None (verify_blob P h) if_missing)
            (\<lambda>code. if if_missing \<and> s3_is_precondition_failed code then returnS ()
                    else raiseS (translate_s3_error code)))"

end
