(* ===== verification/Repo_Invariants.thy ===== *)
theory Repo_Invariants
  imports Repo_Ops
begin

text \<open>
  What every operation of the repository keeps. Blobs, footers and tree nodes are stored under
  their own digests and are never lost or changed, commits are never lost, and an operation
  moves no branch but the one it works on. \<open>moves P B m\<close> says so of an operation \<open>m\<close> that may move
  the branches of \<open>B\<close>; with \<open>B\<close> empty it leaves the commits alone too. The collection closes the
  property under the combinators, so each operation follows from its parts.
\<close>

section \<open>The invariant\<close>

definition objects_ok :: "prims \<Rightarrow> 'z repo_store_scheme \<Rightarrow> bool" where
  "objects_ok P s \<longleftrightarrow> store_ok P s \<and>
     (\<forall>h p. map_of (rs_blobs s) h = Some p \<longrightarrow> blake3 P p = h) \<and>
     (\<forall>h p. map_of (rs_footers s) h = Some p \<longrightarrow> blake3 P p = h)"

definition evolves :: "'z repo_store_scheme \<Rightarrow> 'z repo_store_scheme \<Rightarrow> bool" where
  "evolves s s' \<longleftrightarrow> ts_nodes s \<subseteq>\<^sub>m ts_nodes s' \<and> map_of (rs_blobs s) \<subseteq>\<^sub>m map_of (rs_blobs s') \<and>
     map_of (rs_footers s) \<subseteq>\<^sub>m map_of (rs_footers s') \<and> dom (map_of (rs_commits s)) \<subseteq> dom (map_of (rs_commits s'))"

lemma evolves_refl [simp]: "evolves s s"
  by (simp add: evolves_def)

lemma evolves_trans: "evolves s s' \<Longrightarrow> evolves s' s'' \<Longrightarrow> evolves s s''"
  by (auto simp: evolves_def intro: map_le_trans)

definition moves :: "prims \<Rightarrow> string set \<Rightarrow> ('z repo_store_scheme, 'a) sm \<Rightarrow> bool" where
  "moves P B m \<longleftrightarrow>
     (\<forall>s r s'. m s = (r, s') \<longrightarrow> objects_ok P s \<longrightarrow>
        objects_ok P s' \<and> evolves s s' \<and> (\<forall>b. b \<notin> B \<longrightarrow> ref_head s' b = ref_head s b) \<and>
        (B = {} \<longrightarrow> rs_refs s' = rs_refs s \<and> rs_commits s' = rs_commits s))"

named_theorems moves_intros

lemma movesD:
  assumes "moves P B m" "m s = (r, s')" "objects_ok P s"
  shows "objects_ok P s'" "evolves s s'" "b \<notin> B \<Longrightarrow> ref_head s' b = ref_head s b"
    "B = {} \<Longrightarrow> rs_refs s' = rs_refs s \<and> rs_commits s' = rs_commits s"
  using assms by (auto simp: moves_def)

lemma moves_mono: "moves P A m \<Longrightarrow> A \<subseteq> B \<Longrightarrow> moves P B m"
  by (fastforce simp: moves_def)

lemma moves_return [moves_intros]: "moves P B (returnS x)"
  by (simp add: moves_def)

lemma moves_raise [moves_intros]: "moves P B (raiseS e)"
  by (simp add: moves_def)

lemma moves_lift [moves_intros]: "moves P B (liftS r)"
  by (simp add: moves_def)

lemma moves_asks [moves_intros]: "moves P B (asksS f)"
  by (simp add: moves_def asksS_def)

lemma moves_bind [moves_intros]:
  assumes "moves P B m" and "\<And>x. moves P B (f x)"
  shows "moves P B (bindS m f)"
  unfolding moves_def
proof (intro allI impI)
  fix s r s' assume run: "bindS m f s = (r, s')" and ok: "objects_ok P s"
  obtain q s1 where m: "m s = (q, s1)" by fastforce
  note 1 = movesD [OF assms(1) m ok]
  show "objects_ok P s' \<and> evolves s s' \<and> (\<forall>b. b \<notin> B \<longrightarrow> ref_head s' b = ref_head s b) \<and>
      (B = {} \<longrightarrow> rs_refs s' = rs_refs s \<and> rs_commits s' = rs_commits s)"
  proof (cases q)
    case (Inl e)
    with run m 1 show ?thesis by simp
  next
    case (Inr x)
    with run m have "f x s1 = (r, s')" by simp
    note 2 = movesD [OF assms(2) this 1(1)]
    from 1 2 show ?thesis by (auto intro: evolves_trans)
  qed
qed

lemma moves_mapS [moves_intros]: "(\<And>x. moves P B (f x)) \<Longrightarrow> moves P B (mapS f xs)"
  by (induction xs) (auto intro!: moves_intros)

lemma moves_foldS [moves_intros]: "(\<And>t x. moves P B (f t x)) \<Longrightarrow> moves P B (foldS f t xs)"
  by (induction xs arbitrary: t) (auto intro!: moves_intros)

lemma moves_if [moves_intros]: "(b \<Longrightarrow> moves P B m) \<Longrightarrow> (\<not> b \<Longrightarrow> moves P B m') \<Longrightarrow> moves P B (if b then m else m')"
  by simp

lemma moves_option [moves_intros]:
  "moves P B m \<Longrightarrow> (\<And>x. moves P B (f x)) \<Longrightarrow> moves P B (case v of None \<Rightarrow> m | Some x \<Rightarrow> f x)"
  by (cases v) simp_all

lemma moves_prod [moves_intros]: "(\<And>x y. moves P B (f x y)) \<Longrightarrow> moves P B (case v of (x, y) \<Rightarrow> f x y)"
  by (cases v) simp

lemma moves_prod2 [moves_intros]: "(\<And>x y. moves P B (f x y z)) \<Longrightarrow> moves P B ((case v of (x, y) \<Rightarrow> f x y) z)"
  by (cases v) simp

lemma moves_list [moves_intros]:
  "moves P B m \<Longrightarrow> (\<And>x xs. moves P B (f x xs)) \<Longrightarrow> moves P B (case v of [] \<Rightarrow> m | x # xs \<Rightarrow> f x xs)"
  by (cases v) simp_all

lemma moves_let [moves_intros]: "(\<And>x. moves P B (f x)) \<Longrightarrow> moves P B (Let v f)"
  by (simp add: Let_def)

text \<open>An operation that starts from what it reads of the store.\<close>

lemma moves_state: "(\<And>s0. moves P B (f s0)) \<Longrightarrow> (\<And>s. m s = f s s) \<Longrightarrow> moves P B m"
  by (auto simp: moves_def)

lemma moves_keeps:
  assumes "keeps P (m :: ('z repo_store_scheme, 'a) sm)"
  shows "moves P B m"
proof (rule moves_mono)
  show "moves P {} m" unfolding moves_def
  proof (intro allI impI)
    fix s r and s' :: "'z repo_store_scheme"
    assume run: "m s = (r, s')" and ok: "objects_ok P s"
    then have "store_ok P s" by (simp add: objects_ok_def)
    note k = keepsD [OF assms run this]
    then have "tree_store.more s' = tree_store.more s" by (simp add: grows_def)
    then have "rs_blobs s' = rs_blobs s \<and> rs_footers s' = rs_footers s \<and> rs_refs s' = rs_refs s \<and> rs_commits s' = rs_commits s"
      by (cases s; cases s') simp
    with k ok show "objects_ok P s' \<and> evolves s s' \<and> (\<forall>b. b \<notin> {} \<longrightarrow> ref_head s' b = ref_head s b) \<and>
        ({} = {} \<longrightarrow> rs_refs s' = rs_refs s \<and> rs_commits s' = rs_commits s)"
      by (simp add: objects_ok_def evolves_def grows_def ref_head_def read_branch_ref_def)
  qed
qed simp

section \<open>Objects\<close>

lemmas moves_trees [moves_intros] =
  moves_keeps [OF keeps_write_tree_bytes] moves_keeps [OF keeps_build_children] moves_keeps [OF keeps_close_frames]
  moves_keeps [OF keeps_build_from_entries] moves_keeps [OF keeps_splice_tree] moves_keeps [OF keeps_prune_tree]
  moves_keeps [OF keeps_merge_trees]

lemma moves_overlay [moves_intros]: "moves P B (overlay_staged P n t adds removed)"
  unfolding overlay_staged_def by (rule moves_trees)

lemma map_le_put: "m k = None \<Longrightarrow> m \<subseteq>\<^sub>m m(k \<mapsto> v)"
  by (auto simp: map_le_def)

lemma moves_write_blob [moves_intros]: "moves P B (write_blob P h payload True)"
  by (auto simp: moves_def write_blob_def objects_ok_def evolves_def object_exists_def lookup_object_def store_ok_def
      ref_head_def read_branch_ref_def split: if_splits intro!: map_le_put)

lemma moves_capture_footer_stats [moves_intros]: "moves P B (capture_footer_stats P depth source)"
  by (auto simp: moves_def capture_footer_stats_def write_footer_file_def bindS_def Let_def objects_ok_def evolves_def
      object_exists_def lookup_object_def store_ok_def ref_head_def read_branch_ref_def
      split: if_splits sum.splits intro!: map_le_put)

lemma moves_store_blob [moves_intros]: "moves (ev_prims E) B (store_blob_from_source_uri E uri)"
proof (rule moves_state)
  show "moves (ev_prims E) B (bindS (liftS (open_source_uri (ev_world E) uri)) (\<lambda>payload.
         let digest = blake3 (ev_prims E) payload in
         if object_exists Blob s0 digest then returnS digest
         else bindS (write_blob (ev_prims E) digest payload True) (\<lambda>_. returnS digest)))"
    for s0 :: "'a repo_store_scheme" by (intro moves_intros)
qed (simp add: store_blob_from_source_uri_def)

lemma moves_capture_footer [moves_intros]: "moves (ev_prims E) B (capture_footer E uri)"
proof -
  let ?m = "bindS (liftS (open_source_uri (ev_world E) uri)) (capture_footer_stats (ev_prims E) (ev_depth E))"
  have m: "moves (ev_prims E) B ?m" by (intro moves_intros)
  show ?thesis unfolding moves_def
  proof (intro allI impI)
    fix s r and s' :: "'a repo_store_scheme"
    assume run: "capture_footer E uri s = (r, s')" and ok: "objects_ok (ev_prims E) s"
    show "objects_ok (ev_prims E) s' \<and> evolves s s' \<and> (\<forall>b. b \<notin> B \<longrightarrow> ref_head s' b = ref_head s b) \<and>
        (B = {} \<longrightarrow> rs_refs s' = rs_refs s \<and> rs_commits s' = rs_commits s)"
    proof (cases "\<not> ev_capture E \<or> \<not> suffix ''.parquet'' (ascii_lower uri)")
      case True
      with run ok show ?thesis by (auto simp: capture_footer_def)
    next
      case False
      with run have "\<exists>q. ?m s = (q, s')"
        by (auto simp: capture_footer_def split: prod.splits sum.splits if_splits)
      with movesD [OF m _ ok] show ?thesis by blast
    qed
  qed
qed

section \<open>Entries and the worktree\<close>

lemma moves_entry_from_working_path [moves_intros]:
  "moves (ev_prims E) B (entry_from_working_path E path mode store_blob)"
  unfolding entry_from_working_path_def Let_def by (intro moves_intros)

lemma moves_entry_from_source_uri [moves_intros]:
  "moves (ev_prims E) B (entry_from_source_uri E path uri mode store_blob)"
  unfolding entry_from_source_uri_def by (intro moves_intros)

lemma moves_entry_from_stage_change [moves_intros]:
  "moves (ev_prims E) B (entry_from_stage_change E c mode store_blob)"
  unfolding entry_from_stage_change_def by (intro moves_intros)

lemma moves_materialize_s3_entries [moves_intros]:
  "moves (ev_prims E) B (materialize_s3_entries E uri mode patterns)"
  unfolding materialize_s3_entries_def materialize_s3_object_def identity_of_object_def by (intro moves_intros)

lemma moves_capture_path_footer [moves_intros]: "moves (ev_prims E) B (capture_path_footer E path capture)"
  unfolding capture_path_footer_def by (intro moves_intros)

lemma moves_reuse [moves_intros]: "moves (ev_prims E) B (reuse_or_backfill_footer E e name path uri capture)"
  unfolding reuse_or_backfill_footer_def Let_def by (intro moves_intros)

lemma moves_new_file_line [moves_intros]: "moves (ev_prims E) B (new_file_line E f mode capture digests)"
  unfolding new_file_line_def Let_def by (intro moves_intros)

lemma moves_materialize [moves_intros]:
  "moves (ev_prims E) B (materialize_worktree_file E parents mode capture digests f)"
  unfolding materialize_worktree_file_def Let_def by (intro moves_intros)

lemma moves_parent_children [moves_intros]: "moves P B (parent_children P parent_tree dir_path adds)"
proof (rule moves_state)
  show "moves P B (bindS (liftS (parent_node (load P (ts_nodes s0)) parent_tree dir_path)) (\<lambda>(kvs, node_hash, known_hashes).
       let merged = put_all (case map_of adds dir_path of None \<Rightarrow> [] | Some extra \<Rightarrow> extra) kvs
       in returnS ((if merged = [] then None else Some merged, node_hash, known_hashes),
                   filter (\<lambda>da. fst da \<noteq> dir_path) adds)))"
    for s0 :: "'a repo_store_scheme" unfolding Let_def by (intro moves_intros)
qed (simp add: parent_children_def)

lemma moves_handle_directory [moves_intros]:
  "moves (ev_prims E) B (handle_directory E parent_tree root_parent mode capture b batch)"
  unfolding handle_directory_def open_frames_def push_frame_def directory_lines_def by (intro moves_intros)

lemma moves_build_worktree_tree [moves_intros]:
  "moves (ev_prims E) B (build_worktree_tree E parent_tree mode removed additions capture)"
  unfolding build_worktree_tree_def build_worktree_inner_def Let_def by (intro moves_intros)

section \<open>Refs and client state\<close>

lemma moves_client: "moves P B (\<lambda>s. (r s, s\<lparr>rs_client := f s\<rparr>))"
  by (simp add: moves_def objects_ok_def evolves_def store_ok_def)

lemma moves_read: "moves P B (\<lambda>s. (f s, s))"
  by (simp add: moves_def)

lemma moves_stage_save [moves_intros]: "moves P B (stage_save P' b staged)"
  using moves_client [of P B "\<lambda>s. Inr ()"
    "\<lambda>s. write_staging_payload b (if staged = [] then None else Some (encode_staged P' staged)) (rs_client s)"]
  by (simp add: stage_save_def [abs_def])

lemma moves_require_branch_state [moves_intros]: "moves P B (require_branch_state allow b)"
  unfolding moves_def
proof (intro allI impI)
  fix s r and s' :: "'a repo_store_scheme"
  assume "require_branch_state allow b s = (r, s')" "objects_ok P s"
  with require_branch_state_frame [of allow b s r s']
  show "objects_ok P s' \<and> evolves s s' \<and> (\<forall>b. b \<notin> B \<longrightarrow> ref_head s' b = ref_head s b) \<and>
      (B = {} \<longrightarrow> rs_refs s' = rs_refs s \<and> rs_commits s' = rs_commits s)"
    by (auto simp: objects_ok_def evolves_def store_ok_def)
qed

lemma moves_require_commit [moves_intros]: "moves P B (require_commit_for_metadata_mutation P' b)"
proof -
  have "require_commit_for_metadata_mutation P' b = bindS (require_branch_state False b) (\<lambda>c. asksS (\<lambda>s :: 'a repo_store_scheme.
      case c of None \<Rightarrow> Inl FileNotFoundError | Some i \<Rightarrow> if i = [] then Inl FileNotFoundError else fetch_commit P' s i))"
    unfolding require_commit_for_metadata_mutation_def
    by (rule arg_cong [of _ _ "bindS _"]) (auto simp: fun_eq_iff asksS_def split: option.splits)
  then show ?thesis by (simp only:) (intro moves_intros)
qed

lemma moves_update_branch_ref [moves_intros]: "b \<in> B \<Longrightarrow> moves P B (update_branch_ref now b new expd operation)"
  unfolding moves_def
proof (intro allI impI)
  fix s r and s' :: "'a repo_store_scheme"
  assume b: "b \<in> B" and run: "update_branch_ref now b new expd operation s = (r, s')" and ok: "objects_ok P s"
  have "ts_hashed s' = ts_hashed s" using run
    by (auto simp: update_branch_ref_def compare_and_set_cases bindS_def snapshot_def reflog_def
        split: if_splits option.splits sum.splits prod.splits)
  with update_branch_ref_frame [OF run] update_branch_ref_spec [OF run] ok b
  show "objects_ok P s' \<and> evolves s s' \<and> (\<forall>b. b \<notin> B \<longrightarrow> ref_head s' b = ref_head s b) \<and>
      (B = {} \<longrightarrow> rs_refs s' = rs_refs s \<and> rs_commits s' = rs_commits s)"
    by (auto simp: objects_ok_def evolves_def store_ok_def split: sum.splits)
qed

lemma moves_put_commit [moves_intros]: "b \<in> B \<Longrightarrow> moves P B (put_commit i payload)"
  by (auto simp: moves_def put_commit_def objects_ok_def evolves_def store_ok_def ref_head_def read_branch_ref_def)

lemma moves_write_commit_object [moves_intros]:
  assumes "b \<in> B"
  shows "moves P B (write_commit_object P' m now b message parent_commit parents0 tree_hash expd operation)"
proof (rule moves_state)
  let ?ps = "case parents0 of Some ps \<Rightarrow> ps | None \<Rightarrow> (case parent_commit of None \<Rightarrow> [] | Some p \<Rightarrow> if p = [] then [] else [p])"
  show "moves P B (bindS (liftS (generation_of P' m s0 ?ps)) (\<lambda>generation.
      bindS (put_commit (commit_id_of P' message tree_hash ?ps) (encode_commit P'
          \<lparr>c_id = commit_id_of P' message tree_hash ?ps, c_message = message, c_tree = tree_hash, c_parents = ?ps,
           c_created_at = now, c_generation = Some generation\<rparr>)) (\<lambda>_.
        bindS (update_branch_ref now b (Some (commit_id_of P' message tree_hash ?ps)) expd operation) (\<lambda>_.
          returnS (commit_id_of P' message tree_hash ?ps)))))"
    for s0 :: "'a repo_store_scheme" using assms by (intro moves_intros; assumption?)
qed (simp add: write_commit_object_def Let_def)

lemma moves_fast_forward [moves_intros]:
  assumes "b \<in> B"
  shows "moves P B (fast_forward_branch P' m n now b target operation)"
  unfolding fast_forward_branch_def using assms by (intro moves_intros moves_read; assumption?)

section \<open>The operations\<close>

lemma moves_branch_or_current [moves_intros]: "moves P B (branch_or_current ref)"
  unfolding branch_or_current_def by (intro moves_intros)

lemma moves_reads [moves_intros]:
  "moves P B (read_commitS E i)" "moves P B (resolve_refS ref)" "moves P B (lookupS E h path)"
  "moves P B (all_entriesS E h)" "moves P B (prefix_entriesS E h p)"
  unfolding read_commitS_def resolve_refS_def lookupS_def all_entriesS_def prefix_entriesS_def by (intro moves_intros)+

lemma moves_write_commitS [moves_intros]:
  "b \<in> B \<Longrightarrow> moves P B (write_commitS E b message parent_commit parents0 tree_hash expd operation)"
  unfolding write_commitS_def by (intro moves_intros)

lemma moves_repo_merge:
  assumes "target_ref \<in> B"
  shows "moves (ev_prims E) B (repo_merge E source_ref target_ref)"
  unfolding repo_merge_def merge_diverged_def Let_def using assms by (intro moves_intros; assumption?)

text \<open>The branches an operation may move: the one it is given, or any when it is to ask the client.\<close>

definition targets :: "string option \<Rightarrow> string set" where
  "targets ref = (if truthy ref then {the ref} else UNIV)"

lemma moves_with_branch [moves_intros]:
  assumes "\<And>b. b \<in> targets ref \<Longrightarrow> moves P (targets ref) (f b)"
  shows "moves P (targets ref) (bindS (branch_or_current ref) f)"
proof (cases "truthy ref")
  case True
  then have "bindS (branch_or_current ref) f = f (the ref)" by (intro ext) (simp add: branch_or_current_def)
  with assms True show ?thesis by (simp add: targets_def)
next
  case False
  with assms have "moves P (targets ref) (f b)" for b by (simp add: targets_def)
  then show ?thesis by (intro moves_bind moves_branch_or_current)
qed

lemma moves_repo_reset: "moves P (targets b0) (repo_reset E ref b0)"
  unfolding repo_reset_def by (intro moves_reads moves_bind moves_with_branch; intro moves_intros; assumption?)

lemma moves_retry:
  assumes "moves P B w" "moves P B again"
  shows "moves P B (\<lambda>s. case w s of
      (Inl e, s') \<Rightarrow> if c e then again s' else (Inl e, s')
    | (Inr x, s') \<Rightarrow> (Inr x, s'))"
  unfolding moves_def
proof (intro allI impI)
  fix s r s'
  assume run: "(case w s of (Inl e, s') \<Rightarrow> if c e then again s' else (Inl e, s') | (Inr x, s') \<Rightarrow> (Inr x, s')) = (r, s')"
    and ok: "objects_ok P s"
  obtain q s1 where q: "w s = (q, s1)" by fastforce
  note 1 = movesD [OF assms(1) q ok]
  show "objects_ok P s' \<and> evolves s s' \<and> (\<forall>b. b \<notin> B \<longrightarrow> ref_head s' b = ref_head s b) \<and>
      (B = {} \<longrightarrow> rs_refs s' = rs_refs s \<and> rs_commits s' = rs_commits s)"
  proof (cases "\<exists>e. q = Inl e \<and> c e")
    case True
    with run q have "again s1 = (r, s')" by auto
    from 1 movesD [OF assms(2) this 1(1)] show ?thesis by (auto intro: evolves_trans)
  next
    case False
    with run q have "s' = s1" by (auto split: sum.splits)
    with 1 show ?thesis by auto
  qed
qed

lemma moves_commit_tree [moves_intros]: "moves (ev_prims E) B (commit_tree E staged_only parent_tree additions removed)"
  unfolding commit_tree_def by (intro moves_intros)

lemma moves_parent_tree_of [moves_intros]: "moves P B (parent_tree_of E parent_commit)"
  unfolding parent_tree_of_def by (intro moves_intros)

lemma moves_commit_attempts [moves_intros]:
  "b \<in> B \<Longrightarrow> moves (ev_prims E) B (commit_attempts E b message staged_only additions removed k)"
proof (induction k)
  case (Suc k)
  from Suc.IH [OF Suc.prems] Suc.prems show ?case
    unfolding commit_attempts.simps by (intro moves_bind moves_retry; (intro moves_intros)?; assumption?)
qed (simp add: moves_raise)

lemma moves_materialize_additions [moves_intros]: "moves (ev_prims E) B (materialize_additions E staged)"
  unfolding materialize_additions_def by (intro moves_intros)

lemma moves_repo_commit: "moves (ev_prims E) UNIV (repo_commit E message staged_only)"
  unfolding repo_commit_def by (intro moves_intros UNIV_I)

lemma moves_stage [moves_intros]: "moves P B (load_stageS E b)" "moves P B (save_stageS E b staged)"
  unfolding load_stageS_def save_stageS_def by (intro moves_intros)+

lemma moves_staging:
  "moves P {} (repo_add E paths ref mode dst)" "moves P {} (repo_rm E paths ref)" "moves P {} (repo_move_staged E src dst' ref)"
  unfolding repo_add_def repo_rm_def repo_move_staged_def require_directory_destination_def Let_def
  by (intro moves_intros)+

lemma moves_repo_import_s3: "moves (ev_prims E) (targets ref) (repo_import_s3 E uri message mode patterns ref)"
  unfolding repo_import_s3_def Let_def by (intro moves_with_branch moves_if moves_raise; (intro moves_intros)?; assumption?)

lemma moves_repo_remove_paths: "moves (ev_prims E) (targets ref) (repo_remove_paths E paths message ref)"
  unfolding repo_remove_paths_def covered_paths_def Let_def
  by (intro moves_with_branch moves_if moves_raise; (intro moves_intros)?; assumption?)

lemma moves_repo_move: "moves (ev_prims E) (targets ref) (repo_move E src dst message ref)"
  unfolding repo_move_def require_directory_destination_def source_entries_def reject_collision_def Let_def
  by (intro moves_with_branch moves_if moves_raise; (intro moves_intros)?; assumption?)

lemma moves_promote_entry [moves_intros]: "moves (ev_prims E) B (promote_entry E e)"
  unfolding promote_entry_def by (intro moves_intros)

lemma moves_repo_verify: "moves (ev_prims E) UNIV (repo_verify E ref pres dry_run drift_check)"
  unfolding repo_verify_def promote_entries_def verify_scope_def Let_def by (intro moves_intros UNIV_I)

lemma moves_repo_audit: "moves P {} (repo_verify E ref pres True drift_check)"
  unfolding repo_verify_def verify_scope_def Let_def if_True by (intro moves_intros)

end
