(* ===== verification/Sync_Spec.thy ===== *)
theory Sync_Spec
  imports Sync Repo_Invariants
begin

text \<open>
  What push, pull and fetch do (\<open>core/repository_sync.py\<close>). A plan is exact: it lists every object
  the commits reach and the destination lacks, once. Copying keeps the source and only adds objects
  of the source to the destination. The three operations are proved step by step with the rules of
  \<open>runs\<close>: whatever happens no object is lost and no other branch moves; a run that raises moves no
  branch; and when the branch was moved, the destination has everything the new head reaches,
  provided that the commits it had before were complete.
\<close>

section \<open>Objects\<close>

lemma lookup_put_object [simp]:
  "lookup_object k' (put_object k i payload s) j = (if k' = k \<and> j = i then Some payload else lookup_object k' s j)"
  by (cases k; cases k') (auto simp: put_object_def lookup_object_def)

lemma put_object_refs [simp]:
  "k \<noteq> Ref \<Longrightarrow> rs_refs (put_object k i payload s) = rs_refs s"
  "rs_client (put_object k i payload s) = rs_client s"
  by (cases k; simp add: put_object_def)+

text \<open>What a destination may have gained from a source; it has lost nothing and moved no branch.\<close>

definition received ::
  "'y repo_store_scheme \<Rightarrow> 'z repo_store_scheme \<Rightarrow> 'z repo_store_scheme \<Rightarrow> bool" where
  "received src dst dst' \<longleftrightarrow>
     (\<forall>k i. k \<noteq> Ref \<longrightarrow> lookup_object k dst' i = lookup_object k dst i \<or>
        lookup_object k dst' i = lookup_object k src i \<and> lookup_object k src i \<noteq> None) \<and>
     rs_refs dst' = rs_refs dst \<and> rs_client dst' = rs_client dst"

lemma received_refl: "received src dst dst"
  by (simp add: received_def)

lemma received_trans: "received src d d' \<Longrightarrow> received src d' d'' \<Longrightarrow> received src d d''"
  unfolding received_def by metis

lemma received_kept: "received src d d' \<Longrightarrow> k \<noteq> Ref \<Longrightarrow> lookup_object k d i \<noteq> None \<Longrightarrow> lookup_object k d' i \<noteq> None"
  unfolding received_def by metis

lemma received_put:
  "k \<noteq> Ref \<Longrightarrow> lookup_object k src i = Some payload \<Longrightarrow> received src d (put_object k i payload d)"
  by (auto simp: received_def)

section \<open>Plans\<close>

definition objects_from :: "prims \<Rightarrow> 'z repo_store_scheme \<Rightarrow> string set \<Rightarrow> object_kind \<Rightarrow> string set" where
  "objects_from P s C k =
     (let trees = reach (tree_kids (load P (ts_nodes s))) {c_tree c | i c. i \<in> C \<and> fetch_commit P s i = Inr c};
          leaves = {e. \<not> is_subtree e \<and> (\<exists>h \<in> trees. \<exists>es. load P (ts_nodes s) h = Inr (Some es) \<and> e \<in> set es)}
      in case k of
           Commit \<Rightarrow> C
         | Tree \<Rightarrow> trees
         | Blob \<Rightarrow> {h. h \<noteq> [] \<and> (\<exists>e \<in> leaves. blob_hash e = Some h)}
         | Footer \<Rightarrow> {h. h \<noteq> [] \<and> (\<exists>e \<in> leaves. e_footer e = Some h)}
         | Ref \<Rightarrow> {})"

text \<open>A set of commits reaches what its commits reach.\<close>

lemma reach_UNION: "reach kids (\<Union>i \<in> C. A i) = (\<Union>i \<in> C. reach kids (A i))"
  by (auto simp: reach_def)

lemma objects_from_each:
  assumes "x \<in> objects_from P s C k"
  shows "\<exists>i \<in> C. x \<in> objects_from P s {i} k"
proof -
  let ?T = "\<lambda>i. {c_tree c | c. fetch_commit P s i = Inr c}"
  have trees: "{c_tree c | i c. i \<in> C \<and> fetch_commit P s i = Inr c} = (\<Union>i \<in> C. ?T i)" for C by auto
  show ?thesis using assms
    by (cases k) (auto simp: objects_from_def Let_def trees reach_UNION)
qed

lemma objects_from_mono:
  assumes "C \<subseteq> D"
  shows "objects_from P s C k \<subseteq> objects_from P s D k"
proof -
  let ?L = "tree_kids (load P (ts_nodes s))"
  have "reach ?L {c_tree c | i c. i \<in> C \<and> fetch_commit P s i = Inr c} \<subseteq>
      reach ?L {c_tree c | i c. i \<in> D \<and> fetch_commit P s i = Inr c}"
    using assms by (intro reach_mono) blast
  with assms show ?thesis by (cases k) (auto simp: objects_from_def Let_def)
qed

lemma set_missing_ids: "set (missing_ids s k ids) = {i \<in> set ids. lookup_object k s i = None}"
  by (auto simp: missing_ids_def iter_object_ids_def object_exists_def Let_def)

lemma distinct_missing_ids: "distinct (missing_ids s k ids)"
  by (simp add: missing_ids_def Let_def)

lemma collect_candidates_spec:
  assumes "collect_candidates P m src ids = Inr cand"
  shows "set (cand k) = objects_from P src (set ids) k"
proof -
  let ?L = "load P (ts_nodes src)"
  from assms obtain st leaves where
    run: "foldE (visit_state (visit_commit P src ?L m)) ([], []) ids = Inr st" "node_leaves ?L (snd st) = Inr leaves"
    and cand: "cand = (\<lambda>k. case k of Commit \<Rightarrow> ids | Tree \<Rightarrow> snd st | Blob \<Rightarrow> given (map blob_hash leaves)
                  | Footer \<Rightarrow> given (map e_footer leaves) | Ref \<Rightarrow> [])"
    by (auto simp: collect_candidates_def Let_def bindE_Inr_iff)
  have "closed_under (tree_kids ?L) (set (fst ([], [])))" by (simp add: closed_under_def)
  from fold_visit_commit(1) [OF run(1) this]
  have trees: "set (snd st) = reach (tree_kids ?L) {c_tree c | i c. i \<in> set ids \<and> fetch_commit P src i = Inr c}"
    by simp
  have leaves: "set leaves = {e. \<not> is_subtree e \<and> (\<exists>h \<in> set (snd st). \<exists>es. ?L h = Inr (Some es) \<and> e \<in> set es)}"
    by (rule node_leaves_set [OF run(2)])
  have "objects_from P src (set ids) k =
      (case k of Commit \<Rightarrow> set ids | Tree \<Rightarrow> set (snd st)
       | Blob \<Rightarrow> {h. h \<noteq> [] \<and> (\<exists>e \<in> set leaves. blob_hash e = Some h)}
       | Footer \<Rightarrow> {h. h \<noteq> [] \<and> (\<exists>e \<in> set leaves. e_footer e = Some h)} | Ref \<Rightarrow> {})"
    unfolding leaves trees by (simp only: objects_from_def Let_def)
  then show ?thesis
    by (cases k) (auto simp: cand set_given intro: rev_image_eqI)
qed

definition item_key :: "transfer_item \<Rightarrow> object_kind \<times> string" where
  "item_key x = (ti_kind x, ti_id x)"

lemma build_plan_spec:
  assumes "build_plan E D dir src dst ids = Inr plan"
  shows "set (map item_key (tp_items plan)) =
      {(k, i). k \<noteq> Ref \<and> i \<in> objects_from (ev_prims E) src (set ids) k \<and> lookup_object k dst i = None}"
    and "distinct (map item_key (tp_items plan))" and "tp_direction plan = dir" and "en_kind D = LocalStore"
proof -
  from assms obtain cand where cand: "collect_candidates (ev_prims E) (ev_tree E) src ids = Inr cand"
    and plan: "plan = \<lparr>tp_direction = dir, tp_items = missing_items D dst cand\<rparr>" and kind: "en_kind D = LocalStore"
    by (auto simp: build_plan_def bindE_Inr_iff require_local_path_def split: store_kind.splits)
  let ?ids = "\<lambda>k. sort (missing_ids dst k (cand k))"
  have items: "map item_key (tp_items plan) = concat (map (\<lambda>k. map (Pair k) (?ids k)) [Commit, Tree, Blob, Footer])"
    by (simp add: plan missing_items_def item_key_def plan_item_def comp_def)
  have ids: "set (?ids k) = {i. i \<in> objects_from (ev_prims E) src (set ids) k \<and> lookup_object k dst i = None}" for k
    using collect_candidates_spec [OF cand, of k] by (simp add: set_missing_ids)
  have kinds: "k \<noteq> Ref \<longleftrightarrow> k \<in> {Commit, Tree, Blob, Footer}" for k by (cases k) auto
  show "set (map item_key (tp_items plan)) =
      {(k, i). k \<noteq> Ref \<and> i \<in> objects_from (ev_prims E) src (set ids) k \<and> lookup_object k dst i = None}"
    unfolding items kinds using ids by auto
  have "distinct (map (Pair k) (?ids k))" for k
    by (simp add: distinct_map distinct_missing_ids inj_on_def)
  then show "distinct (map item_key (tp_items plan))" unfolding items by auto
  show "tp_direction plan = dir" "en_kind D = LocalStore" using plan kind by simp_all
qed

section \<open>Copying\<close>

text \<open>
  What a run of copies does: the source is as it was, the destination has received objects of the
  source, and after success every item of the plan that the source has is there.
\<close>

definition copies ::
  "direction \<Rightarrow> transfer_item list \<Rightarrow> (('y, 'z) both, 'a) sm \<Rightarrow> bool" where
  "copies dir xs m \<longleftrightarrow>
     (\<forall>l r res l' r'. m (l, r) = (res, (l', r')) \<longrightarrow>
        (case dir of
           Upload \<Rightarrow> l' = l \<and> received l r r' \<and>
             (\<forall>v. res = Inr v \<longrightarrow> (\<forall>x \<in> set xs. lookup_object (ti_kind x) r' (ti_id x) \<noteq> None))
         | Download \<Rightarrow> r' = r \<and> received r l l' \<and>
             (\<forall>v. res = Inr v \<longrightarrow> (\<forall>x \<in> set xs. lookup_object (ti_kind x) r (ti_id x) \<noteq> None \<longrightarrow>
                lookup_object (ti_kind x) l' (ti_id x) \<noteq> None))))"

lemma copies_Upload:
  assumes "copies Upload xs m" "m (l, r) = (res, (l', r'))"
  shows "l' = l" "received l r r'"
    "res = Inr v \<Longrightarrow> x \<in> set xs \<Longrightarrow> lookup_object (ti_kind x) r' (ti_id x) \<noteq> None"
  using assms by (auto simp: copies_def)

lemma copies_Download:
  assumes "copies Download xs m" "m (l, r) = (res, (l', r'))"
  shows "r' = r" "received r l l'"
    "res = Inr v \<Longrightarrow> x \<in> set xs \<Longrightarrow> lookup_object (ti_kind x) r (ti_id x) \<noteq> None \<Longrightarrow>
       lookup_object (ti_kind x) l' (ti_id x) \<noteq> None"
  using assms by (auto simp: copies_def)

text \<open>A write of one object: it stores the payload, or finds the object there, or fails.\<close>

definition stores_one :: "object_kind \<Rightarrow> string \<Rightarrow> string \<Rightarrow> ('z repo_store_scheme, unit) sm \<Rightarrow> bool" where
  "stores_one k i payload m \<longleftrightarrow>
     (\<forall>s. m s = (Inr (), put_object k i payload s) \<or> (m s = (Inr (), s) \<and> lookup_object k s i \<noteq> None) \<or>
        (\<exists>e. m s = (Inl e, s)))"

lemma stores_one_write_missing: "stores_one k i payload (write_missing k i payload)"
  by (auto simp: stores_one_def write_missing_def object_exists_def)

lemma stores_one_commit: "stores_one Commit i payload (write_new_commit i payload)"
  by (auto simp: stores_one_def write_new_commit_def)

lemma stores_one_s3_blob: "stores_one Blob i payload (s3_write_blob_stream P backend i payload)"
  by (auto simp: stores_one_def s3_write_blob_stream_def object_exists_def Let_def)

lemma stores_one_blob: "stores_one Blob i payload (write_blob P i payload True)"
  by (auto simp: stores_one_def write_blob_def object_exists_def put_object_def)

lemma stores_one_run:
  assumes "stores_one k i payload m" "m s = (res, s')" "lookup_object k src i = Some payload" "k \<noteq> Ref"
  shows "received src s s'" "res = Inr v \<Longrightarrow> lookup_object k s' i \<noteq> None"
proof -
  from assms(1) have "m s = (Inr (), put_object k i payload s) \<or> (m s = (Inr (), s) \<and> lookup_object k s i \<noteq> None) \<or>
        (\<exists>e. m s = (Inl e, s))" unfolding stores_one_def by blast
  with assms(2) consider (put) "s' = put_object k i payload s" | (there) "s' = s" "lookup_object k s i \<noteq> None"
    | (failed) e where "res = Inl e" "s' = s" by auto
  then have "received src s s' \<and> (\<forall>v. res = Inr v \<longrightarrow> lookup_object k s' i \<noteq> None)"
    by cases (use assms(3,4) in \<open>simp_all add: received_put received_refl\<close>)
  then show "received src s s'" "res = Inr v \<Longrightarrow> lookup_object k s' i \<noteq> None" by blast+
qed

lemma copies_upload_item:
  assumes "ti_kind x \<noteq> Ref"
  shows "copies Upload [x] (upload_item P backend x :: (('y, 'z) both, unit) sm)"
proof -
  let ?k = "ti_kind x" and ?i = "ti_id x"
  have "l' = l \<and> received l r r' \<and> (\<forall>v. res = Inr v \<longrightarrow> lookup_object ?k r' ?i \<noteq> None)"
    if run: "upload_item P backend x (l, r) = (res, (l', r'))"
    for l l' :: "'y repo_store_scheme" and r r' :: "'z repo_store_scheme" and res
  proof (cases "lookup_object ?k l ?i")
    case None
    with run show ?thesis by (auto simp: upload_item_def received_refl)
  next
    case (Some payload)
    define m :: "('z repo_store_scheme, unit) sm" where "m = (case ?k of
               Blob \<Rightarrow> s3_write_blob_stream P backend ?i payload
             | Tree \<Rightarrow> write_missing Tree ?i payload
             | Footer \<Rightarrow> write_missing Footer ?i payload
             | _ \<Rightarrow> write_new_commit ?i payload)"
    have one: "stores_one ?k ?i payload m" using assms
      by (cases ?k) (simp_all add: m_def stores_one_write_missing stores_one_commit stores_one_s3_blob)
    from run Some have "l' = l" "m r = (res, r')"
      by (auto simp: upload_item_def on_remote_def m_def split: prod.splits)
    with stores_one_run [OF one _ Some assms] show ?thesis by blast
  qed
  then show ?thesis by (auto simp: copies_def)
qed

lemma copies_download_item:
  assumes "ti_kind x \<noteq> Ref"
  shows "copies Download [x] (download_item P x :: (('y, 'z) both, unit) sm)"
proof -
  let ?k = "ti_kind x" and ?i = "ti_id x"
  have "r' = r \<and> received r l l' \<and>
      (\<forall>v. res = Inr v \<longrightarrow> lookup_object ?k r ?i \<noteq> None \<longrightarrow> lookup_object ?k l' ?i \<noteq> None)"
    if run: "download_item P x (l, r) = (res, (l', r'))"
    for l l' :: "'y repo_store_scheme" and r r' :: "'z repo_store_scheme" and res
  proof (cases "lookup_object ?k r ?i")
    case None
    with run show ?thesis by (auto simp: download_item_def received_refl)
  next
    case (Some payload)
    define m :: "('y repo_store_scheme, unit) sm" where "m = (case ?k of
               Blob \<Rightarrow> write_blob P ?i payload True
             | Tree \<Rightarrow> write_missing Tree ?i payload
             | Footer \<Rightarrow> write_missing Footer ?i payload
             | _ \<Rightarrow> write_new_commit ?i payload)"
    have one: "stores_one ?k ?i payload m" using assms
      by (cases ?k) (simp_all add: m_def stores_one_write_missing stores_one_commit stores_one_blob)
    from run Some have "r' = r" "m l = (res, l')"
      by (auto simp: download_item_def on_local_def m_def split: prod.splits)
    with stores_one_run [OF one _ Some assms] show ?thesis by blast
  qed
  then show ?thesis by (auto simp: copies_def)
qed

lemma copies_copy_item: "ti_kind x \<noteq> Ref \<Longrightarrow> copies dir [x] (copy_item P backend dir x)"
  by (cases dir) (simp_all add: copy_item_def [abs_def] copies_upload_item copies_download_item)

lemma copies_bind:
  fixes m :: "(('y, 'z) both, 'a) sm" and f :: "'a \<Rightarrow> (('y, 'z) both, 'b) sm"
  assumes m: "copies dir xs m" and f: "\<And>v. copies dir ys (f v)" and kinds: "\<forall>x \<in> set xs. ti_kind x \<noteq> Ref"
  shows "copies dir (xs @ ys) (bindS m f)"
  unfolding copies_def
proof (intro allI impI)
  fix l r res l' r'
  assume run: "bindS m f (l, r) = (res, (l', r'))"
  obtain q l1 r1 where 1: "m (l, r) = (q, (l1, r1))" by (metis surj_pair)
  show "case dir of
           Upload \<Rightarrow> l' = l \<and> received l r r' \<and>
             (\<forall>v. res = Inr v \<longrightarrow> (\<forall>x \<in> set (xs @ ys). lookup_object (ti_kind x) r' (ti_id x) \<noteq> None))
         | Download \<Rightarrow> r' = r \<and> received r l l' \<and>
             (\<forall>v. res = Inr v \<longrightarrow> (\<forall>x \<in> set (xs @ ys). lookup_object (ti_kind x) r (ti_id x) \<noteq> None \<longrightarrow>
                lookup_object (ti_kind x) l' (ti_id x) \<noteq> None))"
  proof (cases q)
    case (Inl e)
    with run 1 have "res = Inl e" "l' = l1" "r' = r1" by simp_all
    with copies_Upload [where m = m, OF _ 1] copies_Download [where m = m, OF _ 1] m show ?thesis by (auto split: direction.splits)
  next
    case (Inr v)
    with run 1 have 2: "f v (l1, r1) = (res, (l', r'))" by simp
    show ?thesis
    proof (cases dir)
      case Upload
      note a = copies_Upload [OF m [unfolded Upload] 1] and b = copies_Upload [OF f [of v, unfolded Upload] 2]
      have "lookup_object (ti_kind x) r' (ti_id x) \<noteq> None" if "x \<in> set xs" for x
        using received_kept [OF b(2)] a(3) [OF Inr that] kinds that by blast
      with a b show ?thesis using received_trans Upload by auto
    next
      case Download
      note a = copies_Download [OF m [unfolded Download] 1] and b = copies_Download [OF f [of v, unfolded Download] 2]
      have "lookup_object (ti_kind x) l' (ti_id x) \<noteq> None"
        if "x \<in> set xs" "lookup_object (ti_kind x) r (ti_id x) \<noteq> None" for x
        using received_kept [OF b(2)] a(3) [OF Inr that] kinds that(1) by blast
      with a b show ?thesis using received_trans Download by auto
    qed
  qed
qed

lemma copies_return: "copies dir [] (returnS v)"
  by (auto simp: copies_def received_refl split: direction.splits)

lemma copies_mapS:
  "\<forall>x \<in> set xs. ti_kind x \<noteq> Ref \<Longrightarrow>
     copies dir xs (mapS (copy_item P backend dir) xs :: (('y, 'z) both, unit list) sm)"
proof (induction xs)
  case Nil
  show ?case unfolding mapS.simps by (rule copies_return)
next
  case (Cons x xs)
  then have rest: "copies dir (xs @ []) (bindS (mapS (copy_item P backend dir) xs)
      (\<lambda>ys. returnS (y # ys)) :: (('y, 'z) both, unit list) sm)" for y
    by (intro copies_bind copies_return) simp_all
  have first: "copies dir [x] (copy_item P backend dir x :: (('y, 'z) both, unit) sm)"
    using Cons.prems by (simp add: copies_copy_item)
  have "copies dir ([x] @ xs) (mapS (copy_item P backend dir) (x # xs) :: (('y, 'z) both, unit list) sm)"
    unfolding mapS.simps by (rule copies_bind [OF first]) (use Cons.prems rest in \<open>simp_all only: append_Nil2 list.set, simp_all\<close>)
  then show ?case by simp
qed

text \<open>What a batch program is trusted with.\<close>

definition backend_ok :: "('y, 'z) backend \<Rightarrow> bool" where
  "backend_ok backend \<longleftrightarrow>
     (\<forall>transfer plan. backend = Batch transfer \<longrightarrow> (\<forall>x \<in> set (tp_items plan). ti_kind x \<noteq> Ref) \<longrightarrow>
        copies (tp_direction plan) (tp_items plan) (transfer plan))"

lemma copies_execute:
  assumes "backend_ok backend" "\<forall>x \<in> set (tp_items plan). ti_kind x \<noteq> Ref"
  shows "copies (tp_direction plan) (tp_items plan) (execute_transfer_plan P backend plan)"
proof (cases "tp_items plan = []")
  case True
  then show ?thesis by (simp add: execute_transfer_plan_def [abs_def] copies_return)
next
  case items: False
  have run: "copies (tp_direction plan) (tp_items plan @ [])
      (bindS (mapS (copy_item P b (tp_direction plan)) (tp_items plan)) (\<lambda>_. returnS n))" for b and n :: nat
    using assms(2) by (intro copies_bind copies_mapS copies_return)
  show ?thesis
  proof (cases backend)
    case (Batch transfer)
    with items assms show ?thesis by (simp add: execute_transfer_plan_def backend_ok_def)
  qed (use items run in \<open>simp_all add: execute_transfer_plan_def\<close>)
qed

section \<open>What is planned covers what is reached\<close>

interpretation history_walk: dag_visit "visit_history P s" "commit_kids P s" for P s
  by unfold_locales (auto simp: visit_history_def commit_kids_def bindE_Inr_iff)

lemma by_generation_set:
  assumes "by_generation E s ids = Inr cs"
  shows "set cs = set ids"
proof -
  let ?f = "\<lambda>i. bindE (gen_of (commit_reader (ev_prims E) s) (ev_history E) Map.empty i) (\<lambda>(g, memo). Inr (g, i))"
  have "mapE ?f ids = Inr kis \<Longrightarrow> map snd kis = ids" for kis
    by (induction ids arbitrary: kis) (auto simp: bindE_Inr_iff)
  with assms show ?thesis by (fastforce simp: by_generation_def bindE_Inr_iff)
qed

lemma collect_commits_spec:
  assumes "collect_commits_to_push E src dst tip = Inr cs"
  shows "set cs = {i \<in> reach (commit_kids (ev_prims E) src) {tip}. lookup_object Commit dst i = None}"
proof -
  from assms obtain reachable u where
    walk: "mark_loop (visit_history (ev_prims E) src) (ev_walk E) [] () [tip] = Inr (reachable, u)"
    and cs: "by_generation E src (missing_ids dst Commit reachable) = Inr cs"
    by (auto simp: collect_commits_to_push_def bindE_Inr_iff)
  have "closed_under (commit_kids (ev_prims E) src) (set [])" by (simp add: closed_under_def)
  from history_walk.mark_spec(2) [OF walk this] show ?thesis
    using by_generation_set [OF cs] by (simp add: set_missing_ids)
qed

text \<open>
  The missing objects of the missing commits are all that is missing, when the commits that are
  there are complete. \<open>Q\<close> says which objects the copies could deliver.
\<close>

definition complete_at :: "prims \<Rightarrow> 'y repo_store_scheme \<Rightarrow> 'z repo_store_scheme \<Rightarrow> string set \<Rightarrow> bool" where
  "complete_at P src dst C \<longleftrightarrow>
     (\<forall>i \<in> C. lookup_object Commit dst i \<noteq> None \<longrightarrow>
        (\<forall>k. \<forall>x \<in> objects_from P src {i} k. lookup_object k dst x \<noteq> None))"

lemma transfer_complete:
  assumes "complete_at P src dst C" "received src dst dst'"
    and "\<And>k x. k \<noteq> Ref \<Longrightarrow> x \<in> objects_from P src {i \<in> C. lookup_object Commit dst i = None} k \<Longrightarrow>
      lookup_object k dst x = None \<Longrightarrow> Q k x \<Longrightarrow> lookup_object k dst' x \<noteq> None"
    and "x \<in> objects_from P src C k" "Q k x"
  shows "lookup_object k dst' x \<noteq> None"
proof -
  from assms(4) have k: "k \<noteq> Ref" by (auto simp: objects_from_def Let_def)
  obtain i where i: "i \<in> C" "x \<in> objects_from P src {i} k" using objects_from_each [OF assms(4)] by blast
  show ?thesis
  proof (cases "lookup_object Commit dst i = None")
    case True
    with i have "x \<in> objects_from P src {i \<in> C. lookup_object Commit dst i = None} k"
      using objects_from_mono [of "{i}" "{i \<in> C. lookup_object Commit dst i = None}" P src k] by blast
    with assms(3) [OF k this] assms(5) received_kept [OF assms(2) k] show ?thesis by blast
  next
    case False
    with assms(1) i have "lookup_object k dst x \<noteq> None" by (auto simp: complete_at_def)
    with received_kept [OF assms(2) k] show ?thesis by blast
  qed
qed

section \<open>Branches\<close>

text \<open>A step that moves no head and touches no object.\<close>

definition quiet :: "'z repo_store_scheme \<Rightarrow> 'z repo_store_scheme \<Rightarrow> bool" where
  "quiet s s' \<longleftrightarrow> (\<forall>c. ref_head s' c = ref_head s c) \<and> (\<forall>k. k \<noteq> Ref \<longrightarrow> lookup_object k s' = lookup_object k s)"

lemma quiet_refl [simp]: "quiet s s"
  by (simp add: quiet_def)

lemma quiet_trans: "quiet s s' \<Longrightarrow> quiet s' s'' \<Longrightarrow> quiet s s''"
  by (simp add: quiet_def)

lemma lookup_client [simp]: "lookup_object k (s\<lparr>rs_client := cl\<rparr>) = lookup_object k s"
  by (rule ext) (cases k; simp add: lookup_object_def)

lemma lookup_refs [simp]: "k \<noteq> Ref \<Longrightarrow> lookup_object k (s\<lparr>rs_refs := rf\<rparr>) = lookup_object k s"
  by (rule ext) (cases k; simp add: lookup_object_def)

lemma quiet_client: "quiet s (s\<lparr>rs_client := cl\<rparr>)"
  by (simp add: quiet_def)

lemma fetch_quiet: "quiet s s' \<Longrightarrow> fetch_commit P s' = fetch_commit P s"
proof
  fix i assume "quiet s s'"
  then have "lookup_object Commit s' i = lookup_object Commit s i" by (simp add: quiet_def)
  then show "fetch_commit P s' i = fetch_commit P s i" by (simp add: fetch_commit_def lookup_object_def)
qed

lemma objects_from_quiet: "quiet s s' \<Longrightarrow> objects_from P s' = objects_from P s"
proof (intro ext)
  fix C k assume q: "quiet s s'"
  then have "lookup_object Tree s' = lookup_object Tree s" by (simp add: quiet_def)
  then have "ts_nodes s' = ts_nodes s" by (simp add: fun_eq_iff lookup_object_def)
  then show "objects_from P s' C k = objects_from P s C k"
    by (simp only: objects_from_def fetch_quiet [OF q])
qed

lemma store_cas_run:
  assumes "store_cas kind b new expd s = (r, s')"
  shows "(r = Inr True \<and> ref_head s b = expd \<and> ref_head s' b = stored_head new \<and>
       (\<forall>c. c \<noteq> b \<longrightarrow> ref_head s' c = ref_head s c) \<and> (\<forall>k. k \<noteq> Ref \<longrightarrow> lookup_object k s' = lookup_object k s)) \<or>
     r \<noteq> Inr True \<and> s' = s"
proof (cases "r = Inr True")
  case True
  show ?thesis
  proof (cases kind)
    case LocalStore
    with assms True have run: "compare_and_set_branch_ref b new expd s = (Inr True, s')" by (simp add: store_cas_def)
    then have "\<exists>rf. s' = s\<lparr>rs_refs := rf\<rparr>" by (auto simp: compare_and_set_cases split: if_splits)
    with local_refs.cas_won [OF run] True show ?thesis by auto
  next
    case S3Store
    with assms True have run: "s3_compare_and_set_branch_ref b new expd s = (Inr True, s')" by (simp add: store_cas_def)
    then have "s' = put_object Ref b (ref_payload new) s"
      by (auto simp: s3_compare_and_set_branch_ref_def split: if_splits)
    with s3_refs.cas_won [OF run] True show ?thesis by (auto simp: fun_eq_iff)
  qed
next
  case False
  with assms show ?thesis
    using local_refs.cas_lost [of b new expd s r s'] s3_refs.cas_lost [of b new expd s r s']
    by (cases kind) (simp_all add: store_cas_def)
qed

lemma snapshot_quiet: "snapshot b s = (r, s') \<Longrightarrow> r = Inr () \<and> (\<exists>cl. s' = s\<lparr>rs_client := cl\<rparr>)"
  using snapshot_run [of b s] by auto

lemma store_update_run:
  assumes "store_update_branch_ref kind now b new expd operation s = (r, s')"
  shows "(\<forall>k. k \<noteq> Ref \<longrightarrow> lookup_object k s' = lookup_object k s) \<and>
    (case r of
       Inr _ \<Rightarrow> ref_head s b = expd \<and> ref_head s' b = stored_head new \<and> (\<forall>c. c \<noteq> b \<longrightarrow> ref_head s' c = ref_head s c)
     | Inl e \<Rightarrow> \<forall>c. ref_head s' c = ref_head s c)"
proof -
  obtain q s1 where 1: "store_cas kind b new expd s = (q, s1)" by fastforce
  obtain q2 s2 where 2: "snapshot b s1 = (q2, s2)" by fastforce
  from snapshot_quiet [OF 2] obtain cl where cl: "q2 = Inr ()" "s2 = s1\<lparr>rs_client := cl\<rparr>" by blast
  from store_cas_run [OF 1] show ?thesis
  proof
    assume "q = Inr True \<and> ref_head s b = expd \<and> ref_head s1 b = stored_head new \<and>
       (\<forall>c. c \<noteq> b \<longrightarrow> ref_head s1 c = ref_head s c) \<and> (\<forall>k. k \<noteq> Ref \<longrightarrow> lookup_object k s1 = lookup_object k s)"
    with assms 1 2 cl show ?thesis by (auto simp: store_update_branch_ref_def reflog_def)
  next
    assume "q \<noteq> Inr True \<and> s1 = s"
    with assms 1 2 cl show ?thesis
      by (cases q) (auto simp: store_update_branch_ref_def)
  qed
qed

lemma store_fast_forward_run:
  assumes run: "store_fast_forward kind P m n now b target operation s = (r, s')"
  shows "(\<forall>k. k \<noteq> Ref \<longrightarrow> lookup_object k s' = lookup_object k s) \<and>
    (if r = Inr True then ref_head s' b = stored_head (Some target) \<and> (\<forall>c. c \<noteq> b \<longrightarrow> ref_head s' c = ref_head s c)
     else \<forall>c. ref_head s' c = ref_head s c)"
proof -
  obtain q s1 where 1: "require_branch_state False b s = (q, s1)" by fastforce
  obtain cl where cl: "s1 = s\<lparr>rs_client := cl\<rparr>" using require_branch_state_frame [OF 1] by blast
  consider (same) "s' = s1" "r \<noteq> Inr True"
    | (updates) q' current where "store_update_branch_ref kind now b (Some target) current operation s1 = (q', s')"
        "r = (case q' of Inl e \<Rightarrow> Inl e | Inr _ \<Rightarrow> Inr True)"
  proof (cases q)
    case (Inl e)
    with run 1 that(1) show ?thesis by (auto simp: store_fast_forward_def)
  next
    case (Inr current)
    show ?thesis
    proof (cases "current = Some target")
      case True
      with run 1 Inr that(1) show ?thesis by (auto simp: store_fast_forward_def)
    next
      case False
      let ?check = "case current of None \<Rightarrow> Inr ()
          | Some c \<Rightarrow> if c = [] then Inr () else bindE (is_ancestor P m n s1 c target) (\<lambda>ok.
                 if ok then Inr () else Inl (NonFastForwardError b c target))"
      show ?thesis
      proof (cases ?check)
        case (Inl e)
        with run 1 Inr False that(1) show ?thesis by (auto simp: store_fast_forward_def bindS_def)
      next
        case (Inr u)
        obtain q' s2 where 2: "store_update_branch_ref kind now b (Some target) current operation s1 = (q', s2)" by fastforce
        with run 1 \<open>q = Inr current\<close> False Inr that(2) show ?thesis
          by (auto simp: store_fast_forward_def bindS_def split: sum.splits)
      qed
    qed
  qed
  then show ?thesis
  proof cases
    case same
    with cl show ?thesis by simp
  next
    case updates
    from store_update_run [OF updates(1)] updates(2) cl show ?thesis by (cases q') simp_all
  qed
qed

section \<open>Running an operation\<close>

text \<open>What holds after a run from a state with \<open>A\<close>: \<open>B\<close> of the result, or \<open>X\<close> when it raises.\<close>

definition runs :: "('s \<Rightarrow> bool) \<Rightarrow> ('s, 'a) sm \<Rightarrow> ('a \<Rightarrow> 's \<Rightarrow> bool) \<Rightarrow> ('s \<Rightarrow> bool) \<Rightarrow> bool" where
  "runs A m B X \<longleftrightarrow> (\<forall>s r s'. A s \<longrightarrow> m s = (r, s') \<longrightarrow> (case r of Inr x \<Rightarrow> B x s' | Inl e \<Rightarrow> X s'))"

lemma runsI: "(\<And>s r s'. A s \<Longrightarrow> m s = (r, s') \<Longrightarrow> (case r of Inr x \<Rightarrow> B x s' | Inl e \<Rightarrow> X s')) \<Longrightarrow> runs A m B X"
  by (simp add: runs_def)

lemma runs_bind: "runs A m B X \<Longrightarrow> (\<And>x. runs (B x) (f x) C X) \<Longrightarrow> runs A (bindS m f) C X"
  unfolding runs_def
proof (intro allI impI)
  fix s r s'
  assume m: "\<forall>s r s'. A s \<longrightarrow> m s = (r, s') \<longrightarrow> (case r of Inr x \<Rightarrow> B x s' | Inl e \<Rightarrow> X s')"
    and f: "\<And>x. \<forall>s r s'. B x s \<longrightarrow> f x s = (r, s') \<longrightarrow> (case r of Inr x \<Rightarrow> C x s' | Inl e \<Rightarrow> X s')"
    and "A s" "bindS m f s = (r, s')"
  obtain q s1 where 1: "m s = (q, s1)" by fastforce
  with m \<open>A s\<close> have "case q of Inr x \<Rightarrow> B x s1 | Inl e \<Rightarrow> X s1" by blast
  with 1 f \<open>bindS m f s = (r, s')\<close> show "case r of Inr x \<Rightarrow> C x s' | Inl e \<Rightarrow> X s'"
    by (cases q) auto
qed

lemma runs_return: "(\<And>s. A s \<Longrightarrow> B x s) \<Longrightarrow> runs A (returnS x) B X"
  by (simp add: runs_def)

lemma runs_asks: "(\<And>s. A s \<Longrightarrow> X s) \<Longrightarrow> runs A (asksS f) (\<lambda>x s. A s \<and> f s = Inr x) X"
  by (auto simp: runs_def asksS_def split: sum.split)

lemma runs_if: "(b \<Longrightarrow> runs A m B X) \<Longrightarrow> (\<not> b \<Longrightarrow> runs A m' B X) \<Longrightarrow> runs A (if b then m else m') B X"
  by simp

lemma runsD: "runs A m B X \<Longrightarrow> A s \<Longrightarrow> m s = (r, s') \<Longrightarrow> case r of Inr x \<Rightarrow> B x s' | Inl e \<Rightarrow> X s'"
  by (simp add: runs_def)

lemma runs_post:
  assumes "runs A m B X" "\<And>x s. B x s \<Longrightarrow> C x s"
  shows "runs A m C X"
proof (rule runsI)
  fix s r s' assume "A s" "m s = (r, s')"
  from runsD [OF assms(1) this] assms(2) show "case r of Inr x \<Rightarrow> C x s' | Inl e \<Rightarrow> X s'" by (cases r) auto
qed

lemma runs_frame:
  assumes "runs A m B X"
  shows "runs (\<lambda>s. A s \<and> W) m (\<lambda>x s. B x s \<and> W) X"
proof (rule runsI)
  fix s r s' assume "A s \<and> W" "m s = (r, s')"
  with runsD [OF assms, of s r s'] show "case r of Inr x \<Rightarrow> B x s' \<and> W | Inl e \<Rightarrow> X s'" by (cases r) auto
qed

lemma runs_let: "runs A (f v) B X \<Longrightarrow> runs A (Let v f) B X"
  by (simp add: Let_def)

section \<open>Steps of a synchronization\<close>

lemma branch_or_current_run: "branch_or_current ref s = (r, s') \<Longrightarrow> s' = s"
  by (auto simp: branch_or_current_def asksS_def split: if_splits)

lemma open_remote_run:
  assumes "open_remote E kind uri (l, r) = (res, (l', r'))"
  shows "l' = l" "quiet r r'"
  using assms quiet_client [of r]
  by (auto simp: open_remote_def on_remote_def bindS_def split: sum.splits prod.splits)

lemma ensure_unborn_run:
  assumes "ensure_unborn kind b s = (r, s')"
  shows "quiet s s'"
proof (cases "read_branch_ref s b = None")
  case True
  obtain q s1 where 1: "store_cas kind b None None s = (q, s1)" by fastforce
  with assms True have "s' = s1" by (auto simp: ensure_unborn_def bindS_def split: sum.splits)
  moreover have "ref_head s b = None" using True by (simp add: ref_head_def head_of_def)
  moreover have "ref_head s1 c = ref_head s c" for c
    using store_cas_run [OF 1] calculation(2) by (cases "c = b") (auto simp: stored_head_def)
  ultimately show ?thesis using store_cas_run [OF 1] by (auto simp: quiet_def)
qed (use assms in \<open>auto simp: ensure_unborn_def\<close>)

text \<open>
  The common end of push and pull, seen from the destination: from a state as quiet as the start,
  objects are received and the branch is advanced.
\<close>

definition gained :: "'y repo_store_scheme \<Rightarrow> 'z repo_store_scheme \<Rightarrow> 'z repo_store_scheme \<Rightarrow> bool" where
  "gained src dst dst' \<longleftrightarrow>
     (\<forall>k i. k \<noteq> Ref \<longrightarrow> lookup_object k dst' i = lookup_object k dst i \<or>
        lookup_object k dst' i = lookup_object k src i \<and> lookup_object k src i \<noteq> None)"

definition advanced :: "string \<Rightarrow> string \<Rightarrow> bool res \<Rightarrow> 'z repo_store_scheme \<Rightarrow> 'z repo_store_scheme \<Rightarrow> bool" where
  "advanced b tip r s s' \<longleftrightarrow>
     (if r = Inr True then ref_head s' b = stored_head (Some tip) \<and> (\<forall>c. c \<noteq> b \<longrightarrow> ref_head s' c = ref_head s c)
      else \<forall>c. ref_head s' c = ref_head s c)"

lemma advanced_same: "r \<noteq> Inr True \<Longrightarrow> (\<forall>c. ref_head s' c = ref_head s c) \<Longrightarrow> advanced b tip r s s'"
  by (simp add: advanced_def)

lemma gained_quiet: "quiet d d' \<Longrightarrow> gained src d d'"
  by (simp add: gained_def quiet_def)

lemma received_quiet:
  assumes "quiet d d1" "received src d1 d2" "advanced b tip r d2 d3" "\<forall>k. k \<noteq> Ref \<longrightarrow> lookup_object k d3 = lookup_object k d2"
  shows "gained src d d3" "advanced b tip r d d3"
proof -
  have "ref_head d2 c = ref_head d c" for c
    using assms(1,2) by (simp add: received_def quiet_def ref_head_def read_branch_ref_def)
  with assms(3) show "advanced b tip r d d3" by (simp add: advanced_def)
  show "gained src d d3" using assms(1,2,4) unfolding gained_def quiet_def received_def by metis
qed

lemma fast_forward_of_run:
  assumes "fast_forward_of E kind b target operation s = (r, s')"
  shows "advanced b target r s s'" "\<forall>k. k \<noteq> Ref \<longrightarrow> lookup_object k s' = lookup_object k s"
  using store_fast_forward_run [OF assms [unfolded fast_forward_of_def]] by (simp_all add: advanced_def)

section \<open>Push\<close>

definition push_start :: "'y repo_store_scheme \<Rightarrow> 'z repo_store_scheme \<Rightarrow> ('y, 'z) both \<Rightarrow> bool" where
  "push_start l r st \<longleftrightarrow> fst st = l \<and> quiet r (snd st)"

definition push_failed :: "'y repo_store_scheme \<Rightarrow> 'z repo_store_scheme \<Rightarrow> ('y, 'z) both \<Rightarrow> bool" where
  "push_failed l r st \<longleftrightarrow> fst st = l \<and> gained l r (snd st) \<and> (\<forall>c. ref_head (snd st) c = ref_head r c)"

definition push_done ::
  "prims \<Rightarrow> 'y repo_store_scheme \<Rightarrow> 'z repo_store_scheme \<Rightarrow> sync_result \<Rightarrow> ('y, 'z) both \<Rightarrow> bool" where
  "push_done P l r p st \<longleftrightarrow> fst st = l \<and> gained l r (snd st) \<and>
     (\<exists>tip. ref_head l (sy_branch p) = Some tip \<and> advanced (sy_branch p) tip (Inr (sy_updated p)) r (snd st) \<and>
        (sy_updated p \<longrightarrow> complete_at P l r (reach (commit_kids P l) {tip}) \<longrightarrow>
           (\<forall>k. \<forall>x \<in> objects_from P l (reach (commit_kids P l) {tip}) k. lookup_object k (snd st) x \<noteq> None)))"

lemma runs_pre: "runs A' m B X \<Longrightarrow> (\<And>s. A s \<Longrightarrow> A' s) \<Longrightarrow> runs A m B X"
  by (auto simp: runs_def)

lemma objects_from_empty: "objects_from P s {} k = {}"
  using objects_from_each [of _ P s "{}" k] by blast

lemma push_start_failed: "push_start l r st \<Longrightarrow> push_failed l r st"
  using gained_quiet by (auto simp: push_start_def push_failed_def quiet_def)

lemma quiet_complete: "quiet d d' \<Longrightarrow> complete_at P src d' C = complete_at P src d C"
proof -
  assume "quiet d d'"
  then have "lookup_object k d' = lookup_object k d" if "k \<noteq> Ref" for k using that by (simp add: quiet_def)
  moreover have "k \<noteq> Ref" if "x \<in> objects_from P src A k" for A k x using that by (auto simp: objects_from_def Let_def)
  ultimately show ?thesis unfolding complete_at_def by (metis object_kind.distinct(9))
qed

text \<open>The copies are made: what the branch reaches and the remote lacked has arrived.\<close>

definition push_ready ::
  "prims \<Rightarrow> 'y repo_store_scheme \<Rightarrow> 'z repo_store_scheme \<Rightarrow> string \<Rightarrow> string \<Rightarrow> ('y, 'z) both \<Rightarrow> bool" where
  "push_ready P l r b tip st \<longleftrightarrow> (\<exists>r1 r2. st = (l, r2) \<and> ref_head l b = Some tip \<and> quiet r r1 \<and> received l r1 r2 \<and>
     (\<forall>k x. k \<noteq> Ref \<longrightarrow>
        x \<in> objects_from P l {i \<in> reach (commit_kids P l) {tip}. lookup_object Commit r1 i = None} k \<longrightarrow>
        lookup_object k r1 x = None \<longrightarrow> lookup_object k r2 x \<noteq> None))"

lemma push_ready_complete:
  assumes "quiet r r1" "received l r1 r2" "\<forall>k. k \<noteq> Ref \<longrightarrow> lookup_object k r3 = lookup_object k r2"
    and items: "\<forall>k x. k \<noteq> Ref \<longrightarrow> x \<in> objects_from P l {i \<in> C. lookup_object Commit r1 i = None} k \<longrightarrow>
        lookup_object k r1 x = None \<longrightarrow> lookup_object k r2 x \<noteq> None"
    and "complete_at P l r C" "x \<in> objects_from P l C k"
  shows "lookup_object k r3 x \<noteq> None"
proof -
  have k: "k \<noteq> Ref" using assms(6) by (auto simp: objects_from_def Let_def)
  have "complete_at P l r1 C" using assms(5) by (simp only: quiet_complete [OF assms(1)])
  then have "lookup_object k r2 x \<noteq> None"
    by (rule transfer_complete [OF _ assms(2) _ assms(6), where Q = "\<lambda>k x. True"]) (use items in blast)+
  with assms(3) k show ?thesis by simp
qed

lemma push_ready_advance:
  "runs (push_ready (ev_prims E) l r b tip)
     (bindS (on_remote (fast_forward_of E S3Store b tip ''push'')) (\<lambda>updated.
        returnS \<lparr>sy_branch = b, sy_uri = uri, sy_commits = n, sy_blobs = m, sy_updated = updated\<rparr>))
     (\<lambda>p st. push_done (ev_prims E) l r p st \<and> sy_branch p = b) (push_failed l r)"
proof (rule runsI)
  fix st q st'
  assume "push_ready (ev_prims E) l r b tip st" and run: "bindS (on_remote (fast_forward_of E S3Store b tip ''push''))
    (\<lambda>updated. returnS \<lparr>sy_branch = b, sy_uri = uri, sy_commits = n, sy_blobs = m, sy_updated = updated\<rparr>) st = (q, st')"
  then obtain r1 r2 where st: "st = (l, r2)" and tip: "ref_head l b = Some tip" and r12: "quiet r r1" "received l r1 r2"
    and items: "\<forall>k x. k \<noteq> Ref \<longrightarrow>
        x \<in> objects_from (ev_prims E) l {i \<in> reach (commit_kids (ev_prims E) l) {tip}. lookup_object Commit r1 i = None} k \<longrightarrow>
        lookup_object k r1 x = None \<longrightarrow> lookup_object k r2 x \<noteq> None"
    unfolding push_ready_def by blast
  obtain f r3 where f: "fast_forward_of E S3Store b tip ''push'' r2 = (f, r3)" by fastforce
  then have on: "on_remote (fast_forward_of E S3Store b tip ''push'') (l, r2) = (f, (l, r3))" by (simp add: on_remote_def)
  note ff = fast_forward_of_run [OF f]
  note q = received_quiet [OF r12 ff]
  note all = push_ready_complete [OF r12 ff(2) items]
  show "case q of Inr p \<Rightarrow> push_done (ev_prims E) l r p st' \<and> sy_branch p = b | Inl e \<Rightarrow> push_failed l r st'"
  proof (cases f)
    case (Inl e)
    with run st on have "q = Inl e" "st' = (l, r3)" by simp_all
    with q Inl show ?thesis by (simp add: push_failed_def advanced_def)
  next
    case (Inr updated)
    with run st on have res: "q = Inr \<lparr>sy_branch = b, sy_uri = uri, sy_commits = n, sy_blobs = m, sy_updated = updated\<rparr>"
      "st' = (l, r3)" by simp_all
    show ?thesis unfolding res push_done_def using q Inr tip all by simp
  qed
qed

lemma push_asks:
  "runs (\<lambda>st. push_start l r st \<and> Q st) (asksS f) (\<lambda>x st. push_start l r st \<and> Q st \<and> f st = Inr x) (push_failed l r)"
proof (rule runsI)
  fix st q st' assume "push_start l r st \<and> Q st" "asksS f st = (q, st')"
  then show "case q of Inr x \<Rightarrow> push_start l r st' \<and> Q st' \<and> f st' = Inr x | Inl e \<Rightarrow> push_failed l r st'"
    by (cases q) (auto simp: asksS_def push_start_failed)
qed

text \<open>A step that leaves the local store alone and the remote one quiet.\<close>

lemma push_quiet:
  assumes "\<And>r1 q r2. m (l, r1) = (q, r2) \<Longrightarrow> fst r2 = l \<and> quiet r1 (snd r2)"
  shows "runs (\<lambda>st. push_start l r st \<and> Q) m (\<lambda>x st. push_start l r st \<and> Q) (push_failed l r)"
proof (rule runsI)
  fix st q st' assume a: "push_start l r st \<and> Q" "m st = (q, st')"
  then obtain r1 where "st = (l, r1)" "quiet r r1" by (cases st) (auto simp: push_start_def)
  with a assms [of r1 q st'] have "push_start l r st'" "Q" by (auto simp: push_start_def intro: quiet_trans)
  then show "case q of Inr x \<Rightarrow> push_start l r st' \<and> Q | Inl e \<Rightarrow> push_failed l r st'"
    by (cases q) (simp_all add: push_start_failed)
qed

lemma push_copies:
  fixes l :: "'y repo_store_scheme" and r :: "'z repo_store_scheme"
  assumes ok: "backend_ok (backend :: ('y, 'z) backend)"
  shows "runs (\<lambda>st. push_start l r st \<and> ref_head l b = Some tip \<and>
         (case st of (l, r) \<Rightarrow> collect_commits_to_push E l r tip) = Inr commits \<and>
         (case st of (l, r) \<Rightarrow> build_plan E D Upload l r commits) = Inr plan)
      (execute_transfer_plan (ev_prims E) backend plan) (\<lambda>n. push_ready (ev_prims E) l r b tip) (push_failed l r)"
proof (rule runsI)
  fix st q st'
  assume a: "push_start l r st \<and> ref_head l b = Some tip \<and>
       (case st of (l, r) \<Rightarrow> collect_commits_to_push E l r tip) = Inr commits \<and>
       (case st of (l, r) \<Rightarrow> build_plan E D Upload l r commits) = Inr plan"
    and run: "execute_transfer_plan (ev_prims E) backend plan st = (q, st')"
  then obtain r1 where st: "st = (l, r1)" and q1: "quiet r r1" by (cases st) (auto simp: push_start_def)
  obtain l2 r2 where st': "st' = (l2, r2)" by (cases st')
  from a st have commits: "collect_commits_to_push E l r1 tip = Inr commits"
    and plan: "build_plan E D Upload l r1 commits = Inr plan" and tip: "ref_head l b = Some tip" by simp_all
  note P = build_plan_spec [OF plan]
  have keys: "(ti_kind x, ti_id x) \<in> set (map item_key (tp_items plan))" if "x \<in> set (tp_items plan)" for x
    using that by (force simp: item_key_def)
  have kinds: "\<forall>x \<in> set (tp_items plan). ti_kind x \<noteq> Ref" using keys unfolding P(1) by blast
  note c = copies_Upload [OF copies_execute [OF ok kinds, unfolded P(3)] run [unfolded st st']]
  have there: "lookup_object k r2 x \<noteq> None"
    if "q = Inr v" "k \<noteq> Ref" "lookup_object k r1 x = None"
      "x \<in> objects_from (ev_prims E) l {i \<in> reach (commit_kids (ev_prims E) l) {tip}. lookup_object Commit r1 i = None} k" for k x v
  proof -
    from that(2-4) have "(k, x) \<in> set (map item_key (tp_items plan))"
      unfolding P(1) collect_commits_spec [OF commits] by simp
    then obtain y where "y \<in> set (tp_items plan)" "ti_kind y = k" "ti_id y = x" by (auto simp: item_key_def)
    with c(3) [OF that(1)] show ?thesis by blast
  qed
  have gain: "gained l r r2" using q1 c(2) unfolding gained_def quiet_def received_def by metis
  have heads: "ref_head r2 x = ref_head r x" for x
    using q1 c(2) by (simp add: received_def quiet_def ref_head_def read_branch_ref_def)
  show "case q of Inr n \<Rightarrow> push_ready (ev_prims E) l r b tip st' | Inl e \<Rightarrow> push_failed l r st'"
  proof (cases q)
    case (Inl e)
    with gain heads st' c(1) show ?thesis by (simp add: push_failed_def)
  next
    case (Inr n)
    have "push_ready (ev_prims E) l r b tip (l, r2)" unfolding push_ready_def
      using tip q1 c(2) there [OF Inr] by blast
    with Inr st' c(1) show ?thesis by simp
  qed
qed

lemma push_nothing_missing:
  assumes "push_start l r st" "ref_head l b = Some tip" "(case st of (l, r) \<Rightarrow> collect_commits_to_push E l r tip) = Inr []"
  shows "push_ready (ev_prims E) l r b tip st"
proof -
  from assms(1) obtain r1 where st: "st = (l, r1)" "quiet r r1" by (cases st) (auto simp: push_start_def)
  with assms(3) have none: "{i \<in> reach (commit_kids (ev_prims E) l) {tip}. lookup_object Commit r1 i = None} = {}"
    using collect_commits_spec [of E l r1 tip "[]"] by simp
  show ?thesis unfolding push_ready_def
    by (intro exI [of _ r1] conjI; (unfold none objects_from_empty)?) (use st assms(2) in \<open>simp_all add: received_refl\<close>)
qed

lemma push_up_to_date:
  "push_start l r st \<Longrightarrow> ref_head l b = Some tip \<Longrightarrow>
     push_done P l r \<lparr>sy_branch = b, sy_uri = uri, sy_commits = 0, sy_blobs = 0, sy_updated = False\<rparr> st"
  using gained_quiet by (auto simp: push_done_def push_start_def advanced_def quiet_def)

text \<open>A push that moved the branch had checked that the move is a fast-forward.\<close>

definition push_checked ::
  "env \<Rightarrow> 'y repo_store_scheme \<Rightarrow> 'z repo_store_scheme \<Rightarrow> sync_result \<Rightarrow> ('y, 'z) both \<Rightarrow> bool" where
  "push_checked E l r p st \<longleftrightarrow> push_done (ev_prims E) l r p st \<and>
     (sy_updated p \<longrightarrow> (\<exists>tip. ref_head l (sy_branch p) = Some tip \<and>
        verify_push_fast_forward E (sy_branch p) tip l r = Inr True))"

lemma push_checkedI:
  "push_done (ev_prims E) l r p st \<and> sy_branch p = b \<Longrightarrow>
     ref_head l b = Some tip \<and> verify_push_fast_forward E b tip l r = Inr True \<Longrightarrow> push_checked E l r p st"
  by (auto simp: push_checked_def)

lemma verify_push_quiet:
  "push_start l r st \<Longrightarrow> (case st of (l, r) \<Rightarrow> verify_push_fast_forward E b tip l r) = verify_push_fast_forward E b tip l r"
  by (cases st) (simp add: push_start_def verify_push_fast_forward_def quiet_def)

lemma push_runs:
  fixes l :: "'y repo_store_scheme" and r :: "'z repo_store_scheme"
  assumes ok: "backend_ok (backend :: ('y, 'z) backend)"
  shows "runs (\<lambda>st. st = (l, r)) (push E kind backend uri ref) (push_checked E l r) (push_failed l r)"
proof -
  have start: "push_start l r (l, r)" by (simp add: push_start_def)
  have branch: "runs (\<lambda>st. st = (l, r)) (on_local (branch_or_current ref)) (\<lambda>b st. st = (l, r)) (push_failed l r)"
    using branch_or_current_run [of ref l] push_start_failed [OF start]
    by (intro runsI) (auto simp: on_local_def split: prod.splits sum.splits)
  have to_push: "runs (\<lambda>st. st = (l, r)) (on_local (branch_to_push b))
      (\<lambda>tip st. push_start l r st \<and> ref_head l b = Some tip) (push_failed l r)" for b
    using push_start_failed [OF start] start
    by (intro runsI) (auto simp: on_local_def branch_to_push_def asksS_def ref_head_def head_of_def
        split: prod.splits sum.splits if_splits option.splits)
  have remote: "runs (\<lambda>st. push_start l r st \<and> Q) (open_remote E kind uri) (\<lambda>D st. push_start l r st \<and> Q) (push_failed l r)" for Q
    by (rule push_quiet) (metis open_remote_run prod.collapse)
  have unborn: "runs (\<lambda>st. push_start l r st \<and> Q) (on_remote (ensure_unborn S3Store b))
      (\<lambda>u st. push_start l r st \<and> Q) (push_failed l r)" for Q b
    by (rule push_quiet) (auto simp: on_remote_def split: prod.splits dest: ensure_unborn_run)
  let ?W = "\<lambda>b tip. ref_head l b = Some tip \<and> verify_push_fast_forward E b tip l r = Inr True"
  have advance: "runs (\<lambda>st. push_ready (ev_prims E) l r b tip st \<and> ?W b tip)
      (bindS (on_remote (fast_forward_of E S3Store b tip ''push'')) (\<lambda>updated.
        returnS \<lparr>sy_branch = b, sy_uri = uri, sy_commits = n, sy_blobs = m, sy_updated = updated\<rparr>))
      (push_checked E l r) (push_failed l r)" for b tip n m
    by (rule runs_post [OF runs_frame [OF push_ready_advance]]) (blast intro: push_checkedI)
  have enough: "push_ready (ev_prims E) l r b tip st \<and> ?W b tip"
    if "push_start l r st" "ref_head l b = Some tip" "(case st of (l, r) \<Rightarrow> verify_push_fast_forward E b tip l r) = Inr True"
      "(case st of (l, r) \<Rightarrow> collect_commits_to_push E l r tip) = Inr []" for b tip st
    using that push_nothing_missing [OF that(1,2,4)] verify_push_quiet [OF that(1), of E b tip] by simp
  have copied: "runs (\<lambda>st. push_start l r st \<and> ref_head l b = Some tip \<and>
         (case st of (l, r) \<Rightarrow> verify_push_fast_forward E b tip l r) = Inr True \<and>
         (case st of (l, r) \<Rightarrow> collect_commits_to_push E l r tip) = Inr commits \<and>
         (case st of (l, r) \<Rightarrow> build_plan E D Upload l r commits) = Inr plan)
      (execute_transfer_plan (ev_prims E) backend plan)
      (\<lambda>n st. push_ready (ev_prims E) l r b tip st \<and> ?W b tip) (push_failed l r)" for b tip commits plan D
    by (rule runs_pre [OF runs_frame [OF push_copies [OF ok, where commits = commits and D = D], where W = "?W b tip"]])
      (auto dest: verify_push_quiet [THEN trans [OF sym]])
  show ?thesis unfolding push_def
    apply (rule runs_bind [OF branch])
    apply (rule runs_bind [OF to_push])
    apply (rule runs_bind [OF remote])
    apply (rule runs_bind [OF unborn])
    apply (rule runs_bind [OF push_asks])
    apply (rule runs_let)
    apply (rule runs_if)
     apply (rule runs_return, simp add: push_checked_def push_up_to_date)
    apply (rule runs_bind [OF push_asks])
    apply (rule runs_if)
     apply (rule runs_pre [OF advance], rule enough; simp)
    apply (rule runs_bind [OF push_asks])
    subgoal for b tip D u can commits plan
      by (rule runs_bind [OF runs_pre [OF copied [where commits = commits and D = D]] advance]) simp
    done
qed

lemma verify_fast_forward_sound:
  assumes "verify_fast_forward E head s b tip = Inr True" "head = Some old" "old \<in> R" "tip \<in> R"
    and "history_ok (lenient_reader (ev_prims E) s) h G R" "\<forall>i \<in> R. G i < ev_history E" "finite R" "card R \<le> ev_walk E"
  shows "(tip, old) \<in> (parent_rel h)\<^sup>*"
  using is_ancestor_commit_spec [OF assms(5,3,4,6-8)] assms(1,2)
  by (auto simp: verify_fast_forward_def is_ancestor_in_def bindE_Inr_iff split: if_splits)

section \<open>Pull and fetch\<close>

definition pull_start :: "'y repo_store_scheme \<Rightarrow> 'z repo_store_scheme \<Rightarrow> ('y, 'z) both \<Rightarrow> bool" where
  "pull_start l r st \<longleftrightarrow> quiet l (fst st) \<and> (\<exists>cl. snd st = r\<lparr>rs_client := cl\<rparr>)"

lemma pull_start_quiet: "pull_start l r st \<Longrightarrow> quiet l (fst st) \<and> quiet r (snd st)"
  using quiet_client by (auto simp: pull_start_def)

definition pull_failed :: "'y repo_store_scheme \<Rightarrow> 'z repo_store_scheme \<Rightarrow> ('y, 'z) both \<Rightarrow> bool" where
  "pull_failed l r st \<longleftrightarrow> quiet r (snd st) \<and> gained r l (fst st) \<and> (\<forall>c. ref_head (fst st) c = ref_head l c)"

text \<open>Everything the remote has of the history of the branch.\<close>

definition delivered ::
  "prims \<Rightarrow> 'y repo_store_scheme \<Rightarrow> 'z repo_store_scheme \<Rightarrow> string \<Rightarrow> 'y repo_store_scheme \<Rightarrow> bool" where
  "delivered P l r tip l' \<longleftrightarrow>
     (complete_at P r l (reach (commit_kids P r) {tip}) \<longrightarrow>
        (\<forall>k. \<forall>x \<in> objects_from P r (reach (commit_kids P r) {tip}) k.
           lookup_object k r x \<noteq> None \<longrightarrow> lookup_object k l' x \<noteq> None))"

definition pull_done ::
  "prims \<Rightarrow> 'y repo_store_scheme \<Rightarrow> 'z repo_store_scheme \<Rightarrow> sync_result \<Rightarrow> ('y, 'z) both \<Rightarrow> bool" where
  "pull_done P l r p st \<longleftrightarrow> quiet r (snd st) \<and> gained r l (fst st) \<and>
     (\<exists>tip. resolve_ref r (sy_branch p) = Inr tip \<and> advanced (sy_branch p) tip (Inr (sy_updated p)) l (fst st) \<and>
        (sy_updated p \<longrightarrow> delivered P l r tip (fst st)))"

definition fetch_done ::
  "prims \<Rightarrow> 'y repo_store_scheme \<Rightarrow> 'z repo_store_scheme \<Rightarrow> string \<times> nat \<times> nat \<Rightarrow> ('y, 'z) both \<Rightarrow> bool" where
  "fetch_done P l r p st \<longleftrightarrow> pull_failed l r st \<and>
     (\<exists>tip. resolve_ref r (fst p) = Inr tip \<and> delivered P l r tip (fst st))"

text \<open>The copies are made; \<open>l1\<close> and \<open>r1\<close> are the stores the plan was made from.\<close>

definition pull_ready ::
  "prims \<Rightarrow> 'y repo_store_scheme \<Rightarrow> 'z repo_store_scheme \<Rightarrow> string \<Rightarrow> string \<Rightarrow> ('y, 'z) both \<Rightarrow> bool" where
  "pull_ready P l r b tip st \<longleftrightarrow> resolve_ref r b = Inr tip \<and> quiet r (snd st) \<and> gained r l (fst st) \<and>
     (\<forall>c. ref_head (fst st) c = ref_head l c) \<and> delivered P l r tip (fst st)"

lemma pull_start_failed: "pull_start l r st \<Longrightarrow> pull_failed l r st"
  using gained_quiet pull_start_quiet [of l r st] by (auto simp: pull_failed_def quiet_def)

lemma pull_ready_failed: "pull_ready P l r b tip st \<Longrightarrow> pull_failed l r st"
  by (simp add: pull_ready_def pull_failed_def)

lemma pull_ready_fetch: "pull_ready P l r b tip st \<Longrightarrow> fetch_done P l r (b, n, m) st"
  by (auto simp: fetch_done_def pull_ready_failed) (auto simp: pull_ready_def)

lemma commit_kids_quiet: "quiet s s' \<Longrightarrow> commit_kids P s' = commit_kids P s"
  by (rule ext) (simp add: commit_kids_def fetch_quiet)

lemma complete_at_source: "quiet s s' \<Longrightarrow> complete_at P s' d C = complete_at P s d C"
  by (simp add: complete_at_def objects_from_quiet)

lemma pull_asks:
  "runs (\<lambda>st. pull_start l r st \<and> Q st) (asksS f) (\<lambda>x st. pull_start l r st \<and> Q st \<and> f st = Inr x) (pull_failed l r)"
proof (rule runsI)
  fix st q st' assume "pull_start l r st \<and> Q st" "asksS f st = (q, st')"
  then show "case q of Inr x \<Rightarrow> pull_start l r st' \<and> Q st' \<and> f st' = Inr x | Inl e \<Rightarrow> pull_failed l r st'"
    by (cases q) (auto simp: asksS_def pull_start_failed)
qed

lemma pull_quiet:
  assumes "\<And>s q s'. m s = (q, s') \<Longrightarrow> quiet (fst s) (fst s') \<and> (\<exists>cl. snd s' = (snd s)\<lparr>rs_client := cl\<rparr>)"
  shows "runs (\<lambda>st. pull_start l r st \<and> Q) m (\<lambda>x st. pull_start l r st \<and> Q) (pull_failed l r)"
proof (rule runsI)
  fix st q st' assume a: "pull_start l r st \<and> Q" "m st = (q, st')"
  then have "pull_start l r st'" "Q" using assms [of st q st'] by (auto simp: pull_start_def intro: quiet_trans)
  then show "case q of Inr x \<Rightarrow> pull_start l r st' \<and> Q | Inl e \<Rightarrow> pull_failed l r st'"
    by (cases q) (simp_all add: pull_start_failed)
qed

lemma pull_ready_advance:
  "runs (pull_ready (ev_prims E) l r b tip)
     (bindS (on_local (fast_forward_of E kind b tip ''pull'')) (\<lambda>updated.
        returnS \<lparr>sy_branch = b, sy_uri = uri, sy_commits = n, sy_blobs = m, sy_updated = updated\<rparr>))
     (\<lambda>p st. pull_done (ev_prims E) l r p st \<and> sy_branch p = b) (pull_failed l r)"
proof (rule runsI)
  fix st q st'
  assume ready: "pull_ready (ev_prims E) l r b tip st" and run: "bindS (on_local (fast_forward_of E kind b tip ''pull''))
    (\<lambda>updated. returnS \<lparr>sy_branch = b, sy_uri = uri, sy_commits = n, sy_blobs = m, sy_updated = updated\<rparr>) st = (q, st')"
  obtain l2 r2 where st: "st = (l2, r2)" by (cases st)
  obtain f l3 where f: "fast_forward_of E kind b tip ''pull'' l2 = (f, l3)" by fastforce
  then have on: "on_local (fast_forward_of E kind b tip ''pull'') (l2, r2) = (f, (l3, r2))" by (simp add: on_local_def)
  note ff = fast_forward_of_run [OF f]
  note R = ready [unfolded pull_ready_def st, simplified]
  have adv: "advanced b tip f l l3" using ff(1) R by (simp add: advanced_def)
  have gain: "gained r l l3" using R ff(2) unfolding gained_def by metis
  have keep: "delivered (ev_prims E) l r tip l3"
    unfolding delivered_def
  proof (intro impI allI ballI)
    fix k x assume c: "complete_at (ev_prims E) r l (reach (commit_kids (ev_prims E) r) {tip})"
      "x \<in> objects_from (ev_prims E) r (reach (commit_kids (ev_prims E) r) {tip}) k" "lookup_object k r x \<noteq> None"
    then have "k \<noteq> Ref" by (auto simp: objects_from_def Let_def)
    with c R ff(2) show "lookup_object k l3 x \<noteq> None" unfolding delivered_def by metis
  qed
  show "case q of Inr p \<Rightarrow> pull_done (ev_prims E) l r p st' \<and> sy_branch p = b | Inl e \<Rightarrow> pull_failed l r st'"
  proof (cases f)
    case (Inl e)
    with run st on have "q = Inl e" "st' = (l3, r2)" by simp_all
    with Inl adv gain R show ?thesis by (simp add: pull_failed_def advanced_def)
  next
    case (Inr updated)
    with run st on have res: "q = Inr \<lparr>sy_branch = b, sy_uri = uri, sy_commits = n, sy_blobs = m, sy_updated = updated\<rparr>"
      "st' = (l3, r2)" by simp_all
    show ?thesis unfolding res pull_done_def using Inr adv gain keep R by simp
  qed
qed

lemma pull_delivers:
  assumes "quiet l l1" "quiet r r1" "received r1 l1 l2" and commits: "collect_commits_to_push E r1 l1 tip = Inr commits"
    and items: "\<And>k x. k \<noteq> Ref \<Longrightarrow> x \<in> objects_from (ev_prims E) r1 (set commits) k \<Longrightarrow>
      lookup_object k l1 x = None \<Longrightarrow> lookup_object k r1 x \<noteq> None \<Longrightarrow> lookup_object k l2 x \<noteq> None"
  shows "delivered (ev_prims E) l r tip l2"
  unfolding delivered_def
proof (intro impI allI ballI)
  let ?P = "ev_prims E"
  let ?H = "reach (commit_kids ?P r) {tip}"
  fix k x assume c: "complete_at ?P r l ?H" and x: "x \<in> objects_from ?P r ?H k" and r: "lookup_object k r x \<noteq> None"
  then have k: "k \<noteq> Ref" by (auto simp: objects_from_def Let_def)
  have set: "set commits = {i \<in> ?H. lookup_object Commit l1 i = None}"
    using collect_commits_spec [OF commits] by (simp only: commit_kids_quiet [OF assms(2)])
  have "complete_at ?P r1 l1 ?H"
    using c by (simp only: quiet_complete [OF assms(1)] complete_at_source [OF assms(2)])
  then show "lookup_object k l2 x \<noteq> None"
  proof (rule transfer_complete [where Q = "\<lambda>k x. lookup_object k r1 x \<noteq> None"])
    show "x \<in> objects_from ?P r1 ?H k" using x by (simp only: objects_from_quiet [OF assms(2)])
    show "lookup_object k r1 x \<noteq> None" using r assms(2) k by (simp add: quiet_def)
  qed (use assms(3) items set in auto)
qed

lemma pull_ready_received:
  assumes "quiet l l1" "quiet r r1" "received r1 l1 l2" "resolve_ref r b = Inr tip" "delivered P l r tip l2"
  shows "pull_ready P l r b tip (l2, r1)"
proof -
  have "gained r l l2" using assms(1-3) unfolding gained_def quiet_def received_def by metis
  moreover have "ref_head l2 c = ref_head l c" for c
    using assms(1,3) by (simp add: received_def quiet_def ref_head_def read_branch_ref_def)
  ultimately show ?thesis using assms by (simp add: pull_ready_def)
qed

lemma pull_copies:
  fixes l :: "'y repo_store_scheme" and r :: "'z repo_store_scheme"
  assumes ok: "backend_ok (backend :: ('y, 'z) backend)"
  shows "runs (\<lambda>st. pull_start l r st \<and> resolve_ref r b = Inr tip \<and>
         (case st of (l, r) \<Rightarrow> collect_commits_to_push E r l tip) = Inr commits \<and>
         (case st of (l, r) \<Rightarrow> build_plan E D Download r l commits) = Inr plan)
      (execute_transfer_plan (ev_prims E) backend plan) (\<lambda>n. pull_ready (ev_prims E) l r b tip) (pull_failed l r)"
proof (rule runsI)
  fix st q st'
  assume a: "pull_start l r st \<and> resolve_ref r b = Inr tip \<and>
       (case st of (l, r) \<Rightarrow> collect_commits_to_push E r l tip) = Inr commits \<and>
       (case st of (l, r) \<Rightarrow> build_plan E D Download r l commits) = Inr plan"
    and run: "execute_transfer_plan (ev_prims E) backend plan st = (q, st')"
  then obtain l1 r1 where st: "st = (l1, r1)" and q1: "quiet l l1" "quiet r r1" using pull_start_quiet [of l r st] by (cases st) auto
  obtain l2 r2 where st': "st' = (l2, r2)" by (cases st')
  from a st have commits: "collect_commits_to_push E r1 l1 tip = Inr commits"
    and plan: "build_plan E D Download r1 l1 commits = Inr plan" and tip: "resolve_ref r b = Inr tip" by simp_all
  note P = build_plan_spec [OF plan]
  have keys: "(ti_kind x, ti_id x) \<in> set (map item_key (tp_items plan))" if "x \<in> set (tp_items plan)" for x
    using that by (force simp: item_key_def)
  have kinds: "\<forall>x \<in> set (tp_items plan). ti_kind x \<noteq> Ref" using keys unfolding P(1) by blast
  note c = copies_Download [OF copies_execute [OF ok kinds, unfolded P(3)] run [unfolded st st']]
  have there: "lookup_object k l2 x \<noteq> None"
    if "q = Inr v" "k \<noteq> Ref" "x \<in> objects_from (ev_prims E) r1 (set commits) k" "lookup_object k l1 x = None"
      "lookup_object k r1 x \<noteq> None" for k x v
  proof -
    from that(2-4) have "(k, x) \<in> set (map item_key (tp_items plan))" unfolding P(1) by simp
    then obtain y where "y \<in> set (tp_items plan)" "ti_kind y = k" "ti_id y = x" by (auto simp: item_key_def)
    with c(3) [OF that(1)] that(5) show ?thesis by blast
  qed
  have fail: "pull_failed l r st'"
  proof -
    have "gained r l l2" using q1 c(2) unfolding gained_def quiet_def received_def by metis
    moreover have "ref_head l2 x = ref_head l x" for x
      using q1 c(2) by (simp add: received_def quiet_def ref_head_def read_branch_ref_def)
    ultimately show ?thesis using st' c(1) q1(2) by (simp add: pull_failed_def)
  qed
  show "case q of Inr n \<Rightarrow> pull_ready (ev_prims E) l r b tip st' | Inl e \<Rightarrow> pull_failed l r st'"
  proof (cases q)
    case (Inr n)
    have "delivered (ev_prims E) l r tip l2"
      by (rule pull_delivers [OF q1 c(2) commits there [OF Inr]])
    from pull_ready_received [OF q1 c(2) tip this] show ?thesis using Inr st' c(1) by simp
  qed (use fail in simp)
qed

lemma pull_nothing_missing:
  assumes "pull_start l r st" "resolve_ref r b = Inr tip" "(case st of (l, r) \<Rightarrow> collect_commits_to_push E r l tip) = Inr []"
  shows "pull_ready (ev_prims E) l r b tip st"
proof -
  from assms(1) obtain l1 r1 where st: "st = (l1, r1)" and q: "quiet l l1" "quiet r r1"
    using pull_start_quiet [of l r st] by (cases st) auto
  with assms(3) have "collect_commits_to_push E r1 l1 tip = Inr []" by simp
  then have "delivered (ev_prims E) l r tip l1"
    by (rule pull_delivers [OF q received_refl]) (simp add: objects_from_empty)
  from pull_ready_received [OF q received_refl assms(2) this] show ?thesis by (simp add: st)
qed

lemma pull_up_to_date:
  "pull_start l r st \<Longrightarrow> resolve_ref r b = Inr tip \<Longrightarrow>
     pull_done P l r \<lparr>sy_branch = b, sy_uri = uri, sy_commits = 0, sy_blobs = 0, sy_updated = False\<rparr> st"
  using gained_quiet pull_start_quiet [of l r st] by (auto simp: pull_done_def advanced_def quiet_def)

section \<open>Their first steps\<close>

lemma pull_branch:
  "runs (\<lambda>st. st = (l, r)) (on_local (branch_or_current ref)) (\<lambda>b st. pull_start l r st \<and> True) (pull_failed l r)"
proof -
  have "pull_start l r (l, r)" by (simp add: pull_start_def exI [of _ "rs_client r"])
  then show ?thesis using branch_or_current_run [of ref l] pull_start_failed [of l r "(l, r)"]
    by (intro runsI) (auto simp: on_local_def split: prod.splits sum.splits)
qed

lemma pull_opens:
  "runs (\<lambda>st. pull_start l r st \<and> Q) (open_remote E kind uri) (\<lambda>D st. pull_start l r st \<and> Q) (pull_failed l r)"
proof (rule pull_quiet)
  fix s q s' assume "open_remote E kind uri s = (q, s')"
  then show "quiet (fst s) (fst s') \<and> (\<exists>cl. snd s' = (snd s)\<lparr>rs_client := cl\<rparr>)"
    by (cases "parse_s3_uri uri")
      (auto simp: open_remote_def on_remote_def bindS_def split: prod.splits intro: exI [of _ "rs_client (snd s)"])
qed

lemma resolve_ref_client [simp]: "resolve_ref (s\<lparr>rs_client := cl\<rparr>) b = resolve_ref s b"
  by (auto simp: resolve_ref_def read_branch_ref_def object_exists_commit_def split: option.splits)

lemma pull_resolves:
  "runs (\<lambda>st. pull_start l r st \<and> True) (on_remote (resolve_refS b))
     (\<lambda>tip st. pull_start l r st \<and> resolve_ref r b = Inr tip) (pull_failed l r)"
proof (rule runsI)
  fix st q st'
  assume a: "pull_start l r st \<and> True" "on_remote (resolve_refS b) st = (q, st')"
  then have "st' = st" "q = resolve_ref r b" by (auto simp: on_remote_def resolve_refS_def asksS_def pull_start_def)
  with a show "case q of Inr tip \<Rightarrow> pull_start l r st' \<and> resolve_ref r b = Inr tip | Inl e \<Rightarrow> pull_failed l r st'"
    by (cases "resolve_ref r b") (simp_all add: pull_start_failed)
qed

lemma pull_unborn:
  "runs (\<lambda>st. pull_start l r st \<and> Q) (on_local (ensure_unborn kind b)) (\<lambda>u st. pull_start l r st \<and> Q) (pull_failed l r)"
proof (rule pull_quiet)
  fix s q s' assume "on_local (ensure_unborn kind b) s = (q, s')"
  then show "quiet (fst s) (fst s') \<and> (\<exists>cl. snd s' = (snd s)\<lparr>rs_client := cl\<rparr>)"
    by (auto simp: on_local_def split: prod.splits dest: ensure_unborn_run intro!: exI [of _ "rs_client (snd s)"])
qed

definition pull_checked ::
  "env \<Rightarrow> 'y repo_store_scheme \<Rightarrow> 'z repo_store_scheme \<Rightarrow> sync_result \<Rightarrow> ('y, 'z) both \<Rightarrow> bool" where
  "pull_checked E l r p st \<longleftrightarrow> pull_done (ev_prims E) l r p st \<and>
     (sy_updated p \<longrightarrow> (\<exists>tip. resolve_ref r (sy_branch p) = Inr tip \<and>
        verify_pull_fast_forward E (sy_branch p) tip l r = Inr True))"

lemma pull_checkedI:
  "pull_done (ev_prims E) l r p st \<and> sy_branch p = b \<Longrightarrow>
     resolve_ref r b = Inr tip \<and> verify_pull_fast_forward E b tip l r = Inr True \<Longrightarrow> pull_checked E l r p st"
  by (auto simp: pull_checked_def)

lemma verify_pull_quiet:
  assumes "pull_start l r st"
  shows "(case st of (l, r) \<Rightarrow> verify_pull_fast_forward E b tip l r) = verify_pull_fast_forward E b tip l r"
proof -
  have q: "quiet l (fst st)" "quiet r (snd st)" using pull_start_quiet [OF assms] by simp_all
  have "lenient_reader P (snd st) = lenient_reader P r" for P
    by (rule ext) (simp add: lenient_reader_def fetch_quiet [OF q(2)])
  then have "verify_fast_forward E h (snd st) b tip = verify_fast_forward E h r b tip" for h
    by (simp only: verify_fast_forward_def is_ancestor_in_def \<open>\<And>P. lenient_reader P (snd st) = lenient_reader P r\<close>)
  with q(1) show ?thesis by (cases st) (simp add: verify_pull_fast_forward_def quiet_def)
qed

lemma pull_runs:
  fixes l :: "'y repo_store_scheme" and r :: "'z repo_store_scheme"
  assumes ok: "backend_ok (backend :: ('y, 'z) backend)"
  shows "runs (\<lambda>st. st = (l, r)) (pull E kind backend uri ref) (pull_checked E l r) (pull_failed l r)"
proof -
  let ?W = "\<lambda>b tip. resolve_ref r b = Inr tip \<and> verify_pull_fast_forward E b tip l r = Inr True"
  have advance: "runs (\<lambda>st. pull_ready (ev_prims E) l r b tip st \<and> ?W b tip)
      (bindS (on_local (fast_forward_of E kind b tip ''pull'')) (\<lambda>updated.
        returnS \<lparr>sy_branch = b, sy_uri = uri, sy_commits = n, sy_blobs = m, sy_updated = updated\<rparr>))
      (pull_checked E l r) (pull_failed l r)" for b tip n m
    by (rule runs_post [OF runs_frame [OF pull_ready_advance]]) (blast intro: pull_checkedI)
  have enough: "pull_ready (ev_prims E) l r b tip st \<and> ?W b tip"
    if "pull_start l r st" "resolve_ref r b = Inr tip" "(case st of (l, r) \<Rightarrow> verify_pull_fast_forward E b tip l r) = Inr True"
      "(case st of (l, r) \<Rightarrow> collect_commits_to_push E r l tip) = Inr []" for b tip st
    using that pull_nothing_missing [OF that(1,2,4)] verify_pull_quiet [OF that(1), of E b tip] by simp
  have copied: "runs (\<lambda>st. pull_start l r st \<and> resolve_ref r b = Inr tip \<and>
         (case st of (l, r) \<Rightarrow> verify_pull_fast_forward E b tip l r) = Inr True \<and>
         (case st of (l, r) \<Rightarrow> collect_commits_to_push E r l tip) = Inr commits \<and>
         (case st of (l, r) \<Rightarrow> build_plan E D Download r l commits) = Inr plan)
      (execute_transfer_plan (ev_prims E) backend plan)
      (\<lambda>n st. pull_ready (ev_prims E) l r b tip st \<and> ?W b tip) (pull_failed l r)" for b tip commits plan D
    by (rule runs_pre [OF runs_frame [OF pull_copies [OF ok, where commits = commits and D = D], where W = "?W b tip"]])
      (auto dest: verify_pull_quiet [THEN trans [OF sym]])
  show ?thesis unfolding pull_def
    apply (rule runs_bind [OF pull_branch])
    apply (rule runs_bind [OF pull_opens])
    apply (rule runs_bind [OF pull_resolves])
    apply (rule runs_bind [OF pull_unborn])
    apply (rule runs_bind [OF pull_asks])
    apply (rule runs_let)
    apply (rule runs_if)
     apply (rule runs_return, simp add: pull_checked_def pull_up_to_date)
    apply (rule runs_bind [OF pull_asks])
    apply (rule runs_if)
     apply (rule runs_pre [OF advance], rule enough; simp)
    apply (rule runs_bind [OF pull_asks])
    subgoal for b D tip u can commits plan
      by (rule runs_bind [OF runs_pre [OF copied [where commits = commits and D = D]] advance]) simp
    done
qed

lemma fetch_runs:
  fixes l :: "'y repo_store_scheme" and r :: "'z repo_store_scheme"
  assumes ok: "backend_ok (backend :: ('y, 'z) backend)"
  shows "runs (\<lambda>st. st = (l, r)) (fetch E kind backend uri ref) (fetch_done (ev_prims E) l r) (pull_failed l r)"
  unfolding fetch_def
  apply (rule runs_bind [OF pull_branch])
  apply (rule runs_bind [OF pull_opens])
  apply (rule runs_bind [OF pull_resolves])
  apply (rule runs_bind [OF pull_asks])
  apply (rule runs_bind)
   apply (rule runs_pre, rule pull_asks, blast)
  apply (rule runs_bind)
   apply (rule runs_pre, rule pull_copies [OF ok], blast)
  apply (rule runs_return, rule pull_ready_fetch, assumption)
  done

end
