(* ===== verification/S3_Spec.thy ===== *)
theory S3_Spec
  imports S3_Store Sync_Spec
begin

text \<open>
  The S3 store implements the remote store \<open>Sync\<close> works on: \<open>stored_in\<close> relates a state of the
  service to a \<open>repo_store\<close> with the same objects, and each operation of \<open>S3_Store\<close> simulates its
  operation there, or reports that the service failed. The compare-and-set of a branch is a
  read and a conditional put; its lemmas let other clients write in between.
\<close>

section \<open>The store in the bucket\<close>

definition valid_id :: "object_kind \<Rightarrow> string \<Rightarrow> bool" where
  "valid_id k i \<longleftrightarrow> i \<noteq> [] \<and> (k = Blob \<longrightarrow> is_hex_digest i)"

definition stored_in :: "'w s3_view \<Rightarrow> 'w s3_store \<Rightarrow> 'w \<Rightarrow> 'z repo_store_scheme \<Rightarrow> bool" where
  "stored_in V S w s \<longleftrightarrow> (\<forall>k i. valid_id k i \<longrightarrow> sv_holds V w (store_key S k i) = lookup_object k s i)"

lemma store_key_inj: "store_key S k i = store_key S k' i' \<Longrightarrow> valid_id k i \<Longrightarrow> valid_id k' i' \<Longrightarrow> k = k' \<and> i = i'"
  by (rule object_key_inj) (auto simp: store_key_def s3_store_key_def Let_def valid_id_def split: if_splits)

lemma stored_inD: "stored_in V S w s \<Longrightarrow> valid_id k i \<Longrightarrow> sv_holds V w (store_key S k i) = lookup_object k s i"
  by (simp add: stored_in_def)

lemma stored_in_same: "stored_in V S w s \<Longrightarrow> sv_holds V w' = sv_holds V w \<Longrightarrow> stored_in V S w' s"
  by (simp add: stored_in_def)

lemma stored_in_put:
  assumes "stored_in V S w s" "valid_id k i" "sv_holds V w' = (sv_holds V w)(store_key S k i \<mapsto> p)"
  shows "stored_in V S w' (put_object k i p s)"
  unfolding stored_in_def
proof (intro allI impI)
  fix k' i' assume "valid_id k' i'"
  with assms store_key_inj [OF _ this assms(2), of S]
  show "sv_holds V w' (store_key S k' i') = lookup_object k' (put_object k i p s) i'"
    by (auto simp: stored_in_def)
qed

text \<open>
  The service failed, and the state is that before or that after the operation (or a branch
  pointer is not UTF-8 text, which the reader of the abstract store does not look at).
\<close>

definition outages :: "error set" where
  "outages = {StorageUnavailableError, ObjectMissingError, PreconditionFailedError, UnicodeDecodeError}"

definition simulates ::
  "'w s3_view \<Rightarrow> 'w s3_store \<Rightarrow> ('w, 'a) sm \<Rightarrow> ('z repo_store_scheme, 'a) sm \<Rightarrow> bool" where
  "simulates V S m a \<longleftrightarrow>
     (\<forall>w s r w'. stored_in V S w s \<longrightarrow> m w = (r, w') \<longrightarrow>
        (\<exists>s'. a s = (r, s') \<and> stored_in V S w' s') \<or>
        (\<exists>e \<in> outages. r = Inl e \<and> (stored_in V S w' s \<or> stored_in V S w' (snd (a s)))))"

lemma simulatesI:
  assumes "\<And>w s r w'. stored_in V S w s \<Longrightarrow> m w = (r, w') \<Longrightarrow>
      (\<exists>s'. a s = (r, s') \<and> stored_in V S w' s') \<or>
      (\<exists>e \<in> outages. r = Inl e \<and> (stored_in V S w' s \<or> stored_in V S w' (snd (a s))))"
  shows "simulates V S m a"
  using assms by (simp add: simulates_def)

lemma translated_outage [simp]: "translate_s3_error code \<in> outages"
  by (simp add: translate_s3_error_def outages_def)

section \<open>Reads\<close>

lemma get_cases:
  assumes "s3_laws C V" "sc_get C key w = (r, w')"
  shows "sv_holds V w' = sv_holds V w"
    "r = Inr b \<Longrightarrow> sv_holds V w key = Some (gb_body b)"
    "r = Inl code \<Longrightarrow> s3_is_404 code \<Longrightarrow> sv_holds V w key = None"
proof -
  note law = s3_lawsD(1) [OF assms(1), unfolded get_law_def, rule_format, of key w r w', OF assms(2)]
  show "sv_holds V w' = sv_holds V w" "r = Inr b \<Longrightarrow> sv_holds V w key = Some (gb_body b)"
    "r = Inl code \<Longrightarrow> s3_is_404 code \<Longrightarrow> sv_holds V w key = None"
    using law by auto
qed

lemma get_or_none_spec:
  assumes "s3_laws (st_client S) V" "s3_get_or_none S key w = (r, w')"
  shows "sv_holds V w' = sv_holds V w" "r = Inr x \<Longrightarrow> x = sv_holds V w key" "r = Inl e \<Longrightarrow> e \<in> outages"
proof -
  obtain q w1 where q: "sc_get (st_client S) key w = (q, w1)" by fastforce
  note g = get_cases [OF assms(1) q]
  show "sv_holds V w' = sv_holds V w" "r = Inr x \<Longrightarrow> x = sv_holds V w key" "r = Inl e \<Longrightarrow> e \<in> outages"
    using assms(2) q g
    by (auto simp: s3_get_or_none_def try_client_def bindX_def callX_def split: sum.splits if_splits)
qed

lemma simulates_get:
  assumes "s3_laws (st_client S) V" "valid_id k i"
  shows "simulates V S (s3_get_or_none S (store_key S k i)) (\<lambda>s. (Inr (lookup_object k s i), s))"
proof (rule simulatesI)
  fix w s r w' assume a: "stored_in V S w s" "s3_get_or_none S (store_key S k i) w = (r, w')"
  note g = get_or_none_spec [OF assms(1) a(2)]
  show "(\<exists>s'. (Inr (lookup_object k s i), s) = (r, s') \<and> stored_in V S w' s') \<or>
      (\<exists>e \<in> outages. r = Inl e \<and> (stored_in V S w' s \<or> stored_in V S w' (snd (Inr (lookup_object k s i), s))))"
    using g stored_inD [OF a(1) assms(2)] stored_in_same [OF a(1) g(1)] by (cases r) auto
qed

lemma simulates_exists:
  assumes "s3_laws (st_client S) V" "valid_id k i" "st_transfer S = None"
  shows "simulates V S (s3_object_exists S k i) (\<lambda>s. (Inr (object_exists k s i), s))"
proof (rule simulatesI)
  fix w s r w' assume a: "stored_in V S w s" "s3_object_exists S k i w = (r, w')"
  obtain q w1 where q: "sc_head (st_client S) (store_key S k i) w = (q, w1)" by fastforce
  note law = s3_lawsD(2) [OF assms(1), unfolded head_law_def, rule_format, of "store_key S k i" w, OF q]
  from a(2) q assms(3) have w': "w' = w1"
    and r: "r = (case q of Inr t \<Rightarrow> Inr True | Inl code \<Rightarrow> if s3_is_404 code then Inr False else Inl (translate_s3_error code))"
    by (auto simp: s3_object_exists_def try_client_def bindX_def callX_def split: sum.splits if_splits)
  show "(\<exists>s'. (Inr (object_exists k s i), s) = (r, s') \<and> stored_in V S w' s') \<or>
      (\<exists>e \<in> outages. r = Inl e \<and> (stored_in V S w' s \<or> stored_in V S w' (snd (Inr (object_exists k s i), s))))"
    using law r w' stored_inD [OF a(1) assms(2)] stored_in_same [OF a(1), of w']
    by (cases q) (auto simp: object_exists_def)
qed

section \<open>Writes\<close>

text \<open>What \<open>uploaded\<close> says of an object of the store.\<close>

lemma uploaded_stored:
  assumes "uploaded V (store_key S k i) p checked b w r w'" "stored_in V S w s" "valid_id k i"
  shows "case r of
       Inr _ \<Rightarrow> checked = Inr () \<and> (b \<longrightarrow> lookup_object k s i = None) \<and> stored_in V S w' (put_object k i p s)
     | Inl (ClientError code) \<Rightarrow>
         if s3_is_precondition_failed code then checked = Inr () \<and> b \<and> lookup_object k s i \<noteq> None \<and> stored_in V S w' s
         else stored_in V S w' s \<or> checked = Inr () \<and> (b \<longrightarrow> lookup_object k s i = None) \<and> stored_in V S w' (put_object k i p s)
     | Inl (Raised e) \<Rightarrow> checked = Inl e \<and> stored_in V S w' s"
  using assms(1) stored_in_put [OF assms(2,3), of w' p] stored_in_same [OF assms(2), of w'] stored_inD [OF assms(2,3)]
  by (auto simp: uploaded_def split: sum.splits s3_exc.splits if_splits)

lemma put_cases:
  assumes "s3_laws (st_client S) V" "stored_in V S w s" "valid_id k i"
    and "put_once (st_client S) (store_key S k i) p True w = (r, w')"
  shows "(r = Inr () \<and> lookup_object k s i = None \<and> stored_in V S w' (put_object k i p s)) \<or>
     (\<exists>code. r = Inl (ClientError code) \<and>
        (if s3_is_precondition_failed code then lookup_object k s i \<noteq> None \<and> stored_in V S w' s
         else stored_in V S w' s \<or> lookup_object k s i = None \<and> stored_in V S w' (put_object k i p s)))"
proof -
  obtain q where q: "sc_put (st_client S) (store_key S k i) p (IfNoneMatch ''*'') w = (q, w')" "r = map_sum ClientError id q"
    using assms(4) by (auto simp: put_once_def callX_def split: prod.splits sum.splits)
  note law = s3_lawsD(3) [OF assms(1), unfolded put_law_def, rule_format, OF q(1)]
  show ?thesis
    using law q(2) stored_in_put [OF assms(2,3), of w' p] stored_in_same [OF assms(2), of w'] stored_inD [OF assms(2,3)]
    by (cases q) (auto simp: admits_def split: if_splits)
qed

lemma simulates_write_commit:
  assumes "s3_laws (st_client S) V" "valid_id Commit i"
  shows "simulates V S (s3_write_commit_bytes S i p True) (write_new_commit i p)"
proof (rule simulatesI)
  fix w s r w' assume a: "stored_in V S w s" "s3_write_commit_bytes S i p True w = (r, w')"
  obtain q w1 where q: "put_once (st_client S) (store_key S Commit i) p True w = (q, w1)" by fastforce
  from put_cases [OF assms(1) a(1) assms(2) q] a(2) q
  show "(\<exists>s'. write_new_commit i p s = (r, s') \<and> stored_in V S w' s') \<or>
      (\<exists>e \<in> outages. r = Inl e \<and> (stored_in V S w' s \<or> stored_in V S w' (snd (write_new_commit i p s))))"
    by (auto simp: s3_write_commit_bytes_def try_client_def write_new_commit_def object_exists_def split: if_splits)
qed

lemma simulates_put_missing:
  assumes "s3_laws (st_client S) V" "valid_id k i"
  shows "simulates V S (unless_locked True (s3_put_stream S (store_key S k i) p True)) (write_missing k i p)"
proof (rule simulatesI)
  fix w s r w' assume a: "stored_in V S w s" "unless_locked True (s3_put_stream S (store_key S k i) p True) w = (r, w')"
  obtain q w1 where q: "put_once (st_client S) (store_key S k i) p True w = (q, w1)" by fastforce
  have unavailable: "translate_s3_error code \<noteq> OptimisticLockError" "\<not> s3_is_precondition_failed code \<Longrightarrow>
      translate_s3_error code \<noteq> PreconditionFailedError" for code by (auto simp: translate_s3_error_def)
  from put_cases [OF assms(1) a(1) assms(2) q] a(2) q
  show "(\<exists>s'. write_missing k i p s = (r, s') \<and> stored_in V S w' s') \<or>
      (\<exists>e \<in> outages. r = Inl e \<and> (stored_in V S w' s \<or> stored_in V S w' (snd (write_missing k i p s))))"
    by (auto simp: s3_put_stream_def unless_locked_def try_client_def write_missing_def object_exists_def unavailable
        split: if_splits)
qed

lemma simulates_stream_blob:
  assumes "s3_laws (st_client S) V" "valid_id Blob h" "st_transfer S = None"
  shows "simulates V S (s3_stream_blob P S h p True) (s3_write_blob_stream P False h p)"
proof (rule simulatesI)
  fix w s r w' assume a: "stored_in V S w s" "s3_stream_blob P S h p True w = (r, w')"
  obtain q w1 where q: "upload_stream (st_client S) (store_key S Blob h) p None None (verify_blob P h) True w = (q, w1)" by fastforce
  note u = uploaded_stored [OF upload_stream_spec [OF assms(1) _ q] a(1) assms(2)]
  show "(\<exists>s'. s3_write_blob_stream P False h p s = (r, s') \<and> stored_in V S w' s') \<or>
      (\<exists>e \<in> outages. r = Inl e \<and> (stored_in V S w' s \<or> stored_in V S w' (snd (s3_write_blob_stream P False h p s))))"
    using u a(2) q stored_inD [OF a(1) assms(2)] translated_outage
    by (auto simp: s3_stream_blob_def assms(3) try_client_def s3_write_blob_stream_def object_exists_def verify_blob_def Let_def
        split: sum.splits s3_exc.splits if_splits)
qed

section \<open>The compare-and-set of a branch\<close>

text \<open>An entity tag is quoted, and determines the content.\<close>

definition quoted :: "string \<Rightarrow> bool" where
  "quoted t \<longleftrightarrow> (\<exists>u. u \<noteq> [] \<and> hd u \<noteq> CHR 0x22 \<and> last u \<noteq> CHR 0x22 \<and> t = CHR 0x22 # u @ [CHR 0x22])"

definition tags_ok :: "'w s3_view \<Rightarrow> bool" where
  "tags_ok V \<longleftrightarrow> inj (sv_etag V) \<and> (\<forall>body. quoted (sv_etag V body))"

definition ref_text :: "string \<Rightarrow> string option" where
  "ref_text body = (let c = strip body in if c = [] then None else Some c)"

definition stored_ref :: "'w s3_view \<Rightarrow> 'w s3_store \<Rightarrow> 'w \<Rightarrow> string \<Rightarrow> string option" where
  "stored_ref V S w b = Option.bind (sv_holds V w (store_key S Ref b)) ref_text"

lemma decode_ref_text: "decode_ref body = Inr c \<Longrightarrow> c = ref_text body"
  by (auto simp: decode_ref_def ref_text_def split: if_splits)

lemma ref_text_payload: "ref_text (ref_payload new) = stored_head new"
  by (cases new) (simp_all add: ref_text_def ref_payload_def stored_head_def Let_def)

lemma ref_key_inj [simp]: "store_key S Ref b = store_key S Ref c \<longleftrightarrow> b = c"
  by (auto simp: store_key_def s3_store_key_def Let_def object_relative_key_def kind_prefix_def split: if_splits)

lemma stored_ref_put:
  "sv_holds V w' = (sv_holds V w)(store_key S Ref b \<mapsto> ref_payload new) \<Longrightarrow>
     stored_ref V S w' c = (if c = b then stored_head new else stored_ref V S w c)"
  by (simp add: stored_ref_def ref_text_payload)

lemma stored_ref_same: "sv_holds V w' = sv_holds V w \<Longrightarrow> stored_ref V S w' c = stored_ref V S w c"
  by (simp add: stored_ref_def)

lemma unquote_quoted:
  assumes "quoted t"
  shows "strip_char (CHR 0x22) t \<noteq> []"
    "(if prefix [CHR 0x22] (strip_char (CHR 0x22) t) then strip_char (CHR 0x22) t
      else CHR 0x22 # strip_char (CHR 0x22) t @ [CHR 0x22]) = t"
proof -
  from assms obtain u where u: "u \<noteq> []" "hd u \<noteq> CHR 0x22" "last u \<noteq> CHR 0x22" "t = CHR 0x22 # u @ [CHR 0x22]"
    by (auto simp: quoted_def)
  then obtain x xs y ys where xs: "u = x # xs" "x \<noteq> CHR 0x22" and ys: "u = ys @ [y]" "y \<noteq> CHR 0x22"
    by (metis append_butlast_last_id list.collapse)
  have "lstrip_char (CHR 0x22) t = u @ [CHR 0x22]" by (simp add: u(4) lstrip_char_def xs)
  moreover have "rstrip_char (CHR 0x22) (u @ [CHR 0x22]) = u" by (simp add: rstrip_char_def ys)
  ultimately have "strip_char (CHR 0x22) t = u" by (simp add: strip_char_def)
  with u show "strip_char (CHR 0x22) t \<noteq> []"
    "(if prefix [CHR 0x22] (strip_char (CHR 0x22) t) then strip_char (CHR 0x22) t
      else CHR 0x22 # strip_char (CHR 0x22) t @ [CHR 0x22]) = t"
    by (auto simp: xs prefix_Cons)
qed

text \<open>What a read that found the expected head leaves for the write.\<close>

definition agrees :: "'w s3_view \<Rightarrow> string option \<Rightarrow> s3_body option \<Rightarrow> bool" where
  "agrees V expd response \<longleftrightarrow>
     (case response of
        None \<Rightarrow> expd = None
      | Some r \<Rightarrow> ref_text (gb_body r) = expd \<and> gb_etag r \<in> {None, Some (sv_etag V (gb_body r))})"

text \<open>The service tags what it returns.\<close>

definition tagged :: "'w s3_client \<Rightarrow> bool" where
  "tagged C \<longleftrightarrow> (\<forall>key w b w'. sc_get C key w = (Inr b, w') \<longrightarrow> gb_etag b \<noteq> None)"

lemma cas_read_spec:
  assumes "s3_laws (st_client S) V" "cas_read S b expd w = (r, w')"
  shows "sv_holds V w' = sv_holds V w"
    "r = Inr (Some response) \<Longrightarrow> agrees V expd response \<and> stored_ref V S w b = expd"
    "r = Inr None \<Longrightarrow> stored_ref V S w b \<noteq> expd" "r = Inl e \<Longrightarrow> e \<in> outages"
    "r = Inr (Some response) \<Longrightarrow> sv_holds V w (store_key S Ref b) = map_option gb_body response"
    "r = Inr (Some (Some body)) \<Longrightarrow> tagged (st_client S) \<Longrightarrow> gb_etag body \<noteq> None"
proof -
  obtain q w1 where q: "sc_get (st_client S) (store_key S Ref b) w = (q, w1)" by fastforce
  note law = s3_lawsD(1) [OF assms(1), unfolded get_law_def, rule_format, of "store_key S Ref b" w, OF q]
  have all: "sv_holds V w' = sv_holds V w \<and>
      (\<forall>response. r = Inr (Some response) \<longrightarrow> agrees V expd response \<and> stored_ref V S w b = expd \<and>
         sv_holds V w (store_key S Ref b) = map_option gb_body response \<and>
         (\<forall>body. response = Some body \<longrightarrow> tagged (st_client S) \<longrightarrow> gb_etag body \<noteq> None)) \<and>
      (r = Inr None \<longrightarrow> stored_ref V S w b \<noteq> expd) \<and> (\<forall>e. r = Inl e \<longrightarrow> e \<in> outages)"
  proof (cases q)
    case (Inl code)
    with assms(2) q law translated_outage [of code] show ?thesis
      by (auto simp: cas_read_def try_client_def bindX_def callX_def bindS_def stored_ref_def agrees_def split: if_splits)
  next
    case (Inr body)
    have tag: "tagged (st_client S) \<Longrightarrow> gb_etag body \<noteq> None" using q Inr unfolding tagged_def by blast
    show ?thesis
    proof (cases "decode_ref (gb_body body)")
      case (Inl e)
      then have "e \<in> outages" by (auto simp: decode_ref_def outages_def split: if_splits)
      with Inl Inr assms(2) q law show ?thesis
        by (auto simp: cas_read_def try_client_def bindX_def callX_def bindS_def)
    next
      case (Inr c)
      with \<open>q = Inr body\<close> assms(2) q law tag decode_ref_text [OF Inr] show ?thesis
        by (auto simp: cas_read_def try_client_def bindX_def callX_def bindS_def stored_ref_def agrees_def split: if_splits)
    qed
  qed
  then show "sv_holds V w' = sv_holds V w"
    "r = Inr (Some response) \<Longrightarrow> agrees V expd response \<and> stored_ref V S w b = expd"
    "r = Inr None \<Longrightarrow> stored_ref V S w b \<noteq> expd" "r = Inl e \<Longrightarrow> e \<in> outages"
    "r = Inr (Some response) \<Longrightarrow> sv_holds V w (store_key S Ref b) = map_option gb_body response"
    "r = Inr (Some (Some body)) \<Longrightarrow> tagged (st_client S) \<Longrightarrow> gb_etag body \<noteq> None" by blast+
qed

definition wins :: "'w s3_view \<Rightarrow> 'w s3_store \<Rightarrow> string \<Rightarrow> string option \<Rightarrow> string option \<Rightarrow> 'w \<Rightarrow> 'w \<Rightarrow> bool" where
  "wins V S b expd new w w' \<longleftrightarrow> stored_ref V S w b = expd \<and>
     sv_holds V w' = (sv_holds V w)(store_key S Ref b \<mapsto> ref_payload new)"

lemma ref_put_spec:
  assumes "s3_laws (st_client S) V" "s3_write_branch_ref S b new if_match if_none_match w = (r, w')"
    and cond: "cond = (case if_match of
          Some t \<Rightarrow> IfMatch (if prefix [CHR 0x22] t then t else CHR 0x22 # t @ [CHR 0x22])
        | None \<Rightarrow> (case if_none_match of Some t \<Rightarrow> IfNoneMatch t | None \<Rightarrow> Always))"
  shows "let won = admits V cond (sv_holds V w (store_key S Ref b)) \<and>
        sv_holds V w' = (sv_holds V w)(store_key S Ref b \<mapsto> ref_payload new)
     in case r of
          Inr _ \<Rightarrow> won
        | Inl e \<Rightarrow> if e = PreconditionFailedError then \<not> admits V cond (sv_holds V w (store_key S Ref b)) \<and> sv_holds V w' = sv_holds V w
            else e \<in> outages \<and> (sv_holds V w' = sv_holds V w \<or> won)"
proof -
  obtain q where q: "sc_put (st_client S) (store_key S Ref b) (ref_payload new) cond w = (q, w')"
    and r: "r = (case q of Inr u \<Rightarrow> Inr u | Inl code \<Rightarrow>
        if s3_is_precondition_failed code then Inl PreconditionFailedError else Inl (translate_s3_error code))"
    using assms(2) unfolding s3_write_branch_ref_def Let_def cond [symmetric]
    by (auto simp: try_client_def callX_def split: prod.splits sum.splits if_splits)
  note law = s3_lawsD(3) [OF assms(1), unfolded put_law_def, rule_format, OF q]
  show ?thesis
    using law r translated_outage
    by (cases q) (auto simp: Let_def translate_s3_error_def split: if_splits)
qed

lemma cas_write_spec:
  assumes "s3_laws (st_client S) V" "tags_ok V" "agrees V expd response"
    and run: "cas_write S b new response w = (r, w')"
  shows "case r of
       Inr True \<Rightarrow> wins V S b expd new w w'
     | Inr False \<Rightarrow> sv_holds V w' = sv_holds V w
     | Inl e \<Rightarrow> e \<in> outages \<and> (sv_holds V w' = sv_holds V w \<or> wins V S b expd new w w')"
proof (cases response)
  case None
  obtain q where q: "s3_write_branch_ref S b new None (Some ''*'') w = (q, w')"
    and r: "r = (case q of Inr u \<Rightarrow> Inr True | Inl e \<Rightarrow> if e = PreconditionFailedError \<or> e = OptimisticLockError then Inr False else Inl e)"
    using run None by (auto simp: cas_write_def catch_lock_def split: prod.splits sum.splits if_splits)
  from assms(3) None have "expd = None" by (simp add: agrees_def)
  with ref_put_spec [OF assms(1) q refl] r show ?thesis
    by (auto simp: admits_def wins_def stored_ref_def Let_def outages_def split: sum.splits if_splits bool.splits)
next
  case (Some body)
  note tag = unquote_quoted [of "sv_etag V (gb_body body)"]
  show ?thesis
  proof (cases "gb_etag body")
    case None
    with run Some show ?thesis by (auto simp: cas_write_def strip_char_def lstrip_char_def rstrip_char_def)
  next
    case (Some t)
    with assms(2,3) \<open>response = Some body\<close> have t: "t = sv_etag V (gb_body body)" "quoted t" "ref_text (gb_body body) = expd"
      by (simp_all add: agrees_def tags_ok_def)
    let ?u = "strip_char (CHR 0x22) t"
    obtain q where q: "s3_write_branch_ref S b new (Some ?u) None w = (q, w')"
      and r: "r = (case q of Inr u \<Rightarrow> Inr True | Inl e \<Rightarrow> if e = PreconditionFailedError \<or> e = OptimisticLockError then Inr False else Inl e)"
      using run \<open>response = Some body\<close> Some unquote_quoted(1) [OF t(2)]
      by (auto simp: cas_write_def catch_lock_def split: prod.splits sum.splits if_splits)
    have "stored_ref V S w b = expd" if "admits V (IfMatch t) (sv_holds V w (store_key S Ref b))"
      using that t assms(2) by (auto simp: admits_def stored_ref_def tags_ok_def inj_def split: option.splits)
    with ref_put_spec [OF assms(1) q refl] r show ?thesis
      unfolding option.case unquote_quoted(2) [OF t(2)] Let_def
      by (auto simp: wins_def outages_def split: sum.splits if_splits bool.splits)
  qed
qed

text \<open>A compare-and-set that runs without interference is the one \<open>Sync\<close> assumes.\<close>

lemma stored_ref_head: "stored_in V S w s \<Longrightarrow> b \<noteq> [] \<Longrightarrow> stored_ref V S w b = ref_head s b"
  using stored_inD [of V S w s Ref b]
  by (auto simp: stored_ref_def valid_id_def lookup_object_def ref_head_def read_branch_ref_def head_of_def ref_text_def Let_def
      split: option.splits)

lemma cas_write_uncontended:
  assumes "s3_laws (st_client S) V" "tags_ok V" "agrees V expd response"
    and here: "sv_holds V w (store_key S Ref b) = map_option gb_body response"
    and tagged: "\<And>body. response = Some body \<Longrightarrow> gb_etag body \<noteq> None"
    and run: "cas_write S b new response w = (r, w')"
  shows "r \<noteq> Inr False"
proof (cases response)
  case None
  obtain q where q: "s3_write_branch_ref S b new None (Some ''*'') w = (q, w')"
    and r: "r = (case q of Inr u \<Rightarrow> Inr True | Inl e \<Rightarrow> if e = PreconditionFailedError \<or> e = OptimisticLockError then Inr False else Inl e)"
    using run None by (auto simp: cas_write_def catch_lock_def split: prod.splits sum.splits if_splits)
  from ref_put_spec [OF assms(1) q refl] r here None show ?thesis
    by (auto simp: admits_def Let_def outages_def split: sum.splits if_splits)
next
  case (Some body)
  with tagged obtain t where "gb_etag body = Some t" by blast
  with assms(2,3) Some have t: "gb_etag body = Some t" "t = sv_etag V (gb_body body)" "quoted t"
    by (simp_all add: agrees_def tags_ok_def)
  let ?u = "strip_char (CHR 0x22) t"
  obtain q where q: "s3_write_branch_ref S b new (Some ?u) None w = (q, w')"
    and r: "r = (case q of Inr u \<Rightarrow> Inr True | Inl e \<Rightarrow> if e = PreconditionFailedError \<or> e = OptimisticLockError then Inr False else Inl e)"
    using run Some t(1) unquote_quoted(1) [OF t(3)]
    by (auto simp: cas_write_def catch_lock_def split: prod.splits sum.splits if_splits)
  have "admits V (IfMatch t) (sv_holds V w (store_key S Ref b))" using here Some t by (simp add: admits_def)
  with ref_put_spec [OF assms(1) q refl] r show ?thesis
    unfolding option.case unquote_quoted(2) [OF t(3)] Let_def
    by (auto simp: outages_def split: sum.splits if_splits)
qed

lemma simulates_cas:
  assumes "s3_laws (st_client S) V" "tags_ok V" "tagged (st_client S)" "b \<noteq> []"
  shows "simulates V S (s3_compare_and_set S b new expd) (s3_compare_and_set_branch_ref b new expd)"
proof (rule simulatesI)
  fix w and s :: "'z repo_store_scheme" and r w'
  assume a: "stored_in V S w s" "s3_compare_and_set S b new expd w = (r, w')"
  have head: "stored_ref V S w b = head_of (read_branch_ref s b)"
    using stored_ref_head [OF a(1) assms(4)] by (simp add: ref_head_def)
  have valid: "valid_id Ref b" using assms(4) by (simp add: valid_id_def)
  obtain q w1 where read: "cas_read S b expd w = (q, w1)" by fastforce
  note R = cas_read_spec [OF assms(1) read]
  note kept = stored_in_same [OF a(1) R(1)]
  consider e where "q = Inl e" | "q = Inr None" | response where "q = Inr (Some response)"
    by (metis option.exhaust sum.exhaust)
  then show "(\<exists>s'. s3_compare_and_set_branch_ref b new expd s = (r, s') \<and> stored_in V S w' s') \<or>
      (\<exists>e \<in> outages. r = Inl e \<and> (stored_in V S w' s \<or> stored_in V S w' (snd (s3_compare_and_set_branch_ref b new expd s))))"
  proof cases
    case 1
    with a(2) read kept R(4) show ?thesis by (auto simp: s3_compare_and_set_def bindS_def)
  next
    case 2
    with a(2) read kept R(3) head show ?thesis
      by (auto simp: s3_compare_and_set_def bindS_def s3_compare_and_set_branch_ref_def)
  next
    case (3 response)
    with a(2) read have put: "cas_write S b new response w1 = (r, w')" by (simp add: s3_compare_and_set_def bindS_def)
    note spec = cas_write_spec [OF assms(1,2) conjunct1 [OF R(2) [OF 3]] put]
    have "r \<noteq> Inr False"
      by (rule cas_write_uncontended [OF assms(1,2) conjunct1 [OF R(2) [OF 3]] _ _ put])
        (use R(1,5,6) 3 assms(3) in auto)
    moreover have "s3_compare_and_set_branch_ref b new expd s = (Inr True, put_object Ref b (ref_payload new) s)"
      using R(2) [OF 3] head by (simp add: s3_compare_and_set_branch_ref_def)
    moreover have "wins V S b expd new w1 w' \<Longrightarrow> stored_in V S w' (put_object Ref b (ref_payload new) s)"
      using stored_in_put [OF kept valid] by (simp add: wins_def)
    moreover have "sv_holds V w' = sv_holds V w1 \<Longrightarrow> stored_in V S w' s" using stored_in_same [OF kept] by simp
    ultimately show ?thesis using spec by (cases r) (auto split: bool.splits)
  qed
qed

section \<open>Many writers\<close>

text \<open>
  Clients start a compare-and-set (the read) and finish it (the put) at any time and in any
  order; a client has at most one under way.
\<close>

datatype cas_event = Begin nat string "string option" "string option" | Finish nat

type_synonym pending = "nat \<Rightarrow> (string \<times> string option \<times> string option \<times> s3_body option) option"

definition cas_step :: "'w s3_store \<Rightarrow> cas_event \<Rightarrow> 'w \<times> pending \<Rightarrow> 'w \<times> pending" where
  "cas_step S ev st =
     (case (ev, st) of
        (Begin client b new expd, (w, waiting)) \<Rightarrow>
          (case cas_read S b expd w of
             (Inr (Some response), w') \<Rightarrow> (w', waiting(client \<mapsto> (b, new, expd, response)))
           | (_, w') \<Rightarrow> (w', waiting(client := None)))
      | (Finish client, (w, waiting)) \<Rightarrow>
          (case waiting client of
             None \<Rightarrow> (w, waiting)
           | Some (b, new, expd, response) \<Rightarrow> (snd (cas_write S b new response w), waiting(client := None))))"

text \<open>
  The updates of a branch that took effect, reported or (when the answer of the put was lost)
  not, in their order.
\<close>

definition cas_update :: "'w s3_view \<Rightarrow> 'w s3_store \<Rightarrow> string \<Rightarrow> cas_event \<Rightarrow> 'w \<times> pending \<Rightarrow> (string option \<times> string option) list" where
  "cas_update V S branch ev st =
     (case (ev, st) of
        (Finish client, (w, waiting)) \<Rightarrow>
          (case waiting client of
             None \<Rightarrow> []
           | Some (b, new, expd, response) \<Rightarrow>
               (case cas_write S b new response w of (r, w') \<Rightarrow>
                  if b = branch \<and> (r = Inr True \<or> sv_holds V w' \<noteq> sv_holds V w) then [(expd, stored_head new)] else []))
      | _ \<Rightarrow> [])"

fun cas_run :: "'w s3_store \<Rightarrow> cas_event list \<Rightarrow> 'w \<times> pending \<Rightarrow> 'w \<times> pending" where
  "cas_run S [] st = st"
| "cas_run S (ev # evs) st = cas_run S evs (cas_step S ev st)"

fun cas_updates :: "'w s3_view \<Rightarrow> 'w s3_store \<Rightarrow> string \<Rightarrow> cas_event list \<Rightarrow> 'w \<times> pending \<Rightarrow> (string option \<times> string option) list" where
  "cas_updates V S branch [] st = []"
| "cas_updates V S branch (ev # evs) st = cas_update V S branch ev st @ cas_updates V S branch evs (cas_step S ev st)"

definition pending_ok :: "'w s3_view \<Rightarrow> pending \<Rightarrow> bool" where
  "pending_ok V waiting \<longleftrightarrow> (\<forall>client b new expd response. waiting client = Some (b, new, expd, response) \<longrightarrow> agrees V expd response)"

lemma cas_step_spec:
  assumes "s3_laws (st_client S) V" "tags_ok V" "pending_ok V (snd st)"
  shows "pending_ok V (snd (cas_step S ev st))"
    "s3_refs.chain (stored_ref V S (fst st) branch) (cas_update V S branch ev st) (stored_ref V S (fst (cas_step S ev st)) branch)"
proof -
  obtain w waiting where st: "st = (w, waiting)" by (cases st)
  have both: "pending_ok V (snd (cas_step S ev st)) \<and>
     s3_refs.chain (stored_ref V S w branch) (cas_update V S branch ev st) (stored_ref V S (fst (cas_step S ev st)) branch)"
  proof (cases ev)
    case (Begin client b new expd)
    obtain r w' where run: "cas_read S b expd w = (r, w')" by fastforce
    note spec = cas_read_spec [OF assms(1) run]
    have kept: "stored_ref V S w' branch = stored_ref V S w branch" using spec(1) by (rule stored_ref_same)
    show ?thesis
    proof (cases "\<exists>response. r = Inr (Some response)")
      case True
      then obtain response where r: "r = Inr (Some response)" ..
      then have "cas_step S ev st = (w', waiting(client \<mapsto> (b, new, expd, response)))"
        by (simp add: cas_step_def Begin st run)
      then show ?thesis using kept assms(3) spec(2) [OF r] by (auto simp: pending_ok_def st cas_update_def Begin)
    next
      case False
      then have "cas_step S ev st = (w', waiting(client := None))"
        by (auto simp: cas_step_def Begin st run split: sum.splits option.splits)
      then show ?thesis using kept assms(3) by (auto simp: pending_ok_def st cas_update_def Begin)
    qed
  next
    case (Finish client)
    show ?thesis
    proof (cases "waiting client")
      case None
      then show ?thesis using assms(3) by (simp add: cas_step_def cas_update_def Finish st)
    next
      case (Some p)
      obtain b new expd response where p: "p = (b, new, expd, response)" by (cases p)
      obtain r w' where run: "cas_write S b new response w = (r, w')" by fastforce
      have step: "cas_step S ev st = (w', waiting(client := None))" by (simp add: cas_step_def Finish st Some p run)
      have upd: "cas_update V S branch ev st =
          (if b = branch \<and> (r = Inr True \<or> sv_holds V w' \<noteq> sv_holds V w) then [(expd, stored_head new)] else [])"
        by (simp add: cas_update_def Finish st Some p run)
      have "agrees V expd response" using assms(3) Some p by (auto simp: pending_ok_def st)
      note spec = cas_write_spec [OF assms(1,2) this run]
      have "sv_holds V w' = sv_holds V w \<and> r \<noteq> Inr True \<or> wins V S b expd new w w'"
        using spec by (auto split: sum.splits bool.splits)
      then have "s3_refs.chain (stored_ref V S w branch) (cas_update V S branch ev st) (stored_ref V S w' branch)"
      proof
        assume "sv_holds V w' = sv_holds V w \<and> r \<noteq> Inr True"
        then show ?thesis using stored_ref_same [of V w' w S branch] by (simp add: upd)
      next
        assume won: "wins V S b expd new w w'"
        then have eff: "stored_ref V S w' branch = (if branch = b then stored_head new else stored_ref V S w branch)"
          "stored_ref V S w b = expd" using stored_ref_put [of V w' w S b new branch] by (auto simp: wins_def)
        show ?thesis
        proof (cases "b = branch \<and> (r = Inr True \<or> sv_holds V w' \<noteq> sv_holds V w)")
          case True
          with eff show ?thesis by (auto simp: upd)
        next
          case False
          then have "stored_ref V S w' branch = stored_ref V S w branch"
            using eff stored_ref_same [of V w' w S branch] by auto
          with False show ?thesis by (auto simp: upd)
        qed
      qed
      with step show ?thesis using assms(3) by (auto simp: pending_ok_def st)
    qed
  qed
  then show "pending_ok V (snd (cas_step S ev st))"
    "s3_refs.chain (stored_ref V S (fst st) branch) (cas_update V S branch ev st) (stored_ref V S (fst (cas_step S ev st)) branch)"
    by (simp_all add: st)
qed

lemma chain_append: "s3_refs.chain a us b \<Longrightarrow> s3_refs.chain b vs c \<Longrightarrow> s3_refs.chain a (us @ vs) c"
  by (induction us arbitrary: a) auto

lemma cas_run_chain:
  assumes "s3_laws (st_client S) V" "tags_ok V" "pending_ok V (snd st)"
  shows "s3_refs.chain (stored_ref V S (fst st) branch) (cas_updates V S branch evs st) (stored_ref V S (fst (cas_run S evs st)) branch)"
  using assms(3)
proof (induction evs arbitrary: st)
  case (Cons ev evs)
  note step = cas_step_spec [OF assms(1,2) Cons.prems]
  show ?case using chain_append [OF step(2) Cons.IH [OF step(1)]] by simp
qed simp

section \<open>Deletion and enumeration\<close>

text \<open>Deletion in batches: every key is in a request, and no request is too long for the service.\<close>

lemma delete_spec:
  assumes "s3_laws (st_client S) V" "s3_delete_objects S k ids w = (r, w')"
  shows "(\<forall>key. key \<notin> store_key S k ` set ids \<longrightarrow> sv_holds V w' key = sv_holds V w key) \<and>
    (\<forall>key. sv_holds V w' key = None \<or> sv_holds V w' key = sv_holds V w key) \<and>
    (\<forall>n. r = Inr n \<longrightarrow> n = length ids \<and> (\<forall>i \<in> set ids. sv_holds V w' (store_key S k i) = None))"
  using assms
proof (induction S k ids arbitrary: w r rule: s3_delete_objects.induct)
  case (1 S k ids)
  show ?case
  proof (cases "ids = []")
    case True
    with 1(3) show ?thesis by (auto simp: s3_delete_objects.simps [of S k "[]"])
  next
    case False
    let ?batch = "take DELETE_BATCH_SIZE ids" and ?rest = "drop DELETE_BATCH_SIZE ids"
    let ?keys = "map (snd \<circ> store_key S k) ?batch"
    have bucket: "Pair (st_bucket S) ` set ?keys = store_key S k ` set ?batch" by (force simp: store_key_def image_image)
    have split: "set ids = set ?batch \<union> set ?rest" by (metis append_take_drop_id set_append)
    obtain q w1 where q: "sc_delete_many (st_client S) (st_bucket S) ?keys w = (q, w1)" by fastforce
    have "length ?keys \<le> 1000" by (simp add: DELETE_BATCH_SIZE_def)
    note law = s3_lawsD(8) [OF 1(2), unfolded delete_law_def, rule_format, OF this q, unfolded bucket]
    note law1 = conjunct1 [OF law] and law2 = conjunct1 [OF conjunct2 [OF law]] and law3 = conjunct2 [OF conjunct2 [OF law]]
    have sub: "store_key S k ` set ?batch \<subseteq> store_key S k ` set ids" using split by blast
    show ?thesis
    proof (cases q)
      case (Inl code)
      with 1(3) False q have rw: "r = Inl (translate_s3_error code)" "w' = w1"
        by (auto simp: s3_delete_objects.simps [of S k ids] try_client_def callX_def Let_def bindS_def)
      have "key \<notin> store_key S k ` set ?batch" if "key \<notin> store_key S k ` set ids" for key using sub that by blast
      then have "\<forall>key. key \<notin> store_key S k ` set ids \<longrightarrow> sv_holds V w1 key = sv_holds V w key" using law1 by blast
      then show ?thesis unfolding rw using law2 by simp
    next
      case (Inr u)
      with 1(3) False q have rest: "bindS (s3_delete_objects S k ?rest) (\<lambda>deleted. returnS (length ?batch + deleted)) w1 = (r, w')"
        by (simp add: s3_delete_objects.simps [of S k ids] try_client_def callX_def Let_def bindS_def)
      then obtain p where p: "s3_delete_objects S k ?rest w1 = (p, w')" "\<And>n. r = Inr n \<Longrightarrow> p = Inr (n - length ?batch) \<and> length ?batch \<le> n"
        by (auto simp: bindS_def split: prod.splits sum.splits)
      note IH = 1(1) [OF False refl 1(2) p(1)]
      have "length ids = length ?batch + length ?rest" by simp
      have gone: "sv_holds V w1 (store_key S k i) = None" if "i \<in> set ?batch" for i
        using law3 Inr that by (force simp: store_key_def)
      show ?thesis
      proof (intro conjI allI impI ballI)
        fix key assume "key \<notin> store_key S k ` set ids"
        then have "key \<notin> store_key S k ` set ?batch" "key \<notin> store_key S k ` set ?rest" using split by blast+
        with conjunct1 [OF IH] law1 show "sv_holds V w' key = sv_holds V w key" by metis
      next
        fix key show "sv_holds V w' key = None \<or> sv_holds V w' key = sv_holds V w key" using IH law2 by metis
      next
        fix n assume "r = Inr n"
        with p(2) conjunct2 [OF conjunct2 [OF IH]] have "n - length ?batch = length ?rest" "length ?batch \<le> n" by blast+
        with \<open>length ids = length ?batch + length ?rest\<close> show "n = length ids" by linarith
      next
        fix n i assume "r = Inr n" "i \<in> set ids"
        with split consider "i \<in> set ?batch" | "i \<in> set ?rest" by blast
        then show "sv_holds V w' (store_key S k i) = None"
        proof cases
          case 1
          with gone IH show ?thesis by metis
        next
          case 2
          with IH p(2) [OF \<open>r = Inr n\<close>] show ?thesis by blast
        qed
      qed
    qed
  qed
qed

lemma store_key_prefix:
  "i \<noteq> [] \<Longrightarrow> k \<noteq> Blob \<Longrightarrow> k \<noteq> Commit \<Longrightarrow> snd (store_key S k i) = snd (store_key S k []) @ i"
  "i \<noteq> [] \<Longrightarrow> snd (store_key S Blob i) = snd (store_key S Blob []) @ blob_relpath i"
  "i \<noteq> [] \<Longrightarrow> snd (store_key S Commit i) = snd (store_key S Commit []) @ i @ ''.json''"
  by (cases k; simp add: store_key_def s3_store_key_def object_relative_key_def kind_prefix_def Let_def)+

lemma commit_listed_key:
  "CHR ''/'' \<notin> set i \<Longrightarrow> commit_listed (snd (store_key S Commit []) @ i @ ''.json'', m) = Some (i, m)"
proof -
  assume i: "CHR ''/'' \<notin> set i"
  let ?p = "strip_char (CHR ''/'') (st_prefix S)"
  let ?u = "if ?p \<noteq> [] then ?p @ ''/commits'' else ''commits''"
  have u: "snd (store_key S Commit []) = ?u @ ''/''"
    by (simp add: store_key_def s3_store_key_def object_relative_key_def kind_prefix_def Let_def)
  have "last (split_path (v @ CHR ''/'' # x)) = x" if "CHR ''/'' \<notin> set x" for v x
    using split_on_middle [of "CHR ''/''" v x] that by (simp add: split_path_def split_on_no_sep)
  from this [of "i @ ''.json''" ?u] i have "last (split_path (snd (store_key S Commit []) @ i @ ''.json'')) = i @ ''.json''"
    by (simp add: u)
  then show ?thesis by (simp add: commit_listed_def Let_def suffix_def)
qed

text \<open>A listing names every stored object.\<close>

lemma listing_complete:
  assumes "s3_laws (st_client S) V" "s3_iter_object_ids S k w = (Inr ids, w')"
    and "valid_id k i" "k \<noteq> Ref" "k = Commit \<Longrightarrow> CHR ''/'' \<notin> set i" "sv_holds V w (store_key S k i) \<noteq> None"
  shows "i \<in> set ids"
proof -
  let ?pre = "snd (store_key S k [])"
  have ne: "i \<noteq> []" using assms(3) by (simp add: valid_id_def)
  from assms(2,4) obtain objects where list: "sc_list (st_client S) (st_bucket S) ?pre w = (Inr objects, w')"
    by (cases k)
      (auto simp: s3_iter_object_ids_def s3_iter_object_ids_with_mtimes_def iter_keys_with_mtimes_def bindX_def callX_def Let_def
        split: sum.splits prod.splits)
  have "prefix ?pre (snd (store_key S k i))"
    using ne store_key_prefix(1) [of i k S] store_key_prefix(2,3) [of i S] by (cases k) auto
  then obtain m where m: "(snd (store_key S k i), m) \<in> set objects"
    using s3_lawsD(9) [OF assms(1), unfolded list_law_def, rule_format, OF list] assms(6) by (force simp: store_key_def)
  have run: "ids = map fst (case k of
      Blob \<Rightarrow> map (\<lambda>(key, m). (filter (\<lambda>c. c \<noteq> CHR ''/'') (drop_prefix ?pre key), m)) objects
    | Tree \<Rightarrow> map (\<lambda>(key, m). (drop_prefix ?pre key, m)) objects
    | Footer \<Rightarrow> map (\<lambda>(key, m). (drop_prefix ?pre key, m)) objects
    | Commit \<Rightarrow> List.map_filter commit_listed objects
    | Ref \<Rightarrow> [])"
    using assms(2,4) list
    by (cases k)
      (auto simp: s3_iter_object_ids_def s3_iter_object_ids_with_mtimes_def iter_keys_with_mtimes_def bindX_def callX_def Let_def)
  show ?thesis
  proof (cases k)
    case Blob
    with assms(3) have hex: "is_hex_digest i" by (simp add: valid_id_def)
    have slash: "CHR ''/'' \<notin> set i" using hex by (auto simp: is_hex_digest_def list_all_iff hex_digit_def)
    then have whole: "filter (\<lambda>c. c \<noteq> CHR ''/'') i = i" by (simp add: filter_id_conv) auto
    then have "filter (\<lambda>c. c \<noteq> CHR ''/'') (take 2 i) @ filter (\<lambda>c. c \<noteq> CHR ''/'') (drop 2 i) = i"
      by (metis append_take_drop_id filter_append)
    with whole have "filter (\<lambda>c. c \<noteq> CHR ''/'') (blob_relpath i) = i" by (simp add: blob_relpath_def)
    with m run Blob store_key_prefix(2) [OF ne, of S] show ?thesis by (force simp: drop_prefix_def image_iff)
  next
    case Commit
    with m run store_key_prefix(3) [OF ne, of S] commit_listed_key [of i S m] assms(5) show ?thesis
      by (force simp: List.map_filter_def image_iff)
  qed (use m run ne store_key_prefix(1) [of i k S] assms(4) in \<open>force simp: drop_prefix_def image_iff\<close>)+
qed

end
