(* ===== verification/S3_Sample.thy ===== *)
theory S3_Sample
  imports S3_Spec
begin

text \<open>
  A bucket kept in memory, whose client meets \<open>s3_laws\<close>: the theorems about the S3 store are
  applied to it. It answers every call; its entity tags quote the content.
\<close>

record bucket =
  bk_objects :: "(bucket_key \<times> string) list"
  bk_uploads :: "(string \<times> (bucket_key \<times> string list)) list"

definition memory_tag :: "string \<Rightarrow> string" where
  "memory_tag b = CHR 0x22 # CHR ''x'' # b @ [CHR ''x'', CHR 0x22]"

definition memory_view :: "bucket s3_view" where
  "memory_view =
     \<lparr>sv_holds = (\<lambda>w. map_of (bk_objects w)), sv_uploads = (\<lambda>w. map_of (bk_uploads w)), sv_etag = memory_tag\<rparr>"

definition memory_put :: "bucket_key \<Rightarrow> string \<Rightarrow> bucket \<Rightarrow> bucket" where
  "memory_put key body w = w\<lparr>bk_objects := alist_put key body (bk_objects w)\<rparr>"

definition memory_client :: "bucket s3_client" where
  "memory_client =
     \<lparr>sc_get = (\<lambda>key w.
        (case map_of (bk_objects w) key of
           None \<Rightarrow> Inl ''NoSuchKey''
         | Some b \<Rightarrow> Inr \<lparr>gb_body = b, gb_etag = Some (memory_tag b)\<rparr>, w)),
      sc_head = (\<lambda>key w.
        (case map_of (bk_objects w) key of None \<Rightarrow> Inl ''404'' | Some b \<Rightarrow> Inr (Some (memory_tag b)), w)),
      sc_put = (\<lambda>key body cond w.
        if admits memory_view cond (map_of (bk_objects w) key) then (Inr (), memory_put key body w)
        else (Inl ''PreconditionFailed'', w)),
      sc_delete = (\<lambda>key w. (Inr (), w\<lparr>bk_objects := filter (\<lambda>x. fst x \<noteq> key) (bk_objects w)\<rparr>)),
      sc_delete_many = (\<lambda>b keys w.
        (Inr (), w\<lparr>bk_objects := filter (\<lambda>x. fst x \<notin> Pair b ` set keys) (bk_objects w)\<rparr>)),
      sc_list = (\<lambda>b pre w.
        (Inr (map (\<lambda>x. (snd (fst x), 1)) (filter (\<lambda>x. fst (fst x) = b \<and> prefix pre (snd (fst x))) (bk_objects w))), w)),
      sc_create = (\<lambda>key w. let i = show_nat (length (bk_uploads w)) in
        (Inr i, w\<lparr>bk_uploads := alist_put i (key, []) (bk_uploads w)\<rparr>)),
      sc_part = (\<lambda>key i n body w.
        (case map_of (bk_uploads w) i of
           None \<Rightarrow> (Inl ''NoSuchUpload'', w)
         | Some (_, parts) \<Rightarrow> (Inr (memory_tag body), w\<lparr>bk_uploads := alist_put i (key, parts @ [body]) (bk_uploads w)\<rparr>))),
      sc_complete = (\<lambda>key i named w.
        (case map_of (bk_uploads w) i of
           None \<Rightarrow> (Inl ''NoSuchUpload'', w)
         | Some (_, parts) \<Rightarrow> (Inr (), memory_put key (concat parts) w))),
      sc_abort = (\<lambda>key i w. (Inr (), w))\<rparr>"

lemma memory_sel [simp]:
  "sv_holds memory_view = (\<lambda>w. map_of (bk_objects w))" "sv_uploads memory_view = (\<lambda>w. map_of (bk_uploads w))"
  "sv_etag memory_view = memory_tag" "map_of (bk_objects (memory_put key body w)) = (map_of (bk_objects w))(key \<mapsto> body)"
  "bk_uploads (memory_put key body w) = bk_uploads w"
  by (simp_all add: memory_view_def memory_put_def)

lemma map_of_filter_keys: "map_of (filter (\<lambda>x. fst x \<notin> A) kvs) k = (if k \<in> A then None else map_of kvs k)"
  by (induction kvs) auto

lemma memory_laws: "s3_laws memory_client memory_view"
proof -
  have "get_law memory_client memory_view" "head_law memory_client memory_view"
    by (auto simp: get_law_def head_law_def memory_client_def s3_is_404_def split: option.splits)
  moreover have "put_law memory_client memory_view"
    by (auto simp: put_law_def memory_client_def s3_is_precondition_failed_def split: if_splits)
  moreover have "create_law memory_client memory_view" "abort_law memory_client memory_view"
    by (auto simp: create_law_def abort_law_def memory_client_def Let_def)
  moreover have "part_law memory_client memory_view" "complete_law memory_client memory_view"
    by (auto simp: part_law_def complete_law_def memory_client_def)
  moreover have "delete_law memory_client memory_view"
    by (auto simp: delete_law_def memory_client_def map_of_filter_keys)
  moreover have "list_law memory_client memory_view"
    by (auto simp: list_law_def memory_client_def map_of_eq_None_iff image_iff; force)
  ultimately show ?thesis by (simp add: s3_laws_def)
qed

lemma memory_tags: "tags_ok memory_view" "tagged memory_client"
proof -
  have "inj memory_tag" by (auto simp: inj_def memory_tag_def)
  moreover have "quoted (memory_tag b)" for b
    unfolding quoted_def memory_tag_def by (rule exI [of _ "CHR ''x'' # b @ [CHR ''x'']"]) simp
  ultimately show "tags_ok memory_view" by (simp add: tags_ok_def)
  show "tagged memory_client" by (auto simp: tagged_def memory_client_def split: option.splits)
qed

definition memory_store :: "bucket s3_store" where
  "memory_store = \<lparr>st_bucket = ''b'', st_prefix = ''p'', st_client = memory_client, st_transfer = None\<rparr>"

definition empty_bucket :: bucket where
  "empty_bucket = \<lparr>bk_objects = [], bk_uploads = []\<rparr>"

lemma memory_store_laws: "s3_laws (st_client memory_store) memory_view"
  by (simp add: memory_store_def memory_laws)

end
