(* ===== verification/Transfer_Backends.thy ===== *)
theory Transfer_Backends
  imports S3_Spec
begin

text \<open>
  The ways bytes get to and from a bucket outside the object store: \<open>S3StorageBackend\<close>
  (\<open>core/objects/source.py\<close>) and the transfer backends of \<open>core/objects/transfer.py\<close>, one over the
  boto3 client and one that runs the program \<open>s5cmd\<close>. The program is a parameter: a function
  from its command line and input to its outcome, over a state that holds the local files too.

  The lemmas: the manifest of a batch has exactly one line per object, whatever the paths are;
  after a successful batch download every blob of the plan is on disk and hashes to its id.
\<close>

section \<open>S3StorageBackend\<close>

record 'w storage =
  sb_bucket :: string
  sb_prefix :: string
  sb_client :: "'w s3_client"

definition sb_key :: "'w storage \<Rightarrow> string \<Rightarrow> string" where
  "sb_key B relative_path =
     (let p = strip_char (CHR ''/'') (sb_prefix B) in
      if p \<noteq> [] then p @ ''/'' @ lstrip_char (CHR ''/'') relative_path else lstrip_char (CHR ''/'') relative_path)"

definition sb_read_bytes :: "'w storage \<Rightarrow> string \<Rightarrow> ('w, string) sm" where
  "sb_read_bytes B path =
     try_client (bindX (callX (sc_get (sb_client B) (sb_bucket B, sb_key B path))) (\<lambda>r. returnX (gb_body r)))
       (\<lambda>code. raiseS (translate_s3_error code))"

definition sb_write_bytes :: "'w storage \<Rightarrow> string \<Rightarrow> string \<Rightarrow> bool \<Rightarrow> ('w, unit) sm" where
  "sb_write_bytes B path payload if_none_match =
     try_client (put_once (sb_client B) (sb_bucket B, sb_key B path) payload if_none_match)
       (\<lambda>code. if if_none_match \<and> s3_is_precondition_failed code then raiseS PreconditionFailedError
               else raiseS (translate_s3_error code))"

definition sb_upload_file :: "'w storage \<Rightarrow> string \<Rightarrow> string \<Rightarrow> bool \<Rightarrow> ('w, unit) sm" where
  "sb_upload_file B path local_file if_none_match =
     try_client (upload_file (sb_client B) (sb_bucket B, sb_key B path) local_file if_none_match)
       (\<lambda>code. if if_none_match \<and> s3_is_precondition_failed code then raiseS PreconditionFailedError
               else raiseS (translate_s3_error code))"

definition sb_download_to_file :: "'w storage \<Rightarrow> string \<Rightarrow> ('w, string) sm" where
  "sb_download_to_file B path =
     try_client (download_to_file (sb_client B) (sb_bucket B, sb_key B path)) (\<lambda>code. raiseS (translate_s3_error code))"

definition sb_exists :: "'w storage \<Rightarrow> string \<Rightarrow> ('w, bool) sm" where
  "sb_exists B path =
     try_client (bindX (callX (sc_head (sb_client B) (sb_bucket B, sb_key B path))) (\<lambda>_. returnX True))
       (\<lambda>code. if s3_is_404 code then returnS False else raiseS (translate_s3_error code))"

definition sb_iter_keys :: "'w storage \<Rightarrow> string \<Rightarrow> ('w, string list) sm" where
  "sb_iter_keys B pre =
     (let p = strip_char (CHR ''/'') (sb_prefix B);
          relative = (\<lambda>key. if p \<noteq> [] \<and> prefix (p @ ''/'') key then drop (length p + 1) key else key)
      in try_client
           (bindX (callX (sc_list (sb_client B) (sb_bucket B) (sb_key B pre))) (\<lambda>objects. returnX (map (relative \<circ> fst) objects)))
           (\<lambda>code. raiseS (translate_s3_error code)))"

definition sb_delete :: "'w storage \<Rightarrow> string \<Rightarrow> ('w, unit) sm" where
  "sb_delete B path =
     try_client (callX (sc_delete (sb_client B) (sb_bucket B, sb_key B path))) (\<lambda>code. raiseS (translate_s3_error code))"

definition sb_etag :: "'w storage \<Rightarrow> string \<Rightarrow> ('w, string option) sm" where
  "sb_etag B path =
     try_client
       (bindX (callX (sc_head (sb_client B) (sb_bucket B, sb_key B path))) (\<lambda>tag.
          let t = strip_char (CHR 0x22) (case tag of None \<Rightarrow> [] | Some t \<Rightarrow> t)
          in returnX (if t = [] then None else Some t)))
       (\<lambda>code. if s3_is_404 code then returnS None else raiseS (translate_s3_error code))"

section \<open>The boto3 backend\<close>

definition boto_backend :: "'w s3_client \<Rightarrow> string \<Rightarrow> ('w storage \<times> string) res" where
  "boto_backend C remote_uri =
     bindE (parse_s3_uri remote_uri) (\<lambda>(bucket, key).
       Inr (\<lparr>sb_bucket = bucket, sb_prefix = [], sb_client = C\<rparr>, key))"

definition boto_upload :: "'w s3_client \<Rightarrow> string \<Rightarrow> string \<Rightarrow> bool \<Rightarrow> ('w, unit) sm" where
  "boto_upload C local_file remote_uri if_not_exists =
     bindS (liftS (boto_backend C remote_uri)) (\<lambda>(B, key). sb_upload_file B key local_file if_not_exists)"

definition boto_download :: "'w s3_client \<Rightarrow> string \<Rightarrow> ('w, string) sm" where
  "boto_download C remote_uri = bindS (liftS (boto_backend C remote_uri)) (\<lambda>(B, key). sb_download_to_file B key)"

definition boto_delete :: "'w s3_client \<Rightarrow> string \<Rightarrow> ('w, unit) sm" where
  "boto_delete C remote_uri = bindS (liftS (boto_backend C remote_uri)) (\<lambda>(B, key). sb_delete B key)"

definition boto_exists :: "'w s3_client \<Rightarrow> string \<Rightarrow> ('w, bool) sm" where
  "boto_exists C remote_uri = bindS (liftS (boto_backend C remote_uri)) (\<lambda>(B, key). sb_exists B key)"

definition boto_transfer :: "'w s3_client \<Rightarrow> 'w blob_transfer" where
  "boto_transfer C = \<lparr>bt_upload = boto_upload C, bt_download = boto_download C, bt_exists = boto_exists C\<rparr>"

text \<open>
  The objects of a plan one by one, over the local files and the service. A failed download leaves
  the files as they were.
\<close>

definition boto_upload_item :: "'w s3_client \<Rightarrow> transfer_item \<Rightarrow> ((string \<Rightarrow> string option) \<times> 'w, unit) sm" where
  "boto_upload_item C x st =
     (case boto_backend C (ti_uri x) of
        Inl e \<Rightarrow> (Inl e, st)
      | Inr _ \<Rightarrow>
          (case fst st (ti_local x) of
             None \<Rightarrow> (Inl FileNotFoundError, st)
           | Some b \<Rightarrow> (case boto_upload C b (ti_uri x) True (snd st) of (r, w) \<Rightarrow> (r, (fst st, w)))))"

definition boto_download_item :: "'w s3_client \<Rightarrow> transfer_item \<Rightarrow> ((string \<Rightarrow> string option) \<times> 'w, unit) sm" where
  "boto_download_item C x st =
     (case boto_download C (ti_uri x) (snd st) of
        (Inl e, w) \<Rightarrow> (Inl e, (fst st, w))
      | (Inr b, w) \<Rightarrow> (Inr (), ((fst st)(ti_local x \<mapsto> b), w)))"

definition boto_transfer_plan :: "'w s3_client \<Rightarrow> transfer_plan \<Rightarrow> ((string \<Rightarrow> string option) \<times> 'w, nat) sm" where
  "boto_transfer_plan C plan =
     bindS (case tp_direction plan of
              Upload \<Rightarrow> mapS (boto_upload_item C) (tp_items plan)
            | Download \<Rightarrow> mapS (boto_download_item C) (tp_items plan)) (\<lambda>_.
       returnS (length (tp_items plan)))"

text \<open>This listing lets a \<open>ClientError\<close> escape.\<close>

definition boto_list_objects :: "world \<Rightarrow> string \<Rightarrow> s3_exc + s3_object list" where
  "boto_list_objects W uri_prefix =
     (case parse_s3_uri uri_prefix of
        Inl e \<Rightarrow> Inl (Raised e)
      | Inr (bucket, pre) \<Rightarrow>
          (case w_list W bucket pre of
             Inl code \<Rightarrow> Inl (ClientError code)
           | Inr xs \<Rightarrow>
               Inr (map (\<lambda>x. \<lparr>so_bucket = bucket, so_key = s3_key x, so_size = s3_size x, so_mtime = s3_mtime x,
                              so_etag = None\<rparr>) xs)))"

section \<open>The s5cmd backend\<close>

datatype outcome = NotInstalled | Exited int string string

record 'v s5cmd =
  s5_path :: string
  s5_endpoint :: "string option"
  s5_program :: "string list \<Rightarrow> string option \<Rightarrow> 'v \<Rightarrow> outcome \<times> 'v"
  s5_file :: "'v \<Rightarrow> string \<Rightarrow> string option"
  s5_make_parent :: "string \<Rightarrow> 'v \<Rightarrow> 'v"

definition require_batch_safe :: "string list \<Rightarrow> unit res" where
  "require_batch_safe values =
     (if \<exists>v \<in> set values. CHR 0x0A \<in> set v \<or> CHR 0x0D \<in> set v then Inl ValueError else Inr ())"

definition s5_run :: "'v s5cmd \<Rightarrow> string list \<Rightarrow> string option \<Rightarrow> ('v, string) sm" where
  "s5_run X args input_data v =
     (let endpoint = (case s5_endpoint X of None \<Rightarrow> [] | Some e \<Rightarrow> if e = [] then [] else [''--endpoint-url'', e])
      in case s5_program X (s5_path X # endpoint @ args) input_data v of
           (NotInstalled, v') \<Rightarrow> (Inl StorageUnavailableError, v')
         | (Exited code stdout stderr, v') \<Rightarrow>
             (if code = 0 then Inr stdout else Inl StorageUnavailableError, v'))"

definition transfer_line :: "'v s5cmd \<Rightarrow> direction \<Rightarrow> transfer_item \<Rightarrow> ('v, string) sm" where
  "transfer_line X dir x =
     (case dir of
        Upload \<Rightarrow>
          bindS (liftS (require_batch_safe [ti_local x, ti_uri x])) (\<lambda>_.
            returnS (''cp --if-not-exists '' @ ti_local x @ '' '' @ ti_uri x))
      | Download \<Rightarrow>
          bindS (liftS (require_batch_safe [ti_uri x, ti_local x])) (\<lambda>_.
          bindS (\<lambda>v. (Inr (), s5_make_parent X (ti_local x) v)) (\<lambda>_.
            returnS (''cp '' @ ti_uri x @ '' '' @ ti_local x))))"

definition batch_input :: "string list \<Rightarrow> string" where
  "batch_input lines = join_on (CHR 0x0A) lines @ [CHR 0x0A]"

fun verify_downloaded_blobs :: "prims \<Rightarrow> ('v \<Rightarrow> string \<Rightarrow> string option) \<Rightarrow> transfer_item list \<Rightarrow> 'v \<Rightarrow> unit res" where
  "verify_downloaded_blobs P files [] v = Inr ()"
| "verify_downloaded_blobs P files (x # xs) v =
     (if ti_kind x \<noteq> Blob then verify_downloaded_blobs P files xs v
      else case files v (ti_local x) of
        None \<Rightarrow> Inl ObjectMissingError
      | Some b \<Rightarrow>
          let digest = blake3 P b in
          if digest \<noteq> ti_id x then Inl (BlobIntegrityError (ti_id x) digest)
          else verify_downloaded_blobs P files xs v)"

definition s5_transfer :: "prims \<Rightarrow> 'v s5cmd \<Rightarrow> transfer_plan \<Rightarrow> ('v, nat) sm" where
  "s5_transfer P X plan =
     bindS (mapS (transfer_line X (tp_direction plan)) (tp_items plan)) (\<lambda>lines.
     bindS (s5_run X [''run''] (Some (batch_input lines))) (\<lambda>_.
     bindS (if tp_direction plan = Download then asksS (verify_downloaded_blobs P (s5_file X) (tp_items plan)) else returnS ()) (\<lambda>_.
       returnS (length (tp_items plan)))))"

definition s5_upload :: "'v s5cmd \<Rightarrow> string \<Rightarrow> string \<Rightarrow> bool \<Rightarrow> ('v, unit) sm" where
  "s5_upload X local_path remote_uri if_not_exists =
     (let flag = (if if_not_exists then ''--if-not-exists'' else []);
          parts = [''cp'', flag, local_path, remote_uri]
      in bindS (s5_run X (filter (\<lambda>p. p \<noteq> []) parts) None) (\<lambda>_. returnS ()))"

definition s5_download :: "'v s5cmd \<Rightarrow> string \<Rightarrow> string \<Rightarrow> ('v, unit) sm" where
  "s5_download X remote_uri local_path =
     bindS (\<lambda>v. (Inr (), s5_make_parent X local_path v)) (\<lambda>_.
     bindS (s5_run X [''cp'', remote_uri, local_path] None) (\<lambda>_. returnS ()))"

definition s5_delete :: "'v s5cmd \<Rightarrow> string \<Rightarrow> ('v, unit) sm" where
  "s5_delete X remote_uri = bindS (s5_run X [''rm'', remote_uri] None) (\<lambda>_. returnS ())"

definition s5_exists :: "'v s5cmd \<Rightarrow> string \<Rightarrow> ('v, bool) sm" where
  "s5_exists X remote_uri v =
     (case s5_run X [''ls'', remote_uri] None v of
        (Inl e, v') \<Rightarrow> (if e = StorageUnavailableError then Inr False else Inl e, v')
      | (Inr stdout, v') \<Rightarrow> (Inr (strip stdout \<noteq> []), v'))"

text \<open>\<open>line.split(None, n)\<close>: words between white space, the last one with the rest of the line.\<close>

fun take_word :: "string \<Rightarrow> string" where
  "take_word [] = []"
| "take_word (c # cs) = (if ws_len_by ws_wide (c # cs) \<noteq> 0 then [] else c # take_word cs)"

fun split_words :: "nat \<Rightarrow> string \<Rightarrow> string list" where
  "split_words 0 s = (let t = strip_left (ws_len_by ws_wide) s in if t = [] then [] else [t])"
| "split_words (Suc n) s =
     (let t = strip_left (ws_len_by ws_wide) s; word = take_word t in
      if t = [] then [] else word # split_words n (drop (length word) t))"

definition listed_object :: "string \<Rightarrow> string \<Rightarrow> s3_object option" where
  "listed_object bucket line =
     (let parts = split_words 3 line in
      if strip line = [] \<or> length parts < 4 then None
      else
        let sz = (case int_of_text (parts ! 2) of
                    Inr i \<Rightarrow> i
                  | Inl _ \<Rightarrow> (case int_of_text (parts ! 1) of Inr i \<Rightarrow> i | Inl _ \<Rightarrow> 0));
            key = last parts; pre = ''s3://'' @ bucket @ ''/''
        in Some \<lparr>so_bucket = bucket, so_key = (if prefix pre key then drop (length pre) key else lstrip_char (CHR ''/'') key),
                 so_size = sz, so_mtime = 0, so_etag = None\<rparr>)"

definition s5_list_objects :: "'v s5cmd \<Rightarrow> string \<Rightarrow> ('v, s3_object list) sm" where
  "s5_list_objects X uri_prefix =
     bindS (liftS (parse_s3_uri uri_prefix)) (\<lambda>(bucket, _).
     bindS (s5_run X [''ls'', uri_prefix] None) (\<lambda>stdout.
       returnS (List.map_filter (listed_object bucket) (splitlines (strip stdout)))))"

section \<open>The choice of a backend\<close>

datatype backend_choice = BotoBackend | S5cmdBackend

definition build_blob_transfer_backend :: "string \<Rightarrow> backend_choice res" where
  "build_blob_transfer_backend backend_type =
     (if backend_type = ''boto3'' then Inr BotoBackend
      else if backend_type = ''s5cmd'' then Inr S5cmdBackend
      else Inl ValueError)"

section \<open>Batches\<close>

lemma transfer_lines_safe:
  assumes "mapS (transfer_line X dir) xs v = (Inr lines, v')"
  shows "length lines = length xs \<and> (\<forall>l \<in> set lines. CHR 0x0A \<notin> set l \<and> CHR 0x0D \<notin> set l)"
  using assms
proof (induction xs arbitrary: v lines)
  case (Cons x xs)
  then obtain l v1 ls where l: "transfer_line X dir x v = (Inr l, v1)"
    and ls: "mapS (transfer_line X dir) xs v1 = (Inr ls, v')" "lines = l # ls" by (auto simp: bindS_Inr)
  have "CHR 0x0A \<notin> set l \<and> CHR 0x0D \<notin> set l"
    using l by (cases dir) (auto simp: transfer_line_def require_batch_safe_def bindS_def split: if_splits)
  with Cons.IH [OF ls(1)] ls(2) show ?case by simp
qed simp

text \<open>The program reads its input line by line: it gets the lines that were written, and no other.\<close>

lemma batch_lines:
  assumes "lines \<noteq> []" "\<forall>l \<in> set lines. CHR 0x0A \<notin> set l"
  shows "split_on (CHR 0x0A) (batch_input lines) = lines @ [[]]"
proof -
  have "batch_input lines = join_on (CHR 0x0A) (lines @ [[]])"
    using assms(1) by (simp add: batch_input_def join_on_append)
  with assms(2) show ?thesis by (simp add: split_join)
qed

lemma verified_blobs:
  "verify_downloaded_blobs P files xs v = Inr () \<Longrightarrow> x \<in> set xs \<Longrightarrow> ti_kind x = Blob \<Longrightarrow>
     \<exists>b. files v (ti_local x) = Some b \<and> blake3 P b = ti_id x"
  by (induction xs) (auto simp: Let_def split: if_splits option.splits)

lemma s5_transfer_spec:
  assumes "s5_transfer P X plan v = (Inr n, v')" "tp_direction plan = Download"
  shows "n = length (tp_items plan) \<and>
    (\<forall>x \<in> set (tp_items plan). ti_kind x = Blob \<longrightarrow> (\<exists>b. s5_file X v' (ti_local x) = Some b \<and> blake3 P b = ti_id x))"
  using assms verified_blobs [of P "s5_file X" "tp_items plan" v']
  by (auto simp: s5_transfer_def bindS_Inr asksS_def)

text \<open>A path with a blank in it is more than one operand of its line.\<close>

lemma blank_splits_line:
  "fst (transfer_line X Upload \<lparr>ti_kind = Blob, ti_id = i, ti_local = ''/my data/b'', ti_uri = ''s3://b/k''\<rparr> v) =
     Inr ''cp --if-not-exists /my data/b s3://b/k''"
  by (simp add: transfer_line_def require_batch_safe_def bindS_def)

section \<open>The store over the boto3 backend\<close>

text \<open>With a bucket and a prefix that an address can hold, the backend works on the objects of the store.\<close>

definition addressable :: "'w s3_store \<Rightarrow> bool" where
  "addressable S \<longleftrightarrow> st_bucket S \<noteq> [] \<and> CHR ''/'' \<notin> set (st_bucket S) \<and> list_all plain_uri_char (st_bucket S @ st_prefix S)"

lemma strip_char_sub: "set (strip_char c s) \<subseteq> set s"
  unfolding strip_char_def rstrip_char_def lstrip_char_def by (metis set_dropWhileD set_rev subsetI)

lemma blob_key_plain:
  assumes "is_hex_digest h" "list_all plain_uri_char pre"
  shows "list_all plain_uri_char (s3_store_key pre Blob h)" "s3_store_key pre Blob h \<noteq> []"
    "hd (s3_store_key pre Blob h) \<noteq> CHR ''/''"
proof -
  let ?p = "strip_char (CHR ''/'') pre"
  have hex: "list_all plain_uri_char h"
    using assms(1) by (auto simp: is_hex_digest_def list_all_iff hex_digit_def plain_uri_char_def url_end_def Let_def)
  have h: "h \<noteq> []" using assms(1) by (auto simp: is_hex_digest_def)
  have "set (blob_relpath h) \<subseteq> insert (CHR ''/'') (set h)"
    by (auto simp: blob_relpath_def dest: in_set_takeD in_set_dropD)
  moreover have "plain_uri_char (CHR ''/'')" by (simp add: plain_uri_char_def url_end_def)
  ultimately have "list_all plain_uri_char (blob_relpath h)" using hex by (auto simp: list_all_iff)
  then have rel: "list_all plain_uri_char (object_relative_key Blob h)"
    using h by (simp add: object_relative_key_def plain_uri_char_def url_end_def)
  have "list_all plain_uri_char ?p" using assms(2) strip_char_sub [of "CHR ''/''" pre] by (auto simp: list_all_iff)
  with rel show "list_all plain_uri_char (s3_store_key pre Blob h)"
    by (simp add: s3_store_key_def Let_def plain_uri_char_def url_end_def)
  show "s3_store_key pre Blob h \<noteq> []" "hd (s3_store_key pre Blob h) \<noteq> CHR ''/''"
    using strip_char_ends(1) [of "CHR ''/''" pre] h
    by (auto simp: s3_store_key_def Let_def object_relative_key_def)
qed

lemma boto_backend_blob:
  assumes "addressable S" "is_hex_digest h"
  shows "\<exists>B key. boto_backend C (s3_blob_uri S h) = Inr (B, key) \<and> sb_client B = C \<and>
     (sb_bucket B, sb_key B key) = store_key S Blob h"
proof -
  note plain = blob_key_plain [OF assms(2), of "st_prefix S"]
  have all: "list_all plain_uri_char (st_bucket S @ s3_store_key (st_prefix S) Blob h)"
    using assms(1) plain(1) by (simp add: addressable_def)
  have "parse_s3_uri (s3_blob_uri S h) = Inr (st_bucket S, s3_store_key (st_prefix S) Blob h)"
    unfolding s3_blob_uri_def by (rule parse_s3_uri_plain) (use assms(1) plain all in \<open>simp_all add: addressable_def\<close>)
  moreover have "lstrip_char (CHR ''/'') (s3_store_key (st_prefix S) Blob h) = s3_store_key (st_prefix S) Blob h"
    using assms(1) plain(2,3) by (cases "s3_store_key (st_prefix S) Blob h") (auto simp: lstrip_char_def addressable_def)
  ultimately show ?thesis
    by (simp add: boto_backend_def sb_key_def strip_char_def lstrip_char_def rstrip_char_def store_key_def)
qed

lemma simulates_stream_boto:
  assumes "s3_laws (st_client S) V" "is_hex_digest h" "st_transfer S = Some (boto_transfer (st_client S))" "addressable S"
  shows "simulates V S (s3_stream_blob P S h p True) (s3_write_blob_stream P True h p)"
proof (rule simulatesI)
  fix w and s :: "'z repo_store_scheme" and r w'
  assume a: "stored_in V S w s" "s3_stream_blob P S h p True w = (r, w')"
  have valid: "valid_id Blob h" using assms(2) by (auto simp: valid_id_def is_hex_digest_def)
  obtain B key where B: "boto_backend (st_client S) (s3_blob_uri S h) = Inr (B, key)" "sb_client B = st_client S"
    "(sb_bucket B, sb_key B key) = store_key S Blob h" using boto_backend_blob [OF assms(4,2)] by blast
  show "(\<exists>s'. s3_write_blob_stream P True h p s = (r, s') \<and> stored_in V S w' s') \<or>
      (\<exists>e \<in> outages. r = Inl e \<and> (stored_in V S w' s \<or> stored_in V S w' (snd (s3_write_blob_stream P True h p s))))"
  proof (cases "blake3 P p = h")
    case False
    with a show ?thesis
      by (auto simp: s3_stream_blob_def assms(3) verify_blob_def bindS_def s3_write_blob_stream_def Let_def)
  next
    case True
    obtain q w1 where q: "s3_object_exists (S\<lparr>st_transfer := None\<rparr>) Blob h w = (q, w1)" by fastforce
    have key: "store_key (S\<lparr>st_transfer := None\<rparr>) = store_key S" by (intro ext) (simp add: store_key_def)
    have "s3_object_exists S Blob h w = (q, w1)"
      using q B by (simp add: s3_object_exists_def assms(3) boto_transfer_def boto_exists_def bindS_def sb_exists_def key)
    with a(2) True have step: "bindS (\<lambda>w. (q, w1)) (\<lambda>present. if present then returnS ()
        else bt_upload (boto_transfer (st_client S)) p (s3_blob_uri S h) True) w = (r, w')"
      by (simp add: s3_stream_blob_def assms(3) verify_blob_def bindS_def transfer_up_def)
    have same: "stored_in V (S\<lparr>st_transfer := None\<rparr>) = stored_in V S" by (intro ext) (simp add: stored_in_def key)
    note ex = simulates_exists [of "S\<lparr>st_transfer := None\<rparr>" V Blob h, simplified, OF assms(1) valid,
        unfolded simulates_def same, rule_format, OF a(1) q]
    obtain u w2 where u: "upload_file (st_client S) (store_key S Blob h) p True w1 = (u, w2)" by fastforce
    have up: "bt_upload (boto_transfer (st_client S)) p (s3_blob_uri S h) True w1 =
        (case u of Inr x \<Rightarrow> Inr x | Inl (ClientError code) \<Rightarrow>
           Inl (if s3_is_precondition_failed code then PreconditionFailedError else translate_s3_error code)
         | Inl (Raised e) \<Rightarrow> Inl e, w2)"
      using u B by (auto simp: boto_transfer_def boto_upload_def bindS_def sb_upload_file_def try_client_def
          split: sum.splits s3_exc.splits)
    show ?thesis
    proof (cases q)
      case (Inl e)
      with step ex show ?thesis by (auto simp: bindS_def)
    next
      case (Inr present)
      with ex have pres: "present = object_exists Blob s h" "stored_in V S w1 s" by auto
      note st = uploaded_stored [OF upload_file_spec [OF assms(1) u] pres(2) valid]
      show ?thesis
      proof (cases present)
        case True
        with step Inr pres \<open>blake3 P p = h\<close> show ?thesis by (simp add: bindS_def s3_write_blob_stream_def)
      next
        case False
        with step Inr up have "r = (case u of Inr x \<Rightarrow> Inr x | Inl (ClientError code) \<Rightarrow>
           Inl (if s3_is_precondition_failed code then PreconditionFailedError else translate_s3_error code)
         | Inl (Raised e) \<Rightarrow> Inl e)" "w' = w2" by (simp_all add: bindS_def)
        with st False pres \<open>blake3 P p = h\<close> translated_outage show ?thesis
          by (auto simp: s3_write_blob_stream_def object_exists_def outages_def split: sum.splits s3_exc.splits if_splits)
      qed
    qed
  qed
qed

end
