(* ===== verification/Config.thy ===== *)
theory Config
  imports Transfer_Backends
begin

text \<open>
  The configuration of a repository (\<open>core/config.py\<close>), and how a repository is found, created and
  opened (\<open>core/repository.py\<close>). A configuration file is the JSON document \<open>msgspec\<close> writes; opening
  decides which store, which client state and which transfer backend an address means.

  The lemmas: a saved configuration loads again, a loaded one satisfies the checks of its class,
  creating a repository twice is creating it once and overwrites nothing, and the repository
  found from a directory is the nearest one above it.
\<close>

section \<open>The configuration\<close>

definition CURRENT_FORMAT_VERSION :: int where
  "CURRENT_FORMAT_VERSION = 1"

definition SUPPORTED_FORMAT_VERSIONS :: "int list" where
  "SUPPORTED_FORMAT_VERSIONS = [1]"

record base_config =
  cf_format_version :: int
  cf_dataset_root :: string
  cf_default_branch :: string
  cf_identity :: string
  cf_transfer_backend :: "string option"
  cf_parquet_footer :: bool
  cf_trust_mtime :: bool
  cf_gc_grace_seconds :: int

record s3_settings =
  s3c_bucket :: string
  s3c_prefix :: string
  s3c_endpoint_url :: "string option"

datatype config = LocalConfig (config_base: base_config) | S3Config (config_base: base_config) (config_s3: s3_settings)

definition default_base :: base_config where
  "default_base =
     \<lparr>cf_format_version = CURRENT_FORMAT_VERSION, cf_dataset_root = ''.'', cf_default_branch = ''main'',
      cf_identity = ''content'', cf_transfer_backend = None, cf_parquet_footer = False, cf_trust_mtime = False,
      cf_gc_grace_seconds = 86400\<rparr>"

text \<open>\<open>__post_init__\<close> of the classes.\<close>

definition check_base :: "base_config \<Rightarrow> unit res" where
  "check_base c =
     (if cf_format_version c \<notin> set SUPPORTED_FORMAT_VERSIONS then Inl ValueError
      else if cf_dataset_root c = [] then Inl ValueError
      else if cf_default_branch c = [] then Inl ValueError
      else Inr ())"

definition check_config :: "config \<Rightarrow> unit res" where
  "check_config c =
     (case c of
        LocalConfig b \<Rightarrow> check_base b
      | S3Config b x \<Rightarrow> bindE (check_base b) (\<lambda>_. if s3c_bucket x = [] then Inl ValueError else Inr ()))"

text \<open>\<open>LocalConfig.validate\<close> looks for the dataset root; the base class checks nothing.\<close>

definition validate_config :: "world \<Rightarrow> config \<Rightarrow> unit res" where
  "validate_config W c =
     (case c of
        LocalConfig b \<Rightarrow> if \<not> path_exists W (w_resolve W (cf_dataset_root b)) then Inl ValueError else Inr ()
      | S3Config b x \<Rightarrow> Inr ())"

definition init_config ::
  "string \<Rightarrow> bool \<Rightarrow> string \<Rightarrow> string option \<Rightarrow> string option \<Rightarrow> string option \<Rightarrow> world \<Rightarrow> config res" where
  "init_config dataset_root is_s3 default_branch s3_bucket s3_prefix s3_endpoint_url W =
     (let b = default_base\<lparr>cf_dataset_root := dataset_root, cf_default_branch := default_branch\<rparr>;
          made = (\<lambda>c. bindE (check_config c) (\<lambda>_. bindE (validate_config W c) (\<lambda>_. Inr c)))
      in if is_s3 then
           (if \<not> truthy s3_bucket then Inl ValueError
            else made (S3Config b \<lparr>s3c_bucket = the s3_bucket, s3c_prefix = (if truthy s3_prefix then the s3_prefix else []),
                                   s3c_endpoint_url = s3_endpoint_url\<rparr>))
         else made (LocalConfig b))"

section \<open>The document\<close>

definition base_fields :: "base_config \<Rightarrow> (string \<times> json) list" where
  "base_fields c =
     [(''format_version'', JInt (cf_format_version c)), (''dataset_root'', JStr (cf_dataset_root c)),
      (''default_branch'', JStr (cf_default_branch c)), (''identity'', JStr (cf_identity c)),
      (''transfer_backend'', opt_json (cf_transfer_backend c)), (''parquet_footer'', JBool (cf_parquet_footer c)),
      (''trust_mtime'', JBool (cf_trust_mtime c)), (''gc_grace_seconds'', JInt (cf_gc_grace_seconds c))]"

definition config_json :: "config \<Rightarrow> json" where
  "config_json c =
     (case c of
        LocalConfig b \<Rightarrow> JObj ((''backend'', JStr ''local'') # base_fields b)
      | S3Config b x \<Rightarrow>
          JObj ((''backend'', JStr ''s3'') # base_fields b @
            [(''bucket'', JStr (s3c_bucket x)), (''prefix'', JStr (s3c_prefix x)),
             (''endpoint_url'', opt_json (s3c_endpoint_url x))]))"

text \<open>A field with a default value may be absent.\<close>

definition str_or :: "(string \<times> json) list \<Rightarrow> string \<Rightarrow> string \<Rightarrow> string res" where
  "str_or kvs k dflt = (case obj_get kvs k of None \<Rightarrow> Inr dflt | Some (JStr s) \<Rightarrow> Inr s | _ \<Rightarrow> Inl DecodeError)"

definition int_or :: "(string \<times> json) list \<Rightarrow> string \<Rightarrow> int \<Rightarrow> int res" where
  "int_or kvs k dflt = (case obj_get kvs k of None \<Rightarrow> Inr dflt | Some (JInt i) \<Rightarrow> Inr i | _ \<Rightarrow> Inl DecodeError)"

definition bool_or :: "(string \<times> json) list \<Rightarrow> string \<Rightarrow> bool \<Rightarrow> bool res" where
  "bool_or kvs k dflt = (case obj_get kvs k of None \<Rightarrow> Inr dflt | Some (JBool b) \<Rightarrow> Inr b | _ \<Rightarrow> Inl DecodeError)"

definition base_of_json :: "(string \<times> json) list \<Rightarrow> base_config res" where
  "base_of_json kvs =
     bindE (int_or kvs ''format_version'' CURRENT_FORMAT_VERSION) (\<lambda>v.
     bindE (str_or kvs ''dataset_root'' ''.'') (\<lambda>d.
     bindE (str_or kvs ''default_branch'' ''main'') (\<lambda>m.
     bindE (str_or kvs ''identity'' ''content'') (\<lambda>i.
     bindE (opt_str_field kvs ''transfer_backend'') (\<lambda>t.
     bindE (bool_or kvs ''parquet_footer'' False) (\<lambda>f.
     bindE (bool_or kvs ''trust_mtime'' False) (\<lambda>u.
     bindE (int_or kvs ''gc_grace_seconds'' 86400) (\<lambda>g.
       Inr \<lparr>cf_format_version = v, cf_dataset_root = d, cf_default_branch = m, cf_identity = i,
            cf_transfer_backend = t, cf_parquet_footer = f, cf_trust_mtime = u, cf_gc_grace_seconds = g\<rparr>))))))))"

text \<open>The tag decides the class; a check that fails is reported as a decoding error.\<close>

definition checked :: "config \<Rightarrow> config res" where
  "checked c = (case check_config c of Inl e \<Rightarrow> Inl DecodeError | Inr _ \<Rightarrow> Inr c)"

definition config_of_json :: "json \<Rightarrow> config res" where
  "config_of_json v =
     (case v of
        JObj kvs \<Rightarrow>
          (case obj_get kvs ''backend'' of
             Some (JStr tag) \<Rightarrow>
               if tag = ''local'' then bindE (base_of_json kvs) (\<lambda>b. checked (LocalConfig b))
               else if tag = ''s3'' then
                 bindE (base_of_json kvs) (\<lambda>b.
                 bindE (str_or kvs ''bucket'' []) (\<lambda>u.
                 bindE (str_or kvs ''prefix'' []) (\<lambda>p.
                 bindE (opt_str_field kvs ''endpoint_url'') (\<lambda>e.
                   checked (S3Config b \<lparr>s3c_bucket = u, s3c_prefix = p, s3c_endpoint_url = e\<rparr>)))))
               else Inl DecodeError
           | _ \<Rightarrow> Inl DecodeError)
      | _ \<Rightarrow> Inl DecodeError)"

definition save_config :: "prims \<Rightarrow> config \<Rightarrow> string" where
  "save_config P c = json_encode P (config_json c) @ [CHR 0x0A]"

text \<open>\<open>None\<close> without a file.\<close>

definition load_config :: "prims \<Rightarrow> string option \<Rightarrow> config option res" where
  "load_config P stored =
     (case stored of
        None \<Rightarrow> Inr None
      | Some payload \<Rightarrow>
          if \<not> utf8_ok payload then Inl UnicodeDecodeError
          else (case json_decode P payload of
                  None \<Rightarrow> Inl DecodeError
                | Some v \<Rightarrow> bindE (config_of_json v) (\<lambda>c. Inr (Some c))))"

section \<open>Finding and creating a repository\<close>

definition is_dir_at :: "world \<Rightarrow> string list \<Rightarrow> bool" where
  "is_dir_at W path = (case fs_at (w_fs W) path of Some (Dir kvs) \<Rightarrow> True | _ \<Rightarrow> False)"

text \<open>The directories from the start upward; \<open>up\<close> is a reversed path.\<close>

fun find_upward :: "world \<Rightarrow> string list \<Rightarrow> string list option" where
  "find_upward W [] = (if is_dir_at W [''.reflake''] then Some [] else None)"
| "find_upward W (p # up) =
     (if is_dir_at W (rev (p # up) @ [''.reflake'']) then Some (rev (p # up)) else find_upward W up)"

definition find_repo_root :: "world \<Rightarrow> string \<Rightarrow> bool \<Rightarrow> string list res" where
  "find_repo_root W start must_exist =
     (case find_upward W (rev (w_resolve W start)) of
        Some path \<Rightarrow> Inr path
      | None \<Rightarrow> if must_exist then Inl (NotARepositoryError start) else Inr (w_resolve W start))"

text \<open>
  \<open>init_repository\<close> on the configuration file and the store; the directories it creates are not
  a state of the model.
\<close>

definition init_repository ::
  "env \<Rightarrow> string \<Rightarrow> string \<Rightarrow> (string option \<times> 'z repo_store_scheme, unit) sm" where
  "init_repository E dataset_root default_branch st =
     (let ensure_ref = (\<lambda>stored s. case ensure_unborn LocalStore default_branch s of (r, s') \<Rightarrow> (r, (stored, s')))
      in case st of
           (Some payload, s) \<Rightarrow> ensure_ref (Some payload) s
         | (None, s) \<Rightarrow>
             (case init_config dataset_root False default_branch None None None (ev_world E) of
                Inl e \<Rightarrow> (Inl e, (None, s))
              | Inr c \<Rightarrow> ensure_ref (Some (save_config (ev_prims E) c)) s))"

section \<open>Opening a repository\<close>

datatype store_at = LocalAt "string list" | S3At string string "string option"

record opened =
  op_worktree :: "string list"
  op_store :: store_at
  op_client_root :: "string list"
  op_transfer :: "backend_choice option"

definition default_remote_client_root :: "prims \<Rightarrow> string list \<Rightarrow> string \<Rightarrow> string list" where
  "default_remote_client_root P worktree_root repo_uri =
     worktree_root @ [''.reflake'', ''clients'', take 16 (blake3 P repo_uri)]"

definition named_backend :: "string option \<Rightarrow> backend_choice option res" where
  "named_backend name =
     (case name of None \<Rightarrow> Inr None | Some n \<Rightarrow> bindE (build_blob_transfer_backend n) (\<lambda>b. Inr (Some b)))"

definition resolve_or :: "world \<Rightarrow> string option \<Rightarrow> string list \<Rightarrow> string list" where
  "resolve_or W path dflt = (if truthy path then w_resolve W (the path) else dflt)"

text \<open>\<open>ReflakeRepository.__init__\<close> loads the configuration of the working tree and validates it.\<close>

definition construct_repository :: "env \<Rightarrow> (string list \<Rightarrow> string option) \<Rightarrow> opened \<Rightarrow> opened res" where
  "construct_repository E stored o' =
     bindE (load_config (ev_prims E) (stored (op_worktree o'))) (\<lambda>config.
     bindE (case config of None \<Rightarrow> Inr () | Some c \<Rightarrow> validate_config (ev_world E) c) (\<lambda>_. Inr o'))"

text \<open>
  The arguments as the command line gives them: paths as text, the backend by its name.
  \<open>stored\<close> is the configuration file of a directory.
\<close>

definition open_repository ::
  "env \<Rightarrow> (string list \<Rightarrow> string option) \<Rightarrow> string \<Rightarrow> string option \<Rightarrow> string option \<Rightarrow> string option \<Rightarrow> string option
     \<Rightarrow> bool \<Rightarrow> opened res" where
  "open_repository E stored rt worktree client_root s3_endpoint blob_transfer must_exist =
     (let W = ev_world E in
      if prefix ''s3://'' rt then
        bindE (parse_s3_uri rt) (\<lambda>(bucket, pre).
        bindE (named_backend blob_transfer) (\<lambda>transfer.
          let worktree_root = w_resolve W (if truthy worktree then the worktree else ''.'') in
          construct_repository E stored
            \<lparr>op_worktree = worktree_root, op_store = S3At bucket pre s3_endpoint,
             op_client_root = resolve_or W client_root (default_remote_client_root (ev_prims E) worktree_root rt),
             op_transfer = transfer\<rparr>))
      else
        bindE (if rt = ''.'' then
                 (if is_dir_at W (w_resolve W ''.'' @ [''.reflake'']) then Inr (w_resolve W ''.'')
                  else find_repo_root W ''.'' must_exist)
               else Inr (w_resolve W rt)) (\<lambda>repo_root.
          if must_exist \<and> \<not> is_dir_at W (repo_root @ [''.reflake'']) then Inl (NotARepositoryError (abs_path repo_root))
          else
            bindE (load_config (ev_prims E) (stored repo_root)) (\<lambda>config.
              let endpoint = (case s3_endpoint of
                    Some e \<Rightarrow> Some e
                  | None \<Rightarrow> (case config of Some (S3Config b x) \<Rightarrow> s3c_endpoint_url x | _ \<Rightarrow> None));
                  wanted = (case (blob_transfer, config) of
                    (None, Some c) \<Rightarrow>
                      (if truthy (cf_transfer_backend (config_base c)) then cf_transfer_backend (config_base c) else None)
                  | (t, _) \<Rightarrow> t)
              in bindE (named_backend wanted) (\<lambda>transfer.
                   case config of
                     Some (S3Config b x) \<Rightarrow>
                       let worktree_root = resolve_or W worktree repo_root in
                       construct_repository E stored
                         \<lparr>op_worktree = worktree_root, op_store = S3At (s3c_bucket x) (s3c_prefix x) endpoint,
                          op_client_root = resolve_or W client_root worktree_root, op_transfer = transfer\<rparr>
                   | _ \<Rightarrow>
                       construct_repository E stored
                         \<lparr>op_worktree = resolve_or W worktree repo_root, op_store = LocalAt repo_root,
                          op_client_root = resolve_or W client_root repo_root, op_transfer = transfer\<rparr>))))"

section \<open>Lemmas\<close>

text \<open>A stored configuration reads back; what is read satisfies the checks.\<close>

lemma obj_get_append: "k \<notin> fst ` set ys \<Longrightarrow> obj_get (xs @ ys) k = obj_get xs k"
  by (simp add: obj_get_def map_add_dom_app_simps(3) dom_map_of_conv_image_fst)

lemma base_of_fields:
  assumes "fst ` set others \<subseteq> {''bucket'', ''prefix'', ''endpoint_url''}"
  shows "base_of_json ((''backend'', t) # base_fields b @ others) = Inr b"
    "obj_get ((''backend'', t) # base_fields b @ others) ''backend'' = Some t"
proof -
  have get: "obj_get ((''backend'', t) # base_fields b @ others) k = obj_get ((''backend'', t) # base_fields b) k"
    if "k \<notin> {''bucket'', ''prefix'', ''endpoint_url''}" for k
    using obj_get_append [of k others "(''backend'', t) # base_fields b"] assms that by auto
  have "opt_str_field ((''backend'', t) # base_fields b) ''transfer_backend'' = Inr (cf_transfer_backend b)"
    by (cases "cf_transfer_backend b") (simp_all add: opt_str_field_def base_fields_def obj_get_def opt_json_def)
  then show "base_of_json ((''backend'', t) # base_fields b @ others) = Inr b"
    by (simp add: base_of_json_def str_or_def int_or_def bool_or_def opt_str_field_def get)
      (simp add: obj_get_def base_fields_def)
  show "obj_get ((''backend'', t) # base_fields b @ others) ''backend'' = Some t"
    by (simp add: get) (simp add: obj_get_def base_fields_def)
qed

lemma config_of_config_json:
  assumes "check_config c = Inr ()"
  shows "config_of_json (config_json c) = Inr c"
proof (cases c)
  case (LocalConfig b)
  with assms base_of_fields [of "[]" "JStr ''local''" b] show ?thesis
    by (simp add: config_json_def config_of_json_def checked_def)
next
  case (S3Config b x)
  let ?others = "[(''bucket'', JStr (s3c_bucket x)), (''prefix'', JStr (s3c_prefix x)), (''endpoint_url'', opt_json (s3c_endpoint_url x))]"
  have get: "obj_get ((''backend'', JStr ''s3'') # base_fields b @ ?others) k = obj_get ?others k"
    if "k \<in> fst ` set ?others" for k using that by (auto simp: obj_get_def)
  have "opt_str_field ((''backend'', JStr ''s3'') # base_fields b @ ?others) ''endpoint_url'' = Inr (s3c_endpoint_url x)"
    by (cases "s3c_endpoint_url x") (simp_all add: opt_str_field_def obj_get_def opt_json_def)
  moreover have same: "\<lparr>s3c_bucket = s3c_bucket x, s3c_prefix = s3c_prefix x, s3c_endpoint_url = s3c_endpoint_url x\<rparr> = x" by simp
  ultimately show ?thesis using S3Config assms base_of_fields [of ?others "JStr ''s3''" b]
    by (simp add: config_json_def config_of_json_def checked_def str_or_def get) (simp add: obj_get_def same)
qed

lemma loaded_checked: "load_config P stored = Inr (Some c) \<Longrightarrow> check_config c = Inr ()"
proof -
  have "checked d = Inr c \<Longrightarrow> check_config c = Inr ()" for d by (auto simp: checked_def split: sum.splits)
  then have "config_of_json v = Inr c \<Longrightarrow> check_config c = Inr ()" for v
    by (auto simp: config_of_json_def bindE_Inr_iff split: json.splits option.splits if_splits)
  then show "load_config P stored = Inr (Some c) \<Longrightarrow> check_config c = Inr ()"
    by (auto simp: load_config_def bindE_Inr_iff split: option.splits if_splits)
qed

lemma ensure_unborn_spec:
  assumes "ensure_unborn LocalStore b s = (Inr (), s')"
  shows "read_branch_ref s' b \<noteq> None"
    "read_branch_ref s' c = (if c = b \<and> read_branch_ref s b = None then Some None else read_branch_ref s c)"
proof -
  have "read_branch_ref s' b \<noteq> None \<and>
     (\<forall>c. read_branch_ref s' c = (if c = b \<and> read_branch_ref s b = None then Some None else read_branch_ref s c))"
  proof (cases "read_branch_ref s b = None")
    case True
    with assms obtain u where u: "compare_and_set_branch_ref b None None s = (u, s')" "u \<noteq> Inl e" for e
      by (auto simp: ensure_unborn_def store_cas_def bindS_def split: prod.splits sum.splits)
    from u(1) True have "write_branch_ref b None s = (Inr (), s')"
      using u(2) by (auto simp: compare_and_set_branch_ref_def head_of_def bindS_def split: prod.splits sum.splits)
    then have "s' = s\<lparr>rs_refs := alist_put b [] (rs_refs s)\<rparr>" by (auto simp: write_branch_ref_def split: if_splits)
    with True show ?thesis by (auto simp: read_branch_ref_def)
  next
    case False
    with assms show ?thesis by (simp add: ensure_unborn_def)
  qed
  then show "read_branch_ref s' b \<noteq> None"
    "read_branch_ref s' c = (if c = b \<and> read_branch_ref s b = None then Some None else read_branch_ref s c)" by blast+
qed

lemma init_repository_spec:
  assumes "init_repository E dataset_root b st = (Inr (), st')"
  shows "init_repository E dataset_root b st' = (Inr (), st')" "fst st' \<noteq> None"
    "fst st \<noteq> None \<Longrightarrow> fst st' = fst st"
    "read_branch_ref (snd st') c = (if c = b \<and> read_branch_ref (snd st) b = None then Some None else read_branch_ref (snd st) c)"
proof -
  obtain payload where p: "fst st' = Some payload" "fst st \<noteq> None \<Longrightarrow> fst st' = fst st"
      "ensure_unborn LocalStore b (snd st) = (Inr (), snd st')"
    using assms by (cases st) (auto simp: init_repository_def Let_def split: option.splits sum.splits prod.splits)
  note u = ensure_unborn_spec [OF p(3)]
  show "fst st' \<noteq> None" "fst st \<noteq> None \<Longrightarrow> fst st' = fst st"
    "read_branch_ref (snd st') c = (if c = b \<and> read_branch_ref (snd st) b = None then Some None else read_branch_ref (snd st) c)"
    using p u by auto
  show "init_repository E dataset_root b st' = (Inr (), st')"
    using p(1) u(1) by (cases st') (auto simp: init_repository_def ensure_unborn_def)
qed

text \<open>The nearest directory above the start that has a repository.\<close>

lemma find_upward_spec:
  "case find_upward W up of
     Some path \<Rightarrow> suffix (rev path) up \<and> is_dir_at W (path @ [''.reflake'']) \<and>
       (\<forall>above. suffix above up \<longrightarrow> is_dir_at W (rev above @ [''.reflake'']) \<longrightarrow> suffix above (rev path))
   | None \<Rightarrow> \<forall>above. suffix above up \<longrightarrow> \<not> is_dir_at W (rev above @ [''.reflake''])"
proof (induction up)
  case (Cons p up)
  then show ?case by (auto simp: suffix_Cons split: option.splits)
qed simp

lemma find_repo_root_nearest:
  assumes "find_repo_root W start True = Inr path"
  shows "prefix path (w_resolve W start)" "is_dir_at W (path @ [''.reflake''])"
    "prefix other (w_resolve W start) \<Longrightarrow> is_dir_at W (other @ [''.reflake'']) \<Longrightarrow> prefix other path"
proof -
  have "find_upward W (rev (w_resolve W start)) = Some path"
    using assms by (auto simp: find_repo_root_def split: option.splits)
  with find_upward_spec [where W = W and up = "rev (w_resolve W start)"]
  have spec: "suffix (rev path) (rev (w_resolve W start))" "is_dir_at W (path @ [''.reflake''])"
    "\<forall>above. suffix above (rev (w_resolve W start)) \<longrightarrow> is_dir_at W (rev above @ [''.reflake'']) \<longrightarrow> suffix above (rev path)"
    by simp_all
  show "prefix path (w_resolve W start)" "is_dir_at W (path @ [''.reflake''])" using spec by (simp_all add: suffix_to_prefix)
  show "prefix other (w_resolve W start) \<Longrightarrow> is_dir_at W (other @ [''.reflake'']) \<Longrightarrow> prefix other path"
    using spec(3) [rule_format, of "rev other"] by (simp add: suffix_to_prefix)
qed

end
