(* ===== verification/Restore.thy ===== *)
theory Restore
  imports Repo_Ops
begin

text \<open>
  What \<open>restore_files\<close> of \<open>core/repository_ops.py\<close> does to the working directory: it deletes
  nothing, touches an existing path only with the force flag, and every path it reports holds a
  file whose digest is the one the commit records for it.
\<close>

section \<open>Restoring writes what it says\<close>

text \<open>The content and time of the file at a path, if there is one.\<close>

definition file_in :: "fs \<Rightarrow> string list \<Rightarrow> (string \<times> int) option" where
  "file_in d ps = (case fs_at d ps of Some (File b m) \<Rightarrow> Some (b, m) | _ \<Rightarrow> None)"

lemma fs_at_not_dir: "\<not> (\<exists>kvs. d = Dir kvs) \<Longrightarrow> fs_at d (p # ps) = None"
  by (cases d) auto

lemma make_dirs_at:
  "make_dirs qs d = Inr d' \<Longrightarrow> file_in d' ps = file_in d ps \<and> (fs_at d ps \<noteq> None \<longrightarrow> fs_at d' ps \<noteq> None)"
proof (induction qs d arbitrary: d' ps rule: make_dirs.induct)
  case (2 p qs kvs)
  let ?d0 = "case map_of kvs p of None \<Rightarrow> Dir [] | Some d \<Rightarrow> d"
  from 2(2) obtain d1 where d1: "make_dirs qs ?d0 = Inr d1" "d' = Dir (alist_put p d1 kvs)"
    by (auto simp: bindE_Inr_iff)
  show ?case
  proof (cases ps)
    case Nil
    with d1 show ?thesis by (simp add: file_in_def)
  next
    case (Cons x xs)
    show ?thesis
    proof (cases "x = p")
      case True
      have "file_in (Dir []) xs = None" by (cases xs) (simp_all add: file_in_def)
      moreover note 2(1) [OF d1(1), of xs]
      ultimately show ?thesis using True Cons d1(2) by (cases "map_of kvs p") (simp_all add: file_in_def)
    qed (use Cons d1 in \<open>simp add: file_in_def\<close>)
  qed
qed (auto)

lemma put_file_at:
  "put_file qs b clock d = Inr d' \<Longrightarrow>
     file_in d' ps = (if ps = qs then Some (b, clock) else file_in d ps) \<and> (fs_at d ps \<noteq> None \<longrightarrow> fs_at d' ps \<noteq> None)"
proof (induction qs b clock d arbitrary: d' ps rule: put_file.induct)
  case (1 p b clock kvs)
  then have d': "d' = Dir (alist_put p (File b clock) kvs)" and old: "\<not> (\<exists>sub. map_of kvs p = Some (Dir sub))"
    by (auto split: option.splits fs.splits)
  show ?case
  proof (cases ps)
    case Nil
    with d' show ?thesis by (simp add: file_in_def)
  next
    case (Cons x xs)
    show ?thesis
    proof (cases "x = p \<and> xs \<noteq> []")
      case True
      then obtain y ys where xs: "xs = y # ys" by (cases xs) auto
      have "fs_at (Dir kvs) ps = None"
      proof (cases "map_of kvs p")
        case (Some e)
        with old have "fs_at e (y # ys) = None" by (intro fs_at_not_dir) auto
        with Some True Cons xs show ?thesis by simp
      qed (use True Cons in simp)
      with True Cons xs d' show ?thesis by (simp add: file_in_def)
    qed (use Cons d' in \<open>auto simp: file_in_def\<close>)
  qed
next
  case (2 p q qs b clock kvs)
  then obtain d0 d1 where d1: "map_of kvs p = Some d0" "put_file (q # qs) b clock d0 = Inr d1" "d' = Dir (alist_put p d1 kvs)"
    by (auto simp: bindE_Inr_iff split: option.splits)
  show ?case
  proof (cases ps)
    case Nil
    with d1 show ?thesis by (simp add: file_in_def)
  next
    case (Cons x xs)
    with d1 2(1) [OF d1(1,2), of xs] show ?thesis by (auto simp: file_in_def)
  qed
qed simp_all

text \<open>What a run of restores may have done to the file system.\<close>

definition restored_at :: "env \<Rightarrow> (string \<times> entry) list \<Rightarrow> int \<Rightarrow> fs \<Rightarrow> string list \<Rightarrow> bool" where
  "restored_at E es clock d ps \<longleftrightarrow>
     (\<exists>(p, e) \<in> set es. \<exists>b. ps = root_parts E p \<and> file_in d ps = Some (b, clock) \<and>
        (truthy (blob_hash e) \<longrightarrow> blob_hash e = Some (blake3 (ev_prims E) b)))"

definition restored_ok ::
  "env \<Rightarrow> (string \<times> entry) list \<Rightarrow> int \<Rightarrow> bool \<Rightarrow> fs \<Rightarrow> fs \<Rightarrow> bool" where
  "restored_ok E es clock force d d' \<longleftrightarrow>
     (\<forall>ps. (fs_at d ps \<noteq> None \<longrightarrow> fs_at d' ps \<noteq> None) \<and>
        (file_in d' ps = file_in d ps \<or> (force \<or> fs_at d ps = None) \<and> restored_at E es clock d' ps))"

lemma restored_ok_refl: "restored_ok E es clock force d d"
  by (simp add: restored_ok_def)

lemma restored_okD:
  "restored_ok E es clock force d d' \<Longrightarrow> file_in d' ps \<noteq> file_in d ps \<Longrightarrow>
     (force \<or> fs_at d ps = None) \<and> restored_at E es clock d' ps"
  unfolding restored_ok_def by metis

lemma restored_at_same: "file_in d' ps = file_in d ps \<Longrightarrow> restored_at E es clock d' ps = restored_at E es clock d ps"
  by (simp add: restored_at_def)

lemma restored_ok_trans:
  assumes 1: "restored_ok E es clock force d d1" and 2: "restored_ok E es clock force d1 d2"
  shows "restored_ok E es clock force d d2"
  unfolding restored_ok_def
proof (intro allI conjI)
  fix ps
  note A = 1 [unfolded restored_ok_def, rule_format, of ps] and B = 2 [unfolded restored_ok_def, rule_format, of ps]
  from A B show "fs_at d ps \<noteq> None \<longrightarrow> fs_at d2 ps \<noteq> None" by blast
  show "file_in d2 ps = file_in d ps \<or> (force \<or> fs_at d ps = None) \<and> restored_at E es clock d2 ps"
  proof (cases "file_in d2 ps = file_in d1 ps")
    case True
    with A restored_at_same [OF True, of E es clock] show ?thesis by auto
  next
    case False
    with B have "restored_at E es clock d2 ps" "force \<or> fs_at d1 ps = None" by simp_all
    with A show ?thesis by auto
  qed
qed

lemma write_entry_ok:
  assumes "write_entry_to_file E s clock e target d = (r, d')"
  shows "(r = Inr () \<and> (\<exists>b. put_file target b clock d = Inr d' \<and>
           (truthy (blob_hash e) \<longrightarrow> blob_hash e = Some (blake3 (ev_prims E) b)))) \<or> (\<exists>x. r = Inl x) \<and> d' = d"
proof (cases "entry_content E s e d")
  case (Inl x)
  with assms show ?thesis by (auto simp: write_entry_to_file_def asksS_def bindS_def)
next
  case (Inr b)
  show ?thesis
  proof (cases "truthy (blob_hash e) \<and> blake3 (ev_prims E) b \<noteq> the (blob_hash e)")
    case True
    with assms Inr show ?thesis by (auto simp: write_entry_to_file_def asksS_def bindS_def Let_def)
  next
    case False
    with assms Inr have "lift_fs (put_file target b clock) d = (r, d')"
      by (auto simp: write_entry_to_file_def asksS_def bindS_def Let_def)
    with False show ?thesis by (cases "put_file target b clock d") (auto simp: lift_fs_def truthy_def)
  qed
qed

lemma restore_one_ok:
  assumes run: "restore_one E s clock force pe d = (r, d')" and mem: "pe \<in> set es"
  shows "restored_ok E es clock force d d'"
    and "r = Inr rs \<Longrightarrow> p \<in> set rs \<Longrightarrow> restored_at E es clock d' (root_parts E p)"
proof -
  obtain p0 e where pe: "pe = (p0, e)" by (cases pe)
  let ?t = "root_parts E p0"
  have "restored_ok E es clock force d d' \<and> (\<forall>rs. r = Inr rs \<longrightarrow> (\<forall>p \<in> set rs. restored_at E es clock d' (root_parts E p)))"
  proof (cases "fs_at d ?t \<noteq> None \<and> \<not> force")
    case True
    with run pe show ?thesis by (auto simp: restore_one_def Let_def asksS_def bindS_def restored_ok_refl)
  next
    case new: False
    show ?thesis
    proof (cases "make_dirs (butlast ?t) d")
      case (Inl x)
      with run pe new show ?thesis by (auto simp: restore_one_def Let_def asksS_def bindS_def lift_fs_def restored_ok_refl)
    next
      case (Inr d1)
      note dirs = make_dirs_at [OF Inr]
      then have dirs_ok: "restored_ok E es clock force d d1" by (simp add: restored_ok_def)
      show ?thesis
      proof (cases "truthy (blob_hash e) \<or> truthy (e_uri e)")
        case False
        with run pe new Inr have "r = Inr []" "d' = d1"
          by (auto simp: restore_one_def Let_def asksS_def bindS_def lift_fs_def)
        with dirs_ok show ?thesis by simp
      next
        case True
        obtain q d2 where w: "write_entry_to_file E s clock e ?t d1 = (q, d2)" by fastforce
        with run pe new Inr True have r: "d' = d2" "r = (case q of Inl x \<Rightarrow> Inl x | Inr u \<Rightarrow> Inr [p0])"
          by (auto simp: restore_one_def Let_def asksS_def bindS_def lift_fs_def split: sum.splits)
        from write_entry_ok [OF w] show ?thesis
        proof
          assume "(\<exists>x. q = Inl x) \<and> d2 = d1"
          with r dirs_ok show ?thesis by auto
        next
          assume "q = Inr () \<and> (\<exists>b. put_file ?t b clock d1 = Inr d2 \<and>
             (truthy (blob_hash e) \<longrightarrow> blob_hash e = Some (blake3 (ev_prims E) b)))"
          then obtain b where q: "q = Inr ()" and put: "put_file ?t b clock d1 = Inr d2"
            and hash: "truthy (blob_hash e) \<longrightarrow> blob_hash e = Some (blake3 (ev_prims E) b)" by blast
          note at = put_file_at [OF put]
          have here: "restored_at E es clock d2 ?t"
            using at [of ?t] mem pe hash by (auto simp: restored_at_def)
          have "restored_ok E es clock force d d2" unfolding restored_ok_def
          proof
            fix ps
            show "(fs_at d ps \<noteq> None \<longrightarrow> fs_at d2 ps \<noteq> None) \<and>
                (file_in d2 ps = file_in d ps \<or> (force \<or> fs_at d ps = None) \<and> restored_at E es clock d2 ps)"
              using at [of ps] dirs [of ps] here new by (cases "ps = ?t") auto
          qed
          with here r q show ?thesis by auto
        qed
      qed
    qed
  qed
  then show "restored_ok E es clock force d d'"
    and "r = Inr rs \<Longrightarrow> p \<in> set rs \<Longrightarrow> restored_at E es clock d' (root_parts E p)" by auto
qed

text \<open>A later restore keeps what an earlier one wrote, or writes it anew.\<close>

lemma restored_at_kept:
  assumes "restored_ok E es clock force d d'" "restored_at E es clock d ps"
  shows "restored_at E es clock d' ps"
  using assms(1) [unfolded restored_ok_def, rule_format, of ps] assms(2) restored_at_same [of d' ps d E es clock] by blast

lemma restores_ok:
  "mapS (restore_one E s clock force) pes d = (r, d') \<Longrightarrow> set pes \<subseteq> set es \<Longrightarrow>
     restored_ok E es clock force d d' \<and>
     (\<forall>rss. r = Inr rss \<longrightarrow> (\<forall>p \<in> set (concat rss). restored_at E es clock d' (root_parts E p)))"
proof (induction pes arbitrary: d r d')
  case (Cons pe pes)
  obtain q d1 where 1: "restore_one E s clock force pe d = (q, d1)" by fastforce
  have mem: "pe \<in> set es" using Cons.prems(2) by simp
  note one = restore_one_ok [OF 1 mem]
  show ?case
  proof (cases q)
    case (Inl x)
    with Cons.prems 1 one(1) show ?thesis by auto
  next
    case (Inr rs)
    obtain q2 d2 where 2: "mapS (restore_one E s clock force) pes d1 = (q2, d2)" by fastforce
    have sub: "set pes \<subseteq> set es" using Cons.prems(2) by simp
    note rest = Cons.IH [OF 2 sub]
    from Cons.prems(1) 1 2 Inr have run: "d' = d2" "r = (case q2 of Inl x \<Rightarrow> Inl x | Inr rss \<Rightarrow> Inr (rs # rss))"
      by (auto simp: bindS_def split: sum.splits)
    have "restored_at E es clock d2 (root_parts E p)" if "p \<in> set rs" for p
      using restored_at_kept [OF _ one(2) [OF Inr that]] rest by blast
    with rest one(1) run show ?thesis by (auto intro: restored_ok_trans split: sum.splits)
  qed
qed (auto simp: restored_ok_refl)

lemma repo_restore_spec:
  assumes "repo_restore_files E s clock ref paths force d = (r, d')"
  shows "(\<exists>x. r = Inl x \<and> d' = d) \<or>
    (\<exists>c es. bindE (resolve_ref s ref) (fetch_commit (ev_prims E) s) = Inr c \<and> select_entries E s (c_tree c) paths = Inr es \<and>
       restored_ok E es clock force d d' \<and>
       (\<forall>rs. r = Inr rs \<longrightarrow> (\<forall>p \<in> set rs. restored_at E es clock d' (root_parts E p))))"
proof (cases "bindE (bindE (resolve_ref s ref) (fetch_commit (ev_prims E) s)) (\<lambda>c. select_entries E s (c_tree c) paths)")
  case (Inl x)
  with assms show ?thesis by (auto simp: repo_restore_files_def bindS_def)
next
  case (Inr es)
  then obtain c where c: "bindE (resolve_ref s ref) (fetch_commit (ev_prims E) s) = Inr c"
    "select_entries E s (c_tree c) paths = Inr es" by (auto simp: bindE_Inr_iff)
  obtain q d1 where run: "mapS (restore_one E s clock force) (sort_key fst es) d = (q, d1)" by fastforce
  have "set (sort_key fst es) \<subseteq> set es" by simp
  from restores_ok [OF run this] assms Inr run c show ?thesis
    by (auto simp: repo_restore_files_def bindS_def split: sum.splits)
qed

end
