(* ===== verification/Local_Store.thy ===== *)
theory Local_Store
  imports Restore Sync_Spec
begin

text \<open>
  \<open>core/objects/local.py\<close> on the file system: \<open>LocalObjectStore\<close> keeps every object in a file below
  \<open>.reflake\<close>, written to a temporary file first and moved into place. The lock file of a
  compare-and-set is opened; that it keeps other processes out is what makes the update one step.
  Last come the lemmas on what each file operation changes.
\<close>

section \<open>Paths\<close>

definition key_path :: "string list \<Rightarrow> object_kind \<Rightarrow> string \<Rightarrow> string list" where
  "key_path rt k i = rt @ ''.reflake'' # split_path (object_relative_key k i)"

text \<open>Ids that name a file of their own: digests, and branch names whose parts are file names.\<close>

definition local_id :: "object_kind \<Rightarrow> string \<Rightarrow> bool" where
  "local_id k i \<longleftrightarrow>
     (if k = Ref then i \<noteq> [] \<and> (\<forall>p \<in> set (split_path i). p \<notin> {[], ''.'', ''..''}) else is_hex_digest i)"

definition layout_dirs :: "string list list" where
  "layout_dirs = [[''blobs''], [''commits''], [''trees''], [''footers''], [''staging''], [''refs''], [''refs'', ''heads'']]"

definition initialize_layout :: "string list \<Rightarrow> (fs, unit) sm" where
  "initialize_layout rt = foldS (\<lambda>u dir. lift_fs (make_dirs (rt @ ''.reflake'' # dir))) () layout_dirs"

section \<open>Files\<close>

definition atomic_write :: "int \<Rightarrow> string list \<Rightarrow> string \<Rightarrow> (fs, unit) sm" where
  "atomic_write clock path payload =
     bindS (lift_fs (make_dirs (butlast path))) (\<lambda>_. lift_fs (put_file path payload clock))"

definition read_bytes :: "string list \<Rightarrow> fs \<Rightarrow> string res" where
  "read_bytes path d =
     (case fs_at d path of Some (File b m) \<Rightarrow> Inr b | None \<Rightarrow> Inl FileNotFoundError | _ \<Rightarrow> Inl OSError)"

text \<open>\<open>unlink(missing_ok=True)\<close>, and \<open>rmdir\<close> with its errors ignored.\<close>

fun remove_file :: "string list \<Rightarrow> fs \<Rightarrow> fs res" where
  "remove_file [p] (Dir kvs) =
     (case map_of kvs p of
        None \<Rightarrow> Inr (Dir kvs)
      | Some (Dir sub) \<Rightarrow> Inl OSError
      | Some d \<Rightarrow> Inr (Dir (filter (\<lambda>x. fst x \<noteq> p) kvs)))"
| "remove_file (p # q # ps) (Dir kvs) =
     (case map_of kvs p of
        None \<Rightarrow> Inr (Dir kvs)
      | Some d \<Rightarrow> bindE (remove_file (q # ps) d) (\<lambda>d'. Inr (Dir (alist_put p d' kvs))))"
| "remove_file ps d = Inl OSError"

fun remove_empty :: "string list \<Rightarrow> fs \<Rightarrow> fs" where
  "remove_empty [p] (Dir kvs) =
     (if map_of kvs p = Some (Dir []) then Dir (filter (\<lambda>x. fst x \<noteq> p) kvs) else Dir kvs)"
| "remove_empty (p # q # ps) (Dir kvs) =
     (case map_of kvs p of None \<Rightarrow> Dir kvs | Some d \<Rightarrow> Dir (alist_put p (remove_empty (q # ps) d) kvs))"
| "remove_empty ps d = d"

section \<open>Objects\<close>

definition local_read :: "string list \<Rightarrow> object_kind \<Rightarrow> string \<Rightarrow> (fs, string option) sm" where
  "local_read rt k i =
     asksS (\<lambda>d. if fs_at d (key_path rt k i) = None then Inr None
                else bindE (read_bytes (key_path rt k i) d) (\<lambda>b. Inr (Some b)))"

definition local_object_exists :: "string list \<Rightarrow> object_kind \<Rightarrow> string \<Rightarrow> (fs, bool) sm" where
  "local_object_exists rt k i = asksS (\<lambda>d. Inr (fs_at d (key_path rt k i) \<noteq> None))"

definition local_write_commit :: "string list \<Rightarrow> int \<Rightarrow> string \<Rightarrow> string \<Rightarrow> bool \<Rightarrow> (fs, unit) sm" where
  "local_write_commit rt clock i payload if_missing d =
     (if if_missing \<and> fs_at d (key_path rt Commit i) \<noteq> None then (Inl OptimisticLockError, d)
      else atomic_write clock (key_path rt Commit i) payload d)"

definition local_write_tree :: "string list \<Rightarrow> int \<Rightarrow> string \<Rightarrow> string \<Rightarrow> bool \<Rightarrow> (fs, unit) sm" where
  "local_write_tree rt clock i payload if_missing =
     bindS (lift_fs (make_dirs (butlast (key_path rt Tree i)))) (\<lambda>_ d.
       if if_missing \<and> fs_at d (key_path rt Tree i) \<noteq> None then (Inr (), d)
       else atomic_write clock (key_path rt Tree i) payload d)"

text \<open>\<open>write_tree_file\<close> and \<open>write_footer_file\<close> move a file of the caller, with its time, into place.\<close>

definition local_move_file :: "string list \<Rightarrow> object_kind \<Rightarrow> string \<Rightarrow> string \<Rightarrow> int \<Rightarrow> bool \<Rightarrow> (fs, unit) sm" where
  "local_move_file rt k i content mtime if_missing =
     bindS (lift_fs (make_dirs (butlast (key_path rt k i)))) (\<lambda>_ d.
       if if_missing \<and> fs_at d (key_path rt k i) \<noteq> None then (Inr (), d)
       else lift_fs (put_file (key_path rt k i) content mtime) d)"

definition local_write_blob :: "prims \<Rightarrow> string list \<Rightarrow> int \<Rightarrow> string \<Rightarrow> string \<Rightarrow> bool \<Rightarrow> (fs, unit) sm" where
  "local_write_blob P rt clock h payload if_missing d =
     (if if_missing \<and> fs_at d (key_path rt Blob h) \<noteq> None then (Inr (), d)
      else
        bindS (lift_fs (make_dirs (butlast (key_path rt Blob h)))) (\<lambda>_.
          if blake3 P payload \<noteq> h then raiseS ValueError
          else (\<lambda>d. if if_missing \<and> fs_at d (key_path rt Blob h) \<noteq> None then (Inr (), d)
                    else lift_fs (put_file (key_path rt Blob h) payload clock) d)) d)"

definition local_read_blob :: "string list \<Rightarrow> string \<Rightarrow> (fs, string) sm" where
  "local_read_blob rt h = asksS (read_bytes (key_path rt Blob h))"

section \<open>Branches\<close>

definition local_read_branch_ref :: "string list \<Rightarrow> string \<Rightarrow> (fs, string option option) sm" where
  "local_read_branch_ref rt branch =
     asksS (\<lambda>d. case fs_at d (key_path rt Ref branch) of
         Some (File b m) \<Rightarrow>
           if utf8_ok b then Inr (Some (let c = strip b in if c = [] then None else Some c)) else Inl UnicodeDecodeError
       | Some Locked \<Rightarrow> Inl OSError
       | _ \<Rightarrow> Inr None)"

definition local_write_branch_ref :: "string list \<Rightarrow> int \<Rightarrow> string \<Rightarrow> string option \<Rightarrow> (fs, unit) sm" where
  "local_write_branch_ref rt clock branch commit_id =
     atomic_write clock (key_path rt Ref branch)
       (case commit_id of None \<Rightarrow> [] | Some c \<Rightarrow> if c = [] then [] else c @ [CHR 0x0A])"

definition open_lock :: "string list \<Rightarrow> int \<Rightarrow> (fs, unit) sm" where
  "open_lock rt clock =
     (let path = rt @ [''.reflake'', ''refs'', ''.lock''] in
      bindS (lift_fs (make_dirs (butlast path))) (\<lambda>_ d.
        case fs_at d path of
          None \<Rightarrow> lift_fs (put_file path [] clock) d
        | Some (File b m) \<Rightarrow> (Inr (), d)
        | _ \<Rightarrow> (Inl OSError, d)))"

definition local_compare_and_set ::
  "string list \<Rightarrow> int \<Rightarrow> string \<Rightarrow> string option \<Rightarrow> string option \<Rightarrow> (fs, bool) sm" where
  "local_compare_and_set rt clock branch commit_id expected_commit_id =
     bindS (open_lock rt clock) (\<lambda>_.
     bindS (local_read_branch_ref rt branch) (\<lambda>current.
       if head_of current \<noteq> expected_commit_id then returnS False
       else bindS (local_write_branch_ref rt clock branch commit_id) (\<lambda>_. returnS True)))"

section \<open>Deletion and enumeration\<close>

definition local_delete :: "string list \<Rightarrow> object_kind \<Rightarrow> string list \<Rightarrow> (fs, nat) sm" where
  "local_delete rt k ids =
     bindS (foldS (\<lambda>u i. lift_fs (remove_file (key_path rt k i))) () ids) (\<lambda>_ d.
       (Inr (length ids), if k = Blob then foldr (\<lambda>i. remove_empty (butlast (key_path rt k i))) ids d else d))"

definition listing_of :: "fs \<Rightarrow> string list \<Rightarrow> (string \<times> fs) list" where
  "listing_of d path = (case fs_at d path of Some (Dir kvs) \<Rightarrow> kvs | _ \<Rightarrow> [])"

definition path_stem :: "string \<Rightarrow> string" where
  "path_stem name = (if name = ''.json'' then name else take (length name - length ''.json'') name)"

text \<open>\<open>stat_other\<close> is the modification time of what is not a readable file, 0 where \<open>stat\<close> fails.\<close>

definition mtime_of :: "(fs \<Rightarrow> int) \<Rightarrow> fs \<Rightarrow> int" where
  "mtime_of stat_other x = (case x of File b m \<Rightarrow> m | _ \<Rightarrow> stat_other x)"

definition local_inventory :: "(fs \<Rightarrow> int) \<Rightarrow> string list \<Rightarrow> fs \<Rightarrow> object_kind \<Rightarrow> (string \<times> int) list" where
  "local_inventory stat_other rt d k =
     (let names = (\<lambda>dir. listing_of d (rt @ [''.reflake'', dir])); stamp = (\<lambda>(name, x). (name, mtime_of stat_other x))
      in case k of
           Blob \<Rightarrow>
             concat (map (\<lambda>(shard, sub).
               case sub of
                 Dir kvs \<Rightarrow> map (\<lambda>(name, x). (shard @ name, mtime_of stat_other x)) (sort_key fst kvs)
               | _ \<Rightarrow> []) (sort_key fst (names ''blobs'')))
         | Tree \<Rightarrow> map stamp (names ''trees'')
         | Footer \<Rightarrow> map stamp (names ''footers'')
         | Commit \<Rightarrow>
             map (\<lambda>(name, x). (path_stem name, mtime_of stat_other x))
               (filter (\<lambda>(name, x). suffix ''.json'' name) (names ''commits''))
         | Ref \<Rightarrow> [])"

section \<open>What file operations change\<close>

lemma fs_at_append: "fs_at d (ps @ qs) = (case fs_at d ps of None \<Rightarrow> None | Some e \<Rightarrow> fs_at e qs)"
proof (induction ps arbitrary: d)
  case (Cons p ps)
  then show ?case by (cases d) (auto split: option.splits)
qed simp

lemma make_dirs_new:
  "make_dirs qs d = Inr d' \<Longrightarrow> fs_at d' ps \<noteq> None \<Longrightarrow> fs_at d ps \<noteq> None \<or> prefix ps qs"
proof (induction qs d arbitrary: d' ps rule: make_dirs.induct)
  case (2 p qs kvs)
  let ?d0 = "case map_of kvs p of None \<Rightarrow> Dir [] | Some d \<Rightarrow> d"
  from 2(2) obtain d1 where d1: "make_dirs qs ?d0 = Inr d1" "d' = Dir (alist_put p d1 kvs)"
    by (auto simp: bindE_Inr_iff)
  show ?case
  proof (cases ps)
    case (Cons x xs)
    show ?thesis
    proof (cases "x = p")
      case True
      with 2(3) Cons d1 2(1) [OF d1(1), of xs] have "fs_at ?d0 xs \<noteq> None \<or> prefix xs qs" by simp
      then show ?thesis using True Cons by (cases "map_of kvs p"; cases xs) auto
    qed (use 2(3) Cons d1 in simp)
  qed simp
qed auto

lemma put_file_new:
  "put_file qs b clock d = Inr d' \<Longrightarrow> fs_at d' ps \<noteq> None \<Longrightarrow> fs_at d ps \<noteq> None \<or> ps = qs"
proof (induction qs b clock d arbitrary: d' ps rule: put_file.induct)
  case (1 p b clock kvs)
  then have d': "d' = Dir (alist_put p (File b clock) kvs)" by (auto split: option.splits fs.splits)
  show ?case
  proof (cases ps)
    case (Cons x xs)
    with 1(2) d' show ?thesis by (cases xs) (auto split: if_splits)
  qed simp
next
  case (2 p q qs b clock kvs)
  then obtain d0 d1 where d1: "map_of kvs p = Some d0" "put_file (q # qs) b clock d0 = Inr d1" "d' = Dir (alist_put p d1 kvs)"
    by (auto simp: bindE_Inr_iff split: option.splits)
  show ?case
  proof (cases ps)
    case (Cons x xs)
    with d1 2(1) [OF d1(1,2), of xs] 2(3) show ?thesis by (cases "x = p") auto
  qed simp
qed simp_all

text \<open>A file is put only where no file is above and none below.\<close>

lemma put_file_free:
  "put_file qs b clock d = Inr d' \<Longrightarrow> file_in d (qs @ x # xs) = None \<and> (\<forall>us v vs. qs = us @ v # vs \<longrightarrow> file_in d us = None)"
proof (induction qs b clock d arbitrary: d' rule: put_file.induct)
  case (1 p b clock kvs)
  then have "\<not> (\<exists>sub. map_of kvs p = Some (Dir sub))" by (auto split: option.splits fs.splits)
  then have "fs_at (Dir kvs) (p # x # xs) = None" by (auto split: option.splits fs.splits)
  moreover have "us = []" if "[p] = us @ v # vs" for us v vs using that by (cases us) auto
  ultimately show ?case by (fastforce simp: file_in_def)
next
  case (2 p q qs b clock kvs)
  then obtain d0 d1 where d1: "map_of kvs p = Some d0" "put_file (q # qs) b clock d0 = Inr d1"
    by (auto simp: bindE_Inr_iff split: option.splits)
  note IH = 2(1) [OF d1(1,2)]
  have "file_in (Dir kvs) us = None" if "p # q # qs = us @ v # vs" for us v vs
    using that IH d1 by (cases us) (auto simp: file_in_def)
  with IH d1(1) show ?case by (simp add: file_in_def)
qed simp_all

lemma file_errors:
  "make_dirs qs d = Inl e \<Longrightarrow> e = OSError" "put_file qs b clock d = Inl e' \<Longrightarrow> e' = OSError"
  "remove_file qs d = Inl e'' \<Longrightarrow> e'' = OSError"
proof -
  show "make_dirs qs d = Inl e \<Longrightarrow> e = OSError"
    by (induction qs d arbitrary: e rule: make_dirs.induct) (auto simp: bindE_def split: sum.splits)
  show "put_file qs b clock d = Inl e' \<Longrightarrow> e' = OSError"
    by (induction qs b clock d arbitrary: e' rule: put_file.induct) (auto simp: bindE_def split: sum.splits option.splits fs.splits)
  show "remove_file qs d = Inl e'' \<Longrightarrow> e'' = OSError"
    by (induction qs d arbitrary: e'' rule: remove_file.induct) (auto simp: bindE_def split: sum.splits option.splits fs.splits)
qed

lemma map_of_filter_key: "map_of (filter (\<lambda>x. fst x \<noteq> p) kvs) q = (if q = p then None else map_of kvs q)"
  by (induction kvs) auto

lemma remove_file_at:
  "remove_file qs d = Inr d' \<Longrightarrow> fs_at d' qs = None \<and> file_in d' ps = (if ps = qs then None else file_in d ps) \<and>
     (fs_at d' ps \<noteq> None \<longrightarrow> fs_at d ps \<noteq> None)"
proof (induction qs d arbitrary: d' ps rule: remove_file.induct)
  case (1 p kvs)
  have below: "file_in (Dir kvs) (p # x # xs) = None" if "\<not> (\<exists>sub. map_of kvs p = Some (Dir sub))" for x xs
    using that fs_at_not_dir by (fastforce simp: file_in_def split: option.splits)
  show ?case
  proof (cases "map_of kvs p")
    case None
    with 1 show ?thesis by (cases ps) (auto simp: file_in_def)
  next
    case (Some e)
    with 1 have e: "\<not> (\<exists>sub. e = Dir sub)" and d': "d' = Dir (filter (\<lambda>x. fst x \<noteq> p) kvs)" by (auto split: fs.splits)
    show ?thesis
    proof (cases ps)
      case (Cons x xs)
      then show ?thesis using e Some below d' by (cases xs) (auto simp: file_in_def map_of_filter_key)
    qed (simp add: file_in_def d' map_of_filter_key)
  qed
next
  case (2 p q qs kvs)
  show ?case
  proof (cases "map_of kvs p")
    case None
    with 2 show ?thesis by (cases ps) (auto simp: file_in_def)
  next
    case (Some e)
    with 2(2) obtain e' where e': "remove_file (q # qs) e = Inr e'" "d' = Dir (alist_put p e' kvs)" by (auto simp: bindE_Inr_iff)
    show ?thesis
    proof (cases ps)
      case (Cons x xs)
      with Some e' 2(1) [OF Some e'(1), of xs] show ?thesis by (auto simp: file_in_def)
    qed (use e' Some 2(1) [OF Some e'(1)] in \<open>auto simp: file_in_def\<close>)
  qed
qed simp_all

lemma remove_empty_at:
  "file_in (remove_empty qs d) ps = file_in d ps \<and> (fs_at (remove_empty qs d) ps \<noteq> None \<longrightarrow> fs_at d ps \<noteq> None)"
proof (induction qs d arbitrary: ps rule: remove_empty.induct)
  case (1 p kvs)
  have "file_in (Dir []) xs = None" for xs by (cases xs) (simp_all add: file_in_def)
  then show ?case by (cases ps) (auto simp: file_in_def map_of_filter_key)
next
  case (2 p q qs kvs)
  show ?case
  proof (cases "map_of kvs p")
    case (Some e)
    show ?thesis
    proof (cases ps)
      case (Cons x xs)
      with Some 2 [OF Some, of xs] show ?thesis by (cases "x = p") (auto simp: file_in_def)
    qed (simp add: file_in_def Some)
  qed simp
qed simp_all

end
