(* ===== verification/Catalog.thy ===== *)
theory Catalog
  imports Local_Store
begin

text \<open>
  \<open>core/query/catalog.py\<close>: the analytical index of a commit. The walk of the tree is written as a
  CSV document that DuckDB loads into a table. DuckDB is a parameter: what it makes of a document is
  the content of a file. The temporary file the document goes through is not a state.

  The lemmas: the document reads back as the rows it was written from, whatever the paths are; and
  a build that returns has loaded one row per file of the commit and changed no other file.
\<close>

section \<open>The manifest\<close>

text \<open>The \<open>csv\<close> module: minimal quoting, quotes doubled, rows ended by CR LF.\<close>

definition csv_special :: string where
  "csv_special = [CHR '','', CHR 0x22, CHR 0x0D, CHR 0x0A]"

definition csv_field :: "string \<Rightarrow> string" where
  "csv_field s =
     (if list_ex (\<lambda>c. c \<in> set csv_special) s
      then CHR 0x22 # concat (map (\<lambda>c. if c = CHR 0x22 then [c, c] else [c]) s) @ [CHR 0x22]
      else s)"

definition csv_row :: "string list \<Rightarrow> string" where
  "csv_row cells = join_on (CHR '','') (map csv_field cells) @ [CHR 0x0D, CHR 0x0A]"

definition manifest_header :: "string list" where
  "manifest_header = [''path'', ''hash'', ''size'', ''mtime_ns'', ''footer'', ''commit_id'']"

definition manifest_row :: "string \<Rightarrow> entry \<Rightarrow> string list" where
  "manifest_row commit_id e =
     [e_path e, e_hash e, show_int (e_size e), show_int (e_mtime e),
      (if truthy (e_footer e) then the (e_footer e) else []), commit_id]"

definition manifest_csv :: "string \<Rightarrow> entry list \<Rightarrow> string" where
  "manifest_csv commit_id es = concat (map csv_row (manifest_header # map (manifest_row commit_id) es))"

section \<open>The index\<close>

text \<open>
  \<open>db_load\<close>: the content of the database file before, if there is one, and the document; the result
  and the content after. \<open>db_copy\<close> exports the table of a database.
\<close>

record duckdb =
  db_load :: "string option \<Rightarrow> string \<Rightarrow> unit res \<times> string"
  db_copy :: "string \<Rightarrow> string res"
  db_query :: "string \<Rightarrow> string \<Rightarrow> json list list res"

record index_paths =
  ip_database :: "string list"
  ip_parquet :: "string list option"

definition load_table :: "duckdb \<Rightarrow> int \<Rightarrow> string list \<Rightarrow> string \<Rightarrow> (fs, unit) sm" where
  "load_table D clock database document d =
     (case db_load D (map_option fst (file_in d database)) document of (r, content) \<Rightarrow>
        (case put_file database content clock d of Inl e \<Rightarrow> (Inl e, d) | Inr d' \<Rightarrow> (r, d')))"

definition copy_table :: "duckdb \<Rightarrow> int \<Rightarrow> string list \<Rightarrow> string list \<Rightarrow> (fs, unit) sm" where
  "copy_table D clock database target =
     bindS (asksS (\<lambda>d. case file_in d database of None \<Rightarrow> Inl OSError | Some (b, m) \<Rightarrow> db_copy D b)) (\<lambda>b.
       lift_fs (put_file target b clock))"

definition build_analytical_index ::
  "env \<Rightarrow> duckdb \<Rightarrow> int \<Rightarrow> 'z repo_store_scheme \<Rightarrow> string list \<Rightarrow> string option \<Rightarrow> string option \<Rightarrow> bool
     \<Rightarrow> (fs, index_paths) sm" where
  "build_analytical_index E D clock s client_root ref output_dir export_parquet =
     bindS (liftS (bindE (case ref of None \<Rightarrow> current_branch (rs_client s) | Some r \<Rightarrow> Inr r) (\<lambda>r.
                   bindE (resolve_ref s r) (\<lambda>i. bindE (fetch_commit (ev_prims E) s i) (\<lambda>c. Inr (i, c)))))) (\<lambda>(i, c).
       let index_root = (if truthy output_dir then w_resolve (ev_world E) (the output_dir) else client_root @ [''.reflake'', ''index'']);
           database = index_root @ [i @ ''.duckdb'']; target = index_root @ [i @ ''.parquet''] in
       bindS (lift_fs (make_dirs index_root)) (\<lambda>_.
       bindS (liftS (iter_all_entries (tree_loader E s) (ev_tree E) (c_tree c))) (\<lambda>es.
       bindS (load_table D clock database (manifest_csv i es)) (\<lambda>_.
       bindS (if export_parquet then copy_table D clock database target else returnS ()) (\<lambda>_.
         returnS \<lparr>ip_database = database, ip_parquet = (if export_parquet then Some target else None)\<rparr>)))))"

definition query_analytical_index :: "world \<Rightarrow> duckdb \<Rightarrow> string \<Rightarrow> string \<Rightarrow> json list list res" where
  "query_analytical_index W D database_path query =
     (case fs_at (w_fs W) (w_resolve W database_path) of
        None \<Rightarrow> Inl FileNotFoundError
      | Some (File b m) \<Rightarrow> db_query D b query
      | Some d \<Rightarrow> Inl OSError)"

definition drop_analytical_index :: "world \<Rightarrow> string \<Rightarrow> (fs, unit) sm" where
  "drop_analytical_index W database_path = lift_fs (remove_file (w_resolve W database_path))"

section \<open>Reading the manifest\<close>

text \<open>A reader of such documents, by the position in a cell: at its start, inside it, in quotes, after a quote.\<close>

datatype csv_mode = At_start | Bare | Quoted | Closing

fun csv_scan :: "csv_mode \<Rightarrow> string \<Rightarrow> string list \<Rightarrow> string \<Rightarrow> string list list" where
  "csv_scan m f r [] = (if f = [] \<and> r = [] then [] else [r @ [f]])"
| "csv_scan m f r (c # cs) =
     (if m = Quoted then csv_scan (if c = CHR 0x22 then Closing else Quoted) (if c = CHR 0x22 then f else f @ [c]) r cs
      else if c = CHR 0x22 then csv_scan Quoted (if m = Closing then f @ [c] else f) r cs
      else if c = CHR '','' then csv_scan At_start [] (r @ [f]) cs
      else if c = CHR 0x0D then csv_scan m f r cs
      else if c = CHR 0x0A then (r @ [f]) # csv_scan At_start [] [] cs
      else csv_scan Bare (f @ [c]) r cs)"

definition csv_read :: "string \<Rightarrow> string list list" where
  "csv_read document = csv_scan At_start [] [] document"

text \<open>What the reader does at the end of a cell does not depend on how the cell was written.\<close>

lemma csv_scan_end:
  "m \<noteq> Quoted \<Longrightarrow> csv_scan m f r (CHR '','' # t) = csv_scan At_start [] (r @ [f]) t"
  "m \<noteq> Quoted \<Longrightarrow> csv_scan m f r (CHR 0x0D # CHR 0x0A # t) = (r @ [f]) # csv_scan At_start [] [] t"
  by simp_all

lemma csv_scan_bare:
  "m \<noteq> Quoted \<Longrightarrow> \<not> list_ex (\<lambda>c. c \<in> set csv_special) s \<Longrightarrow>
     \<exists>m'. m' \<noteq> Quoted \<and> csv_scan m f r (s @ t) = csv_scan m' (f @ s) r t"
proof (induction s arbitrary: m f)
  case (Cons c s)
  then have "csv_scan m f r ((c # s) @ t) = csv_scan Bare (f @ [c]) r (s @ t)" by (simp add: csv_special_def)
  with Cons.IH [of Bare "f @ [c]"] Cons.prems show ?case by simp
qed auto

lemma csv_scan_quoted:
  "csv_scan Quoted f r (concat (map (\<lambda>c. if c = CHR 0x22 then [c, c] else [c]) s) @ CHR 0x22 # t) =
     csv_scan Closing (f @ s) r t"
  by (induction s arbitrary: f) auto

lemma csv_scan_field: "\<exists>m. m \<noteq> Quoted \<and> csv_scan At_start [] r (csv_field s @ t) = csv_scan m s r t"
proof (cases "list_ex (\<lambda>c. c \<in> set csv_special) s")
  case True
  have "csv_scan At_start [] r (csv_field s @ t) = csv_scan Closing s r t"
    using True csv_scan_quoted [of "[]" r s t] by (simp add: csv_field_def)
  then show ?thesis by (intro exI [of _ Closing]) simp
next
  case False
  with csv_scan_bare [of At_start s "[]" r t] show ?thesis by (simp add: csv_field_def)
qed

lemma csv_scan_row:
  "cells \<noteq> [] \<Longrightarrow> csv_scan At_start [] r (csv_row cells @ t) = (r @ cells) # csv_scan At_start [] [] t"
proof (induction cells arbitrary: r)
  case (Cons s ss)
  show ?case
  proof (cases ss)
    case Nil
    obtain m where "m \<noteq> Quoted" "csv_scan At_start [] r (csv_field s @ CHR 0x0D # CHR 0x0A # t) = csv_scan m s r (CHR 0x0D # CHR 0x0A # t)"
      using csv_scan_field by blast
    with Nil show ?thesis by (simp add: csv_row_def csv_scan_end del: csv_scan.simps)
  next
    case (Cons s' ss')
    have row: "csv_row (s # ss) @ t = csv_field s @ CHR '','' # csv_row ss @ t"
      by (simp add: csv_row_def Cons)
    obtain m where "m \<noteq> Quoted" "csv_scan At_start [] r (csv_row (s # ss) @ t) = csv_scan m s r (CHR '','' # csv_row ss @ t)"
      using csv_scan_field [of r s "CHR '','' # csv_row ss @ t"] row by auto
    with Cons Cons.IH [of "r @ [s]"] show ?thesis by (simp add: csv_scan_end del: csv_scan.simps)
  qed
qed simp

lemma csv_read_rows: "\<forall>cells \<in> set rows. cells \<noteq> [] \<Longrightarrow> csv_read (concat (map csv_row rows)) = rows"
  unfolding csv_read_def by (induction rows) (simp_all add: csv_scan_row del: csv_scan.simps(2))

lemma manifest_reads_back: "csv_read (manifest_csv commit_id es) = manifest_header # map (manifest_row commit_id) es"
  unfolding manifest_csv_def by (rule csv_read_rows) (auto simp: manifest_header_def manifest_row_def)

section \<open>What a build has loaded\<close>

lemma load_table_spec:
  assumes "load_table D clock database document d = (Inr (), d')"
  shows "\<exists>old content. db_load D old document = (Inr (), content) \<and>
    file_in d' ps = (if ps = database then Some (content, clock) else file_in d ps)"
proof -
  obtain r content where load: "db_load D (map_option fst (file_in d database)) document = (r, content)" by fastforce
  with assms have "r = Inr ()" "put_file database content clock d = Inr d'"
    by (auto simp: load_table_def split: sum.splits)
  with load put_file_at [OF this(2), of ps] show ?thesis by auto
qed

lemma lift_fs_Inr: "lift_fs f d = (Inr u, d') \<longleftrightarrow> f d = Inr d'"
  by (auto simp: lift_fs_def split: sum.splits)

lemma copy_table_spec:
  assumes "copy_table D clock database target d = (Inr (), d')" "ps \<noteq> target"
  shows "file_in d' ps = file_in d ps"
  using assms put_file_at by (fastforce simp: copy_table_def bindS_Inr asksS_def lift_fs_Inr)

text \<open>
  The database is loaded from a document that reads back as one row per file of the commit; no other
  file is changed, the export apart.
\<close>

lemma build_analytical_index_spec:
  assumes "build_analytical_index E D clock s client_root ref output_dir export_parquet d = (Inr p, d')"
  shows "\<exists>r i c es old document content.
    (case ref of None \<Rightarrow> current_branch (rs_client s) | Some r \<Rightarrow> Inr r) = Inr r \<and> resolve_ref s r = Inr i \<and>
    fetch_commit (ev_prims E) s i = Inr c \<and> iter_all_entries (tree_loader E s) (ev_tree E) (c_tree c) = Inr es \<and>
    csv_read document = manifest_header # map (manifest_row i) es \<and> db_load D old document = (Inr (), content) \<and>
    file_in d' (ip_database p) = Some (content, clock) \<and>
    (\<forall>ps. ps \<noteq> ip_database p \<longrightarrow> Some ps \<noteq> ip_parquet p \<longrightarrow> file_in d' ps = file_in d ps)"
proof -
  let ?root = "\<lambda>i. if truthy output_dir then w_resolve (ev_world E) (the output_dir) else client_root @ [''.reflake'', ''index'']"
  from assms obtain r i c es d1 d2 where
    start: "(case ref of None \<Rightarrow> current_branch (rs_client s) | Some r \<Rightarrow> Inr r) = Inr r" "resolve_ref s r = Inr i"
      "fetch_commit (ev_prims E) s i = Inr c" "iter_all_entries (tree_loader E s) (ev_tree E) (c_tree c) = Inr es" and
    dirs: "make_dirs (?root i) d = Inr d1" and
    load: "load_table D clock (?root i @ [i @ ''.duckdb'']) (manifest_csv i es) d1 = (Inr (), d2)" and
    copy: "(if export_parquet then copy_table D clock (?root i @ [i @ ''.duckdb'']) (?root i @ [i @ ''.parquet'']) else returnS ()) d2 = (Inr (), d')" and
    p: "p = \<lparr>ip_database = ?root i @ [i @ ''.duckdb''],
             ip_parquet = if export_parquet then Some (?root i @ [i @ ''.parquet'']) else None\<rparr>"
    unfolding build_analytical_index_def Let_def
    by (auto simp: bindS_Inr lift_fs_Inr bindE_Inr_iff split: prod.splits)
  obtain old content where content: "db_load D old (manifest_csv i es) = (Inr (), content)"
      "file_in d2 (ip_database p) = Some (content, clock)"
    using load_table_spec [OF load, of "ip_database p"] p by auto
  have before: "file_in d2 ps = file_in d ps" if "ps \<noteq> ip_database p" for ps
    using load_table_spec [OF load, of ps] make_dirs_at [OF dirs, of ps] that p by auto
  have "file_in d' ps = file_in d2 ps" if "Some ps \<noteq> ip_parquet p" for ps
    using copy copy_table_spec [of D clock _ _ d2 d' ps] that p by (auto split: if_splits)
  moreover have "Some (ip_database p) \<noteq> ip_parquet p" using p by simp
  ultimately have "file_in d' (ip_database p) = Some (content, clock)"
    "ps \<noteq> ip_database p \<Longrightarrow> Some ps \<noteq> ip_parquet p \<Longrightarrow> file_in d' ps = file_in d ps" for ps
    using content(2) before by simp_all
  with start content(1) manifest_reads_back [of i es] show ?thesis by blast
qed

end
