(* ===== verification/Cli.thy ===== *)
theory Cli
  imports Config Pruning Gc Transfer_Commands Catalog
begin

text \<open>
  \<open>cli.py\<close>: the commands, their output and their exit codes. A command runs over the files of the
  working tree, the repository at the given root, the remote it synchronizes with and the cache
  of footers; what it prints is a list of events, one per \<open>print\<close>, with a JSON document kept as a
  value. The repository is the \<open>repo_store\<close> of the state whichever kind of store the root has (an
  S3 store implements it, see \<open>S3_Spec\<close>).

  Not here: the parsing of the arguments (\<open>simple_parsing\<close>) and the text of the error messages: an
  event \<open>Failed\<close> has what they are made of.
\<close>

section \<open>Commands\<close>

datatype command =
    CommitCmd string bool
  | AddCmd "string list" string "string option"
  | RmCmd "string list"
  | MoveCmd string string
  | StatusCmd
  | BranchCmd string bool
  | DiffCmd string string
  | MergeCmd string string
  | VerifyCmd "string option" "string list" bool
  | PromoteCmd "string option" "string list"
  | GcCmd bool "int option"
  | PruneCmd string string string
  | BuildCmd "string option" bool
  | LogCmd "string option"
  | ListCmd string "string option"
  | CatCmd string string
  | ReflogCmd "string option"
  | BranchesCmd
  | ConfigInitCmd string "string option" "string option" "string option" string
  | ConfigSetCmd string string
  | ConfigListCmd
  | CheckoutCmd string
  | RestoreCmd string "string list" bool
  | ResetCmd string "string option"
  | InitCmd string "string option" "string option" "string option" string
  | PushCmd string "string option" string
  | PullCmd string "string option" string
  | FetchCmd string "string option" string
  | TransferCmd string bool "string option"

text \<open>\<open>gc\<close> has no name of its own.\<close>

definition command_name :: "command \<Rightarrow> string" where
  "command_name c =
     (case c of
        CommitCmd m staged \<Rightarrow> ''commit''
      | AddCmd ps i d \<Rightarrow> ''add''
      | RmCmd ps \<Rightarrow> ''rm''
      | MoveCmd s d \<Rightarrow> ''mv''
      | StatusCmd \<Rightarrow> ''status''
      | BranchCmd n d \<Rightarrow> ''branch''
      | DiffCmd f t \<Rightarrow> ''diff''
      | MergeCmd s t \<Rightarrow> ''merge''
      | VerifyCmd r ps d \<Rightarrow> ''identity verify''
      | PromoteCmd r ps \<Rightarrow> ''identity promote''
      | GcCmd p g \<Rightarrow> ''reflake''
      | PruneCmd r p w \<Rightarrow> ''query prune''
      | BuildCmd d p \<Rightarrow> ''query build''
      | LogCmd r \<Rightarrow> ''log''
      | ListCmd p r \<Rightarrow> ''list''
      | CatCmd r p \<Rightarrow> ''cat''
      | ReflogCmd b \<Rightarrow> ''reflog''
      | BranchesCmd \<Rightarrow> ''branches''
      | ConfigInitCmd b x y z d \<Rightarrow> ''config init''
      | ConfigSetCmd k v \<Rightarrow> ''config set''
      | ConfigListCmd \<Rightarrow> ''config list''
      | CheckoutCmd b \<Rightarrow> ''checkout''
      | RestoreCmd r ps f \<Rightarrow> ''restore''
      | ResetCmd r b \<Rightarrow> ''reset''
      | InitCmd b x y z d \<Rightarrow> ''init''
      | PushCmd u r t \<Rightarrow> ''push''
      | PullCmd u r t \<Rightarrow> ''pull''
      | FetchCmd u r t \<Rightarrow> ''fetch''
      | TransferCmd d e r \<Rightarrow> ''transfer'')"

section \<open>Errors and exit codes\<close>

definition retryable :: "error \<Rightarrow> bool" where
  "retryable e =
     (case e of
        RefConflictError b operation expd current \<Rightarrow> True
      | NonFastForwardError b x y \<Rightarrow> True
      | MergeConflictError ps \<Rightarrow> True
      | OptimisticLockError \<Rightarrow> True
      | PreconditionFailedError \<Rightarrow> True
      | _ \<Rightarrow> False)"

definition missing_error :: "error \<Rightarrow> bool" where
  "missing_error e =
     (case e of
        UnknownRefError r \<Rightarrow> True
      | UnknownCommitError i \<Rightarrow> True
      | EmptyBranchError b \<Rightarrow> True
      | FileNotFoundError \<Rightarrow> True
      | _ \<Rightarrow> False)"

definition error_exit_code :: "error \<Rightarrow> nat" where
  "error_exit_code e = (if retryable e then 2 else if missing_error e then 3 else 1)"

text \<open>\<open>HANDLED_CLI_ERRORS\<close>: every error of the program is a \<open>ReflakeError\<close>, which is a \<open>ValueError\<close>.\<close>

definition handled_error :: "error \<Rightarrow> bool" where
  "handled_error e \<longleftrightarrow>
     e \<notin> {TypeError, OverflowError, OSError, AssertionError, IndexError, KeyError, NotImplementedError, AttributeError,
           StructError, PatternError, DecodeError, OutOfFuel}"

datatype event =
    Out string
  | OutJson json
  | OutBytes string
  | Err string
  | Ran "string list"
  | Failed bool string error nat

section \<open>The state of a process\<close>

record ('y, 'z) cli_state =
  cs_fs :: fs
  cs_local :: "'y repo_store_scheme"
  cs_remote :: "'z repo_store_scheme"
  cs_footers :: footer_cache
  cs_output :: "event list"

text \<open>
  What a process depends on: the environment (its files are those of the state), the transfer
  backends, the listing of the store with modification times, the clocks, the programs it runs, the
  trees of a local store in the directory, and DuckDB.
\<close>

record ('y, 'z) cli =
  cli_env :: env
  cli_backend :: "backend_choice \<Rightarrow> ('y, 'z) backend"
  cli_inventory :: "'y repo_store_scheme \<Rightarrow> object_kind \<Rightarrow> (string \<times> int) list"
  cli_now_ns :: int
  cli_clock :: int
  cli_program :: "string list \<Rightarrow> unit res"
  cli_trees :: loader
  cli_db :: duckdb

definition say :: "event \<Rightarrow> (('y, 'z) cli_state, unit) sm" where
  "say ev st = (Inr (), st\<lparr>cs_output := cs_output st @ [ev]\<rparr>)"

definition says :: "event list \<Rightarrow> (('y, 'z) cli_state, unit) sm" where
  "says evs st = (Inr (), st\<lparr>cs_output := cs_output st @ evs\<rparr>)"

definition on_repo :: "('y repo_store_scheme, 'a) sm \<Rightarrow> (('y, 'z) cli_state, 'a) sm" where
  "on_repo m st = (case m (cs_local st) of (r, s) \<Rightarrow> (r, st\<lparr>cs_local := s\<rparr>))"

definition on_both :: "(('y, 'z) both, 'a) sm \<Rightarrow> (('y, 'z) cli_state, 'a) sm" where
  "on_both m st = (case m (cs_local st, cs_remote st) of (r, (l, s)) \<Rightarrow> (r, st\<lparr>cs_local := l, cs_remote := s\<rparr>))"

definition on_files :: "(fs, 'a) sm \<Rightarrow> (('y, 'z) cli_state, 'a) sm" where
  "on_files m st = (case m (cs_fs st) of (r, d) \<Rightarrow> (r, st\<lparr>cs_fs := d\<rparr>))"

definition on_cache :: "(footer_cache option, 'a) sm \<Rightarrow> (('y, 'z) cli_state, 'a) sm" where
  "on_cache m st =
     (case m (Some (cs_footers st)) of (r, c) \<Rightarrow> (r, st\<lparr>cs_footers := (case c of None \<Rightarrow> cs_footers st | Some c' \<Rightarrow> c')\<rparr>))"

section \<open>Opening the repository\<close>

definition config_path :: "string list \<Rightarrow> string list" where
  "config_path rt = rt @ [''.reflake'', ''config.json'']"

definition stored_config :: "fs \<Rightarrow> string list \<Rightarrow> string option" where
  "stored_config d rt = (case fs_at d (config_path rt) of Some (File b m) \<Rightarrow> Some b | _ \<Rightarrow> None)"

definition env_at :: "('y, 'z) cli \<Rightarrow> fs \<Rightarrow> env" where
  "env_at X d = (cli_env X)\<lparr>ev_world := (ev_world (cli_env X))\<lparr>w_fs := d\<rparr>\<rparr>"

text \<open>The settings of the configuration that the parts of a repository are constructed with.\<close>

definition env_for :: "env \<Rightarrow> opened \<Rightarrow> config option \<Rightarrow> env" where
  "env_for E rp c =
     E\<lparr>ev_world := (ev_world E)\<lparr>w_root := op_worktree rp\<rparr>,
       ev_capture := (case c of None \<Rightarrow> False | Some c \<Rightarrow> cf_parquet_footer (config_base c)),
       ev_trust_mtime := (case c of None \<Rightarrow> False | Some c \<Rightarrow> cf_trust_mtime (config_base c)),
       ev_identity := (case c of None \<Rightarrow> ''content'' | Some c \<Rightarrow> cf_identity (config_base c))\<rparr>"

definition opened_at :: "('y, 'z) cli \<Rightarrow> fs \<Rightarrow> string \<Rightarrow> string option \<Rightarrow> (env \<times> opened) res" where
  "opened_at X d rt transfer =
     (let E = env_at X d in
      bindE (open_repository E (stored_config d) rt None None None transfer True) (\<lambda>rp.
      bindE (load_config (ev_prims E) (stored_config d (op_worktree rp))) (\<lambda>c. Inr (env_for E rp c, rp))))"

definition open_cli :: "('y, 'z) cli \<Rightarrow> string \<Rightarrow> string option \<Rightarrow> (('y, 'z) cli_state, env \<times> opened) sm" where
  "open_cli X rt transfer =
     bindS (asksS (\<lambda>st. opened_at X (cs_fs st) rt transfer)) (\<lambda>er.
     bindS (on_repo (\<lambda>s. (Inr (), s\<lparr>rs_client := ensure_current_branch ''main'' (rs_client s)\<rparr>))) (\<lambda>_. returnS er))"

definition store_kind_of :: "opened \<Rightarrow> store_kind" where
  "store_kind_of rp = (case op_store rp of LocalAt d \<Rightarrow> LocalStore | S3At b p e \<Rightarrow> S3Store)"

definition load_config_at :: "('y, 'z) cli \<Rightarrow> string \<Rightarrow> (('y, 'z) cli_state, config option) sm" where
  "load_config_at X rt =
     asksS (\<lambda>st. load_config (ev_prims (cli_env X)) (stored_config (cs_fs st) (w_resolve (ev_world (cli_env X)) rt)))"

text \<open>\<open>BaseConfig.save\<close>; the result is the path of the file.\<close>

definition save_config_at :: "('y, 'z) cli \<Rightarrow> string list \<Rightarrow> string \<Rightarrow> (('y, 'z) cli_state, string) sm" where
  "save_config_at X rt payload =
     bindS (on_files (lift_fs (make_dirs (rt @ [''.reflake''])))) (\<lambda>_.
     bindS (on_files (lift_fs (put_file (config_path rt) payload (cli_clock X)))) (\<lambda>_. returnS (abs_path (config_path rt))))"

text \<open>\<open>init_repository\<close> over the files of the state.\<close>

definition init_at :: "('y, 'z) cli \<Rightarrow> string \<Rightarrow> string \<Rightarrow> (('y, 'z) cli_state, string list) sm" where
  "init_at X rt0 default_branch =
     (let rt = w_resolve (ev_world (cli_env X)) rt0; P = ev_prims (cli_env X) in
      bindS (on_files (lift_fs (make_dirs (rt @ [''.reflake''])))) (\<lambda>_.
      bindS (asksS (\<lambda>st. Inr (stored_config (cs_fs st) rt))) (\<lambda>stored.
      bindS (if stored \<noteq> None then returnS ()
             else
               bindS (asksS (\<lambda>st. init_config (abs_path rt) False default_branch None None None (ev_world (env_at X (cs_fs st))))) (\<lambda>c.
               bindS (save_config_at X rt (save_config P c)) (\<lambda>_. returnS ()))) (\<lambda>_.
      bindS (on_repo (ensure_unborn LocalStore default_branch)) (\<lambda>_. returnS rt)))))"

text \<open>\<open>_open_or_init\<close>\<close>

definition open_or_init :: "('y, 'z) cli \<Rightarrow> string \<Rightarrow> string option \<Rightarrow> (('y, 'z) cli_state, env \<times> opened) sm" where
  "open_or_init X rt transfer st =
     (case open_cli X rt transfer st of
        (Inl (NotARepositoryError p), st') \<Rightarrow>
          bindS (init_at X rt ''main'') (\<lambda>_. open_cli X rt transfer) st'
      | (r, st') \<Rightarrow> (r, st'))"

section \<open>Output\<close>

text \<open>The UTF-8 bytes of the warning sign, the ellipsis and the dash of the messages.\<close>

definition warning_sign :: string where
  "warning_sign = [CHR 0xE2, CHR 0x9A, CHR 0xA0]"

definition ellipsis :: string where
  "ellipsis = [CHR 0xE2, CHR 0x80, CHR 0xA6]"

definition em_dash :: string where
  "em_dash = [CHR 0xE2, CHR 0x80, CHR 0x94]"

definition quoted_name :: "string \<Rightarrow> string" where
  "quoted_name s = CHR 0x27 # s @ [CHR 0x27]"

definition pointer_warning :: "string \<Rightarrow> event" where
  "pointer_warning subject =
     Err (warning_sign @ ''  Metadata-only identity: '' @ subject @ '' unverifiable until `reflake identity promote` is run. '' @
          ''You must retain source objects for future verification.'')"

definition strs :: "string list \<Rightarrow> json" where
  "strs xs = JArr (map JStr xs)"

definition stage_payload :: "stage_status \<Rightarrow> json" where
  "stage_payload s =
     JObj [(''ref'', JStr (ss_ref s)), (''added'', strs (ss_added s)), (''removed'', strs (ss_removed s)),
           (''working_tree_added'', strs (ss_wt_added s)), (''working_tree_removed'', strs (ss_wt_removed s)),
           (''working_tree_modified'', strs (ss_wt_modified s))]"

definition print_status :: "stage_status \<Rightarrow> event list" where
  "print_status s =
     (let dirty = ss_wt_added s \<noteq> [] \<or> ss_wt_removed s \<noteq> [] \<or> ss_wt_modified s \<noteq> [];
          each = (\<lambda>label ps. map (\<lambda>p. Out (label @ p)) ps)
      in (if dirty then
            (if ss_wt_added s \<noteq> [] then Out ''Working tree changes:'' # each ''  added:    '' (ss_wt_added s) else []) @
            each ''  modified: '' (ss_wt_modified s) @ each ''  removed:  '' (ss_wt_removed s) @ [Out []]
          else []) @
         (if ss_added s \<noteq> [] \<or> ss_removed s \<noteq> [] then
            Out ''Staged changes:'' # each ''  added:    '' (ss_added s) @ each ''  removed:  '' (ss_removed s)
          else if \<not> dirty then [Out ''Nothing to commit, working tree clean'']
          else []))"

definition show_stage :: "bool \<Rightarrow> stage_status \<Rightarrow> event list" where
  "show_stage as_json s = (if as_json then [OutJson (stage_payload s)] else print_status s)"

definition nat_json :: "nat \<Rightarrow> json" where
  "nat_json n = JInt (int n)"

definition lines_text :: "string list \<Rightarrow> string" where
  "lines_text ls = join_on (CHR 0x0A) ls"

text \<open>The first so many of a list, each on a line, and how many there are in all.\<close>

definition shown_paths :: "string \<Rightarrow> nat \<Rightarrow> string list \<Rightarrow> string" where
  "shown_paths label n paths =
     CHR 0x0A # lines_text (map (\<lambda>p. label @ p) (take n paths)) @
     (if length paths > n then CHR 0x0A # ''  '' @ ellipsis @ '' ('' @ show_nat (length paths) @ '' total)'' else [])"

section \<open>Working with changes and history\<close>

text \<open>A source that is no longer a file is skipped here; it fails at the commit.\<close>

definition staged_source_drift :: "env \<Rightarrow> staged \<Rightarrow> string list" where
  "staged_source_drift E staged =
     sort (map ch_path (filter (\<lambda>c.
       ch_action c = ''add'' \<and> truthy (ch_uri c) \<and> prefix ''file:'' (the (ch_uri c)) \<and> ch_size c \<noteq> None \<and> ch_mtime c \<noteq> None \<and>
       (case source_stat E (the (ch_uri c)) of
          (Some sz, Some m) \<Rightarrow> Some sz \<noteq> ch_size c \<or> Some m \<noteq> ch_mtime c
        | _ \<Rightarrow> False)) (map snd staged)))"

definition cli_commit :: "('y, 'z) cli \<Rightarrow> string \<Rightarrow> bool \<Rightarrow> string \<Rightarrow> bool \<Rightarrow> (('y, 'z) cli_state, nat) sm" where
  "cli_commit X rt as_json message staged_only =
     bindS (open_cli X rt None) (\<lambda>(E, rp).
     bindS (on_repo (asksS (\<lambda>s. bindE (current_branch (rs_client s)) (stage_load (ev_prims E) s)))) (\<lambda>staged.
       let drifted = staged_source_drift E staged in
       bindS (says (if drifted = [] then [] else
                [Err (warning_sign @ ''  Staged source(s) changed since `add`; committing current content:'' @
                      shown_paths ''  changed: '' 10 drifted)])) (\<lambda>_.
       bindS (on_repo (repo_commit E message staged_only)) (\<lambda>commit_id.
       bindS (say (if as_json then OutJson (JObj [(''commit_id'', JStr commit_id)]) else Out commit_id)) (\<lambda>_.
       bindS (load_config_at X rt) (\<lambda>config.
         let pointer = (\<exists>c \<in> set (map snd staged). ch_identity c = Some ''pointer'') \<or>
               (case config of None \<Rightarrow> False | Some c \<Rightarrow> cf_identity (config_base c) = ''pointer'')
         in bindS (says (if pointer then [pointer_warning ''this revision is''] else [])) (\<lambda>_. returnS 0)))))))"

definition cli_add ::
  "('y, 'z) cli \<Rightarrow> string \<Rightarrow> bool \<Rightarrow> string list \<Rightarrow> string \<Rightarrow> string option \<Rightarrow> (('y, 'z) cli_state, nat) sm" where
  "cli_add X rt as_json paths mode destination_path =
     bindS (open_cli X rt None) (\<lambda>(E, rp).
     bindS (on_repo (repo_add E paths None mode destination_path)) (\<lambda>stage.
     bindS (says (show_stage as_json stage @ (if mode = ''pointer'' then [pointer_warning ''revisions are''] else []))) (\<lambda>_.
       returnS 0)))"

definition cli_rm :: "('y, 'z) cli \<Rightarrow> string \<Rightarrow> bool \<Rightarrow> string list \<Rightarrow> (('y, 'z) cli_state, nat) sm" where
  "cli_rm X rt as_json paths =
     bindS (open_cli X rt None) (\<lambda>(E, rp).
     bindS (on_repo (repo_rm E paths None)) (\<lambda>stage.
     bindS (says (show_stage as_json stage)) (\<lambda>_. returnS 0)))"

definition cli_move :: "('y, 'z) cli \<Rightarrow> string \<Rightarrow> bool \<Rightarrow> string \<Rightarrow> string \<Rightarrow> (('y, 'z) cli_state, nat) sm" where
  "cli_move X rt as_json src dst =
     bindS (open_cli X rt None) (\<lambda>(E, rp).
     bindS (on_repo (repo_move_staged E src dst None)) (\<lambda>stage.
     bindS (says (show_stage as_json stage)) (\<lambda>_. returnS 0)))"

definition cli_status :: "('y, 'z) cli \<Rightarrow> string \<Rightarrow> bool \<Rightarrow> (('y, 'z) cli_state, nat) sm" where
  "cli_status X rt as_json =
     bindS (open_cli X rt None) (\<lambda>(E, rp).
     bindS (on_repo (asksS (\<lambda>s. stage_status_of E s None True))) (\<lambda>stage.
     bindS (says (show_stage as_json stage)) (\<lambda>_. returnS 0)))"

definition cli_branch :: "('y, 'z) cli \<Rightarrow> string \<Rightarrow> bool \<Rightarrow> string \<Rightarrow> bool \<Rightarrow> (('y, 'z) cli_state, nat) sm" where
  "cli_branch X rt as_json name delete =
     bindS (open_cli X rt None) (\<lambda>(E, rp).
       if delete then
         bindS (on_repo (delete_branch (ev_now E) name)) (\<lambda>deleted.
         bindS (say (if as_json then OutJson (JObj [(''deleted'', JStr deleted)])
                     else Out (''Deleted branch '' @ quoted_name deleted))) (\<lambda>_. returnS 0))
       else
         bindS (on_repo (create_branch name)) (\<lambda>_.
         bindS (on_repo (asksS (\<lambda>s. Inr (ref_head s name)))) (\<lambda>head.
         bindS (say (if as_json then OutJson (JObj [(''branch'', JStr name), (''commit_id'', opt_json head)])
                     else Out (''Created branch '' @ quoted_name name))) (\<lambda>_. returnS 0))))"

definition change_text :: "change \<Rightarrow> string" where
  "change_text c = (case c of Added \<Rightarrow> ''added'' | Removed \<Rightarrow> ''removed'' | Modified \<Rightarrow> ''modified'')"

definition diff_json :: "diff_entry \<Rightarrow> json" where
  "diff_json d =
     (let hash_of = (\<lambda>x. opt_json (map_option fst x)); size_of = (\<lambda>x. case x of None \<Rightarrow> JNull | Some (h, n) \<Rightarrow> JInt n)
      in JObj [(''path'', JStr (d_path d)), (''change'', JStr (change_text (d_change d))),
               (''before_hash'', hash_of (d_before d)), (''after_hash'', hash_of (d_after d)),
               (''before_size'', size_of (d_before d)), (''after_size'', size_of (d_after d))])"

definition cli_diff :: "('y, 'z) cli \<Rightarrow> string \<Rightarrow> bool \<Rightarrow> string \<Rightarrow> string \<Rightarrow> (('y, 'z) cli_state, nat) sm" where
  "cli_diff X rt as_json from_ref to_ref =
     bindS (open_cli X rt None) (\<lambda>(E, rp).
     bindS (on_repo (asksS (\<lambda>s. repo_diff E s from_ref to_ref))) (\<lambda>changes.
     bindS (says (if as_json then [OutJson (JArr (map diff_json changes))]
                  else map (\<lambda>d. Out (''  '' @ change_text (d_change d) @ '': '' @ d_path d)) changes)) (\<lambda>_. returnS 0)))"

definition cli_merge :: "('y, 'z) cli \<Rightarrow> string \<Rightarrow> bool \<Rightarrow> string \<Rightarrow> string \<Rightarrow> (('y, 'z) cli_state, nat) sm" where
  "cli_merge X rt as_json source_ref target_ref =
     bindS (open_cli X rt None) (\<lambda>(E, rp).
     bindS (on_repo (repo_merge E source_ref target_ref)) (\<lambda>m.
     bindS (say (if as_json then
                   OutJson (JObj [(''source_ref'', JStr (mr_source m)), (''target_ref'', JStr (mr_target m)),
                                  (''commit_id'', JStr (mr_commit m)), (''updated'', JBool (mr_updated m))])
                 else if mr_updated m then
                   Out (''Merged '' @ quoted_name (mr_source m) @ '' into '' @ quoted_name (mr_target m) @ '' ('' @ mr_commit m @ '')'')
                 else Out (quoted_name (mr_target m) @ '' is already up to date with '' @ quoted_name (mr_source m)))) (\<lambda>_.
       returnS 0)))"

text \<open>An audit fails while entries are unverifiable or sources have drifted.\<close>

definition verify_code :: "verify_result \<Rightarrow> nat" where
  "verify_code r = (if vr_verified r < vr_candidates r \<or> vr_drifted r \<noteq> [] then 1 else 0)"

definition show_audit :: "bool \<Rightarrow> verify_result \<Rightarrow> event list" where
  "show_audit as_json r =
     (let remaining = int (vr_candidates r) - int (vr_verified r) in
      if as_json then
        [OutJson (JObj [(''commit_id'', JStr (vr_commit r)), (''verified_entries'', nat_json (vr_verified r)),
            (''candidate_entries'', nat_json (vr_candidates r)), (''total_entries'', nat_json (vr_total r)),
            (''unverifiable_entries'', JInt remaining), (''drifted_paths'', strs (vr_drifted r))])]
      else
        Out (''Verified '' @ show_nat (vr_verified r) @ ''/'' @ show_nat (vr_candidates r) @ '' entries (total: '' @
             show_nat (vr_total r) @ '')'') #
        (if vr_drifted r \<noteq> [] then
           [Err (warning_sign @ ''  '' @ show_nat (length (vr_drifted r)) @
                 '' pointer entry(ies) no longer match their source metadata:'' @ shown_paths ''  drifted: '' 20 (vr_drifted r))]
         else []) @
        (if remaining > 0 then
           [Err (warning_sign @ ''  '' @ show_int remaining @ '' unverifiable entries remain (source objects must be retained; '' @
                 ''run `reflake identity promote` to materialize them).'')]
         else []))"

definition cli_verify ::
  "('y, 'z) cli \<Rightarrow> string \<Rightarrow> bool \<Rightarrow> string option \<Rightarrow> string list \<Rightarrow> bool \<Rightarrow> (('y, 'z) cli_state, nat) sm" where
  "cli_verify X rt as_json ref paths drift =
     bindS (open_cli X rt None) (\<lambda>(E, rp).
     bindS (on_repo (repo_verify E ref paths True drift)) (\<lambda>r.
     bindS (says (show_audit as_json r)) (\<lambda>_. returnS (verify_code r))))"

definition show_promotion :: "bool \<Rightarrow> verify_result \<Rightarrow> event list" where
  "show_promotion as_json r =
     (let remaining = int (vr_candidates r) - int (vr_verified r) in
      if as_json then
        [OutJson (JObj [(''commit_id'', JStr (vr_commit r)), (''verified_entries'', nat_json (vr_verified r)),
            (''candidate_entries'', nat_json (vr_candidates r)), (''total_entries'', nat_json (vr_total r)),
            (''created_commit'', JBool (vr_created r))])]
      else
        Out (''Promoted '' @ show_nat (vr_verified r) @ ''/'' @ show_nat (vr_candidates r) @ '' entries (total: '' @
             show_nat (vr_total r) @ '')'') #
        (if vr_created r then [Out (''Created commit: '' @ vr_commit r)] else []) @
        (if remaining > 0 then
           [Err (warning_sign @ ''  '' @ show_int remaining @
                 '' unverifiable entries remain (source objects must be retained for future promotion).'')]
         else []))"

definition cli_promote ::
  "('y, 'z) cli \<Rightarrow> string \<Rightarrow> bool \<Rightarrow> string option \<Rightarrow> string list \<Rightarrow> (('y, 'z) cli_state, nat) sm" where
  "cli_promote X rt as_json ref paths =
     bindS (open_cli X rt None) (\<lambda>(E, rp).
     bindS (on_repo (repo_verify E ref paths False False)) (\<lambda>r.
     bindS (says (show_promotion as_json r)) (\<lambda>_. returnS 0)))"

section \<open>Maintenance and queries\<close>

definition show_gc :: "bool \<Rightarrow> bool \<Rightarrow> gc_result \<Rightarrow> event list" where
  "show_gc as_json prune r =
     (let live_count = gc_reachable r; orphan_count = gc_orphans r; n = show_nat in
      if as_json then
        [OutJson (JObj [(''reachable_commits'', nat_json (live_count Commit)), (''reachable_trees'', nat_json (live_count Tree)),
            (''reachable_blobs'', nat_json (live_count Blob)), (''reachable_footers'', nat_json (live_count Footer)),
            (''orphan_commits'', nat_json (orphan_count Commit)), (''orphan_trees'', nat_json (orphan_count Tree)),
            (''orphan_blobs'', nat_json (orphan_count Blob)), (''orphan_footers'', nat_json (orphan_count Footer)),
            (''pruned'', JBool (gc_pruned r)), (''skipped_young'', nat_json (gc_skipped_young r))])]
      else
        [Out (''Reachable: '' @ n (live_count Commit) @ '' commits, '' @ n (live_count Tree) @ '' trees, '' @
              n (live_count Blob) @ '' blobs, '' @ n (live_count Footer) @ '' footers''),
         Out (''Orphans:   '' @ n (orphan_count Commit) @ '' commits, '' @ n (orphan_count Tree) @ '' trees, '' @
              n (orphan_count Blob) @ '' blobs, '' @ n (orphan_count Footer) @ '' footers'')] @
        (if gc_skipped_young r \<noteq> 0 then
           [Out (''Skipped:   '' @ n (gc_skipped_young r) @
                 '' orphan(s) younger than the grace window (may belong to a concurrent writer)'')]
         else []) @
        [Out (if gc_pruned r then ''Pruned orphaned objects.''
              else if prune then ''No orphaned objects to prune.''
              else ''Dry run '' @ em_dash @ '' nothing deleted. Re-run with --prune to delete.'')])"

text \<open>Without \<open>--grace-seconds\<close> the configuration of the working tree decides.\<close>

definition grace_of :: "env \<Rightarrow> opened \<Rightarrow> int option \<Rightarrow> (('y, 'z) cli_state, int) sm" where
  "grace_of E rp grace =
     (case grace of
        Some g \<Rightarrow> returnS g
      | None \<Rightarrow>
          bindS (asksS (\<lambda>st. load_config (ev_prims E) (stored_config (cs_fs st) (op_worktree rp)))) (\<lambda>config.
            returnS (case config of None \<Rightarrow> 86400 | Some c \<Rightarrow> cf_gc_grace_seconds (config_base c))))"

definition cli_gc :: "('y, 'z) cli \<Rightarrow> string \<Rightarrow> bool \<Rightarrow> bool \<Rightarrow> int option \<Rightarrow> (('y, 'z) cli_state, nat) sm" where
  "cli_gc X rt as_json prune grace =
     bindS (open_cli X rt None) (\<lambda>(E, rp).
     bindS (grace_of E rp grace) (\<lambda>grace_seconds.
     bindS (on_repo (\<lambda>s. gc (ev_prims E) (ev_walk E) (ev_tree E) (cli_inventory X s) (cli_now_ns X) grace_seconds (\<not> prune) s)) (\<lambda>r.
     bindS (says (show_gc as_json prune r)) (\<lambda>_. returnS 0))))"

definition show_scans :: "bool \<Rightarrow> pruned_scan list \<Rightarrow> event list" where
  "show_scans as_json scans =
     (if as_json then
        [OutJson (JArr (map (\<lambda>x. JObj [(''path'', JStr (sc_path x)), (''footer_hash'', JStr (sc_footer x)),
            (''total_row_groups'', nat_json (sc_total x)), (''kept_row_groups'', JArr (map nat_json (sc_kept x))),
            (''pruned_row_groups'', JArr (map nat_json (sc_pruned x)))]) scans))]
      else
        map (\<lambda>x. Out (sc_path x @ '': kept '' @ show_nat (length (sc_kept x)) @ ''/'' @ show_nat (sc_total x) @
                       '' row groups ('' @ show_nat (length (sc_pruned x)) @ '' pruned)'')) scans @
        [Out (if scans = [] then ''No parquet files with captured footer stats under this path.''
              else ''Summary: '' @ show_nat (length scans) @ '' files, '' @ show_nat (sum_list (map (length \<circ> sc_kept) scans)) @
                   '' kept / '' @ show_nat (sum_list (map (length \<circ> sc_pruned) scans)) @ '' pruned row groups (metadata-only).'')])"

definition cli_prune ::
  "('y, 'z) cli \<Rightarrow> string \<Rightarrow> bool \<Rightarrow> string \<Rightarrow> string \<Rightarrow> string \<Rightarrow> (('y, 'z) cli_state, nat) sm" where
  "cli_prune X rt as_json ref path where_clause =
     bindS (open_cli X rt None) (\<lambda>(E, rp).
     bindS (on_repo (bindS (resolve_refS ref) (read_commitS E))) (\<lambda>c.
     bindS (liftS (parse_where_clause where_clause)) (\<lambda>predicates.
     bindS (\<lambda>st. on_cache (plan_pruned_scan (ev_prims E) (tree_loader E (cs_local st)) (ev_tree E)
              (lookup_object Footer (cs_local st)) (c_tree c) path predicates) st) (\<lambda>scans.
     bindS (says (show_scans as_json scans)) (\<lambda>_. returnS 0)))))"

text \<open>\<open>query build\<close> is for the head of the current branch.\<close>

definition show_index :: "bool \<Rightarrow> index_paths \<Rightarrow> event list" where
  "show_index as_json p =
     (if as_json then
        [OutJson (JObj [(''database_path'', JStr (abs_path (ip_database p))), (''parquet_path'', opt_json (map_option abs_path (ip_parquet p)))])]
      else
        Out (''Database: '' @ abs_path (ip_database p)) #
        (case ip_parquet p of None \<Rightarrow> [] | Some q \<Rightarrow> [Out (''Parquet:  '' @ abs_path q)]))"

definition cli_build ::
  "('y, 'z) cli \<Rightarrow> string \<Rightarrow> bool \<Rightarrow> string option \<Rightarrow> bool \<Rightarrow> (('y, 'z) cli_state, nat) sm" where
  "cli_build X rt as_json output_dir parquet =
     bindS (open_cli X rt None) (\<lambda>(E, rp).
     bindS (\<lambda>st. on_files (build_analytical_index E (cli_db X) (cli_clock X) (cs_local st) (op_client_root rp) None output_dir parquet) st) (\<lambda>p.
     bindS (says (show_index as_json p)) (\<lambda>_. returnS 0)))"

section \<open>Reading\<close>

definition log_json :: "commit \<Rightarrow> json" where
  "log_json c =
     JObj [(''id'', JStr (c_id c)), (''message'', JStr (c_message c)), (''tree'', JStr (c_tree c)),
           (''parents'', strs (c_parents c)), (''created_at'', JStr (c_created_at c))]"

definition log_lines :: "commit \<Rightarrow> event list" where
  "log_lines c =
     [Out (''commit '' @ c_id c), Out (''Date:   '' @ c_created_at c)] @ map (\<lambda>p. Out (''Parent: '' @ p)) (c_parents c) @
     [Out [], Out (lines_text (map (\<lambda>l. ''    '' @ l) (splitlines (c_message c))))]"

fun log_text :: "commit list \<Rightarrow> event list" where
  "log_text [] = []"
| "log_text [c] = log_lines c"
| "log_text (c # d # cs) = log_lines c @ Out [] # log_text (d # cs)"

definition cli_log :: "('y, 'z) cli \<Rightarrow> string \<Rightarrow> bool \<Rightarrow> string option \<Rightarrow> (('y, 'z) cli_state, nat) sm" where
  "cli_log X rt as_json ref =
     bindS (open_cli X rt None) (\<lambda>(E, rp).
     bindS (on_repo (bindS (branch_or_current ref) (\<lambda>r. asksS (\<lambda>s. repo_log E s r)))) (\<lambda>commits.
     bindS (says (if as_json then [OutJson (JArr (map log_json commits))] else log_text commits)) (\<lambda>_. returnS 0)))"

definition entry_json :: "entry \<Rightarrow> json" where
  "entry_json e =
     JObj [(''path'', JStr (e_path e)), (''hash'', JStr (e_hash e)), (''size'', JInt (e_size e)),
           (''identity_mode'', opt_json (identity_mode e)), (''blob_hash'', opt_json (blob_hash e)), (''source_uri'', opt_json (e_uri e))]"

definition cli_list :: "('y, 'z) cli \<Rightarrow> string \<Rightarrow> bool \<Rightarrow> string \<Rightarrow> string option \<Rightarrow> (('y, 'z) cli_state, nat) sm" where
  "cli_list X rt as_json path ref =
     bindS (open_cli X rt None) (\<lambda>(E, rp).
     bindS (on_repo (bindS (branch_or_current ref) (\<lambda>r. resolve_entries_for_prefix E r path False None))) (\<lambda>es.
     bindS (says (if as_json then [OutJson (JArr (map (entry_json \<circ> snd) es))] else map Out (sort (map fst es)))) (\<lambda>_. returnS 0)))"

definition cli_cat :: "('y, 'z) cli \<Rightarrow> string \<Rightarrow> string \<Rightarrow> string \<Rightarrow> (('y, 'z) cli_state, nat) sm" where
  "cli_cat X rt ref path =
     bindS (open_cli X rt None) (\<lambda>(E, rp).
     bindS (on_repo (repo_cat E ref path)) (\<lambda>content.
     bindS (say (OutBytes content)) (\<lambda>_. returnS 0)))"

text \<open>\<open>line.split(" ", 3)\<close> into the four fields of a line of the reflog.\<close>

definition reflog_json :: "string \<Rightarrow> json res" where
  "reflog_json line =
     (let (old, r1) = (takeWhile (\<lambda>c. c \<noteq> CHR '' '') line, dropWhile (\<lambda>c. c \<noteq> CHR '' '') line);
          (new, r2) = (takeWhile (\<lambda>c. c \<noteq> CHR '' '') (tl r1), dropWhile (\<lambda>c. c \<noteq> CHR '' '') (tl r1));
          (operation, r3) = (takeWhile (\<lambda>c. c \<noteq> CHR '' '') (tl r2), dropWhile (\<lambda>c. c \<noteq> CHR '' '') (tl r2))
      in if r1 = [] \<or> r2 = [] \<or> r3 = [] then Inl ValueError
         else Inr (JObj [(''old'', JStr old), (''new'', JStr new), (''operation'', JStr operation), (''timestamp'', JStr (tl r3))]))"

definition cli_reflog :: "('y, 'z) cli \<Rightarrow> string \<Rightarrow> bool \<Rightarrow> string option \<Rightarrow> (('y, 'z) cli_state, nat) sm" where
  "cli_reflog X rt as_json branch =
     bindS (open_cli X rt None) (\<lambda>(E, rp).
     bindS (on_repo (asksS (\<lambda>s. repo_reflog s branch))) (\<lambda>lines.
     bindS (if as_json then bindS (liftS (mapE reflog_json lines)) (\<lambda>js. say (OutJson (JArr js)))
            else says (map Out lines)) (\<lambda>_. returnS 0)))"

definition branch_json :: "string \<times> string option \<times> string option \<Rightarrow> json" where
  "branch_json b = (case b of (name, head, message) \<Rightarrow>
     JObj [(''branch'', JStr name), (''commit_id'', opt_json head), (''message'', opt_json message)])"

text \<open>\<open>str.rstrip\<close> of the line.\<close>

definition branch_line :: "string \<times> string option \<times> string option \<Rightarrow> string" where
  "branch_line b = (case b of (name, head, message) \<Rightarrow>
     rev (strip_left (ws_len_by (map rev ws_wide)) (rev (name @ '': '' @ (if truthy head then the head else ''<empty>'') @ '' '' @
       (if truthy message then the message else [])))))"

definition cli_branches :: "('y, 'z) cli \<Rightarrow> string \<Rightarrow> bool \<Rightarrow> (('y, 'z) cli_state, nat) sm" where
  "cli_branches X rt as_json =
     bindS (open_cli X rt None) (\<lambda>(E, rp).
     bindS (on_repo (asksS (repo_branches E))) (\<lambda>bs.
     bindS (says (if as_json then [OutJson (JArr (map branch_json bs))] else map (Out \<circ> branch_line) bs)) (\<lambda>_. returnS 0)))"

section \<open>Configuration\<close>

definition made_config :: "config \<Rightarrow> config res" where
  "made_config c = bindE (check_config c) (\<lambda>_. Inr c)"

definition with_base :: "(base_config \<Rightarrow> base_config) \<Rightarrow> config \<Rightarrow> config" where
  "with_base f c = (case c of LocalConfig b \<Rightarrow> LocalConfig (f b) | S3Config b x \<Rightarrow> S3Config (f b) x)"

definition with_s3 :: "(s3_settings \<Rightarrow> s3_settings) \<Rightarrow> config \<Rightarrow> config res" where
  "with_s3 f c = (case c of LocalConfig b \<Rightarrow> Inl ValueError | S3Config b x \<Rightarrow> Inr (S3Config b (f x)))"

definition bool_of_text :: "string \<Rightarrow> bool res" where
  "bool_of_text v =
     (let t = ascii_lower (strip v) in
      if t \<in> {''true'', ''1'', ''yes'', ''on''} then Inr True
      else if t \<in> {''false'', ''0'', ''no'', ''off''} then Inr False
      else Inl ValueError)"

definition config_set_value :: "config \<Rightarrow> string \<Rightarrow> string \<Rightarrow> config res" where
  "config_set_value c k v =
     (let fresh = default_base\<lparr>cf_dataset_root := cf_dataset_root (config_base c), cf_default_branch := cf_default_branch (config_base c)\<rparr>;
          bucket_only = (\<lambda>u. \<lparr>s3c_bucket = u, s3c_prefix = [], s3c_endpoint_url = None\<rparr>)
      in if k = ''backend'' then
           (if v \<notin> {''local'', ''s3''} then Inl ValueError
            else if v = ''s3'' then
              made_config (S3Config fresh (bucket_only (case c of S3Config b x \<Rightarrow> s3c_bucket x | LocalConfig b \<Rightarrow> [])))
            else made_config (LocalConfig fresh))
         else if k = ''dataset_root'' then Inr (with_base (cf_dataset_root_update (\<lambda>_. v)) c)
         else if k = ''default_branch'' then Inr (with_base (cf_default_branch_update (\<lambda>_. v)) c)
         else if k = ''identity'' then
           (if v \<notin> {''content'', ''pointer''} then Inl ValueError else Inr (with_base (cf_identity_update (\<lambda>_. v)) c))
         else if k = ''transfer_backend'' then
           Inr (with_base (cf_transfer_backend_update (\<lambda>_. if v = [] then None else Some v)) c)
         else if k = ''parquet_footer'' then
           bindE (bool_of_text v) (\<lambda>b. Inr (with_base (cf_parquet_footer_update (\<lambda>_. b)) c))
         else if k = ''trust_mtime'' then
           bindE (bool_of_text v) (\<lambda>b. Inr (with_base (cf_trust_mtime_update (\<lambda>_. b)) c))
         else if k = ''gc_grace_seconds'' then
           (case int_of_text v of
              Inl e \<Rightarrow> Inl ValueError
            | Inr n \<Rightarrow> if n < 0 then Inl ValueError else Inr (with_base (cf_gc_grace_seconds_update (\<lambda>_. n)) c))
         else if k = ''s3.bucket'' then
           (case c of
              LocalConfig b \<Rightarrow> made_config (S3Config fresh (bucket_only v))
            | S3Config b x \<Rightarrow> Inr (S3Config b (x\<lparr>s3c_bucket := v\<rparr>)))
         else if k = ''s3.prefix'' then with_s3 (s3c_prefix_update (\<lambda>_. v)) c
         else if k = ''s3.endpoint_url'' then with_s3 (s3c_endpoint_url_update (\<lambda>_. Some v)) c
         else Inl ValueError)"

definition no_config :: "(('y, 'z) cli_state, nat) sm" where
  "no_config = bindS (say (Err (''No config found. Run '' @ quoted_name ''reflake config init'' @ '' first.''))) (\<lambda>_. returnS 1)"

definition created_config ::
  "('y, 'z) cli \<Rightarrow> string \<Rightarrow> string \<Rightarrow> string option \<Rightarrow> string option \<Rightarrow> string option \<Rightarrow> string
     \<Rightarrow> (('y, 'z) cli_state, string) sm" where
  "created_config X rt backend bucket pre endpoint default_branch =
     (let d = w_resolve (ev_world (cli_env X)) rt in
      bindS (asksS (\<lambda>st. init_config (abs_path d) (backend = ''s3'') default_branch bucket pre endpoint (ev_world (env_at X (cs_fs st))))) (\<lambda>c.
        save_config_at X d (save_config (ev_prims (cli_env X)) c)))"

definition cli_config_init ::
  "('y, 'z) cli \<Rightarrow> string \<Rightarrow> bool \<Rightarrow> string \<Rightarrow> string option \<Rightarrow> string option \<Rightarrow> string option \<Rightarrow> string
     \<Rightarrow> (('y, 'z) cli_state, nat) sm" where
  "cli_config_init X rt as_json backend bucket pre endpoint default_branch =
     bindS (created_config X rt backend bucket pre endpoint default_branch) (\<lambda>path.
     bindS (say (if as_json then OutJson (JObj [(''config_path'', JStr path)]) else Out (''Config initialized: '' @ path))) (\<lambda>_.
       returnS 0))"

definition cli_config_set :: "('y, 'z) cli \<Rightarrow> string \<Rightarrow> bool \<Rightarrow> string \<Rightarrow> string \<Rightarrow> (('y, 'z) cli_state, nat) sm" where
  "cli_config_set X rt as_json k v =
     bindS (load_config_at X rt) (\<lambda>config.
       case config of
         None \<Rightarrow> no_config
       | Some c \<Rightarrow>
           bindS (liftS (config_set_value c k v)) (\<lambda>c'.
           bindS (save_config_at X (w_resolve (ev_world (cli_env X)) rt) (save_config (ev_prims (cli_env X)) c')) (\<lambda>path.
           bindS (say (if as_json then OutJson (JObj [(''key'', JStr k), (''value'', JStr v), (''config_path'', JStr path)])
                       else Out (''Updated: '' @ k @ ''='' @ v))) (\<lambda>_. returnS 0))))"

definition cli_config_list :: "('y, 'z) cli \<Rightarrow> string \<Rightarrow> bool \<Rightarrow> (('y, 'z) cli_state, nat) sm" where
  "cli_config_list X rt as_json =
     (let P = ev_prims (cli_env X) in
      bindS (load_config_at X rt) (\<lambda>config.
        case config of
          None \<Rightarrow> no_config
        | Some c \<Rightarrow>
            bindS (if as_json then
                     bindS (liftS (case json_decode P (json_encode P (config_json c)) of None \<Rightarrow> Inl DecodeError | Some v \<Rightarrow> Inr v))
                       (\<lambda>v. say (OutJson v))
                   else say (Out (json_format P (json_encode P (config_json c))))) (\<lambda>_. returnS 0)))"

definition cli_init ::
  "('y, 'z) cli \<Rightarrow> string \<Rightarrow> bool \<Rightarrow> string \<Rightarrow> string option \<Rightarrow> string option \<Rightarrow> string option \<Rightarrow> string
     \<Rightarrow> (('y, 'z) cli_state, nat) sm" where
  "cli_init X rt as_json backend bucket pre endpoint default_branch =
     (if backend = ''local'' then
        bindS (init_at X rt default_branch) (\<lambda>d.
          let path = abs_path (d @ [''.reflake'']) in
          bindS (say (if as_json then OutJson (JObj [(''repository'', JStr path), (''backend'', JStr ''local'')])
                      else Out (''Repository initialized: '' @ path))) (\<lambda>_. returnS 0))
      else
        bindS (created_config X rt backend bucket pre endpoint default_branch) (\<lambda>path.
        bindS (say (if as_json then OutJson (JObj [(''config_path'', JStr path), (''backend'', JStr backend)])
                    else Out (''Repository initialized: '' @ path))) (\<lambda>_. returnS 0)))"

section \<open>Branches and files\<close>

definition cli_checkout :: "('y, 'z) cli \<Rightarrow> string \<Rightarrow> bool \<Rightarrow> string \<Rightarrow> (('y, 'z) cli_state, nat) sm" where
  "cli_checkout X rt as_json name =
     bindS (open_cli X rt None) (\<lambda>(E, rp).
     bindS (on_repo (set_current_branch name)) (\<lambda>_.
     bindS (say (if as_json then OutJson (JObj [(''branch'', JStr name)])
                 else Out (''Switched to branch '' @ quoted_name name))) (\<lambda>_. returnS 0)))"

definition cli_restore ::
  "('y, 'z) cli \<Rightarrow> string \<Rightarrow> bool \<Rightarrow> string \<Rightarrow> string list \<Rightarrow> bool \<Rightarrow> (('y, 'z) cli_state, nat) sm" where
  "cli_restore X rt as_json ref paths force =
     bindS (open_cli X rt None) (\<lambda>(E, rp).
     bindS (\<lambda>st. on_files (repo_restore_files E (cs_local st) (cli_clock X) ref paths force) st) (\<lambda>restored.
     bindS (say (if as_json then OutJson (JObj [(''restored'', strs restored)])
                 else if restored = [] then Out ''Nothing to restore''
                 else Out (''Restored '' @ show_nat (length restored) @ '' file(s) from '' @ quoted_name ref @ '':'' @
                           CHR 0x0A # lines_text (map (\<lambda>p. ''  restored: '' @ p) restored)))) (\<lambda>_. returnS 0)))"

definition cli_reset :: "('y, 'z) cli \<Rightarrow> string \<Rightarrow> bool \<Rightarrow> string \<Rightarrow> string option \<Rightarrow> (('y, 'z) cli_state, nat) sm" where
  "cli_reset X rt as_json ref branch =
     bindS (open_cli X rt None) (\<lambda>(E, rp).
     bindS (on_repo (bindS (branch_or_current branch) (\<lambda>b. asksS (\<lambda>s. stage_load (ev_prims E) s b)))) (\<lambda>staged.
     bindS (on_repo (repo_reset E ref branch)) (\<lambda>r.
     bindS (says (if staged = [] then []
                  else [Err (warning_sign @ ''  Branch '' @ quoted_name (rr_ref r) @
                             '' still has staged changes; `commit --staged` will apply them onto the new parent.'')])) (\<lambda>_.
     bindS (say (if as_json then
                   OutJson (JObj [(''ref'', JStr (rr_ref r)), (''commit_id'', JStr (rr_commit r)),
                                  (''previous_commit_id'', opt_json (rr_previous r)), (''updated'', JBool (rr_updated r))])
                 else if rr_updated r then Out (''Moved '' @ quoted_name (rr_ref r) @ '' to '' @ rr_commit r)
                 else Out (quoted_name (rr_ref r) @ '' is already at '' @ rr_commit r))) (\<lambda>_. returnS 0)))))"

section \<open>Synchronization\<close>

definition show_sync :: "bool \<Rightarrow> string \<Rightarrow> string \<Rightarrow> string \<Rightarrow> string \<Rightarrow> string \<Rightarrow> sync_result \<Rightarrow> event" where
  "show_sync as_json field verb way uri unchanged p =
     (if as_json then
        OutJson (JObj [(''source_branch'', JStr (sy_branch p)), (''remote_uri'', JStr (sy_uri p)),
            (field @ ''_commits'', nat_json (sy_commits p)), (field @ ''_blobs'', nat_json (sy_blobs p)), (''updated'', JBool (sy_updated p))])
      else if sy_updated p then
        Out (verb @ '' '' @ show_nat (sy_commits p) @ '' commit(s), '' @ show_nat (sy_blobs p) @ '' blob(s) '' @ way @ '' '' @ uri)
      else Out unchanged)"

definition cli_push ::
  "('y, 'z) cli \<Rightarrow> string \<Rightarrow> bool \<Rightarrow> string \<Rightarrow> string option \<Rightarrow> string \<Rightarrow> (('y, 'z) cli_state, nat) sm" where
  "cli_push X rt as_json uri ref transfer =
     bindS (open_cli X rt (Some transfer)) (\<lambda>(E, rp).
     bindS (liftS (build_blob_transfer_backend transfer)) (\<lambda>choice.
     bindS (on_both (push E (store_kind_of rp) (cli_backend X choice) uri ref)) (\<lambda>p.
     bindS (say (show_sync as_json ''pushed'' ''Pushed'' ''to'' uri ''Everything up-to-date'' p)) (\<lambda>_. returnS 0))))"

definition cli_pull ::
  "('y, 'z) cli \<Rightarrow> string \<Rightarrow> bool \<Rightarrow> string \<Rightarrow> string option \<Rightarrow> string \<Rightarrow> (('y, 'z) cli_state, nat) sm" where
  "cli_pull X rt as_json uri ref transfer =
     bindS (open_or_init X rt (Some transfer)) (\<lambda>(E, rp).
     bindS (liftS (build_blob_transfer_backend transfer)) (\<lambda>choice.
     bindS (on_both (pull E (store_kind_of rp) (cli_backend X choice) uri ref)) (\<lambda>p.
     bindS (say (show_sync as_json ''pulled'' ''Pulled'' ''from'' uri ''Already up-to-date'' p)) (\<lambda>_. returnS 0))))"

definition cli_fetch ::
  "('y, 'z) cli \<Rightarrow> string \<Rightarrow> bool \<Rightarrow> string \<Rightarrow> string option \<Rightarrow> string \<Rightarrow> (('y, 'z) cli_state, nat) sm" where
  "cli_fetch X rt as_json uri ref transfer =
     bindS (open_or_init X rt (Some transfer)) (\<lambda>(E, rp).
     bindS (liftS (build_blob_transfer_backend transfer)) (\<lambda>choice.
     bindS (on_both (fetch E (store_kind_of rp) (cli_backend X choice) uri ref)) (\<lambda>(b, commits, blobs).
     bindS (say (if as_json then
                   OutJson (JObj [(''remote_uri'', JStr uri), (''branch'', JStr b), (''fetched_commits'', nat_json commits),
                                  (''fetched_blobs'', nat_json blobs)])
                 else Out (''Fetched '' @ show_nat commits @ '' commit(s), '' @ show_nat blobs @ '' blob(s) from '' @ uri))) (\<lambda>_.
       returnS 0))))"

text \<open>The commands are for the trees of the directory's own store; \<open>--execute\<close> runs the words of each.\<close>

definition run_words :: "('y, 'z) cli \<Rightarrow> string \<Rightarrow> (('y, 'z) cli_state, unit) sm" where
  "run_words X cmd =
     (case shell_words Plain None cmd of
        None \<Rightarrow> raiseS ValueError
      | Some words \<Rightarrow> bindS (say (Ran words)) (\<lambda>_. liftS (cli_program X words)))"

definition cli_transfer ::
  "('y, 'z) cli \<Rightarrow> string \<Rightarrow> bool \<Rightarrow> string \<Rightarrow> bool \<Rightarrow> string option \<Rightarrow> (('y, 'z) cli_state, nat) sm" where
  "cli_transfer X rt as_json transfer_direction execute ref =
     bindS (open_cli X rt None) (\<lambda>(E, rp).
     bindS (asksS (\<lambda>st. load_config (ev_prims E) (stored_config (cs_fs st) (op_worktree rp)))) (\<lambda>config.
     bindS (on_repo (asksS (\<lambda>s. repo_generate_transfer_commands E s (cli_trees X)
              (case config of Some (S3Config b x) \<Rightarrow> Some (s3c_bucket x, s3c_prefix x) | _ \<Rightarrow> None)
              ref (transfer_direction = ''upload'') True))) (\<lambda>cmds.
     bindS (if execute then mapS (run_words X) cmds else returnS []) (\<lambda>_.
     bindS (says (if as_json then [OutJson (JObj [(''commands'', strs cmds), (''executed'', nat_json (if execute then length cmds else 0))])]
                  else if execute then [Out (''Executed '' @ show_nat (length cmds) @ '' transfer commands'')]
                  else map Out cmds)) (\<lambda>_. returnS 0)))))"

section \<open>The process\<close>

definition run_command :: "('y, 'z) cli \<Rightarrow> string \<Rightarrow> bool \<Rightarrow> command \<Rightarrow> (('y, 'z) cli_state, nat) sm" where
  "run_command X rt as_json c =
     (case c of
        CommitCmd message staged_only \<Rightarrow> cli_commit X rt as_json message staged_only
      | AddCmd paths mode dst \<Rightarrow> cli_add X rt as_json paths mode dst
      | RmCmd paths \<Rightarrow> cli_rm X rt as_json paths
      | MoveCmd src dst \<Rightarrow> cli_move X rt as_json src dst
      | StatusCmd \<Rightarrow> cli_status X rt as_json
      | BranchCmd name delete \<Rightarrow> cli_branch X rt as_json name delete
      | DiffCmd from_ref to_ref \<Rightarrow> cli_diff X rt as_json from_ref to_ref
      | MergeCmd source_ref target_ref \<Rightarrow> cli_merge X rt as_json source_ref target_ref
      | VerifyCmd ref paths drift \<Rightarrow> cli_verify X rt as_json ref paths drift
      | PromoteCmd ref paths \<Rightarrow> cli_promote X rt as_json ref paths
      | GcCmd prune grace \<Rightarrow> cli_gc X rt as_json prune grace
      | PruneCmd ref path where_clause \<Rightarrow> cli_prune X rt as_json ref path where_clause
      | BuildCmd output_dir parquet \<Rightarrow> cli_build X rt as_json output_dir parquet
      | LogCmd ref \<Rightarrow> cli_log X rt as_json ref
      | ListCmd path ref \<Rightarrow> cli_list X rt as_json path ref
      | CatCmd ref path \<Rightarrow> cli_cat X rt ref path
      | ReflogCmd branch \<Rightarrow> cli_reflog X rt as_json branch
      | BranchesCmd \<Rightarrow> cli_branches X rt as_json
      | ConfigInitCmd backend bucket pre endpoint dflt \<Rightarrow> cli_config_init X rt as_json backend bucket pre endpoint dflt
      | ConfigSetCmd k v \<Rightarrow> cli_config_set X rt as_json k v
      | ConfigListCmd \<Rightarrow> cli_config_list X rt as_json
      | CheckoutCmd name \<Rightarrow> cli_checkout X rt as_json name
      | RestoreCmd ref paths force \<Rightarrow> cli_restore X rt as_json ref paths force
      | ResetCmd ref branch \<Rightarrow> cli_reset X rt as_json ref branch
      | InitCmd backend bucket pre endpoint dflt \<Rightarrow> cli_init X rt as_json backend bucket pre endpoint dflt
      | PushCmd uri ref transfer \<Rightarrow> cli_push X rt as_json uri ref transfer
      | PullCmd uri ref transfer \<Rightarrow> cli_pull X rt as_json uri ref transfer
      | FetchCmd uri ref transfer \<Rightarrow> cli_fetch X rt as_json uri ref transfer
      | TransferCmd transfer_direction execute ref \<Rightarrow> cli_transfer X rt as_json transfer_direction execute ref)"

text \<open>An exception that is not handled ends the process.\<close>

datatype ending = Exit nat | Crashed error

definition run_cli :: "('y, 'z) cli \<Rightarrow> string \<Rightarrow> bool \<Rightarrow> command \<Rightarrow> ('y, 'z) cli_state \<Rightarrow> ending \<times> ('y, 'z) cli_state" where
  "run_cli X rt as_json c st =
     (case run_command X rt as_json c st of
        (Inr code, st') \<Rightarrow> (Exit code, st')
      | (Inl e, st') \<Rightarrow>
          if handled_error e then
            let code = error_exit_code e in
            (Exit code, st'\<lparr>cs_output := cs_output st' @ [Failed as_json (command_name c) e code]\<rparr>)
          else (Crashed e, st'))"

end
