(* ===== verification/Vfs.thy ===== *)
theory Vfs
  imports Repository Repo_Invariants
begin

text \<open>
  \<open>core/vfs/__init__.py\<close>: the read-only file system over repositories, whose addresses are
  \<open>reflake://<dataset>@<ref>[+staged]/<path>\<close>. The state is the repositories that can be opened, by
  their root; the caching of opened ones is not visible in it.

  The lemmas: an address that parses has a dataset, a reference and a path of the right form; an
  address written from them parses back; and reading moves no branch and changes no commit.
\<close>

section \<open>Addresses\<close>

record reflake_uri =
  ru_dataset :: string
  ru_ref :: string
  ru_path :: string
  ru_staging :: bool

definition strip_protocol :: "string \<Rightarrow> string" where
  "strip_protocol path = (if prefix ''reflake://'' path then drop (length ''reflake://'') path else path)"

definition validate_uri_component :: "string \<Rightarrow> unit res" where
  "validate_uri_component component = validate_no_binary component"

definition split_first :: "char \<Rightarrow> string \<Rightarrow> string \<times> string" where
  "split_first c s = (takeWhile (\<lambda>d. d \<noteq> c) s, drop 1 (dropWhile (\<lambda>d. d \<noteq> c) s))"

definition parse_uri :: "string \<Rightarrow> bool \<Rightarrow> reflake_uri res" where
  "parse_uri path allow_empty_path =
     (let stripped = strip_protocol path in
      if stripped = [] then Inl ValueError
      else if CHR ''@'' \<notin> set stripped then Inl ValueError
      else
        let (dataset, remainder) = split_first (CHR ''@'') stripped in
        bindE (validate_uri_component dataset) (\<lambda>_.
          if dataset = [] then Inl ValueError
          else if CHR ''/'' \<in> set dataset then Inl ValueError
          else if dataset \<in> {''.'', ''..''} then Inl ValueError
          else
            let (ref_raw, raw_path) = (if CHR ''/'' \<in> set remainder then split_first (CHR ''/'') remainder else (remainder, []));
                include_staging = suffix ''+staged'' ref_raw;
                ref = (if include_staging then take (length ref_raw - length ''+staged'') ref_raw else ref_raw)
            in bindE (validate_uri_component ref) (\<lambda>_.
                 if ref = [] then Inl ValueError
                 else if CHR ''/'' \<in> set ref then Inl ValueError
                 else if ref \<in> {''.'', ''..''} then Inl ValueError
                 else
                   let logical_path = strip_char (CHR ''/'') raw_path in
                   bindE (if logical_path \<noteq> [] then normalize_repository_path logical_path
                          else if \<not> allow_empty_path then Inl ValueError else Inr []) (\<lambda>p.
                     Inr \<lparr>ru_dataset = dataset, ru_ref = ref, ru_path = p, ru_staging = include_staging\<rparr>))))"

section \<open>Repositories by root\<close>

type_synonym 'z repositories = "(string \<times> 'z repo_store_scheme) list"

definition with_repository :: "string \<Rightarrow> ('z repo_store_scheme, 'a) sm \<Rightarrow> ('z repositories, 'a) sm" where
  "with_repository rt m st =
     (case map_of st rt of
        None \<Rightarrow> (Inl (NotARepositoryError rt), st)
      | Some s \<Rightarrow> (case m s of (r, s') \<Rightarrow> (r, alist_put rt s' st)))"

definition dataset_root :: "(string \<times> string) list \<Rightarrow> string \<Rightarrow> string res" where
  "dataset_root roots dataset =
     (case map_of roots dataset of
        Some rt \<Rightarrow> Inr rt
      | None \<Rightarrow>
          bindE (validate_uri_component dataset) (\<lambda>_.
            if CHR ''/'' \<in> set dataset \<or> dataset \<in> {''.'', ''..''} then Inl ValueError else Inl FileNotFoundError))"

record resolved_entry =
  re_uri :: reflake_uri
  re_root :: string
  re_commit :: string
  re_entry :: entry

definition vfs_resolve_entry ::
  "env \<Rightarrow> (string \<times> string) list \<Rightarrow> string \<Rightarrow> ('z repositories, resolved_entry) sm" where
  "vfs_resolve_entry E roots path =
     bindS (liftS (parse_uri path False)) (\<lambda>u.
     bindS (liftS (dataset_root roots (ru_dataset u))) (\<lambda>rt.
     bindS (with_repository rt (resolve_refS (ru_ref u))) (\<lambda>commit_id.
     bindS (with_repository rt (resolve_entry E (ru_ref u) (ru_path u) (ru_staging u) (Some commit_id))) (\<lambda>r.
       case r of
         None \<Rightarrow> raiseS FileNotFoundError
       | Some e \<Rightarrow> returnS \<lparr>re_uri = u, re_root = rt, re_commit = commit_id, re_entry = e\<rparr>))))"

section \<open>Operations\<close>

text \<open>What the opened file reads, from its start to its end.\<close>

definition vfs_open :: "env \<Rightarrow> (string \<times> string) list \<Rightarrow> string \<Rightarrow> string \<Rightarrow> ('z repositories, string) sm" where
  "vfs_open E roots path mode =
     (if mode \<noteq> ''rb'' then raiseS NotImplementedError
      else
        bindS (vfs_resolve_entry E roots path) (\<lambda>r.
          if truthy (blob_hash (re_entry r)) then
            with_repository (re_root r) (asksS (\<lambda>s. open_blob s (the (blob_hash (re_entry r)))))
          else if truthy (e_uri (re_entry r)) then liftS (open_source_uri (ev_world E) (the (e_uri (re_entry r))))
          else raiseS FileNotFoundError))"

text \<open>\<open>except (FileNotFoundError, ValueError)\<close>, which every error of the program is a subclass of.\<close>

definition not_found_or_value :: "error \<Rightarrow> bool" where
  "not_found_or_value e \<longleftrightarrow>
     e \<notin> {TypeError, OverflowError, OSError, AssertionError, IndexError, KeyError, NotImplementedError, AttributeError,
           StructError, PatternError, DecodeError, OutOfFuel}"

definition vfs_exists :: "env \<Rightarrow> (string \<times> string) list \<Rightarrow> string \<Rightarrow> ('z repositories, bool) sm" where
  "vfs_exists E roots path st =
     (case vfs_resolve_entry E roots path st of
        (Inr r, st') \<Rightarrow> (Inr True, st')
      | (Inl e, st') \<Rightarrow> (if not_found_or_value e then Inr False else Inl e, st'))"

record file_info =
  fi_name :: string
  fi_size :: int
  fi_hash :: string
  fi_identity :: "string option"

record file_detail = file_info +
  fi_mtime :: int
  fi_commit :: string
  fi_staged :: bool
  fi_dataset :: string

definition vfs_info :: "env \<Rightarrow> (string \<times> string) list \<Rightarrow> string \<Rightarrow> ('z repositories, file_detail) sm" where
  "vfs_info E roots path =
     bindS (vfs_resolve_entry E roots path) (\<lambda>r.
       let e = re_entry r in
       returnS \<lparr>fi_name = path, fi_size = e_size e, fi_hash = e_hash e, fi_identity = identity_mode e, fi_mtime = e_mtime e,
                fi_commit = re_commit r, fi_staged = ru_staging (re_uri r), fi_dataset = ru_dataset (re_uri r)\<rparr>)"

definition file_uri :: "reflake_uri \<Rightarrow> string \<Rightarrow> string" where
  "file_uri u path = ''reflake://'' @ ru_dataset u @ ''@'' @ ru_ref u @ ''/'' @ path"

text \<open>With \<open>detail\<close> false only the names are returned.\<close>

definition vfs_ls :: "env \<Rightarrow> (string \<times> string) list \<Rightarrow> string \<Rightarrow> ('z repositories, file_info list) sm" where
  "vfs_ls E roots path =
     bindS (liftS (parse_uri path True)) (\<lambda>u.
     bindS (liftS (dataset_root roots (ru_dataset u))) (\<lambda>rt.
       let stripped = strip_char (CHR ''/'') (ru_path u);
           normalized_prefix = (if stripped = ''*'' then [] else stripped)
       in bindS (with_repository rt (resolve_entries_for_prefix E (ru_ref u) normalized_prefix (ru_staging u) None)) (\<lambda>entries.
            returnS (map (\<lambda>(_, e). \<lparr>fi_name = file_uri u (e_path e), fi_size = e_size e, fi_hash = e_hash e,
                                   fi_identity = identity_mode e\<rparr>) entries))))"

section \<open>What addresses mean\<close>

lemma split_first_append: "c \<notin> set a \<Longrightarrow> split_first c (a @ c # b) = (a, b)"
proof -
  assume c: "c \<notin> set a"
  then have "takeWhile (\<lambda>d. d \<noteq> c) a = a" by (auto simp: takeWhile_eq_all_conv)
  with c show ?thesis
    by (auto simp: split_first_def takeWhile_append dropWhile_append takeWhile_eq_all_conv)
qed

text \<open>A component of an address: not empty, no separator, no control character, no dots.\<close>

definition uri_part_ok :: "string \<Rightarrow> bool" where
  "uri_part_ok x \<longleftrightarrow> x \<noteq> [] \<and> CHR ''/'' \<notin> set x \<and> x \<notin> {''.'', ''..''} \<and> validate_no_binary x = Inr ()"

definition uri_ok :: "reflake_uri \<Rightarrow> bool" where
  "uri_ok u \<longleftrightarrow> uri_part_ok (ru_dataset u) \<and> CHR ''@'' \<notin> set (ru_dataset u) \<and> uri_part_ok (ru_ref u) \<and>
     (ru_path u = [] \<or> (\<exists>raw. normalize_repository_path raw = Inr (ru_path u)))"

lemma parsed_uri_ok:
  assumes "parse_uri path allow_empty = Inr u"
  shows "uri_ok u" "ru_path u = [] \<Longrightarrow> allow_empty"
proof -
  let ?s = "strip_protocol path"
  obtain dataset remainder where ds: "split_first (CHR ''@'') ?s = (dataset, remainder)" by fastforce
  have no_at: "CHR ''@'' \<notin> set dataset" using ds by (auto simp: split_first_def dest: set_takeWhileD)
  obtain ref_raw raw_path where raw: "(if CHR ''/'' \<in> set remainder then split_first (CHR ''/'') remainder else (remainder, [])) = (ref_raw, raw_path)"
    by fastforce
  define ref where "ref = (if suffix ''+staged'' ref_raw then take (length ref_raw - length ''+staged'') ref_raw else ref_raw)"
  define logical where "logical = strip_char (CHR ''/'') raw_path"
  define p where "p = (if logical \<noteq> [] then normalize_repository_path logical else if \<not> allow_empty then Inl ValueError else Inr [])"
  have run: "(if ?s = [] then Inl ValueError else if CHR ''@'' \<notin> set ?s then Inl ValueError
      else bindE (validate_no_binary dataset) (\<lambda>_. if dataset = [] then Inl ValueError else if CHR ''/'' \<in> set dataset then Inl ValueError
        else if dataset \<in> {''.'', ''..''} then Inl ValueError
        else bindE (validate_no_binary ref) (\<lambda>_. if ref = [] then Inl ValueError else if CHR ''/'' \<in> set ref then Inl ValueError
          else if ref \<in> {''.'', ''..''} then Inl ValueError
          else bindE p (\<lambda>p. Inr \<lparr>ru_dataset = dataset, ru_ref = ref, ru_path = p, ru_staging = suffix ''+staged'' ref_raw\<rparr>)))) = Inr u"
    using assms unfolding parse_uri_def Let_def ds raw validate_uri_component_def ref_def p_def logical_def prod.case by assumption
  have "uri_part_ok dataset" "uri_part_ok ref" and p: "p = Inr (ru_path u)" and u: "ru_dataset u = dataset" "ru_ref u = ref"
    using run unfolding uri_part_ok_def by (simp_all add: bindE_Inr_iff split: if_splits) auto
  moreover have "ru_path u = [] \<or> (\<exists>raw. normalize_repository_path raw = Inr (ru_path u))" "ru_path u = [] \<longrightarrow> allow_empty"
    using p normalized_path(1) unfolding p_def by (auto split: if_splits)
  ultimately show "uri_ok u" "ru_path u = [] \<Longrightarrow> allow_empty" using no_at by (simp_all add: uri_ok_def)
qed

definition uri_text :: "reflake_uri \<Rightarrow> string" where
  "uri_text u = ''reflake://'' @ ru_dataset u @ ''@'' @ ru_ref u @ (if ru_staging u then ''+staged'' else []) @ ''/'' @ ru_path u"

lemma strip_char_id: "p \<noteq> [] \<Longrightarrow> hd p \<noteq> c \<Longrightarrow> last p \<noteq> c \<Longrightarrow> strip_char c p = p"
proof -
  assume p: "p \<noteq> []" "hd p \<noteq> c" "last p \<noteq> c"
  then have "lstrip_char c p = p" by (cases p) (simp_all add: lstrip_char_def)
  moreover have "rstrip_char c p = p" using p by (cases p rule: rev_cases) (simp_all add: rstrip_char_def)
  ultimately show ?thesis by (simp add: strip_char_def)
qed

lemma parse_uri_text:
  assumes "uri_part_ok (ru_dataset u)" "CHR ''@'' \<notin> set (ru_dataset u)" "uri_part_ok (ru_ref u)"
    and "\<not> ru_staging u \<Longrightarrow> \<not> suffix ''+staged'' (ru_ref u)"
    and "ru_path u \<noteq> []" "normalize_repository_path (ru_path u) = Inr (ru_path u)"
  shows "parse_uri (uri_text u) allow_empty = Inr u"
proof -
  let ?raw = "ru_ref u @ (if ru_staging u then ''+staged'' else [])"
  have 1: "strip_protocol (uri_text u) = ru_dataset u @ CHR ''@'' # ?raw @ ''/'' @ ru_path u"
    by (simp add: strip_protocol_def uri_text_def)
  have 2: "split_first (CHR ''@'') (ru_dataset u @ CHR ''@'' # ?raw @ ''/'' @ ru_path u) = (ru_dataset u, ?raw @ ''/'' @ ru_path u)"
    using assms(2) by (rule split_first_append)
  have "CHR ''/'' \<notin> set ?raw" using assms(3) by (simp add: uri_part_ok_def)
  then have 3: "split_first (CHR ''/'') (?raw @ ''/'' @ ru_path u) = (?raw, ru_path u)"
    using split_first_append [of "CHR ''/''" ?raw "ru_path u"] by simp
  have 4: "suffix ''+staged'' ?raw = ru_staging u" using assms(4) by (auto simp: suffix_def)
  have 5: "(if ru_staging u then take (length ?raw - length ''+staged'') ?raw else ?raw) = ru_ref u" by simp
  have 6: "strip_char (CHR ''/'') (ru_path u) = ru_path u"
    using normalized_path(1-3) [OF assms(6)] by (rule strip_char_id)
  show ?thesis
    unfolding parse_uri_def Let_def 1 2 split
    using assms(1,3,5,6) 3 4 5 6
    by (simp add: uri_part_ok_def validate_uri_component_def)
qed

text \<open>A branch below another name is a valid branch, and has no address: its name is cut at the separator.\<close>

lemma slash_ref_lost:
  "validate_branch_name ''feature/x'' = Inr ''feature/x''"
  "parse_uri ''reflake://d@feature/x/a.csv'' False =
     Inr \<lparr>ru_dataset = ''d'', ru_ref = ''feature'', ru_path = ''x/a.csv'', ru_staging = False\<rparr>"
  by code_simp+

section \<open>Reading\<close>

definition kept :: "prims \<Rightarrow> ('z repositories, 'a) sm \<Rightarrow> bool" where
  "kept P m \<longleftrightarrow>
     (\<forall>st r st' rt s. m st = (r, st') \<longrightarrow> map_of st rt = Some s \<longrightarrow> objects_ok P s \<longrightarrow>
        (\<exists>s'. map_of st' rt = Some s' \<and> objects_ok P s' \<and> evolves s s' \<and> rs_refs s' = rs_refs s \<and> rs_commits s' = rs_commits s))"

lemma kept_bind:
  assumes "kept P m" "\<And>x. kept P (f x)"
  shows "kept P (bindS m f)"
  unfolding kept_def
proof (intro allI impI)
  fix st r st' rt s assume run: "bindS m f st = (r, st')" and s: "map_of st rt = Some s" "objects_ok P s"
  obtain q st1 where m: "m st = (q, st1)" by fastforce
  with assms(1) s obtain s1 where s1: "map_of st1 rt = Some s1" "objects_ok P s1" "evolves s s1" "rs_refs s1 = rs_refs s"
    "rs_commits s1 = rs_commits s" unfolding kept_def by blast
  show "\<exists>s'. map_of st' rt = Some s' \<and> objects_ok P s' \<and> evolves s s' \<and> rs_refs s' = rs_refs s \<and> rs_commits s' = rs_commits s"
  proof (cases q)
    case (Inl e)
    with run m s1 show ?thesis by auto
  next
    case (Inr x)
    with run m have "f x st1 = (r, st')" by simp
    with assms(2) [of x] s1 obtain s2 where "map_of st' rt = Some s2" "objects_ok P s2" "evolves s1 s2" "rs_refs s2 = rs_refs s1"
      "rs_commits s2 = rs_commits s1" unfolding kept_def by blast
    with s1 evolves_trans show ?thesis by metis
  qed
qed

lemma kept_pure [simp]: "kept P (liftS r)" "kept P (returnS x)" "kept P (raiseS e)"
  by (simp_all add: kept_def)

lemma kept_with_repository:
  assumes "moves P {} m"
  shows "kept P (with_repository rt m)"
  unfolding kept_def
proof (intro allI impI)
  fix st r st' rt' s assume run: "with_repository rt m st = (r, st')" and s: "map_of st rt' = Some s" "objects_ok P s"
  show "\<exists>s'. map_of st' rt' = Some s' \<and> objects_ok P s' \<and> evolves s s' \<and> rs_refs s' = rs_refs s \<and> rs_commits s' = rs_commits s"
  proof (cases "map_of st rt")
    case None
    with run s show ?thesis by (auto simp: with_repository_def)
  next
    case (Some s0)
    obtain q s1 where m: "m s0 = (q, s1)" by fastforce
    with run Some have "st' = alist_put rt s1 st" by (simp add: with_repository_def)
    with assms m s Some show ?thesis by (auto simp: moves_def)
  qed
qed

lemma moves_resolve_entry: "moves (ev_prims E) {} (resolve_entry E ref path include_staging commit_id)"
  unfolding resolve_entry_def Let_def by (intro moves_intros)

lemma moves_resolve_prefix: "moves (ev_prims E) {} (resolve_entries_for_prefix E ref pre include_staging commit_id)"
  unfolding resolve_entries_for_prefix_def overlay_change_def Let_def by (intro moves_intros)

lemma kept_option: "kept P m \<Longrightarrow> (\<And>x. kept P (f x)) \<Longrightarrow> kept P (case v of None \<Rightarrow> m | Some x \<Rightarrow> f x)"
  by (cases v) simp_all

lemma kept_if: "kept P m \<Longrightarrow> kept P m' \<Longrightarrow> kept P (if c then m else m')"
  by simp

lemmas kept_intros = kept_bind kept_option kept_if kept_pure kept_with_repository moves_asks moves_reads moves_resolve_entry
  moves_resolve_prefix

lemma vfs_kept:
  "kept (ev_prims E) (vfs_resolve_entry E roots path)" "kept (ev_prims E) (vfs_open E roots path mode)"
  "kept (ev_prims E) (vfs_info E roots path)" "kept (ev_prims E) (vfs_ls E roots path)"
  unfolding vfs_open_def vfs_info_def vfs_ls_def vfs_resolve_entry_def Let_def by (intro kept_intros)+

end
