(* ===== verification/Cli_Spec.thy ===== *)
theory Cli_Spec
  imports Cli Vfs Sync_Spec
begin

text \<open>
  What commands do to the repository: every command but a collection that prunes keeps its
  objects content-addressed and loses none of them, a pull included; no command at all loses an
  object that a branch reaches; and the commands that only read move no branch, write no commit
  and no file.
\<close>

section \<open>Commands that keep the repository\<close>

definition cli_keeps :: "prims \<Rightarrow> (('y, 'z) cli_state, 'a) sm \<Rightarrow> bool" where
  "cli_keeps P m \<longleftrightarrow>
     (\<forall>st r st'. m st = (r, st') \<longrightarrow> objects_ok P (cs_local st) \<longrightarrow>
        objects_ok P (cs_local st') \<and> evolves (cs_local st) (cs_local st'))"

named_theorems cli_intros

lemma cli_keepsD:
  "cli_keeps P m \<Longrightarrow> m st = (r, st') \<Longrightarrow> objects_ok P (cs_local st) \<Longrightarrow>
     objects_ok P (cs_local st') \<and> evolves (cs_local st) (cs_local st')"
  by (simp add: cli_keeps_def)

lemma cli_keeps_bind [cli_intros]:
  assumes "cli_keeps P m" "\<And>x. cli_keeps P (f x)"
  shows "cli_keeps P (bindS m f)"
  unfolding cli_keeps_def
proof (intro allI impI)
  fix st r st' assume run: "bindS m f st = (r, st')" and ok: "objects_ok P (cs_local st)"
  obtain q st1 where m: "m st = (q, st1)" by fastforce
  note 1 = cli_keepsD [OF assms(1) m ok]
  show "objects_ok P (cs_local st') \<and> evolves (cs_local st) (cs_local st')"
  proof (cases q)
    case (Inl e)
    with run m 1 show ?thesis by auto
  next
    case (Inr x)
    with run m have "f x st1 = (r, st')" by simp
    with cli_keepsD [OF assms(2) this] 1 evolves_trans show ?thesis by blast
  qed
qed

lemma cli_keeps_pure [cli_intros]:
  "cli_keeps P (returnS x)" "cli_keeps P (raiseS e)" "cli_keeps P (liftS r)" "cli_keeps P (asksS g)"
  "cli_keeps P (say ev)" "cli_keeps P (says evs)"
  by (simp_all add: cli_keeps_def asksS_def say_def says_def)

lemma cli_keeps_files [cli_intros]: "cli_keeps P (on_files m)" "cli_keeps P (\<lambda>st. on_files (g st) st)"
  by (auto simp: cli_keeps_def on_files_def split: prod.splits)

lemma cli_keeps_cache [cli_intros]: "cli_keeps P (on_cache m)" "cli_keeps P (\<lambda>st. on_cache (g st) st)"
  by (auto simp: cli_keeps_def on_cache_def split: prod.splits)

lemma cli_keeps_repo [cli_intros]: "moves P UNIV m \<Longrightarrow> cli_keeps P (on_repo m)"
  by (auto simp: cli_keeps_def on_repo_def moves_def split: prod.splits)

lemma cli_keeps_if [cli_intros]: "cli_keeps P m \<Longrightarrow> cli_keeps P m' \<Longrightarrow> cli_keeps P (if c then m else m')"
  by simp

lemma cli_keeps_option [cli_intros]:
  "cli_keeps P m \<Longrightarrow> (\<And>x. cli_keeps P (f x)) \<Longrightarrow> cli_keeps P (case v of None \<Rightarrow> m | Some x \<Rightarrow> f x)"
  by (cases v) simp_all

lemma cli_keeps_prod [cli_intros]: "(\<And>x y. cli_keeps P (f x y)) \<Longrightarrow> cli_keeps P (case v of (x, y) \<Rightarrow> f x y)"
  by (cases v) simp

lemma cli_keeps_let [cli_intros]: "(\<And>x. cli_keeps P (f x)) \<Longrightarrow> cli_keeps P (Let v f)"
  by (simp add: Let_def)

lemma cli_keeps_mapS [cli_intros]: "(\<And>x. cli_keeps P (f x)) \<Longrightarrow> cli_keeps P (mapS f xs)"
  by (induction xs) (auto intro!: cli_intros)

text \<open>The environment a repository is opened with has the primitives of the process.\<close>

lemma opened_prims: "opened_at X d rt transfer = Inr (E, rp) \<Longrightarrow> ev_prims E = ev_prims (cli_env X)"
  by (auto simp: opened_at_def Let_def env_for_def env_at_def bindE_Inr_iff)

lemma moves_ensure_current [moves_intros]:
  "moves P B (\<lambda>s. (Inr (), s\<lparr>rs_client := ensure_current_branch b (rs_client s)\<rparr>))"
  by (rule moves_client)

lemma open_cli_spec:
  assumes "open_cli X rt transfer st = (r, st')" "objects_ok P (cs_local st)"
  shows "objects_ok P (cs_local st')" "evolves (cs_local st) (cs_local st')"
    "r = Inr (E, rp) \<Longrightarrow> ev_prims E = ev_prims (cli_env X)"
proof -
  have "cli_keeps P (open_cli X rt transfer)" unfolding open_cli_def by (intro cli_intros moves_intros)
  from cli_keepsD [OF this assms] show "objects_ok P (cs_local st')" "evolves (cs_local st) (cs_local st')" by blast+
  show "r = Inr (E, rp) \<Longrightarrow> ev_prims E = ev_prims (cli_env X)"
    using assms(1) opened_prims by (fastforce simp: open_cli_def bindS_Inr asksS_def)
qed

lemma cli_keeps_opened [cli_intros]:
  assumes "\<And>E rp. cli_keeps (ev_prims E) (f E rp)"
  shows "cli_keeps (ev_prims (cli_env X)) (bindS (open_cli X rt transfer) (\<lambda>(E, rp). f E rp))"
  unfolding cli_keeps_def
proof (intro allI impI)
  let ?P = "ev_prims (cli_env X)"
  fix st r st' assume run: "bindS (open_cli X rt transfer) (\<lambda>(E, rp). f E rp) st = (r, st')" and ok: "objects_ok ?P (cs_local st)"
  obtain q st1 where m: "open_cli X rt transfer st = (q, st1)" by fastforce
  note 1 = open_cli_spec [OF m ok]
  show "objects_ok ?P (cs_local st') \<and> evolves (cs_local st) (cs_local st')"
  proof (cases q)
    case (Inl e)
    with run m 1 show ?thesis by auto
  next
    case (Inr er)
    then obtain E rp where er: "q = Inr (E, rp)" by (cases er) auto
    with run m have "f E rp st1 = (r, st')" by simp
    with cli_keepsD [OF assms this] 1 er evolves_trans show ?thesis by metis
  qed
qed

section \<open>Operations of branches\<close>

lemma moves_delete_branch: "moves P UNIV (delete_branch now name)"
proof (rule moves_state)
  show "moves P UNIV (bindS (liftS (current_branch (rs_client s0))) (\<lambda>current.
       if name = current then raiseS ValueError
       else if ref_head s0 name = None then raiseS (UnknownRefError name)
       else bindS (update_branch_ref now name None (ref_head s0 name) ''branch delete'') (\<lambda>_. returnS name)))"
    for s0 :: "'a repo_store_scheme" by (intro moves_intros UNIV_I)
qed (simp add: delete_branch_def)

lemma moves_compare_and_set [moves_intros]: "moves P UNIV (compare_and_set_branch_ref b new expd)"
  by (auto simp: moves_def compare_and_set_cases objects_ok_def evolves_def store_ok_def)

lemma moves_snapshot [moves_intros]: "moves P B (snapshot b)"
  unfolding moves_def
proof (intro allI impI)
  fix s r and s' :: "'a repo_store_scheme"
  assume "snapshot b s = (r, s')" "objects_ok P s"
  with snapshot_quiet [of b s r s']
  show "objects_ok P s' \<and> evolves s s' \<and> (\<forall>b. b \<notin> B \<longrightarrow> ref_head s' b = ref_head s b) \<and>
      (B = {} \<longrightarrow> rs_refs s' = rs_refs s \<and> rs_commits s' = rs_commits s)"
    by (auto simp: objects_ok_def evolves_def store_ok_def)
qed

lemma moves_create_branch: "moves P UNIV (create_branch name)"
proof (rule moves_state)
  show "moves P UNIV (bindS (liftS (validate_branch_name name)) (\<lambda>name.
     bindS (liftS (reject_namespace_conflict s0 name)) (\<lambda>_.
       if ref_head s0 name \<noteq> None then raiseS ValueError
       else
         bindS (liftS (head_commit s0)) (\<lambda>head.
         bindS (compare_and_set_branch_ref name head None) (\<lambda>created.
           if \<not> created then raiseS ValueError
           else bindS (snapshot name) (\<lambda>_. returnS name))))))"
    for s0 :: "'a repo_store_scheme" by (intro moves_intros)
qed (simp add: create_branch_def)

lemma moves_set_current_branch: "moves P B (set_current_branch b)"
proof (rule moves_state)
  show "moves P B (bindS (liftS (ensure_branch_exists s0 b)) (\<lambda>_ s. (Inr (), s\<lparr>rs_client := set_head b (rs_client s)\<rparr>)))"
    for s0 :: "'a repo_store_scheme" by (intro moves_intros moves_client)
qed (simp add: set_current_branch_def)

lemma moves_ensure_unborn: "moves P UNIV (ensure_unborn LocalStore b)"
proof -
  define f where "f = (\<lambda>s0 :: 'a repo_store_scheme.
    if read_branch_ref s0 b = None then bindS (compare_and_set_branch_ref b None None) (\<lambda>_. returnS ()) else
    returnS () :: ('a repo_store_scheme, unit) sm)"
  have "moves P UNIV (f s0)" for s0 unfolding f_def by (intro moves_intros)
  then show ?thesis by (rule moves_state [where f = f]) (simp add: f_def ensure_unborn_def store_cas_def)
qed

lemma moves_repo_cat: "moves (ev_prims E) UNIV (repo_cat E ref path)"
  unfolding repo_cat_def by (intro moves_intros moves_mono [OF moves_resolve_entry]) auto

section \<open>The commands\<close>

lemmas cli_moves = moves_mono [OF moves_resolve_prefix] moves_repo_cat moves_ensure_unborn moves_set_current_branch
  moves_create_branch moves_delete_branch moves_repo_commit moves_repo_verify moves_repo_merge
  moves_mono [OF moves_repo_reset] moves_mono [OF moves_staging(1)] moves_mono [OF moves_staging(2)]
  moves_mono [OF moves_staging(3)]

lemma cli_keeps_load_config [cli_intros]: "cli_keeps P (load_config_at X rt)"
  unfolding load_config_at_def by (intro cli_intros)

lemma cli_keeps_save_config [cli_intros]: "cli_keeps P (save_config_at X rt payload)"
  unfolding save_config_at_def by (intro cli_intros)

lemma cli_keeps_init [cli_intros]: "cli_keeps P (init_at X rt dflt)"
  unfolding init_at_def by (intro cli_intros cli_moves)


lemma on_repo_read: "cli_keeps P (on_repo (asksS f))"
  by (intro cli_intros moves_intros)

lemma cli_keeps_changes:
  "cli_keeps (ev_prims (cli_env X)) (cli_commit X rt js message staged_only)"
  "cli_keeps (ev_prims (cli_env X)) (cli_add X rt js paths mode dst)"
  "cli_keeps (ev_prims (cli_env X)) (cli_rm X rt js paths)"
  "cli_keeps (ev_prims (cli_env X)) (cli_move X rt js src dst')"
  "cli_keeps (ev_prims (cli_env X)) (cli_status X rt js)"
  "cli_keeps (ev_prims (cli_env X)) (cli_branch X rt js name delete)"
  "cli_keeps (ev_prims (cli_env X)) (cli_diff X rt js from_ref to_ref)"
  "cli_keeps (ev_prims (cli_env X)) (cli_merge X rt js source_ref target_ref)"
  "cli_keeps (ev_prims (cli_env X)) (cli_verify X rt js ref pres drift)"
  "cli_keeps (ev_prims (cli_env X)) (cli_promote X rt js ref pres)"
  unfolding cli_commit_def cli_add_def cli_rm_def cli_move_def cli_status_def cli_branch_def cli_diff_def cli_merge_def
    cli_verify_def cli_promote_def
  by (intro cli_keeps_opened; intro cli_intros on_repo_read; intro cli_moves UNIV_I subset_UNIV)+

lemma cli_keeps_reads:
  "cli_keeps (ev_prims (cli_env X)) (cli_prune X rt js ref path where_clause)"
  "cli_keeps (ev_prims (cli_env X)) (cli_build X rt js output_dir parquet)"
  "cli_keeps (ev_prims (cli_env X)) (cli_log X rt js b)"
  "cli_keeps (ev_prims (cli_env X)) (cli_list X rt js path b)"
  "cli_keeps (ev_prims (cli_env X)) (cli_cat X rt ref path)"
  "cli_keeps (ev_prims (cli_env X)) (cli_reflog X rt js b)"
  "cli_keeps (ev_prims (cli_env X)) (cli_branches X rt js)"
  "cli_keeps (ev_prims (cli_env X)) (cli_transfer X rt js way execute b)"
  unfolding cli_prune_def cli_build_def cli_log_def cli_list_def cli_cat_def cli_reflog_def cli_branches_def cli_transfer_def run_words_def
  by (intro cli_keeps_opened; intro cli_intros on_repo_read; intro moves_intros cli_moves UNIV_I subset_UNIV)+

lemma cli_keeps_settings:
  "cli_keeps P (cli_config_init X rt js backend bucket pre endpoint dflt)"
  "cli_keeps P (cli_config_set X rt js k v)"
  "cli_keeps P (cli_config_list X rt js)"
  "cli_keeps P (cli_init X rt js backend bucket pre endpoint dflt)"
  unfolding cli_config_init_def cli_config_set_def cli_config_list_def cli_init_def created_config_def no_config_def
  by (intro cli_intros)+

lemma cli_keeps_files_commands:
  "cli_keeps (ev_prims (cli_env X)) (cli_checkout X rt js name)"
  "cli_keeps (ev_prims (cli_env X)) (cli_restore X rt js ref paths force)"
  "cli_keeps (ev_prims (cli_env X)) (cli_reset X rt js ref b)"
  unfolding cli_checkout_def cli_restore_def cli_reset_def
  by (intro cli_keeps_opened; intro cli_intros; intro moves_intros cli_moves UNIV_I subset_UNIV)+


section \<open>Synchronization\<close>

definition cli_backends_ok :: "('y, 'z) cli \<Rightarrow> bool" where
  "cli_backends_ok X \<longleftrightarrow> (\<forall>choice. backend_ok (cli_backend X choice))"

lemma on_both_run:
  assumes "on_both m st = (r, st')"
  obtains l' s' where "m (cs_local st, cs_remote st) = (r, (l', s'))" "st' = st\<lparr>cs_local := l', cs_remote := s'\<rparr>"
proof (cases "m (cs_local st, cs_remote st)" rule: prod_cases3)
  case (fields q l' s')
  with assms that show ?thesis by (auto simp: on_both_def)
qed

text \<open>A push does not touch the local repository.\<close>

lemma cli_keeps_push:
  assumes "cli_backends_ok X"
  shows "cli_keeps (ev_prims (cli_env X)) (cli_push X rt js uri b transfer)"
proof -
  have "cs_local st' = cs_local st" if "on_both (push E kind (cli_backend X choice) uri b) st = (r, st')"
    for E kind choice st r and st' :: "('a, 'b) cli_state"
  proof -
    note run = that
    obtain l' s' where m: "push E kind (cli_backend X choice) uri b (cs_local st, cs_remote st) = (r, (l', s'))"
      and st': "st' = st\<lparr>cs_local := l', cs_remote := s'\<rparr>"
      using on_both_run [OF run] by blast
    have "backend_ok (cli_backend X choice)" using assms by (simp add: cli_backends_ok_def)
    from runsD [OF push_runs [OF this] refl m] have "l' = cs_local st"
      by (auto simp: push_checked_def push_done_def push_failed_def split: sum.splits)
    with st' show ?thesis by simp
  qed
  then have "cli_keeps P (on_both (push E kind (cli_backend X choice) uri b))" for P E kind choice
    unfolding cli_keeps_def by (metis evolves_refl)
  then show ?thesis
    unfolding cli_push_def by (intro cli_keeps_opened; intro cli_intros)
qed

text \<open>What a command that downloads does: objects may come, none goes.\<close>

definition retained :: "'y repo_store_scheme \<Rightarrow> 'y repo_store_scheme \<Rightarrow> bool" where
  "retained s s' \<longleftrightarrow> (\<forall>k i. k \<noteq> Ref \<longrightarrow> lookup_object k s i \<noteq> None \<longrightarrow> lookup_object k s' i \<noteq> None)"

lemma retained_trans: "retained s s' \<Longrightarrow> retained s' s'' \<Longrightarrow> retained s s''"
  by (simp add: retained_def)

lemma evolves_retained: "evolves s s' \<Longrightarrow> retained s s'"
  unfolding retained_def
proof (intro allI impI)
  fix k i assume e: "evolves s s'" and k: "k \<noteq> Ref" and l: "lookup_object k s i \<noteq> None"
  have up: "m i \<noteq> None \<Longrightarrow> m' i \<noteq> None" if "m \<subseteq>\<^sub>m m'" for m m' :: "string \<Rightarrow> string option"
    using map_le_implies_dom_le [OF that] by blast
  from e k l show "lookup_object k s' i \<noteq> None"
    using up [of "ts_nodes s" "ts_nodes s'"] up [of "map_of (rs_blobs s)" "map_of (rs_blobs s')"]
      up [of "map_of (rs_footers s)" "map_of (rs_footers s')"]
    by (cases k) (auto simp: evolves_def lookup_object_def)
qed

lemma gained_retained: "gained src s s' \<Longrightarrow> retained s s'"
  unfolding gained_def retained_def by metis

definition cli_retains :: "prims \<Rightarrow> (('y, 'z) cli_state, 'a) sm \<Rightarrow> bool" where
  "cli_retains P m \<longleftrightarrow> (\<forall>st r st'. m st = (r, st') \<longrightarrow> objects_ok P (cs_local st) \<longrightarrow> retained (cs_local st) (cs_local st'))"

lemma cli_keeps_retains: "cli_keeps P m \<Longrightarrow> cli_retains P m"
  unfolding cli_keeps_def cli_retains_def using evolves_retained by blast

lemma cli_retains_after:
  assumes "cli_keeps P m" "\<And>x. cli_retains P (f x)"
  shows "cli_retains P (bindS m f)"
  unfolding cli_retains_def
proof (intro allI impI)
  fix st r st' assume run: "bindS m f st = (r, st')" and ok: "objects_ok P (cs_local st)"
  obtain q st1 where m: "m st = (q, st1)" by fastforce
  note 1 = cli_keepsD [OF assms(1) m ok]
  show "retained (cs_local st) (cs_local st')"
  proof (cases q)
    case (Inl e)
    with run m 1 evolves_retained show ?thesis by auto
  next
    case (Inr x)
    with run m have "f x st1 = (r, st')" by simp
    with assms(2) 1 have "retained (cs_local st1) (cs_local st')" by (auto simp: cli_retains_def)
    with 1 evolves_retained retained_trans show ?thesis by blast
  qed
qed

text \<open>Printing the result is all that follows.\<close>

lemma cli_retains_then_says:
  assumes "cli_retains P m"
  shows "cli_retains P (bindS m (\<lambda>x. bindS (say (f x)) (\<lambda>_. returnS n)))"
  using assms by (auto simp: cli_retains_def bindS_def say_def split: prod.splits sum.splits)

lemma cli_retains_both:
  assumes "runs (\<lambda>x. x = (l, s)) m B (pull_failed l s)" "\<And>x l' s'. B x (l', s') \<Longrightarrow> gained s l l'"
    and "on_both m st = (r, st')" "cs_local st = l" "cs_remote st = s"
  shows "retained (cs_local st) (cs_local st')"
proof -
  obtain l' s' where m: "m (l, s) = (r, (l', s'))" and st': "st' = st\<lparr>cs_local := l', cs_remote := s'\<rparr>"
    using on_both_run [OF assms(3)] assms(4,5) by blast
  from runsD [OF assms(1) refl m] assms(2) have "gained s l l'"
    by (auto simp: pull_failed_def split: sum.splits)
  with gained_retained st' assms(4) show ?thesis by auto
qed

lemma cli_keeps_open_or_init: "cli_keeps (ev_prims (cli_env X)) (open_or_init X rt transfer)"
  unfolding cli_keeps_def
proof (intro allI impI)
  let ?P = "ev_prims (cli_env X)"
  fix st r st' assume run: "open_or_init X rt transfer st = (r, st')" and ok: "objects_ok ?P (cs_local st)"
  have opens: "cli_keeps ?P (open_cli X rt transfer)" unfolding open_cli_def by (intro cli_intros moves_intros)
  then have again: "cli_keeps ?P (bindS (init_at X rt ''main'') (\<lambda>_. open_cli X rt transfer))" by (intro cli_intros)
  obtain q st1 where q: "open_cli X rt transfer st = (q, st1)" by fastforce
  note 1 = cli_keepsD [OF opens q ok]
  from run q have "st' = st1 \<or> bindS (init_at X rt ''main'') (\<lambda>_. open_cli X rt transfer) st1 = (r, st')"
    by (auto simp: open_or_init_def split: sum.splits error.splits)
  with 1 cli_keepsD [OF again] evolves_trans
  show "objects_ok ?P (cs_local st') \<and> evolves (cs_local st) (cs_local st')" by blast
qed

lemma cli_retains_downloads:
  assumes "cli_backends_ok X"
  shows "cli_retains (ev_prims (cli_env X)) (cli_pull X rt js uri b transfer)"
    "cli_retains (ev_prims (cli_env X)) (cli_fetch X rt js uri b transfer)"
proof -
  have ok: "backend_ok (cli_backend X choice)" for choice using assms by (simp add: cli_backends_ok_def)
  have "cli_retains P (on_both (pull E kind (cli_backend X choice) uri b))" for P E kind choice
    unfolding cli_retains_def
    by (intro allI impI, rule cli_retains_both [OF pull_runs [OF ok]]) (auto simp: pull_checked_def pull_done_def)
  then show "cli_retains (ev_prims (cli_env X)) (cli_pull X rt js uri b transfer)"
    unfolding cli_pull_def case_prod_beta
    by (intro cli_retains_after [OF cli_keeps_open_or_init] cli_retains_after [OF cli_keeps_pure(3)] cli_retains_then_says)
  have fetched: "cli_retains P (on_both (fetch E kind (cli_backend X choice) uri b))" for P E kind choice
    unfolding cli_retains_def
    by (intro allI impI, rule cli_retains_both [OF fetch_runs [OF ok]]) (auto simp: fetch_done_def pull_failed_def)
  then show "cli_retains (ev_prims (cli_env X)) (cli_fetch X rt js uri b transfer)"
    unfolding cli_fetch_def case_prod_beta
    by (intro cli_retains_after [OF cli_keeps_open_or_init] cli_retains_after [OF cli_keeps_pure(3)] cli_retains_then_says)
qed


section \<open>Collection\<close>

definition same_hashed :: "('z repo_store_scheme, 'a) sm \<Rightarrow> bool" where
  "same_hashed m \<longleftrightarrow> (\<forall>s. ts_hashed (snd (m s)) = ts_hashed s)"

lemma same_hashed_bind: "same_hashed m \<Longrightarrow> (\<And>x. same_hashed (f x)) \<Longrightarrow> same_hashed (bindS m f)"
  by (simp add: same_hashed_def bindS_def split: prod.split sum.split) (metis snd_conv)

lemma same_hashed_pure: "same_hashed (returnS x)" "same_hashed (liftS r)" "same_hashed (delete_objects k ids)"
  by (simp_all add: same_hashed_def delete_objects_def split: object_kind.split)

lemma same_hashed_if: "same_hashed m \<Longrightarrow> same_hashed m' \<Longrightarrow> same_hashed (if b then m else m')"
  by simp

lemma same_hashed_sweep: "same_hashed (sweep_loop k reachable dry cutoff c batch listing)"
proof (induction listing arbitrary: c batch)
  case Nil
  show ?case unfolding sweep_loop.simps by (intro same_hashed_if same_hashed_bind same_hashed_pure)
next
  case (Cons x listing)
  obtain i t where x: "x = (i, t)" by (cases x)
  show ?case unfolding x sweep_loop.simps Let_def
    by (intro same_hashed_if same_hashed_bind same_hashed_pure Cons.IH)
qed

lemma same_hashed_mapS: "(\<And>x. same_hashed (f x)) \<Longrightarrow> same_hashed (mapS f xs)"
  by (induction xs) (auto intro!: same_hashed_bind same_hashed_pure)

lemma same_hashedD: "same_hashed m \<Longrightarrow> ts_hashed (snd (m s)) = ts_hashed s"
  by (simp add: same_hashed_def)

lemma gc_hashed: "ts_hashed (snd (gc P n m inventory now_ns grace dry s)) = ts_hashed s"
  unfolding gc_def sweep_kind_def
  by (rule same_hashedD) (intro same_hashed_bind same_hashed_pure same_hashed_mapS same_hashed_sweep)

text \<open>A collection keeps what is left content-addressed; a dry run changes nothing of it.\<close>

lemma gc_objects:
  assumes "gc P n m inventory now_ns grace dry s = (r, s')" "objects_ok P s"
  shows "objects_ok P s'" "dry \<Longrightarrow> evolves s s'"
    "i \<in> live P s k \<Longrightarrow> lookup_object k s' i = lookup_object k s i"
proof -
  have sub: "(\<forall>k i. lookup_object k s' i \<in> {None, lookup_object k s i}) \<and> (dry \<longrightarrow> (\<forall>k. lookup_object k s' = lookup_object k s)) \<and>
      (\<forall>k. \<forall>i \<in> live P s k. lookup_object k s' i = lookup_object k s i)"
  proof (cases "gc_mark P n m s")
    case (Inl e)
    with assms(1) have "s' = s" by (simp add: gc_def bindS_def)
    then show ?thesis by simp
  next
    case (Inr q)
    with assms(1) gc_spec [OF Inr, of inventory now_ns grace dry] obtain res where "r = Inr res"
      and lk: "\<And>k i. lookup_object k s' i =
        (if k \<noteq> Ref \<and> \<not> dry \<and> i \<in> set (collected q inventory (young_cutoff_of now_ns grace) k) then None else lookup_object k s i)"
      by auto
    with gc_safe [of P n m inventory now_ns grace dry s res s'] assms(1) show ?thesis by (auto simp: fun_eq_iff)
  qed
  have tree: "ts_nodes s' h \<in> {None, ts_nodes s h}" and blob: "map_of (rs_blobs s') h \<in> {None, map_of (rs_blobs s) h}"
    and foot: "map_of (rs_footers s') h \<in> {None, map_of (rs_footers s) h}" for h
    using conjunct1 [OF sub, rule_format, of Tree h] conjunct1 [OF sub, rule_format, of Blob h]
      conjunct1 [OF sub, rule_format, of Footer h] by (simp_all add: lookup_object_def)
  show "objects_ok P s'"
    unfolding objects_ok_def store_ok_def
  proof (intro conjI allI impI)
    have hashed: "ts_hashed s' = ts_hashed s" using gc_hashed [of P n m inventory now_ns grace dry s] assms(1) by simp
    fix h p
    show "ts_nodes s' h = Some p \<Longrightarrow> h = blake3 P p" "ts_nodes s' h = Some p \<Longrightarrow> p \<in> set (ts_hashed s')"
      using tree [of h] assms(2) by (auto simp: objects_ok_def store_ok_def hashed)
    show "map_of (rs_blobs s') h = Some p \<Longrightarrow> blake3 P p = h" "map_of (rs_footers s') h = Some p \<Longrightarrow> blake3 P p = h"
      using blob [of h] foot [of h] assms(2) by (auto simp: objects_ok_def)
  qed
  show "dry \<Longrightarrow> evolves s s'"
  proof -
    assume dry
    with sub have eq: "lookup_object k s' = lookup_object k s" for k by blast
    show ?thesis using eq [of Tree] eq [of Blob] eq [of Footer] eq [of Commit]
      by (simp add: evolves_def lookup_object_def [abs_def] fun_eq_iff) (auto simp: map_le_def dom_def)
  qed
  show "i \<in> live P s k \<Longrightarrow> lookup_object k s' i = lookup_object k s i" using sub by blast
qed


lemma live_client: "live P (s\<lparr>rs_client := cl\<rparr>) = live P s"
proof -
  have "fetch_commit P (s\<lparr>rs_client := cl\<rparr>) = fetch_commit P s" by (simp add: fun_eq_iff fetch_commit_def)
  then have "live_commits P (s\<lparr>rs_client := cl\<rparr>) = live_commits P s"
    by (simp add: live_commits_def commit_kids_def [abs_def] branch_heads_def iter_branches_def read_branch_ref_def)
  then have "live_trees P (s\<lparr>rs_client := cl\<rparr>) = live_trees P s"
    using \<open>fetch_commit P (s\<lparr>rs_client := cl\<rparr>) = fetch_commit P s\<close> by (simp add: live_trees_def)
  then show ?thesis
    using \<open>live_commits P (s\<lparr>rs_client := cl\<rparr>) = live_commits P s\<close>
    by (simp add: fun_eq_iff live_def live_leaves_def split: object_kind.split)
qed

text \<open>The state before a collection differs from that of the process in the client's files only.\<close>

lemma open_cli_local:
  assumes "open_cli X rt transfer st = (r, st')"
  obtains cl where "cs_local st' = (cs_local st)\<lparr>rs_client := cl\<rparr>"
proof (cases "opened_at X (cs_fs st) rt transfer")
  case (Inl e)
  with assms have "cs_local st' = (cs_local st)\<lparr>rs_client := rs_client (cs_local st)\<rparr>"
    by (auto simp: open_cli_def asksS_def bindS_def)
  with that show ?thesis .
next
  case (Inr er)
  with assms have "cs_local st' = (cs_local st)\<lparr>rs_client := ensure_current_branch ''main'' (rs_client (cs_local st))\<rparr>"
    by (auto simp: open_cli_def asksS_def bindS_def on_repo_def)
  with that show ?thesis .
qed

lemma cli_gc_run:
  assumes "cli_gc X rt js pruning grace st = (r, st')"
  obtains cl where "cs_local st' = (cs_local st)\<lparr>rs_client := cl\<rparr>"
  | cl n m inventory now_ns grace_seconds q where
    "gc (ev_prims (cli_env X)) n m inventory now_ns grace_seconds (\<not> pruning) ((cs_local st)\<lparr>rs_client := cl\<rparr>) = (q, cs_local st')"
proof -
  obtain q st1 where 1: "open_cli X rt None st = (q, st1)" by fastforce
  obtain cl where cl: "cs_local st1 = (cs_local st)\<lparr>rs_client := cl\<rparr>" using open_cli_local [OF 1] by blast
  show ?thesis
  proof (cases q)
    case (Inl e)
    with assms 1 cl that(1) show ?thesis by (simp add: cli_gc_def)
  next
    case (Inr er)
    then obtain E rp where er: "q = Inr (E, rp)" by (cases er) auto
    have P: "ev_prims E = ev_prims (cli_env X)"
      using 1 er opened_prims by (fastforce simp: open_cli_def bindS_Inr asksS_def)
    have "snd (grace_of E rp grace st1) = st1" by (auto simp: grace_of_def asksS_def bindS_def split: option.split sum.split)
    then obtain g where g: "grace_of E rp grace st1 = (g, st1)" by (metis prod.collapse)
    note run = assms [unfolded cli_gc_def]
    show ?thesis
    proof (cases g)
      case (Inl e)
      with run 1 er g have "st' = st1" by simp
      with cl that(1) show ?thesis by simp
    next
      case (Inr seconds)
      obtain w s2 where w: "gc (ev_prims E) (ev_walk E) (ev_tree E) (cli_inventory X (cs_local st1)) (cli_now_ns X) seconds (\<not> pruning)
          (cs_local st1) = (w, s2)" by fastforce
      with run 1 er g Inr have "cs_local st' = s2"
        by (auto simp: on_repo_def bindS_def says_def split: sum.splits)
      with w cl P that(2) show ?thesis by metis
    qed
  qed
qed

section \<open>Sessions\<close>

text \<open>The commands that neither prune nor download.\<close>

definition keeps_all :: "command \<Rightarrow> bool" where
  "keeps_all c = (case c of GcCmd pruning g \<Rightarrow> \<not> pruning | PullCmd u r t \<Rightarrow> False | FetchCmd u r t \<Rightarrow> False | _ \<Rightarrow> True)"

lemma cli_keeps_dry_gc: "cli_keeps (ev_prims (cli_env X)) (cli_gc X rt js False grace)"
  unfolding cli_keeps_def
proof (intro allI impI)
  let ?P = "ev_prims (cli_env X)"
  fix st r st' assume run: "cli_gc X rt js False grace st = (r, st')" and ok: "objects_ok ?P (cs_local st)"
  have client: "objects_ok ?P ((cs_local st)\<lparr>rs_client := cl\<rparr>)" "evolves (cs_local st) ((cs_local st)\<lparr>rs_client := cl\<rparr>)" for cl
    using ok by (simp_all add: objects_ok_def store_ok_def evolves_def)
  from run show "objects_ok ?P (cs_local st') \<and> evolves (cs_local st) (cs_local st')"
  proof (cases rule: cli_gc_run)
    case (1 cl)
    with client show ?thesis by simp
  next
    case (2 cl n m inventory now_ns grace_seconds q)
    from gc_objects(1,2) [OF 2 client(1)] client(2) evolves_trans show ?thesis by auto
  qed
qed

lemma run_command_keeps:
  assumes "cli_backends_ok X" "keeps_all c"
  shows "cli_keeps (ev_prims (cli_env X)) (run_command X rt js c)"
  using assms cli_keeps_dry_gc
  by (cases c)
    (simp_all add: run_command_def keeps_all_def cli_keeps_changes cli_keeps_reads cli_keeps_settings cli_keeps_files_commands
      cli_keeps_push)

lemma run_cli_local: "run_cli X rt js c st = (res, st') \<Longrightarrow> \<exists>r st1. run_command X rt js c st = (r, st1) \<and> cs_local st' = cs_local st1"
  by (auto simp: run_cli_def Let_def split: prod.splits sum.splits if_splits)

fun run_session :: "('y, 'z) cli \<Rightarrow> (string \<times> bool \<times> command) list \<Rightarrow> ('y, 'z) cli_state \<Rightarrow> ('y, 'z) cli_state" where
  "run_session X [] st = st"
| "run_session X ((rt, as_json, c) # cs) st = run_session X cs (snd (run_cli X rt as_json c st))"

lemma session_keeps:
  assumes "cli_backends_ok X" "\<forall>(rt, js, c) \<in> set cs. keeps_all c" "objects_ok (ev_prims (cli_env X)) (cs_local st)"
  shows "objects_ok (ev_prims (cli_env X)) (cs_local (run_session X cs st)) \<and> evolves (cs_local st) (cs_local (run_session X cs st))"
  using assms(2,3)
proof (induction cs arbitrary: st)
  case (Cons x cs)
  obtain rt js c where x: "x = (rt, js, c)" by (cases x)
  obtain res st1 where run: "run_cli X rt js c st = (res, st1)" by fastforce
  obtain r st2 where cmd: "run_command X rt js c st = (r, st2)" "cs_local st1 = cs_local st2"
    using run_cli_local [OF run] by blast
  from Cons.prems(1) x have "keeps_all c" by simp
  note 1 = cli_keepsD [OF run_command_keeps [OF assms(1) this] cmd(1) Cons.prems(2)]
  have "\<forall>(rt, js, c) \<in> set cs. keeps_all c" using Cons.prems(1) by simp
  from Cons.IH [OF this, of st1] 1 cmd(2) run x evolves_trans show ?case by auto
qed simp

text \<open>A single command, whichever it is, keeps what the branches reach.\<close>

lemma command_keeps_live:
  assumes "cli_backends_ok X" "run_cli X rt js c st = (res, st')" "objects_ok (ev_prims (cli_env X)) (cs_local st)"
    and "i \<in> live (ev_prims (cli_env X)) (cs_local st) k" "lookup_object k (cs_local st) i \<noteq> None"
  shows "lookup_object k (cs_local st') i \<noteq> None"
proof -
  let ?P = "ev_prims (cli_env X)"
  obtain r st1 where cmd: "run_command X rt js c st = (r, st1)" "cs_local st' = cs_local st1"
    using run_cli_local [OF assms(2)] by blast
  have k: "k \<noteq> Ref" using assms(4) by (auto simp: live_def)
  consider "keeps_all c" | grace where "c = GcCmd True grace" | u b t where "c = PullCmd u b t \<or> c = FetchCmd u b t"
    by (cases c) (auto simp: keeps_all_def)
  then show ?thesis
  proof cases
    case 1
    from cli_keepsD [OF run_command_keeps [OF assms(1) 1] cmd(1) assms(3)] evolves_retained k assms(5) cmd(2)
    show ?thesis by (metis retained_def)
  next
    case 2
    with cmd(1) have "cli_gc X rt js True grace st = (r, st1)" by (simp add: run_command_def)
    then show ?thesis
    proof (cases rule: cli_gc_run)
      case (1 cl)
      with assms(5) cmd(2) show ?thesis by simp
    next
      case (2 cl n m inventory now_ns grace_seconds q)
      have "objects_ok ?P ((cs_local st)\<lparr>rs_client := cl\<rparr>)" using assms(3) by (simp add: objects_ok_def store_ok_def)
      from gc_objects(3) [OF 2 this] assms(4,5) cmd(2) show ?thesis by (simp add: live_client)
    qed
  next
    case 3
    with cmd(1) cli_retains_downloads [OF assms(1)] have "retained (cs_local st) (cs_local st1)"
      using assms(3) by (auto simp: run_command_def cli_retains_def)
    with k assms(5) cmd(2) show ?thesis by (metis retained_def)
  qed
qed


section \<open>What a user may not expect\<close>

text \<open>A new client is on \<open>main\<close>, whatever default branch the repository was created with.\<close>

lemma new_client_on_main:
  assumes "open_cli X rt transfer st = (Inr er, st')" "cl_head (rs_client (cs_local st)) = None"
  shows "current_branch (rs_client (cs_local st')) = Inr ''main''"
proof -
  have "rs_client (cs_local st') = ensure_current_branch ''main'' (rs_client (cs_local st))"
    using assms(1) by (auto simp: open_cli_def asksS_def bindS_def on_repo_def split: sum.splits)
  moreover have "current_branch (set_head ''main'' (rs_client (cs_local st))) = Inr ''main''"
  proof -
    have "strip (''refs/heads/main'' @ [CHR 0x0A]) = ''refs/heads/main''" by code_simp
    then show ?thesis by (simp add: set_head_def current_branch_def)
  qed
  ultimately show ?thesis using assms(2) by (simp add: ensure_current_branch_def)
qed

text \<open>A setting can be stored that the repository cannot be opened with; the error then is not one that is handled.\<close>

lemma unloadable_setting:
  "\<exists>c. config_set_value (LocalConfig default_base) ''default_branch'' [] = Inr c \<and>
     config_of_json (config_json c) = Inl DecodeError \<and> \<not> handled_error DecodeError"
  by (intro exI conjI, simp add: config_set_value_def Let_def) (code_simp, simp add: handled_error_def)

text \<open>\<open>transfer --execute\<close> runs the program \<open>cp\<close>, with an S3 address for an operand.\<close>

lemma transfer_runs_cp:
  "run_words X (copy_command True local_path uri) st = bindS (say (Ran [''cp'', local_path, uri])) (\<lambda>_. liftS (cli_program X [''cp'', local_path, uri])) st"
  using copy_command_words [of True local_path uri] by (simp add: run_words_def)

end
