(* ===== verification/Repo_History.thy ===== *)
theory Repo_History
  imports Repo_Invariants
begin

text \<open>
  What a commit and a merge do to the history (\<open>commit\<close> and \<open>merge\<close> of \<open>core/repository.py\<close>): a
  commit that returns is the new head of the current branch with the old head as its parent,
  and a merge that returns names a commit that descends from both sides. A commit that raises
  moves no head.
\<close>

section \<open>A commit builds on the head\<close>

definition parent_list :: "string option \<Rightarrow> string list" where
  "parent_list head = (case head of None \<Rightarrow> [] | Some p \<Rightarrow> if p = [] then [] else [p])"

lemma write_commit_object_fail:
  assumes "write_commit_object P m now b message parent_commit parents0 tree_hash expd operation s = (Inl e, s')"
  shows "ref_head s' c = ref_head s c"
proof -
  let ?ps = "case parents0 of Some ps \<Rightarrow> ps | None \<Rightarrow> (case parent_commit of None \<Rightarrow> [] | Some p \<Rightarrow> if p = [] then [] else [p])"
  show ?thesis
  proof (cases "generation_of P m s ?ps")
    case (Inl x)
    with assms show ?thesis by (simp add: write_commit_object_def Let_def bindS_def)
  next
    case (Inr g)
    let ?i = "commit_id_of P message tree_hash ?ps"
    let ?s1 = "s\<lparr>rs_commits := alist_put ?i (encode_commit P \<lparr>c_id = ?i, c_message = message, c_tree = tree_hash,
        c_parents = ?ps, c_created_at = now, c_generation = Some g\<rparr>) (rs_commits s)\<rparr>"
    have "update_branch_ref now b (Some ?i) expd operation ?s1 = (Inl e, s')" using assms Inr
      by (auto simp: write_commit_object_def Let_def bindS_def put_commit_def split: sum.splits prod.splits)
    from update_branch_ref_spec [OF this] show ?thesis by (simp add: ref_head_def read_branch_ref_def)
  qed
qed

lemma require_branch_state_heads: "require_branch_state allow b s = (r, s1) \<Longrightarrow> ref_head s1 c = ref_head s c"
  using require_branch_state_frame by fastforce

lemma commit_attempts_spec:
  assumes "commit_codec_ok (ev_prims E)" "digest_ok (ev_prims E)"
  shows "commit_attempts E b message staged_only additions removed k s = (r, s') \<Longrightarrow> objects_ok (ev_prims E) s \<Longrightarrow>
    (case r of
       Inl e \<Rightarrow> \<forall>c. ref_head s' c = ref_head s c
     | Inr i \<Rightarrow> ref_head s' b = Some i \<and> (\<forall>c. c \<noteq> b \<longrightarrow> ref_head s' c = ref_head s c) \<and>
         (\<exists>c. fetch_commit (ev_prims E) s' i = Inr c \<and> c_message c = message \<and> c_parents c = parent_list (ref_head s b)))"
proof (induction k arbitrary: s)
  case 0
  then have "r = Inl (RefConflictError b ''commit'' None None)" "s' = s" by simp_all
  then show ?case by simp
next
  case (Suc k)
  let ?P = "ev_prims E"
  obtain q1 s1 where 1: "require_branch_state True b s = (q1, s1)" by fastforce
  note ok1 = movesD [OF moves_require_branch_state [of ?P "{}"] 1 Suc.prems(2)]
  show ?case
  proof (cases q1)
    case (Inl e)
    with Suc.prems(1) 1 require_branch_state_heads [OF 1] show ?thesis by auto
  next
    case (Inr pc)
    obtain q2 s2 where 2: "bindS (parent_tree_of E pc) (\<lambda>parent_tree. commit_tree E staged_only parent_tree additions removed) s1 = (q2, s2)"
      by fastforce
    have "moves ?P {} (bindS (parent_tree_of E pc) (\<lambda>parent_tree. commit_tree E staged_only parent_tree additions removed))"
      by (intro moves_intros)
    note ok2 = movesD [OF this 2 ok1(1)]
    have heads: "ref_head s2 c = ref_head s c" for c using ok1(3) ok2(3) by simp
    show ?thesis
    proof (cases q2)
      case Inl2: (Inl e)
      with Suc.prems(1) 1 2 Inr have "s' = s2 \<and> r = Inl e" by (auto simp: bindS_def split: sum.splits prod.splits)
      with heads show ?thesis by simp
    next
      case Inr2: (Inr t)
      obtain q3 s3 where 3: "write_commitS E b message pc None t pc ''commit'' s2 = (q3, s3)" by fastforce
      have "b \<in> {b}" by simp
      note ok3 = movesD [OF moves_write_commitS [OF this] 3 ok2(1)]
      from Suc.prems(1) 1 2 3 Inr Inr2 have run: "(case q3 of
          Inl e \<Rightarrow> if is_ref_conflict e \<and> k \<noteq> 0 then commit_attempts E b message staged_only additions removed k s3 else (Inl e, s3)
        | Inr c \<Rightarrow> (Inr c, s3)) = (r, s')"
        by (auto simp: bindS_def split: sum.splits prod.splits)
      show ?thesis
      proof (cases q3)
        case e: (Inl e)
        have same: "ref_head s3 c = ref_head s c" for c
          using write_commit_object_fail [OF 3 [unfolded write_commitS_def e]] heads by simp
        show ?thesis
        proof (cases "is_ref_conflict e \<and> k \<noteq> 0")
          case True
          with run e have "commit_attempts E b message staged_only additions removed k s3 = (r, s')" by simp
          from Suc.IH [OF this ok3(1)] show ?thesis unfolding same .
        qed (use run e same in auto)
      next
        case i: (Inr i)
        note W = write_commit_object_ok [OF 3 [unfolded write_commitS_def i] assms]
        from run i have "r = Inr i" "s' = s3" by simp_all
        with W(2-5) heads show ?thesis by (auto simp: parent_list_def)
      qed
    qed
  qed
qed

lemma repo_commit_spec:
  assumes "commit_codec_ok (ev_prims E)" "digest_ok (ev_prims E)" "objects_ok (ev_prims E) s"
    and run: "repo_commit E message staged_only s = (r, s')"
  shows "case r of
       Inl e \<Rightarrow> \<forall>c. ref_head s' c = ref_head s c
     | Inr i \<Rightarrow> \<exists>b. current_branch (rs_client s) = Inr b \<and> ref_head s' b = Some i \<and>
         (\<forall>c. c \<noteq> b \<longrightarrow> ref_head s' c = ref_head s c) \<and> stage_load (ev_prims E) s' b = Inr [] \<and>
         (\<exists>c. fetch_commit (ev_prims E) s' i = Inr c \<and> c_message c = message \<and> c_parents c = parent_list (ref_head s b))"
proof -
  let ?P = "ev_prims E"
  define pre where "pre b = bindS (asksS (\<lambda>s :: 'a repo_store_scheme. ensure_branch_exists s b)) (\<lambda>_.
      bindS (asksS (\<lambda>s. stage_load ?P s b)) (\<lambda>staged.
      bindS (materialize_additions E staged) (\<lambda>additions. returnS (staged, additions))))" for b
  define n where "n = (if staged_only then staged_commit_retries else 1)"
  have pre: "moves ?P {} (pre b)" for b unfolding pre_def by (intro moves_intros)
  show ?thesis
  proof (cases "strip message = []")
    case True
    with run show ?thesis by (auto simp: repo_commit_def)
  next
    case msg: False
    show ?thesis
    proof (cases "current_branch (rs_client s)")
      case (Inl e)
      with run msg have "r = Inl e" "s' = s" by (simp_all add: repo_commit_def asksS_def bindS_def)
      then show ?thesis by simp
    next
      case (Inr b)
      obtain q s1 where 1: "pre b s = (q, s1)" by fastforce
      note ok1 = movesD [OF pre 1 assms(3)]
      show ?thesis
      proof (cases q)
        case Inl1: (Inl e)
        with run msg Inr 1 have "r = Inl e \<and> s' = s1"
          by (auto simp: repo_commit_def pre_def asksS_def bindS_def split: sum.splits prod.splits)
        with ok1 show ?thesis by simp
      next
        case Inr1: (Inr sa)
        obtain staged additions where sa: "sa = (staged, additions)" by (cases sa)
        obtain q2 s2 where 2: "commit_attempts E b message staged_only additions (map fst (with_action ''remove'' staged)) n s1 = (q2, s2)"
          by fastforce
        note A = commit_attempts_spec [OF assms(1,2) 2 ok1(1)]
        have heads: "ref_head s1 c = ref_head s c" for c using ok1(3) by simp
        show ?thesis
        proof (cases q2)
          case Inl2: (Inl e)
          with run msg Inr 1 Inr1 sa 2 have "r = Inl e \<and> s' = s2"
            by (auto simp: repo_commit_def pre_def n_def asksS_def bindS_def split: sum.splits prod.splits)
          with A Inl2 heads show ?thesis by simp
        next
          case Inr2: (Inr i)
          with run msg Inr 1 Inr1 sa 2 have r: "r = Inr i" and s': "(Inr (), s') = stage_save ?P b [] s2"
            by (auto simp: repo_commit_def pre_def n_def asksS_def bindS_def stage_save_def split: sum.splits prod.splits)
          from s' have "s' = s2\<lparr>rs_client := write_staging_payload b None (rs_client s2)\<rparr>" by (simp add: stage_save_def)
          then have "ref_head s' c = ref_head s2 c" "fetch_commit ?P s' i = fetch_commit ?P s2 i"
            "stage_load ?P s' b = Inr []" for c
            by (simp_all add: fetch_commit_def stage_load_def read_write_staging)
          with A Inr2 heads r Inr show ?thesis by auto
        qed
      qed
    qed
  qed
qed

section \<open>A merge contains both sides\<close>

definition stored_history :: "prims \<Rightarrow> 'z repo_store_scheme \<Rightarrow> string \<Rightarrow> commit option" where
  "stored_history P s i = (case fetch_commit P s i of Inr c \<Rightarrow> Some c | Inl e \<Rightarrow> None)"

text \<open>The commit and what it descends from.\<close>

definition descends :: "prims \<Rightarrow> 'z repo_store_scheme \<Rightarrow> string \<Rightarrow> string \<Rightarrow> bool" where
  "descends P s i j \<longleftrightarrow> (i, j) \<in> (parent_rel (stored_history P s))\<^sup>*"

lemma descends_parent: "fetch_commit P s i = Inr c \<Longrightarrow> j \<in> set (c_parents c) \<Longrightarrow> descends P s i j"
  unfolding descends_def by (rule r_into_rtrancl) (auto simp: parent_rel_def stored_history_def)

lemma stored_history_commits: "rs_commits s' = rs_commits s \<Longrightarrow> stored_history P s' = stored_history P s"
  by (intro ext) (simp add: stored_history_def fetch_commit_def)

lemma descends_commits: "rs_commits s' = rs_commits s \<Longrightarrow> descends P s' = descends P s"
  by (drule stored_history_commits [of _ _ P]) (intro ext, simp only: descends_def)

text \<open>The client's snapshot of a branch agrees with the store, if there is one.\<close>

definition snapshot_fresh :: "'z repo_store_scheme \<Rightarrow> string \<Rightarrow> bool" where
  "snapshot_fresh s b \<longleftrightarrow> read_branch_snapshot (rs_client s) b \<in> {None, Some (ref_head s b)}"

lemma require_branch_state_fresh:
  assumes "snapshot_fresh s b" "require_branch_state allow b s = (Inr c, s1)"
  shows "c = ref_head s b"
  using assms
  by (auto simp: snapshot_fresh_def require_branch_state_def ref_head_def head_of_def bindS_def snapshot_def
      split: option.splits if_splits)

lemma fast_forward_False:
  assumes "fast_forward_branch P m n now b target operation s = (Inr False, s')" "snapshot_fresh s b"
  shows "ref_head s b = Some target" "ref_head s' c = ref_head s c" "rs_commits s' = rs_commits s"
proof -
  obtain current s1 where s1: "require_branch_state False b s = (Inr current, s1)"
    using assms(1) by (auto simp: fast_forward_branch_def bindS_Inr)
  with assms(1) have "current = Some target" "s' = s1"
    by (auto simp: fast_forward_branch_def bindS_def split: if_splits sum.splits prod.splits)
  moreover obtain cl where "s1 = s\<lparr>rs_client := cl\<rparr>" using require_branch_state_frame [OF s1] by blast
  ultimately show "ref_head s b = Some target" "ref_head s' c = ref_head s c" "rs_commits s' = rs_commits s"
    using require_branch_state_fresh [OF assms(2) s1] by simp_all
qed

lemma fast_forward_commits: "fast_forward_branch P m n now b target operation s = (r, s') \<Longrightarrow> rs_commits s' = rs_commits s"
proof -
  assume run: "fast_forward_branch P m n now b target operation s = (r, s')"
  obtain q s1 where s1: "require_branch_state False b s = (q, s1)" by fastforce
  obtain cl where cl: "s1 = s\<lparr>rs_client := cl\<rparr>" using require_branch_state_frame [OF s1] by blast
  have "s' = s1 \<or> (\<exists>q' current. update_branch_ref now b (Some target) current operation s1 = (q', s'))"
    using run s1
    by (auto simp: fast_forward_branch_def bindS_def split: if_splits sum.splits prod.splits option.splits)
  with cl update_branch_ref_frame show ?thesis by fastforce
qed

lemma repo_merge_spec:
  fixes E s
  defines "P \<equiv> ev_prims E"
  assumes P: "commit_codec_ok P" "digest_ok P" "objects_ok P s"
    and H: "history_ok (commit_reader P s) (stored_history P s) G R" "\<forall>i \<in> R. G i < ev_history E" "finite R"
      "card R \<le> ev_walk E"
    and ends: "resolve_ref s source_ref = Inr a" "resolve_ref s target_ref = Inr b" "a \<in> R" "b \<in> R" "is_hex_digest a"
    and fresh: "snapshot_fresh s target_ref" "\<And>c. ref_head s target_ref = Some c \<Longrightarrow> c \<in> R"
    and run: "repo_merge E source_ref target_ref s = (Inr res, s')"
  shows "descends P s' (mr_commit res) a \<and> descends P s' (mr_commit res) b \<and>
    (mr_updated res \<longrightarrow> ref_head s' target_ref = Some (mr_commit res)) \<and> (\<not> mr_updated res \<longrightarrow> s' = s \<and> mr_commit res = b) \<and>
    (\<forall>c. c \<noteq> target_ref \<longrightarrow> ref_head s' c = ref_head s c)"
proof -
  have anc: "is_ancestor P (ev_history E) (ev_walk E) s x y = Inr (descends P s y x)" if "x \<in> R" "y \<in> R" for x y
    using is_ancestor_commit_spec [OF H(1) that H(2-4)] by (simp add: is_ancestor_def descends_def)
  have refs: "source_ref \<noteq> []" "target_ref \<noteq> []" using run by (auto simp: repo_merge_def Let_def)
  note step = run [unfolded repo_merge_def, folded P_def]
  have self: "descends P t x x" for x and t :: "'a repo_store_scheme" by (simp add: descends_def)
  consider (contained) "descends P s b a" | (behind) "\<not> descends P s b a" "descends P s a b"
    | (diverged) "\<not> descends P s b a" "\<not> descends P s a b" by blast
  then show ?thesis
  proof cases
    case contained
    with step refs ends anc [OF ends(3,4)] have "s' = s" "mr_commit res = b" "\<not> mr_updated res"
      by (auto simp: Let_def resolve_refS_def asksS_def bindS_def split: if_splits)
    with contained self show ?thesis by simp
  next
    case behind
    then have ne: "a \<noteq> b" using self by auto
    with step refs ends anc [OF ends(3,4)] anc [OF ends(4,3)] behind obtain u where
      ff: "fast_forward_branch P (ev_history E) (ev_walk E) (ev_now E) target_ref a ''merge'' s = (Inr u, s')"
      and res: "mr_commit res = a" "mr_updated res"
      by (auto simp: Let_def resolve_refS_def asksS_def bindS_def split: if_splits sum.splits prod.splits)
    note same = descends_commits [OF fast_forward_commits [OF ff]]
    have "ref_head s' target_ref = Some a \<and> (\<forall>c. c \<noteq> target_ref \<longrightarrow> ref_head s' c = ref_head s c)"
    proof (cases u)
      case True
      with ff have moved: "fast_forward_branch P (ev_history E) (ev_walk E) (ev_now E) target_ref a ''merge'' s = (Inr True, s')"
        by simp
      from fast_forward_branch_ok [OF moved H ends(3) fresh(2) ends(5)] show ?thesis by simp
    next
      case False
      with ff have kept: "fast_forward_branch P (ev_history E) (ev_walk E) (ev_now E) target_ref a ''merge'' s = (Inr False, s')"
        by simp
      note no = fast_forward_False [OF kept fresh(1)]
      show ?thesis unfolding no(2) using no(1) by simp
    qed
    with res behind self same show ?thesis by simp
  next
    case diverged
    then have ne: "a \<noteq> b" using self by auto
    with step refs ends anc [OF ends(3,4)] anc [OF ends(4,3)] diverged have
      div: "merge_diverged E source_ref target_ref a b s = (Inr (mr_commit res), s')" and upd: "mr_updated res"
      by (auto simp: Let_def resolve_refS_def asksS_def bindS_def split: if_splits sum.splits prod.splits)
    define pre where "pre = bindS (asksS (\<lambda>s :: 'a repo_store_scheme.
        merge_base_commit (commit_reader P s) (ev_history E) (ev_walk E) a b)) (\<lambda>base.
     bindS (read_commitS E b) (\<lambda>target_obj.
     bindS (read_commitS E a) (\<lambda>source_obj.
       merge_trees P (ev_tree E) (map_option c_tree base) (c_tree target_obj) (c_tree source_obj))))"
    have "moves P {} pre" unfolding pre_def by (intro moves_intros)
    obtain q s1 where 1: "pre s = (q, s1)" by fastforce
    note ok1 = movesD [OF \<open>moves P {} pre\<close> 1 P(3)]
    from div 1 obtain t where t: "q = Inr t" and
      rest: "bindS (require_branch_state False target_ref) (\<lambda>expected. write_commitS E target_ref
          (''merge '' @ source_ref @ '' into '' @ target_ref) None (Some [b, a]) t expected ''merge'') s1 = (Inr (mr_commit res), s')"
      by (auto simp: merge_diverged_def pre_def P_def bindS_def split: sum.splits prod.splits)
    from rest obtain expd s2 where 2: "require_branch_state False target_ref s1 = (Inr expd, s2)"
      and 3: "write_commit_object P (ev_history E) (ev_now E) target_ref (''merge '' @ source_ref @ '' into '' @ target_ref)
          None (Some [b, a]) t expd ''merge'' s2 = (Inr (mr_commit res), s')"
      by (auto simp: bindS_Inr write_commitS_def P_def)
    note W = write_commit_object_ok [OF 3 P(1,2), simplified]
    from W(5) obtain c where c: "fetch_commit P s' (mr_commit res) = Inr c" "c_parents c = [b, a]" by auto
    have "ref_head s' c = ref_head s c" if "c \<noteq> target_ref" for c
      using W(4) [OF that] require_branch_state_heads [OF 2] ok1(3) by simp
    with W(3) c descends_parent [OF c(1)] upd show ?thesis by auto
  qed
qed

end
