(* ===== verification/Repo_Samples.thy ===== *)
theory Repo_Samples
  imports Samples Sync_Spec Repo_History Restore
begin

text \<open>
  A concrete environment and a concrete pair of repositories, at which the theorems about
  repository operations and synchronisation are applied: a local repository with one commit of
  the empty tree, pushed to an empty bucket.
\<close>

section \<open>An environment\<close>

definition sample_env :: env where
  "sample_env =
     \<lparr>ev_prims = sample, ev_world = sample_world, ev_capture = False, ev_trust_mtime = False, ev_identity = ''content'',
      ev_depth = 20, ev_tree = 4, ev_history = 4, ev_walk = 4, ev_now = ''2025''\<rparr>"

lemma sample_env_sel [simp]:
  "ev_prims sample_env = sample" "ev_world sample_env = sample_world" "ev_tree sample_env = 4"
  "ev_history sample_env = 4" "ev_walk sample_env = 4" "ev_now sample_env = ''2025''"
  by (simp_all add: sample_env_def)

section \<open>A repository to push\<close>

text \<open>\<open>main\<close> is at a commit of the empty tree; the remote has nothing.\<close>

definition empty_tree :: string where
  "empty_tree = sample_digest []"

definition tip_commit :: commit where
  "tip_commit = first_commit\<lparr>c_tree := empty_tree\<rparr>"

definition push_local :: repo_store where
  "push_local = sample_store
     \<lparr>rs_commits := [(dg CHR ''a'', encode_commit sample tip_commit)], ts_nodes := [empty_tree \<mapsto> []],
      ts_hashed := [[]]\<rparr>"

definition push_remote :: repo_store where
  "push_remote = sample_store\<lparr>rs_refs := []\<rparr>"

lemma push_local_fetch: "fetch_commit sample push_local (dg CHR ''a'') = Inr tip_commit"
  using parse_encode_commit [OF sample_commit_codec_ok, of "dg CHR ''a''" tip_commit]
  by (simp add: fetch_commit_def push_local_def tip_commit_def first_commit_def)

lemma push_local_load: "load sample (ts_nodes push_local) empty_tree = Inr (Some [])"
  by (simp add: push_local_def load_def parse_tree_object_def splitlines_def)

lemma push_local_candidates:
  "collect_candidates sample 4 push_local [dg CHR ''a''] =
     Inr (\<lambda>k. case k of Commit \<Rightarrow> [dg CHR ''a''] | Tree \<Rightarrow> [empty_tree] | _ \<Rightarrow> [])"
  by (simp add: collect_candidates_def visit_state_def visit_commit_def push_local_fetch iter_tree_hashes_def visit_tree_def
      push_local_load tip_commit_def first_commit_def node_leaves_def given_def subtree_hashes_def fun_eq_iff eval_nat_numeral
      split: object_kind.split)

lemma push_remote_empty: "lookup_object k push_remote i = None"
  by (cases k) (simp_all add: lookup_object_def push_remote_def sample_store_def)

lemma push_commits:
  "(\<And>i. lookup_object Commit r i = None) \<Longrightarrow>
     collect_commits_to_push sample_env push_local r (dg CHR ''a'') = Inr [dg CHR ''a'']"
  by (simp add: collect_commits_to_push_def visit_history_def push_local_fetch tip_commit_def first_commit_def
      missing_ids_def INVENTORY_THRESHOLD_def object_exists_def by_generation_def commit_reader_def eval_nat_numeral sort_key_def)

definition remote_unborn :: repo_store where
  "remote_unborn = put_object Ref ''main'' [] push_remote"

lemma remote_unborn_sel:
  "k \<noteq> Ref \<Longrightarrow> lookup_object k remote_unborn i = None" "rs_refs remote_unborn = [(''main'', [])]"
  "rs_client remote_unborn = empty_client" "ref_head remote_unborn ''main'' = None"
  "read_branch_ref remote_unborn ''main'' = Some None"
proof -
  show "k \<noteq> Ref \<Longrightarrow> lookup_object k remote_unborn i = None" by (simp add: remote_unborn_def push_remote_empty)
qed (simp_all add: remote_unborn_def put_object_def push_remote_def sample_store_def ref_head_def
      read_branch_ref_def head_of_def)

lemma push_opens:
  "open_remote sample_env LocalStore ''s3://b/p'' (l, push_remote) =
     (Inr \<lparr>en_kind = LocalStore, en_root = [''data''], en_bucket = ''b'', en_prefix = ''p''\<rparr>, (l, push_remote))"
proof -
  have "parse_s3_uri ''s3://b/p'' = Inr (''b'', ''p'')"
    using parse_s3_uri_plain [of "''b''" "''p''"] by (simp add: plain_uri_char_def url_end_def)
  then show ?thesis
    by (simp add: open_remote_def on_remote_def bindS_def push_remote_def sample_store_def empty_client_def
        ensure_current_branch_def sample_world_def)
qed

lemma push_local_head: "branch_to_push ''main'' push_local = (Inr (dg CHR ''a''), push_local)"
proof -
  have "read_branch_ref push_local ''main'' = read_branch_ref sample_store ''main''"
    by (simp add: push_local_def read_branch_ref_def)
  then show ?thesis using sample_store_heads(3)
    by (simp add: branch_to_push_def asksS_def object_exists_def lookup_object_def push_local_def sample_store_def)
qed

lemma push_unborn: "ensure_unborn S3Store ''main'' push_remote = (Inr (), remote_unborn)"
  by (simp add: ensure_unborn_def read_branch_ref_def push_remote_def store_cas_def s3_compare_and_set_branch_ref_def
      head_of_def ref_payload_def remote_unborn_def bindS_def)

definition push_items :: "transfer_item list" where
  "push_items = [plan_item \<lparr>en_kind = LocalStore, en_root = [''data''], en_bucket = ''b'', en_prefix = ''p''\<rparr> Commit (dg CHR ''a''),
     plan_item \<lparr>en_kind = LocalStore, en_root = [''data''], en_bucket = ''b'', en_prefix = ''p''\<rparr> Tree empty_tree]"

lemma push_plan:
  "build_plan sample_env \<lparr>en_kind = LocalStore, en_root = [''data''], en_bucket = ''b'', en_prefix = ''p''\<rparr> Upload
     push_local remote_unborn [dg CHR ''a''] = Inr \<lparr>tp_direction = Upload, tp_items = push_items\<rparr>"
  by (simp add: build_plan_def push_local_candidates require_local_path_def require_remote_uri_def missing_items_def
      missing_ids_def INVENTORY_THRESHOLD_def object_exists_def remote_unborn_sel push_items_def)

definition remote_filled :: repo_store where
  "remote_filled = put_object Tree empty_tree []
     (put_object Commit (dg CHR ''a'') (encode_commit sample tip_commit) remote_unborn)"

lemma push_copied:
  "execute_transfer_plan sample NoBackend \<lparr>tp_direction = Upload, tp_items = push_items\<rparr> (push_local, remote_unborn) =
     (Inr 2, (push_local, remote_filled))"
proof -
  have "lookup_object Commit push_local (dg CHR ''a'') = Some (encode_commit sample tip_commit)"
    "lookup_object Tree push_local empty_tree = Some []"
    by (simp_all add: lookup_object_def push_local_def)
  then show ?thesis
    by (simp add: execute_transfer_plan_def push_items_def plan_item_def copy_item_def upload_item_def on_remote_def
        write_new_commit_def write_missing_def object_exists_def remote_unborn_sel remote_filled_def bindS_def)
qed

lemma push_advances:
  "\<exists>r'. fast_forward_of sample_env S3Store ''main'' (dg CHR ''a'') ''push'' remote_filled = (Inr True, r')"
proof -
  have ref: "read_branch_ref remote_filled ''main'' = Some None"
    using remote_unborn_sel(2) by (simp add: remote_filled_def read_branch_ref_def)
  have "read_branch_snapshot (rs_client remote_filled) ''main'' = None"
    by (simp add: remote_filled_def remote_unborn_sel empty_client_def read_branch_snapshot_def)
  then show ?thesis using ref
    by (auto simp: fast_forward_of_def store_fast_forward_def require_branch_state_def bindS_def snapshot_def
        store_update_branch_ref_def store_cas_def s3_compare_and_set_branch_ref_def read_branch_ref_def head_of_def
        put_object_def reflog_def split: option.splits prod.splits)
qed

lemma push_run:
  "\<exists>p r'. push sample_env LocalStore NoBackend ''s3://b/p'' (Some ''main'') (push_local, push_remote) = (Inr p, (push_local, r')) \<and>
     sy_branch p = ''main'' \<and> sy_updated p"
proof -
  obtain r' where ff: "fast_forward_of sample_env S3Store ''main'' (dg CHR ''a'') ''push'' remote_filled = (Inr True, r')"
    using push_advances by blast
  have verify: "verify_push_fast_forward sample_env ''main'' (dg CHR ''a'') push_local remote_unborn = Inr True"
    by (simp add: verify_push_fast_forward_def verify_fast_forward_def remote_unborn_sel)
  have commits: "collect_commits_to_push sample_env push_local remote_unborn (dg CHR ''a'') = Inr [dg CHR ''a'']"
    by (rule push_commits) (simp add: remote_unborn_sel)
  show ?thesis
    by (simp add: push_def on_local_def on_remote_def branch_or_current_def truthy_def push_local_head push_opens push_unborn
        asksS_def verify commits push_plan push_copied ff bindS_def Let_def)
qed

section \<open>The same repository pulled\<close>

text \<open>The roles exchanged: an empty local repository, and the commit in the bucket.\<close>

definition sample_ends :: ends where
  "sample_ends = \<lparr>en_kind = LocalStore, en_root = [''data''], en_bucket = ''b'', en_prefix = ''p''\<rparr>"

definition pull_remote :: repo_store where
  "pull_remote = push_local\<lparr>rs_client := ensure_current_branch ''main'' (rs_client push_local)\<rparr>"

lemma sample_pull_opens: "open_remote sample_env LocalStore ''s3://b/p'' (l, push_local) = (Inr sample_ends, (l, pull_remote))"
proof -
  have "parse_s3_uri ''s3://b/p'' = Inr (''b'', ''p'')"
    using parse_s3_uri_plain [of "''b''" "''p''"] by (simp add: plain_uri_char_def url_end_def)
  then show ?thesis
    by (simp add: open_remote_def on_remote_def bindS_def sample_world_def sample_ends_def pull_remote_def)
qed

lemma sample_pull_unborn: "ensure_unborn LocalStore ''main'' push_remote = (Inr (), remote_unborn)"
  by (simp add: ensure_unborn_def read_branch_ref_def push_remote_def store_cas_def compare_and_set_cases ref_head_def
      head_of_def ref_payload_def remote_unborn_def bindS_def put_object_def path_blocked_def)

lemma sample_pull_remote_sel:
  "fetch_commit P pull_remote = fetch_commit P push_local" "ts_nodes pull_remote = ts_nodes push_local"
  "lookup_object k pull_remote = lookup_object k push_local" "resolve_ref pull_remote b = resolve_ref push_local b"
  by (simp_all add: pull_remote_def fetch_commit_def [abs_def] fun_eq_iff)

lemma sample_pull_resolved: "resolve_ref push_local ''main'' = Inr (dg CHR ''a'')"
proof -
  have "read_branch_ref push_local ''main'' = read_branch_ref sample_store ''main''"
    by (simp add: push_local_def read_branch_ref_def)
  then show ?thesis using sample_store_heads(3) by (simp add: resolve_ref_def)
qed

lemma sample_pull_commits:
  "collect_commits_to_push sample_env pull_remote remote_unborn (dg CHR ''a'') = Inr [dg CHR ''a'']"
  using push_commits [of remote_unborn]
  by (simp add: collect_commits_to_push_def visit_history_def [abs_def] sample_pull_remote_sel missing_ids_def by_generation_def
      commit_reader_def [abs_def] remote_unborn_sel)

lemma sample_pull_candidates: "collect_candidates P n pull_remote ids = collect_candidates P n push_local ids"
  by (simp add: collect_candidates_def visit_state_def visit_commit_def [abs_def] sample_pull_remote_sel iter_tree_hashes_def)

lemma sample_pull_plan:
  "build_plan sample_env sample_ends Download pull_remote remote_unborn [dg CHR ''a''] = Inr \<lparr>tp_direction = Download, tp_items = push_items\<rparr>"
  by (simp add: build_plan_def sample_pull_candidates push_local_candidates require_local_path_def require_remote_uri_def missing_items_def
      missing_ids_def INVENTORY_THRESHOLD_def object_exists_def remote_unborn_sel push_items_def sample_ends_def)

lemma sample_pull_copied:
  "execute_transfer_plan sample NoBackend \<lparr>tp_direction = Download, tp_items = push_items\<rparr> (remote_unborn, pull_remote) =
     (Inr 2, (remote_filled, pull_remote))"
proof -
  have "lookup_object Commit push_local (dg CHR ''a'') = Some (encode_commit sample tip_commit)"
    "lookup_object Tree push_local empty_tree = Some []"
    by (simp_all add: lookup_object_def push_local_def)
  then show ?thesis
    by (simp add: execute_transfer_plan_def push_items_def plan_item_def copy_item_def download_item_def on_local_def
        write_new_commit_def write_missing_def object_exists_def remote_unborn_sel remote_filled_def bindS_def sample_pull_remote_sel)
qed

lemma sample_pull_advances:
  "\<exists>l'. fast_forward_of sample_env LocalStore ''main'' (dg CHR ''a'') ''pull'' remote_filled = (Inr True, l')"
proof -
  have ref: "read_branch_ref remote_filled ''main'' = Some None"
    using remote_unborn_sel(2) by (simp add: remote_filled_def read_branch_ref_def)
  have refs: "rs_refs remote_filled = [(''main'', [])]"
    using remote_unborn_sel(2) by (simp add: remote_filled_def)
  have "read_branch_snapshot (rs_client remote_filled) ''main'' = None"
    by (simp add: remote_filled_def remote_unborn_sel empty_client_def read_branch_snapshot_def)
  moreover have "\<not> path_blocked [''main''] ''main''" by code_simp
  ultimately show ?thesis using ref refs
    by (auto simp: fast_forward_of_def fast_forward_branch_def update_branch_ref_def require_branch_state_def bindS_def snapshot_def
        store_update_branch_ref_def store_cas_def compare_and_set_cases ref_head_def read_branch_ref_def head_of_def
        put_object_def reflog_def split: option.splits prod.splits)
qed

lemma sample_pull_run:
  "\<exists>p l' r'. pull sample_env LocalStore NoBackend ''s3://b/p'' (Some ''main'') (push_remote, push_local) = (Inr p, (l', r')) \<and>
     sy_branch p = ''main'' \<and> sy_updated p"
proof -
  obtain l' where ff: "fast_forward_of sample_env LocalStore ''main'' (dg CHR ''a'') ''pull'' remote_filled = (Inr True, l')"
    using sample_pull_advances by blast
  have verify: "verify_pull_fast_forward sample_env ''main'' (dg CHR ''a'') remote_unborn pull_remote = Inr True"
    by (simp add: verify_pull_fast_forward_def verify_fast_forward_def remote_unborn_sel)
  show ?thesis
    by (simp add: pull_def on_local_def on_remote_def branch_or_current_def truthy_def sample_pull_opens sample_pull_unborn resolve_refS_def
        sample_pull_remote_sel sample_pull_resolved asksS_def verify sample_pull_commits sample_pull_plan sample_pull_copied ff bindS_def Let_def)
qed

end
