(* ===== verification/Local_Refine.thy ===== *)
theory Local_Refine
  imports Local_Store
begin

text \<open>
  The operations of \<open>Refs\<close>, \<open>Entries\<close> and \<open>Gc\<close> are stated over the contents of a \<open>repo_store\<close>; those of
  \<open>Local_Store\<close> work on files. Here is the proof that the latter refine the former: related states
  stay related and the answers agree, or the file system failed, which it does not where nothing
  but directories is on the way. Digests and usable branch names never share a path.
\<close>

section \<open>The store in the directory\<close>

text \<open>
  Every object is in its file, what is at the path of a digest is a file, and every branch has a
  name that is a path below \<open>refs/heads\<close>.
\<close>

definition stored_at :: "string list \<Rightarrow> fs \<Rightarrow> 'z repo_store_scheme \<Rightarrow> bool" where
  "stored_at rt d s \<longleftrightarrow>
     (\<forall>k i. local_id k i \<longrightarrow> map_option fst (file_in d (key_path rt k i)) = lookup_object k s i \<and>
        (k \<noteq> Ref \<longrightarrow> fs_at d (key_path rt k i) \<noteq> None \<longrightarrow> file_in d (key_path rt k i) \<noteq> None)) \<and>
     (\<forall>b \<in> fst ` set (rs_refs s). local_id Ref b)"

definition refines :: "string list \<Rightarrow> (fs, 'a) sm \<Rightarrow> ('z repo_store_scheme, 'a) sm \<Rightarrow> bool" where
  "refines rt m a \<longleftrightarrow>
     (\<forall>d s r d'. stored_at rt d s \<longrightarrow> m d = (r, d') \<longrightarrow>
        (\<exists>s'. a s = (r, s') \<and> stored_at rt d' s') \<or> r \<in> {Inl OSError, Inl UnicodeDecodeError} \<and> stored_at rt d' s)"

lemma refinesI:
  assumes "\<And>d s r d'. stored_at rt d s \<Longrightarrow> m d = (r, d') \<Longrightarrow>
      (\<exists>s'. a s = (r, s') \<and> stored_at rt d' s') \<or> r \<in> {Inl OSError, Inl UnicodeDecodeError} \<and> stored_at rt d' s"
  shows "refines rt m a"
  using assms by (simp add: refines_def)

lemma hex_digest_parts: "is_hex_digest i \<Longrightarrow> i \<noteq> [] \<and> drop 2 i \<noteq> [] \<and> CHR ''/'' \<notin> set i"
  by (auto simp: is_hex_digest_def list_all_iff hex_digit_def)

lemma split_path_Cons: "CHR ''/'' \<notin> set a \<Longrightarrow> split_path (a @ CHR ''/'' # b) = a # split_path b"
  by (simp add: split_path_def split_on_append)

lemma key_path_eqs:
  "is_hex_digest i \<Longrightarrow> key_path rt Blob i = rt @ [''.reflake'', ''blobs'', take 2 i, drop 2 i]"
  "is_hex_digest i \<Longrightarrow> key_path rt Tree i = rt @ [''.reflake'', ''trees'', i]"
  "is_hex_digest i \<Longrightarrow> key_path rt Footer i = rt @ [''.reflake'', ''footers'', i]"
  "is_hex_digest i \<Longrightarrow> key_path rt Commit i = rt @ [''.reflake'', ''commits'', i @ ''.json'']"
  "i \<noteq> [] \<Longrightarrow> key_path rt Ref i = rt @ ''.reflake'' # ''refs'' # ''heads'' # split_path i"
proof -
  note h = hex_digest_parts [of i]
  have one: "CHR ''/'' \<notin> set x \<Longrightarrow> split_path x = [x]" for x by (simp add: split_path_def split_on_no_sep)
  have t: "set (take 2 i) \<subseteq> set i" "set (drop 2 i) \<subseteq> set i" by (rule set_take_subset set_drop_subset)+
  show "key_path rt Blob i = rt @ [''.reflake'', ''blobs'', take 2 i, drop 2 i]" if "is_hex_digest i"
  proof -
    from h [OF that] t have "CHR ''/'' \<notin> set (take 2 i)" "CHR ''/'' \<notin> set (drop 2 i)" by blast+
    then have "split_path (take 2 i @ CHR ''/'' # drop 2 i) = [take 2 i, drop 2 i]" using split_path_Cons one by simp
    with h [OF that] split_path_Cons [of "''blobs''" "take 2 i @ CHR ''/'' # drop 2 i"] show ?thesis
      by (simp add: key_path_def object_relative_key_def blob_relpath_def)
  qed
  show "is_hex_digest i \<Longrightarrow> key_path rt Tree i = rt @ [''.reflake'', ''trees'', i]"
    using h split_path_Cons [of "''trees''" i] one by (simp add: key_path_def object_relative_key_def)
  show "is_hex_digest i \<Longrightarrow> key_path rt Footer i = rt @ [''.reflake'', ''footers'', i]"
    using h split_path_Cons [of "''footers''" i] one by (simp add: key_path_def object_relative_key_def)
  show "is_hex_digest i \<Longrightarrow> key_path rt Commit i = rt @ [''.reflake'', ''commits'', i @ ''.json'']"
    using h split_path_Cons [of "''commits''" "i @ ''.json''"] one [of "i @ ''.json''"] by (simp add: key_path_def object_relative_key_def)
  show "i \<noteq> [] \<Longrightarrow> key_path rt Ref i = rt @ ''.reflake'' # ''refs'' # ''heads'' # split_path i"
    using split_path_Cons [of "''refs''" "''heads/'' @ i"] split_path_Cons [of "''heads''" i]
    by (simp add: key_path_def object_relative_key_def)
qed

lemma local_id_ne: "local_id k i \<Longrightarrow> i \<noteq> []"
  using hex_digest_parts by (auto simp: local_id_def split: if_splits)

lemma key_path_inj:
  assumes "key_path rt k i = key_path rt k' i'" "local_id k i" "local_id k' i'"
  shows "k = k' \<and> i = i'"
proof (rule object_key_inj)
  show "object_relative_key k i = object_relative_key k' i'"
    using assms(1) split_on_inj by (auto simp: key_path_def split_path_def)
qed (use assms local_id_ne in \<open>auto simp: local_id_def\<close>)

lemma not_a_parent:
  assumes "local_id k i" "local_id k' i'" "k' \<noteq> Ref"
  shows "\<not> prefix (key_path rt k' i') (butlast (key_path rt k i))"
proof -
  have hex: "is_hex_digest i'" "k \<noteq> Ref \<Longrightarrow> is_hex_digest i" "k = Ref \<Longrightarrow> i \<noteq> []"
    using assms by (auto simp: local_id_def)
  have ne: "split_path i \<noteq> []" by (simp add: split_path_def)
  show ?thesis using assms(3) hex ne
    by (cases k; cases k') (simp_all add: key_path_eqs butlast_append)
qed

lemma lock_is_apart:
  assumes "local_id k i"
  shows "key_path rt k i \<noteq> rt @ [''.reflake'', ''refs'', ''.lock'']"
    "k \<noteq> Ref \<Longrightarrow> \<not> prefix (key_path rt k i) (rt @ [''.reflake'', ''refs''])"
proof -
  have hex: "k \<noteq> Ref \<Longrightarrow> is_hex_digest i" "k = Ref \<Longrightarrow> i \<noteq> []" using assms by (auto simp: local_id_def)
  show "key_path rt k i \<noteq> rt @ [''.reflake'', ''refs'', ''.lock'']" using hex by (cases k) (simp_all add: key_path_eqs)
  show "k \<noteq> Ref \<Longrightarrow> \<not> prefix (key_path rt k i) (rt @ [''.reflake'', ''refs''])" using hex by (cases k) (simp_all add: key_path_eqs)
qed

section \<open>Steps on the files\<close>

lemma stored_atD:
  "stored_at rt d s \<Longrightarrow> local_id k i \<Longrightarrow> map_option fst (file_in d (key_path rt k i)) = lookup_object k s i"
  "stored_at rt d s \<Longrightarrow> local_id k i \<Longrightarrow> k \<noteq> Ref \<Longrightarrow> fs_at d (key_path rt k i) \<noteq> None \<longleftrightarrow> object_exists k s i"
  "stored_at rt d s \<Longrightarrow> b \<in> fst ` set (rs_refs s) \<Longrightarrow> local_id Ref b"
proof -
  show "stored_at rt d s \<Longrightarrow> local_id k i \<Longrightarrow> map_option fst (file_in d (key_path rt k i)) = lookup_object k s i"
    "stored_at rt d s \<Longrightarrow> b \<in> fst ` set (rs_refs s) \<Longrightarrow> local_id Ref b"
    unfolding stored_at_def by blast+
  assume a: "stored_at rt d s" "local_id k i" "k \<noteq> Ref"
  then have eq: "map_option fst (file_in d (key_path rt k i)) = lookup_object k s i"
    and dir: "fs_at d (key_path rt k i) \<noteq> None \<longrightarrow> file_in d (key_path rt k i) \<noteq> None" by (simp_all add: stored_at_def)
  show "fs_at d (key_path rt k i) \<noteq> None \<longleftrightarrow> object_exists k s i"
    using dir unfolding object_exists_def eq [symmetric] by (auto simp: file_in_def split: option.splits)
qed

lemma stored_at_step:
  assumes "stored_at rt d s"
    and "\<And>k i. local_id k i \<Longrightarrow> file_in d' (key_path rt k i) = file_in d (key_path rt k i)"
    and "\<And>k i. local_id k i \<Longrightarrow> k \<noteq> Ref \<Longrightarrow> fs_at d' (key_path rt k i) \<noteq> None \<Longrightarrow> fs_at d (key_path rt k i) \<noteq> None"
  shows "stored_at rt d' s"
  using assms unfolding stored_at_def by metis

lemma parent_dirs_stored:
  assumes "stored_at rt d s" "local_id k i" "lift_fs (make_dirs (butlast (key_path rt k i))) d = (r, d')"
  shows "stored_at rt d' s" "r \<in> {Inr (), Inl OSError}"
proof -
  show "r \<in> {Inr (), Inl OSError}" using assms(3) file_errors(1) by (auto simp: lift_fs_def split: sum.splits)
  show "stored_at rt d' s"
  proof (cases "make_dirs (butlast (key_path rt k i)) d")
    case (Inr e)
    with assms(3) have "d' = e" by (simp add: lift_fs_def)
    with Inr have m: "make_dirs (butlast (key_path rt k i)) d = Inr d'" by simp
    from assms(1) show ?thesis
    proof (rule stored_at_step)
      show "file_in d' (key_path rt k' i') = file_in d (key_path rt k' i')" for k' i' using make_dirs_at [OF m] by simp
      show "fs_at d (key_path rt k' i') \<noteq> None" if "local_id k' i'" "k' \<noteq> Ref" "fs_at d' (key_path rt k' i') \<noteq> None" for k' i'
        using make_dirs_new [OF m that(3)] not_a_parent [OF assms(2) that(1,2)] by blast
    qed
  qed (use assms in \<open>simp add: lift_fs_def\<close>)
qed

lemma put_stored:
  assumes "stored_at rt d s" "local_id k i" "lift_fs (put_file (key_path rt k i) payload clock) d = (r, d')"
  shows "r = Inr () \<and> stored_at rt d' (put_object k i payload s) \<or> r = Inl OSError \<and> d' = d"
proof (cases "put_file (key_path rt k i) payload clock d")
  case (Inl e)
  with assms(3) file_errors(2) [OF Inl] show ?thesis by (simp add: lift_fs_def)
next
  case (Inr e)
  with assms(3) have p: "r = Inr ()" "put_file (key_path rt k i) payload clock d = Inr d'" by (simp_all add: lift_fs_def)
  note at = put_file_at [OF p(2)] and new = put_file_new [OF p(2)]
  have "stored_at rt d' (put_object k i payload s)"
    unfolding stored_at_def
  proof (intro conjI allI impI ballI)
    fix k' i' assume id: "local_id k' i'"
    have same: "key_path rt k' i' = key_path rt k i \<longleftrightarrow> k' = k \<and> i' = i" using key_path_inj [OF _ id assms(2)] by blast
    show "map_option fst (file_in d' (key_path rt k' i')) = lookup_object k' (put_object k i payload s) i'"
      using at [of "key_path rt k' i'"] stored_atD(1) [OF assms(1) id] same by auto
    show "file_in d' (key_path rt k' i') \<noteq> None" if "k' \<noteq> Ref" "fs_at d' (key_path rt k' i') \<noteq> None"
      using new [OF that(2)] at [of "key_path rt k' i'"] assms(1) id that(1) unfolding stored_at_def by (auto split: if_splits)
  next
    fix b assume "b \<in> fst ` set (rs_refs (put_object k i payload s))"
    moreover have "fst ` set (alist_put x v kvs) \<subseteq> insert x (fst ` set kvs)" for x v and kvs :: "(string \<times> string) list"
      by (induction kvs) auto
    then have "fst ` set (rs_refs (put_object k i payload s)) \<subseteq> fst ` set (rs_refs s) \<union> (if k = Ref then {i} else {})"
      by (cases k) (auto simp: put_object_def)
    ultimately have "b \<in> fst ` set (rs_refs s) \<or> k = Ref \<and> b = i" by (auto split: if_splits)
    with stored_atD(3) [OF assms(1)] assms(2) show "local_id Ref b" by blast
  qed
  with p(1) show ?thesis by simp
qed

section \<open>Each operation refines its own\<close>

lemma refines_read:
  assumes "local_id k i" "k \<noteq> Ref"
  shows "refines rt (local_read rt k i) (\<lambda>s. (Inr (lookup_object k s i), s))"
proof (rule refinesI)
  fix d and s :: "'z repo_store_scheme" and r d'
  assume a: "stored_at rt d s" "local_read rt k i d = (r, d')"
  have eq: "map_option fst (file_in d (key_path rt k i)) = lookup_object k s i" using stored_atD(1) [OF a(1) assms(1)] .
  from a(2) have "d' = d" and r: "r = (if fs_at d (key_path rt k i) = None then Inr None
      else bindE (read_bytes (key_path rt k i) d) (\<lambda>b. Inr (Some b)))" by (auto simp: local_read_def asksS_def)
  then show "(\<exists>s'. (Inr (lookup_object k s i), s) = (r, s') \<and> stored_at rt d' s') \<or>
      r \<in> {Inl OSError, Inl UnicodeDecodeError} \<and> stored_at rt d' s"
    using a(1) stored_atD(2) [OF a(1) assms] unfolding eq [symmetric] object_exists_def
    by (auto simp: file_in_def read_bytes_def split: option.splits fs.splits)
qed

lemma refines_exists:
  assumes "local_id k i" "k \<noteq> Ref"
  shows "refines rt (local_object_exists rt k i) (\<lambda>s. (Inr (object_exists k s i), s))"
  using stored_atD(2) [OF _ assms] by (auto simp: refines_def local_object_exists_def asksS_def)

lemma refines_read_blob:
  assumes "local_id Blob h"
  shows "refines rt (local_read_blob rt h) (\<lambda>s. (open_blob s h, s))"
proof (rule refinesI)
  fix d and s :: "'z repo_store_scheme" and r d'
  assume a: "stored_at rt d s" "local_read_blob rt h d = (r, d')"
  have eq: "map_option fst (file_in d (key_path rt Blob h)) = lookup_object Blob s h" using stored_atD(1) [OF a(1) assms] .
  from a(2) have "d' = d" "r = read_bytes (key_path rt Blob h) d" by (auto simp: local_read_blob_def asksS_def)
  then show "(\<exists>s'. (open_blob s h, s) = (r, s') \<and> stored_at rt d' s') \<or> r \<in> {Inl OSError, Inl UnicodeDecodeError} \<and> stored_at rt d' s"
    using a(1) eq [symmetric] by (auto simp: open_blob_def file_in_def read_bytes_def split: option.splits fs.splits)
qed

text \<open>A write into place, after the directories above it.\<close>

lemma place_stored:
  assumes "stored_at rt d s" "local_id k i"
    and "bindS (lift_fs (make_dirs (butlast (key_path rt k i)))) (\<lambda>_. lift_fs (put_file (key_path rt k i) payload clock)) d = (r, d')"
  shows "r = Inr () \<and> stored_at rt d' (put_object k i payload s) \<or> r = Inl OSError \<and> stored_at rt d' s"
proof -
  obtain q d1 where dirs: "lift_fs (make_dirs (butlast (key_path rt k i))) d = (q, d1)" by fastforce
  note P = parent_dirs_stored [OF assms(1,2) dirs]
  from P(2) show ?thesis
  proof (elim insertE)
    assume q: "q = Inr ()"
    with assms(3) dirs have "lift_fs (put_file (key_path rt k i) payload clock) d1 = (r, d')" by (simp add: bindS_def)
    from put_stored [OF P(1) assms(2) this] P(1) show ?thesis by blast
  qed (use assms(3) dirs P(1) in \<open>auto simp: bindS_def\<close>)
qed

lemma refines_write_commit:
  assumes "local_id Commit i"
  shows "refines rt (local_write_commit rt clock i payload True) (write_new_commit i payload)"
    "refines rt (local_write_commit rt clock i payload False) (put_commit i payload)"
proof -
  have run: "(\<exists>s'. (if m then write_new_commit i payload s else put_commit i payload s) = (r, s') \<and> stored_at rt d' s') \<or>
      r \<in> {Inl OSError, Inl UnicodeDecodeError} \<and> stored_at rt d' s"
    if a: "stored_at rt d s" "local_write_commit rt clock i payload m d = (r, d')"
    for m d r d' and s :: "'z repo_store_scheme"
  proof (cases "m \<and> object_exists Commit s i")
    case True
    with a stored_atD(2) [OF a(1) assms] show ?thesis by (auto simp: local_write_commit_def write_new_commit_def)
  next
    case False
    with a stored_atD(2) [OF a(1) assms] have "atomic_write clock (key_path rt Commit i) payload d = (r, d')"
      by (auto simp: local_write_commit_def split: if_splits)
    from place_stored [OF a(1) assms this [unfolded atomic_write_def]] False show ?thesis
      by (auto simp: write_new_commit_def put_commit_def put_object_def)
  qed
  show "refines rt (local_write_commit rt clock i payload True) (write_new_commit i payload)"
    using run [of _ _ True] by (intro refinesI) simp
  show "refines rt (local_write_commit rt clock i payload False) (put_commit i payload)"
    using run [of _ _ False] by (intro refinesI) simp
qed

lemma write_missing_stored:
  assumes "stored_at rt d s" "local_id k i" "k \<noteq> Ref"
    and "bindS (lift_fs (make_dirs (butlast (key_path rt k i)))) (\<lambda>_ d.
       if fs_at d (key_path rt k i) \<noteq> None then (Inr (), d) else m d) d = (r, d')"
    and "\<And>d r d'. stored_at rt d s \<Longrightarrow> m d = (r, d') \<Longrightarrow>
       r = Inr () \<and> stored_at rt d' (put_object k i payload s) \<or> r = Inl OSError \<and> stored_at rt d' s"
  shows "(\<exists>s'. write_missing k i payload s = (r, s') \<and> stored_at rt d' s') \<or> r = Inl OSError \<and> stored_at rt d' s"
proof -
  obtain q d1 where dirs: "lift_fs (make_dirs (butlast (key_path rt k i))) d = (q, d1)" by fastforce
  note P = parent_dirs_stored [OF assms(1,2) dirs] and E = stored_atD(2) [OF _ assms(2,3)]
  from P(2) show ?thesis
  proof (elim insertE)
    assume q: "q = Inr ()"
    show ?thesis
    proof (cases "object_exists k s i")
      case True
      with assms(4) dirs q P(1) E [OF P(1)] show ?thesis by (auto simp: bindS_def write_missing_def)
    next
      case False
      with assms(4) dirs q E [OF P(1)] have "m d1 = (r, d')" by (auto simp: bindS_def)
      from assms(5) [OF P(1) this] False show ?thesis by (auto simp: write_missing_def)
    qed
  qed (use assms(4) dirs P(1) in \<open>auto simp: bindS_def\<close>)
qed

lemma refines_write_tree:
  assumes "local_id Tree i"
  shows "refines rt (local_write_tree rt clock i payload True) (write_missing Tree i payload)"
proof (rule refinesI)
  fix d and s :: "'z repo_store_scheme" and r d'
  assume a: "stored_at rt d s" "local_write_tree rt clock i payload True d = (r, d')"
  have placed: "r = Inr () \<and> stored_at rt d' (put_object Tree i payload s) \<or> r = Inl OSError \<and> stored_at rt d' s"
    if "stored_at rt d s" "atomic_write clock (key_path rt Tree i) payload d = (r, d')" for d r d'
    using place_stored [OF that(1) assms that(2) [unfolded atomic_write_def]] .
  from a(2) have "bindS (lift_fs (make_dirs (butlast (key_path rt Tree i)))) (\<lambda>_ d.
      if fs_at d (key_path rt Tree i) \<noteq> None then (Inr (), d) else atomic_write clock (key_path rt Tree i) payload d) d = (r, d')"
    by (simp add: local_write_tree_def)
  from write_missing_stored [OF a(1) assms _ this placed]
  show "(\<exists>s'. write_missing Tree i payload s = (r, s') \<and> stored_at rt d' s') \<or>
      r \<in> {Inl OSError, Inl UnicodeDecodeError} \<and> stored_at rt d' s"
    by auto
qed

lemma refines_move_file:
  assumes "local_id k i" "k \<noteq> Ref"
  shows "refines rt (local_move_file rt k i content mtime True) (write_missing k i content)"
proof (rule refinesI)
  fix d and s :: "'z repo_store_scheme" and r d'
  assume a: "stored_at rt d s" "local_move_file rt k i content mtime True d = (r, d')"
  have placed: "r = Inr () \<and> stored_at rt d' (put_object k i content s) \<or> r = Inl OSError \<and> stored_at rt d' s"
    if "stored_at rt d s" "lift_fs (put_file (key_path rt k i) content mtime) d = (r, d')" for d r d'
    using put_stored [OF that(1) assms(1) that(2)] that(1) by blast
  from a(2) have "bindS (lift_fs (make_dirs (butlast (key_path rt k i)))) (\<lambda>_ d.
      if fs_at d (key_path rt k i) \<noteq> None then (Inr (), d) else lift_fs (put_file (key_path rt k i) content mtime) d) d = (r, d')"
    by (simp add: local_move_file_def)
  from write_missing_stored [OF a(1) assms this placed]
  show "(\<exists>s'. write_missing k i content s = (r, s') \<and> stored_at rt d' s') \<or>
      r \<in> {Inl OSError, Inl UnicodeDecodeError} \<and> stored_at rt d' s"
    by auto
qed

lemma refines_write_blob:
  assumes "local_id Blob h"
  shows "refines rt (local_write_blob P rt clock h payload True) (write_blob P h payload True)"
proof (rule refinesI)
  fix d and s :: "'z repo_store_scheme" and r d'
  assume a: "stored_at rt d s" "local_write_blob P rt clock h payload True d = (r, d')"
  obtain q d1 where dirs: "lift_fs (make_dirs (butlast (key_path rt Blob h))) d = (q, d1)" by fastforce
  note D = parent_dirs_stored [OF a(1) assms dirs] and E = stored_atD(2) [OF _ assms]
  show "(\<exists>s'. write_blob P h payload True s = (r, s') \<and> stored_at rt d' s') \<or>
      r \<in> {Inl OSError, Inl UnicodeDecodeError} \<and> stored_at rt d' s"
  proof (cases "object_exists Blob s h")
    case True
    with a E [OF a(1)] show ?thesis by (auto simp: local_write_blob_def write_blob_def)
  next
    case False
    with a E [OF a(1)] dirs have step: "(case q of Inl e \<Rightarrow> (Inl e, d1) | Inr u \<Rightarrow>
        (if blake3 P payload \<noteq> h then raiseS ValueError
          else (\<lambda>d. if fs_at d (key_path rt Blob h) \<noteq> None then (Inr (), d)
                    else lift_fs (put_file (key_path rt Blob h) payload clock) d)) d1) = (r, d')"
      by (auto simp: local_write_blob_def bindS_def split: if_splits)
    consider "q = Inl OSError" | "q = Inr ()" "blake3 P payload \<noteq> h" | "q = Inr ()" "blake3 P payload = h" using D(2) by blast
    then show ?thesis
    proof cases
      case 3
      with step False E [OF D(1)] have "lift_fs (put_file (key_path rt Blob h) payload clock) d1 = (r, d')" by auto
      from put_stored [OF D(1) assms this] D(1) False 3(2) show ?thesis by (auto simp: write_blob_def put_object_def)
    qed (use step False D(1) in \<open>auto simp: write_blob_def\<close>)
  qed
qed

section \<open>Branches\<close>

lemma read_branch_stored:
  assumes "stored_at rt d s" "local_id Ref b" "local_read_branch_ref rt b d = (r, d')"
  shows "d' = d" "r = Inr (read_branch_ref s b) \<or> r \<in> {Inl OSError, Inl UnicodeDecodeError}"
proof -
  have eq: "map_of (rs_refs s) b = map_option fst (file_in d (key_path rt Ref b))"
    using stored_atD(1) [OF assms(1,2)] by (simp add: lookup_object_def)
  show "d' = d" using assms(3) by (auto simp: local_read_branch_ref_def asksS_def)
  show "r = Inr (read_branch_ref s b) \<or> r \<in> {Inl OSError, Inl UnicodeDecodeError}"
    using assms(3) by (auto simp: local_read_branch_ref_def asksS_def read_branch_ref_def eq file_in_def Let_def
      split: option.splits fs.splits if_splits)
qed

lemma open_lock_stored:
  assumes "stored_at rt d s" "open_lock rt clock d = (r, d')"
  shows "stored_at rt d' s" "r \<in> {Inr (), Inl OSError}"
proof -
  let ?up = "rt @ [''.reflake'', ''refs'']" and ?lock = "rt @ [''.reflake'', ''refs'', ''.lock'']"
  have run: "open_lock rt clock d = (case lift_fs (make_dirs ?up) d of
      (Inl e, d1) \<Rightarrow> (Inl e, d1)
    | (Inr u, d1) \<Rightarrow>
        (case fs_at d1 ?lock of None \<Rightarrow> lift_fs (put_file ?lock [] clock) d1 | Some (File b m) \<Rightarrow> (Inr (), d1) | _ \<Rightarrow> (Inl OSError, d1)))"
    unfolding open_lock_def Let_def bindS_def by (simp add: butlast_append split: prod.splits sum.splits)
  have opened: "stored_at rt d' s \<and> r \<in> {Inr (), Inl OSError}"
    if "stored_at rt d1 s" "lift_fs (put_file ?lock [] clock) d1 = (r, d')" for d1
  proof (cases "put_file ?lock [] clock d1")
    case (Inl e)
    with that file_errors(2) [OF Inl] show ?thesis by (simp add: lift_fs_def)
  next
    case put: (Inr d2)
    with that(2) have r: "r = Inr ()" "d' = d2" by (simp_all add: lift_fs_def)
    have "stored_at rt d2 s"
    proof (rule stored_at_step [OF that(1)])
      show "file_in d2 (key_path rt k i) = file_in d1 (key_path rt k i)" if "local_id k i" for k i
        using put_file_at [OF put, of "key_path rt k i"] lock_is_apart(1) [OF that] by simp
      show "fs_at d1 (key_path rt k i) \<noteq> None" if "local_id k i" "fs_at d2 (key_path rt k i) \<noteq> None" for k i
        using put_file_new [OF put that(2)] lock_is_apart(1) [OF that(1)] by blast
    qed
    with r show ?thesis by simp
  qed
  have all: "stored_at rt d' s \<and> r \<in> {Inr (), Inl OSError}"
  proof (cases "make_dirs ?up d")
    case (Inl e)
    with assms run file_errors(1) [OF Inl] show ?thesis by (simp add: lift_fs_def)
  next
    case (Inr d1)
    have 1: "stored_at rt d1 s"
    proof (rule stored_at_step [OF assms(1)])
      show "file_in d1 (key_path rt k i) = file_in d (key_path rt k i)" for k i using make_dirs_at [OF Inr] by simp
      show "fs_at d (key_path rt k i) \<noteq> None" if "local_id k i" "k \<noteq> Ref" "fs_at d1 (key_path rt k i) \<noteq> None" for k i
        using make_dirs_new [OF Inr that(3)] lock_is_apart(2) [OF that(1,2)] by blast
    qed
    from Inr have "lift_fs (make_dirs ?up) d = (Inr (), d1)" by (simp add: lift_fs_def)
    with run assms(2) have step: "(r, d') = (case fs_at d1 ?lock of None \<Rightarrow> lift_fs (put_file ?lock [] clock) d1
        | Some (File b m) \<Rightarrow> (Inr (), d1) | _ \<Rightarrow> (Inl OSError, d1))" by simp
    show ?thesis
    proof (cases "fs_at d1 ?lock")
      case None
      with step opened [OF 1] show ?thesis by simp
    next
      case (Some x)
      with step 1 show ?thesis by (cases x) simp_all
    qed
  qed
  then show "stored_at rt d' s" "r \<in> {Inr (), Inl OSError}" by simp_all
qed

text \<open>A branch that is written is not in the way of another.\<close>

lemma key_path_below: "key_path rt Ref (b @ CHR ''/'' # t) = key_path rt Ref b @ split_path t" if "b \<noteq> []"
  using that split_on_middle [of "CHR ''/''" b t] by (simp add: key_path_eqs(5) split_path_def)

lemma written_branch_free:
  assumes "stored_at rt d s" "local_id Ref b" "put_file (key_path rt Ref b) payload clock d = Inr d'"
  shows "\<not> path_blocked (map fst (rs_refs s)) b"
proof
  assume "path_blocked (map fst (rs_refs s)) b"
  then obtain other where other: "other \<in> fst ` set (rs_refs s)" "prefix (b @ ''/'') other \<or> prefix (other @ ''/'') b"
    by (auto simp: path_blocked_def)
  have id: "local_id Ref other" using stored_atD(3) [OF assms(1) other(1)] .
  from other(1) obtain v where "map_of (rs_refs s) other = Some v" by (metis map_of_eq_None_iff option.exhaust)
  with stored_atD(1) [OF assms(1) id] have there: "file_in d (key_path rt Ref other) \<noteq> None" by (auto simp: lookup_object_def)
  have ne: "b \<noteq> []" "other \<noteq> []" using local_id_ne assms(2) id by blast+
  note free = put_file_free [OF assms(3)]
  from other(2) consider t where "other = b @ CHR ''/'' # t" | t where "b = other @ CHR ''/'' # t" by (auto simp: prefix_def)
  then show False
  proof cases
    case (1 t)
    have "split_path t \<noteq> []" by (simp add: split_path_def)
    then obtain x xs where "split_path t = x # xs" by (cases "split_path t") auto
    with 1 there free [of x xs] key_path_below [OF ne(1), of rt t] show False by simp
  next
    case (2 t)
    have "split_path t \<noteq> []" by (simp add: split_path_def)
    then obtain x xs where "split_path t = x # xs" by (cases "split_path t") auto
    with 2 there free key_path_below [OF ne(2), of rt t] show False by auto
  qed
qed

lemma refines_write_branch:
  assumes "local_id Ref b"
  shows "refines rt (local_write_branch_ref rt clock b commit_id) (write_branch_ref b commit_id)"
proof (rule refinesI)
  fix d and s :: "'z repo_store_scheme" and r d'
  let ?p = "case commit_id of None \<Rightarrow> [] | Some c \<Rightarrow> if c = [] then [] else c @ [CHR 0x0A]"
  assume a: "stored_at rt d s" "local_write_branch_ref rt clock b commit_id d = (r, d')"
  then have run: "bindS (lift_fs (make_dirs (butlast (key_path rt Ref b)))) (\<lambda>_. lift_fs (put_file (key_path rt Ref b) ?p clock)) d = (r, d')"
    by (simp add: local_write_branch_ref_def atomic_write_def)
  show "(\<exists>s'. write_branch_ref b commit_id s = (r, s') \<and> stored_at rt d' s') \<or>
      r \<in> {Inl OSError, Inl UnicodeDecodeError} \<and> stored_at rt d' s"
  proof (cases "r = Inr ()")
    case True
    with run obtain d1 where "lift_fs (make_dirs (butlast (key_path rt Ref b))) d = (Inr (), d1)"
      "put_file (key_path rt Ref b) ?p clock d1 = Inr d'" by (auto simp: bindS_Inr lift_fs_def split: sum.splits)
    then have "\<not> path_blocked (map fst (rs_refs s)) b"
      using written_branch_free [OF parent_dirs_stored(1) [OF a(1) assms] assms] by blast
    then have "write_branch_ref b commit_id s = (Inr (), put_object Ref b ?p s)"
      by (simp add: write_branch_ref_def put_object_def)
    with place_stored [OF a(1) assms run] True show ?thesis by auto
  qed (use place_stored [OF a(1) assms run] in auto)
qed

lemma refines_compare_and_set:
  assumes "local_id Ref b"
  shows "refines rt (local_compare_and_set rt clock b new expd) (compare_and_set_branch_ref b new expd)"
proof (rule refinesI)
  fix d and s :: "'z repo_store_scheme" and r d'
  assume a: "stored_at rt d s" "local_compare_and_set rt clock b new expd d = (r, d')"
  obtain q d1 where lock: "open_lock rt clock d = (q, d1)" by fastforce
  note L = open_lock_stored [OF a(1) lock]
  obtain c d2 where read: "local_read_branch_ref rt b d1 = (c, d2)" by fastforce
  note R = read_branch_stored [OF L(1) assms read]
  from L(2) consider "q = Inl OSError" | "q = Inr ()" "c \<in> {Inl OSError, Inl UnicodeDecodeError}"
    | "q = Inr ()" "c = Inr (read_branch_ref s b)" using R(2) by blast
  then show "(\<exists>s'. compare_and_set_branch_ref b new expd s = (r, s') \<and> stored_at rt d' s') \<or>
      r \<in> {Inl OSError, Inl UnicodeDecodeError} \<and> stored_at rt d' s"
  proof cases
    case 3
    show ?thesis
    proof (cases "head_of (read_branch_ref s b) = expd")
      case False
      with 3 a(2) lock read R(1) L(1) show ?thesis
        by (auto simp: local_compare_and_set_def bindS_def compare_and_set_branch_ref_def)
    next
      case True
      with 3 a(2) lock read R(1) have run: "bindS (local_write_branch_ref rt clock b new) (\<lambda>_. returnS True) d1 = (r, d')"
        by (auto simp: local_compare_and_set_def bindS_def)
      obtain w d3 where w: "local_write_branch_ref rt clock b new d1 = (w, d3)" by fastforce
      with run have r: "d' = d3" "r = map_sum id (\<lambda>_. True) w" by (auto simp: bindS_def split: sum.splits)
      have "(\<exists>s'. write_branch_ref b new s = (w, s') \<and> stored_at rt d3 s') \<or> w \<in> {Inl OSError, Inl UnicodeDecodeError} \<and> stored_at rt d3 s"
        using refines_write_branch [OF assms, of rt clock new] L(1) w unfolding refines_def by blast
      then show ?thesis
      proof
        assume "\<exists>s'. write_branch_ref b new s = (w, s') \<and> stored_at rt d3 s'"
        with True r show ?thesis by (cases w) (auto simp: compare_and_set_branch_ref_def bindS_def)
      qed (use r in auto)
    qed
  qed (use a(2) lock read R(1) L(1) in \<open>auto simp: local_compare_and_set_def bindS_def\<close>)
qed

section \<open>Deletions and the inventory\<close>

text \<open>What is deleted is some of the objects asked for, all of them unless the file system failed.\<close>

lemma remove_stored:
  assumes "stored_at rt d s" "local_id k i" "k \<noteq> Ref" "remove_file (key_path rt k i) d = Inr d'"
  shows "stored_at rt d' (snd (delete_objects k [i] s))"
  unfolding stored_at_def
proof (intro conjI allI impI ballI)
  note at = remove_file_at [OF assms(4)]
  fix k' i' assume id: "local_id k' i'"
  have same: "key_path rt k' i' = key_path rt k i \<longleftrightarrow> k' = k \<and> i' = i" using key_path_inj [OF _ id assms(2)] by blast
  show "map_option fst (file_in d' (key_path rt k' i')) = lookup_object k' (snd (delete_objects k [i] s)) i'"
    using at [of "key_path rt k' i'"] stored_atD(1) [OF assms(1) id] same by (auto simp: delete_objects_lookup)
  show "file_in d' (key_path rt k' i') \<noteq> None" if "k' \<noteq> Ref" "fs_at d' (key_path rt k' i') \<noteq> None"
    using at [of "key_path rt k' i'"] assms(1) id that unfolding stored_at_def by auto
next
  fix b assume "b \<in> fst ` set (rs_refs (snd (delete_objects k [i] s)))"
  with assms(3) have "b \<in> fst ` set (rs_refs s)" by (cases k) (auto simp: delete_objects_def)
  then show "local_id Ref b" by (rule stored_atD(3) [OF assms(1)])
qed

lemma delete_append: "snd (delete_objects k (is @ js) s) = snd (delete_objects k js (snd (delete_objects k is s)))"
  by (cases k) (auto simp: delete_objects_def drop_keys_def fun_eq_iff intro!: filter_cong repo_store.equality)

lemma delete_none: "snd (delete_objects k [] s) = s"
  by (cases k) (simp_all add: delete_objects_def drop_keys_def)

lemma removals_stored:
  assumes "stored_at rt d s" "\<forall>i \<in> set ids. local_id k i" "k \<noteq> Ref"
    and "foldS (\<lambda>u i. lift_fs (remove_file (key_path rt k i))) () ids d = (r, d')"
  shows "\<exists>gone rest. ids = gone @ rest \<and> stored_at rt d' (snd (delete_objects k gone s)) \<and>
    (r = Inr () \<and> rest = [] \<or> r = Inl OSError)"
  using assms(1,2,4)
proof (induction ids arbitrary: d s)
  case Nil
  then show ?case by (auto simp: delete_none)
next
  case (Cons i ids)
  show ?case
  proof (cases "remove_file (key_path rt k i) d")
    case (Inl e)
    with Cons.prems have "r = Inl e" "d' = d" by (simp_all add: bindS_def lift_fs_def)
    moreover have "stored_at rt d (snd (delete_objects k [] s))" using Cons.prems(1) by (simp add: delete_none)
    ultimately show ?thesis using file_errors(3) [OF Inl] by (intro exI [of _ "[]"] exI [of _ "i # ids"]) simp
  next
    case (Inr d1)
    then have "lift_fs (remove_file (key_path rt k i)) d = (Inr (), d1)" by (simp add: lift_fs_def)
    with Cons.prems have rest: "foldS (\<lambda>u i. lift_fs (remove_file (key_path rt k i))) () ids d1 = (r, d')"
      by (simp add: bindS_def)
    have "stored_at rt d1 (snd (delete_objects k [i] s))" using remove_stored [OF Cons.prems(1) _ assms(3) Inr] Cons.prems(2) by simp
    from Cons.IH [OF this _ rest] Cons.prems(2) obtain dn rs where "ids = dn @ rs"
      "stored_at rt d' (snd (delete_objects k dn (snd (delete_objects k [i] s))))" "r = Inr () \<and> rs = [] \<or> r = Inl OSError" by auto
    with delete_append [of k "[i]" dn s] show ?thesis by (intro exI [of _ "i # dn"] exI [of _ rs]) simp
  qed
qed

lemma remove_empty_stored:
  assumes "stored_at rt d s"
  shows "stored_at rt (foldr (\<lambda>i. remove_empty (p i)) is d) s"
proof (induction "is")
  case (Cons i "is")
  show ?case
    by (simp, rule stored_at_step [OF Cons]) (use remove_empty_at in blast)+
qed (simp add: assms)

lemma delete_stored:
  assumes "stored_at rt d s" "\<forall>i \<in> set ids. local_id k i" "k \<noteq> Ref" "local_delete rt k ids d = (r, d')"
  shows "\<exists>gone rest. ids = gone @ rest \<and> stored_at rt d' (snd (delete_objects k gone s)) \<and>
    (r = Inr (length ids) \<and> rest = [] \<or> r = Inl OSError)"
proof -
  obtain q d1 where run: "foldS (\<lambda>u i. lift_fs (remove_file (key_path rt k i))) () ids d = (q, d1)" by fastforce
  from removals_stored [OF assms(1-3) run] obtain dn rs where
    dn: "ids = dn @ rs" "stored_at rt d1 (snd (delete_objects k dn s))" "q = Inr () \<and> rs = [] \<or> q = Inl OSError" by blast
  from dn(3) show ?thesis
  proof
    assume q: "q = Inr () \<and> rs = []"
    with assms(4) run have "r = Inr (length ids)"
      "d' = (if k = Blob then foldr (\<lambda>i. remove_empty (butlast (key_path rt k i))) ids d1 else d1)"
      by (simp_all add: local_delete_def bindS_def)
    with q dn remove_empty_stored [OF dn(2)] show ?thesis by (intro exI [of _ ids] exI [of _ "[]"]) auto
  next
    assume q: "q = Inl OSError"
    with assms(4) run have "r = Inl OSError" "d' = d1" by (simp_all add: local_delete_def bindS_def)
    with dn show ?thesis by blast
  qed
qed

text \<open>Every object is in the inventory.\<close>

lemma fs_at_listing: "fs_at d (ps @ [n]) = Some x \<Longrightarrow> (n, x) \<in> set (listing_of d ps)"
proof -
  assume "fs_at d (ps @ [n]) = Some x"
  then obtain e where e: "fs_at d ps = Some e" "fs_at e [n] = Some x" by (auto simp: fs_at_append split: option.splits)
  then show ?thesis by (cases e) (auto simp: listing_of_def map_of_SomeD split: option.splits)
qed

lemma inventory_complete:
  assumes "stored_at rt d s" "local_id k i" "k \<noteq> Ref" "object_exists k s i"
  shows "\<exists>m. (i, m) \<in> set (local_inventory stat_other rt d k)"
proof -
  from assms stored_atD(2) [OF assms(1-3)] obtain x where x: "fs_at d (key_path rt k i) = Some x" by auto
  have hex: "is_hex_digest i" using assms(2,3) by (simp add: local_id_def)
  have split: "rt @ [a, b, c] = (rt @ [a, b]) @ [c]" "rt @ [a, b, c, e] = ((rt @ [a, b]) @ [c]) @ [e]" for a b c e by simp_all
  show ?thesis
  proof (cases k)
    case Tree
    with x hex fs_at_listing [of d "rt @ [''.reflake'', ''trees'']" i x] show ?thesis
      by (auto simp: local_inventory_def key_path_eqs intro!: image_eqI exI)
  next
    case Footer
    with x hex fs_at_listing [of d "rt @ [''.reflake'', ''footers'']" i x] show ?thesis
      by (auto simp: local_inventory_def key_path_eqs intro!: image_eqI exI)
  next
    case Commit
    with x hex have "(i @ ''.json'', x) \<in> set (listing_of d (rt @ [''.reflake'', ''commits'']))"
      using fs_at_listing [of d "rt @ [''.reflake'', ''commits'']" "i @ ''.json''" x] by (simp add: key_path_eqs)
    moreover have "path_stem (i @ ''.json'') = i" using hex_digest_parts [OF hex] by (simp add: path_stem_def)
    ultimately show ?thesis using Commit
      by (auto simp: local_inventory_def suffix_def intro!: exI image_eqI [where x = "(i @ ''.json'', x)"])
  next
    case Blob
    with x hex have at: "fs_at d (((rt @ [''.reflake'', ''blobs'']) @ [take 2 i]) @ [drop 2 i]) = Some x" by (simp add: key_path_eqs)
    then obtain e where e: "fs_at d ((rt @ [''.reflake'', ''blobs'']) @ [take 2 i]) = Some e" "fs_at e [drop 2 i] = Some x"
      unfolding fs_at_append [of d "(rt @ [''.reflake'', ''blobs'']) @ [take 2 i]"] by (auto split: option.splits)
    from e(2) obtain kvs where kvs: "e = Dir kvs" "(drop 2 i, x) \<in> set kvs" by (cases e) (auto simp: map_of_SomeD split: option.splits)
    have "(take 2 i, Dir kvs) \<in> set (listing_of d (rt @ [''.reflake'', ''blobs'']))" using fs_at_listing [OF e(1)] kvs(1) by simp
    moreover have "(i, mtime_of stat_other x) \<in> set (map (\<lambda>(name, x). (take 2 i @ name, mtime_of stat_other x)) (sort_key fst kvs))"
      using kvs(2) by (auto intro!: image_eqI [where x = "(drop 2 i, x)"])
    ultimately show ?thesis using Blob
      by (force simp: local_inventory_def)
  qed (use assms in simp)
qed

section \<open>When the file system cannot fail\<close>

text \<open>Nothing but directories on the way.\<close>

definition only_dirs :: "fs \<Rightarrow> string list \<Rightarrow> bool" where
  "only_dirs d path \<longleftrightarrow>
     (\<forall>n \<le> length path. case fs_at d (take n path) of None \<Rightarrow> True | Some (Dir kvs) \<Rightarrow> True | _ \<Rightarrow> False)"

lemma only_dirs_Cons:
  assumes "only_dirs d (p # ps)"
  obtains kvs where "d = Dir kvs" "only_dirs (case map_of kvs p of None \<Rightarrow> Dir [] | Some e \<Rightarrow> e) ps"
proof -
  from assms have at: "n \<le> length ps \<Longrightarrow>
      case fs_at d (p # take n ps) of None \<Rightarrow> True | Some (Dir kvs) \<Rightarrow> True | _ \<Rightarrow> False" for n
    unfolding only_dirs_def by (auto dest: spec [of _ "Suc n"])
  from assms obtain kvs where d: "d = Dir kvs" unfolding only_dirs_def
    by (cases d) (auto dest: spec [of _ 0])
  have empty: "fs_at (Dir []) qs = (if qs = [] then Some (Dir []) else None)" for qs by (cases qs) auto
  from at d have "only_dirs (case map_of kvs p of None \<Rightarrow> Dir [] | Some e \<Rightarrow> e) ps"
    unfolding only_dirs_def by (cases "map_of kvs p") (auto simp: empty)
  with d that show ?thesis by blast
qed

lemma make_dirs_ok: "only_dirs d qs \<Longrightarrow> \<exists>d' kvs. make_dirs qs d = Inr d' \<and> fs_at d' qs = Some (Dir kvs)"
proof (induction qs arbitrary: d)
  case Nil
  then show ?case by (cases d) (auto simp: only_dirs_def)
next
  case (Cons q qs)
  from Cons.prems obtain kvs where d: "d = Dir kvs" "only_dirs (case map_of kvs q of None \<Rightarrow> Dir [] | Some e \<Rightarrow> e) qs"
    by (rule only_dirs_Cons)
  from Cons.IH [OF d(2)] d(1) show ?case by (auto simp: bindE_Inr_iff)
qed

lemma made_dirs:
  assumes "lift_fs (make_dirs qs) d = (Inr (), d')" "only_dirs d qs"
  shows "only_dirs d' qs"
  unfolding only_dirs_def
proof (intro allI impI)
  fix n assume "n \<le> length qs"
  from make_dirs_ok [OF assms(2)] assms(1) obtain kvs where "fs_at d' (take n qs @ drop n qs) = Some (Dir kvs)"
    by (auto simp: lift_fs_def)
  then obtain e where "fs_at d' (take n qs) = Some e" "fs_at e (drop n qs) = Some (Dir kvs)"
    unfolding fs_at_append by (auto split: option.splits)
  then show "case fs_at d' (take n qs) of None \<Rightarrow> True | Some (Dir kvs) \<Rightarrow> True | _ \<Rightarrow> False"
    by (cases e; cases "drop n qs") auto
qed

lemma put_file_ok:
  "fs_at d ps = Some (Dir kvs) \<Longrightarrow> \<forall>sub. fs_at d (ps @ [n]) \<noteq> Some (Dir sub) \<Longrightarrow> \<exists>d'. put_file (ps @ [n]) b clock d = Inr d'"
proof (induction ps arbitrary: d)
  case Nil
  then show ?case by (auto split: option.splits fs.splits)
next
  case (Cons p ps)
  then obtain es e where e: "d = Dir es" "map_of es p = Some e" "fs_at e ps = Some (Dir kvs)"
    by (cases d) (auto split: option.splits)
  with Cons obtain e' where "put_file (ps @ [n]) b clock e = Inr e'" by auto
  with e show ?case by (cases ps) auto
qed

lemma place_ok:
  assumes "stored_at rt d s" "local_id k i" "k \<noteq> Ref" "only_dirs d (butlast (key_path rt k i))"
  obtains d1 d' where "lift_fs (make_dirs (butlast (key_path rt k i))) d = (Inr (), d1)" "stored_at rt d1 s"
    "lift_fs (put_file (key_path rt k i) payload clock) d1 = (Inr (), d')"
proof -
  from make_dirs_ok [OF assms(4)] obtain d1 kvs where
    d1: "make_dirs (butlast (key_path rt k i)) d = Inr d1" "fs_at d1 (butlast (key_path rt k i)) = Some (Dir kvs)" by blast
  then have dirs: "lift_fs (make_dirs (butlast (key_path rt k i))) d = (Inr (), d1)" by (simp add: lift_fs_def)
  have ne: "butlast (key_path rt k i) @ [last (key_path rt k i)] = key_path rt k i"
    by (rule append_butlast_last_id) (simp add: key_path_def)
  have 1: "stored_at rt d1 s" by (rule parent_dirs_stored(1) [OF assms(1,2) dirs])
  have "\<forall>sub. fs_at d1 (key_path rt k i) \<noteq> Some (Dir sub)"
    using 1 assms(2,3) unfolding stored_at_def by (fastforce simp: file_in_def)
  with put_file_ok [OF d1(2), of "last (key_path rt k i)" payload clock] ne obtain d' where
    "put_file (key_path rt k i) payload clock d1 = Inr d'" by auto
  then show ?thesis using dirs 1 that by (simp add: lift_fs_def)
qed

lemma reads_answer:
  assumes "stored_at rt d s" "local_id k i" "k \<noteq> Ref"
  shows "local_read rt k i d = (Inr (lookup_object k s i), d)"
    "local_object_exists rt k i d = (Inr (object_exists k s i), d)"
    "k = Blob \<Longrightarrow> local_read_blob rt i d = (open_blob s i, d)"
proof -
  have eq: "map_option fst (file_in d (key_path rt k i)) = lookup_object k s i" using stored_atD(1) [OF assms(1,2)] .
  have here: "fs_at d (key_path rt k i) \<noteq> None \<longleftrightarrow> file_in d (key_path rt k i) \<noteq> None"
    using stored_atD(2) [OF assms] unfolding object_exists_def eq [symmetric] by simp
  show "local_read rt k i d = (Inr (lookup_object k s i), d)"
    using here unfolding eq [symmetric] by (auto simp: local_read_def asksS_def file_in_def read_bytes_def split: option.splits fs.splits)
  show "local_object_exists rt k i d = (Inr (object_exists k s i), d)"
    using stored_atD(2) [OF assms] by (simp add: local_object_exists_def asksS_def)
  show "local_read_blob rt i d = (open_blob s i, d)" if "k = Blob"
    using here eq that
    by (auto simp: local_read_blob_def asksS_def open_blob_def file_in_def read_bytes_def split: option.splits fs.splits dest: sym)
qed

lemma writes_answer:
  assumes "stored_at rt d s" "is_hex_digest h" "k \<noteq> Ref" "only_dirs d (butlast (key_path rt k h))"
  shows "k = Blob \<Longrightarrow> fst (local_write_blob P rt clock h payload True d) = fst (write_blob P h payload True s)"
    "k = Tree \<Longrightarrow> fst (local_write_tree rt clock h payload True d) = Inr ()"
    "k = Commit \<Longrightarrow> fst (local_write_commit rt clock h payload True d) = fst (write_new_commit h payload s)"
    "fst (local_move_file rt k h payload mtime True d) = Inr ()"
proof -
  have id: "local_id k h" using assms(2,3) by (simp add: local_id_def)
  note place = place_ok [OF assms(1) id assms(3,4)]
  have E: "fs_at e (key_path rt k h) \<noteq> None \<longleftrightarrow> object_exists k s h" if "stored_at rt e s" for e
    by (rule stored_atD(2) [OF that id assms(3)])
  show "fst (local_write_blob P rt clock h payload True d) = fst (write_blob P h payload True s)" if "k = Blob"
  proof (rule place [of payload clock])
    fix d1 d' assume a: "lift_fs (make_dirs (butlast (key_path rt k h))) d = (Inr (), d1)" "stored_at rt d1 s"
      "lift_fs (put_file (key_path rt k h) payload clock) d1 = (Inr (), d')"
    show ?thesis using a E [OF a(2)] E [OF assms(1)] that by (auto simp: local_write_blob_def write_blob_def bindS_def)
  qed
  show "fst (local_write_tree rt clock h payload True d) = Inr ()" if "k = Tree"
  proof (rule place [of payload clock])
    fix d1 d' assume a: "lift_fs (make_dirs (butlast (key_path rt k h))) d = (Inr (), d1)" "stored_at rt d1 s"
      "lift_fs (put_file (key_path rt k h) payload clock) d1 = (Inr (), d')"
    have "only_dirs d1 (butlast (key_path rt k h))" by (rule made_dirs [OF a(1) assms(4)])
    from place_ok [OF a(2) id assms(3) this, of payload clock] obtain d2 d3 where
      "lift_fs (make_dirs (butlast (key_path rt k h))) d1 = (Inr (), d2)" "lift_fs (put_file (key_path rt k h) payload clock) d2 = (Inr (), d3)" .
    then show ?thesis using a that by (simp add: local_write_tree_def bindS_def atomic_write_def)
  qed
  show "fst (local_write_commit rt clock h payload True d) = fst (write_new_commit h payload s)" if "k = Commit"
  proof (rule place [of payload clock])
    fix d1 d' assume a: "lift_fs (make_dirs (butlast (key_path rt k h))) d = (Inr (), d1)" "stored_at rt d1 s"
      "lift_fs (put_file (key_path rt k h) payload clock) d1 = (Inr (), d')"
    show ?thesis using a E [OF assms(1)] that by (auto simp: local_write_commit_def write_new_commit_def bindS_def atomic_write_def)
  qed
  show "fst (local_move_file rt k h payload mtime True d) = Inr ()"
  proof (rule place [of payload mtime])
    fix d1 d' assume a: "lift_fs (make_dirs (butlast (key_path rt k h))) d = (Inr (), d1)" "stored_at rt d1 s"
      "lift_fs (put_file (key_path rt k h) payload mtime) d1 = (Inr (), d')"
    show ?thesis using a by (simp add: local_move_file_def bindS_def)
  qed
qed

text \<open>The layout of an empty directory stores the empty store, and initialisation keeps what is there.\<close>

lemma layout_stored:
  assumes "stored_at rt d s" "initialize_layout rt d = (r, d')"
  shows "stored_at rt d' s"
proof -
  have "stored_at rt d' s" if "\<forall>x \<in> set ds. x \<in> set layout_dirs" "stored_at rt d s"
    "foldS (\<lambda>u dir. lift_fs (make_dirs (rt @ ''.reflake'' # dir))) () ds d = (r, d')" for ds d
    using that
  proof (induction ds arbitrary: d)
    case (Cons x xs)
    show ?case
    proof (cases "make_dirs (rt @ ''.reflake'' # x) d")
      case (Inl e)
      with Cons.prems show ?thesis by (simp add: bindS_def lift_fs_def)
    next
      case (Inr d1)
      have "stored_at rt d1 s"
      proof (rule stored_at_step [OF Cons.prems(2)])
        show "file_in d1 (key_path rt k i) = file_in d (key_path rt k i)" for k i using make_dirs_at [OF Inr] by simp
        fix k i assume id: "local_id k i" "k \<noteq> Ref" "fs_at d1 (key_path rt k i) \<noteq> None"
        then have "is_hex_digest i" by (simp add: local_id_def)
        moreover have "x \<noteq> a # b # t \<or> a = ''refs''" for a b t
          using Cons.prems(1) by (auto simp: layout_dirs_def)
        ultimately have "\<not> prefix (key_path rt k i) (rt @ ''.reflake'' # x)"
          using id(2) by (cases k) (auto simp: key_path_eqs prefix_def)
        with make_dirs_new [OF Inr id(3)] show "fs_at d (key_path rt k i) \<noteq> None" by blast
      qed
      moreover from Inr have "lift_fs (make_dirs (rt @ ''.reflake'' # x)) d = (Inr (), d1)" by (simp add: lift_fs_def)
      with Cons.prems(3) have "foldS (\<lambda>u dir. lift_fs (make_dirs (rt @ ''.reflake'' # dir))) () xs d1 = (r, d')"
        by (simp add: bindS_def)
      ultimately show ?thesis using Cons.IH Cons.prems(1) by simp
    qed
  qed simp
  from this [of layout_dirs d] assms show ?thesis by (simp add: initialize_layout_def)
qed

lemma empty_stored:
  assumes "fs_at d (rt @ [''.reflake'']) = None" "rs_refs s = []" "\<forall>k i. lookup_object k s i = None"
  shows "stored_at rt d s"
proof -
  have "key_path rt k i = (rt @ [''.reflake'']) @ split_path (object_relative_key k i)" for k i by (simp add: key_path_def)
  then have "fs_at d (key_path rt k i) = None" for k i using assms(1) fs_at_append by (metis option.simps(4))
  then show ?thesis using assms(2,3) by (simp add: stored_at_def file_in_def)
qed

end
