(* ===== verification/Cli_Sample.thy ===== *)
theory Cli_Sample
  imports Cli_Spec Repo_Samples Local_Refine
begin

text \<open>
  A process of the command line at which the theorems about commands are applied: the repository
  is \<open>sample_repo\<close>, whose second commit is on no branch; the programs it may call refuse.
\<close>

definition sample_db :: duckdb where
  "sample_db = \<lparr>db_load = (\<lambda>old document. (Inr (), document)), db_copy = (\<lambda>b. Inr b), db_query = (\<lambda>b q. Inr [])\<rparr>"

definition sample_cli :: "(unit, unit) cli" where
  "sample_cli =
     \<lparr>cli_env = sample_env, cli_backend = (\<lambda>choice. NoBackend), cli_inventory = (\<lambda>s. sample_inventory), cli_now_ns = 100,
      cli_clock = 7, cli_program = (\<lambda>ws. Inl OSError), cli_trees = (\<lambda>h. Inr None), cli_db = sample_db\<rparr>"

definition sample_state :: "(unit, unit) cli_state" where
  "sample_state =
     \<lparr>cs_fs = Dir [(''data'', Dir [(''.reflake'', Dir []), (''x.csv'', File ''1,2'' 5)])], cs_local = sample_repo, cs_remote = push_remote,
      cs_footers = \<lparr>fc_memory = [], fc_files = [], fc_writable = True, fc_maxsize = 2\<rparr>, cs_output = []\<rparr>"

lemma sample_cli_env [simp]: "ev_prims (cli_env sample_cli) = sample" "cs_local sample_state = sample_repo"
  by (simp_all add: sample_cli_def sample_state_def)

lemma sample_cli_backends: "cli_backends_ok sample_cli"
  by (simp add: cli_backends_ok_def sample_cli_def backend_ok_def)

lemma sample_repo_ok: "objects_ok sample sample_repo"
  by (simp add: objects_ok_def store_ok_def sample_repo_def sample_store_def)

section \<open>A merge, a configuration and an index\<close>

lemma sample_repo_stored:
  "history_ok (commit_reader sample sample_repo) (stored_history sample sample_repo) repo_depth {dg CHR ''a'', dg CHR ''b''}"
  by (simp add: history_ok_def commit_reader_def sample_repo_fetch stored_history_def repo_depth_def
      first_commit_def second_commit_def depth_of_parents_def)

lemma sample_repo_resolves:
  "resolve_ref sample_repo ''main'' = Inr (dg CHR ''a'')" "resolve_ref sample_repo (dg CHR ''b'') = Inr (dg CHR ''b'')"
proof -
  have "read_branch_ref sample_repo (dg CHR ''b'') = read_branch_ref sample_store (dg CHR ''b'')"
    "read_branch_ref sample_repo ''main'' = read_branch_ref sample_store ''main''"
    by (simp_all add: sample_repo_def read_branch_ref_def)
  moreover have "read_branch_ref sample_store (dg CHR ''b'') = None" by code_simp
  ultimately show "resolve_ref sample_repo ''main'' = Inr (dg CHR ''a'')" "resolve_ref sample_repo (dg CHR ''b'') = Inr (dg CHR ''b'')"
    using sample_store_heads(3) by (simp_all add: resolve_ref_def object_exists_commit_def sample_repo_def)
qed

lemma sample_repo_merge: "\<exists>s'. repo_merge sample_env (dg CHR ''b'') ''main'' sample_repo =
   (Inr \<lparr>mr_source = dg CHR ''b'', mr_target = ''main'', mr_commit = dg CHR ''b'', mr_updated = True\<rparr>, s')"
proof -
  let ?H = "repo_history" and ?R = "{dg CHR ''a'', dg CHR ''b''}"
  have depth: "\<forall>i \<in> ?R. repo_depth i < 4" "card ?R \<le> 4" by (simp_all add: repo_depth_def card_insert_if)
  have edge: "parent_rel repo_history = {(dg CHR ''b'', dg CHR ''a'')}"
    by (auto simp: parent_rel_def repo_history_def first_commit_def second_commit_def split: if_splits)
  have no: "(dg CHR ''a'', dg CHR ''b'') \<notin> (parent_rel repo_history)\<^sup>*"
    by (auto simp: edge elim: converse_rtranclE)
  have yes: "(dg CHR ''b'', dg CHR ''a'') \<in> (parent_rel repo_history)\<^sup>*" by (simp add: edge r_into_rtrancl)
  note anc = is_ancestor_commit_spec [OF sample_repo_history _ _ depth(1) _ depth(2)]
  have "is_ancestor sample 4 4 sample_repo (dg CHR ''b'') (dg CHR ''a'') = Inr False"
    "is_ancestor sample 4 4 sample_repo (dg CHR ''a'') (dg CHR ''b'') = Inr True"
    using anc [of "dg CHR ''b''" "dg CHR ''a''"] anc [of "dg CHR ''a''" "dg CHR ''b''"] no yes by (simp_all add: is_ancestor_def)
  moreover have "\<exists>s'. fast_forward_branch sample 4 4 ''2025'' ''main'' (dg CHR ''b'') ''merge'' sample_repo = (Inr True, s')"
  proof -
    have "\<exists>s1. require_branch_state False ''main'' sample_repo = (Inr (Some (dg CHR ''a'')), s1)"
      using sample_store_heads(3) snapshot_run [of "''main''" sample_repo]
      by (auto simp: require_branch_state_def sample_repo_def sample_store_def empty_client_def read_branch_snapshot_def
          read_branch_ref_def bindS_def)
    then obtain s1 where "require_branch_state False ''main'' sample_repo = (Inr (Some (dg CHR ''a'')), s1)" ..
    from fast_forward_branch_total [OF this _ sample_repo_history depth(1) _ depth(2)] yes show ?thesis
      by (auto simp: sample_repo_heads sample_store_heads sample_store_free)
  qed
  moreover have "dg CHR ''b'' \<noteq> []" by (simp add: dg_def)
  ultimately show ?thesis
    by (auto simp: repo_merge_def Let_def resolve_refS_def asksS_def sample_repo_resolves bindS_def)
qed

definition sample_config :: config where
  "sample_config = S3Config default_base \<lparr>s3c_bucket = ''b'', s3c_prefix = ''p'', s3c_endpoint_url = None\<rparr>"

definition config_reader :: prims where
  "config_reader = sample\<lparr>json_encode := (\<lambda>v. ''{}''), json_decode := (\<lambda>s. Some (config_json sample_config))\<rparr>"

lemma sample_catalog: "\<exists>p d'. build_analytical_index sample_env sample_db 7 push_local [''data''] (Some ''main'') None False
    (cs_fs sample_state) = (Inr p, d') \<and> ip_parquet p = None"
proof -
  have "iter_all_entries (tree_loader sample_env push_local) 4 (c_tree tip_commit) = Inr []"
    by (simp add: tree_loader_def iter_all_entries_def tip_commit_def first_commit_def eval_nat_numeral push_local_load Let_def
        load_or_raise_def)
  then show ?thesis
  by (simp add: build_analytical_index_def sample_pull_resolved push_local_fetch bindS_def lift_fs_def
      Let_def truthy_def sample_state_def load_table_def sample_db_def file_in_def)
qed

section \<open>A directory\<close>

definition sample_layout :: fs where
  "sample_layout = Dir [(''.reflake'', Dir [(''blobs'', Dir []), (''commits'', Dir []), (''trees'', Dir []), (''footers'', Dir []),
     (''staging'', Dir []), (''refs'', Dir [(''heads'', Dir [])])])]"

lemma sample_layout_made: "initialize_layout [] (Dir []) = (Inr (), sample_layout)"
  by code_simp

lemma sample_layout_stored: "stored_at [] sample_layout push_remote"
  by (rule layout_stored [OF empty_stored sample_layout_made])
    (simp_all add: push_remote_empty, simp add: push_remote_def)

lemma sample_layout_open: "only_dirs sample_layout (butlast (key_path [] Commit (dg CHR ''a'')))"
  by (simp add: dg_digest key_path_eqs only_dirs_def sample_layout_def le_Suc_eq eval_nat_numeral)

end
