(* ===== verification/Splice_Files.thy ===== *)
theory Splice_Files
  imports Tree_Splice
begin

text \<open>
  What the files of an edited tree are, for \<open>Splice_Spec\<close>. A path is a list of names; \<open>overlaid\<close> takes the
  removed files and those in the way of an addition out of a set of files and puts the additions
  in, and is computed name by name (\<open>under\<close>). \<open>delivers\<close> says that a list of children holds what a set of
  files has under a set of names; \<open>adds_split\<close> is what \<open>split_additions\<close> makes of the additions of a
  directory; \<open>does\<close> is the Hoare triple for runs in which no two payloads collide.
\<close>

section \<open>Paths as lists of names\<close>

definition path_parts :: "entry \<Rightarrow> string list" where
  "path_parts e = split_path (e_path e)"

text \<open>A path is gone when it or a directory above it is removed.\<close>

definition gone :: "string list \<Rightarrow> string list \<Rightarrow> bool" where
  "gone removed ps \<longleftrightarrow> (\<exists>qs rs. qs \<noteq> [] \<and> ps = qs @ rs \<and> join_path qs \<in> set removed)"

lemma gone_append: "gone removed ps \<Longrightarrow> gone removed (ps @ qs)"
  by (auto simp: gone_def)

lemma gone_beyond:
  assumes "gone removed (ps @ qs)" "\<not> gone removed ps"
  obtains us vs where "us \<noteq> []" "qs = us @ vs" "join_path (ps @ us) \<in> set removed"
proof -
  from assms(1) obtain us vs where u: "us \<noteq> []" "ps @ qs = us @ vs" "join_path us \<in> set removed" unfolding gone_def by blast
  then consider ws where "ps = us @ ws" | ws where "us = ps @ ws" "qs = ws @ vs" by (auto simp: append_eq_append_conv2)
  then show ?thesis
  proof cases
    case 1
    with u assms(2) show ?thesis unfolding gone_def by blast
  next
    case (2 ws)
    with u assms(2) that [of ws vs] show ?thesis unfolding gone_def by (cases "ws = []") auto
  qed
qed

abbreviation names_ok :: "string list \<Rightarrow> bool" where
  "names_ok ds \<equiv> \<forall>p \<in> set ds. component_ok p"

lemma join_path_Nil: "names_ok ds \<Longrightarrow> join_path ds = [] \<longleftrightarrow> ds = []"
proof (cases ds)
  case (Cons p ps)
  assume "names_ok ds"
  with Cons have "p \<noteq> []" by (simp add: component_ok_iff)
  with Cons show ?thesis by (cases ps) (simp_all add: join_path_def)
qed (simp add: join_path_def)

lemma join_path_snoc:
  assumes "names_ok ds"
  shows "child_path (join_path ds) x = join_path (ds @ [x])"
proof (cases "ds = []")
  case False
  with join_path_Nil [OF assms] show ?thesis by (simp add: child_path_def join_path_def join_on_append)
qed (simp add: child_path_def join_path_def)

lemma split_join_path: "names_ok ds \<Longrightarrow> ds \<noteq> [] \<Longrightarrow> split_path (join_path ds) = ds"
  by (auto simp: split_path_def join_path_def component_ok_iff intro: split_join)

lemma ancestor_removed_iff:
  "names_ok (ds @ parts) \<Longrightarrow> ancestor_removed removed (join_path ds) parts \<longleftrightarrow>
     (\<exists>us vs. us \<noteq> [] \<and> parts = us @ vs \<and> join_path (ds @ us) \<in> set removed)"
proof (induction parts arbitrary: ds)
  case (Cons p parts)
  then have snoc: "child_path (join_path ds) p = join_path (ds @ [p])" by (simp add: join_path_snoc)
  have IH: "ancestor_removed removed (join_path (ds @ [p])) parts \<longleftrightarrow>
      (\<exists>us vs. us \<noteq> [] \<and> parts = us @ vs \<and> join_path ((ds @ [p]) @ us) \<in> set removed)"
    using Cons.prems by (intro Cons.IH) simp
  have "(\<exists>us vs. us \<noteq> [] \<and> p # parts = us @ vs \<and> join_path (ds @ us) \<in> set removed) \<longleftrightarrow>
      join_path (ds @ [p]) \<in> set removed \<or>
      (\<exists>us vs. us \<noteq> [] \<and> parts = us @ vs \<and> join_path ((ds @ [p]) @ us) \<in> set removed)" (is "?L \<longleftrightarrow> ?R")
  proof
    assume ?L
    then obtain us vs where "us \<noteq> []" "p # parts = us @ vs" "join_path (ds @ us) \<in> set removed" by blast
    then show ?R by (cases us; cases "tl us = []") auto
  next
    assume ?R
    then show ?L
    proof
      assume "\<exists>us vs. us \<noteq> [] \<and> parts = us @ vs \<and> join_path ((ds @ [p]) @ us) \<in> set removed"
      then obtain us vs where "parts = us @ vs" "join_path (ds @ p # us) \<in> set removed" by auto
      then show ?L by (intro exI [of _ "p # us"] exI [of _ vs]) simp
    qed (intro exI [of _ "[p]"] exI [of _ parts], simp)
  qed
  then show ?case unfolding ancestor_removed.simps Let_def snoc IH by simp
qed auto

lemma path_is_removed_iff:
  assumes "names_ok ps" "ps \<noteq> []"
  shows "path_is_removed (join_path ps) removed \<longleftrightarrow> gone removed ps"
proof -
  have "names_ok ([] @ butlast ps)" using assms(1) by (auto dest: in_set_butlastD)
  from ancestor_removed_iff [OF this, of removed]
  have above: "ancestor_removed removed [] (butlast ps) \<longleftrightarrow>
      (\<exists>us vs. us \<noteq> [] \<and> butlast ps = us @ vs \<and> join_path us \<in> set removed)"
    by (simp add: join_path_def)
  have "gone removed ps \<longleftrightarrow> join_path ps \<in> set removed \<or>
      (\<exists>us vs. us \<noteq> [] \<and> butlast ps = us @ vs \<and> join_path us \<in> set removed)"
  proof
    assume "gone removed ps"
    then obtain qs rs where "qs \<noteq> []" "ps = qs @ rs" "join_path qs \<in> set removed" by (auto simp: gone_def)
    then show "join_path ps \<in> set removed \<or> (\<exists>us vs. us \<noteq> [] \<and> butlast ps = us @ vs \<and> join_path us \<in> set removed)"
      by (cases rs rule: rev_cases) (auto simp: butlast_append)
  next
    assume "join_path ps \<in> set removed \<or> (\<exists>us vs. us \<noteq> [] \<and> butlast ps = us @ vs \<and> join_path us \<in> set removed)"
    then show "gone removed ps"
    proof
      assume "\<exists>us vs. us \<noteq> [] \<and> butlast ps = us @ vs \<and> join_path us \<in> set removed"
      then obtain us vs where us: "us \<noteq> []" "butlast ps = us @ vs" "join_path us \<in> set removed" by blast
      have "ps = us @ vs @ [last ps]" using us(2) assms(2) by (metis append_assoc append_butlast_last_id)
      with us show ?thesis by (auto simp: gone_def)
    qed (use assms(2) in \<open>auto simp: gone_def\<close>)
  qed
  then show ?thesis by (auto simp: path_is_removed_def above split_join_path [OF assms] gone_def)
qed

section \<open>The files of an edited tree\<close>

text \<open>
  A set of files is a set of paths below a directory \<open>ds\<close> with their leaves. After an edit the old
  files are those that are not gone and not in the way of a new one: neither under its path nor
  above it.
\<close>

type_synonym files = "(string list \<times> entry) set"

definition overlaid :: "string list \<Rightarrow> string list \<Rightarrow> files \<Rightarrow> files \<Rightarrow> files" where
  "overlaid removed ds A T =
     {(ps, x) \<in> T. \<not> gone removed (ds @ ps) \<and> (\<forall>(qs, y) \<in> A. \<not> prefix qs ps \<and> \<not> prefix ps qs)} \<union> A"

definition under :: "string \<Rightarrow> files \<Rightarrow> files" where
  "under x R = {(ps, y) \<in> R. ps \<noteq> [] \<and> hd ps = x}"

definition put_under :: "string \<Rightarrow> files \<Rightarrow> files" where
  "put_under x R = (\<lambda>(ps, y). (x # ps, y)) ` R"

lemma under_overlaid:
  assumes "\<forall>(ps, y) \<in> A. ps \<noteq> []"
  shows "under x (overlaid removed ds A T) = overlaid removed ds (under x A) (under x T)"
proof -
  have "(\<forall>(qs, y) \<in> A. \<not> prefix qs ps \<and> \<not> prefix ps qs) \<longleftrightarrow> (\<forall>(qs, y) \<in> under x A. \<not> prefix qs ps \<and> \<not> prefix ps qs)"
    if "ps \<noteq> []" "hd ps = x" for ps
  proof -
    have "hd qs = x" if "(qs, y) \<in> A" "prefix qs ps \<or> prefix ps qs" for qs y
      using that assms \<open>ps \<noteq> []\<close> \<open>hd ps = x\<close> by (cases qs; cases ps) auto
    then show ?thesis using assms by (fastforce simp: under_def)
  qed
  then show ?thesis by (auto simp: under_def overlaid_def)
qed

lemma overlaid_put_under:
  "overlaid removed ds (put_under x A) (put_under x T) = put_under x (overlaid removed (ds @ [x]) A T)"
  by (force simp: overlaid_def put_under_def)

lemma overlaid_Nil [simp]: "overlaid removed ds A {} = A"
  by (simp add: overlaid_def)

lemma overlaid_gone: "gone removed ds \<Longrightarrow> overlaid removed ds A T = A"
  by (auto simp: overlaid_def gone_append)

lemma overlaid_covers:
  assumes "(qs, y) \<in> A" "\<forall>(ps, z) \<in> T. prefix qs ps \<or> prefix ps qs"
  shows "overlaid removed ds A T = A"
  using assms by (fastforce simp: overlaid_def)

lemma overlaid_none: "\<forall>(ps, y) \<in> T. \<not> gone removed (ds @ ps) \<Longrightarrow> overlaid removed ds {} T = T"
  by (auto simp: overlaid_def)

lemma under_put_under [simp]: "under x (put_under x A) = put_under x A"
  by (auto simp: under_def put_under_def)

lemma put_under_empty [simp]: "put_under x {} = {}" "put_under x A = {} \<longleftrightarrow> A = {}"
  by (auto simp: put_under_def)

section \<open>Children that deliver files\<close>

text \<open>\<open>K\<close> holds exactly what the files \<open>R\<close> have under the names \<open>N\<close>, one child per name.\<close>

definition delivers :: "files \<Rightarrow> string set \<Rightarrow> (entry \<times> dtree) list \<Rightarrow> bool" where
  "delivers R N K \<longleftrightarrow>
     distinct (kid_names K) \<and> set (kid_names K) \<subseteq> N \<and>
     (\<forall>k \<in> set K. set (kid_leaves k) = under (e_path (fst k)) R) \<and>
     (\<forall>x \<in> N - set (kid_names K). under x R = {})"

lemma delivers_Nil: "(\<And>x. x \<in> N \<Longrightarrow> under x R = {}) \<Longrightarrow> delivers R N []"
  by (simp add: delivers_def)

lemma delivers_cong: "delivers R N K \<Longrightarrow> N = M \<Longrightarrow> delivers R M K"
  by simp

lemma delivers_skip: "delivers R N K \<Longrightarrow> under x R = {} \<Longrightarrow> x \<notin> set (kid_names K) \<Longrightarrow> delivers R (insert x N) K"
  by (auto simp: delivers_def)

lemma delivers_snoc:
  "delivers R N K \<Longrightarrow> x \<notin> N \<Longrightarrow> e_path (fst k) = x \<Longrightarrow> set (kid_leaves k) = under x R \<Longrightarrow> delivers R (insert x N) (K @ [k])"
  by (auto simp: delivers_def)

lemma delivers_names: "delivers R N K \<Longrightarrow> x \<notin> N \<Longrightarrow> x \<notin> set (kid_names K)"
  by (auto simp: delivers_def)

lemma delivers_all:
  assumes "delivers R N K" "\<forall>(ps, y) \<in> R. ps \<noteq> [] \<and> hd ps \<in> N"
  shows "set (concat (map kid_leaves K)) = R"
proof (intro set_eqI iffI)
  fix z assume "z \<in> set (concat (map kid_leaves K))"
  then obtain k where "k \<in> set K" "z \<in> set (kid_leaves k)" by auto
  with assms(1) have "z \<in> under (e_path (fst k)) R" by (auto simp: delivers_def)
  then show "z \<in> R" by (auto simp: under_def)
next
  fix z assume z: "z \<in> R"
  obtain ps y where ps: "z = (ps, y)" by (cases z)
  with z assms(2) have here: "z \<in> under (hd ps) R" "hd ps \<in> N" by (auto simp: under_def)
  with assms(1) have "hd ps \<in> set (kid_names K)" by (auto simp: delivers_def)
  then obtain k where "k \<in> set K" "e_path (fst k) = hd ps" by auto
  with assms(1) here have "z \<in> set (kid_leaves k)" by (auto simp: delivers_def)
  with \<open>k \<in> set K\<close> show "z \<in> set (concat (map kid_leaves K))" by auto
qed

lemma delivers_none: "delivers R N [] \<Longrightarrow> \<forall>(ps, y) \<in> R. ps \<noteq> [] \<and> hd ps \<in> N \<Longrightarrow> R = {}"
  using delivers_all by fastforce

text \<open>A leaf and a directory as a child.\<close>

definition dir_entry :: "string \<Rightarrow> string \<Rightarrow> entry" where
  "dir_entry x h =
     \<lparr>e_path = x, e_kind = KIND_TREE, e_hash = h, e_size = 0, e_mtime = 0, e_uri = None, e_footer = None, e_etag = None\<rparr>"

lemma dir_entry_simps [simp]:
  "e_path (dir_entry x h) = x" "e_hash (dir_entry x h) = h" "is_subtree (dir_entry x h)" "e_kind (dir_entry x h) = KIND_TREE"
  by (simp_all add: dir_entry_def is_subtree_def subtree_kind_def)

lemma dir_entry_child: "kept_subtree P KIND_TREE x h = child_line P (dir_entry x h)"
  using subtree_line_serialize [of "dir_entry x h" P] by (simp add: kept_subtree_def child_line_def)

lemma dir_entry_self:
  assumes "child_ok e" "e_kind e = KIND_TREE"
  shows "dir_entry (e_path e) (e_hash e) = e"
  using assms by (cases e)
    (auto simp: dir_entry_def child_ok_def entry_ok_def is_subtree_def subtree_kind_def post_init_def post_init_fields_def
      bindE_Inr_iff split: if_splits)

lemma dir_entry_ok:
  assumes "component_ok x" "plain_text x" "is_hex_digest h"
  shows "child_ok (dir_entry x h)" "plain_entry (dir_entry x h)"
proof -
  show "child_ok (dir_entry x h)"
    using assms component_entry_path [OF assms(1)]
    by (simp add: child_ok_def entry_ok_def post_init_def post_init_fields_def dir_entry_def truthy_def subtree_kind_def
        del: child_ok_sub)
  show "plain_entry (dir_entry x h)"
    using assms plain_text_hex [of h] by (simp add: plain_entry_def entry_payload_def is_hex_digest_def plain_text_kind)
qed

lemma kid_leaves_dir: "set (kid_leaves (dir_entry x h, t)) = put_under x (set (dleaves t))"
  by (auto simp: kid_leaves_def put_under_def)

lemma kid_leaves_leaf: "\<not> is_subtree e \<Longrightarrow> set (kid_leaves (e, t)) = {([e_path e], e)}"
  by (simp add: kid_leaves_def)

definition kid_ok :: "entry \<times> dtree \<Rightarrow> bool" where
  "kid_ok k \<longleftrightarrow> child_ok (fst k) \<and> plain_entry (fst k) \<and> e_kind (fst k) \<noteq> KIND_SHARD"

definition kids_ok :: "prims \<Rightarrow> 'z tree_store_scheme \<Rightarrow> (entry \<times> dtree) list \<Rightarrow> bool" where
  "kids_ok P s K \<longleftrightarrow> (\<forall>k \<in> set K. kid_ok k) \<and> subtrees_in P s K"

lemma kids_ok_grows: "grows s s' \<Longrightarrow> kids_ok P s K \<Longrightarrow> kids_ok P s' K"
  using subtrees_in_grows by (auto simp: kids_ok_def)

lemma kids_ok_append: "kids_ok P s (K @ L) \<longleftrightarrow> kids_ok P s K \<and> kids_ok P s L"
  by (auto simp: kids_ok_def subtrees_in_def)

lemma kids_ok_Nil [simp]: "kids_ok P s []"
  by (simp add: kids_ok_def subtrees_in_def)

text \<open>A tree that is stored is under a digest.\<close>

lemma stored_digest: "digest_ok P \<Longrightarrow> store_ok P s \<Longrightarrow> rep (load P (ts_nodes s)) h t \<Longrightarrow> is_hex_digest h"
  by (cases t) (auto simp: load_def store_ok_def digest_ok_def split: option.splits)

section \<open>Runs without a collision\<close>

definition does :: "prims \<Rightarrow> ('z tree_store_scheme, 'a) sm \<Rightarrow> 'z tree_store_scheme \<Rightarrow> ('a \<Rightarrow> 'z tree_store_scheme \<Rightarrow> bool) \<Rightarrow> bool" where
  "does P m s Q \<longleftrightarrow>
     (\<forall>r s'. m s = (r, s') \<longrightarrow> store_ok P s \<longrightarrow> no_clash P s' \<longrightarrow> (\<exists>v. r = Inr v \<and> Q v s'))"

lemma does_return: "Q v s \<Longrightarrow> does P (returnS v) s Q"
  by (simp add: does_def)

lemma does_bind:
  assumes "does P m s Q" "keeps P m" "\<And>v. keeps P (f v)"
    and "\<And>v s'. Q v s' \<Longrightarrow> store_ok P s' \<Longrightarrow> grows s s' \<Longrightarrow> does P (f v) s' R"
  shows "does P (bindS m f) s R"
  unfolding does_def
proof (intro allI impI)
  fix r s' assume a: "bindS m f s = (r, s')" "store_ok P s" "no_clash P s'"
  obtain q s1 where m: "m s = (q, s1)" by fastforce
  note k = keepsD [OF assms(2) m a(2)]
  show "\<exists>v. r = Inr v \<and> R v s'"
  proof (cases q)
    case (Inl e)
    with a m have "s' = s1" by simp
    with assms(1) m a Inl show ?thesis by (auto simp: does_def)
  next
    case (Inr v)
    with a(1) m have run: "f v s1 = (r, s')" by simp
    with keepsD [OF assms(3) run] k have "grows s1 s'" by blast
    from no_clash_grows [OF this a(3)] assms(1) m a(2) Inr have "Q v s1" by (auto simp: does_def)
    from assms(4) [OF this] k run a(3) show ?thesis by (auto simp: does_def)
  qed
qed

lemma does_mono: "does P m s Q \<Longrightarrow> (\<And>v s'. Q v s' \<Longrightarrow> R v s') \<Longrightarrow> does P m s R"
  unfolding does_def by blast

lemma does_fold:
  assumes "\<And>t x. keeps P (f t x)" and "J [] t s"
    and "\<And>ys x zs t s. xs = ys @ x # zs \<Longrightarrow> J ys t s \<Longrightarrow> store_ok P s \<Longrightarrow> grows s0 s \<Longrightarrow> does P (f t x) s (J (ys @ [x]))"
    and "store_ok P s" "grows s0 s"
  shows "does P (foldS f t xs) s (J xs)"
proof -
  have "does P (foldS f t zs) s (J (ys @ zs))" if "xs = ys @ zs" "J ys t s" "store_ok P s" "grows s0 s" for ys zs t s
    using that
  proof (induction zs arbitrary: ys t s)
    case (Cons z zs)
    have "does P (f t z) s (\<lambda>t' s'. J (ys @ [z]) t' s')" using assms(3) Cons.prems by blast
    then show ?case
      unfolding foldS.simps
    proof (rule does_bind [OF _ assms(1)])
      show "keeps P (foldS f v zs)" for v by (intro keeps_intros assms(1))
      fix v s' assume "J (ys @ [z]) v s'" "store_ok P s'" "grows s s'"
      with Cons.IH [of "ys @ [z]" v s'] Cons.prems show "does P (foldS f v zs) s' (J (ys @ z # zs))"
        by (auto intro: grows_trans)
    qed
  qed (simp add: does_return)
  from this [of "[]" xs t s] assms(2,4,5) show ?thesis by simp
qed

section \<open>Additions by name\<close>

definition new_leaf :: "entry \<Rightarrow> entry" where
  "new_leaf e = e\<lparr>e_path := last (path_parts e)\<rparr>"

definition new_files :: "string list \<Rightarrow> entry list \<Rightarrow> files" where
  "new_files ds es = (\<lambda>e. (drop (length ds) (path_parts e), new_leaf e)) ` set es"

text \<open>Entries that can be added below a directory, none of them in the way of another.\<close>

definition addable :: "entry \<Rightarrow> bool" where
  "addable e \<longleftrightarrow> entry_ok e \<and> \<not> is_subtree e \<and> plain_entry (new_leaf e) \<and>
     (\<forall>p \<in> set (path_parts e). component_ok p \<and> plain_text p)"

definition lies_in :: "string list \<Rightarrow> entry \<Rightarrow> bool" where
  "lies_in ds e \<longleftrightarrow> (\<exists>rest. rest \<noteq> [] \<and> path_parts e = ds @ rest)"

definition apart :: "entry list \<Rightarrow> bool" where
  "apart es \<longleftrightarrow> (\<forall>a \<in> set es. \<forall>b \<in> set es. prefix (path_parts a) (path_parts b) \<longrightarrow> a = b)"

definition additions_ok :: "string list \<Rightarrow> entry list \<Rightarrow> bool" where
  "additions_ok ds es \<longleftrightarrow> (\<forall>e \<in> set es. addable e \<and> lies_in ds e) \<and> apart es"

lemma additions_ok_sub: "additions_ok ds es \<Longrightarrow> set fs \<subseteq> set es \<Longrightarrow> \<forall>e \<in> set fs. lies_in cs e \<Longrightarrow> additions_ok cs fs"
  unfolding additions_ok_def apart_def by blast

lemma path_of_parts: "path_parts e = ps \<Longrightarrow> e_path e = join_path ps"
  by (auto simp: path_parts_def split_path_def join_path_def)

lemma relative_path:
  assumes "path_parts e = ds @ rest" "names_ok (ds @ rest)" "rest \<noteq> []"
  shows "(if join_path ds \<noteq> [] then drop (length (join_path ds) + 1) (e_path e) else e_path e) = join_path rest"
proof (cases "ds = []")
  case False
  with assms have "e_path e = join_path ds @ CHR ''/'' # join_path rest"
    using path_of_parts [OF assms(1)] by (simp add: join_path_def join_on_append)
  moreover have "join_path ds \<noteq> []" using False join_path_Nil [of ds] assms(2) by simp
  ultimately show ?thesis by simp
qed (use path_of_parts [OF assms(1)] in \<open>simp add: join_path_def\<close>)

lemma first_part_join:
  assumes "names_ok (x # rest)"
  shows "first_part (join_path (x # rest)) = x" "CHR ''/'' \<notin> set (join_path (x # rest)) \<longleftrightarrow> rest = []"
proof -
  have x: "CHR ''/'' \<notin> set x" using assms by (simp add: component_ok_iff)
  then have free: "takeWhile (\<lambda>c. c \<noteq> CHR ''/'') x = x" by (auto simp: takeWhile_eq_all_conv)
  show "first_part (join_path (x # rest)) = x"
    using x free by (cases rest) (auto simp: first_part_def join_path_def takeWhile_append2 [of x])
  show "CHR ''/'' \<notin> set (join_path (x # rest)) \<longleftrightarrow> rest = []"
    using x by (cases rest) (auto simp: join_path_def)
qed

definition adds_split :: "string list \<Rightarrow> entry list \<Rightarrow> leaf_adds \<Rightarrow> child_adds \<Rightarrow> bool" where
  "adds_split ds es leaves kids \<longleftrightarrow>
     distinct (map fst leaves) \<and> distinct (map fst kids) \<and>
     (\<forall>x e. map_of leaves x = Some e \<longleftrightarrow> e \<in> set es \<and> path_parts e = ds @ [x]) \<and>
     (\<forall>x sub. map_of kids x = Some sub \<longrightarrow> sub \<noteq> []) \<and>
     (\<forall>x. set (case map_of kids x of None \<Rightarrow> [] | Some sub \<Rightarrow> sub) =
        {e \<in> set es. \<exists>rest. rest \<noteq> [] \<and> path_parts e = ds @ x # rest})"

lemma map_of_alist_append:
  "map_of (alist_append k vs kvs) = (map_of kvs)(k \<mapsto> (case map_of kvs k of None \<Rightarrow> [] | Some us \<Rightarrow> us) @ vs)"
  by (simp add: alist_append_def)

lemma split_additions_ok:
  assumes "names_ok ds" "\<forall>e \<in> set es. addable e \<and> lies_in ds e"
    and "\<forall>a \<in> set es. \<forall>b \<in> set es. path_parts a = path_parts b \<longrightarrow> a = b"
  shows "case split_additions (join_path ds) es of (leaves, kids) \<Rightarrow> adds_split ds es leaves kids"
  using assms(2,3)
proof (induction es rule: rev_induct)
  case Nil
  show ?case by (simp add: split_additions_def adds_split_def)
next
  case (snoc e es)
  obtain leaves kids where split: "split_additions (join_path ds) es = (leaves, kids)" by fastforce
  with snoc have IH: "adds_split ds es leaves kids" by auto
  from snoc.prems(1) obtain x rest where parts: "path_parts e = ds @ x # rest"
    by (auto simp: lies_in_def neq_Nil_conv)
  have ok: "names_ok (ds @ x # rest)" using snoc.prems(1) parts unfolding addable_def by (metis in_set_conv_decomp)
  note rel = relative_path [OF parts ok] and fp = first_part_join [of x rest]
  have "split_additions (join_path ds) (es @ [e]) =
      (let r = (if join_path ds \<noteq> [] then drop (length (join_path ds) + 1) (e_path e) else e_path e) in
       if CHR ''/'' \<notin> set r then (alist_put r e leaves, kids) else (leaves, alist_append (first_part r) [e] kids))"
    using split by (simp only: split_additions_def foldl_append foldl.simps case_prod_conv)
  then have step: "split_additions (join_path ds) (es @ [e]) =
      (if rest = [] then (alist_put x e leaves, kids) else (leaves, alist_append x [e] kids))"
    unfolding rel [OF list.distinct(2)] Let_def using fp ok by (simp add: join_path_def)
  have I: "distinct (map fst leaves)" "distinct (map fst kids)"
    "\<And>y f. map_of leaves y = Some f \<longleftrightarrow> f \<in> set es \<and> path_parts f = ds @ [y]"
    "\<And>y sub. map_of kids y = Some sub \<Longrightarrow> sub \<noteq> []"
    "\<And>y. set (case map_of kids y of None \<Rightarrow> [] | Some sub \<Rightarrow> sub) = {f \<in> set es. \<exists>r. r \<noteq> [] \<and> path_parts f = ds @ y # r}"
    using IH unfolding adds_split_def by blast+
  show ?case
  proof (cases "rest = []")
    case True
    with parts have pe: "path_parts e = ds @ [x]" by simp
    have same: "f = e" if "f \<in> set es" "path_parts f = ds @ [x]" for f using that snoc.prems(2) pe by simp
    have "adds_split ds (es @ [e]) (alist_put x e leaves) kids"
      unfolding adds_split_def
    proof (intro conjI allI impI)
      show "map_of (alist_put x e leaves) y = Some f \<longleftrightarrow> f \<in> set (es @ [e]) \<and> path_parts f = ds @ [y]" for y f
        using I(3) [of y f] pe same by auto
      show "set (case map_of kids y of None \<Rightarrow> [] | Some sub \<Rightarrow> sub) =
          {f \<in> set (es @ [e]). \<exists>r. r \<noteq> [] \<and> path_parts f = ds @ y # r}" for y
        unfolding I(5) using pe by auto
    qed (use I in \<open>simp_all add: distinct_alist_put\<close>)
    with step True show ?thesis by simp
  next
    case False
    have "adds_split ds (es @ [e]) leaves (alist_append x [e] kids)"
      unfolding adds_split_def
    proof (intro conjI allI impI)
      show "map_of leaves y = Some f \<longleftrightarrow> f \<in> set (es @ [e]) \<and> path_parts f = ds @ [y]" for y f
        using I(3) [of y f] parts False by auto
      show "set (case map_of (alist_append x [e] kids) y of None \<Rightarrow> [] | Some sub \<Rightarrow> sub) =
          {f \<in> set (es @ [e]). \<exists>r. r \<noteq> [] \<and> path_parts f = ds @ y # r}" for y
        using I(5) [of y] parts False by (auto simp: map_of_alist_append)
    qed (use I in \<open>auto simp: alist_append_def distinct_alist_put split: if_splits\<close>)
    with step False show ?thesis by simp
  qed
qed

lemma adds_split_cases:
  assumes "additions_ok ds es" "adds_split ds es leaves kids"
  shows "map_of leaves x = Some e \<Longrightarrow> map_of kids x = None \<and> under x (new_files ds es) = {([x], new_leaf e)} \<and> addable e \<and>
      path_parts e = ds @ [x] \<and> e \<in> set es"
    and "map_of kids x = Some sub \<Longrightarrow> map_of leaves x = None \<and> sub \<noteq> [] \<and> set sub \<subseteq> set es \<and> additions_ok (ds @ [x]) sub \<and>
      under x (new_files ds es) = put_under x (new_files (ds @ [x]) sub)"
    and "map_of leaves x = None \<Longrightarrow> map_of kids x = None \<Longrightarrow> under x (new_files ds es) = {}"
proof -
  have L: "map_of leaves x = Some e \<longleftrightarrow> e \<in> set es \<and> path_parts e = ds @ [x]" for e
    using assms(2) by (simp add: adds_split_def)
  have K: "set (case map_of kids x of None \<Rightarrow> [] | Some sub \<Rightarrow> sub) = {e \<in> set es. \<exists>rest. rest \<noteq> [] \<and> path_parts e = ds @ x # rest}"
    and ne: "map_of kids x = Some sub \<Longrightarrow> sub \<noteq> []" for sub
    using assms(2) unfolding adds_split_def by blast+
  have apart: "\<lbrakk>a \<in> set es; b \<in> set es; prefix (path_parts a) (path_parts b)\<rbrakk> \<Longrightarrow> a = b" for a b
    using assms(1) by (auto simp: additions_ok_def apart_def)
  have under: "under x (new_files ds es) =
      (\<lambda>e. (drop (length ds) (path_parts e), new_leaf e)) ` {e \<in> set es. \<exists>rest. path_parts e = ds @ x # rest}"
    using assms(1) by (force simp: under_def new_files_def additions_ok_def lies_in_def neq_Nil_conv)
  have both: False if "map_of leaves x = Some e" "map_of kids x = Some sub" for e sub
  proof -
    from ne [OF that(2)] obtain b where b: "b \<in> set sub" by (cases sub) auto
    with K that(2) obtain rest where "b \<in> set es" "rest \<noteq> []" "path_parts b = ds @ x # rest" by auto
    moreover have "e \<in> set es" "path_parts e = ds @ [x]" using L [of e] that(1) by simp_all
    ultimately show False using apart [of e b] by simp
  qed
  show "map_of kids x = None \<and> under x (new_files ds es) = {([x], new_leaf e)} \<and> addable e \<and>
      path_parts e = ds @ [x] \<and> e \<in> set es" if "map_of leaves x = Some e"
  proof -
    have e: "e \<in> set es" "path_parts e = ds @ [x]" using L [of e] that by simp_all
    have "{e \<in> set es. \<exists>rest. path_parts e = ds @ x # rest} = {e}"
    proof (intro equalityI subsetI)
      fix b assume "b \<in> {e \<in> set es. \<exists>rest. path_parts e = ds @ x # rest}"
      then have "b \<in> set es" "prefix (path_parts e) (path_parts b)" using e(2) by auto
      from apart [OF e(1) this] show "b \<in> {e}" by simp
    qed (use e in simp)
    then have "under x (new_files ds es) = {([x], new_leaf e)}" using e by (simp add: under)
    moreover have "addable e" using assms(1) e(1) by (simp add: additions_ok_def)
    moreover have "map_of kids x = None" using both [OF that] by (cases "map_of kids x") auto
    ultimately show ?thesis using e by simp
  qed
  show "map_of leaves x = None \<and> sub \<noteq> [] \<and> set sub \<subseteq> set es \<and> additions_ok (ds @ [x]) sub \<and>
      under x (new_files ds es) = put_under x (new_files (ds @ [x]) sub)" if sub: "map_of kids x = Some sub"
  proof -
    have none: "map_of leaves x = None" using both sub by (cases "map_of leaves x") auto
    have set_sub: "set sub = {e \<in> set es. \<exists>rest. rest \<noteq> [] \<and> path_parts e = ds @ x # rest}" using K sub by simp
    have all: "{e \<in> set es. \<exists>rest. path_parts e = ds @ x # rest} = set sub"
      using L none by (fastforce simp: set_sub)
    have "put_under x (new_files (ds @ [x]) sub) = (\<lambda>e. (drop (length ds) (path_parts e), new_leaf e)) ` set sub"
      by (force simp: put_under_def new_files_def set_sub)
    moreover have "additions_ok (ds @ [x]) sub"
      by (rule additions_ok_sub [OF assms(1)]) (auto simp: set_sub lies_in_def)
    ultimately show ?thesis using none ne [OF sub] by (auto simp: under all set_sub)
  qed
  show "under x (new_files ds es) = {}" if "map_of leaves x = None" "map_of kids x = None"
  proof -
    have "\<not> (e \<in> set es \<and> path_parts e = ds @ x # rest)" for e rest
      using L [of e] K that by (cases "rest = []") auto
    then show ?thesis by (auto simp: under)
  qed
qed

lemma new_files_heads:
  assumes "additions_ok ds es" "adds_split ds es leaves kids"
  shows "\<forall>(ps, y) \<in> new_files ds es. ps \<noteq> [] \<and> hd ps \<in> fst ` set leaves \<union> fst ` set kids"
proof -
  have "ps \<noteq> [] \<and> hd ps \<in> fst ` set leaves \<union> fst ` set kids" if "(ps, y) \<in> new_files ds es" for ps y
  proof -
    from that assms(1) have ne: "ps \<noteq> []" by (auto simp: new_files_def additions_ok_def lies_in_def)
    with that have "(ps, y) \<in> under (hd ps) (new_files ds es)" by (simp add: under_def)
    with adds_split_cases(3) [OF assms] have "map_of leaves (hd ps) \<noteq> None \<or> map_of kids (hd ps) \<noteq> None" by blast
    with ne show ?thesis by (auto simp: map_of_eq_None_iff)
  qed
  then show ?thesis by blast
qed

lemma split_names:
  assumes "additions_ok ds es" "adds_split ds es leaves kids"
  shows "card (fst ` set leaves \<union> fst ` set kids) \<le> card (set es)"
proof -
  have "x \<in> (\<lambda>e. hd (drop (length ds) (path_parts e))) ` set es" if "x \<in> fst ` set leaves \<union> fst ` set kids" for x
  proof -
    from that consider e where "map_of leaves x = Some e" | sub where "map_of kids x = Some sub"
      by (metis UnE map_of_eq_None_iff not_None_eq)
    then show ?thesis
    proof cases
      case (1 e)
      with adds_split_cases(1) [OF assms 1] show ?thesis by force
    next
      case (2 sub)
      note s = adds_split_cases(2) [OF assms 2]
      then obtain e where "e \<in> set sub" by (cases sub) auto
      with s show ?thesis by (force simp: additions_ok_def lies_in_def)
    qed
  qed
  then have "card (fst ` set leaves \<union> fst ` set kids) \<le> card ((\<lambda>e. hd (drop (length ds) (path_parts e))) ` set es)"
    by (intro card_mono) auto
  also have "\<dots> \<le> card (set es)" by (rule card_image_le) simp
  finally show ?thesis .
qed

end
