(* ===== verification/Splice_Spec.thy ===== *)
theory Splice_Spec
  imports Splice_Files
begin

text \<open>
  \<open>splice_tree\<close> (\<open>core/services/tree.py\<close>) edits exactly the files it is told to: a tree whose directories
  are single nodes becomes a well-formed tree with its files, without the removed ones and those
  in the way of an addition, and with the additions. The proof follows the code: the loop over the
  entries of a node, the new leaves, the new directories, the directory written from them, and
  the recursion. The result may be sharded; a sharded start is not covered here.
\<close>

section \<open>One node\<close>

definition node_files :: "string list \<Rightarrow> string list \<Rightarrow> entry list \<Rightarrow> (entry \<times> dtree) list \<Rightarrow> files" where
  "node_files removed ds adds ks = overlaid removed ds (new_files ds adds) (set (dleaves (DNode ks)))"

text \<open>What a spliced directory is: the edited files, in a well-formed tree, or nothing when there are none.\<close>

definition spliced ::
  "prims \<Rightarrow> string list \<Rightarrow> string list \<Rightarrow> entry list \<Rightarrow> dtree \<Rightarrow> string option \<Rightarrow> 'z tree_store_scheme \<Rightarrow> bool" where
  "spliced P removed ds adds t v s \<longleftrightarrow>
     (let R = overlaid removed ds (new_files ds adds) (set (dleaves t)) in
      case v of None \<Rightarrow> R = {}
      | Some h \<Rightarrow> \<exists>t'. rep (load P (ts_nodes s)) h t' \<and> wf_dir t' \<and> set (dleaves t') = R)"

text \<open>The recursive call does its work on the directories of this node and on new ones.\<close>

definition splices_below ::
  "prims \<Rightarrow> 'z tree_store_scheme splice_rec \<Rightarrow> string list \<Rightarrow> string list \<Rightarrow> entry list \<Rightarrow> (entry \<times> dtree) list \<Rightarrow> bool" where
  "splices_below P rec removed ds adds ks \<longleftrightarrow>
     (\<forall>d h as. keeps P (rec d h as)) \<and>
     (\<forall>x th t sub s. component_ok x \<longrightarrow> additions_ok (ds @ [x]) sub \<longrightarrow> set sub \<subseteq> set adds \<longrightarrow>
        (th = None \<and> t = DNode [] \<and> sub \<noteq> [] \<or>
         (\<exists>e. (e, t) \<in> set ks \<and> is_subtree e \<and> e_path e = x \<and> th = Some (e_hash e) \<and> rep (load P (ts_nodes s)) (e_hash e) t)) \<longrightarrow>
        does P (rec (join_path (ds @ [x])) th sub) s (spliced P removed (ds @ [x]) sub t))"

definition editing ::
  "prims \<Rightarrow> 'z tree_store_scheme splice_rec \<Rightarrow> string list \<Rightarrow> string list \<Rightarrow> entry list \<Rightarrow> leaf_adds \<Rightarrow> child_adds
     \<Rightarrow> (entry \<times> dtree) list \<Rightarrow> bool" where
  "editing P rec removed ds adds leaves kids ks \<longleftrightarrow>
     digest_ok P \<and> names_ok ds \<and> additions_ok ds adds \<and> adds_split ds adds leaves kids \<and>
     distinct (kid_names ks) \<and> (\<forall>k \<in> set ks. kid_ok k \<and> (is_subtree (fst k) \<longrightarrow> wf_dir (snd k))) \<and>
     splices_below P rec removed ds adds ks"

lemma under_kid:
  assumes "distinct (kid_names ks)" "\<forall>k \<in> set ks. kid_ok k"
  shows "k \<in> set ks \<Longrightarrow> under (e_path (fst k)) (set (dleaves (DNode ks))) = set (kid_leaves k)"
    and "x \<notin> set (kid_names ks) \<Longrightarrow> under x (set (dleaves (DNode ks))) = {}"
proof -
  have all: "set (dleaves (DNode ks)) = (\<Union>k \<in> set ks. set (kid_leaves k))" unfolding dleaves_kids by simp
  have head: "ps \<noteq> [] \<and> hd ps = e_path (fst k)" if "k \<in> set ks" "(ps, y) \<in> set (kid_leaves k)" for k ps y
    using that assms(2) by (cases k) (auto simp: kid_leaves_def kid_ok_def split: if_splits)
  show "under (e_path (fst k)) (set (dleaves (DNode ks))) = set (kid_leaves k)" if k: "k \<in> set ks"
  proof (intro set_eqI iffI)
    fix z assume "z \<in> under (e_path (fst k)) (set (dleaves (DNode ks)))"
    then obtain ps y k' where z: "z = (ps, y)" "hd ps = e_path (fst k)" "k' \<in> set ks" "(ps, y) \<in> set (kid_leaves k')"
      by (auto simp: under_def all simp del: dleaves.simps)
    with head [OF z(3,4)] have "e_path (fst k') = e_path (fst k)" by simp
    with assms(1) k z(3) have "k' = k" by (auto simp: distinct_map inj_on_def)
    with z show "z \<in> set (kid_leaves k)" by simp
  next
    fix z assume "z \<in> set (kid_leaves k)"
    with head [OF k] k show "z \<in> under (e_path (fst k)) (set (dleaves (DNode ks)))"
      by (cases z) (auto simp: under_def all simp del: dleaves.simps)
  qed
  show "under x (set (dleaves (DNode ks))) = {}" if "x \<notin> set (kid_names ks)"
  proof -
    have False if "z \<in> under x (set (dleaves (DNode ks)))" for z
    proof -
      from that obtain ps y k where "hd ps = x" "k \<in> set ks" "(ps, y) \<in> set (kid_leaves k)"
        by (auto simp: under_def all simp del: dleaves.simps)
      with head [of k ps y] \<open>x \<notin> set (kid_names ks)\<close> show False by auto
    qed
    then show ?thesis by blast
  qed
qed

lemma under_node:
  assumes "editing P rec removed ds adds leaves kids ks"
  shows "under x (node_files removed ds adds ks) =
    overlaid removed ds (under x (new_files ds adds)) (under x (set (dleaves (DNode ks))))"
  unfolding node_files_def
  by (rule under_overlaid) (use assms new_files_heads in \<open>fastforce simp: editing_def\<close>)

lemma in_way:
  assumes "(x # qs, y) \<in> A" "T \<subseteq> {(ps, z). ps = [x]}"
  shows "overlaid removed ds A T = A"
  by (rule overlaid_covers [OF assms(1)]) (use assms(2) in auto)

lemma node_leaf:
  assumes "editing P rec removed ds adds leaves kids ks" "map_of leaves x = Some y"
  shows "under x (node_files removed ds adds ks) = {([x], new_leaf y)}"
proof -
  have A: "under x (new_files ds adds) = {([x], new_leaf y)}"
    using assms adds_split_cases(1) by (auto simp: editing_def)
  show ?thesis unfolding under_node [OF assms(1)] A
    by (rule overlaid_covers [of "[x]" "new_leaf y"]) (auto simp: under_def neq_Nil_conv)
qed

lemma node_kids:
  assumes "editing P rec removed ds adds leaves kids ks" "map_of kids x = Some sub"
  shows "under x (set (dleaves (DNode ks))) = put_under x T \<Longrightarrow>
      under x (node_files removed ds adds ks) = put_under x (overlaid removed (ds @ [x]) (new_files (ds @ [x]) sub) T)"
    and "under x (set (dleaves (DNode ks))) = {([x], e)} \<Longrightarrow>
      under x (node_files removed ds adds ks) = put_under x (new_files (ds @ [x]) sub)"
proof -
  have ctx: "additions_ok ds adds" "adds_split ds adds leaves kids" using assms(1) by (simp_all add: editing_def)
  have A: "under x (new_files ds adds) = put_under x (new_files (ds @ [x]) sub)" "sub \<noteq> []"
    using adds_split_cases(2) [OF ctx assms(2)] by simp_all
  show "under x (set (dleaves (DNode ks))) = put_under x T \<Longrightarrow>
      under x (node_files removed ds adds ks) = put_under x (overlaid removed (ds @ [x]) (new_files (ds @ [x]) sub) T)"
    by (simp add: under_node [OF assms(1)] A overlaid_put_under)
  from A(2) obtain q where "q \<in> new_files (ds @ [x]) sub" by (cases sub) (auto simp: new_files_def)
  then have "(x # fst q, snd q) \<in> put_under x (new_files (ds @ [x]) sub)" by (force simp: put_under_def)
  then show "under x (node_files removed ds adds ks) = put_under x (new_files (ds @ [x]) sub)"
    if "under x (set (dleaves (DNode ks))) = {([x], e)}"
    unfolding under_node [OF assms(1)] A that by (rule in_way) simp
qed

lemma node_none:
  assumes "editing P rec removed ds adds leaves kids ks" "map_of leaves x = None" "map_of kids x = None"
  shows "under x (node_files removed ds adds ks) = overlaid removed ds {} (under x (set (dleaves (DNode ks))))"
proof -
  have "under x (new_files ds adds) = {}" using assms adds_split_cases(3) by (auto simp: editing_def)
  then show ?thesis by (simp add: under_node [OF assms(1)])
qed

section \<open>The entries of a node\<close>

definition kept_so_far ::
  "prims \<Rightarrow> files \<Rightarrow> leaf_adds \<Rightarrow> child_adds \<Rightarrow> (entry \<times> dtree) list \<Rightarrow> splice_acc \<Rightarrow> 'z tree_store_scheme \<Rightarrow> bool" where
  "kept_so_far P R leaves kids ks a s \<longleftrightarrow>
     (\<exists>K. sa_kept a = map (child_line P) (map fst K) \<and> kids_ok P s K \<and>
        delivers R {y \<in> set (kid_names ks). y \<in> fst ` set leaves \<longrightarrow> y \<in> set (sa_leaves a)} K \<and>
        (\<not> sa_changed a \<longrightarrow> map fst K = map fst ks)) \<and>
     set (sa_leaves a) \<subseteq> set (kid_names ks) \<and> set (sa_dirs a) \<subseteq> set (kid_names ks) \<and>
     set (kid_names ks) \<inter> fst ` set kids \<subseteq> set (sa_dirs a)"

text \<open>One more entry, named \<open>x\<close>.\<close>

definition noted :: "leaf_adds \<Rightarrow> child_adds \<Rightarrow> string \<Rightarrow> splice_acc \<Rightarrow> splice_acc \<Rightarrow> bool" where
  "noted leaves kids x a a' \<longleftrightarrow>
     (\<forall>y. y \<noteq> x \<longrightarrow> (y \<in> set (sa_leaves a') \<longleftrightarrow> y \<in> set (sa_leaves a)) \<and> (y \<in> set (sa_dirs a') \<longleftrightarrow> y \<in> set (sa_dirs a))) \<and>
     (x \<in> fst ` set kids \<longrightarrow> x \<in> set (sa_dirs a'))"

lemma but_one:
  assumes "\<forall>y. y \<noteq> x \<longrightarrow> (y \<in> A' \<longleftrightarrow> y \<in> A)"
  shows "A \<subseteq> N \<Longrightarrow> A' \<subseteq> insert x N" "N \<inter> M \<subseteq> A \<Longrightarrow> x \<in> M \<longrightarrow> x \<in> A' \<Longrightarrow> insert x N \<inter> M \<subseteq> A'"
    "x \<notin> N \<Longrightarrow> {y \<in> insert x N. y \<in> L \<longrightarrow> y \<in> A'} =
      (if x \<in> L \<and> x \<notin> A' then {y \<in> N. y \<in> L \<longrightarrow> y \<in> A} else insert x {y \<in> N. y \<in> L \<longrightarrow> y \<in> A})"
  using assms by auto

lemma noted_names:
  assumes "kept_so_far P R leaves kids ks a s" "e_path (fst k) = x" "noted leaves kids x a a'"
  shows "set (sa_leaves a') \<subseteq> set (kid_names (ks @ [k]))" "set (sa_dirs a') \<subseteq> set (kid_names (ks @ [k]))"
    "set (kid_names (ks @ [k])) \<inter> fst ` set kids \<subseteq> set (sa_dirs a')"
proof -
  have names: "set (kid_names (ks @ [k])) = insert x (set (kid_names ks))" using assms(2) by auto
  have c: "set (sa_leaves a) \<subseteq> set (kid_names ks)" "set (sa_dirs a) \<subseteq> set (kid_names ks)"
    "set (kid_names ks) \<inter> fst ` set kids \<subseteq> set (sa_dirs a)" using assms(1) unfolding kept_so_far_def by blast+
  have n: "\<forall>y. y \<noteq> x \<longrightarrow> (y \<in> set (sa_leaves a') \<longleftrightarrow> y \<in> set (sa_leaves a))"
    "\<forall>y. y \<noteq> x \<longrightarrow> (y \<in> set (sa_dirs a') \<longleftrightarrow> y \<in> set (sa_dirs a))" "x \<in> fst ` set kids \<longrightarrow> x \<in> set (sa_dirs a')"
    using assms(3) by (simp_all add: noted_def)
  show "set (sa_leaves a') \<subseteq> set (kid_names (ks @ [k]))" "set (sa_dirs a') \<subseteq> set (kid_names (ks @ [k]))"
    "set (kid_names (ks @ [k])) \<inter> fst ` set kids \<subseteq> set (sa_dirs a')"
    unfolding names by (rule but_one(1) [OF n(1) c(1)], rule but_one(1) [OF n(2) c(2)], rule but_one(2) [OF n(2) c(3) n(3)])
qed

text \<open>The names that are done.\<close>

abbreviation handled :: "leaf_adds \<Rightarrow> (entry \<times> dtree) list \<Rightarrow> splice_acc \<Rightarrow> string set" where
  "handled leaves ks a \<equiv> {y \<in> set (kid_names ks). y \<in> fst ` set leaves \<longrightarrow> y \<in> set (sa_leaves a)}"

lemma handled_snoc:
  assumes "e_path (fst k) = x" "x \<notin> set (kid_names ks)" "noted leaves kids x a a'"
  shows "handled leaves (ks @ [k]) a' =
    (if x \<in> fst ` set leaves \<and> x \<notin> set (sa_leaves a') then handled leaves ks a else insert x (handled leaves ks a))"
proof -
  have names: "set (kid_names (ks @ [k])) = insert x (set (kid_names ks))" using assms(1) by auto
  have "\<forall>y. y \<noteq> x \<longrightarrow> (y \<in> set (sa_leaves a') \<longleftrightarrow> y \<in> set (sa_leaves a))" using assms(3) by (simp add: noted_def)
  from but_one(3) [OF this assms(2)] show ?thesis unfolding names .
qed

lemma collected_keep:
  assumes "kept_so_far P R leaves kids ks a s" "grows s s'" "e_path (fst k) = x" "x \<notin> set (kid_names ks)"
    and "noted leaves kids x a a'" "sa_kept a' = sa_kept a @ [child_line P e]" "e_path e = x"
    and "kid_ok (e, t)" "is_subtree e \<longrightarrow> rep (load P (ts_nodes s')) (e_hash e) t \<and> wf_dir t"
    and "set (kid_leaves (e, t)) = under x R" "x \<in> fst ` set leaves \<longrightarrow> x \<in> set (sa_leaves a')"
    and "\<not> sa_changed a' \<longrightarrow> \<not> sa_changed a \<and> e = fst k"
  shows "kept_so_far P R leaves kids (ks @ [k]) a' s'"
proof -
  let ?N = "handled leaves"
  from assms(1) obtain K where K: "sa_kept a = map (child_line P) (map fst K)" "kids_ok P s K" "delivers R (?N ks a) K"
    "\<not> sa_changed a \<longrightarrow> map fst K = map fst ks" unfolding kept_so_far_def by blast
  have "delivers R (insert x (?N ks a)) (K @ [(e, t)])"
    using delivers_snoc [OF K(3), of x "(e, t)"] assms(4,7,10) by simp
  moreover have "?N (ks @ [k]) a' = insert x (?N ks a)"
    unfolding handled_snoc [OF assms(3,4,5)] using assms(11) by (intro if_not_P) blast
  ultimately have "delivers R (?N (ks @ [k]) a') (K @ [(e, t)])" by simp
  moreover have "kids_ok P s' (K @ [(e, t)])"
    using kids_ok_grows [OF assms(2) K(2)] assms(8,9) by (simp add: kids_ok_append) (simp add: kids_ok_def subtrees_in_def)
  ultimately have "\<exists>K. sa_kept a' = map (child_line P) (map fst K) \<and> kids_ok P s' K \<and> delivers R (?N (ks @ [k]) a') K \<and>
      (\<not> sa_changed a' \<longrightarrow> map fst K = map fst (ks @ [k]))"
    using K(1,4) assms(6,12) by (intro exI [of _ "K @ [(e, t)]"]) auto
  moreover note noted_names [OF assms(1,3,5)]
  ultimately show ?thesis unfolding kept_so_far_def by blast
qed

lemma collected_drop:
  assumes "kept_so_far P R leaves kids ks a s" "grows s s'" "e_path (fst k) = x" "x \<notin> set (kid_names ks)"
    and "noted leaves kids x a a'" "sa_kept a' = sa_kept a" "sa_changed a'"
    and "x \<in> fst ` set leaves \<and> x \<notin> set (sa_leaves a') \<or> under x R = {}"
  shows "kept_so_far P R leaves kids (ks @ [k]) a' s'"
proof -
  let ?N = "handled leaves"
  from assms(1) obtain K where K: "sa_kept a = map (child_line P) (map fst K)" "kids_ok P s K" "delivers R (?N ks a) K"
    unfolding kept_so_far_def by blast
  have "x \<notin> ?N ks a" using assms(4) by simp
  from delivers_skip [OF K(3) _ delivers_names [OF K(3) this]] assms(8)
  have "delivers R (?N (ks @ [k]) a') K"
  proof (cases "x \<in> fst ` set leaves \<and> x \<notin> set (sa_leaves a')")
    case True
    then have "?N (ks @ [k]) a' = ?N ks a" unfolding handled_snoc [OF assms(3,4,5)] by (simp only: if_True simp_thms)
    with K(3) show ?thesis by simp
  next
    case False
    with assms(8) have "under x R = {}" by blast
    with \<open>under x R = {} \<Longrightarrow> delivers R (insert x (?N ks a)) K\<close> have "delivers R (insert x (?N ks a)) K" by blast
    moreover have "?N (ks @ [k]) a' = insert x (?N ks a)" unfolding handled_snoc [OF assms(3,4,5)] using False by (simp only: if_False)
    ultimately show ?thesis by simp
  qed
  moreover note noted_names [OF assms(1,3,5)]
  ultimately show ?thesis
    unfolding kept_so_far_def using K(1) kids_ok_grows [OF assms(2) K(2)] assms(6,7) by auto
qed

section \<open>An entry of a node\<close>

lemmas acc_defs = keep_def mark_changed_def handled_leaf_def handled_dir_def

lemma bindS_return: "bindS m (\<lambda>x. returnS x) = m"
  by (simp add: fun_eq_iff bindS_def split: prod.splits sum.splits)

lemma bindS_left: "bindS (returnS v) f = f v"
  by (simp add: fun_eq_iff)

lemma does_pair: "Q v s \<Longrightarrow> does P (Pair (Inr v)) s Q"
  by (simp add: does_def)

lemma new_leaf_ok:
  assumes "addable y" "path_parts y = ds @ [x]"
  shows "e_path (new_leaf y) = x" "kid_ok (new_leaf y, t)" "\<not> is_subtree (new_leaf y)"
    "keep_leaf P x y a = returnS (keep (child_line P (new_leaf y)) a)"
proof -
  have c: "component_ok x" "\<not> is_subtree y" "entry_ok y" "plain_entry (new_leaf y)"
    using assms by (auto simp: addable_def)
  show path: "e_path (new_leaf y) = x" and leaf: "\<not> is_subtree (new_leaf y)"
    using assms(2) c(2) by (simp_all add: new_leaf_def is_subtree_def)
  have "post_init (new_leaf y) = Inr ()"
    using c(3) component_entry_path [OF c(1)] path
    by (simp add: entry_ok_def post_init_def bindE_Inr_iff) (simp add: new_leaf_def post_init_fields_path)
  then have post: "post_init (y\<lparr>e_path := x\<rparr>) = Inr ()" using assms(2) by (simp add: new_leaf_def)
  then show "kid_ok (new_leaf y, t)"
    using c leaf path assms(2) by (auto simp: kid_ok_def child_ok_def entry_ok_def is_subtree_def subtree_kind_def new_leaf_def simp del: child_ok_sub)
  show "keep_leaf P x y a = returnS (keep (child_line P (new_leaf y)) a)"
    using post assms(2) path
    by (simp add: keep_leaf_def entry_to_leaf_line_def leaf_to_tree_entry_def replace_path_def path_parts_def [symmetric]
        new_leaf_def child_line_def fun_eq_iff bindS_def Let_def)
qed

lemma editing_kid:
  assumes "editing P rec removed ds adds leaves kids (ks @ (e, t) # zs)"
  shows "e_path e \<notin> set (kid_names ks)" "kid_ok (e, t)" "component_ok (e_path e)" "plain_text (e_path e)"
    "is_subtree e \<Longrightarrow> wf_dir t \<and> e_kind e = KIND_TREE \<and> set (kid_leaves (e, t)) = put_under (e_path e) (set (dleaves t))"
    "under (e_path e) (set (dleaves (DNode (ks @ (e, t) # zs)))) = set (kid_leaves (e, t))"
    "child_path (join_path ds) (e_path e) = join_path (ds @ [e_path e])"
    "path_is_removed (join_path (ds @ [e_path e])) removed \<longleftrightarrow> gone removed (ds @ [e_path e])"
proof -
  show k: "kid_ok (e, t)" and "e_path e \<notin> set (kid_names ks)" using assms by (auto simp: editing_def)
  show c: "component_ok (e_path e)" using k by (simp add: kid_ok_def child_ok_def del: child_ok_sub)
  show "plain_text (e_path e)"
    using k by (auto simp: kid_ok_def plain_entry_def entry_payload_def leaf_payload_def split: if_splits)
  show "under (e_path e) (set (dleaves (DNode (ks @ (e, t) # zs)))) = set (kid_leaves (e, t))"
    using under_kid(1) [of "ks @ (e, t) # zs" "(e, t)"] assms by (simp add: editing_def del: dleaves.simps)
  show "is_subtree e \<Longrightarrow> wf_dir t \<and> e_kind e = KIND_TREE \<and> set (kid_leaves (e, t)) = put_under (e_path e) (set (dleaves t))"
    using k assms by (auto simp: editing_def kid_ok_def is_subtree_def subtree_kind_def kid_leaves_def put_under_def)
  have n: "names_ok ds" using assms by (simp add: editing_def)
  then show "child_path (join_path ds) (e_path e) = join_path (ds @ [e_path e])" by (rule join_path_snoc)
  show "path_is_removed (join_path (ds @ [e_path e])) removed \<longleftrightarrow> gone removed (ds @ [e_path e])"
    using n c by (intro path_is_removed_iff) auto
qed

lemma new_dir_ok:
  assumes "editing P rec removed ds adds leaves kids ks" "map_of kids x = Some sub"
  shows "does P (keep_new_dir P rec (join_path (ds @ [x])) x sub a) s (\<lambda>a' s'. \<exists>h t.
    a' = keep (child_line P (dir_entry x h)) a \<and> rep (load P (ts_nodes s')) h t \<and> wf_dir t \<and>
    kid_ok (dir_entry x h, t) \<and> set (kid_leaves (dir_entry x h, t)) = put_under x (new_files (ds @ [x]) sub))"
proof -
  have below: "splices_below P rec removed ds adds ks" and dg: "digest_ok P" using assms(1) by (simp_all add: editing_def)
  have ctx: "additions_ok ds adds" "adds_split ds adds leaves kids" using assms(1) by (simp_all add: editing_def)
  have sub: "sub \<noteq> []" "set sub \<subseteq> set adds" "additions_ok (ds @ [x]) sub"
    using adds_split_cases(2) [OF ctx assms(2)] by simp_all
  then have x: "component_ok x" "plain_text x"
    by (cases sub; force simp: additions_ok_def addable_def lies_in_def)+
  have "does P (rec (join_path (ds @ [x])) None sub) s (spliced P removed (ds @ [x]) sub (DNode []))"
    using below x(1) sub unfolding splices_below_def by blast
  then show ?thesis
    unfolding keep_new_dir_def
  proof (rule does_bind)
    show "keeps P (rec (join_path (ds @ [x])) None sub)" using below by (simp add: splices_below_def)
    show "keeps P (case v of None \<Rightarrow> returnS a | Some h \<Rightarrow> returnS (keep (kept_subtree P KIND_TREE x h) a))" for v
      by (intro keeps_intros)
    fix v s' assume v: "spliced P removed (ds @ [x]) sub (DNode []) v s'" "store_ok P s'"
    have "new_files (ds @ [x]) sub \<noteq> {}" using sub(1) by (simp add: new_files_def)
    with v(1) obtain h t where h: "v = Some h" "rep (load P (ts_nodes s')) h t" "wf_dir t"
      "set (dleaves t) = new_files (ds @ [x]) sub" by (cases v) (auto simp: spliced_def)
    from dir_entry_ok [OF x stored_digest [OF dg v(2) h(2)]]
    have "kid_ok (dir_entry x h, t)" by (simp add: kid_ok_def del: child_ok_sub)
    with h show "does P (case v of None \<Rightarrow> returnS a | Some h \<Rightarrow> returnS (keep (kept_subtree P KIND_TREE x h) a)) s'
        (\<lambda>a' s'. \<exists>h t. a' = keep (child_line P (dir_entry x h)) a \<and> rep (load P (ts_nodes s')) h t \<and> wf_dir t \<and>
          kid_ok (dir_entry x h, t) \<and> set (kid_leaves (dir_entry x h, t)) = put_under x (new_files (ds @ [x]) sub))"
      unfolding \<open>v = Some h\<close> option.case dir_entry_child by (intro does_return exI [of _ h] exI [of _ t]) (simp add: kid_leaves_dir)
  qed
qed

lemma map_of_keys: "map_of kvs x = Some v \<Longrightarrow> x \<in> fst ` set kvs" "map_of kvs x = None \<Longrightarrow> x \<notin> fst ` set kvs"
  by (auto simp: map_of_eq_None_iff dest: map_of_SomeD intro: rev_image_eqI)

lemma keep_new_dir_keeps: "\<forall>d h as. keeps P (rec d h as) \<Longrightarrow> keeps P (keep_new_dir P rec full x sub a)"
  unfolding keep_new_dir_def by (intro keeps_intros) simp

lemma leaf_step:
  assumes ctx: "editing P rec removed ds adds leaves kids (ks @ (e, t) # zs)" and leaf: "\<not> is_subtree e"
    and col: "kept_so_far P (node_files removed ds adds (ks @ (e, t) # zs)) leaves kids ks a s"
  shows "does P (splice_leaf P rec (child_path (join_path ds) (e_path e)) leaves kids removed e a) s
    (kept_so_far P (node_files removed ds adds (ks @ (e, t) # zs)) leaves kids (ks @ [(e, t)]))"
proof -
  let ?x = "e_path e" and ?R = "node_files removed ds adds (ks @ (e, t) # zs)"
  note kid = editing_kid [OF ctx]
  have T: "under ?x (set (dleaves (DNode (ks @ (e, t) # zs)))) = {([?x], e)}"
    unfolding kid(6) using kid_leaves_leaf [OF leaf] .
  have split: "additions_ok ds adds" "adds_split ds adds leaves kids" and recs: "\<forall>d h as. keeps P (rec d h as)"
    using ctx by (simp_all add: editing_def splices_below_def)
  note keep = collected_keep [OF col, where k = "(e, t)" and x = ?x, simplified]
  note drop = collected_drop [OF col, where k = "(e, t)" and x = ?x, simplified]
  consider y where "map_of leaves ?x = Some y" | sub where "map_of leaves ?x = None" "map_of kids ?x = Some sub"
    | "map_of leaves ?x = None" "map_of kids ?x = None" by fastforce
  then show ?thesis
  proof cases
    case (1 y)
    note A = adds_split_cases(1) [OF split 1]
    note nl = new_leaf_ok [of y ds ?x] and R = node_leaf [OF ctx 1]
    have "kept_so_far P ?R leaves kids (ks @ [(e, t)]) (handled_leaf ?x (keep (child_line P (new_leaf y)) (mark_changed a))) s"
      "kept_so_far P ?R leaves kids (ks @ [(e, t)]) (mark_changed (handled_dir ?x (handled_leaf ?x (keep (child_line P (new_leaf y)) a)))) s"
      by (rule keep [where e = "new_leaf y" and t = "DNode []"];
          use A nl kid(1) R map_of_keys(2) [of kids ?x] in \<open>simp add: noted_def acc_defs kid_leaves_leaf\<close>)+
    then show ?thesis
      unfolding splice_leaf_def Let_def kid(7) by (simp add: 1 A nl(4) bindS_left does_pair does_return)
  next
    case (2 sub)
    note R = node_kids(2) [OF ctx 2(2) T]
    have done1: "kept_so_far P ?R leaves kids (ks @ [(e, t)]) a' s'"
      if "sa_kept a' = sa_kept a @ [child_line P (dir_entry ?x h)]" "sa_changed a'" "sa_leaves a' = sa_leaves a"
        "sa_dirs a' = ?x # sa_dirs a" "grows s s'" "rep (load P (ts_nodes s')) h t'" "wf_dir t'" "kid_ok (dir_entry ?x h, t')"
        "set (kid_leaves (dir_entry ?x h, t')) = put_under ?x (new_files (ds @ [?x]) sub)" for a' s' h t'
      by (rule keep [where e = "dir_entry ?x h" and t = t'])
        (use that kid(1) R map_of_keys(2) [OF 2(1)] in \<open>simp_all add: noted_def\<close>)
    have new: "does P (bindS (keep_new_dir P rec (join_path (ds @ [?x])) ?x sub (handled_dir ?x a0)) (\<lambda>a2. returnS (f a2))) s
        (kept_so_far P ?R leaves kids (ks @ [(e, t)]))"
      if "\<And>h. sa_kept (f (keep (child_line P (dir_entry ?x h)) (handled_dir ?x a0))) = sa_kept a @ [child_line P (dir_entry ?x h)] \<and>
          sa_changed (f (keep (child_line P (dir_entry ?x h)) (handled_dir ?x a0))) \<and>
          sa_leaves (f (keep (child_line P (dir_entry ?x h)) (handled_dir ?x a0))) = sa_leaves a \<and>
          sa_dirs (f (keep (child_line P (dir_entry ?x h)) (handled_dir ?x a0))) = ?x # sa_dirs a" for a0 f
      by (rule does_bind [OF new_dir_ok [OF ctx 2(2)] keep_new_dir_keeps [OF recs] keeps_return])
        (auto intro!: does_return done1 simp: that)
    from new [of id "mark_changed a"] new [of mark_changed a] show ?thesis
      unfolding splice_leaf_def Let_def kid(7) using 2 by (simp add: acc_defs bindS_return)
  next
    case 3
    note R = node_none [OF ctx 3, unfolded T]
    show ?thesis
    proof (cases "gone removed (ds @ [?x])")
      case True
      have "under ?x ?R = {}" unfolding R overlaid_def using True by auto
      then have "kept_so_far P ?R leaves kids (ks @ [(e, t)]) (mark_changed a) s"
        by (intro drop) (use kid(1) map_of_keys(2) [OF 3(2)] in \<open>simp_all add: noted_def acc_defs\<close>)
      with True 3 show ?thesis unfolding splice_leaf_def Let_def kid(7) kid(8) by (simp add: does_pair does_return)
    next
      case False
      have "under ?x ?R = {([?x], e)}" unfolding R by (rule overlaid_none) (use False in simp)
      then have "kept_so_far P ?R leaves kids (ks @ [(e, t)]) (keep (child_line P e) a) s"
        by (intro keep [where e = e and t = t])
          (use kid(1,2) leaf map_of_keys(2) [OF 3(1)] map_of_keys(2) [OF 3(2)] in \<open>simp_all add: noted_def acc_defs kid_leaves_leaf\<close>)
      with False 3 show ?thesis unfolding splice_leaf_def Let_def kid(7) kid(8) by (simp add: does_pair does_return child_line_def)
    qed
  qed
qed

lemma removed_inside:
  assumes "names_ok ds" "ds \<noteq> []" "gone removed (ds @ ps)" "\<not> gone removed ds"
  shows "\<exists>p \<in> set removed. prefix (join_path ds @ ''/'') p"
proof -
  from gone_beyond [OF assms(3,4)] obtain us where us: "us \<noteq> []" "join_path (ds @ us) \<in> set removed" by metis
  then have "join_path (ds @ us) = join_path ds @ ''/'' @ join_path us" using assms(2) by (simp add: join_path_def join_on_append)
  with us(2) show ?thesis by (intro bexI [of _ "join_path (ds @ us)"]) simp_all
qed

lemma splices_belowD:
  assumes "splices_below P rec removed ds adds ks" "component_ok x" "additions_ok (ds @ [x]) sub" "set sub \<subseteq> set adds"
  shows "sub \<noteq> [] \<Longrightarrow> does P (rec (join_path (ds @ [x])) None sub) s (spliced P removed (ds @ [x]) sub (DNode []))"
    "(e, t) \<in> set ks \<Longrightarrow> is_subtree e \<Longrightarrow> e_path e = x \<Longrightarrow> rep (load P (ts_nodes s)) (e_hash e) t \<Longrightarrow>
       does P (rec (join_path (ds @ [x])) (Some (e_hash e)) sub) s (spliced P removed (ds @ [x]) sub t)"
  using assms unfolding splices_below_def by blast+

lemma subtree_step:
  assumes ctx: "editing P rec removed ds adds leaves kids (ks @ (e, t) # zs)" and dir: "is_subtree e"
    and stored: "rep (load P (ts_nodes s)) (e_hash e) t"
    and col: "kept_so_far P (node_files removed ds adds (ks @ (e, t) # zs)) leaves kids ks a s"
  shows "does P (splice_subtree P rec (child_path (join_path ds) (e_path e)) leaves kids removed e a) s
    (kept_so_far P (node_files removed ds adds (ks @ (e, t) # zs)) leaves kids (ks @ [(e, t)]))"
proof -
  let ?x = "e_path e" and ?R = "node_files removed ds adds (ks @ (e, t) # zs)"
  let ?full = "join_path (ds @ [?x])"
  note kid = editing_kid [OF ctx]
  have tree: "wf_dir t" "e_kind e = KIND_TREE" and T: "under ?x (set (dleaves (DNode (ks @ (e, t) # zs)))) = put_under ?x (set (dleaves t))"
    using kid(5) [OF dir] kid(6) by simp_all
  have split: "additions_ok ds adds" "adds_split ds adds leaves kids" and recs: "\<forall>d h as. keeps P (rec d h as)"
    and below: "splices_below P rec removed ds adds (ks @ (e, t) # zs)" and dg: "digest_ok P" and names: "names_ok (ds @ [?x])"
    using ctx kid(3) by (simp_all add: editing_def splices_below_def)
  have self: "dir_entry ?x (e_hash e) = e" using kid(2) tree(2) dir_entry_self by (simp add: kid_ok_def del: child_ok_sub)
  note keep = collected_keep [OF col, where k = "(e, t)" and x = ?x, simplified]
  note drop = collected_drop [OF col, where k = "(e, t)" and x = ?x, simplified]
  have fresh: "?x \<notin> set (sa_leaves a)" using col kid(1) unfolding kept_so_far_def by blast
  consider y where "map_of leaves ?x = Some y" "map_of kids ?x = None"
    | "map_of leaves ?x = None" "map_of kids ?x = None" "gone removed (ds @ [?x])"
    | "map_of leaves ?x = None" "map_of kids ?x = None" "\<not> gone removed (ds @ [?x])"
        "\<not> (\<exists>p \<in> set removed. p = ?full \<or> prefix (?full @ ''/'') p)"
    | sub where "map_of leaves ?x = None" "sub = (case map_of kids ?x of None \<Rightarrow> [] | Some es \<Rightarrow> es)"
        "gone removed (ds @ [?x]) \<longrightarrow> map_of kids ?x \<noteq> None"
        "\<not> (\<not> gone removed (ds @ [?x]) \<and> \<not> (\<exists>p \<in> set removed. p = ?full \<or> prefix (?full @ ''/'') p) \<and> map_of kids ?x = None)"
    using adds_split_cases(1) [OF split, of ?x] by (cases "map_of leaves ?x") auto
  then show ?thesis
  proof cases
    case (1 y)
    note A = adds_split_cases(1) [OF split 1(1)]
    note nl = new_leaf_ok [of y ds ?x] and R = node_leaf [OF ctx 1(1)]
    have gone: "kept_so_far P ?R leaves kids (ks @ [(e, t)]) (mark_changed a) s"
      by (rule drop) (use kid(1) fresh map_of_keys(1) [OF 1(1)] map_of_keys(2) [OF 1(2)] in \<open>simp_all add: noted_def acc_defs\<close>)
    have "kept_so_far P ?R leaves kids (ks @ [(e, t)]) (mark_changed (handled_dir ?x (handled_leaf ?x (keep (child_line P (new_leaf y)) a)))) s"
      by (rule keep [where e = "new_leaf y" and t = "DNode []"];
          use A nl kid(1) R map_of_keys(2) [of kids ?x] in \<open>simp add: noted_def acc_defs kid_leaves_leaf\<close>)
    with gone show ?thesis
      unfolding splice_subtree_def Let_def kid(7) by (simp add: 1 A nl(4) bindS_left does_pair does_return)
  next
    case 2
    have "under ?x ?R = {}"
      unfolding node_none [OF ctx 2(1,2)] T using gone_append [OF 2(3)] by (force simp: overlaid_def put_under_def)
    then have "kept_so_far P ?R leaves kids (ks @ [(e, t)]) (mark_changed a) s"
      by (intro drop) (use kid(1) map_of_keys(2) [OF 2(2)] in \<open>simp_all add: noted_def acc_defs\<close>)
    with 2 show ?thesis unfolding splice_subtree_def Let_def kid(7) kid(8) by (simp add: does_pair does_return)
  next
    case 3
    have "\<not> gone removed (ds @ ps)" if "(ps, z) \<in> put_under ?x (set (dleaves t))" for ps z
    proof
      from that obtain qs where "ps = ?x # qs" by (auto simp: put_under_def)
      moreover assume "gone removed (ds @ ps)"
      ultimately have "gone removed ((ds @ [?x]) @ qs)" by simp
      from removed_inside [OF names _ this 3(3)] 3(4) show False by simp
    qed
    then have "under ?x ?R = put_under ?x (set (dleaves t))"
      unfolding node_none [OF ctx 3(1,2)] T by (intro overlaid_none) auto
    then have "kept_so_far P ?R leaves kids (ks @ [(e, t)]) (keep (child_line P e) a) s"
      by (intro keep [where e = e and t = t])
        (use kid(1,2) kid(5) [OF dir] stored map_of_keys(2) [OF 3(1)] map_of_keys(2) [OF 3(2)] in \<open>simp_all add: noted_def acc_defs\<close>)
    moreover have "kept_subtree P (e_kind e) ?x (e_hash e) = child_line P e" using self tree(2) dir_entry_child by metis
    ultimately show ?thesis
      using 3 unfolding splice_subtree_def Let_def kid(7) kid(8) by (simp add: does_pair does_return)
  next
    case (4 sub)
    let ?th = "if gone removed (ds @ [?x]) then None else Some (e_hash e)"
      and ?t = "if gone removed (ds @ [?x]) then DNode [] else t"
    have sub: "set sub \<subseteq> set adds" "additions_ok (ds @ [?x]) sub" "gone removed (ds @ [?x]) \<longrightarrow> sub \<noteq> []"
      using adds_split_cases(2) [OF split, of ?x] 4(2,3) by (auto split: option.splits simp: additions_ok_def apart_def)
    have R: "under ?x ?R = put_under ?x (overlaid removed (ds @ [?x]) (new_files (ds @ [?x]) sub) (set (dleaves ?t)))"
    proof (cases "map_of kids ?x")
      case None
      with 4(2,3) have "sub = []" "\<not> gone removed (ds @ [?x])" by simp_all
      with node_none [OF ctx 4(1) None] T show ?thesis
        using overlaid_put_under [of removed ds ?x "{}"] by (simp add: new_files_def)
    next
      case (Some es)
      with 4(2) node_kids(1) [OF ctx Some T] overlaid_gone [of removed "ds @ [?x]"] show ?thesis by simp
    qed
    have "does P (rec ?full ?th sub) s (spliced P removed (ds @ [?x]) sub ?t)"
      using splices_belowD(1) [OF below kid(3) sub(2,1)] splices_belowD(2) [OF below kid(3) sub(2,1) _ dir refl stored] sub(3)
      by (cases "gone removed (ds @ [?x])") simp_all
    then have "does P (bindS (rec ?full ?th sub) (\<lambda>r. case r of
        None \<Rightarrow> returnS (mark_changed (handled_dir ?x a))
      | Some h \<Rightarrow> returnS (keep (kept_subtree P KIND_TREE ?x h)
          (if h \<noteq> e_hash e then mark_changed (handled_dir ?x a) else handled_dir ?x a)))) s
        (kept_so_far P ?R leaves kids (ks @ [(e, t)]))" (is "does P (bindS _ ?f) s ?Q")
    proof (rule does_bind)
      show "keeps P (rec ?full ?th sub)" "keeps P (?f v)" for v using recs by (auto intro!: keeps_intros)
      fix v s' assume v: "spliced P removed (ds @ [?x]) sub ?t v s'" "store_ok P s'" "grows s s'"
      show "does P (?f v) s' ?Q"
      proof (cases v)
        case None
        with v(1) R have "under ?x ?R = {}" by (simp add: spliced_def)
        then have "?Q (mark_changed (handled_dir ?x a)) s'"
          by (intro collected_drop [OF col v(3), where x = ?x]) (use kid(1) in \<open>simp_all add: noted_def acc_defs\<close>)
        with None show ?thesis by (simp add: does_pair does_return)
      next
        case (Some h)
        with v(1) obtain t' where t': "rep (load P (ts_nodes s')) h t'" "wf_dir t'"
          "put_under ?x (set (dleaves t')) = under ?x ?R" by (auto simp: spliced_def R)
        from dir_entry_ok [OF kid(3,4) stored_digest [OF dg v(2) t'(1)]]
        have ok: "kid_ok (dir_entry ?x h, t')" by (simp add: kid_ok_def del: child_ok_sub)
        have "?Q (keep (child_line P (dir_entry ?x h))
            (if h \<noteq> e_hash e then mark_changed (handled_dir ?x a) else handled_dir ?x a)) s'"
          by (rule collected_keep [OF col v(3), where x = ?x and e = "dir_entry ?x h" and t = t'])
            (use kid(1) t' ok self map_of_keys(2) [OF 4(1)] in \<open>auto simp: noted_def acc_defs kid_leaves_dir\<close>)
        with Some show ?thesis by (simp add: does_pair does_return dir_entry_child)
      qed
    qed
    moreover have "(gone removed (ds @ [?x]) \<and> map_of kids ?x = None) = False" using 4(3) by blast
    moreover have "(\<not> gone removed (ds @ [?x]) \<and> \<not> (\<exists>p \<in> set removed. p = ?full \<or> prefix (?full @ ''/'') p) \<and>
        map_of kids ?x = None) = False" using 4(4) by blast
    ultimately show ?thesis
      unfolding splice_subtree_def Let_def kid(7) kid(8) 4(1) 4(2) [symmetric] by (simp only: if_False option.case)
  qed
qed

section \<open>The children of a node\<close>

lemma does_post: "does P m s Q \<Longrightarrow> (\<And>v s'. Q v s' \<Longrightarrow> R v s') \<Longrightarrow> does P m s R"
  unfolding does_def by blast

lemma keeps_step: "\<forall>d h as. keeps P (rec d h as) \<Longrightarrow>
    keeps P ((if is_subtree e then splice_subtree else splice_leaf) P rec full leaves kids removed e a)"
  unfolding splice_subtree_def splice_leaf_def keep_new_dir_def by (auto intro!: keeps_intros)

lemma entries_collected:
  assumes ctx: "editing P rec removed ds adds leaves kids ks" and "subtrees_in P s ks" "store_ok P s"
  shows "does P (foldS (\<lambda>a e. (if is_subtree e then splice_subtree else splice_leaf) P rec (child_path (join_path ds) (e_path e))
      leaves kids removed e a) \<lparr>sa_kept = [], sa_changed = False, sa_leaves = [], sa_dirs = []\<rparr> (map fst ks)) s
    (kept_so_far P (node_files removed ds adds ks) leaves kids ks)"
proof -
  let ?R = "node_files removed ds adds ks"
  have recs: "\<forall>d h as. keeps P (rec d h as)" using ctx by (simp add: editing_def splices_below_def)
  have "does P (foldS (\<lambda>a e. (if is_subtree e then splice_subtree else splice_leaf) P rec (child_path (join_path ds) (e_path e))
      leaves kids removed e a) \<lparr>sa_kept = [], sa_changed = False, sa_leaves = [], sa_dirs = []\<rparr> (map fst ks)) s
    (\<lambda>a s'. kept_so_far P ?R leaves kids (take (length (map fst ks)) ks) a s')"
  proof (rule does_fold [where J = "\<lambda>ys a s'. kept_so_far P ?R leaves kids (take (length ys) ks) a s'", OF keeps_step [OF recs]])
    show "kept_so_far P ?R leaves kids (take (length []) ks) \<lparr>sa_kept = [], sa_changed = False, sa_leaves = [], sa_dirs = []\<rparr> s"
      by (auto simp: kept_so_far_def delivers_def)
    fix ys e zs a s' assume e: "map fst ks = ys @ e # zs" and col: "kept_so_far P ?R leaves kids (take (length ys) ks) a s'" and g: "grows s s'"
    then have "length ys < length ks" "e = fst (ks ! length ys)"
      by (metis length_append length_map length_Cons less_add_Suc1 add_Suc_right, metis e length_map nth_append_length nth_map length_append less_add_Suc1 length_Cons add_Suc_right)
    then obtain t where k: "ks ! length ys = (e, t)" "length ys < length ks" by (cases "ks ! length ys") auto
    then have ks: "ks = take (length ys) ks @ (e, t) # drop (Suc (length ys)) ks" using id_take_nth_drop by metis
    have next_ks: "take (length (ys @ [e])) ks = take (length ys) ks @ [(e, t)]" using k by (simp add: take_Suc_conv_app_nth)
    have stored: "is_subtree e \<Longrightarrow> rep (load P (ts_nodes s')) (e_hash e) t"
      using assms(2) rep_grows [OF g] nth_mem [OF k(2)] k(1) by (auto simp: subtrees_in_def)
    note leaf = leaf_step [of P rec removed ds adds leaves kids "take (length ys) ks" e t "drop (Suc (length ys)) ks", folded ks, OF ctx _ col]
      and sub = subtree_step [of P rec removed ds adds leaves kids "take (length ys) ks" e t "drop (Suc (length ys)) ks", folded ks, OF ctx _ stored col]
    show "does P ((if is_subtree e then splice_subtree else splice_leaf) P rec (child_path (join_path ds) (e_path e)) leaves kids removed e a) s'
        (kept_so_far P ?R leaves kids (take (length (ys @ [e])) ks))"
      unfolding next_ks using leaf sub by (cases "is_subtree e") simp_all
  qed (use assms(3) in simp_all)
  then show ?thesis by simp
qed

text \<open>What is left: new leaves, then new directories.\<close>

definition gathered :: "prims \<Rightarrow> files \<Rightarrow> string set \<Rightarrow> (entry \<times> dtree) list \<Rightarrow> splice_acc \<Rightarrow> splice_acc \<Rightarrow> 'z tree_store_scheme \<Rightarrow> bool" where
  "gathered P R N ks a0 a s \<longleftrightarrow>
     (\<exists>K. sa_kept a = map (child_line P) (map fst K) \<and> kids_ok P s K \<and> delivers R N K \<and>
        (\<not> sa_changed a \<longrightarrow> map fst K = map fst ks)) \<and> sa_leaves a = sa_leaves a0 \<and> sa_dirs a = sa_dirs a0"

lemma gathered_keep:
  assumes "gathered P R N ks a0 a s" "grows s s'" "x \<notin> N" "e_path e = x" "kid_ok (e, t)"
    and "is_subtree e \<longrightarrow> rep (load P (ts_nodes s')) (e_hash e) t \<and> wf_dir t" "set (kid_leaves (e, t)) = under x R"
  shows "gathered P R (insert x N) ks a0 (mark_changed (keep (child_line P e) a)) s'"
proof -
  from assms(1) obtain K where K: "sa_kept a = map (child_line P) (map fst K)" "kids_ok P s K" "delivers R N K"
    "sa_leaves a = sa_leaves a0" "sa_dirs a = sa_dirs a0" unfolding gathered_def by blast
  have "delivers R (insert x N) (K @ [(e, t)])" using delivers_snoc [OF K(3) assms(3), of "(e, t)"] assms(4,7) by simp
  moreover have "kids_ok P s' (K @ [(e, t)])"
    using kids_ok_grows [OF assms(2) K(2)] assms(5,6) by (simp add: kids_ok_append) (simp add: kids_ok_def subtrees_in_def)
  ultimately show ?thesis using K unfolding gathered_def by (auto simp: acc_defs intro!: exI [of _ "K @ [(e, t)]"])
qed

lemma new_leaves_gathered:
  fixes s :: "'z tree_store_scheme"
  assumes ctx: "editing P rec removed ds adds leaves kids ks" and "gathered P (node_files removed ds adds ks) N ks a0 a0 s" "store_ok P s"
    and N: "\<forall>x \<in> fst ` set leaves. x \<in> N \<longleftrightarrow> x \<in> set (sa_leaves a0)"
  shows "does P (foldS (\<lambda>a (name, y). if name \<in> set (sa_leaves a0) then returnS a
      else bindS (keep_leaf P name y a) (\<lambda>a'. returnS (mark_changed a'))) a0 leaves) s
    (gathered P (node_files removed ds adds ks) (N \<union> fst ` set leaves) ks a0)"
proof -
  let ?R = "node_files removed ds adds ks"
  have split: "additions_ok ds adds" "adds_split ds adds leaves kids" using ctx by (simp_all add: editing_def)
  have dist: "distinct (map fst leaves)" using split(2) unfolding adds_split_def by blast
  show ?thesis
  proof (rule does_fold [where s0 = s and J = "\<lambda>ls. gathered P ?R (N \<union> fst ` set ls) ks a0"])
    fix ys xy zs a and s' :: "'z tree_store_scheme"
    assume l: "leaves = ys @ xy # zs" and g: "gathered P ?R (N \<union> fst ` set ys) ks a0 a s'"
    obtain x y where xy: "xy = (x, y)" by (cases xy)
    have y: "map_of leaves x = Some y" using map_of_is_SomeI [OF dist] l xy by simp
    note A = adds_split_cases(1) [OF split y] and R = node_leaf [OF ctx y]
    note nl = new_leaf_ok [of y ds x]
    have fresh: "x \<notin> fst ` set ys" using l xy dist by auto
    have xN: "x \<in> N \<longleftrightarrow> x \<in> set (sa_leaves a0)" using N map_of_keys(1) [OF y] by blast
    have "x \<notin> N \<Longrightarrow> gathered P ?R (insert x (N \<union> fst ` set ys)) ks a0 (mark_changed (keep (child_line P (new_leaf y)) a)) s'"
      by (rule gathered_keep [OF g grows_refl, where t = "DNode []"]) (use fresh A nl R in \<open>simp_all add: kid_leaves_leaf\<close>)
    then show "does P ((\<lambda>a (name, y). if name \<in> set (sa_leaves a0) then returnS a
        else bindS (keep_leaf P name y a) (\<lambda>a'. returnS (mark_changed a'))) a xy) s' (gathered P ?R (N \<union> fst ` set (ys @ [xy])) ks a0)"
      using g xN by (cases "x \<in> N") (simp_all add: xy A nl(4) bindS_left does_pair does_return insert_absorb)
  next
    show "grows s s" by simp
  qed (use assms(2,3) in \<open>auto intro!: keeps_intros simp: keep_leaf_def\<close>)
qed

lemma new_dirs_gathered:
  fixes s :: "'z tree_store_scheme"
  assumes ctx: "editing P rec removed ds adds leaves kids ks" and "gathered P (node_files removed ds adds ks) N ks a0 a0 s" "store_ok P s"
    and N: "\<forall>x \<in> fst ` set kids. if x \<in> set (sa_dirs a0) then x \<in> N else x \<notin> N \<and> x \<notin> set (kid_names ks)"
  shows "does P (foldS (\<lambda>a (name, sub). if name \<in> set (sa_dirs a0) then returnS a
      else bindS (rec (child_path (join_path ds) name) None sub) (\<lambda>r. case r of
             None \<Rightarrow> returnS a
           | Some h \<Rightarrow> returnS (mark_changed (keep (kept_subtree P KIND_TREE name h) a)))) a0 kids) s
    (gathered P (node_files removed ds adds ks) (N \<union> fst ` set kids) ks a0)"
proof -
  let ?R = "node_files removed ds adds ks"
  have split: "additions_ok ds adds" "adds_split ds adds leaves kids" and recs: "\<forall>d h as. keeps P (rec d h as)"
    and names: "names_ok ds" and dg: "digest_ok P" and below: "splices_below P rec removed ds adds ks"
    and plain: "distinct (kid_names ks)" "\<forall>k \<in> set ks. kid_ok k"
    using ctx by (simp_all add: editing_def splices_below_def)
  have dist: "distinct (map fst kids)" using split(2) unfolding adds_split_def by blast
  show ?thesis
  proof (rule does_fold [where s0 = s and J = "\<lambda>ls. gathered P ?R (N \<union> fst ` set ls) ks a0"])
    fix ys xy zs a and s' :: "'z tree_store_scheme"
    assume l: "kids = ys @ xy # zs" and g: "gathered P ?R (N \<union> fst ` set ys) ks a0 a s'"
    obtain x sub where xy: "xy = (x, sub)" by (cases xy)
    have sub: "map_of kids x = Some sub" using map_of_is_SomeI [OF dist] l xy by simp
    note A = adds_split_cases(2) [OF split sub]
    have fresh: "x \<notin> fst ` set ys" using l xy dist by auto
    have xN: "if x \<in> set (sa_dirs a0) then x \<in> N else x \<notin> N \<and> x \<notin> set (kid_names ks)" using N map_of_keys(1) [OF sub] by blast
    show "does P ((\<lambda>a (name, sub). if name \<in> set (sa_dirs a0) then returnS a
        else bindS (rec (child_path (join_path ds) name) None sub) (\<lambda>r. case r of
             None \<Rightarrow> returnS a
           | Some h \<Rightarrow> returnS (mark_changed (keep (kept_subtree P KIND_TREE name h) a)))) a xy) s'
        (gathered P ?R (N \<union> fst ` set (ys @ [xy])) ks a0)"
    proof (cases "x \<in> set (sa_dirs a0)")
      case True
      with g xN show ?thesis by (simp add: xy does_pair does_return insert_absorb)
    next
      case False
      with xN have out: "x \<notin> N \<union> fst ` set ys" "x \<notin> set (kid_names ks)" using fresh by simp_all
      have "under x (set (dleaves (DNode ks))) = put_under x {}" using under_kid(2) [OF plain out(2)] by simp
      from node_kids(1) [OF ctx sub this] have R: "under x ?R = put_under x (new_files (ds @ [x]) sub)" by simp
      note new = new_dir_ok [OF ctx sub, of a s']
      have "does P (bindS (keep_new_dir P rec (join_path (ds @ [x])) x sub a) (\<lambda>a'. returnS (if a' = a then a else mark_changed a'))) s'
          (gathered P ?R (insert x (N \<union> fst ` set ys)) ks a0)"
      proof (rule does_bind [OF new keep_new_dir_keeps [OF recs] keeps_return])
        fix v s1 assume v: "\<exists>h t. v = keep (child_line P (dir_entry x h)) a \<and> rep (load P (ts_nodes s1)) h t \<and> wf_dir t \<and>
            kid_ok (dir_entry x h, t) \<and> set (kid_leaves (dir_entry x h, t)) = put_under x (new_files (ds @ [x]) sub)" "grows s' s1"
        then obtain h t where h: "v = keep (child_line P (dir_entry x h)) a" "rep (load P (ts_nodes s1)) h t" "wf_dir t"
          "kid_ok (dir_entry x h, t)" "set (kid_leaves (dir_entry x h, t)) = put_under x (new_files (ds @ [x]) sub)" by blast
        have "gathered P ?R (insert x (N \<union> fst ` set ys)) ks a0 (mark_changed v) s1"
          unfolding h(1) by (rule gathered_keep [OF g v(2) out(1), where t = t]) (use h R in simp_all)
        moreover have "v \<noteq> a" unfolding h(1) keep_def by (metis append_self_conv list.distinct(1) splice_acc.select_convs(1) splice_acc.surjective splice_acc.update_convs(1))
        ultimately show "does P (returnS (if v = a then a else mark_changed v)) s1 (gathered P ?R (insert x (N \<union> fst ` set ys)) ks a0)"
          by (simp add: does_pair does_return)
      qed
      moreover have "keep c a \<noteq> a" for c
        unfolding keep_def by (metis append_self_conv list.distinct(1) splice_acc.select_convs(1) splice_acc.surjective splice_acc.update_convs(1))
      then have "bindS (keep_new_dir P rec (join_path (ds @ [x])) x sub a) (\<lambda>a'. returnS (if a' = a then a else mark_changed a')) =
          bindS (rec (join_path (ds @ [x])) None sub) (\<lambda>r. case r of
             None \<Rightarrow> returnS a | Some h \<Rightarrow> returnS (mark_changed (keep (kept_subtree P KIND_TREE x h) a)))"
        by (simp add: keep_new_dir_def fun_eq_iff bindS_def split: prod.splits sum.splits option.splits)
      ultimately show ?thesis using False join_path_snoc [OF names] by (simp add: xy)
    qed
  next
    show "grows s s" by simp
  qed (use assms(2,3) recs in \<open>auto intro!: keeps_intros\<close>)
qed

text \<open>The children of an edited node deliver its files.\<close>

definition edited :: "prims \<Rightarrow> files \<Rightarrow> string set \<Rightarrow> (entry \<times> dtree) list \<Rightarrow> child list \<times> bool \<Rightarrow> 'z tree_store_scheme \<Rightarrow> bool" where
  "edited P R N ks kc s \<longleftrightarrow>
     (\<exists>K. fst kc = map (child_line P) (map fst K) \<and> kids_ok P s K \<and> delivers R N K \<and> (\<not> snd kc \<longrightarrow> map fst K = map fst ks))"

lemma splice_children_keeps: "\<forall>d h as. keeps P (rec d h as) \<Longrightarrow> keeps P (splice_children P rec d es leaves kids removed)"
  by (rule keeps_splice_children) simp

lemma children_edited:
  fixes s :: "'z tree_store_scheme"
  assumes ctx: "editing P rec removed ds adds leaves kids ks" and "subtrees_in P s ks" "store_ok P s"
  shows "does P (splice_children P rec (join_path ds) (map fst ks) leaves kids removed) s
    (edited P (node_files removed ds adds ks) (set (kid_names ks) \<union> fst ` set leaves \<union> fst ` set kids) ks)"
proof -
  let ?R = "node_files removed ds adds ks"
  have recs: "\<forall>d h as. keeps P (rec d h as)" using ctx by (simp add: editing_def splices_below_def)
  have split: "additions_ok ds adds" "adds_split ds adds leaves kids" using ctx by (simp_all add: editing_def)
  have apart: "x \<in> fst ` set leaves \<Longrightarrow> x \<notin> fst ` set kids" for x
    using adds_split_cases(1) [OF split, of x] by (metis map_of_eq_None_iff option.exhaust)
  show ?thesis
    unfolding splice_children_def
  proof (rule does_bind [OF entries_collected [OF assms]])
    fix a1 :: splice_acc and s1 :: "'z tree_store_scheme"
    assume col: "kept_so_far P ?R leaves kids ks a1 s1" and ok1: "store_ok P s1"
    have g1: "gathered P ?R (handled leaves ks a1) ks a1 a1 s1" using col unfolding kept_so_far_def gathered_def by blast
    have c: "set (sa_leaves a1) \<subseteq> set (kid_names ks)" "set (sa_dirs a1) \<subseteq> set (kid_names ks)"
      "set (kid_names ks) \<inter> fst ` set kids \<subseteq> set (sa_dirs a1)" using col unfolding kept_so_far_def by blast+
    have N1: "\<forall>x \<in> fst ` set leaves. x \<in> handled leaves ks a1 \<longleftrightarrow> x \<in> set (sa_leaves a1)" using c(1) by blast
    show "does P (bindS (foldS (\<lambda>a (name, new_leaf).
         if name \<in> set (sa_leaves a1) then returnS a
         else bindS (keep_leaf P name new_leaf a) (\<lambda>a'. returnS (mark_changed a'))) a1 leaves) (\<lambda>a2.
     bindS (foldS (\<lambda>a (name, adds).
         if name \<in> set (sa_dirs a2) then returnS a
         else bindS (rec (child_path (join_path ds) name) None adds) (\<lambda>r. case r of
                None \<Rightarrow> returnS a
              | Some h \<Rightarrow> returnS (mark_changed (keep (kept_subtree P KIND_TREE name h) a)))) a2 kids)
       (\<lambda>a3. returnS (sa_kept a3, sa_changed a3)))) s1
      (edited P ?R (set (kid_names ks) \<union> fst ` set leaves \<union> fst ` set kids) ks)"
    proof (rule does_bind [OF new_leaves_gathered [OF ctx g1 ok1 N1]])
      fix a2 :: splice_acc and s2 :: "'z tree_store_scheme"
      assume g: "gathered P ?R (handled leaves ks a1 \<union> fst ` set leaves) ks a1 a2 s2" and ok2: "store_ok P s2"
      then have g2: "gathered P ?R (handled leaves ks a1 \<union> fst ` set leaves) ks a2 a2 s2" and dirs: "sa_dirs a2 = sa_dirs a1"
        unfolding gathered_def by blast+
      have "if x \<in> set (sa_dirs a2) then x \<in> handled leaves ks a1 \<union> fst ` set leaves
          else x \<notin> handled leaves ks a1 \<union> fst ` set leaves \<and> x \<notin> set (kid_names ks)" if "x \<in> fst ` set kids" for x
      proof (cases "x \<in> set (sa_dirs a1)")
        case True
        then have "x \<in> set (kid_names ks)" using c(2) by blast
        with apart that True dirs show ?thesis by (auto simp del: set_map)
      next
        case False
        then have "x \<notin> set (kid_names ks)" using c(3) that by blast
        with apart that False dirs show ?thesis by (auto simp del: set_map)
      qed
      then have N2: "\<forall>x \<in> fst ` set kids. if x \<in> set (sa_dirs a2) then x \<in> handled leaves ks a1 \<union> fst ` set leaves
          else x \<notin> handled leaves ks a1 \<union> fst ` set leaves \<and> x \<notin> set (kid_names ks)" by blast
      have all: "handled leaves ks a1 \<union> fst ` set leaves \<union> fst ` set kids = set (kid_names ks) \<union> fst ` set leaves \<union> fst ` set kids"
        by blast
      show "does P (bindS (foldS (\<lambda>a (name, adds).
         if name \<in> set (sa_dirs a2) then returnS a
         else bindS (rec (child_path (join_path ds) name) None adds) (\<lambda>r. case r of
                None \<Rightarrow> returnS a
              | Some h \<Rightarrow> returnS (mark_changed (keep (kept_subtree P KIND_TREE name h) a)))) a2 kids)
         (\<lambda>a3. returnS (sa_kept a3, sa_changed a3))) s2
        (edited P ?R (set (kid_names ks) \<union> fst ` set leaves \<union> fst ` set kids) ks)"
      proof (rule does_bind [OF new_dirs_gathered [OF ctx g2 ok2 N2]])
        fix a3 :: splice_acc and s3 :: "'z tree_store_scheme"
        assume "gathered P ?R (handled leaves ks a1 \<union> fst ` set leaves \<union> fst ` set kids) ks a2 a3 s3"
        then show "does P (returnS (sa_kept a3, sa_changed a3)) s3
            (edited P ?R (set (kid_names ks) \<union> fst ` set leaves \<union> fst ` set kids) ks)"
          unfolding all by (intro does_return) (auto simp: gathered_def edited_def)
      qed (use recs in \<open>auto intro!: keeps_intros\<close>)
    qed (use recs in \<open>auto intro!: keeps_intros simp: keep_leaf_def\<close>)
  qed (use recs in \<open>auto intro!: keeps_intros keeps_step simp: keep_leaf_def\<close>)
qed

section \<open>A node and a directory\<close>

lemma delivered_size:
  assumes "delivers R N K" "finite N"
  shows "length K \<le> card N"
proof -
  have "distinct (kid_names K)" using assms(1) unfolding delivers_def by blast
  from distinct_card [OF this] have "length K = card (set (kid_names K))" by simp
  also have "\<dots> \<le> card N" using assms unfolding delivers_def by (intro card_mono) blast+
  finally show ?thesis .
qed

lemma node_heads:
  assumes "editing P rec removed ds adds leaves kids ks"
  shows "\<forall>(ps, y) \<in> node_files removed ds adds ks. ps \<noteq> [] \<and> hd ps \<in> set (kid_names ks) \<union> fst ` set leaves \<union> fst ` set kids"
proof -
  have split: "additions_ok ds adds" "adds_split ds adds leaves kids" using assms by (simp_all add: editing_def)
  have "ps \<noteq> [] \<and> hd ps \<in> set (kid_names ks)" if "(ps, y) \<in> set (dleaves (DNode ks))" for ps y
  proof -
    have ne: "ps \<noteq> []" using dleaves_nonempty [OF that] .
    with that have "(ps, y) \<in> under (hd ps) (set (dleaves (DNode ks)))" by (simp add: under_def del: dleaves.simps)
    with under_kid(2) [of ks "hd ps"] assms ne show ?thesis by (auto simp: editing_def simp del: dleaves.simps)
  qed
  moreover have "(ps, y) \<in> set (dleaves (DNode ks)) \<or> (ps, y) \<in> new_files ds adds" if "(ps, y) \<in> node_files removed ds adds ks" for ps y
    using that unfolding node_files_def overlaid_def by blast
  ultimately show ?thesis using new_files_heads [OF split] by blast
qed

lemma finish_ok:
  fixes s :: "'z tree_store_scheme"
  assumes "codec_ok P" and ctx: "editing P rec removed ds adds leaves kids ks"
    and ed: "edited P (node_files removed ds adds ks) (set (kid_names ks) \<union> fst ` set leaves \<union> fst ` set kids) ks kc s"
    and old: "case th of None \<Rightarrow> ks = [] | Some h \<Rightarrow> load P (ts_nodes s) h = Inr (Some (map fst ks))" and "node_ok (map fst ks)"
    and size: "length ks + card (set adds) \<le> shard_max P * shard_max P" and "store_ok P s"
  shows "does P (finish_splice P th kc) s (spliced P removed ds adds (DNode ks))"
proof -
  let ?R = "node_files removed ds adds ks" and ?N = "set (kid_names ks) \<union> fst ` set leaves \<union> fst ` set kids"
  have split: "additions_ok ds adds" "adds_split ds adds leaves kids" and dg: "digest_ok P" using ctx by (simp_all add: editing_def)
  from ed obtain K where K: "fst kc = map (child_line P) (map fst K)" "kids_ok P s K" "delivers ?R ?N K"
    "\<not> snd kc \<longrightarrow> map fst K = map fst ks" unfolding edited_def by blast
  have files: "set (concat (map kid_leaves K)) = ?R" by (rule delivers_all [OF K(3) node_heads [OF ctx]])
  have plain: "plain_kids K" using K(2) by (auto simp: kids_ok_def plain_kids_def kid_ok_def)
  have sub: "subtrees_in P s K" using K(2) by (simp add: kids_ok_def)
  consider "K = []" | h where "K \<noteq> []" "\<not> snd kc" "th = Some h" | "K \<noteq> []" "snd kc \<or> th = None" by (cases th) auto
  then show ?thesis
  proof cases
    case 1
    then have "?R = {}" using files by simp
    then have "spliced P removed ds adds (DNode ks) None s" by (simp add: spliced_def node_files_def del: dleaves.simps)
    with 1 K(1) show ?thesis by (cases kc) (simp add: finish_splice_def does_return)
  next
    case (2 h)
    with K(4) old have load: "load P (ts_nodes s) h = Inr (Some (map fst K))" "map fst K = map fst ks" by simp_all
    have "rep (load P (ts_nodes s)) h (DNode K)" using load(1) sub by (auto simp: subtrees_in_def)
    moreover have "wf_dir (DNode K)" using load(2) assms(5) plain sub by (auto simp: subtrees_in_def)
    moreover have "set (dleaves (DNode K)) = ?R" unfolding dleaves_kids dtree.sel by (rule files)
    ultimately have "spliced P removed ds adds (DNode ks) (Some h) s"
      unfolding spliced_def Let_def option.case node_files_def by blast
    with 2 K(1) show ?thesis by (cases kc) (simp add: finish_splice_def does_return)
  next
    case 3
    have kids: "dir_children K" using 3(1) K(2,3) plain by (auto simp: dir_children_def delivers_def kids_ok_def kid_ok_def)
    have "card ?N \<le> card (set (kid_names ks)) + card (fst ` set leaves \<union> fst ` set kids)" unfolding Un_assoc by (rule card_Un_le)
    also have "\<dots> \<le> length ks + card (set adds)"
      using split_names [OF split] card_length [of "kid_names ks"] by (simp del: set_map)
    finally have len: "length K \<le> shard_max P * shard_max P" using delivered_size [OF K(3)] size by simp
    from build_children_ok [OF assms(1) dg kids sub len assms(7) known_Nil] obtain h s' where
      run: "build_children P False [] (map (child_line P) (map fst K)) s = (Inr h, s')"
      and res: "no_clash P s' \<Longrightarrow> \<exists>t. rep (load P (ts_nodes s')) h t \<and> wf_dir t \<and> logical t = sort_key (\<lambda>k. e_path (fst k)) K" by blast
    have "spliced P removed ds adds (DNode ks) (Some h) s'" if nc: "no_clash P s'"
    proof -
      from res [OF nc] obtain t where t: "rep (load P (ts_nodes s')) h t" "wf_dir t" "logical t = sort_key (\<lambda>k. e_path (fst k)) K" by blast
      have "set (dleaves t) = ?R" unfolding dleaves_logical [of t] t(3) files [symmetric] by simp
      with t show ?thesis unfolding spliced_def Let_def option.case node_files_def by blast
    qed
    moreover have "finish_splice P th kc s = (Inr (Some h), s')"
      using 3 K(1) run by (cases kc; cases th) (auto simp: finish_splice_def bindS_def)
    ultimately show ?thesis by (simp add: does_def)
  qed
qed

text \<open>Trees whose directories are single nodes of at most \<open>b\<close> entries.\<close>

fun unsharded :: "nat \<Rightarrow> dtree \<Rightarrow> bool" where
  "unsharded b (DNode kids) \<longleftrightarrow> length kids \<le> b \<and>
     (\<forall>(e, t) \<in> set kids. e_kind e \<noteq> KIND_SHARD \<and> plain_entry e \<and> (is_subtree e \<longrightarrow> unsharded b t))"

text \<open>A tree a splice starts from, none for a new directory.\<close>

definition start :: "prims \<Rightarrow> 'z tree_store_scheme \<Rightarrow> string option \<Rightarrow> dtree \<Rightarrow> bool" where
  "start P s th t \<longleftrightarrow> (case th of None \<Rightarrow> t = DNode [] | Some h \<Rightarrow> rep (load P (ts_nodes s)) h t \<and> wf_dir t)"

definition roomy :: "prims \<Rightarrow> nat \<Rightarrow> nat \<Rightarrow> string list \<Rightarrow> entry list \<Rightarrow> dtree \<Rightarrow> bool" where
  "roomy P b n ds adds t \<longleftrightarrow>
     unsharded b t \<and> steps t \<le> n \<and> (\<forall>e \<in> set adds. length (path_parts e) \<le> length ds + n) \<and>
     b + card (set adds) \<le> shard_max P * shard_max P"

lemma roomy_kid:
  assumes "roomy P b (Suc n) ds adds (DNode ks)" "set sub \<subseteq> set adds"
  shows "(e, t) \<in> set ks \<Longrightarrow> is_subtree e \<Longrightarrow> roomy P b n (ds @ [x]) sub t"
    and "additions_ok (ds @ [x]) sub \<Longrightarrow> sub \<noteq> [] \<Longrightarrow> roomy P b n (ds @ [x]) sub (DNode [])"
proof -
  have size: "b + card (set sub) \<le> shard_max P * shard_max P"
    using assms card_mono [of "set adds" "set sub"] by (simp add: roomy_def)
  have long: "\<forall>e \<in> set sub. length (path_parts e) \<le> length (ds @ [x]) + n" using assms by (auto simp: roomy_def)
  show "roomy P b n (ds @ [x]) sub t" if k: "(e, t) \<in> set ks" "is_subtree e"
  proof -
    have "Suc (steps t) \<le> sum_list (map (\<lambda>(e, t). if is_subtree e then Suc (steps t) else 0) ks)"
      using k by (induction ks) auto
    then have "steps t \<le> n" using assms(1) k(2) by (simp add: roomy_def)
    moreover have "unsharded b t" using assms(1) k by (auto simp: roomy_def)
    ultimately show ?thesis using size long by (simp add: roomy_def)
  qed
  show "roomy P b n (ds @ [x]) sub (DNode [])" if "additions_ok (ds @ [x]) sub" "sub \<noteq> []"
  proof -
    from that obtain e rest where "e \<in> set sub" "path_parts e = (ds @ [x]) @ rest" "rest \<noteq> []"
      by (cases sub) (auto simp: additions_ok_def lies_in_def)
    with long have "1 \<le> n" by (cases rest) auto
    with size long show ?thesis by (simp add: roomy_def)
  qed
qed

lemma load_known_ok: "load P (ts_nodes s) h = Inr (Some es) \<Longrightarrow> load_known P h s = (Inr es, s)"
  by (simp add: load_known_def loadS_def bindS_def)

lemma directory_spliced:
  fixes s :: "'z tree_store_scheme"
  assumes "codec_ok P" "digest_ok P"
  shows "names_ok ds \<Longrightarrow> additions_ok ds adds \<Longrightarrow> start P s th t \<Longrightarrow> roomy P b n ds adds t \<Longrightarrow>
    does P (splice_directory P removed n (join_path ds) th adds) s (spliced P removed ds adds t)"
proof (induction n arbitrary: ds adds s th t)
  case 0
  then show ?case by (cases t) (simp add: roomy_def)
next
  case (Suc n)
  obtain ks where t: "t = DNode ks" by (cases t)
  obtain leaves kids where sp: "split_additions (join_path ds) adds = (leaves, kids)" by fastforce
  have split: "adds_split ds adds leaves kids"
    using split_additions_ok [OF Suc.prems(1), of adds] Suc.prems(2) sp by (force simp: additions_ok_def apart_def)
  have node: "node_ok (map fst ks)" "distinct (kid_names ks)" "\<forall>k \<in> set ks. kid_ok k \<and> (is_subtree (fst k) \<longrightarrow> wf_dir (snd k))"
  proof -
    have wf: "wf_dir (DNode ks)" using Suc.prems(3) t by (cases th) (auto simp: start_def node_ok_def plain_kids_def)
    then show n: "node_ok (map fst ks)" by simp
    then show "distinct (kid_names ks)" by (simp add: node_ok_def comp_def strict_sorted_iff)
    show "\<forall>k \<in> set ks. kid_ok k \<and> (is_subtree (fst k) \<longrightarrow> wf_dir (snd k))"
      using wf n Suc.prems(4) t by (auto simp: roomy_def kid_ok_def node_ok_def simp del: child_ok_sub)
  qed
  have "splices_below P (splice_directory P removed n :: 'z tree_store_scheme splice_rec) removed ds adds ks"
    unfolding splices_below_def
  proof (intro conjI allI impI)
    show "keeps P (splice_directory P removed n d h as)" for d h as by (rule keeps_splice_directory)
    fix x th' t' sub and s' :: "'z tree_store_scheme"
    assume x: "component_ok x" "additions_ok (ds @ [x]) sub" "set sub \<subseteq> set adds"
      and th: "th' = None \<and> t' = DNode [] \<and> sub \<noteq> [] \<or>
        (\<exists>e. (e, t') \<in> set ks \<and> is_subtree e \<and> e_path e = x \<and> th' = Some (e_hash e) \<and> rep (load P (ts_nodes s')) (e_hash e) t')"
    note w = roomy_kid [OF Suc.prems(4) [unfolded t] x(3), where x = x]
    have "start P s' th' t' \<and> roomy P b n (ds @ [x]) sub t'"
      using th
    proof (elim disjE conjE exE)
      assume "th' = None" "t' = DNode []" "sub \<noteq> []"
      with w(2) [OF x(2)] show ?thesis by (simp add: start_def)
    next
      fix e assume e: "(e, t') \<in> set ks" "is_subtree e" "th' = Some (e_hash e)" "rep (load P (ts_nodes s')) (e_hash e) t'"
      with node(3) have "wf_dir t'" by fastforce
      with e w(1) [OF e(1,2)] show ?thesis by (simp add: start_def)
    qed
    then show "does P (splice_directory P removed n (join_path (ds @ [x])) th' sub) s' (spliced P removed (ds @ [x]) sub t')"
      using Suc.prems(1) x by (intro Suc.IH) simp_all
  qed
  then have ctx: "editing P (splice_directory P removed n :: 'z tree_store_scheme splice_rec) removed ds adds leaves kids ks"
    using assms(2) Suc.prems(1,2) split node by (simp add: editing_def)
  have free: "\<not> (\<exists>name \<in> set (map fst leaves). name \<in> set (map fst kids))"
  proof
    assume "\<exists>name \<in> set (map fst leaves). name \<in> set (map fst kids)"
    then obtain x where x: "x \<in> fst ` set leaves" "x \<in> fst ` set kids" by auto
    then obtain y where "map_of leaves x = Some y" by (metis map_of_eq_None_iff option.exhaust)
    from adds_split_cases(1) [OF Suc.prems(2) split this] x(2) show False by (simp add: map_of_eq_None_iff)
  qed
  have stored: "subtrees_in P s ks" using Suc.prems(3) node(3) t by (cases th) (fastforce simp: start_def subtrees_in_def)+
  have size: "length ks + card (set adds) \<le> shard_max P * shard_max P" using Suc.prems(4) t by (simp add: roomy_def)
  have run: "does P (bindS (splice_children P (splice_directory P removed n) (join_path ds) (map fst ks) leaves kids removed)
      (finish_splice P th)) s (spliced P removed ds adds t)" if ok: "store_ok P s"
  proof (rule does_bind [OF children_edited [OF ctx stored ok]])
    show "keeps P (splice_children P (splice_directory P removed n) (join_path ds) (map fst ks) leaves kids removed)"
      by (rule splice_children_keeps) (simp add: keeps_splice_directory)
    show "keeps P (finish_splice P th v)" for v unfolding finish_splice_def by (intro keeps_intros)
    fix v and s' :: "'z tree_store_scheme"
    assume v: "edited P (node_files removed ds adds ks) (set (kid_names ks) \<union> fst ` set leaves \<union> fst ` set kids) ks v s'"
      "store_ok P s'" "grows s s'"
    have "case th of None \<Rightarrow> ks = [] | Some h \<Rightarrow> load P (ts_nodes s') h = Inr (Some (map fst ks))"
      using Suc.prems(3) t load_grows [OF v(3)] by (cases th) (auto simp: start_def)
    from finish_ok [OF assms(1) ctx v(1) this node(1) size v(2)] show "does P (finish_splice P th v) s' (spliced P removed ds adds t)"
      by (simp add: t)
  qed
  have "splice_directory P removed (Suc n) (join_path ds) th adds s =
      bindS (splice_children P (splice_directory P removed n) (join_path ds) (map fst ks) leaves kids removed) (finish_splice P th) s"
  proof (cases th)
    case None
    with Suc.prems(3) t have "ks = []" by (simp add: start_def)
    with None sp free show ?thesis by (simp add: splice_node_def)
  next
    case (Some h)
    with Suc.prems(3) t have load: "load P (ts_nodes s) h = Inr (Some (map fst ks))" by (simp add: start_def)
    have "\<not> (\<exists>e \<in> set (map fst ks). e_kind e = KIND_SHARD)" using node(3) by (auto simp: kid_ok_def)
    with Some sp free load_known_ok [OF load] show ?thesis by (simp add: splice_node_def)
  qed
  with run show ?case by (simp add: does_def)
qed

section \<open>A tree\<close>

lemma empty_node: "validate_tree_node P [] = Inr ()" "parse_tree_object P [] = Inr []"
  by (simp_all add: validate_tree_node_def parse_tree_object_def splitlines_bytes_def splitlines_def)

text \<open>
  Splicing a stored tree gives exactly its files without the removed ones and those in the way of
  an addition, and the additions.
\<close>

lemma splice_tree_files:
  assumes "codec_ok P" "digest_ok P" "store_ok P s" "rep (load P (ts_nodes s)) tree t" "wf_dir t"
    and "roomy P b n [] adds t" "\<forall>a \<in> set adds. addable a" "apart adds"
    and run: "splice_tree P n (Some tree) adds removed s = (r, s')" and nc: "no_clash P s'"
  shows "\<exists>h t'. r = Inr h \<and> store_ok P s' \<and> grows s s' \<and> rep (load P (ts_nodes s')) h t' \<and> wf_dir t' \<and>
    set (dleaves t') =
      {(ps, x) \<in> set (dleaves t). \<not> gone removed ps \<and>
         (\<forall>a \<in> set adds. \<not> prefix (path_parts a) ps \<and> \<not> prefix ps (path_parts a))} \<union>
      (\<lambda>a. (path_parts a, new_leaf a)) ` set adds"
proof -
  have "tree \<noteq> []" using stored_digest [OF assms(2,3,4)] by (auto simp: is_hex_digest_def)
  then have step: "splice_tree P n (Some tree) adds removed =
      bindS (splice_directory P removed n [] (Some tree) adds) (\<lambda>r. case r of None \<Rightarrow> write_tree_bytes P [] [] | Some h \<Rightarrow> returnS h)"
    by (simp add: splice_tree_def truthy_def)
  have adds: "additions_ok [] adds" using assms(7,8) by (simp add: additions_ok_def lies_in_def path_parts_def split_path_def)
  have files: "overlaid removed [] (new_files [] adds) (set (dleaves t)) =
      {(ps, x) \<in> set (dleaves t). \<not> gone removed ps \<and>
         (\<forall>a \<in> set adds. \<not> prefix (path_parts a) ps \<and> \<not> prefix ps (path_parts a))} \<union>
      (\<lambda>a. (path_parts a, new_leaf a)) ` set adds" (is "_ = ?F")
    by (auto simp: overlaid_def new_files_def)
  have "does P (splice_tree P n (Some tree) adds removed) s
      (\<lambda>h s'. \<exists>t'. rep (load P (ts_nodes s')) h t' \<and> wf_dir t' \<and> set (dleaves t') = ?F)"
    unfolding step
  proof (rule does_bind [OF _ keeps_splice_directory])
    show "does P (splice_directory P removed n [] (Some tree) adds) s (spliced P removed [] adds t)"
      using directory_spliced [OF assms(1,2), of "[]" adds s "Some tree" t b n removed] adds assms(4-6)
      by (simp add: start_def join_path_def)
    show "keeps P (case r of None \<Rightarrow> write_tree_bytes P [] [] | Some h \<Rightarrow> returnS h)" for r by (intro keeps_intros)
    fix v s1 assume v: "spliced P removed [] adds t v s1" "store_ok P s1"
    show "does P (case v of None \<Rightarrow> write_tree_bytes P [] [] | Some h \<Rightarrow> returnS h) s1
        (\<lambda>h s'. \<exists>t'. rep (load P (ts_nodes s')) h t' \<and> wf_dir t' \<and> set (dleaves t') = ?F)"
    proof (cases v)
      case None
      with v(1) have none: "?F = {}" by (simp add: spliced_def files [symmetric])
      show ?thesis
        unfolding does_def None option.case
      proof (intro allI impI)
        fix r s2 assume w: "write_tree_bytes P [] [] s1 = (r, s2)" "no_clash P s2"
        with write_tree_bytes_Inr [OF empty_node(1), of P "[]" s1] have r: "r = Inr (blake3 P [])" by simp
        with write_tree_bytes_ok(4) [OF w(1) v(2)] w(2) have "ts_nodes s2 (blake3 P []) = Some []" by simp
        then have "rep (load P (ts_nodes s2)) (blake3 P []) (DNode [])" by (simp add: load_def empty_node)
        then show "\<exists>v. r = Inr v \<and> (\<exists>t'. rep (load P (ts_nodes s2)) v t' \<and> wf_dir t' \<and> set (dleaves t') = ?F)"
          unfolding none r by (intro exI [of _ "blake3 P []"] conjI exI [of _ "DNode []"]) (auto simp: node_ok_def plain_kids_def)
      qed
    next
      case (Some h)
      with v(1) show ?thesis by (auto simp: spliced_def files intro!: does_return)
    qed
  qed
  with run nc assms(3) keepsD [OF keeps_splice_tree run assms(3)] show ?thesis unfolding does_def by blast
qed

end
