(* ===== verification/Splice_Sample.thy ===== *)
theory Splice_Sample
  imports Samples Splice_Spec
begin

text \<open>
  A run of \<open>splice_tree\<close> on a concrete store, for the witness of the claim about edited trees: a
  directory of two files, of which one is removed and one kept, and a third one added. The digests
  of the two nodes differ because their checksums differ in parity.
\<close>

definition edit_leaves :: "entry list" where
  "edit_leaves = [leaf ''a'' CHR ''1'', leaf ''b'' CHR ''2'']"

definition edit_dir :: dtree where
  "edit_dir = DNode (map (\<lambda>e. (e, DNode [])) edit_leaves)"

definition edit_payload :: string where
  "edit_payload = node_payload (map (serialize sample) edit_leaves)"

definition edit_tree :: string where
  "edit_tree = sample_digest edit_payload"

definition edit_store :: tree_store where
  "edit_store = \<lparr>ts_nodes = [edit_tree \<mapsto> edit_payload], ts_hashed = [edit_payload]\<rparr>"

definition edit_added :: entry where
  "edit_added = leaf ''d'' CHR ''3''"

definition edited_payload :: string where
  "edited_payload = node_payload (map (serialize sample) [leaf ''b'' CHR ''2'', edit_added])"

definition edited_store :: tree_store where
  "edited_store = \<lparr>ts_nodes = [edit_tree \<mapsto> edit_payload, sample_digest edited_payload \<mapsto> edited_payload],
     ts_hashed = [edited_payload, edit_payload]\<rparr>"

lemma edit_load: "load sample (ts_nodes edit_store) edit_tree = Inr (Some edit_leaves)"
proof -
  have "node_ok edit_leaves" "\<forall>e \<in> set edit_leaves. plain_entry e" "edit_leaves \<noteq> []" by code_simp+
  from parse_node_payload [OF sample_codec_ok this] show ?thesis
    by (simp add: load_def edit_store_def edit_payload_def)
qed

lemma edit_rep: "rep (load sample (ts_nodes edit_store)) edit_tree edit_dir" "wf_dir edit_dir"
  "store_ok sample edit_store"
  subgoal using edit_load by (simp add: edit_dir_def edit_leaves_def leaf_def is_subtree_def)
  subgoal by code_simp
  subgoal by (simp add: store_ok_def edit_store_def edit_tree_def)
  done

lemma edited_payload_valid: "validate_tree_node sample edited_payload = Inr ()"
  unfolding edited_payload_def by (rule validate_node_payload [OF sample_codec_ok]) code_simp+

lemma checksum_parity: "odd (checksum s) \<longleftrightarrow> even (length (filter (\<lambda>c. even (of_char c :: nat)) s))"
proof (induction s rule: rev_induct)
  case (snoc c s)
  have "odd (checksum (s @ [c])) \<longleftrightarrow> odd (checksum s * 31 + of_char c + 7)"
    by (simp add: checksum_def dvd_mod_iff)
  with snoc show ?case by auto
qed (simp add: checksum_def)

lemma digest_parity: "sample_digest s = sample_digest t \<Longrightarrow> odd (checksum s) \<longleftrightarrow> odd (checksum t)"
proof -
  assume "sample_digest s = sample_digest t"
  then have "hex_char (checksum s mod 16) = hex_char (checksum t mod 16)"
    using hex_digits.simps(2) [of 7] by (simp add: sample_digest_def)
  moreover have "Json_Sample.hex_val (hex_char (d mod 16)) = d mod 16" for d by (rule hex_char_props(2)) simp
  ultimately have "checksum s mod 16 = checksum t mod 16" by metis
  then have "checksum s mod 16 mod 2 = checksum t mod 16 mod 2" by simp
  then show ?thesis by (simp add: mod_mod_cancel odd_iff_mod_2_eq_one)
qed

lemma edited_distinct: "sample_digest edited_payload \<noteq> sample_digest edit_payload"
proof
  assume "sample_digest edited_payload = sample_digest edit_payload"
  then have "odd (checksum edited_payload) \<longleftrightarrow> odd (checksum edit_payload)" by (rule digest_parity)
  moreover have "even (length (filter (\<lambda>c. even (of_char c :: nat)) edited_payload))"
    "odd (length (filter (\<lambda>c. even (of_char c :: nat)) edit_payload))" by code_simp+
  ultimately show False by (simp add: checksum_parity)
qed

lemma edited_write: "build_children sample False [] [(''b'', serialize sample (leaf ''b'' CHR ''2'')), (''d'', serialize sample edit_added)] edit_store =
    (Inr (sample_digest edited_payload), edited_store)"
proof -
  have "sort_key fst [(''b'', l1), (''d'', l2)] = [(''b'', l1), (''d'', l2)]" for l1 l2 :: string
    by (simp add: sort_key_def)
  then show ?thesis
    using edited_payload_valid edited_distinct
    by (simp add: bindS_def edit_tree_def build_children_def write_plain_node_def write_tree_bytes_def edited_payload_def
        note_hashed_def put_tree_def edit_store_def edited_store_def Let_def)
qed

lemma edit_run:
  "splice_tree sample 1 (Some edit_tree) [edit_added] [''a''] edit_store = (Inr (sample_digest edited_payload), edited_store)"
proof -
  have added: "e_path edit_added = ''d''" "keep_leaf sample ''d'' edit_added = (\<lambda>a. returnS (keep (''d'', serialize sample edit_added) a))"
    subgoal by (simp add: edit_added_def leaf_def)
    subgoal
    proof -
      have "leaf_to_tree_entry edit_added = Inr edit_added" by code_simp
      then show ?thesis by (simp add: keep_leaf_def entry_to_leaf_line_def fun_eq_iff bindS_def)
    qed
    done
  have old: "\<not> is_subtree (leaf n c)" "e_kind (leaf n c) \<noteq> KIND_SHARD" "e_path (leaf n c) = n" for n c
    by (simp_all add: leaf_def is_subtree_def)
  have removed: "path_is_removed ''a'' [''a'']" "\<not> path_is_removed ''b'' [''a'']" by code_simp+
  have split: "split_additions [] [edit_added] = ([(''d'', edit_added)], [])"
    by (simp add: split_additions_def added(1))
  have kids: "splice_children sample rec [] edit_leaves [(''d'', edit_added)] [] [''a''] s =
      (Inr ([(''b'', serialize sample (leaf ''b'' CHR ''2'')), (''d'', serialize sample edit_added)], True), s)" for rec s
    by (simp add: splice_children_def edit_leaves_def old splice_leaf_def child_path_def removed added keep_def mark_changed_def bindS_def Let_def)
  have es: "\<not> (\<exists>e \<in> set edit_leaves. e_kind e = KIND_SHARD)" by (simp add: edit_leaves_def old)
  have "splice_directory sample [''a''] 1 [] (Some edit_tree) [edit_added] edit_store = (Inr (Some (sample_digest edited_payload)), edited_store)"
    using es by (simp add: splice_node_def split load_known_def loadS_def edit_load kids finish_splice_def edited_write)
  moreover have "edit_tree \<noteq> []" by (simp add: edit_tree_def sample_digest_def)
  ultimately show ?thesis by (simp add: splice_tree_def truthy_def)
qed


lemma edit_files: "dleaves edit_dir = [([''a''], leaf ''a'' CHR ''1''), ([''b''], leaf ''b'' CHR ''2'')]"
  by code_simp

lemma edited_paths:
  "gone [''a''] [''a'']" "\<not> gone [''a''] [''b'']" "path_parts edit_added = [''d'']" "new_leaf edit_added = edit_added"
proof -
  have "gone removed [x] \<longleftrightarrow> x \<in> set removed" for removed x
    by (auto simp: gone_def join_path_def Cons_eq_append_conv)
  then show "gone [''a''] [''a'']" "\<not> gone [''a''] [''b'']" by simp_all
qed code_simp+

end
