(* ===== verification/Spec2Isabelle.thy ===== *)
theory Spec2Isabelle
  imports Samples Tree_Merge Transfer_Commands S3_Sample Cli_Sample Local_Refine Splice_Sample
begin

text \<open>
  Verification of \<open>reflake\<close>, a version store for data files in Python (\<open>src/src/reflake\<close>).

  \<^bold>\<open>The program.\<close> A repository keeps immutable objects under their digests: blobs, trees (a JSONL node
  per directory, split into shards when it is large), commits and the footers of Parquet files;
  and mutable branch pointers, changed by compare-and-set only. The objects live in a directory
  \<open>.reflake\<close> (\<open>core/objects/local.py\<close>) or in an S3 bucket (\<open>core/objects/s3.py\<close>); HEAD, branch snapshots,
  reflog and staged changes belong to a client (\<open>core/client_state.py\<close>). Over the stores are the
  services (trees, references, staging, entries), over these the repository facade with
  commit, merge, restore, garbage collection and synchronization, and on top the command line, a
  read-only file system and the index for queries.

  \<^bold>\<open>Conventions\<close> (\<open>Prelude\<close>). A result is \<open>error + 'a\<close>, every raise an \<open>Inl\<close>; an operation on a state is
  \<open>('s, 'a) sm\<close>, a function that returns the result and the new state, also when it raises. Strings
  are the bytes of UTF-8 text, integers are \<open>int\<close> as Python's are unbounded. Where the code
  recurses on data that could be cyclic or loops over a queue, the definition takes a fuel and
  ends in \<open>OutOfFuel\<close>; the lemmas say how much is enough (the depth of a history, the number of
  nodes of a tree) and are then about runs that return. What comes from packages is a parameter:
  the record \<open>prims\<close> (\<open>Json\<close>: BLAKE3, \<open>msgspec\<close>, \<open>json\<close>), the client of boto3 with the laws \<open>s3_laws\<close>
  (\<open>S3_Client\<close>), the program \<open>s5cmd\<close> (\<open>Transfer_Backends\<close>), DuckDB (\<open>Catalog\<close>). Their hypotheses are
  met by the instances of \<open>Json_Sample\<close> and \<open>S3_Sample\<close>, on which the witnesses run.

  \<^bold>\<open>Theories and code\<close> (paths below \<open>core/\<close> where not said otherwise).
  \<^item> \<open>Entry_Codec\<close>, \<open>Tree_Node\<close>: \<open>entry_codec.py\<close>, \<open>objects/tree.py\<close>; entries, their lines, nodes.
  \<^item> \<open>Tree_Walk\<close>: \<open>objects/query.py\<close>; the node cache, lookups, listings and the resumable walk, against
    the abstract tree \<open>dtree\<close>.
  \<^item> \<open>Tree_Write\<close>, \<open>Tree_Splice\<close>, \<open>Tree_Merge\<close>, \<open>Worktree_Build\<close>: \<open>services/tree.py\<close>; writing, editing and
    merging trees. \<open>Splice_Files\<close> and \<open>Splice_Spec\<close> say which files a tree has after an edit, for a
    parent without shards; \<open>Splice_Sample\<close> is a run of it.
  \<^item> \<open>Tree_Inspect\<close>: \<open>services/tree_inspect.py\<close>; reachable sets, the structural diff.
  \<^item> \<open>Commit_Graph\<close>, \<open>Commit_Object\<close>, \<open>Refs\<close>, \<open>Ref_Manager\<close>: \<open>domain/models.py\<close>, \<open>client_state.py\<close>,
    \<open>services/refs.py\<close>; the commit DAG, commit objects, branches and their updates.
  \<^item> \<open>Layout\<close>: \<open>layout.py\<close>, \<open>repository_support.py\<close>; keys, branch names, normalized paths.
  \<^item> \<open>Local_Store\<close>, \<open>Local_Refine\<close>: \<open>objects/local.py\<close> on files, and that it refines the contents
    \<open>repo_store\<close> the other theories work on.
  \<^item> \<open>S3_Client\<close>, \<open>S3_Store\<close>, \<open>S3_Spec\<close>: \<open>objects/multipart.py\<close>, \<open>objects/s3.py\<close>, and that the store in a
    bucket refines the same contents; \<open>Source\<close>, \<open>Transfer_Backends\<close>: \<open>objects/source.py\<close>,
    \<open>objects/transfer.py\<close>.
  \<^item> \<open>Footer\<close>, \<open>Pruning\<close>, \<open>Catalog\<close>: \<open>objects/footer.py\<close>, \<open>query/pruning.py\<close>, \<open>query/catalog.py\<close>.
  \<^item> \<open>Ignore\<close>, \<open>Entries\<close>, \<open>Staging\<close>: \<open>ignore.py\<close>, \<open>manifest.py\<close>, \<open>services/entries.py\<close>, \<open>services/staging.py\<close>.
  \<^item> \<open>Repository\<close>, \<open>Repo_Ops\<close>, \<open>Gc\<close>: \<open>repository.py\<close>, \<open>repository_ops.py\<close>; with \<open>Repo_Invariants\<close> (what no
    operation breaks), \<open>Repo_History\<close> (commit and merge), \<open>Restore\<close> and \<open>Transfer_Commands\<close>.
  \<^item> \<open>Sync\<close>, \<open>Sync_Spec\<close>: \<open>repository_sync.py\<close>; push, pull, fetch.
  \<^item> \<open>Config\<close>, \<open>Vfs\<close>, \<open>Cli\<close>, \<open>Cli_Spec\<close>: \<open>config.py\<close>, \<open>vfs/__init__.py\<close>, \<open>cli.py\<close>.
  \<^item> \<open>Samples\<close>, \<open>Repo_Samples\<close>, \<open>Cli_Sample\<close>: the concrete repositories of the witnesses.

  \<^bold>\<open>Interfaces.\<close> \<open>ref_cas\<close> is the compare-and-set of a branch, interpreted on the local store and on the
  S3 store; \<open>dag_visit\<close> the marking walk over a DAG, interpreted on trees, commits and the history of
  a push; \<open>node_loader\<close> the loads behind the node cache.

  \<^bold>\<open>What is shown.\<close> The invariants come as closed collections: \<open>keeps\<close> (the tree store stays
  content-addressed and grows), \<open>moves\<close> (the whole repository does, and only the named branches
  move), \<open>cli_keeps\<close> and \<open>cli_retains\<close> for commands, \<open>copies\<close> for transfers; each is closed under the
  combinators, so an operation is a few rule applications. On top stand the functional properties
  below, from the repository under commands down to footers.

  \<^bold>\<open>Not modelled.\<close> The argument parser of the command line and the wording of its error messages; the
  file objects of the virtual file system (\<open>io.IOBase\<close>); the locks of the operating system (a
  compare-and-set under the lock is one step) and the temporary files of atomic writes; threads of
  the hashing pool (the result does not depend on their order); symbolic links; the progress
  callbacks; the construction of clients and sessions; the protocols of \<open>objects/base.py\<close>, which have
  no code; the profiling script \<open>scripts/profile_gc.py\<close>.
\<close>

section \<open>The repository under commands\<close>

text \<open>
  C1: No command, a pruning collection or a download included, loses an object that a branch head
  reached when it started.
\<close>

theorem no_command_loses_reachable:
  assumes "cli_backends_ok X" "run_cli X rt as_json c st = (res, st')" "objects_ok (ev_prims (cli_env X)) (cs_local st)"
    and "i \<in> live (ev_prims (cli_env X)) (cs_local st) k" "lookup_object k (cs_local st) i \<noteq> None"
  shows "lookup_object k (cs_local st') i \<noteq> None"
  using assms by (rule command_keeps_live)

theorem no_command_loses_reachable_witness:
  "lookup_object Commit (cs_local (snd (run_cli sample_cli ''data'' False (GcCmd True (Some 0)) sample_state))) (dg CHR ''a'') \<noteq> None"
proof -
  obtain res st' where run: "run_cli sample_cli ''data'' False (GcCmd True (Some 0)) sample_state = (res, st')" by fastforce
  have "lookup_object Commit sample_repo (dg CHR ''a'') \<noteq> None" by (simp add: lookup_object_def sample_repo_def)
  with no_command_loses_reachable [OF sample_cli_backends run, of "dg CHR ''a''" Commit] sample_repo_ok sample_repo_live run
  show ?thesis by simp
qed



text \<open>
  C3: However long the reads of the mark phase are and whatever the listing and the clock say: if
  a collection returns, every object a branch head reaches is as it was.
\<close>

theorem gc_keeps_live:
  assumes "gc P n m inventory now_ns grace dry_run s = (Inr res, s')" "i \<in> live P s k"
  shows "lookup_object k s' i = lookup_object k s i"
  using assms by (rule gc_safe)

theorem gc_keeps_live_witness:
  "\<exists>res s'. gc sample 1 1 sample_inventory 100 0 False sample_repo = (Inr res, s') \<and>
     lookup_object Commit s' (dg CHR ''a'') = lookup_object Commit sample_repo (dg CHR ''a'')"
proof -
  obtain r where "gc_mark sample 1 1 sample_repo = Inr r" using gc_mark_total [OF sample_repo_marked] ..
  then obtain res s' where "gc sample 1 1 sample_inventory 100 0 False sample_repo = (Inr res, s')"
    using gc_spec by blast
  with gc_keeps_live [OF this, of "dg CHR ''a''" Commit] show ?thesis by (simp add: sample_repo_live)
qed

text \<open>
  C4: A collection of garbage ends, and deletes exactly the listed objects that no branch head
  reaches and whose time is known and older than the grace window; a dry run deletes nothing.
\<close>

theorem gc_deletes_exactly:
  assumes C: "finite C" "closed_under (commit_kids P s) C" "set (branch_heads s) \<subseteq> C"
      "\<forall>i \<in> C. \<exists>c. fetch_commit P s i = Inr c \<and> c_tree c \<in> T"
    and T: "finite T" "closed_under (tree_kids (load P (ts_nodes s))) T"
      "\<forall>h \<in> T. \<exists>r. load P (ts_nodes s) h = Inr r"
    and n: "length (branch_heads s) + (\<Sum>i \<in> C. length (commit_kids P s i)) \<le> n"
    and m: "1 + (\<Sum>h \<in> T. length (tree_kids (load P (ts_nodes s)) h)) \<le> m"
  shows "\<exists>res s'. gc P n m inventory now_ns grace dry_run s = (Inr res, s') \<and>
    (\<forall>k i. lookup_object k s' i =
       (if k \<noteq> Ref \<and> \<not> dry_run \<and> i \<notin> live P s k \<and>
           (\<exists>t. (i, t) \<in> set (inventory k) \<and> t \<noteq> 0 \<and> t < now_ns - max 0 grace * 1000000000)
        then None else lookup_object k s i))"
proof -
  from gc_mark_total [OF assms] obtain r where r: "gc_mark P n m s = Inr r" ..
  have "i \<in> set (collected r inventory (young_cutoff_of now_ns grace) k) \<longleftrightarrow> i \<notin> live P s k \<and>
      (\<exists>t. (i, t) \<in> set (inventory k) \<and> t \<noteq> 0 \<and> t < now_ns - max 0 grace * 1000000000)" for k i
    unfolding gc_mark_spec [OF r, symmetric]
    by (force simp: collected_def doomed_def too_young_def young_cutoff_of_def)
  with gc_spec [OF r, of inventory now_ns grace dry_run] show ?thesis by auto
qed

theorem gc_deletes_exactly_witness:
  "\<exists>res s'. gc sample 1 1 sample_inventory 100000000000 10 False sample_repo = (Inr res, s') \<and>
     lookup_object Commit s' (dg CHR ''a'') \<noteq> None \<and> lookup_object Commit s' (dg CHR ''b'') = None"
proof -
  obtain res s' where "gc sample 1 1 sample_inventory 100000000000 10 False sample_repo = (Inr res, s')"
    and "\<And>k i. lookup_object k s' i =
       (if k \<noteq> Ref \<and> \<not> False \<and> i \<notin> live sample sample_repo k \<and>
           (\<exists>t. (i, t) \<in> set (sample_inventory k) \<and> t \<noteq> 0 \<and> t < 100000000000 - max 0 10 * 1000000000)
        then None else lookup_object k sample_repo i)"
    using gc_deletes_exactly [OF sample_repo_marked, of sample_inventory 100000000000 10 False] by blast
  moreover have "lookup_object Commit sample_repo (dg CHR ''a'') \<noteq> None"
    by (simp add: lookup_object_def sample_repo_def)
  ultimately show ?thesis by (auto simp: sample_repo_live sample_inventory_def)
qed

section \<open>Synchronization\<close>





text \<open>
  C7: Clients that compare and set branches of a bucket at the same time, each a read and a later
  conditional put, in any interleaving and with answers that get lost: the updates of a branch that
  took effect form one chain, each replacing the head the one before it left.
\<close>

theorem s3_branch_updates_chain:
  assumes "s3_laws (st_client S) V" "tags_ok V"
  shows "s3_refs.chain (stored_ref V S w branch) (cas_updates V S branch evs (w, \<lambda>client. None))
    (stored_ref V S (fst (cas_run S evs (w, \<lambda>client. None))) branch)"
  using cas_run_chain [OF assms, of "(w, \<lambda>client. None)"] by (simp add: pending_ok_def)

theorem s3_branch_updates_chain_witness:
  "s3_refs.chain None
     (cas_updates memory_view memory_store ''main''
        [Begin 1 ''main'' (Some ''x'') None, Begin 2 ''main'' (Some ''y'') None, Finish 2, Finish 1] (empty_bucket, \<lambda>client. None))
     (stored_ref memory_view memory_store (fst (cas_run memory_store
        [Begin 1 ''main'' (Some ''x'') None, Begin 2 ''main'' (Some ''y'') None, Finish 2, Finish 1] (empty_bucket, \<lambda>client. None))) ''main'')"
proof -
  have "stored_ref memory_view memory_store empty_bucket ''main'' = None"
    by (simp add: stored_ref_def empty_bucket_def)
  with s3_branch_updates_chain [OF memory_store_laws memory_tags(1), of empty_bucket "''main''"] show ?thesis by metis
qed







section \<open>Commits and merges\<close>



text \<open>
  C12: A commit moves the current branch, and no other, to a stored commit with the message and the
  old head for its parent, and empties the staging area of the branch; a commit that raises moves
  no branch.
\<close>

theorem commit_builds_on_head:
  assumes "commit_codec_ok (ev_prims E)" "digest_ok (ev_prims E)" "objects_ok (ev_prims E) s"
    and "repo_commit E message staged_only s = (r, s')"
  shows "case r of
       Inl e \<Rightarrow> \<forall>c. ref_head s' c = ref_head s c
     | Inr i \<Rightarrow> \<exists>b c. current_branch (rs_client s) = Inr b \<and> ref_head s' b = Some i \<and>
         (\<forall>c. c \<noteq> b \<longrightarrow> ref_head s' c = ref_head s c) \<and> stage_load (ev_prims E) s' b = Inr [] \<and>
         fetch_commit (ev_prims E) s' i = Inr c \<and> c_message c = message \<and>
         c_parents c = parent_list (ref_head s b)"
  using repo_commit_spec [OF assms] by (cases r) auto

theorem commit_builds_on_head_witness:
  "case repo_commit sample_env ''second'' True sample_repo of
     (Inl e, s') \<Rightarrow> ref_head s' ''main'' = Some (dg CHR ''a'')
   | (Inr i, s') \<Rightarrow> \<exists>c. fetch_commit sample s' i = Inr c \<and> c_message c = ''second''"
  using commit_builds_on_head [where E = sample_env and s = sample_repo and message = "''second''" and staged_only = True]
    sample_commit_codec_ok sample_digest_ok sample_repo_ok sample_repo_heads(1) sample_store_heads(1)
  by (cases "repo_commit sample_env ''second'' True sample_repo") (auto split: sum.splits)

text \<open>
  C13: The merge base of two commits of a history is a common ancestor of maximal generation,
  and \<open>None\<close> exactly when they have no common ancestor; the walk ends after at most two visits
  per commit.
\<close>

theorem merge_base_is_best:
  assumes "history_ok rd h G R" "finite R" "\<forall>i \<in> R. G i < m" "\<forall>i \<in> R. h i \<noteq> None"
    and "a \<in> R" "b \<in> R" "2 * card R \<le> n"
  shows "\<exists>r. merge_base_commit rd m n a b = Inr r \<and> best_base h G a b r"
  using assms by (rule merge_base_commit_spec)

theorem merge_base_is_best_witness:
  "\<exists>r. merge_base_commit (\<lambda>i. Inr (sample_history i)) 3 8 ''a'' ''m'' = Inr r \<and>
     best_base sample_history sample_depth ''a'' ''m'' r"
  using merge_base_is_best [OF sample_history_ok sample_ids_bounds(1,3,4), of "''a''" "''m''" 8]
    sample_ids_bounds(2) by (simp add: sample_ids_def)

text \<open>
  C14: \<open>is_ancestor_commit\<close> ends after at most one visit per commit and says exactly whether the
  first commit is reachable from the second over parent edges.
\<close>

theorem ancestry_decided:
  assumes "history_ok rd h G R" "anc \<in> R" "d \<in> R" "\<forall>i \<in> R. G i < m" "finite R" "card R \<le> n"
  shows "is_ancestor_commit rd m n anc d = Inr ((d, anc) \<in> (parent_rel h)\<^sup>*)"
  using assms by (rule is_ancestor_commit_spec)

theorem ancestry_decided_witness:
  "is_ancestor_commit (\<lambda>i. Inr (sample_history i)) 3 4 ''a'' ''m'' = Inr ((''m'', ''a'') \<in> (parent_rel sample_history)\<^sup>*)"
  using ancestry_decided [OF sample_history_ok _ _ sample_ids_bounds(3,1), of "''a''" "''m''" 4]
    sample_ids_bounds(2) by (simp add: sample_ids_def)

text \<open>
  C15: Writing a commit with known parents onto the head the writer expected succeeds: the branch
  moves to the new commit, no other branch moves, and the history stays well formed with the new
  commit at its depth.
\<close>

theorem commit_extends_history:
  assumes "commit_codec_ok P" "digest_ok P" "history_ok (commit_reader P s) h G R"
    and "set parents \<subseteq> R" "\<forall>i \<in> R. G i < m" "commit_id_of P message tree_hash parents \<notin> R"
    and "ref_head s b = expd" "\<not> path_blocked (map fst (rs_refs s)) b"
  shows "\<exists>c s'. write_commit_object P m now b message parent_commit (Some parents) tree_hash expd operation s = (Inr (c_id c), s') \<and>
    c_tree c = tree_hash \<and> c_parents c = parents \<and> c_message c = message \<and>
    ref_head s' b = Some (c_id c) \<and> (\<forall>b'. b' \<noteq> b \<longrightarrow> ref_head s' b' = ref_head s b') \<and>
    history_ok (commit_reader P s') (h(c_id c \<mapsto> c)) (G(c_id c := depth_of_parents G parents)) (insert (c_id c) R)"
  using assms by (rule commit_extends)

theorem commit_extends_history_witness:
  "\<exists>i s'. write_commit_object sample 1 ''2025'' ''dev'' ''start'' None (Some []) (dg CHR ''0'') None ''commit'' sample_store = (Inr i, s') \<and>
     ref_head s' ''dev'' = Some i \<and> ref_head s' ''main'' = Some (dg CHR ''a'')"
proof -
  have "history_ok (commit_reader sample sample_store) Map.empty (\<lambda>i. 0) {}" by (simp add: history_ok_def)
  from commit_extends_history [OF sample_commit_codec_ok sample_digest_ok this, of "[]" 1 "''start''" "dg CHR ''0''"
      "''dev''" None "''2025''" None "''commit''"]
  obtain i s' where "write_commit_object sample 1 ''2025'' ''dev'' ''start'' None (Some []) (dg CHR ''0'') None ''commit'' sample_store = (Inr i, s')"
      "ref_head s' ''dev'' = Some i" "ref_head s' ''main'' = ref_head sample_store ''main''"
    using sample_store_heads sample_store_free by auto
  then show ?thesis using sample_store_heads by auto
qed



section \<open>Reading trees\<close>

text \<open>
  C17: A lookup finds exactly the file that the full walk of the tree lists under that path
  (separators at the ends stripped), and finds nothing when the walk lists none. It holds of
  every well-formed directory, sharded ones included, with one unit of fuel per node visited.
\<close>

theorem lookup_agrees_with_walk:
  assumes "rep L h t" "wf_dir t" "steps t \<le> m" "iter_all_entries L m h = Inr es"
    and "2 * length (split_path (strip_char (CHR ''/'') path)) < n"
  shows "lookup_entry L n h path = Inr (find (\<lambda>e. e_path e = strip_char (CHR ''/'') path) es)"
  using assms by (rule lookup_iff_walk)

theorem lookup_agrees_with_walk_witness:
  "lookup_entry sample_loader 5 (dg CHR ''0'') ''/data/x''
     = Inr (find (\<lambda>e. e_path e = strip_char (CHR ''/'') ''/data/x'') (map at_path (dleaves root_dir)))"
  using lookup_agrees_with_walk [OF root_dir_rep root_dir_wf order_refl
      iter_all_entries_spec [OF root_dir_rep root_dir_wf order_refl], of "''/data/x''" 5]
  by (simp add: strip_char_def lstrip_char_def rstrip_char_def split_path_def)

text \<open>
  C18: The full walk lists every file of the tree exactly once, each under its joined path, in
  the order of the paths' component lists, and nothing else; enough fuel is one unit per frame.
\<close>

theorem walk_lists_every_file:
  assumes "rep L h t" "wf_dir t" "steps t \<le> n"
  shows "\<exists>es. iter_all_entries L n h = Inr es \<and> sorted_wrt (<) (map (split_path \<circ> e_path) es) \<and>
    (\<forall>e. e \<in> set es \<longleftrightarrow> (\<exists>x. dlookup t (split_path (e_path e)) = Some x \<and> e = x\<lparr>e_path := e_path e\<rparr>))"
proof (intro exI conjI allI)
  show "iter_all_entries L n h = Inr (map at_path (dleaves t))"
    using assms by (rule iter_all_entries_spec)
  have key: "split_path (e_path (at_path x)) = fst x" if "x \<in> set (dleaves t)" for x
    using leaf_replace_path(2) [OF assms(2), of "fst x" "snd x"] that by (cases x) (simp add: at_path_def)
  then have paths: "map (split_path \<circ> e_path) (map at_path (dleaves t)) = map fst (dleaves t)" by simp
  show "sorted_wrt (<) (map (split_path \<circ> e_path) (map at_path (dleaves t)))"
    unfolding paths using assms(2) by (rule dleaves_sorted)
  fix e
  show "e \<in> set (map at_path (dleaves t)) \<longleftrightarrow>
      (\<exists>x. dlookup t (split_path (e_path e)) = Some x \<and> e = x\<lparr>e_path := e_path e\<rparr>)"
  proof
    assume "e \<in> set (map at_path (dleaves t))"
    then obtain ps x where "(ps, x) \<in> set (dleaves t)" "e = at_path (ps, x)" by auto
    with key [of "(ps, x)"] dlookup_dleaves [OF assms(2), of ps x]
    show "\<exists>x. dlookup t (split_path (e_path e)) = Some x \<and> e = x\<lparr>e_path := e_path e\<rparr>"
      by (auto simp: at_path_def)
  next
    assume "\<exists>x. dlookup t (split_path (e_path e)) = Some x \<and> e = x\<lparr>e_path := e_path e\<rparr>"
    then obtain x where x: "(split_path (e_path e), x) \<in> set (dleaves t)" "e = x\<lparr>e_path := e_path e\<rparr>"
      using dlookup_dleaves [OF assms(2)] by blast
    then have "e = at_path (split_path (e_path e), x)" by (simp add: at_path_def split_path_def)
    with x(1) show "e \<in> set (map at_path (dleaves t))" by (metis image_eqI set_map)
  qed
qed

theorem walk_lists_every_file_witness:
  "\<exists>es. iter_all_entries sample_loader 7 (dg CHR ''0'') = Inr es \<and> sorted_wrt (<) (map (split_path \<circ> e_path) es) \<and>
    (\<forall>e. e \<in> set es \<longleftrightarrow> (\<exists>x. dlookup root_dir (split_path (e_path e)) = Some x \<and> e = x\<lparr>e_path := e_path e\<rparr>))"
  using walk_lists_every_file [OF root_dir_rep root_dir_wf, of 7] by (simp add: root_dir_steps)

text \<open>
  C19: A prefix listing is the full walk restricted to the paths at or below the prefix.
\<close>

theorem prefix_listing:
  assumes "rep L h t" "wf_dir t" "steps t \<le> n" "iter_all_entries L n h = Inr es"
  shows "iter_entries_for_prefix L n h pre =
    Inr (filter (\<lambda>e. prefix_wanted (strip_char (CHR ''/'') pre) (e_path e)) es)"
  using iter_prefix_spec [OF assms(1-3), of pre] iter_all_entries_spec [OF assms(1-3)] assms(4) by simp

theorem prefix_listing_witness:
  "iter_entries_for_prefix sample_loader 7 (dg CHR ''0'') ''data/'' =
     Inr (filter (\<lambda>e. prefix_wanted (strip_char (CHR ''/'') ''data/'') (e_path e)) (map at_path (dleaves root_dir)))"
  by (rule prefix_listing [OF root_dir_rep root_dir_wf _ iter_all_entries_spec [OF root_dir_rep root_dir_wf]])
    (simp_all add: root_dir_steps)

text \<open>
  C20: Reading nodes through the LRU cache, in any order and however often, gives what reading
  them from the store gives; the cache never holds more nodes than its bound.
\<close>

theorem node_cache_transparent:
  assumes "cache_ok P rd c"
  shows "fst (cached_loads P rd c hs) = map (load P rd) hs \<and> cache_ok P rd (snd (cached_loads P rd c hs))"
  using assms by (rule cached_loads_spec)

theorem node_cache_transparent_witness:
  "fst (cached_loads sample (\<lambda>h. None) \<lparr>c_entries = [], c_maxsize = 2\<rparr> [''p'', ''q'', ''p'']) =
     map (load sample (\<lambda>h. None)) [''p'', ''q'', ''p'']"
  using node_cache_transparent [of sample "\<lambda>h. None" "\<lparr>c_entries = [], c_maxsize = 2\<rparr>" "[''p'', ''q'', ''p'']"]
  by (simp add: cache_ok_def)

section \<open>Writing and comparing trees\<close>

text \<open>
  C21: Writing a directory from its children, in any order and whether or not it has to be split
  into shards, succeeds; the store stays content-addressed and loses nothing, and (unless two
  payloads of the run collide) the hash returned is a well-formed directory with exactly these
  children in name order.
\<close>

theorem directory_written:
  assumes "codec_ok P" "digest_ok P"
    and "dir_children kids" "subtrees_in P s kids" "length kids \<le> shard_max P * shard_max P"
    and "store_ok P s" "known s skip"
  shows "\<exists>h s'. build_children P False skip (map (child_line P) (map fst kids)) s = (Inr h, s') \<and>
    store_ok P s' \<and> grows s s' \<and>
    (no_clash P s' \<longrightarrow> (\<exists>t. rep (load P (ts_nodes s')) h t \<and> wf_dir t \<and>
       logical t = sort_key (\<lambda>k. e_path (fst k)) kids))"
  using assms by (rule build_children_ok)

theorem directory_written_witness:
  "\<exists>h s'. build_children sample False [] (map (child_line sample) (map fst sample_kids)) sample_store = (Inr h, s') \<and>
    store_ok sample s' \<and> grows sample_store s' \<and>
    (no_clash sample s' \<longrightarrow> (\<exists>t. rep (load sample (ts_nodes s')) h t \<and> wf_dir t \<and>
       logical t = sort_key (\<lambda>k. e_path (fst k)) sample_kids))"
proof (rule directory_written [OF sample_codec_ok sample_digest_ok])
  show "dir_children sample_kids" by (rule sample_kids_ok)
qed (simp_all add: subtrees_in_def sample_kids_def leaf_def is_subtree_def store_ok_def sample_store_def)






text \<open>
  C25: The structural diff of two trees lists every path whose file differs in identity or size,
  each once and with the right kind of change, and no other path.
\<close>

theorem diff_is_exact:
  assumes "rep L h1 t1" "wf_dir t1" "steps t1 \<le> n" "rep L h2 t2" "wf_dir t2" "steps t2 \<le> n"
  shows "\<exists>cs. diff_trees L n h1 h2 = Inr cs \<and> distinct (map d_path cs) \<and>
    (\<forall>d. d \<in> set cs \<longleftrightarrow> (\<exists>ps. expected_change ps (dlookup t1 ps) (dlookup t2 ps) = Some d))"
  using assms by (rule diff_trees_spec)

theorem diff_is_exact_witness:
  "\<exists>cs. diff_trees sample_loader 7 (dg CHR ''0'') (dg CHR ''d'') = Inr cs \<and> distinct (map d_path cs) \<and>
    (\<forall>d. d \<in> set cs \<longleftrightarrow> (\<exists>ps. expected_change ps (dlookup root_dir ps) (dlookup data_dir ps) = Some d))"
proof (rule diff_is_exact [OF root_dir_rep root_dir_wf])
  show "rep sample_loader (dg CHR ''d'') data_dir"
    by (simp add: sample_loader_def data_dir_def leaf_def dg_def is_subtree_def)
  show "wf_dir data_dir" "steps data_dir \<le> 7" "steps root_dir \<le> 7" by code_simp+
qed

text \<open>
  C26: The walk over tree nodes that garbage collection and sync share ends, with one unit of
  fuel per edge, and yields every node reachable and not seen before exactly once.
\<close>

theorem reachable_nodes_walked:
  assumes "finite U" "closed_under (tree_kids L) U" "h \<in> U" "\<forall>x \<in> U. \<exists>r. L x = Inr r"
    and "closed_under (tree_kids L) (set seen)" "1 + (\<Sum>x \<in> U - set seen. length (tree_kids L x)) \<le> n"
  shows "\<exists>seen' ys. iter_tree_hashes L n h seen = Inr (seen', ys) \<and> distinct ys \<and>
    set ys = reach (tree_kids L) {h} - set seen \<and> set seen' = set seen \<union> reach (tree_kids L) {h}"
proof -
  obtain seen' ys where "iter_tree_hashes L n h seen = Inr (seen', ys)"
    using iter_tree_hashes_total [OF assms(1-4,6)] by auto
  with iter_tree_hashes_spec [OF this assms(5)] show ?thesis by blast
qed

theorem reachable_nodes_walked_witness:
  "\<exists>seen' ys. iter_tree_hashes sample_loader 3 (dg CHR ''f'') [dg CHR ''d''] = Inr (seen', ys) \<and> distinct ys \<and>
    set ys = reach (tree_kids sample_loader) {dg CHR ''f''} - {dg CHR ''d''} \<and>
    set seen' = {dg CHR ''d''} \<union> reach (tree_kids sample_loader) {dg CHR ''f''}"
proof -
  have kids: "tree_kids sample_loader (dg CHR ''f'') = [dg CHR ''d'']" "tree_kids sample_loader (dg CHR ''d'') = []"
    by code_simp+
  have "dg CHR ''f'' \<noteq> dg CHR ''d''" by code_simp
  then have "{dg CHR ''f'', dg CHR ''d''} - {dg CHR ''d''} = {dg CHR ''f''}" by auto
  with reachable_nodes_walked [of "{dg CHR ''f'', dg CHR ''d''}" sample_loader "dg CHR ''f''" "[dg CHR ''d'']" 3] kids
  show ?thesis by (simp add: closed_under_def sample_loader_def)
qed

section \<open>Branches\<close>

text \<open>
  C27: An update of a branch moves exactly that branch, and only from the expected head; or it
  changes no branch and reports the head it found, or that the name lies in the way of another.
\<close>

theorem update_is_compare_and_set:
  assumes "update_branch_ref now b new expd operation s = (r, s')"
  shows "case r of
      Inr _ \<Rightarrow> ref_head s b = expd \<and> ref_head s' b = stored_head new \<and>
               (\<forall>c. c \<noteq> b \<longrightarrow> ref_head s' c = ref_head s c)
    | Inl err \<Rightarrow> (\<forall>c. ref_head s' c = ref_head s c) \<and>
               ((err = RefConflictError b operation expd (ref_head s b) \<and> ref_head s b \<noteq> expd) \<or>
                (err = OSError \<and> ref_head s b = expd \<and> path_blocked (map fst (rs_refs s)) b))"
  using assms by (rule update_branch_ref_spec)

theorem update_is_compare_and_set_witness:
  "\<exists>s'. update_branch_ref ''2025'' ''main'' None None ''reset'' sample_store =
     (Inl (RefConflictError ''main'' ''reset'' None (Some (dg CHR ''a''))), s')"
proof (cases "update_branch_ref ''2025'' ''main'' None None ''reset'' sample_store")
  case (Pair r s')
  with update_is_compare_and_set [OF Pair] show ?thesis by (cases r) (auto simp: sample_store_heads)
qed

text \<open>
  C28: A fast-forward to a descendant of the branch's head succeeds and moves that branch alone;
  whenever it reports success the old head was an ancestor of the new one.
\<close>

theorem fast_forward_advances:
  assumes "require_branch_state False b s = (Inr current, s1)" "current \<noteq> Some target" "ref_head s b = current"
    and "\<not> path_blocked (map fst (rs_refs s)) b"
    and "history_ok (commit_reader P s) h G R" "\<forall>i \<in> R. G i < m" "finite R" "card R \<le> n"
    and "target \<in> R" "\<And>c. current = Some c \<Longrightarrow> c \<in> R" "is_hex_digest target"
  shows "((\<exists>s'. fast_forward_branch P m n now b target operation s = (Inr True, s')) \<longleftrightarrow>
      (\<forall>old. current = Some old \<longrightarrow> old \<noteq> [] \<longrightarrow> (target, old) \<in> (parent_rel h)\<^sup>*)) \<and>
    (\<forall>s'. fast_forward_branch P m n now b target operation s = (Inr True, s') \<longrightarrow>
      ref_head s' b = Some target \<and> (\<forall>c. c \<noteq> b \<longrightarrow> ref_head s' c = ref_head s c))"
proof -
  have done': "ref_head s' b = Some target \<and> (\<forall>c. c \<noteq> b \<longrightarrow> ref_head s' c = ref_head s c) \<and>
      (\<forall>old. current = Some old \<longrightarrow> old \<noteq> [] \<longrightarrow> (target, old) \<in> (parent_rel h)\<^sup>*)"
    if "fast_forward_branch P m n now b target operation s = (Inr True, s')" for s'
    using fast_forward_branch_ok [OF that assms(5-9) _ assms(11)] assms(3,10) by simp
  moreover have "\<exists>s'. fast_forward_branch P m n now b target operation s = (Inr True, s')"
    if "\<forall>old. current = Some old \<longrightarrow> old \<noteq> [] \<longrightarrow> (target, old) \<in> (parent_rel h)\<^sup>*"
    using that assms(10) by (intro fast_forward_branch_total [OF assms(1,2,5-9) _ assms(3,4)]) blast
  ultimately show ?thesis by blast
qed

theorem fast_forward_advances_witness:
  "\<exists>s'. fast_forward_branch sample 2 2 ''2025'' ''main'' (dg CHR ''b'') ''push'' sample_repo = (Inr True, s') \<and>
     ref_head s' ''main'' = Some (dg CHR ''b'')"
proof -
  have cur: "\<exists>s1. require_branch_state False ''main'' sample_repo = (Inr (Some (dg CHR ''a'')), s1)"
    using sample_store_heads(3) snapshot_run [of "''main''" sample_repo]
    by (auto simp: require_branch_state_def sample_repo_def sample_store_def empty_client_def read_branch_snapshot_def
        read_branch_ref_def bindS_def)
  have "(dg CHR ''b'', dg CHR ''a'') \<in> (parent_rel repo_history)\<^sup>*"
    by (rule r_into_rtrancl) (simp add: parent_rel_def repo_history_def second_commit_def)
  moreover have "\<forall>i \<in> {dg CHR ''a'', dg CHR ''b''}. repo_depth i < 2" by (simp add: repo_depth_def)
  moreover have "card {dg CHR ''a'', dg CHR ''b''} \<le> 2" by (simp add: card_insert_if)
  moreover from cur obtain s1 where "require_branch_state False ''main'' sample_repo = (Inr (Some (dg CHR ''a'')), s1)" ..
  ultimately show ?thesis
    using fast_forward_advances [OF _ _ _ _ sample_repo_history, of "''main''" "Some (dg CHR ''a'')" s1 "dg CHR ''b''" 2 2
        "''2025''" "''push''"] dg_digest [of "CHR ''b''"]
    by (fastforce simp: sample_repo_heads sample_store_heads sample_store_free)
qed

section \<open>Files, paths and addresses\<close>

text \<open>
  C29: Restoring files deletes nothing and touches only paths that the commit has and that were asked
  for, existing ones only with the force flag; each file it writes, and each path it reports, has
  the content whose digest the commit records.
\<close>

theorem restore_writes_verified:
  assumes "repo_restore_files E s clock ref paths force d = (r, d')"
  shows "(\<forall>ps. fs_at d ps \<noteq> None \<longrightarrow> fs_at d' ps \<noteq> None) \<and>
    (\<forall>ps. file_in d' ps \<noteq> file_in d ps \<longrightarrow> (force \<or> fs_at d ps = None) \<and>
       (\<exists>c es. bindE (resolve_ref s ref) (fetch_commit (ev_prims E) s) = Inr c \<and> select_entries E s (c_tree c) paths = Inr es \<and>
          (\<exists>(p, e) \<in> set es. \<exists>b. ps = root_parts E p \<and> file_in d' ps = Some (b, clock) \<and>
             (truthy (blob_hash e) \<longrightarrow> blob_hash e = Some (blake3 (ev_prims E) b))))) \<and>
    (\<forall>rs. r = Inr rs \<longrightarrow> (\<forall>p \<in> set rs. \<exists>b. file_in d' (root_parts E p) = Some (b, clock)))"
  using repo_restore_spec [OF assms]
proof
  assume "\<exists>x. r = Inl x \<and> d' = d"
  then show ?thesis by auto
next
  assume "\<exists>c es. bindE (resolve_ref s ref) (fetch_commit (ev_prims E) s) = Inr c \<and> select_entries E s (c_tree c) paths = Inr es \<and>
       restored_ok E es clock force d d' \<and> (\<forall>rs. r = Inr rs \<longrightarrow> (\<forall>p \<in> set rs. restored_at E es clock d' (root_parts E p)))"
  then obtain c es where c: "bindE (resolve_ref s ref) (fetch_commit (ev_prims E) s) = Inr c" "select_entries E s (c_tree c) paths = Inr es"
    and ok: "restored_ok E es clock force d d'" and rs: "\<And>rs. r = Inr rs \<Longrightarrow> \<forall>p \<in> set rs. restored_at E es clock d' (root_parts E p)"
    by blast
  note R = ok [unfolded restored_ok_def, rule_format]
  show ?thesis
  proof (intro conjI allI impI)
    show "fs_at d' ps \<noteq> None" if "fs_at d ps \<noteq> None" for ps using R [of ps] that by blast
    fix ps assume ne: "file_in d' ps \<noteq> file_in d ps"
    have at: "(force \<or> fs_at d ps = None) \<and> restored_at E es clock d' ps" by (rule restored_okD [OF ok ne])
    then show "force \<or> fs_at d ps = None" ..
    from at have "restored_at E es clock d' ps" ..
    with c show "\<exists>c es. bindE (resolve_ref s ref) (fetch_commit (ev_prims E) s) = Inr c \<and> select_entries E s (c_tree c) paths = Inr es \<and>
          (\<exists>(p, e) \<in> set es. \<exists>b. ps = root_parts E p \<and> file_in d' ps = Some (b, clock) \<and>
             (truthy (blob_hash e) \<longrightarrow> blob_hash e = Some (blake3 (ev_prims E) b)))"
      unfolding restored_at_def by blast
  next
    show "\<forall>p \<in> set rs. \<exists>b. file_in d' (root_parts E p) = Some (b, clock)" if "r = Inr rs" for rs
      using rs [OF that] unfolding restored_at_def by blast
  qed
qed

theorem restore_writes_verified_witness:
  "file_in (snd (repo_restore_files sample_env sample_repo 7 ''main'' [''x.csv''] False (cs_fs sample_state))) [''data'', ''x.csv''] =
     Some (''1,2'', 5)"
proof -
  let ?d = "cs_fs sample_state"
  obtain r d' where run: "repo_restore_files sample_env sample_repo 7 ''main'' [''x.csv''] False ?d = (r, d')" by fastforce
  have "file_in ?d [''data'', ''x.csv''] = Some (''1,2'', 5)" "fs_at ?d [''data'', ''x.csv''] \<noteq> None"
    by (simp_all add: sample_state_def file_in_def)
  with restore_writes_verified [OF run, THEN conjunct2, THEN conjunct1, rule_format, of "[''data'', ''x.csv'']"]
  have "file_in d' [''data'', ''x.csv''] = Some (''1,2'', 5)" by argo
  with run show ?thesis by simp
qed

text \<open>
  C30: A normalized repository path is not empty, has no slash at its ends, no empty component and
  no component \<open>..\<close>, so it cannot leave the repository.
\<close>

theorem normalized_paths_stay_inside:
  assumes "normalize_repository_path path = Inr p"
  shows "p \<noteq> [] \<and> hd p \<noteq> CHR ''/'' \<and> last p \<noteq> CHR ''/'' \<and> [] \<notin> set (split_path p) \<and> ''..'' \<notin> set (split_path p)"
  using normalized_path [OF assms] by blast

theorem normalized_paths_stay_inside_witness:
  "normalize_repository_path '' data/x.csv/ '' = Inr ''data/x.csv'' \<and> ''..'' \<notin> set (split_path ''data/x.csv'')"
proof -
  have "normalize_repository_path '' data/x.csv/ '' = Inr ''data/x.csv''" by code_simp
  with normalized_paths_stay_inside [OF this] show ?thesis by blast
qed

text \<open>
  C31: The address made from an absolute path is read as that path, whatever its characters: it
  describes and opens the same file.
\<close>

theorem file_addresses_lead_back:
  assumes "good_parts ps" "utf8_ok (abs_path ps)" "path_file W ps = Some (b, m)"
  shows "open_source_uri W (as_uri ps) = Inr b \<and>
    describe_source_uri W (as_uri ps) = Inr \<lparr>sm_uri = as_uri ps, sm_size = int (length b), sm_mtime = m, sm_etag = None\<rparr>"
  using file_uri_reads_back [OF assms] by simp

theorem file_addresses_lead_back_witness:
  "as_uri [''data'', ''a b.csv''] = ''file:///data/a%20b.csv'' \<and>
   open_source_uri sample_world ''file:///data/a%20b.csv'' = Inr ''1,2''"
proof -
  have uri: "as_uri [''data'', ''a b.csv''] = ''file:///data/a%20b.csv''" by code_simp
  have "good_parts [''data'', ''a b.csv'']" "utf8_ok (abs_path [''data'', ''a b.csv''])"
    "path_file sample_world [''data'', ''a b.csv''] = Some (''1,2'', 5)" by code_simp+
  from file_addresses_lead_back [OF this] show ?thesis by (simp add: uri)
qed

text \<open>
  C32: The walk of a directory yields exactly the files below it that no rule ignores, neither
  themselves nor through a directory above them, with their relative names, sizes and times.
\<close>

theorem walk_yields_visible:
  assumes "fs_at (w_fs W) path = Some node" "fs_ok node"
  shows "fe \<in> set (walk_files W path rules pre) \<longleftrightarrow>
      (\<exists>ps b m. path_file W (path @ ps) = Some (b, m) \<and> visible rules pre [] ps \<and> fe = file_at path pre ps b m)"
  using assms by (rule walk_files_spec)

theorem walk_yields_visible_witness:
  "file_at [''data''] [] [''a b.csv''] ''1,2'' 5 \<in> set (walk_files sample_world [''data''] [] [])"
proof -
  have "fs_at (w_fs sample_world) [''data''] = Some (Dir [(''a b.csv'', File ''1,2'' 5), (''x.tmp'', File ''t'' 6)])"
    by code_simp
  from walk_yields_visible [OF this, of "file_at [''data''] [] [''a b.csv''] ''1,2'' 5" "[]" "[]"]
  have "file_at [''data''] [] [''a b.csv''] ''1,2'' 5 \<in> set (walk_files sample_world [''data''] [] []) \<longleftrightarrow>
      (\<exists>ps b m. path_file sample_world ([''data''] @ ps) = Some (b, m) \<and> visible [] [] [] ps \<and>
        file_at [''data''] [] [''a b.csv''] ''1,2'' 5 = file_at [''data''] [] ps b m)" by simp
  moreover have "path_file sample_world ([''data''] @ [''a b.csv'']) = Some (''1,2'', 5)" "visible [] [] [] [''a b.csv'']"
    by code_simp+
  ultimately show ?thesis by blast
qed

text \<open>
  C33: An address that parses is well formed: the dataset and the reference are single components,
  neither empty nor dots, and the path is a normalized one inside the dataset, or empty where that
  is allowed.
\<close>

theorem vfs_addresses_typed:
  assumes "parse_uri address allow_empty = Inr u"
  shows "uri_part_ok (ru_dataset u) \<and> CHR ''@'' \<notin> set (ru_dataset u) \<and> uri_part_ok (ru_ref u) \<and>
    (if ru_path u = [] then allow_empty
     else hd (ru_path u) \<noteq> CHR ''/'' \<and> last (ru_path u) \<noteq> CHR ''/'' \<and> [] \<notin> set (split_path (ru_path u)) \<and>
       ''..'' \<notin> set (split_path (ru_path u)))"
  using parsed_uri_ok [OF assms] normalized_path by (auto simp: uri_ok_def)

theorem vfs_addresses_typed_witness:
  "parse_uri ''reflake://sales@main+staged/2024/x.csv'' False =
     Inr \<lparr>ru_dataset = ''sales'', ru_ref = ''main'', ru_path = ''2024/x.csv'', ru_staging = True\<rparr> \<and>
   uri_part_ok ''sales'' \<and> ''..'' \<notin> set (split_path ''2024/x.csv'')"
proof -
  have run: "parse_uri ''reflake://sales@main+staged/2024/x.csv'' False =
     Inr \<lparr>ru_dataset = ''sales'', ru_ref = ''main'', ru_path = ''2024/x.csv'', ru_staging = True\<rparr>" by code_simp
  with vfs_addresses_typed [OF run] show ?thesis by simp
qed

section \<open>Footers and pruning\<close>







text \<open>
  C37: The statistics document read back is the statistics it was written from.
\<close>

theorem footer_stats_roundtrip:
  assumes "json_loads P (serialize_footer_stats P st) = Some (sort_keys (stats_json st))"
    and "utf8_ok (serialize_footer_stats P st)" "plain_stats st"
  shows "parse_footer_stats P (serialize_footer_stats P st) = Inr st"
  using assms by (rule parse_serialize_footer_stats)

theorem footer_stats_roundtrip_witness:
  "parse_footer_stats stats_reader (serialize_footer_stats stats_reader sample_stats) = Inr sample_stats"
proof (rule footer_stats_roundtrip)
  show "json_loads stats_reader (serialize_footer_stats stats_reader sample_stats) = Some (sort_keys (stats_json sample_stats))"
    by (simp add: stats_reader_def)
  show "utf8_ok (serialize_footer_stats stats_reader sample_stats)" by code_simp
  show "plain_stats sample_stats" by code_simp
qed

section \<open>Configuration, transfers and the index\<close>

text \<open>
  C38: A configuration that passes the checks reads back from its file as it was, and whatever is
  read from a file passes the checks.
\<close>

theorem config_reads_back:
  assumes "check_config c = Inr ()"
    and "json_decode P (save_config P c) = Some (config_json c)" "utf8_ok (save_config P c)"
  shows "load_config P (Some (save_config P c)) = Inr (Some c) \<and>
    (\<forall>stored c'. load_config P stored = Inr (Some c') \<longrightarrow> check_config c' = Inr ())"
  using assms(2,3) config_of_config_json [OF assms(1)] loaded_checked by (auto simp: load_config_def)

theorem config_reads_back_witness:
  "load_config config_reader (Some (save_config config_reader sample_config)) = Inr (Some sample_config)"
proof -
  have "check_config sample_config = Inr ()" by code_simp
  moreover have "utf8_ok (save_config config_reader sample_config)" by (simp add: save_config_def config_reader_def) code_simp
  ultimately show ?thesis using config_reads_back [of sample_config config_reader] by (simp add: config_reader_def)
qed



text \<open>
  C40: A build of the analytical index that returns has loaded the database from a document that
  reads back as the header and one row for each file of the commit, whatever the paths contain; the
  database is written, and no other file but the export has changed.
\<close>

theorem catalog_lists_commit:
  assumes "build_analytical_index E D clock s client_root ref output_dir export_parquet d = (Inr p, d')"
  shows "\<exists>r i c es old document content.
    (case ref of None \<Rightarrow> current_branch (rs_client s) | Some r \<Rightarrow> Inr r) = Inr r \<and> resolve_ref s r = Inr i \<and>
    fetch_commit (ev_prims E) s i = Inr c \<and> iter_all_entries (tree_loader E s) (ev_tree E) (c_tree c) = Inr es \<and>
    csv_read document = manifest_header # map (manifest_row i) es \<and> db_load D old document = (Inr (), content) \<and>
    file_in d' (ip_database p) = Some (content, clock) \<and>
    (\<forall>ps. ps \<noteq> ip_database p \<longrightarrow> Some ps \<noteq> ip_parquet p \<longrightarrow> file_in d' ps = file_in d ps)"
  using assms by (rule build_analytical_index_spec)

theorem catalog_lists_commit_witness:
  "\<exists>p d' es document. build_analytical_index sample_env sample_db 7 push_local [''data''] (Some ''main'') None False (cs_fs sample_state) = (Inr p, d') \<and>
     file_in d' (ip_database p) = Some (document, 7) \<and> csv_read document = manifest_header # map (manifest_row (dg CHR ''a'')) es"
proof -
  obtain p d' where run: "build_analytical_index sample_env sample_db 7 push_local [''data''] (Some ''main'') None False
    (cs_fs sample_state) = (Inr p, d')" using sample_catalog by blast
  from catalog_lists_commit [OF run] obtain es document where "csv_read document = manifest_header # map (manifest_row (dg CHR ''a'')) es"
    "file_in d' (ip_database p) = Some (document, 7)"
    by (auto simp: sample_pull_resolved sample_db_def)
  with run show ?thesis by blast
qed

end
